(* ===== verification/SegPoint.thy ===== *)
theory SegPoint
  imports Prelude
begin

text \<open>
  Segment points of the HyperSplit classifier (\<open>dataplane/src/acl/acl.c\<close>): a point of a dimension of
  \<open>n\<close> bits is an array of \<open>n/32\<close> words, most significant word first. This theory holds the comparison
  and copy routines, the 128-bit increment and decrement, the number a point stands for
  (\<open>pval\<close>) and the contract \<open>point_compare\<close> that the comparison routines meet over it.
\<close>

section \<open>Dimensions\<close>

definition DIM :: nat where
  "DIM = 11"

text \<open>\<open>FLAG[DIM] = {2,2,0,0,0,0,0}\<close>: the entries without an initialiser are 0.\<close>

definition FLAG :: "nat list" where
  "FLAG = [2, 2, 0, 0, 0, 0, 0, 0, 0, 0, 0]"

definition BITNUMBER :: "nat list" where
  "BITNUMBER = [32, 128, 64]"

definition bitnumber :: "nat \<Rightarrow> nat" where
  "bitnumber d = BITNUMBER ! (FLAG ! d)"

section \<open>Comparison\<close>

definition SegPointCompare32 :: "u32 list \<Rightarrow> u32 list \<Rightarrow> int" where
  "SegPointCompare32 a b =
     (if a ! 0 < b ! 0 then -1 else if a ! 0 = b ! 0 then 0 else 1)"

text \<open>The comparison loop over word \<open>i\<close> of \<open>k\<close>, shared by the routines below.\<close>

function seg_compare_loop :: "nat \<Rightarrow> nat \<Rightarrow> u32 list \<Rightarrow> u32 list \<Rightarrow> int" where
  "seg_compare_loop i k a b =
     (if i < k then
        (if a ! i < b ! i then -1
         else if a ! i = b ! i then seg_compare_loop (Suc i) k a b
         else 1)
      else 0)"
  by pat_completeness auto
termination
  by (relation "measure (\<lambda>(i, k, a, b). k - i)") auto

declare seg_compare_loop.simps [simp del]

definition SegPointCompare_64_128_nsf :: "u32 list \<Rightarrow> u32 list \<Rightarrow> nat \<Rightarrow> int res" where
  "SegPointCompare_64_128_nsf a b number_bits =
     (if number_bits mod 32 \<noteq> 0 then Inl Exit
      else Inr (seg_compare_loop 0 (number_bits div 32) a b))"

text \<open>
  \<open>SegPointCompare_64_128\<close> and \<open>SegPointCompare128\<close> run the same loop over the global
  \<open>number_bits\<close>, which the model passes as an argument.
\<close>

definition SegPointCompare_64_128 :: "nat \<Rightarrow> u32 list \<Rightarrow> u32 list \<Rightarrow> int res" where
  "SegPointCompare_64_128 number_bits a b =
     (if number_bits mod 32 \<noteq> 0 then Inl Exit
      else Inr (seg_compare_loop 0 (number_bits div 32) a b))"

definition SegPointCompare128 :: "nat \<Rightarrow> u32 list \<Rightarrow> u32 list \<Rightarrow> int res" where
  "SegPointCompare128 number_bits a b =
     (if number_bits mod 32 \<noteq> 0 then Inl Exit
      else Inr (seg_compare_loop 0 (number_bits div 32) a b))"

text \<open>The comparators of the three segment point tables, given to \<open>qsort\<close>.\<close>

definition TempSegPointCompare32 :: "u32 list \<Rightarrow> u32 list \<Rightarrow> int" where
  "TempSegPointCompare32 a b =
     (if a ! 0 < b ! 0 then -1 else if a ! 0 = b ! 0 then 0 else 1)"

definition TempSegPointCompare64 :: "u32 list \<Rightarrow> u32 list \<Rightarrow> int" where
  "TempSegPointCompare64 a b = seg_compare_loop 0 2 a b"

definition TempSegPointCompare128 :: "u32 list \<Rightarrow> u32 list \<Rightarrow> int" where
  "TempSegPointCompare128 a b = seg_compare_loop 0 4 a b"

section \<open>Copies and 128-bit arithmetic\<close>

text \<open>
  \<open>Assign\<close> copies \<open>number_of_bits/32\<close> words; its guard reads the global \<open>number_bits\<close>, not its
  parameter. The result is the destination after the copy.
\<close>

definition Assign :: "nat \<Rightarrow> u32 list \<Rightarrow> u32 list \<Rightarrow> nat \<Rightarrow> u32 list res" where
  "Assign number_bits destination source number_of_bits =
     (if number_bits mod 32 \<noteq> 0 then Inl Exit
      else if number_of_bits div 32 > length source \<or> number_of_bits div 32 > length destination
        then Inl OutOfBounds
      else Inr (take (number_of_bits div 32) source @ drop (number_of_bits div 32) destination))"

definition Assign_DiffBits :: "nat \<Rightarrow> u32 list \<Rightarrow> nat \<Rightarrow> u32 list res" where
  "Assign_DiffBits bits_destination source bits_source =
     (let d_bits = bits_destination div 32; s_bits = bits_source div 32 in
      if bits_destination mod 32 \<noteq> 0 \<or> bits_source mod 32 \<noteq> 0 \<or> bits_destination < bits_source
        then Inl Exit
      else if s_bits > length source then Inl OutOfBounds
      else Inr (replicate (d_bits - s_bits) 0 @ take s_bits source))"

text \<open>
  \<open>Subtract\<close> and \<open>Add\<close> walk from the last word to the first and stop at the first word that does
  not borrow or carry; the recursion is over the reversed array. \<open>Add\<close> also returns 1 when some
  word did not wrap and 0 when all did.
\<close>

fun sub_words :: "u32 list \<Rightarrow> u32 list" where
  "sub_words [] = []"
| "sub_words (w # ws) = (if w = 0 then (w - 1) # sub_words ws else (w - 1) # ws)"

definition Subtract :: "u32 list \<Rightarrow> nat \<Rightarrow> u32 list" where
  "Subtract array bits =
     (let n = bits div 32 in rev (sub_words (rev (take n array))) @ drop n array)"

fun add_words :: "u32 list \<Rightarrow> u32 list \<times> int" where
  "add_words [] = ([], 0)"
| "add_words (w # ws) =
     (if w + 1 > 0 then ((w + 1) # ws, 1)
      else (let (ws', r) = add_words ws in ((w + 1) # ws', r)))"

definition Add :: "u32 list \<Rightarrow> nat \<Rightarrow> u32 list \<times> int" where
  "Add array bits =
     (let n = bits div 32; (ws, r) = add_words (rev (take n array)) in (rev ws @ drop n array, r))"

section \<open>The number a point stands for\<close>

fun lval :: "u32 list \<Rightarrow> nat" where
  "lval [] = 0"
| "lval (w # ws) = unat w + 2 ^ 32 * lval ws"

definition pval :: "u32 list \<Rightarrow> nat" where
  "pval ws = lval (rev ws)"


definition cmp_nat :: "nat \<Rightarrow> nat \<Rightarrow> int" where
  "cmp_nat x y = (if x < y then -1 else if x = y then 0 else 1)"

lemma cmp_nat_iff [simp]:
  "cmp_nat x y < 0 \<longleftrightarrow> x < y" "cmp_nat x y = 0 \<longleftrightarrow> x = y" "0 < cmp_nat x y \<longleftrightarrow> y < x"
  "cmp_nat x y \<le> 0 \<longleftrightarrow> x \<le> y" "0 \<le> cmp_nat x y \<longleftrightarrow> y \<le> x" "cmp_nat x y = -1 \<longleftrightarrow> x < y"
  by (auto simp: cmp_nat_def)

lemma lval_append: "lval (xs @ ys) = lval xs + 2 ^ (32 * length xs) * lval ys"
  by (induction xs) (simp_all add: algebra_simps power_add)

lemma lval_bound: "lval ws < 2 ^ (32 * length ws)"
proof (induction ws)
  case (Cons w ws)
  have "unat w < 2 ^ 32" using unsigned_less [where ?'a = nat, of w] by simp
  with Cons.IH have "unat w + 2 ^ 32 * lval ws < 2 ^ 32 + 2 ^ 32 * lval ws"
    and "2 ^ 32 * Suc (lval ws) \<le> 2 ^ 32 * 2 ^ (32 * length ws)"
    by (auto intro: mult_le_mono2)
  then show ?case by (simp add: power_add)
qed simp

lemma pval_Nil [simp]: "pval [] = 0"
  by (simp add: pval_def)

lemma pval_Cons: "pval (w # ws) = unat w * 2 ^ (32 * length ws) + pval ws"
  by (simp add: pval_def lval_append)

lemma pval_single [simp]: "pval [w] = unat w"
  by (simp add: pval_Cons)

lemma pval_bound: "pval ws < 2 ^ (32 * length ws)"
  using lval_bound [of "rev ws"] by (simp add: pval_def)

lemma pval_zeros_append [simp]: "pval (replicate n 0 @ ws) = pval ws"
  by (induction n) (simp_all add: pval_Cons)

lemma pval_Cons_less:
  assumes "length xs = length ys" "v < w"
  shows "pval (v # xs) < pval (w # ys)"
proof -
  from assms(2) have "Suc (unat v) \<le> unat w" by (simp add: word_less_nat_alt)
  then have "Suc (unat v) * 2 ^ (32 * length xs) \<le> unat w * 2 ^ (32 * length xs)"
    by (rule mult_le_mono1)
  with pval_bound [of xs] assms(1) show ?thesis by (simp add: pval_Cons)
qed

fun list_cmp :: "u32 list \<Rightarrow> u32 list \<Rightarrow> int" where
  "list_cmp (v # xs) (w # ys) = (if v < w then -1 else if v = w then list_cmp xs ys else 1)"
| "list_cmp xs ys = 0"

lemma list_cmp_pval: "length xs = length ys \<Longrightarrow> list_cmp xs ys = cmp_nat (pval xs) (pval ys)"
proof (induction xs ys rule: list_induct2)
  case (Cons v xs w ys)
  from Cons.hyps pval_Cons_less [of xs ys v w] pval_Cons_less [of ys xs w v] Cons.IH show ?case
    by (cases v w rule: linorder_cases) (auto simp: cmp_nat_def pval_Cons)
qed (simp add: cmp_nat_def)

lemma seg_compare_loop_list_cmp:
  assumes "k \<le> length a" "k \<le> length b"
  shows "seg_compare_loop i k a b = list_cmp (drop i (take k a)) (drop i (take k b))"
  using assms
proof (induction i k a b rule: seg_compare_loop.induct)
  case (1 i k a b)
  show ?case
  proof (cases "i < k")
    case True
    then have d: "drop i (take k x) = x ! i # drop (Suc i) (take k x)" if "k \<le> length x" for x :: "u32 list"
      using that by (simp add: Cons_nth_drop_Suc [symmetric])
    show ?thesis
      using 1 True by (subst seg_compare_loop.simps) (simp add: d)
  next
    case False
    then show ?thesis by (subst seg_compare_loop.simps) simp
  qed
qed

theorem seg_compare_loop_pval:
  "k \<le> length a \<Longrightarrow> k \<le> length b \<Longrightarrow>
   seg_compare_loop 0 k a b = cmp_nat (pval (take k a)) (pval (take k b))"
  by (simp add: seg_compare_loop_list_cmp list_cmp_pval)

lemma pval_inj: "length xs = length ys \<Longrightarrow> pval xs = pval ys \<longleftrightarrow> xs = ys"
proof (induction xs ys rule: list_induct2)
  case (Cons v xs w ys)
  from Cons.hyps pval_Cons_less [of xs ys v w] pval_Cons_less [of ys xs w v] Cons.IH show ?case
    by (cases v w rule: linorder_cases) (auto simp: pval_Cons)
qed simp

section \<open>The contract of the comparison routines\<close>

text \<open>
  Every comparison routine orders the first \<open>n\<close> words of two arrays as numbers. The clients of the
  routines, the segment table, \<open>qsort\<close> and the tree, use nothing else of them.
\<close>

locale point_compare =
  fixes cmp :: "u32 list \<Rightarrow> u32 list \<Rightarrow> int" and n :: nat
  assumes cmp_pval: "n \<le> length a \<Longrightarrow> n \<le> length b \<Longrightarrow>
    cmp a b = cmp_nat (pval (take n a)) (pval (take n b))"
begin

lemma cmp_words: "length a = n \<Longrightarrow> length b = n \<Longrightarrow> cmp a b = cmp_nat (pval a) (pval b)"
  by (simp add: cmp_pval)

lemma cmp_eq_iff: "length a = n \<Longrightarrow> length b = n \<Longrightarrow> cmp a b = 0 \<longleftrightarrow> a = b"
  by (simp add: cmp_words pval_inj)

lemma cmp_antisym: "n \<le> length a \<Longrightarrow> n \<le> length b \<Longrightarrow> cmp a b = - cmp b a"
  by (simp add: cmp_pval) (simp add: cmp_nat_def)

end

lemma first_word: "1 \<le> length (a :: 'a list) \<Longrightarrow> take 1 a = [a ! 0]"
  by (cases a) auto

interpretation pc32: point_compare SegPointCompare32 1
  by unfold_locales
    (auto simp: SegPointCompare32_def cmp_nat_def first_word word_less_nat_alt word_unat_eq_iff
      simp del: One_nat_def)

interpretation tpc32: point_compare TempSegPointCompare32 1
  by unfold_locales
    (simp add: TempSegPointCompare32_def SegPointCompare32_def [symmetric] pc32.cmp_pval)

interpretation pcn: point_compare "seg_compare_loop 0 n" n for n
  by unfold_locales (simp add: seg_compare_loop_pval)

interpretation tpc64: point_compare TempSegPointCompare64 2
  by unfold_locales (simp add: TempSegPointCompare64_def seg_compare_loop_pval)

interpretation tpc128: point_compare TempSegPointCompare128 4
  by unfold_locales (simp add: TempSegPointCompare128_def seg_compare_loop_pval)

section \<open>Copies and arithmetic as numbers\<close>

lemma Assign_DiffBits_128:
  assumes "bits mod 32 = 0" "bits \<le> 128" "bits div 32 \<le> length source"
  shows "Assign_DiffBits 128 source bits =
         Inr (replicate (4 - bits div 32) 0 @ take (bits div 32) source)"
  using assms by (simp add: Assign_DiffBits_def Let_def)

lemma unat_plus_one: "w + 1 \<noteq> 0 \<Longrightarrow> unat (w + 1) = unat (w :: 'a :: len word) + 1"
  by (metis add.commute unatSuc Suc_eq_plus1)

lemma unat_max: "w + 1 = 0 \<Longrightarrow> unat (w :: u32) = 2 ^ 32 - 1"
proof -
  assume "w + 1 = 0"
  then have "w = - 1" by (simp add: eq_neg_iff_add_eq_0)
  then show ?thesis by (simp add: unsigned_minus_1_eq_mask mask_eq_exp_minus_1)
qed

lemma length_sub_words [simp]: "length (sub_words ws) = length ws"
  by (induction ws) auto

lemma lval_sub_words: "lval ws \<noteq> 0 \<Longrightarrow> Suc (lval (sub_words ws)) = lval ws"
proof (induction ws)
  case (Cons w ws)
  show ?case
  proof (cases "w = 0")
    case True
    with Cons have "Suc (lval (sub_words ws)) = lval ws" by auto
    moreover have "unat (-1 :: u32) = 2 ^ 32 - 1" by (rule unat_max) simp
    ultimately show ?thesis using True by simp
  next
    case False
    then show ?thesis
      by (simp add: unat_minus_one) (metis Suc_pred not_gr0 unat_0_iff)
  qed
qed simp

lemma length_add_words [simp]: "length (fst (add_words ws)) = length ws"
  by (induction ws) (auto simp: Let_def split: prod.splits)

lemma lval_add_words:
  "Suc (lval ws) < 2 ^ (32 * length ws) \<Longrightarrow>
   lval (fst (add_words ws)) = Suc (lval ws) \<and> snd (add_words ws) = 1"
proof (induction ws)
  case (Cons w ws)
  show ?case
  proof (cases "w + 1 = 0")
    case True
    then have w: "unat w = 2 ^ 32 - 1"
      by (rule unat_max)
    with Cons.prems have "Suc (lval ws) < 2 ^ (32 * length ws)"
      by (simp add: power_add)
    with Cons.IH have "lval (fst (add_words ws)) = Suc (lval ws)" "snd (add_words ws) = 1" by auto
    with True w show ?thesis by (cases "add_words ws") simp
  next
    case False
    then show ?thesis by (simp add: unat_plus_one word_greater_zero_iff)
  qed
qed simp

lemma Subtract_128:
  assumes "length p = 4" "pval p \<noteq> 0"
  shows "length (Subtract p 128) = 4" "pval (Subtract p 128) = pval p - 1"
  using assms lval_sub_words [of "rev p"] by (simp_all add: Subtract_def Let_def pval_def)

lemma Add_128:
  assumes "length p = 4" "Suc (pval p) < 2 ^ 128"
  shows "length (fst (Add p 128)) = 4" "pval (fst (Add p 128)) = Suc (pval p)" "snd (Add p 128) = 1"
proof -
  from assms have l: "Suc (lval (rev p)) < 2 ^ (32 * length (rev p))" by (simp add: pval_def)
  obtain ws r where aw: "add_words (rev p) = (ws, r)" by (cases "add_words (rev p)")
  with lval_add_words [OF l] length_add_words [of "rev p"] assms(1)
  have "lval ws = Suc (lval (rev p))" "r = 1" "length ws = 4" by simp_all
  with assms(1) aw
  show "length (fst (Add p 128)) = 4" "pval (fst (Add p 128)) = Suc (pval p)" "snd (Add p 128) = 1"
    by (simp_all add: Add_def Let_def pval_def)
qed

lemma pval_append: "pval (xs @ ys) = pval xs * 2 ^ (32 * length ys) + pval ys"
  by (induction xs) (simp_all add: pval_Cons algebra_simps power_add)

text \<open>The low words of a 128-bit point hold its value when the value fits them.\<close>

lemma pval_drop:
  assumes "k \<le> length p" "pval p < 2 ^ (32 * (length p - k))"
  shows "pval (drop k p) = pval p"
proof -
  have e: "pval p = pval (take k p) * 2 ^ (32 * (length p - k)) + pval (drop k p)"
    using pval_append [of "take k p" "drop k p"] by simp
  with assms(2) have "pval (take k p) = 0" by (cases "pval (take k p)") auto
  with e show ?thesis by simp
qed

end
