(* ===== verification/Segments.thy ===== *)
theory Segments
  imports SegPoint
begin

text \<open>
  The segment point tables of \<open>BuildHSTree\<close> (\<open>dataplane/src/acl/acl.c\<close>): for every dimension the
  start and end points of the rules are gathered, equal points are merged into one entry whose flag
  says whether it is a start (1), an end (2) or both (3), and the entries are counted and sorted.
  The lemmas relate a table to the set of tagged end points of the rules, as numbers:
  a start point \<open>p\<close> is \<open>2 * p\<close> and an end point \<open>p\<close> is \<open>2 * p + 1\<close>, so that the order of the numbers is
  the order of the points with the start of a point before its end.
\<close>

section \<open>Rules\<close>

record rule_t =
  pri :: u32
  action :: u32
  range :: "(u32 list \<times> u32 list) list"
  rid :: u32
  rule_id :: u32

definition range0 :: "rule_t \<Rightarrow> nat \<Rightarrow> u32 list" where
  "range0 r d = fst (range r ! d)"

definition range1 :: "rule_t \<Rightarrow> nat \<Rightarrow> u32 list" where
  "range1 r d = snd (range r ! d)"

section \<open>Segment point tables\<close>

type_synonym seg_tbl = "(u32 list \<times> nat) list"

text \<open>The first \<open>n\<close> words behind a pointer.\<close>

definition read_words :: "nat \<Rightarrow> u32 list \<Rightarrow> u32 list res" where
  "read_words n p = (if n \<le> length p then Inr (take n p) else Inl OutOfBounds)"

text \<open>\<open>segPoints\<close>: entry \<open>2 * num\<close> is the start of rule \<open>num\<close>, entry \<open>2 * num + 1\<close> its end.\<close>

fun fill_segPoints :: "nat \<Rightarrow> rule_t list \<Rightarrow> nat \<Rightarrow> u32 list list res" where
  "fill_segPoints n [] d = Inr []"
| "fill_segPoints n (r # rs) d =
     rbind (read_words n (range0 r d)) (\<lambda>a.
     rbind (read_words n (range1 r d)) (\<lambda>b.
     rbind (fill_segPoints n rs d) (\<lambda>ps. Inr (a # b # ps))))"

text \<open>
  The loop over \<open>pos\<close>: look the point up in the table, merge the flag, or append a new entry. The
  second component of the result is what the pass adds to \<open>diffSegPts_All\<close>.
\<close>

fun seg_scan :: "(u32 list \<Rightarrow> u32 list \<Rightarrow> int) \<Rightarrow> u32 list \<Rightarrow> nat \<Rightarrow> seg_tbl \<Rightarrow> (seg_tbl \<times> nat) res" where
  "seg_scan cmp p f [] = Inr ([(p, f)], 1)"
| "seg_scan cmp p f ((q, g) # t) =
     (if cmp p q = 0 then
        (if g = 3 \<or> g = f then Inr ((q, g) # t, 0)
         else if g OR f \<noteq> 3 then Inl Exit
         else Inr ((q, 3) # t, 1))
      else rbind (seg_scan cmp p f t) (\<lambda>(t', k). Inr ((q, g) # t', k)))"

text \<open>The loop over \<open>num\<close>, from entry \<open>num\<close> of \<open>segPoints\<close> on; \<open>(num & 1) + 1\<close> is the flag.\<close>

fun seg_loop :: "(u32 list \<Rightarrow> u32 list \<Rightarrow> int) \<Rightarrow> nat \<Rightarrow> u32 list list \<Rightarrow> seg_tbl \<Rightarrow> nat \<Rightarrow> (seg_tbl \<times> nat) res" where
  "seg_loop cmp num [] t al = Inr (t, al)"
| "seg_loop cmp num (p # ps) t al =
     rbind (seg_scan cmp p (num mod 2 + 1) t) (\<lambda>(t', k). seg_loop cmp (Suc num) ps t' (al + k))"

definition seg_table :: "(u32 list \<Rightarrow> u32 list \<Rightarrow> int) \<Rightarrow> u32 list list \<Rightarrow> (seg_tbl \<times> nat) res" where
  "seg_table cmp ps =
     (case ps of [] \<Rightarrow> Inl OutOfBounds | p # qs \<Rightarrow> seg_loop cmp 1 qs [(p, 1)] 1)"

text \<open>
  The comparison the counting loop of \<open>BuildHSTree\<close> uses, with \<open>number_bits\<close> set to the width of the
  dimension: \<open>SegPointCompare32\<close> up to 32 bits and \<open>SegPointCompare_64_128\<close> above.
\<close>

definition dim_cmp :: "nat \<Rightarrow> u32 list \<Rightarrow> u32 list \<Rightarrow> int" where
  "dim_cmp bits = (if bits \<le> 32 then SegPointCompare32 else seg_compare_loop 0 (bits div 32))"

text \<open>One pass of the dimension loop: \<open>(diffSegPts, diffSegPts_All)\<close>.\<close>

definition count_dim :: "rule_t list \<Rightarrow> nat \<Rightarrow> (nat \<times> nat) res" where
  "count_dim rs d =
     (let bits = bitnumber d in
      rbind (fill_segPoints (bits div 32) rs d) (\<lambda>ps.
      rbind (seg_table (dim_cmp bits) ps) (\<lambda>(t, al). Inr (length t, al))))"

text \<open>
  The loop over the dimensions: keep the dimension with the largest \<open>diffSegPts_All\<close>, the first of
  them on a tie. The state is \<open>(maxDiffSegPts, maxDiffSegPts_All, d2s)\<close>.
\<close>

definition split_dim_step :: "rule_t list \<Rightarrow> nat \<Rightarrow> nat \<times> nat \<times> nat \<Rightarrow> (nat \<times> nat \<times> nat) res" where
  "split_dim_step rs dim st =
     (case st of (mx, mxa, d2s) \<Rightarrow>
        rbind (count_dim rs dim) (\<lambda>(n, al).
          Inr (if mxa < al then (n, al, dim) else (mx, mxa, d2s))))"

definition find_split_dim :: "rule_t list \<Rightarrow> (nat \<times> nat \<times> nat) res" where
  "find_split_dim rs = rfold (split_dim_step rs) [0..<DIM] (1, 1, 0)"

text \<open>
  \<open>Assign_SegmentPoints_32/64/128\<close> gather the table again for the chosen dimension, into an array of
  \<open>maxDiffSegPts\<close> entries.
\<close>

definition Assign_SegmentPoints_32 :: "rule_t list \<Rightarrow> nat \<Rightarrow> seg_tbl res" where
  "Assign_SegmentPoints_32 rs dim =
     (if bitnumber dim > 32 then Inl Exit
      else rbind (fill_segPoints 1 rs dim) (\<lambda>ps.
           rbind (seg_table SegPointCompare32 ps) (\<lambda>(t, al). Inr t)))"

definition Assign_SegmentPoints_64 :: "rule_t list \<Rightarrow> nat \<Rightarrow> seg_tbl res" where
  "Assign_SegmentPoints_64 rs dim =
     (if bitnumber dim \<le> 32 then Inl Exit
      else rbind (fill_segPoints (bitnumber dim div 32) rs dim) (\<lambda>ps.
           rbind (seg_table (seg_compare_loop 0 (bitnumber dim div 32)) ps) (\<lambda>(t, al). Inr t)))"

definition Assign_SegmentPoints_128 :: "rule_t list \<Rightarrow> nat \<Rightarrow> seg_tbl res" where
  "Assign_SegmentPoints_128 rs dim =
     (if bitnumber dim \<le> 32 then Inl Exit
      else rbind (fill_segPoints (bitnumber dim div 32) rs dim) (\<lambda>ps.
           rbind (seg_table (seg_compare_loop 0 (bitnumber dim div 32)) ps) (\<lambda>(t, al). Inr t)))"

text \<open>\<open>qsort\<close> by a comparison routine: an insertion sort, since the entries have distinct points.\<close>

fun qinsert :: "(u32 list \<Rightarrow> u32 list \<Rightarrow> int) \<Rightarrow> u32 list \<times> nat \<Rightarrow> seg_tbl \<Rightarrow> seg_tbl" where
  "qinsert cmp x [] = [x]"
| "qinsert cmp x (y # ys) = (if cmp (fst x) (fst y) \<le> 0 then x # y # ys else y # qinsert cmp x ys)"

fun qsort :: "(u32 list \<Rightarrow> u32 list \<Rightarrow> int) \<Rightarrow> seg_tbl \<Rightarrow> seg_tbl" where
  "qsort cmp [] = []"
| "qsort cmp (x # xs) = qinsert cmp x (qsort cmp xs)"

text \<open>The sorted table of the chosen dimension; writing past \<open>maxDiffSegPts\<close> entries is a fault.\<close>

definition sorted_points :: "rule_t list \<Rightarrow> nat \<Rightarrow> nat \<Rightarrow> seg_tbl res" where
  "sorted_points rs d2s maxDiffSegPts =
     (let bits = bitnumber d2s;
          points = (if bits = 32 then Assign_SegmentPoints_32 rs d2s
                    else if bits = 64 then Assign_SegmentPoints_64 rs d2s
                    else Assign_SegmentPoints_128 rs d2s);
          cmp = (if bits = 32 then TempSegPointCompare32
                 else if bits = 64 then TempSegPointCompare64
                 else TempSegPointCompare128)
      in rbind points (\<lambda>t. if length t > maxDiffSegPts then Inl OutOfBounds else Inr (qsort cmp t)))"

text \<open>
  The loop that walks to the middle of the table, an entry of flag 3 counting twice:
  \<open>(pos, flag_pos)\<close>.
\<close>

function split_pos :: "seg_tbl \<Rightarrow> nat \<Rightarrow> nat \<Rightarrow> nat \<Rightarrow> (nat \<times> nat) res" where
  "split_pos t temp_pos pos pos_all =
     (if pos_all < temp_pos then
        (if pos \<ge> length t then Inl OutOfBounds
         else if snd (t ! pos) = 3 then
           (if pos_all + 1 = temp_pos then Inr (pos, 1)
            else split_pos t temp_pos (pos + 1) (pos_all + 2))
         else split_pos t temp_pos (pos + 1) (pos_all + 1))
      else Inr (pos, 0))"
  by pat_completeness auto
termination
  by (relation "measure (\<lambda>(t, temp_pos, pos, pos_all). temp_pos - pos_all)") auto

declare split_pos.simps [simp del]

section \<open>Tagged end points\<close>

definition lo :: "rule_t \<Rightarrow> nat \<Rightarrow> nat" where
  "lo r d = pval (take (bitnumber d div 32) (range0 r d))"

definition hi :: "rule_t \<Rightarrow> nat \<Rightarrow> nat" where
  "hi r d = pval (take (bitnumber d div 32) (range1 r d))"

text \<open>A rule whose ranges hold at least the words of their dimension, with start not after end.\<close>

definition wf_rule :: "rule_t \<Rightarrow> bool" where
  "wf_rule r \<longleftrightarrow> length (range r) = DIM \<and>
     (\<forall>d < DIM. bitnumber d div 32 \<le> length (range0 r d) \<and> bitnumber d div 32 \<le> length (range1 r d)
        \<and> lo r d \<le> hi r d)"

definition wf_rules :: "rule_t list \<Rightarrow> bool" where
  "wf_rules rs \<longleftrightarrow> list_all wf_rule rs"

definition endpoints :: "rule_t list \<Rightarrow> nat \<Rightarrow> nat set" where
  "endpoints rs d = (\<Union>r \<in> set rs. {2 * lo r d, 2 * hi r d + 1})"

text \<open>The tagged end points an entry, and a table, stands for.\<close>

definition entry_tags :: "u32 list \<times> nat \<Rightarrow> nat list" where
  "entry_tags e =
     (if snd e = 1 then [2 * pval (fst e)]
      else if snd e = 2 then [2 * pval (fst e) + 1]
      else [2 * pval (fst e), 2 * pval (fst e) + 1])"

definition tags :: "seg_tbl \<Rightarrow> nat list" where
  "tags t = concat (map entry_tags t)"

definition wf_tbl :: "nat \<Rightarrow> seg_tbl \<Rightarrow> bool" where
  "wf_tbl n t \<longleftrightarrow> (\<forall>e \<in> set t. length (fst e) = n \<and> snd e \<in> {1, 2, 3}) \<and> distinct (map fst t)"

lemma tags_simps [simp]:
  "tags [] = []" "tags (e # t) = entry_tags e @ tags t" "tags (t @ u) = tags t @ tags u"
  by (simp_all add: tags_def)

lemma wf_tbl_simps [simp]:
  "wf_tbl n []"
  "wf_tbl n (e # t) \<longleftrightarrow> length (fst e) = n \<and> snd e \<in> {1, 2, 3} \<and> fst e \<notin> fst ` set t \<and> wf_tbl n t"
  by (auto simp: wf_tbl_def)

lemma entry_tags_div: "x \<in> set (entry_tags e) \<Longrightarrow> x div 2 = pval (fst e)"
  by (auto simp: entry_tags_def split: if_splits)

lemma tags_div: "x \<in> set (tags t) \<Longrightarrow> \<exists>e \<in> set t. x div 2 = pval (fst e)"
  by (induction t) (auto dest: entry_tags_div)

lemma distinct_entry_tags: "distinct (entry_tags e)"
  by (simp add: entry_tags_def)

lemma distinct_tags: "wf_tbl n t \<Longrightarrow> distinct (tags t)"
proof (induction t)
  case (Cons e t)
  have "x \<notin> set (tags t)" if "x \<in> set (entry_tags e)" for x
  proof
    assume "x \<in> set (tags t)"
    then obtain e' where e': "e' \<in> set t" "x div 2 = pval (fst e')" by (auto dest: tags_div)
    with that have "pval (fst e) = pval (fst e')" by (simp add: entry_tags_div)
    moreover from Cons.prems e'(1) have "length (fst e') = length (fst e)" by (auto simp: wf_tbl_def)
    ultimately have "fst e = fst e'" by (simp add: pval_inj [symmetric])
    with e'(1) Cons.prems show False by auto
  qed
  with Cons show ?case by (auto simp: distinct_entry_tags)
qed simp

section \<open>The table loops over a comparison routine\<close>

fun ptags :: "nat \<Rightarrow> u32 list list \<Rightarrow> nat set" where
  "ptags num [] = {}"
| "ptags num (p # ps) = insert (2 * pval p + num mod 2) (ptags (Suc num) ps)"

lemma entry_flag_or: "g \<in> {1, 2, 3 :: nat} \<Longrightarrow> f \<in> {1, 2} \<Longrightarrow> g \<noteq> 3 \<Longrightarrow> g \<noteq> f \<Longrightarrow> g OR f = 3"
  by auto

context point_compare
begin

lemma seg_scan_ok:
  assumes "wf_tbl n t" "length p = n" "f \<in> {1, 2}"
  shows "\<exists>t' k. seg_scan cmp p f t = Inr (t', k) \<and> wf_tbl n t' \<and> fst ` set t' = insert p (fst ` set t) \<and>
           length (tags t') = length (tags t) + k \<and>
           set (tags t') = insert (2 * pval p + (f - 1)) (set (tags t))"
  using assms
proof (induction t)
  case Nil
  then show ?case by (auto simp: entry_tags_def)
next
  case (Cons e t)
  obtain q g where e: "e = (q, g)" by (cases e)
  show ?case
  proof (cases "p = q")
    case True
    with Cons.prems e entry_flag_or [of g f] show ?thesis
      by (auto simp: cmp_words entry_tags_def)
  next
    case False
    from Cons obtain t' k where "seg_scan cmp p f t = Inr (t', k)" "wf_tbl n t'"
      "fst ` set t' = insert p (fst ` set t)" "length (tags t') = length (tags t) + k"
      "set (tags t') = insert (2 * pval p + (f - 1)) (set (tags t))" by auto
    with False Cons.prems e show ?thesis by (auto simp: cmp_eq_iff)
  qed
qed

lemma seg_loop_ok:
  assumes "wf_tbl n t" "\<And>p. p \<in> set ps \<Longrightarrow> length p = n" "al = length (tags t)"
  shows "\<exists>t' al'. seg_loop cmp num ps t al = Inr (t', al') \<and> wf_tbl n t' \<and>
           al' = length (tags t') \<and> set (tags t') = set (tags t) \<union> ptags num ps"
  using assms
proof (induction ps arbitrary: num t al)
  case (Cons p ps)
  have "num mod 2 = 0 \<or> num mod 2 = Suc 0" by auto
  with Cons.prems seg_scan_ok [of t p "num mod 2 + 1"] obtain t' k where
    t': "seg_scan cmp p (num mod 2 + 1) t = Inr (t', k)" "wf_tbl n t'"
      "length (tags t') = length (tags t) + k"
      "set (tags t') = insert (2 * pval p + num mod 2) (set (tags t))" by auto
  from Cons.IH [of t' "al + k" "Suc num"] t' Cons.prems obtain t'' al'' where
    "seg_loop cmp (Suc num) ps t' (al + k) = Inr (t'', al'')" "wf_tbl n t''"
    "al'' = length (tags t'')" "set (tags t'') = set (tags t') \<union> ptags (Suc num) ps" by auto
  with t' show ?case by auto
qed simp

lemma seg_table_ok:
  assumes "ps \<noteq> []" "\<And>p. p \<in> set ps \<Longrightarrow> length p = n"
  shows "\<exists>t. seg_table cmp ps = Inr (t, card (ptags 0 ps)) \<and> wf_tbl n t \<and> set (tags t) = ptags 0 ps"
proof -
  from assms(1) obtain p qs where ps: "ps = p # qs" by (cases ps) auto
  with assms seg_loop_ok [of "[(p, 1)]" qs 1 1] obtain t al where
    "seg_loop cmp 1 qs [(p, 1)] 1 = Inr (t, al)" "wf_tbl n t" "al = length (tags t)"
    "set (tags t) = insert (2 * pval p) (ptags 1 qs)" by (auto simp: entry_tags_def)
  with ps distinct_card [OF distinct_tags, of n t] show ?thesis by (auto simp: seg_table_def)
qed

lemma mset_qinsert: "mset (qinsert cmp x xs) = add_mset x (mset xs)"
  by (induction xs) auto

lemma mset_qsort: "mset (qsort cmp xs) = mset xs"
  by (induction xs) (auto simp: mset_qinsert)

lemma set_qsort: "set (qsort cmp xs) = set xs"
  by (metis mset_qsort set_mset_mset)

lemma sorted_qinsert:
  assumes "\<And>e. e \<in> insert x (set xs) \<Longrightarrow> length (fst e) = n"
    and "sorted (map (pval \<circ> fst) xs)"
  shows "sorted (map (pval \<circ> fst) (qinsert cmp x xs))"
  using assms
proof (induction xs)
  case (Cons y ys)
  have "set (qinsert cmp x ys) = insert x (set ys)"
    by (metis mset_qinsert set_mset_mset set_mset_add_mset_insert)
  with Cons show ?case by (auto simp: cmp_words)
qed simp

lemma sorted_qsort:
  "(\<And>e. e \<in> set xs \<Longrightarrow> length (fst e) = n) \<Longrightarrow> sorted (map (pval \<circ> fst) (qsort cmp xs))"
  by (induction xs) (simp, simp only: qsort.simps, rule sorted_qinsert, simp_all add: set_qsort)

end

lemma sorted_tags:
  "wf_tbl n t \<Longrightarrow> sorted (map (pval \<circ> fst) t) \<Longrightarrow> sorted (tags t)"
proof (induction t)
  case (Cons e t)
  have "x \<le> y" if "x \<in> set (entry_tags e)" "y \<in> set (tags t)" for x y
  proof -
    from that(2) obtain e' where e': "e' \<in> set t" "y div 2 = pval (fst e')" by (auto dest: tags_div)
    with Cons.prems have "fst e \<noteq> fst e'" "length (fst e) = length (fst e')" "pval (fst e) \<le> pval (fst e')"
      by (auto simp: wf_tbl_def)
    then have "pval (fst e) < pval (fst e')" by (simp add: pval_inj [symmetric])
    with e'(2) entry_tags_div [OF that(1)] show ?thesis by linarith
  qed
  with Cons show ?case by (auto simp: sorted_append) (auto simp: entry_tags_def)
qed simp

lemma sorted_distinct_tags_eq:
  assumes "wf_tbl n t" "sorted (map (pval \<circ> fst) t)" "set (tags t) = S"
  shows "tags t = sorted_list_of_set S"
  using sorted_tags [OF assms(1,2)] distinct_tags [OF assms(1)] assms(3)
  by (metis sorted_list_of_set.idem_if_sorted_distinct)

lemma split_pos_ok:
  assumes "wf_tbl n t" "temp_pos < length (tags t)" "pos \<le> length t"
    "pos_all = length (tags (take pos t))" "pos_all \<le> temp_pos"
  shows "\<exists>pos' fp. split_pos t temp_pos pos pos_all = Inr (pos', fp) \<and> pos' < length t \<and>
     tags t ! temp_pos = 2 * pval (fst (t ! pos')) +
       (if snd (t ! pos') = 1 then 0 else if snd (t ! pos') = 2 then 1 else fp) \<and> fp \<in> {0, 1}"
  using assms
proof (induction t temp_pos pos pos_all rule: split_pos.induct)
  case (1 t temp_pos pos pos_all)
  have pos: "pos < length t"
    using "1.prems" by (metis le_neq_implies_less not_le take_all_iff order_refl)
  define e where "e = t ! pos"
  from pos have split: "tags t = tags (take pos t) @ entry_tags e @ tags (drop (Suc pos) t)"
    by (metis e_def id_take_nth_drop tags_simps(2,3))
  from pos have Suc_pos: "tags (take (Suc pos) t) = tags (take pos t) @ entry_tags e"
    by (simp add: take_Suc_conv_app_nth e_def)
  from pos "1.prems"(1) have e: "snd e \<in> {1, 2, 3}" by (simp add: e_def wf_tbl_def)
  have at: "tags t ! (pos_all + i) = entry_tags e ! i" if "i < length (entry_tags e)" for i
    using that "1.prems"(4) by (simp add: split nth_append)
  show ?case
  proof (cases "pos_all < temp_pos")
    case False
    with "1.prems"(5) at [of 0] e have "tags t ! temp_pos = hd (entry_tags e)"
      by (auto simp: entry_tags_def)
    with False pos e show ?thesis
      by (subst split_pos.simps) (auto simp: e_def [symmetric] entry_tags_def)
  next
    case True
    consider "snd e = 3" "pos_all + 1 = temp_pos" | "snd e = 3" "pos_all + 1 \<noteq> temp_pos" | "snd e \<noteq> 3" by blast
    then show ?thesis
    proof cases
      case 1
      with True pos at [of 1] show ?thesis
        by (subst split_pos.simps) (auto simp: e_def [symmetric] entry_tags_def)
    next
      case 2
      with True pos "1.IH"(1) "1.prems" Suc_pos show ?thesis
        by (subst (1) split_pos.simps) (simp add: e_def [symmetric] entry_tags_def)
    next
      case 3
      with e have len: "length (entry_tags e) = 1" by (auto simp: entry_tags_def)
      from 3 True pos have "split_pos t temp_pos pos pos_all = split_pos t temp_pos (pos + 1) (pos_all + 1)"
        by (subst split_pos.simps) (simp add: e_def)
      with 3 True pos "1.IH"(2) "1.prems" Suc_pos len show ?thesis by (simp add: e_def)
    qed
  qed
qed

section \<open>The tables of well-formed rules\<close>

lemma bitnumber_cases: "d < DIM \<Longrightarrow> bitnumber d = 32 \<or> bitnumber d = 64"
proof -
  have "list_all (\<lambda>d. bitnumber d = 32 \<or> bitnumber d = 64) [0..<DIM]" by code_simp
  then show "d < DIM \<Longrightarrow> ?thesis" by (simp add: list_all_iff)
qed

lemma bitnumber_words: "d < DIM \<Longrightarrow> 1 \<le> bitnumber d div 32 \<and> bitnumber d div 32 \<le> 2 \<and> bitnumber d mod 32 = 0"
  using bitnumber_cases [of d] by auto

lemma wf_ruleD:
  assumes "wf_rule r" "d < DIM"
  shows "bitnumber d div 32 \<le> length (range0 r d)" "bitnumber d div 32 \<le> length (range1 r d)" "lo r d \<le> hi r d"
  using assms by (auto simp: wf_rule_def)

lemma wf_rules_simps [simp]:
  "wf_rules []" "wf_rules (r # rs) \<longleftrightarrow> wf_rule r \<and> wf_rules rs"
  by (simp_all add: wf_rules_def)

lemma wf_rulesD: "wf_rules rs \<Longrightarrow> r \<in> set rs \<Longrightarrow> wf_rule r"
  by (simp add: wf_rules_def list_all_iff)

lemma fill_segPoints_ok:
  assumes "wf_rules rs" "d < DIM"
  shows "\<exists>ps. fill_segPoints (bitnumber d div 32) rs d = Inr ps \<and> (ps = [] \<longleftrightarrow> rs = []) \<and>
    (\<forall>p \<in> set ps. length p = bitnumber d div 32) \<and> (\<forall>num. even num \<longrightarrow> ptags num ps = endpoints rs d)"
  using assms(1)
proof (induction rs)
  case (Cons r rs)
  from Cons.IH Cons.prems obtain ps where
    ps: "fill_segPoints (bitnumber d div 32) rs d = Inr ps" "\<forall>p \<in> set ps. length p = bitnumber d div 32"
      "\<forall>num. even num \<longrightarrow> ptags num ps = endpoints rs d" by auto
  have "num mod 2 = 0" "Suc num mod 2 = 1" if "even num" for num :: nat
    using that by presburger+
  with ps wf_ruleD [of r d] Cons.prems assms(2) show ?case
    by (auto simp: read_words_def lo_def hi_def endpoints_def)
qed (simp add: endpoints_def)

lemma dim_cmp_point_compare: "d < DIM \<Longrightarrow> point_compare (dim_cmp (bitnumber d)) (bitnumber d div 32)"
  using bitnumber_cases [of d] pc32.point_compare_axioms pcn.point_compare_axioms [of 2]
  by (auto simp: dim_cmp_def)

lemma seg_table_rules:
  assumes "wf_rules rs" "d < DIM" "rs \<noteq> []"
  shows "\<exists>ps t. fill_segPoints (bitnumber d div 32) rs d = Inr ps \<and>
    seg_table (dim_cmp (bitnumber d)) ps = Inr (t, card (endpoints rs d)) \<and>
    wf_tbl (bitnumber d div 32) t \<and> set (tags t) = endpoints rs d"
proof -
  from fill_segPoints_ok [OF assms(1,2)] assms(3) obtain ps where
    ps: "fill_segPoints (bitnumber d div 32) rs d = Inr ps" "ps \<noteq> []"
      "\<forall>p \<in> set ps. length p = bitnumber d div 32" "ptags 0 ps = endpoints rs d" by auto
  with point_compare.seg_table_ok [OF dim_cmp_point_compare [OF assms(2)], of ps] show ?thesis by auto
qed

lemma count_dim_ok:
  assumes "wf_rules rs" "d < DIM" "rs \<noteq> []"
  shows "\<exists>n. count_dim rs d = Inr (n, card (endpoints rs d))"
  using seg_table_rules [OF assms] by (auto simp: count_dim_def Let_def)

lemma finite_endpoints [simp]: "finite (endpoints rs d)"
  by (simp add: endpoints_def)

lemma endpoints_card_ge2: "rs \<noteq> [] \<Longrightarrow> 2 \<le> card (endpoints rs d)"
proof -
  assume "rs \<noteq> []"
  then obtain r where "r \<in> set rs" by (cases rs) auto
  then have "{2 * lo r d, 2 * hi r d + 1} \<subseteq> endpoints rs d" by (auto simp: endpoints_def)
  then have "card {2 * lo r d, 2 * hi r d + 1} \<le> card (endpoints rs d)" by (rule card_mono [OF finite_endpoints])
  moreover have "card {2 * lo r d, 2 * hi r d + 1} = 2" by (subst card_2_iff) (metis even_mult_iff even_plus_one_iff even_numeral)
  ultimately show ?thesis by simp
qed

lemma split_dims_ok:
  assumes "wf_rules rs" "rs \<noteq> []" "m \<le> DIM"
  shows "\<exists>n al d2s. rfold (split_dim_step rs) [0..<m] (1, 1, 0) = Inr (n, al, d2s) \<and>
    (m = 0 \<and> al = 1 \<or> d2s < m \<and> count_dim rs d2s = Inr (n, al) \<and> al = card (endpoints rs d2s)) \<and>
    (\<forall>d < m. card (endpoints rs d) \<le> al)"
  using assms(3)
proof (induction m)
  case (Suc m)
  then obtain n al d2s where st: "rfold (split_dim_step rs) [0..<m] (1, 1, 0) = Inr (n, al, d2s)"
    "m = 0 \<and> al = 1 \<or> d2s < m \<and> count_dim rs d2s = Inr (n, al) \<and> al = card (endpoints rs d2s)"
    "\<forall>d < m. card (endpoints rs d) \<le> al" by auto
  from count_dim_ok [OF assms(1), of m] assms(2) Suc.prems obtain n' where
    cm: "count_dim rs m = Inr (n', card (endpoints rs m))" by auto
  have step: "rfold (split_dim_step rs) [0..<Suc m] (1, 1, 0) =
    Inr (if al < card (endpoints rs m) then (n', card (endpoints rs m), m) else (n, al, d2s))"
    using st(1) cm by (simp add: rfold_append) (simp add: split_dim_step_def)
  show ?case
  proof (cases "al < card (endpoints rs m)")
    case True
    with st(3) cm show ?thesis unfolding step by (auto simp: less_Suc_eq)
  next
    case False
    with st(2,3) endpoints_card_ge2 [OF assms(2), of m] show ?thesis
      unfolding step by (auto simp: less_Suc_eq)
  qed
qed simp

lemma find_split_dim_ok:
  assumes "wf_rules rs" "rs \<noteq> []"
  shows "\<exists>n al d2s. find_split_dim rs = Inr (n, al, d2s) \<and> d2s < DIM \<and>
    count_dim rs d2s = Inr (n, al) \<and> al = card (endpoints rs d2s) \<and>
    (\<forall>d < DIM. card (endpoints rs d) \<le> al)"
  using split_dims_ok [OF assms order_refl] by (auto simp: find_split_dim_def DIM_def)

lemma wf_tbl_mset:
  assumes "mset t = mset u"
  shows "wf_tbl n t \<longleftrightarrow> wf_tbl n u"
proof -
  from assms have "mset (map fst t) = mset (map fst u)" by simp
  then have "distinct (map fst t) \<longleftrightarrow> distinct (map fst u)" by (rule mset_eq_imp_distinct_iff)
  with mset_eq_setD [OF assms] show ?thesis by (simp add: wf_tbl_def)
qed

lemma set_tags: "set (tags t) = (\<Union>e \<in> set t. set (entry_tags e))"
  by (simp add: tags_def)

lemma sorted_points_ok:
  assumes "wf_rules rs" "d < DIM" "rs \<noteq> []" "count_dim rs d = Inr (n, al)"
  shows "\<exists>t. sorted_points rs d n = Inr t \<and> wf_tbl (bitnumber d div 32) t \<and> length t = n \<and>
    tags t = sorted_list_of_set (endpoints rs d)"
proof -
  define cmp where "cmp = (if bitnumber d = 32 then TempSegPointCompare32 else TempSegPointCompare64)"
  have pc: "point_compare cmp (bitnumber d div 32)"
    using bitnumber_cases [OF assms(2)] tpc32.point_compare_axioms tpc64.point_compare_axioms
    by (auto simp: cmp_def)
  from seg_table_rules [OF assms(1-3)] obtain ps t where
    t: "fill_segPoints (bitnumber d div 32) rs d = Inr ps"
      "seg_table (dim_cmp (bitnumber d)) ps = Inr (t, card (endpoints rs d))"
      "wf_tbl (bitnumber d div 32) t" "set (tags t) = endpoints rs d" by blast
  with assms(4) have n: "n = length t" by (simp add: count_dim_def Let_def)
  from t n bitnumber_cases [OF assms(2)] have "sorted_points rs d n = Inr (qsort cmp t)"
    by (auto simp: sorted_points_def Let_def cmp_def dim_cmp_def Assign_SegmentPoints_32_def
        Assign_SegmentPoints_64_def)
  moreover have wf: "wf_tbl (bitnumber d div 32) (qsort cmp t)"
    using t(3) wf_tbl_mset [OF point_compare.mset_qsort [OF pc]] by simp
  moreover have "tags (qsort cmp t) = sorted_list_of_set (endpoints rs d)"
  proof (rule sorted_distinct_tags_eq [OF wf])
    show "sorted (map (pval \<circ> fst) (qsort cmp t))"
      using t(3) by (intro point_compare.sorted_qsort [OF pc]) (auto simp: wf_tbl_def)
    show "set (tags (qsort cmp t)) = endpoints rs d"
      using t(4) by (simp add: set_tags point_compare.set_qsort [OF pc])
  qed
  moreover have "length (qsort cmp t) = n"
    using n by (metis point_compare.mset_qsort [OF pc] mset_eq_length)
  ultimately show ?thesis by blast
qed

end
