(* ===== verification/HyperSplit.thy ===== *)
theory HyperSplit
  imports Segments
begin

text \<open>
  The HyperSplit tree of \<open>dataplane/src/acl/acl.c\<close>: \<open>BuildHSTree\<close> with its statistics, on rules whose
  range pointers are valid (\<open>load_rule\<close> and the pointers are in theory \<open>LoadRule\<close>). The recursion
  takes fuel; the lemmas show that as much fuel as the rules have different tagged end points is
  enough, and that the tree meets the abstract specification \<open>hs_tree\<close>, over which the lookups are
  verified in theory \<open>HsLookup\<close>.
\<close>

section \<open>State and nodes\<close>

record hs_globals =
  number_bits :: nat
  gChildCount :: u32
  gNumTreeNode :: u32
  gNumLeafNode :: u32
  gWstDepth :: u32
  gAvgDepth :: u32
  num1 :: u32
  num2 :: u32
  num3 :: u32
  mem_stat1 :: u32
  mem_stat2 :: u32
  mem_stat3 :: u32
  gWstRange :: "(u32 list \<times> u32 list) list"

text \<open>
  \<open>hs_node_t\<close>: a node with \<open>child[0] = NULL\<close> is a leaf with \<open>flag\<close>, \<open>depth\<close>, \<open>num_rule\<close> and the rule
  array; an inner node has \<open>d2s\<close>, \<open>depth\<close>, \<open>p2s\<close> and the two children.
\<close>

datatype hs_node =
    Leaf (leaf_flag: u8) (depth: u8) (num_rule: u16) (rule: "u32 list")
  | Inner (d2s: u8) (depth: u8) (p2s: "u32 list") (child0: hs_node) (child1: hs_node)

definition Rule_Num_Threshold :: nat where
  "Rule_Num_Threshold = 0"

definition sizeof_rule_t :: u32 where
  "sizeof_rule_t = 192"

definition hs_init :: "hs_globals \<Rightarrow> hs_globals" where
  "hs_init g = g\<lparr>mem_stat1 := 0, num1 := 0, mem_stat2 := 0, num2 := 0, mem_stat3 := 0, num3 := 0,
     gChildCount := 0, gNumTreeNode := 0, gNumLeafNode := 0, gWstDepth := 0, gAvgDepth := 0\<rparr>"

section \<open>The parts of \<open>BuildHSTree\<close>\<close>

text \<open>
  \<open>ShowRule\<close> prints the words of both ends of every dimension (\<open>DEBUGv2\<close> is defined): it reads
  1, 4 or 2 words for \<open>FLAG\<close> 0, 1, 2.
\<close>

definition ShowRule :: "rule_t \<Rightarrow> unit res" where
  "ShowRule r = rfold (\<lambda>d u. rbind (read_words (bitnumber d div 32) (range0 r d)) (\<lambda>a.
     rbind (read_words (bitnumber d div 32) (range1 r d)) (\<lambda>b. Inr u))) [0..<DIM] ()"

text \<open>The counters that \<open>Assign_RuleList\<close> updates in its loop over the dimensions.\<close>

definition count_copy :: "hs_globals \<Rightarrow> hs_globals" where
  "count_copy g =
     fold (\<lambda>i g. g\<lparr>num3 := num3 g + 1, mem_stat3 := mem_stat3 g + of_nat (bitnumber i div 32 * 4 * 2)\<rparr>)
       [0..<DIM] g"

text \<open>
  \<open>Assign_RuleList\<close> copies \<open>pri\<close>, \<open>rule_id\<close> and the ranges into fresh memory; \<open>action\<close> and \<open>id\<close> of the
  copy keep the content of that memory, which is never read and is 0 here.
\<close>

definition Assign_RuleList :: "rule_t \<Rightarrow> hs_globals \<Rightarrow> (rule_t \<times> hs_globals) res" where
  "Assign_RuleList rs g =
     rbind (rmap (\<lambda>i. let bits = bitnumber i in
         rbind (Assign (number_bits g) (replicate (bits div 32) 0) (range0 rs i) bits) (\<lambda>a.
         rbind (Assign (number_bits g) (replicate (bits div 32) 0) (range1 rs i) bits) (\<lambda>b.
         Inr (a, b)))) [0..<DIM]) (\<lambda>rg.
       Inr (\<lparr>pri = pri rs, action = 0, range = rg, rid = 0, rule_id = rule_id rs\<rparr>,
            count_copy g))"

text \<open>\<open>gWstRange\<close> from the last rule of the set, \<open>ruleList[num - 1]\<close>, with \<open>bits d\<close> bits of dimension \<open>d\<close>.\<close>

definition wst_range :: "(nat \<Rightarrow> nat) \<Rightarrow> rule_t list \<Rightarrow> (u32 list \<times> u32 list) list res" where
  "wst_range bits rs =
     (if rs = [] then Inl OutOfBounds
      else rmap (\<lambda>d. rbind (Assign_DiffBits 128 (range0 (last rs) d) (bits d)) (\<lambda>a.
                     rbind (Assign_DiffBits 128 (range1 (last rs) d) (bits d)) (\<lambda>b. Inr (a, b))))
             [0..<DIM])"

text \<open>The initialisation at depth 0, which copies with the value \<open>number_bits\<close> has on entry.\<close>

definition wst_init :: "rule_t list \<Rightarrow> hs_globals \<Rightarrow> hs_globals res" where
  "wst_init rs g = rbind (wst_range (\<lambda>d. number_bits g) rs) (\<lambda>w. Inr (g\<lparr>gWstRange := w\<rparr>))"

text \<open>Both leaf branches: \<open>flag\<close> is 1 below the threshold and 0 for a leaf of the split.\<close>

definition leaf_node :: "u8 \<Rightarrow> rule_t list \<Rightarrow> u32 \<Rightarrow> hs_globals \<Rightarrow> (hs_node \<times> hs_globals) res" where
  "leaf_node flag rs dep g =
     (let g1 = g\<lparr>gChildCount := gChildCount g + 1, gNumLeafNode := gNumLeafNode g + 1\<rparr> in
      rbind (if gWstDepth g1 < dep
             then rbind (wst_range bitnumber rs) (\<lambda>w.
               Inr (g1\<lparr>gWstDepth := dep, gWstRange := w, number_bits := bitnumber (DIM - 1)\<rparr>))
             else Inr g1) (\<lambda>g2.
      Inr (Leaf flag (ucast dep) (of_nat (length rs)) (map pri rs),
           g2\<lparr>gAvgDepth := gAvgDepth g2 + dep\<rparr>)))"

text \<open>The two ways to cut at a point: before it (\<open>Subtract\<close> then \<open>Add\<close>) and after it (\<open>Add\<close>).\<close>

definition cut_before :: "u32 list \<Rightarrow> u32 list \<times> u32 list" where
  "cut_before p = (let q = Subtract p 128 in (q, fst (Add q 128)))"

definition cut_after :: "u32 list \<Rightarrow> u32 list \<times> u32 list" where
  "cut_after p = (p, fst (Add p 128))"

text \<open>
  The split of a sorted table: \<open>p2s\<close> and the ranges of the children, all of 128 bits. \<open>range[1][0]\<close>
  is \<open>p2s\<close> after the arithmetic.
\<close>

definition split_ranges ::
  "nat \<Rightarrow> seg_tbl \<Rightarrow> nat \<Rightarrow> nat \<Rightarrow> (u32 list \<times> (u32 list \<times> u32 list) \<times> (u32 list \<times> u32 list)) res" where
  "split_ranges bits t n al =
     rbind (Assign_DiffBits 128 (fst (t ! 0)) bits) (\<lambda>r00.
     rbind (Assign_DiffBits 128 (fst (t ! (n - 1))) bits) (\<lambda>r11.
     rbind (split_pos t (al div 2) 0 0) (\<lambda>(pos, flag_pos).
     if pos \<ge> length t then Inl OutOfBounds
     else rbind (Assign_DiffBits 128 (fst (t ! pos)) bits) (\<lambda>p.
       let flag_segment = snd (t ! pos);
           (r01, r10) = (if flag_segment = 1 then cut_before p
                         else if flag_segment = 2 then cut_after p
                         else if flag_pos = 0 then cut_before p
                         else cut_after p)
       in Inr (r10, (r00, r01), (r10, r11))))))"

text \<open>
  The split decision: no split when no dimension has three different tagged end points.
\<close>

definition split_decision ::
  "rule_t list \<Rightarrow> hs_globals \<Rightarrow>
   ((nat \<times> u32 list \<times> (u32 list \<times> u32 list) \<times> (u32 list \<times> u32 list)) option \<times> hs_globals) res" where
  "split_decision rs g =
     rbind (find_split_dim rs) (\<lambda>(n, al, d).
       let g1 = g\<lparr>number_bits := bitnumber d\<rparr> in
       if al \<ge> 3 then
         rbind (sorted_points rs d n) (\<lambda>t.
         rbind (split_ranges (bitnumber d) t n al) (\<lambda>s. Inr (Some (d, s), g1)))
       else Inr (None, g1))"

text \<open>
  The rules of a child: those that overlap the child's range in dimension \<open>d\<close>, copied and trimmed.
\<close>

definition overlaps :: "nat \<Rightarrow> u32 list \<Rightarrow> u32 list \<Rightarrow> rule_t \<Rightarrow> bool" where
  "overlaps d a b r \<longleftrightarrow>
     dim_cmp (bitnumber d) (range0 r d) b \<le> 0 \<and> dim_cmp (bitnumber d) (range1 r d) a \<ge> 0"

definition trim_rule :: "nat \<Rightarrow> u32 list \<Rightarrow> u32 list \<Rightarrow> rule_t \<Rightarrow> rule_t" where
  "trim_rule d a b r =
     (let s = (if dim_cmp (bitnumber d) (range0 r d) a < 0 then a else range0 r d);
          e = (if dim_cmp (bitnumber d) (range1 r d) b > 0 then b else range1 r d)
      in r\<lparr>range := (range r)[d := (s, e)]\<rparr>)"

fun copy_rules ::
  "nat \<Rightarrow> u32 list \<Rightarrow> u32 list \<Rightarrow> rule_t list \<Rightarrow> hs_globals \<Rightarrow> (rule_t list \<times> hs_globals) res" where
  "copy_rules d a b [] g = Inr ([], g)"
| "copy_rules d a b (r # rs) g =
     rbind (Assign_RuleList r g) (\<lambda>(r', g').
     rbind (copy_rules d a b rs g') (\<lambda>(rs', g'').
     Inr (trim_rule d a b r' # rs', g'')))"

definition low_words :: "nat \<Rightarrow> u32 list \<Rightarrow> u32 list" where
  "low_words bits p = drop (4 - bits div 32) p"

definition left_rules ::
  "nat \<Rightarrow> u32 list \<times> u32 list \<Rightarrow> rule_t list \<Rightarrow> hs_globals \<Rightarrow> (rule_t list \<times> hs_globals) res" where
  "left_rules d rg rs g =
     (let a = low_words (bitnumber d) (fst rg); b = low_words (bitnumber d) (snd rg);
          sel = filter (overlaps d a b) rs
      in copy_rules d a b sel
           (g\<lparr>num1 := num1 g + 1, mem_stat1 := mem_stat1 g + of_nat (length sel) * sizeof_rule_t,
              number_bits := bitnumber d\<rparr>))"

definition right_rules ::
  "nat \<Rightarrow> u32 list \<times> u32 list \<Rightarrow> rule_t list \<Rightarrow> hs_globals \<Rightarrow> (rule_t list \<times> hs_globals) res" where
  "right_rules d rg rs g =
     (let a = low_words (bitnumber d) (fst rg); b = low_words (bitnumber d) (snd rg);
          sel = filter (overlaps d a b) rs
      in copy_rules d a b sel
           (g\<lparr>num2 := num2 g + 1, mem_stat2 := mem_stat2 g + of_nat (length sel) * sizeof_rule_t,
              number_bits := bitnumber d\<rparr>))"

text \<open>The prologue of a call: statistics reset, trace output and worst range at depth 0.\<close>

definition build_prologue :: "rule_t list \<Rightarrow> u32 \<Rightarrow> hs_globals \<Rightarrow> hs_globals res" where
  "build_prologue rs dep g =
     (let g0 = (if dep = 0 then hs_init g else g) in
      rbind (rmap ShowRule rs) (\<lambda>us. if dep = 0 then wst_init rs g0 else Inr g0))"

fun BuildHSTree :: "nat \<Rightarrow> rule_t list \<Rightarrow> u32 \<Rightarrow> hs_globals \<Rightarrow> (hs_node \<times> hs_globals) res option" where
  "BuildHSTree 0 rs dep g = None"
| "BuildHSTree (Suc n) rs dep g =
     fbind (Some (build_prologue rs dep g)) (\<lambda>g1.
     if length rs \<le> Rule_Num_Threshold then Some (leaf_node 1 rs dep g1)
     else fbind (Some (split_decision rs g1)) (\<lambda>(dec, g2).
       case dec of
         None \<Rightarrow> Some (leaf_node 0 rs dep g2)
       | Some (d, p, r0, r1) \<Rightarrow>
           fbind (Some (left_rules d r0 rs (g2\<lparr>gNumTreeNode := gNumTreeNode g2 + 1\<rparr>))) (\<lambda>(ls, g3).
           fbind (BuildHSTree n ls (dep + 1) g3) (\<lambda>(c0, g4).
           fbind (Some (right_rules d r1 rs g4)) (\<lambda>(rr, g5).
           fbind (BuildHSTree n rr (dep + 1) g5) (\<lambda>(c1, g6).
           Some (Inr (Inner (of_nat d) (ucast dep) (low_words (bitnumber d) p) c0 c1, g6))))))))"

section \<open>Abstract specification\<close>

text \<open>
  A rule cut down to \<open>[a, b]\<close> in dimension \<open>d\<close>, the rules of a child, and the trees that implement a
  rule list: a leaf holds rules that agree in every dimension, an inner node cuts one dimension at
  \<open>t\<close> into \<open>[a, t - 1]\<close> and \<open>[t, b]\<close>, and its \<open>p2s\<close> is \<open>t\<close>, the first value of the right child.
\<close>

definition trimmed :: "nat \<Rightarrow> nat \<Rightarrow> nat \<Rightarrow> rule_t \<Rightarrow> rule_t \<Rightarrow> bool" where
  "trimmed d a b r r' \<longleftrightarrow> wf_rule r' \<and> pri r' = pri r \<and> rule_id r' = rule_id r \<and>
     lo r' d = max (lo r d) a \<and> hi r' d = min (hi r d) b \<and>
     (\<forall>d' < DIM. d' \<noteq> d \<longrightarrow> lo r' d' = lo r d' \<and> hi r' d' = hi r d')"

definition restricts :: "nat \<Rightarrow> nat \<Rightarrow> nat \<Rightarrow> rule_t list \<Rightarrow> rule_t list \<Rightarrow> bool" where
  "restricts d a b rs rs' \<longleftrightarrow>
     list_all2 (trimmed d a b) (filter (\<lambda>r. lo r d \<le> b \<and> a \<le> hi r d) rs) rs'"

inductive hs_tree :: "rule_t list \<Rightarrow> hs_node \<Rightarrow> bool" where
  leaf: "\<lbrakk>rs \<noteq> []; \<And>d. d < DIM \<Longrightarrow> card (endpoints rs d) \<le> 2\<rbrakk> \<Longrightarrow>
     hs_tree rs (Leaf 0 dp (of_nat (length rs)) (map pri rs))"
| inner: "\<lbrakk>d < DIM; a < t; t \<le> b; \<And>r. r \<in> set rs \<Longrightarrow> a \<le> lo r d \<and> hi r d \<le> b;
     restricts d a (t - 1) rs ls; restricts d t b rs rr; hs_tree ls c0; hs_tree rr c1;
     length p = bitnumber d div 32; pval p = t\<rbrakk> \<Longrightarrow>
     hs_tree rs (Inner (of_nat d) dp p c0 c1)"

section \<open>Each part on well-formed rules\<close>

lemma rmap_upt_ok:
  "(\<And>i. i < n \<Longrightarrow> f i = Inr (g i)) \<Longrightarrow> rmap f [0..<n] = Inr (map g [0..<n])"
  by (rule rmap_pure) simp

lemma ShowRule_ok: "wf_rule r \<Longrightarrow> ShowRule r = Inr ()"
  unfolding ShowRule_def
  by (subst rfold_pure [where g = "\<lambda>d u. u"]) (auto simp: read_words_def wf_ruleD)

lemma rmap_ShowRule_ok: "wf_rules rs \<Longrightarrow> rmap ShowRule rs = Inr (map (\<lambda>r. ()) rs)"
  by (rule rmap_pure) (simp add: ShowRule_ok wf_rulesD)

lemma wst_range_ok:
  assumes "wf_rules rs" "rs \<noteq> []" "\<And>d. d < DIM \<Longrightarrow> bits d mod 32 = 0 \<and> bits d \<le> bitnumber d"
  shows "\<exists>w. wst_range bits rs = Inr w"
proof -
  have wf: "wf_rule (last rs)" using assms(1,2) by (simp add: wf_rulesD)
  have "rmap (\<lambda>d. rbind (Assign_DiffBits 128 (range0 (last rs) d) (bits d)) (\<lambda>a.
      rbind (Assign_DiffBits 128 (range1 (last rs) d) (bits d)) (\<lambda>b. Inr (a, b)))) [0..<DIM] =
    Inr (map (\<lambda>d. (replicate (4 - bits d div 32) 0 @ take (bits d div 32) (range0 (last rs) d),
                   replicate (4 - bits d div 32) 0 @ take (bits d div 32) (range1 (last rs) d))) [0..<DIM])"
  proof (rule rmap_upt_ok)
    fix d assume d: "d < DIM"
    with assms(3) [OF d] bitnumber_cases [OF d] have "bits d mod 32 = 0" "bits d \<le> 128" by auto
    moreover have "bits d div 32 \<le> bitnumber d div 32" using assms(3) [OF d] by (simp add: div_le_mono)
    ultimately show "rbind (Assign_DiffBits 128 (range0 (last rs) d) (bits d)) (\<lambda>a.
      rbind (Assign_DiffBits 128 (range1 (last rs) d) (bits d)) (\<lambda>b. Inr (a, b))) =
      Inr (replicate (4 - bits d div 32) 0 @ take (bits d div 32) (range0 (last rs) d),
           replicate (4 - bits d div 32) 0 @ take (bits d div 32) (range1 (last rs) d))"
      using wf_ruleD [OF wf d] by (simp add: Assign_DiffBits_128)
  qed
  with assms(2) show ?thesis by (simp add: wst_range_def)
qed

lemma build_prologue_ok:
  assumes "wf_rules rs" "rs \<noteq> []" "dep = 0 \<Longrightarrow> number_bits g \<in> {0, 32}"
  shows "\<exists>w. build_prologue rs dep g =
    Inr (if dep = 0 then (hs_init g)\<lparr>gWstRange := w\<rparr> else g)"
proof (cases "dep = 0")
  case True
  have "number_bits g mod 32 = 0 \<and> number_bits g \<le> bitnumber d" if "d < DIM" for d
    using assms(3) [OF True] bitnumber_cases [OF that] by auto
  then obtain w where "wst_range (\<lambda>d. number_bits g) rs = Inr w"
    using wst_range_ok [OF assms(1,2), of "\<lambda>d. number_bits g"] by auto
  with True show ?thesis
    by (auto simp: build_prologue_def Let_def rmap_ShowRule_ok [OF assms(1)] wst_init_def hs_init_def)
qed (simp add: build_prologue_def rmap_ShowRule_ok [OF assms(1)])

lemma leaf_node_ok:
  assumes "wf_rules rs" "rs \<noteq> []"
  shows "\<exists>g'. leaf_node f rs dep g = Inr (Leaf f (ucast dep) (of_nat (length rs)) (map pri rs), g')"
proof -
  obtain w where "wst_range bitnumber rs = Inr w"
    using wst_range_ok [OF assms, of bitnumber] bitnumber_words by auto
  then show ?thesis by (simp add: leaf_node_def Let_def)
qed

subsection \<open>Copies and trims\<close>

lemma Assign_words:
  "nb mod 32 = 0 \<Longrightarrow> bits div 32 \<le> length p \<Longrightarrow>
   Assign nb (replicate (bits div 32) 0) p bits = Inr (take (bits div 32) p)"
  by (simp add: Assign_def)

definition exact_copy :: "rule_t \<Rightarrow> rule_t" where
  "exact_copy r = \<lparr>pri = pri r, action = 0,
     range = map (\<lambda>d. (take (bitnumber d div 32) (range0 r d), take (bitnumber d div 32) (range1 r d))) [0..<DIM],
     rid = 0, rule_id = rule_id r\<rparr>"

lemma Assign_RuleList_ok:
  assumes "wf_rule r" "number_bits g mod 32 = 0"
  shows "Assign_RuleList r g = Inr (exact_copy r, count_copy g)"
proof -
  have "rmap (\<lambda>i. let bits = bitnumber i in
         rbind (Assign (number_bits g) (replicate (bits div 32) 0) (range0 r i) bits) (\<lambda>a.
         rbind (Assign (number_bits g) (replicate (bits div 32) 0) (range1 r i) bits) (\<lambda>b.
         Inr (a, b)))) [0..<DIM] = Inr (range (exact_copy r))"
    unfolding exact_copy_def rule_t.simps
    by (rule rmap_upt_ok) (use assms in \<open>simp add: Let_def Assign_words wf_ruleD\<close>)
  then show ?thesis by (simp add: Assign_RuleList_def) (simp add: exact_copy_def)
qed

lemma exact_copy_simps [simp]:
  "pri (exact_copy r) = pri r" "rule_id (exact_copy r) = rule_id r" "length (range (exact_copy r)) = DIM"
  "d < DIM \<Longrightarrow> range0 (exact_copy r) d = take (bitnumber d div 32) (range0 r d)"
  "d < DIM \<Longrightarrow> range1 (exact_copy r) d = take (bitnumber d div 32) (range1 r d)"
  by (simp_all add: exact_copy_def range0_def range1_def)

lemma exact_copy_lo_hi [simp]: "d < DIM \<Longrightarrow> lo (exact_copy r) d = lo r d" "d < DIM \<Longrightarrow> hi (exact_copy r) d = hi r d"
  by (simp_all add: lo_def hi_def)

lemma number_bits_count_copy [simp]: "number_bits (count_copy g) = number_bits g"
  unfolding count_copy_def by (rule fold_invariant [where P = "\<lambda>g'. number_bits g' = number_bits g" and Q = "\<lambda>x. True"]) auto

lemma dim_cmp_pval:
  assumes "d < DIM" "bitnumber d div 32 \<le> length p" "bitnumber d div 32 \<le> length q"
  shows "dim_cmp (bitnumber d) p q =
    cmp_nat (pval (take (bitnumber d div 32) p)) (pval (take (bitnumber d div 32) q))"
  using point_compare.cmp_pval [OF dim_cmp_point_compare [OF assms(1)] assms(2,3)] .

lemma overlaps_iff:
  assumes "wf_rule r" "d < DIM" "length a = bitnumber d div 32" "length b = bitnumber d div 32"
  shows "overlaps d a b r \<longleftrightarrow> lo r d \<le> pval b \<and> pval a \<le> hi r d"
  using assms by (simp add: overlaps_def dim_cmp_pval wf_ruleD lo_def hi_def)

lemma trim_copy:
  assumes "wf_rule r" "d < DIM" "length a = bitnumber d div 32" "length b = bitnumber d div 32"
    "overlaps d a b r" "pval a \<le> pval b"
  shows "trimmed d (pval a) (pval b) r (trim_rule d a b (exact_copy r))"
proof -
  let ?r = "trim_rule d a b (exact_copy r)"
  let ?n = "\<lambda>d. bitnumber d div 32"
  have r0: "range0 ?r d' = (if d' = d then if lo r d < pval a then a else take (?n d) (range0 r d)
       else take (?n d') (range0 r d'))"
    and r1: "range1 ?r d' = (if d' = d then if hi r d > pval b then b else take (?n d) (range1 r d)
       else take (?n d') (range1 r d'))" if "d' < DIM" for d'
    using that assms(1-4) wf_ruleD [OF assms(1,2)]
    by (auto simp: trim_rule_def Let_def dim_cmp_pval lo_def hi_def range0_def range1_def exact_copy_def)
  have lo: "lo ?r d' = (if d' = d then max (lo r d) (pval a) else lo r d')"
    and hi: "hi ?r d' = (if d' = d then min (hi r d) (pval b) else hi r d')" if "d' < DIM" for d'
    using r0 [OF that] r1 [OF that] assms(3,4) by (auto simp: lo_def hi_def)
  have ov: "lo r d \<le> pval b" "pval a \<le> hi r d" using assms(1-5) by (simp_all add: overlaps_iff)
  have "wf_rule ?r"
    unfolding wf_rule_def
  proof (intro conjI allI impI)
    show "length (range ?r) = DIM" by (simp add: trim_rule_def)
    fix d' assume d': "d' < DIM"
    show "?n d' \<le> length (range0 ?r d')" "?n d' \<le> length (range1 ?r d')"
      using r0 [OF d'] r1 [OF d'] wf_ruleD [OF assms(1) d'] assms(3,4) by auto
    show "lo ?r d' \<le> hi ?r d'"
      using lo [OF d'] hi [OF d'] wf_ruleD(3) [OF assms(1) d'] ov assms(6) by auto
  qed
  then show ?thesis using lo hi assms(2) by (simp add: trimmed_def trim_rule_def)
qed

lemma copy_rules_ok:
  assumes "wf_rules rs" "d < DIM" "length a = bitnumber d div 32" "length b = bitnumber d div 32"
    "list_all (overlaps d a b) rs" "pval a \<le> pval b" "number_bits g mod 32 = 0"
  shows "\<exists>rs'. copy_rules d a b rs g = Inr (rs', (count_copy ^^ length rs) g) \<and>
    list_all2 (trimmed d (pval a) (pval b)) rs rs'"
  using assms(1,5,7)
proof (induction rs arbitrary: g)
  case (Cons r rs)
  from Cons.IH [of "count_copy g"] Cons.prems obtain rs' where
    "copy_rules d a b rs (count_copy g) = Inr (rs', (count_copy ^^ length rs) (count_copy g))"
    "list_all2 (trimmed d (pval a) (pval b)) rs rs'" by auto
  with Cons.prems trim_copy [of r d a b] assms(2-4,6) show ?case
    by (simp add: Assign_RuleList_ok funpow_swap1)
qed simp

lemma wf_rules_filter: "wf_rules rs \<Longrightarrow> wf_rules (filter P rs)"
  by (simp add: wf_rules_def list_all_iff)

lemma filter_overlaps:
  assumes "wf_rules rs" "d < DIM" "length a = bitnumber d div 32" "length b = bitnumber d div 32"
  shows "filter (overlaps d a b) rs = filter (\<lambda>r. lo r d \<le> pval b \<and> pval a \<le> hi r d) rs"
  using assms by (intro filter_cong) (auto simp: overlaps_iff wf_rulesD)

lemma child_rules_ok:
  assumes "wf_rules rs" "d < DIM" "length p = 4" "length q = 4"
    "pval p < 2 ^ bitnumber d" "pval q < 2 ^ bitnumber d" "pval p \<le> pval q"
  shows "\<exists>ls g'. left_rules d (p, q) rs g = Inr (ls, g') \<and> restricts d (pval p) (pval q) rs ls"
    and "\<exists>ls g'. right_rules d (p, q) rs g = Inr (ls, g') \<and> restricts d (pval p) (pval q) rs ls"
proof -
  let ?a = "low_words (bitnumber d) p" and ?b = "low_words (bitnumber d) q"
  have n: "bitnumber d = 32 * (bitnumber d div 32)" "bitnumber d div 32 \<le> 2"
    using bitnumber_words [OF assms(2)] by auto
  with assms(3,4) have len: "length ?a = bitnumber d div 32" "length ?b = bitnumber d div 32"
    by (simp_all add: low_words_def)
  have v: "pval ?a = pval p" "pval ?b = pval q"
    using assms(3-6) n by (simp_all add: low_words_def pval_drop)
  let ?sel = "filter (overlaps d ?a ?b) rs"
  have sel: "\<exists>rs'. copy_rules d ?a ?b ?sel g = Inr (rs', (count_copy ^^ length ?sel) g) \<and>
      restricts d (pval p) (pval q) rs rs'" if "number_bits g = bitnumber d" for g
  proof -
    have "list_all (overlaps d ?a ?b) ?sel" by (simp add: list_all_iff)
    from copy_rules_ok [OF wf_rules_filter [OF assms(1)] assms(2) len this, of g]
      that assms(7) bitnumber_words [OF assms(2)] filter_overlaps [OF assms(1,2) len]
    show ?thesis by (simp add: v restricts_def)
  qed
  show "\<exists>ls g'. left_rules d (p, q) rs g = Inr (ls, g') \<and> restricts d (pval p) (pval q) rs ls"
    using sel [of "g\<lparr>num1 := num1 g + 1,
        mem_stat1 := mem_stat1 g + of_nat (length ?sel) * sizeof_rule_t, number_bits := bitnumber d\<rparr>"]
    by (auto simp: left_rules_def Let_def)
  show "\<exists>ls g'. right_rules d (p, q) rs g = Inr (ls, g') \<and> restricts d (pval p) (pval q) rs ls"
    using sel [of "g\<lparr>num2 := num2 g + 1,
        mem_stat2 := mem_stat2 g + of_nat (length ?sel) * sizeof_rule_t, number_bits := bitnumber d\<rparr>"]
    by (auto simp: right_rules_def Let_def)
qed

subsection \<open>The split decision\<close>

lemma entry_tags_neq_Nil [simp]: "entry_tags e \<noteq> []"
  by (simp add: entry_tags_def)

lemma tags_hd: "t \<noteq> [] \<Longrightarrow> tags t \<noteq> [] \<and> pval (fst (t ! 0)) = tags t ! 0 div 2"
  by (cases t) (simp_all add: nth_append, metis entry_tags_div entry_tags_neq_Nil length_greater_0_conv nth_mem)

lemma tags_last: "t \<noteq> [] \<Longrightarrow> pval (fst (t ! (length t - 1))) = last (tags t) div 2"
proof (induction t rule: rev_induct)
  case (snoc e t)
  have "last (entry_tags e) div 2 = pval (fst e)" by (rule entry_tags_div) (rule last_in_set, simp)
  then show ?case by simp
qed simp

lemma cut_ok:
  assumes "length p = 4" "e = 2 * pval p + k" "k \<in> {0, 1 :: nat}" "0 < e" "(e + 1) div 2 < 2 ^ 128"
    "(q, p') = (if k = 0 then cut_before p else cut_after p)"
  shows "length q = 4" "length p' = 4" "pval q = (e + 1) div 2 - 1" "pval p' = (e + 1) div 2"
proof -
  have "length q = 4 \<and> length p' = 4 \<and> pval q = (e + 1) div 2 - 1 \<and> pval p' = (e + 1) div 2"
  proof (cases "k = 0")
    case True
    with assms(2,4) have nz: "pval p \<noteq> 0" by auto
    note sub = Subtract_128 [OF assms(1) this]
    have "Suc (pval (Subtract p 128)) < 2 ^ 128"
      using sub nz assms(2,5) True by simp
    with sub Add_128 [of "Subtract p 128"] True assms(2,6) nz show ?thesis
      by (auto simp: cut_before_def Let_def)
  next
    case False
    with assms(3) have b: "k = 1" by simp
    with assms(2) have e: "(e + 1) div 2 = Suc (pval p)" by simp
    with assms(5) have "Suc (pval p) < 2 ^ 128" by simp
    from Add_128 [OF assms(1) this] b e assms(1,6) show ?thesis by (auto simp: cut_after_def)
  qed
  then show "length q = 4" "length p' = 4" "pval q = (e + 1) div 2 - 1" "pval p' = (e + 1) div 2" by auto
qed

lemma split_ranges_ok:
  assumes "bits mod 32 = 0" "bits \<le> 128" "wf_tbl (bits div 32) t" "sorted (tags t)" "distinct (tags t)"
    "3 \<le> length (tags t)" "n = length t" "al = length (tags t)"
  defines "e \<equiv> tags t ! (al div 2)"
  shows "\<exists>p r00 r01 r11. split_ranges bits t n al = Inr (p, (r00, r01), (p, r11)) \<and>
    length p = 4 \<and> length r00 = 4 \<and> length r01 = 4 \<and> length r11 = 4 \<and>
    pval r00 = tags t ! 0 div 2 \<and> pval r11 = last (tags t) div 2 \<and>
    pval p = (e + 1) div 2 \<and> pval r01 = (e + 1) div 2 - 1 \<and>
    tags t ! 0 < e \<and> e < last (tags t) \<and> last (tags t) div 2 < 2 ^ bits"
proof -
  let ?w = "bits div 32"
  have bits: "32 * ?w = bits" "?w \<le> 4" using assms(1,2) by auto
  have t: "t \<noteq> []" using assms(6) by auto
  have pt: "length (fst x) = ?w" "pval (fst x) < 2 ^ bits" if "x \<in> set t" for x
    using that assms(3) pval_bound [of "fst x"] bits(1) by (auto simp: wf_tbl_def)
  have A: "Assign_DiffBits 128 (fst x) bits = Inr (replicate (4 - ?w) 0 @ fst x)"
    and lA: "length (replicate (4 - ?w) (0 :: u32) @ fst x) = 4" if "x \<in> set t" for x
    using that pt [OF that] assms(1,2) bits by (simp_all add: Assign_DiffBits_128)
  have m: "al div 2 < length (tags t) - 1" "0 < al div 2" using assms(6,8) by auto
  have lastn: "last (tags t) = tags t ! (length (tags t) - 1)"
    using t tags_hd [of t] by (simp add: last_conv_nth)
  have "sorted_wrt (<) (tags t)" using assms(4,5) by (simp add: strict_sorted_iff)
  then have "tags t ! i < tags t ! j" if "i < j" "j < length (tags t)" for i j
    using that by (rule sorted_wrt_nth_less)
  then have e: "tags t ! 0 < e" "e < last (tags t)"
    unfolding e_def lastn using m by auto
  obtain pos fp where sp: "split_pos t (al div 2) 0 0 = Inr (pos, fp)" "pos < length t" "fp \<in> {0, 1}"
    "e = 2 * pval (fst (t ! pos)) + (if snd (t ! pos) = 1 then 0 else if snd (t ! pos) = 2 then 1 else fp)"
    using split_pos_ok [OF assms(3), of "al div 2" 0 0] less_le_trans [OF m(1) diff_le_self]
    unfolding e_def by auto
  define k where "k = (if snd (t ! pos) = 1 then 0 else if snd (t ! pos) = 2 then 1 else fp)"
  define p where "p = replicate (4 - ?w) (0 :: u32) @ fst (t ! pos)"
  obtain q p' where qp: "(q, p') = (if k = 0 then cut_before p else cut_after p)"
    by (metis surj_pair)
  have pos: "t ! pos \<in> set t" "t ! 0 \<in> set t" "t ! (n - 1) \<in> set t" using sp(2) t assms(7) by auto
  have b: "last (tags t) div 2 < 2 ^ bits"
    using tags_last [OF t] pt(2) [OF pos(3)] assms(7) by simp
  have "(e + 1) div 2 < 2 ^ bits" using e(2) b by linarith
  also have "(2 :: nat) ^ bits \<le> 2 ^ 128" using assms(2) by (intro power_increasing) auto
  finally have e128: "(e + 1) div 2 < 2 ^ 128" .
  have "k \<in> {0, 1}" "0 < e" "e = 2 * pval p + k" "length p = 4"
    using sp(3,4) e(1) lA [OF pos(1)] by (auto simp: k_def p_def)
  note cut = cut_ok [OF this(4,3,1,2) e128 qp]
  have "(if snd (t ! pos) = 1 then cut_before p else if snd (t ! pos) = 2 then cut_after p
     else if fp = 0 then cut_before p else cut_after p) = (q, p')"
    using qp sp(3) by (auto simp: k_def split: if_splits)
  then have "split_ranges bits t n al = Inr (p', (replicate (4 - ?w) 0 @ fst (t ! 0), q),
      (p', replicate (4 - ?w) 0 @ fst (t ! (n - 1))))"
    using sp(1,2) by (simp add: split_ranges_def A [OF pos(1)] A [OF pos(2)] A [OF pos(3), unfolded One_nat_def] p_def [symmetric] Let_def)
  with cut e b lA [OF pos(2)] lA [OF pos(3)] tags_hd [OF t] tags_last [OF t] assms(7) show ?thesis
    by simp
qed

definition split_elem :: "rule_t list \<Rightarrow> nat \<Rightarrow> nat" where
  "split_elem rs d = sorted_list_of_set (endpoints rs d) ! (card (endpoints rs d) div 2)"

definition splits :: "rule_t list \<Rightarrow> nat \<Rightarrow> nat \<Rightarrow> nat \<Rightarrow> nat \<Rightarrow> bool" where
  "splits rs d a t b \<longleftrightarrow> d < DIM \<and> 3 \<le> card (endpoints rs d) \<and> t = (split_elem rs d + 1) div 2 \<and>
     a < t \<and> t \<le> b \<and> b < 2 ^ bitnumber d \<and>
     2 * a \<le> split_elem rs d \<and> split_elem rs d \<le> 2 * b \<and>
     a = Min (endpoints rs d) div 2 \<and> b = Max (endpoints rs d) div 2"

lemma sorted_list_of_set_ends:
  assumes "finite S" "S \<noteq> {}"
  shows "sorted_list_of_set S ! 0 = Min S" "last (sorted_list_of_set S) = Max S"
proof -
  let ?L = "sorted_list_of_set S"
  have L: "?L \<noteq> []" "sorted ?L" "set ?L = S" using assms by auto
  then have "?L ! 0 \<in> S" "last ?L \<in> S" by (metis length_greater_0_conv nth_mem, metis last_in_set)
  moreover have "?L ! 0 \<le> x" "x \<le> last ?L" if "x \<in> S" for x
  proof -
    from that L(3) obtain i where i: "i < length ?L" "x = ?L ! i" by (metis in_set_conv_nth)
    with L(2) show "?L ! 0 \<le> x" by (simp add: sorted_nth_mono)
    from i L(1,2) show "x \<le> last ?L" by (simp add: last_conv_nth sorted_nth_mono)
  qed
  ultimately show "?L ! 0 = Min S" "last ?L = Max S"
    using assms(1) by (auto intro!: Min_eqI [symmetric] Max_eqI [symmetric])
qed

lemma split_decision_ok:
  assumes "wf_rules rs" "rs \<noteq> []"
  shows "(\<exists>g'. split_decision rs g = Inr (None, g') \<and> (\<forall>d < DIM. card (endpoints rs d) \<le> 2)) \<or>
    (\<exists>d p r00 r01 r11 a t b g'. split_decision rs g = Inr (Some (d, p, (r00, r01), (p, r11)), g') \<and>
       splits rs d a t b \<and> length p = 4 \<and> length r00 = 4 \<and> length r01 = 4 \<and> length r11 = 4 \<and>
       pval r00 = a \<and> pval r01 = t - 1 \<and> pval p = t \<and> pval r11 = b)"
proof -
  from find_split_dim_ok [OF assms] obtain n al d where fd: "find_split_dim rs = Inr (n, al, d)" "d < DIM"
    "count_dim rs d = Inr (n, al)" "al = card (endpoints rs d)" "\<forall>d' < DIM. card (endpoints rs d') \<le> al" by blast
  show ?thesis
  proof (cases "al \<ge> 3")
    case False
    with fd(1,5) show ?thesis by (auto simp: split_decision_def Let_def)
  next
    case True
    from sorted_points_ok [OF assms(1) fd(2) assms(2) fd(3)] obtain t where
      t: "sorted_points rs d n = Inr t" "wf_tbl (bitnumber d div 32) t" "length t = n"
        "tags t = sorted_list_of_set (endpoints rs d)" by blast
    have S: "endpoints rs d \<noteq> {}" using True fd(4) by auto
    note ends = sorted_list_of_set_ends [OF finite_endpoints S]
    have bits: "bitnumber d mod 32 = 0" "bitnumber d \<le> 128" using bitnumber_cases [OF fd(2)] by auto
    have al: "length (tags t) = al" using t(4) fd(4) by simp
    have "\<exists>p r00 r01 r11. split_ranges (bitnumber d) t n al = Inr (p, (r00, r01), (p, r11)) \<and>
      length p = 4 \<and> length r00 = 4 \<and> length r01 = 4 \<and> length r11 = 4 \<and>
      pval r00 = Min (endpoints rs d) div 2 \<and> pval r11 = Max (endpoints rs d) div 2 \<and>
      pval p = (split_elem rs d + 1) div 2 \<and> pval r01 = (split_elem rs d + 1) div 2 - 1 \<and>
      Min (endpoints rs d) < split_elem rs d \<and> split_elem rs d < Max (endpoints rs d) \<and>
      Max (endpoints rs d) div 2 < 2 ^ bitnumber d"
      using split_ranges_ok [OF bits t(2), of n al] t(3,4) al True fd(4)
      unfolding split_elem_def ends [symmetric] by simp
    then obtain p r00 r01 r11 where sr: "split_ranges (bitnumber d) t n al = Inr (p, (r00, r01), (p, r11))"
      "length p = 4 \<and> length r00 = 4 \<and> length r01 = 4 \<and> length r11 = 4"
      "pval r00 = Min (endpoints rs d) div 2" "pval r11 = Max (endpoints rs d) div 2"
      "pval p = (split_elem rs d + 1) div 2" "pval r01 = (split_elem rs d + 1) div 2 - 1"
      "Min (endpoints rs d) < split_elem rs d" "split_elem rs d < Max (endpoints rs d)"
      "Max (endpoints rs d) div 2 < 2 ^ bitnumber d" by blast
    have "splits rs d (pval r00) (pval p) (pval r11)"
      unfolding splits_def using True fd(2,4) sr(3-9) by auto
    moreover have "split_decision rs g = Inr (Some (d, p, (r00, r01), (p, r11)), g\<lparr>number_bits := bitnumber d\<rparr>)"
      using True fd(1) t(1) sr(1) by (simp add: split_decision_def Let_def)
    ultimately show ?thesis using sr(2,5,6) by auto
  qed
qed

subsection \<open>Children are smaller\<close>

definition tag_count :: "rule_t list \<Rightarrow> nat" where
  "tag_count rs = (\<Sum>d < DIM. card (endpoints rs d))"

lemma splits_bounds: "splits rs d a t b \<Longrightarrow> r \<in> set rs \<Longrightarrow> a \<le> lo r d \<and> hi r d \<le> b"
proof -
  assume "splits rs d a t b" "r \<in> set rs"
  then have "Min (endpoints rs d) \<le> 2 * lo r d" "2 * hi r d + 1 \<le> Max (endpoints rs d)"
    "a = Min (endpoints rs d) div 2" "b = Max (endpoints rs d) div 2"
    by (auto simp: splits_def endpoints_def intro!: Min_le Max_ge)
  then show ?thesis by linarith
qed

lemma splitsD:
  assumes "splits rs d a t b"
  shows "d < DIM" "a < t" "t \<le> b" "b < 2 ^ bitnumber d" "2 * t \<le> split_elem rs d + 1" "split_elem rs d \<le> 2 * t"
  using assms unfolding splits_def by linarith+

lemma endpointsE:
  assumes "x \<in> endpoints rs d"
  obtains r where "r \<in> set rs" "x = 2 * lo r d \<or> x = 2 * hi r d + 1"
  using assms by (auto simp: endpoints_def)

lemma endpointsI: "r \<in> set rs \<Longrightarrow> 2 * lo r d \<in> endpoints rs d" "r \<in> set rs \<Longrightarrow> 2 * hi r d + 1 \<in> endpoints rs d"
  by (auto simp: endpoints_def)

lemma restrictsE:
  assumes "restricts d a b rs ls" "r' \<in> set ls"
  obtains r where "r \<in> set rs" "lo r d \<le> b" "a \<le> hi r d" "trimmed d a b r r'"
proof -
  let ?f = "filter (\<lambda>r. lo r d \<le> b \<and> a \<le> hi r d) rs"
  from assms obtain i where i: "i < length ls" "r' = ls ! i" by (auto simp: in_set_conv_nth)
  with assms(1) have "i < length ?f" and tr: "trimmed d a b (?f ! i) r'"
    by (auto simp: restricts_def list_all2_conv_all_nth)
  then have "?f ! i \<in> set ?f" by (intro nth_mem)
  with tr show thesis by (intro that [of "?f ! i"]) auto
qed

lemma restricts_endpoints_other:
  assumes "restricts d a b rs ls" "d' < DIM" "d' \<noteq> d"
  shows "endpoints ls d' \<subseteq> endpoints rs d'"
proof
  fix x assume "x \<in> endpoints ls d'"
  then obtain r' where r': "r' \<in> set ls" "x = 2 * lo r' d' \<or> x = 2 * hi r' d' + 1" by (rule endpointsE)
  from restrictsE [OF assms(1) r'(1)] obtain r where "r \<in> set rs" "trimmed d a b r r'" by blast
  with r'(2) assms(2,3) endpointsI [of r rs d'] show "x \<in> endpoints rs d'" by (auto simp: trimmed_def)
qed

lemma restricts_left_endpoints:
  assumes "splits rs d a t b" "restricts d a (t - 1) rs ls"
  shows "endpoints ls d \<subseteq> {x \<in> endpoints rs d. x < split_elem rs d} \<union> {2 * (t - 1) + 1}"
proof
  fix x assume "x \<in> endpoints ls d"
  then obtain r' where r': "r' \<in> set ls" "x = 2 * lo r' d \<or> x = 2 * hi r' d + 1" by (rule endpointsE)
  from restrictsE [OF assms(2) r'(1)] obtain r where r: "r \<in> set rs" "lo r d \<le> t - 1"
    "lo r' d = max (lo r d) a" "hi r' d = min (hi r d) (t - 1)" by (auto simp: trimmed_def)
  have t: "2 * t \<le> split_elem rs d + 1" "0 < t" using splitsD [OF assms(1)] by auto
  from r(3) splits_bounds [OF assms(1) r(1)] have lo: "lo r' d = lo r d" by simp
  from r'(2) consider "x = 2 * lo r d" | "x = 2 * hi r d + 1" "hi r d < t - 1" | "x = 2 * (t - 1) + 1"
    using lo r(4) by (cases "hi r d < t - 1") (auto simp: min_def)
  then show "x \<in> {x \<in> endpoints rs d. x < split_elem rs d} \<union> {2 * (t - 1) + 1}"
    by cases (use t r(2) endpointsI [OF r(1), of d] in auto)
qed

lemma restricts_right_endpoints:
  assumes "splits rs d a t b" "restricts d t b rs rr"
  shows "endpoints rr d \<subseteq> {x \<in> endpoints rs d. split_elem rs d < x} \<union> {2 * t}"
proof
  fix x assume "x \<in> endpoints rr d"
  then obtain r' where r': "r' \<in> set rr" "x = 2 * lo r' d \<or> x = 2 * hi r' d + 1" by (rule endpointsE)
  from restrictsE [OF assms(2) r'(1)] obtain r where r: "r \<in> set rs" "t \<le> hi r d"
    "lo r' d = max (lo r d) t" "hi r' d = min (hi r d) b" by (auto simp: trimmed_def)
  have t: "split_elem rs d \<le> 2 * t" using splitsD [OF assms(1)] by auto
  from r(4) splits_bounds [OF assms(1) r(1)] have hi: "hi r' d = hi r d" by simp
  from r'(2) consider "x = 2 * hi r d + 1" | "x = 2 * lo r d" "t < lo r d" | "x = 2 * t"
    using hi r(3) by (cases "t < lo r d") (auto simp: max_def)
  then show "x \<in> {x \<in> endpoints rs d. split_elem rs d < x} \<union> {2 * t}"
    by cases (use t r(2) endpointsI [OF r(1), of d] in auto)
qed

lemma card_below_nth:
  fixes S :: "nat set"
  assumes "finite S" "m < card S"
  shows "card {x \<in> S. x < sorted_list_of_set S ! m} = m"
    and "card {x \<in> S. sorted_list_of_set S ! m < x} = card S - m - 1"
proof -
  define L where "L = sorted_list_of_set S"
  define xs y zs where "xs = take m L" and "y = L ! m" and "zs = drop (Suc m) L"
  have L: "set L = S" "length L = card S" "distinct L" "sorted_wrt (<) L"
    using assms(1) by (auto simp: L_def strict_sorted_list_of_set)
  then have split: "L = xs @ y # zs" "length xs = m" "length zs = card S - m - 1"
    using assms(2) by (auto simp: xs_def y_def zs_def id_take_nth_drop)
  with L(4) have "{x \<in> set L. x < y} = set xs" "{x \<in> set L. y < x} = set zs"
    by (auto simp: sorted_wrt_append dest: order_less_asym)
  moreover have "distinct xs" "distinct zs" using L(3) split(1) by auto
  ultimately show "card {x \<in> S. x < sorted_list_of_set S ! m} = m"
    "card {x \<in> S. sorted_list_of_set S ! m < x} = card S - m - 1"
    using L(1) split(2,3) by (simp_all add: distinct_card y_def [symmetric] L_def [symmetric])
qed

lemma tag_count_less:
  assumes "d < DIM" "\<And>d'. d' < DIM \<Longrightarrow> d' \<noteq> d \<Longrightarrow> endpoints ls d' \<subseteq> endpoints rs d'"
    "card (endpoints ls d) < card (endpoints rs d)"
  shows "tag_count ls < tag_count rs"
  unfolding tag_count_def
proof (rule sum_strict_mono_ex1)
  show "\<forall>x \<in> {..<DIM}. card (endpoints ls x) \<le> card (endpoints rs x)"
    using assms by (metis card_mono finite_endpoints less_imp_le_nat lessThan_iff)
qed (use assms in auto)

lemma children_smaller:
  assumes "splits rs d a t b"
  shows "restricts d a (t - 1) rs ls \<Longrightarrow> tag_count ls < tag_count rs"
    and "restricts d t b rs rr \<Longrightarrow> tag_count rr < tag_count rs"
proof -
  let ?S = "endpoints rs d"
  have d: "d < DIM" and c: "3 \<le> card ?S" using assms by (auto simp: splits_def)
  have m: "card ?S div 2 < card ?S" using c by auto
  note b = card_below_nth [OF finite_endpoints m, folded split_elem_def]
  { assume r: "restricts d a (t - 1) rs ls"
    have "card (endpoints ls d) \<le> card ({x \<in> ?S. x < split_elem rs d} \<union> {2 * (t - 1) + 1})"
      using restricts_left_endpoints [OF assms r] by (intro card_mono) auto
    also have "\<dots> \<le> card ?S div 2 + 1" using b(1) by (metis card_Un_le card.empty card_insert_disjoint empty_iff finite.emptyI One_nat_def)
    finally show "tag_count ls < tag_count rs"
      using c d restricts_endpoints_other [OF r] by (intro tag_count_less) auto }
  { assume r: "restricts d t b rs rr"
    have "card (endpoints rr d) \<le> card ({x \<in> ?S. split_elem rs d < x} \<union> {2 * t})"
      using restricts_right_endpoints [OF assms r] by (intro card_mono) auto
    also have "\<dots> \<le> card ?S - card ?S div 2 - 1 + 1" using b(2) by (metis card_Un_le card.empty card_insert_disjoint empty_iff finite.emptyI One_nat_def)
    finally show "tag_count rr < tag_count rs"
      using c d restricts_endpoints_other [OF r] by (intro tag_count_less) auto }
qed

lemma restricts_wf: "restricts d a b rs ls \<Longrightarrow> wf_rules ls"
  by (auto simp: wf_rules_def list_all_iff elim!: restrictsE simp: trimmed_def)

lemma restricts_nonempty:
  assumes "restricts d a b rs ls" "r \<in> set rs" "lo r d \<le> b" "a \<le> hi r d"
  shows "ls \<noteq> []"
proof -
  from assms(2-4) have "filter (\<lambda>r. lo r d \<le> b \<and> a \<le> hi r d) rs \<noteq> []" by (auto simp: filter_empty_conv)
  with assms(1) show ?thesis by (auto simp: restricts_def)
qed

lemma children_nonempty:
  assumes "wf_rules rs" "splits rs d a t b"
  shows "restricts d a (t - 1) rs ls \<Longrightarrow> ls \<noteq> []" and "restricts d t b rs rr \<Longrightarrow> rr \<noteq> []"
proof -
  have ab: "a = Min (endpoints rs d) div 2" "b = Max (endpoints rs d) div 2" and S: "endpoints rs d \<noteq> {}"
    and d: "d < DIM" using assms(2) by (auto simp: splits_def)
  have wf: "lo r d \<le> hi r d" "a \<le> lo r d" "hi r d \<le> b" if "r \<in> set rs" for r
    using splits_bounds [OF assms(2) that] wf_ruleD(3) [OF wf_rulesD [OF assms(1) that] d] by auto
  { assume r: "restricts d a (t - 1) rs ls"
    obtain r0 where r0: "r0 \<in> set rs" "Min (endpoints rs d) = 2 * lo r0 d \<or> Min (endpoints rs d) = 2 * hi r0 d + 1"
      using Min_in [OF finite_endpoints S] by (auto elim: endpointsE)
    with wf [OF r0(1)] ab(1) have "lo r0 d \<le> a" by linarith
    with splitsD(2) [OF assms(2)] wf [OF r0(1)] r0(1) show "ls \<noteq> []"
      by (intro restricts_nonempty [OF r r0(1)]) auto }
  { assume r: "restricts d t b rs rr"
    obtain r0 where r0: "r0 \<in> set rs" "Max (endpoints rs d) = 2 * lo r0 d \<or> Max (endpoints rs d) = 2 * hi r0 d + 1"
      using Max_in [OF finite_endpoints S] by (auto elim: endpointsE)
    with wf [OF r0(1)] ab(2) have "b \<le> hi r0 d" by linarith
    with splitsD(3) [OF assms(2)] wf [OF r0(1)] r0(1) show "rr \<noteq> []"
      by (intro restricts_nonempty [OF r r0(1)]) auto }
qed

section \<open>The build\<close>

lemma tag_count_pos: "rs \<noteq> [] \<Longrightarrow> 0 < tag_count rs"
proof -
  assume "rs \<noteq> []"
  then have "2 \<le> card (endpoints rs 0)" by (rule endpoints_card_ge2)
  also have "\<dots> \<le> tag_count rs" unfolding tag_count_def by (rule member_le_sum) (auto simp: DIM_def)
  finally show ?thesis by simp
qed

lemma build_correct:
  assumes "wf_rules rs" "rs \<noteq> []" "tag_count rs \<le> n" "dep = 0 \<Longrightarrow> number_bits g \<in> {0, 32}"
    "unat dep + tag_count rs < 2 ^ 32"
  shows "\<exists>node g'. BuildHSTree n rs dep g = Some (Inr (node, g')) \<and> hs_tree rs node"
  using assms
proof (induction n arbitrary: rs dep g)
  case 0
  then show ?case using tag_count_pos [of rs] by simp
next
  case (Suc n)
  note wf = Suc.prems(1) and ne = Suc.prems(2)
  obtain g1 where g1: "build_prologue rs dep g = Inr g1"
    using build_prologue_ok [OF wf ne Suc.prems(4)] by blast
  have thr: "\<not> length rs \<le> Rule_Num_Threshold" using ne by (simp add: Rule_Num_Threshold_def)
  note step = BuildHSTree.simps(2) g1 fbind_simps thr if_False
  from split_decision_ok [OF wf ne, of g1] show ?case
  proof (elim disjE exE conjE)
    fix g2 assume leaf: "split_decision rs g1 = Inr (None, g2)" "\<forall>d < DIM. card (endpoints rs d) \<le> 2"
    obtain g3 where "leaf_node 0 rs dep g2 = Inr (Leaf 0 (ucast dep) (of_nat (length rs)) (map pri rs), g3)"
      using leaf_node_ok [OF wf ne] by blast
    with leaf ne show ?case by (auto simp only: step prod.case option.case intro!: hs_tree.leaf)
  next
    fix d p r00 r01 r11 a t b g2
    assume sd: "split_decision rs g1 = Inr (Some (d, p, (r00, r01), (p, r11)), g2)"
      and sp: "splits rs d a t b"
      and len: "length p = 4" "length r00 = 4" "length r01 = 4" "length r11 = 4"
      and val: "pval r00 = a" "pval r01 = t - 1" "pval p = t" "pval r11 = b"
    note spD = splitsD [OF sp]
    have bnd: "a < 2 ^ bitnumber d" "t - 1 < 2 ^ bitnumber d" "t < 2 ^ bitnumber d" "a \<le> t - 1"
      using spD by linarith+
    define g2' where "g2' = g2\<lparr>gNumTreeNode := gNumTreeNode g2 + 1\<rparr>"
    obtain ls g3 where L: "left_rules d (r00, r01) rs g2' = Inr (ls, g3)" "restricts d a (t - 1) rs ls"
      using child_rules_ok(1) [OF wf spD(1) len(2,3)] val bnd by (metis)
    have dep: "unat (dep + 1) = unat dep + 1" "dep + 1 \<noteq> 0"
      using Suc.prems(5) tag_count_pos [OF ne] by (simp_all add: unat_word_ariths unat_eq_0 [symmetric])
    have IH: "\<exists>node g'. BuildHSTree n cs (dep + 1) g = Some (Inr (node, g')) \<and> hs_tree cs node"
      if "wf_rules cs" "cs \<noteq> []" "tag_count cs < tag_count rs" for cs g
      using Suc.IH [OF that(1,2), of "dep + 1" g] that(3) Suc.prems(3,5) dep by auto
    obtain c0 g4 where c0: "BuildHSTree n ls (dep + 1) g3 = Some (Inr (c0, g4))" "hs_tree ls c0"
      using IH [OF restricts_wf [OF L(2)] children_nonempty(1) [OF wf sp L(2)] children_smaller(1) [OF sp L(2)]] by blast
    obtain rr g5 where R: "right_rules d (p, r11) rs g4 = Inr (rr, g5)" "restricts d t b rs rr"
      using child_rules_ok(2) [OF wf spD(1) len(1,4)] val bnd spD by (metis)
    obtain c1 g6 where c1: "BuildHSTree n rr (dep + 1) g5 = Some (Inr (c1, g6))" "hs_tree rr c1"
      using IH [OF restricts_wf [OF R(2)] children_nonempty(2) [OF wf sp R(2)] children_smaller(2) [OF sp R(2)]] by blast
    have "hs_tree rs (Inner (of_nat d) (ucast dep) (low_words (bitnumber d) p) c0 c1)"
    proof (rule hs_tree.inner [OF spD(1-3) _ L(2) R(2) c0(2) c1(2)])
      have n: "bitnumber d = 32 * (bitnumber d div 32)" "bitnumber d div 32 \<le> 2"
        using bitnumber_words [OF spD(1)] by auto
      show "length (low_words (bitnumber d) p) = bitnumber d div 32"
        using len(1) n(2) by (simp add: low_words_def)
      show "pval (low_words (bitnumber d) p) = t"
        using len(1) n val(3) bnd(3) by (simp add: low_words_def pval_drop)
    qed (rule splits_bounds [OF sp])
    then show ?case
      by (simp only: step sd L(1) c0(1) R(1) c1(1) g2'_def [symmetric] prod.case option.case) blast
  qed
qed

lemma tag_count_le: "tag_count rs \<le> 22 * length rs"
proof -
  have "card (endpoints rs d) \<le> 2 * length rs" for d
  proof (induction rs)
    case (Cons r rs)
    have "endpoints (r # rs) d = {2 * lo r d, 2 * hi r d + 1} \<union> endpoints rs d" by (simp add: endpoints_def)
    moreover have "card ({2 * lo r d, 2 * hi r d + 1} \<union> endpoints rs d) \<le> 2 + card (endpoints rs d)"
      by (rule order_trans [OF card_Un_le]) (simp add: card_insert_if)
    ultimately show ?case using Cons by simp
  qed (simp add: endpoints_def)
  then have "tag_count rs \<le> (\<Sum>d < DIM. 2 * length rs)" unfolding tag_count_def by (intro sum_mono)
  then show ?thesis by (simp add: DIM_def)
qed

section \<open>Statistics\<close>

fun leaves :: "hs_node \<Rightarrow> nat" where
  "leaves (Leaf f dp n rl) = 1"
| "leaves (Inner d dp p c0 c1) = leaves c0 + leaves c1"

fun inners :: "hs_node \<Rightarrow> nat" where
  "inners (Leaf f dp n rl) = 0"
| "inners (Inner d dp p c0 c1) = Suc (inners c0 + inners c1)"

fun tree_height :: "hs_node \<Rightarrow> nat" where
  "tree_height (Leaf f dp n rl) = 0"
| "tree_height (Inner d dp p c0 c1) = Suc (max (tree_height c0) (tree_height c1))"

text \<open>The sum of the depths of the leaves below a node of depth \<open>k\<close>.\<close>

fun leaf_depths :: "nat \<Rightarrow> hs_node \<Rightarrow> nat" where
  "leaf_depths k (Leaf f dp n rl) = k"
| "leaf_depths k (Inner d dp p c0 c1) = leaf_depths (Suc k) c0 + leaf_depths (Suc k) c1"

lemma leaves_inners: "leaves t = Suc (inners t)"
  by (induction t) auto

definition tree_stats :: "hs_globals \<Rightarrow> u32 \<times> u32 \<times> u32 \<times> u32 \<times> u32" where
  "tree_stats g = (gChildCount g, gNumTreeNode g, gNumLeafNode g, gWstDepth g, gAvgDepth g)"

lemma tree_stats_count_copy: "tree_stats (count_copy g) = tree_stats g"
  unfolding count_copy_def
  by (rule fold_invariant [where P = "\<lambda>g'. tree_stats g' = tree_stats g" and Q = "\<lambda>x. True"])
    (auto simp: tree_stats_def)

lemma tree_stats_Assign_RuleList: "Assign_RuleList r g = Inr (r', g') \<Longrightarrow> tree_stats g' = tree_stats g"
  by (auto simp: Assign_RuleList_def rbind_Inr_iff tree_stats_count_copy)

lemma tree_stats_copy_rules: "copy_rules d a b rs g = Inr (rs', g') \<Longrightarrow> tree_stats g' = tree_stats g"
  by (induction rs arbitrary: g rs') (auto simp: rbind_Inr_iff dest!: tree_stats_Assign_RuleList)

lemma tree_stats_child_rules:
  "left_rules d rg rs g = Inr (ls, g') \<Longrightarrow> tree_stats g' = tree_stats g"
  "right_rules d rg rs g = Inr (ls, g') \<Longrightarrow> tree_stats g' = tree_stats g"
  by (auto simp: left_rules_def right_rules_def Let_def dest!: tree_stats_copy_rules) (simp_all add: tree_stats_def)

lemma tree_stats_split_decision: "split_decision rs g = Inr (dec, g') \<Longrightarrow> tree_stats g' = tree_stats g"
  by (auto simp: split_decision_def Let_def rbind_Inr_iff tree_stats_def split: if_splits)

lemma tree_stats_prologue:
  "build_prologue rs dep g = Inr g' \<Longrightarrow> tree_stats g' = (if dep = 0 then (0, 0, 0, 0, 0) else tree_stats g)"
  by (auto simp: build_prologue_def Let_def rbind_Inr_iff wst_init_def hs_init_def tree_stats_def split: if_splits)

definition stats_after :: "u32 \<times> u32 \<times> u32 \<times> u32 \<times> u32 \<Rightarrow> u32 \<Rightarrow> hs_node \<Rightarrow> u32 \<times> u32 \<times> u32 \<times> u32 \<times> u32 \<Rightarrow> bool" where
  "stats_after st dep t st' \<longleftrightarrow>
     (case (st, st') of ((cc, tn, ln, wd, ad), (cc', tn', ln', wd', ad')) \<Rightarrow>
        cc' = cc + of_nat (leaves t) \<and> tn' = tn + of_nat (inners t) \<and> ln' = ln + of_nat (leaves t) \<and>
        unat wd' = max (unat wd) (unat dep + tree_height t) \<and>
        ad' = ad + of_nat (leaf_depths (unat dep) t))"

lemma stats_after_leaf:
  "leaf_node f rs dep g = Inr (t, g') \<Longrightarrow> stats_after (tree_stats g) dep t (tree_stats g')"
  by (auto simp: leaf_node_def Let_def rbind_Inr_iff stats_after_def tree_stats_def word_less_nat_alt split: if_splits)

lemma stats_after_inner:
  assumes "stats_after (cc, tn + 1, ln, wd, ad) (dep + 1) c0 st1" "stats_after st1 (dep + 1) c1 st2"
    "unat (dep + 1) = unat dep + 1"
  shows "stats_after (cc, tn, ln, wd, ad) dep (Inner d dp p c0 c1) st2"
  using assms by (auto simp: stats_after_def split: prod.splits)

lemma build_stats:
  assumes "BuildHSTree n rs dep g = Some (Inr (t, g'))" "unat dep + n < 2 ^ 32"
  shows "stats_after (if dep = 0 then (0, 0, 0, 0, 0) else tree_stats g) dep t (tree_stats g')"
  using assms
proof (induction n arbitrary: rs dep g t g')
  case (Suc n)
  from Suc.prems(1) obtain g1 where g1: "build_prologue rs dep g = Inr g1"
    by (auto simp: fbind_Some_Inr_iff)
  note st1 = tree_stats_prologue [OF g1, symmetric]
  show ?case
  proof (cases "length rs \<le> Rule_Num_Threshold")
    case True
    with Suc.prems(1) g1 have "leaf_node 1 rs dep g1 = Inr (t, g')" by simp
    then show ?thesis unfolding st1 by (rule stats_after_leaf)
  next
    case False
    with Suc.prems(1) g1 obtain dec g2 where sd: "split_decision rs g1 = Inr (dec, g2)"
      by (auto simp: fbind_Some_Inr_iff)
    note st2 = tree_stats_split_decision [OF sd]
    show ?thesis
    proof (cases dec)
      case None
      with Suc.prems(1) g1 False sd have "leaf_node 0 rs dep g2 = Inr (t, g')" by simp
      then show ?thesis unfolding st1 st2 [symmetric] by (rule stats_after_leaf)
    next
      case (Some x)
      then obtain d p r0 r1 where x: "dec = Some (d, p, r0, r1)" by (cases x) auto
      with Suc.prems(1) g1 False sd obtain ls g3 c0 g4 rr g5 c1 where
        L: "left_rules d r0 rs (g2\<lparr>gNumTreeNode := gNumTreeNode g2 + 1\<rparr>) = Inr (ls, g3)"
        and c0: "BuildHSTree n ls (dep + 1) g3 = Some (Inr (c0, g4))"
        and R: "right_rules d r1 rs g4 = Inr (rr, g5)"
        and c1: "BuildHSTree n rr (dep + 1) g5 = Some (Inr (c1, g'))"
        and t: "t = Inner (of_nat d) (ucast dep) (low_words (bitnumber d) p) c0 c1"
        by (auto simp: fbind_Some_Inr_iff)
      have dep: "unat (dep + 1) = unat dep + 1" "dep + 1 \<noteq> 0"
        using Suc.prems(2) by (simp_all add: unat_word_ariths unat_eq_0 [symmetric])
      obtain cc tn ln wd ad where s2: "tree_stats g2 = (cc, tn, ln, wd, ad)" by (cases "tree_stats g2") auto
      then have "tree_stats g3 = (cc, tn + 1, ln, wd, ad)"
        using tree_stats_child_rules(1) [OF L] by (simp add: tree_stats_def)
      with Suc.IH [OF c0] Suc.IH [OF c1] dep Suc.prems(2) tree_stats_child_rules(2) [OF R]
      have "stats_after (cc, tn + 1, ln, wd, ad) (dep + 1) c0 (tree_stats g4)"
        "stats_after (tree_stats g4) (dep + 1) c1 (tree_stats g')" by simp_all
      from stats_after_inner [OF this dep(1)] show ?thesis unfolding st1 st2 [symmetric] s2 t .
    qed
  qed
qed simp

end
