(* ===== verification/HsLookup.thy ===== *)
theory HsLookup
  imports HyperSplit
begin

text \<open>
  Lookups in a HyperSplit tree (\<open>dataplane/src/acl/acl.c\<close>): \<open>Matched\<close>, \<open>LinearSearch\<close>, \<open>LookupHSTree\<close>,
  \<open>LookupPacket\<close>, and the release of a tree by \<open>FreeRootNode\<close>. The lemmas show over the abstract
  trees \<open>hs_tree\<close> that \<open>LookupPacket\<close> finds the rules a linear search finds, in the same order.
\<close>

section \<open>Lookups\<close>

text \<open>\<open>packet[DIM][4]\<close>; dimension \<open>d\<close> is read at \<open>&packet[d][4 - number_bits/32]\<close>.\<close>

type_synonym packet = "u32 list list"

definition wf_packet :: "packet \<Rightarrow> bool" where
  "wf_packet pkt \<longleftrightarrow> length pkt = DIM \<and> list_all (\<lambda>ws. length ws = 4) pkt"

definition packet_words :: "packet \<Rightarrow> nat \<Rightarrow> u32 list" where
  "packet_words pkt d = drop (4 - bitnumber d div 32) (pkt ! d)"

fun matched_from :: "nat list \<Rightarrow> rule_t \<Rightarrow> packet \<Rightarrow> int res" where
  "matched_from [] r pkt = Inr 1"
| "matched_from (d # ds) r pkt =
     rbind (SegPointCompare_64_128 (bitnumber d) (packet_words pkt d) (range0 r d)) (\<lambda>temp1.
     rbind (SegPointCompare_64_128 (bitnumber d) (range1 r d) (packet_words pkt d)) (\<lambda>temp2.
       if temp1 \<noteq> -1 \<and> temp2 \<noteq> -1 then matched_from ds r pkt else Inr 0))"

definition Matched :: "rule_t \<Rightarrow> packet \<Rightarrow> int res" where
  "Matched r pkt = matched_from [0..<DIM] r pkt"

fun linear_search_loop :: "rule_t list \<Rightarrow> u32 list \<Rightarrow> packet \<Rightarrow> u32 list res" where
  "linear_search_loop rs [] pkt = Inr []"
| "linear_search_loop rs (p # ps) pkt =
     (if unat p \<ge> length rs then Inl OutOfBounds
      else rbind (Matched (rs ! unat p) pkt) (\<lambda>m.
           rbind (linear_search_loop rs ps pkt) (\<lambda>ms.
           Inr (if m = 1 then p # ms else ms))))"

definition LinearSearch :: "rule_t list \<Rightarrow> u32 list \<Rightarrow> packet \<Rightarrow> u32 list res" where
  "LinearSearch rs rule_pri pkt =
     rbind (linear_search_loop rs rule_pri pkt) (\<lambda>ms. if ms = [] then Inl Exit else Inr ms)"

text \<open>The descent; \<open>go_left\<close> is the test at an inner node on the value of the comparison.\<close>

fun descend :: "(int \<Rightarrow> bool) \<Rightarrow> hs_node \<Rightarrow> packet \<Rightarrow> hs_node res" where
  "descend go_left (Leaf f dp n rl) pkt = Inr (Leaf f dp n rl)"
| "descend go_left (Inner d dp p c0 c1) pkt =
     rbind (SegPointCompare_64_128_nsf (packet_words pkt (unat d)) p (bitnumber (unat d))) (\<lambda>c.
       if go_left c then descend go_left c0 pkt else descend go_left c1 pkt)"

text \<open>
  \<open>LookupHSTree\<close> goes left on \<open><= 0\<close>, \<open>LookupPacket\<close> on \<open>< 0\<close>. \<open>None\<close> is the return value 0; the leaf
  is what \<open>*hitnode\<close> is set to.
\<close>

definition LookupHSTree :: "packet \<Rightarrow> rule_t list \<Rightarrow> hs_node \<Rightarrow> hs_node option res" where
  "LookupHSTree pkt rs root =
     (if rs = [] then Inr None
      else rbind (descend (\<lambda>c. c \<le> 0) root pkt) (\<lambda>node. Inr (Some node)))"

definition LookupPacket :: "rule_t list \<Rightarrow> hs_node \<Rightarrow> packet \<Rightarrow> hs_node option res" where
  "LookupPacket rs root pkt =
     rbind (descend (\<lambda>c. c < 0) root pkt) (\<lambda>node.
     if leaf_flag node = 1
     then rbind (LinearSearch rs (take (unat (num_rule node)) (rule node)) pkt) (\<lambda>ms. Inr (Some node))
     else Inr (Some node))"

section \<open>Release of a tree\<close>

text \<open>
  The heap objects of a tree, named by the path from the root (\<open>False\<close> is \<open>child[0]\<close>): the nodes
  below the root, the rule arrays of the leaves and the thresholds of the inner nodes.
\<close>

datatype hs_obj = NodeObj "bool list" | RuleObj "bool list" | P2sObj "bool list"

fun hs_allocs :: "hs_node \<Rightarrow> bool list \<Rightarrow> hs_obj list" where
  "hs_allocs (Leaf f dp n rl) path = [RuleObj path]"
| "hs_allocs (Inner d dp p c0 c1) path =
     P2sObj path # NodeObj (path @ [False]) # hs_allocs c0 (path @ [False]) @
     NodeObj (path @ [True]) # hs_allocs c1 (path @ [True])"

text \<open>\<open>_FreeRootNode\<close>: the calls of \<open>free\<close> in order.\<close>

fun free_root_node :: "hs_node \<Rightarrow> nat \<Rightarrow> bool list \<Rightarrow> hs_obj list" where
  "free_root_node (Leaf f dp n rl) dep path =
     (if dep = 0 then [] else [RuleObj path, NodeObj path])"
| "free_root_node (Inner d dp p c0 c1) dep path =
     free_root_node c0 (dep + 1) (path @ [False]) @ free_root_node c1 (dep + 1) (path @ [True]) @
     (if dep \<noteq> 0 then [P2sObj path, NodeObj path] else [P2sObj path])"

definition FreeRootNode :: "hs_node \<Rightarrow> hs_obj list" where
  "FreeRootNode root = free_root_node root 0 []"

section \<open>Matching as numbers\<close>

definition packet_val :: "packet \<Rightarrow> nat \<Rightarrow> nat" where
  "packet_val pkt d = pval (packet_words pkt d)"

definition matches :: "rule_t \<Rightarrow> packet \<Rightarrow> bool" where
  "matches r pkt \<longleftrightarrow> (\<forall>d < DIM. lo r d \<le> packet_val pkt d \<and> packet_val pkt d \<le> hi r d)"

lemma packet_words_length: "wf_packet pkt \<Longrightarrow> d < DIM \<Longrightarrow> length (packet_words pkt d) = bitnumber d div 32"
  using bitnumber_cases [of d] by (auto simp: wf_packet_def packet_words_def list_all_length)

lemma compare_packet:
  assumes "wf_packet pkt" "d < DIM" "bitnumber d div 32 \<le> length p"
  shows "SegPointCompare_64_128 (bitnumber d) (packet_words pkt d) p =
      Inr (cmp_nat (packet_val pkt d) (pval (take (bitnumber d div 32) p)))"
    and "SegPointCompare_64_128 (bitnumber d) p (packet_words pkt d) =
      Inr (cmp_nat (pval (take (bitnumber d div 32) p)) (packet_val pkt d))"
    and "SegPointCompare_64_128_nsf (packet_words pkt d) p (bitnumber d) =
      Inr (cmp_nat (packet_val pkt d) (pval (take (bitnumber d div 32) p)))"
  using assms bitnumber_words [of d]
  by (simp_all add: SegPointCompare_64_128_def SegPointCompare_64_128_nsf_def seg_compare_loop_pval
      packet_words_length packet_val_def)

lemma matched_from_iff:
  assumes "wf_rule r" "wf_packet pkt" "list_all (\<lambda>d. d < DIM) ds"
  shows "matched_from ds r pkt =
    Inr (if list_all (\<lambda>d. lo r d \<le> packet_val pkt d \<and> packet_val pkt d \<le> hi r d) ds then 1 else 0)"
  using assms(3)
  by (induction ds) (auto simp: compare_packet [OF assms(2)] wf_ruleD [OF assms(1)] lo_def hi_def not_less)

lemma Matched_iff: "wf_rule r \<Longrightarrow> wf_packet pkt \<Longrightarrow> Matched r pkt = Inr (if matches r pkt then 1 else 0)"
  by (auto simp: Matched_def matched_from_iff matches_def list_all_iff)

section \<open>Lookup in abstract trees\<close>

lemma restricts_matches:
  assumes "restricts d a b rs ls" "d < DIM" "\<And>r. r \<in> set rs \<Longrightarrow> matches r pkt \<Longrightarrow> a \<le> packet_val pkt d \<and> packet_val pkt d \<le> b"
  shows "map pri (filter (\<lambda>r. matches r pkt) ls) = map pri (filter (\<lambda>r. matches r pkt) rs)"
proof -
  let ?f = "filter (\<lambda>r. lo r d \<le> b \<and> a \<le> hi r d) rs"
  have "list_all2 (trimmed d a b) ?f ls" using assms(1) by (simp add: restricts_def)
  moreover have "set ?f \<subseteq> set rs" by auto
  ultimately have "map pri (filter (\<lambda>r. matches r pkt) ls) = map pri (filter (\<lambda>r. matches r pkt) ?f)"
  proof (induction rule: list_all2_induct)
    case (Cons r xs r' ys)
    have "matches r pkt \<longleftrightarrow> matches r' pkt"
    proof
      assume m: "matches r pkt"
      with assms(3) [of r] Cons.prems have "a \<le> packet_val pkt d" "packet_val pkt d \<le> b" by auto
      with m Cons.hyps(1) show "matches r' pkt" unfolding matches_def trimmed_def by (metis max.bounded_iff min.bounded_iff)
    next
      assume "matches r' pkt"
      with Cons.hyps(1) assms(2) show "matches r pkt" unfolding matches_def trimmed_def by (metis max.bounded_iff min.bounded_iff)
    qed
    with Cons show ?case by (simp add: trimmed_def)
  qed simp
  also have "filter (\<lambda>r. matches r pkt) ?f = filter (\<lambda>r. matches r pkt) rs"
  proof -
    have "lo r d \<le> b \<and> a \<le> hi r d" if "r \<in> set rs" "matches r pkt" for r
      using assms(3) [OF that] that(2) assms(2) unfolding matches_def by (meson order_trans)
    then show ?thesis by (auto intro!: filter_cong)
  qed
  finally show ?thesis .
qed

text \<open>In a leaf all rules have the same range in every dimension.\<close>

lemma leaf_rules_agree:
  assumes "card (endpoints rs d) \<le> 2" "r \<in> set rs" "r' \<in> set rs"
  shows "lo r d = lo r' d \<and> hi r d = hi r' d"
proof -
  have two: "card {2 * lo r d, 2 * hi r d + 1} = 2" by (subst card_2_iff) (metis even_mult_iff even_plus_one_iff even_numeral)
  have "{2 * lo r d, 2 * hi r d + 1} \<subseteq> endpoints rs d" using endpointsI [OF assms(2)] by simp
  then have "endpoints rs d = {2 * lo r d, 2 * hi r d + 1}"
    using assms(1) two by (metis card_seteq finite_endpoints)
  with endpointsI [OF assms(3), of d] have "2 * lo r' d = 2 * lo r d \<or> 2 * lo r' d = 2 * hi r d + 1"
    "2 * hi r' d + 1 = 2 * lo r d \<or> 2 * hi r' d + 1 = 2 * hi r d + 1" by auto
  then show ?thesis by presburger
qed

lemma of_nat_dim: "d < DIM \<Longrightarrow> unat (of_nat d :: u8) = d"
  by (simp add: unat_of_nat DIM_def)

lemma hs_tree_descend:
  assumes "hs_tree rs t" "wf_packet pkt"
  shows "\<exists>dp n rl. descend (\<lambda>c. c < 0) t pkt = Inr (Leaf 0 dp n rl) \<and> rl \<noteq> [] \<and> n = of_nat (length rl) \<and>
    ((\<exists>r \<in> set rs. matches r pkt) \<longrightarrow> rl = map pri (filter (\<lambda>r. matches r pkt) rs))"
  using assms(1)
proof (induction rule: hs_tree.induct)
  case (leaf rs dp)
  have agree: "matches r' pkt" if "r \<in> set rs" "matches r pkt" "r' \<in> set rs" for r r'
    using leaf_rules_agree [OF leaf(2) that(1,3)] that(2) by (simp add: matches_def)
  have "filter (\<lambda>r. matches r pkt) rs = rs" if "r \<in> set rs" "matches r pkt" for r
    unfolding filter_id_conv using agree [OF that] by blast
  with leaf(1) show ?case by auto
next
  case (inner d a t b rs ls rr c0 c1 p dp)
  let ?v = "packet_val pkt d"
  note cmp = compare_packet(3) [OF assms(2) inner.hyps(1), of p]
  have step: "descend (\<lambda>c. c < 0) (Inner (of_nat d) dp p c0 c1) pkt =
      (if ?v < t then descend (\<lambda>c. c < 0) c0 pkt else descend (\<lambda>c. c < 0) c1 pkt)"
    using cmp inner.hyps(9,10) by (simp add: of_nat_dim [OF inner.hyps(1)])
  have b: "a \<le> ?v \<and> ?v \<le> b" if "r \<in> set rs" "matches r pkt" for r
    using inner.hyps(4) [OF that(1)] that(2) inner.hyps(1) unfolding matches_def by (meson order_trans)
  have ex: "(\<exists>r \<in> set cs. matches r pkt)"
    if "map pri (filter (\<lambda>r. matches r pkt) cs) = map pri (filter (\<lambda>r. matches r pkt) rs)" "\<exists>r \<in> set rs. matches r pkt" for cs
    using that by (metis (mono_tags, lifting) filter_empty_conv map_is_Nil_conv)
  show ?case
  proof (cases "?v < t")
    case True
    then have "map pri (filter (\<lambda>r. matches r pkt) ls) = map pri (filter (\<lambda>r. matches r pkt) rs)"
      using b by (intro restricts_matches [OF inner.hyps(5,1)]) auto
    with ex [of ls] inner.IH(1) True show ?thesis unfolding step by auto
  next
    case False
    then have "map pri (filter (\<lambda>r. matches r pkt) rr) = map pri (filter (\<lambda>r. matches r pkt) rs)"
      using b by (intro restricts_matches [OF inner.hyps(6,1)]) auto
    with ex [of rr] inner.IH(2) False show ?thesis unfolding step by auto
  qed
qed

lemma LookupPacket_hs_tree:
  assumes "hs_tree rs t" "wf_rules rs" "wf_packet pkt"
  shows "\<exists>leaf. LookupPacket rs t pkt = Inr (Some leaf) \<and> rule leaf \<noteq> [] \<and> num_rule leaf = of_nat (length (rule leaf)) \<and>
    ((\<exists>r \<in> set rs. Matched r pkt = Inr 1) \<longrightarrow> rule leaf = map pri (filter (\<lambda>r. Matched r pkt = Inr 1) rs))"
proof -
  have m: "Matched r pkt = Inr 1 \<longleftrightarrow> matches r pkt" if "r \<in> set rs" for r
    using that assms(2,3) by (simp add: Matched_iff wf_rulesD)
  then have f: "filter (\<lambda>r. Matched r pkt = Inr 1) rs = filter (\<lambda>r. matches r pkt) rs" by (rule filter_cong [OF refl])
  from hs_tree_descend [OF assms(1,3)] show ?thesis
    unfolding f by (auto simp: LookupPacket_def m)
qed

section \<open>\<open>LinearSearch\<close>\<close>

lemma linear_search_loop_ok:
  assumes "wf_rules rs" "wf_packet pkt" "list_all (\<lambda>p. unat p < length rs) ps"
  shows "linear_search_loop rs ps pkt = Inr (filter (\<lambda>p. matches (rs ! unat p) pkt) ps)"
  using assms(3) by (induction ps) (auto simp: Matched_iff wf_rulesD [OF assms(1)] assms(2))

section \<open>Release\<close>

lemma mset_free_root_node:
  "dep \<noteq> 0 \<Longrightarrow> mset (free_root_node t dep path) = add_mset (NodeObj path) (mset (hs_allocs t path))"
  by (induction t arbitrary: dep path) auto

fun obj_path :: "hs_obj \<Rightarrow> bool list" where
  "obj_path (NodeObj p) = p"
| "obj_path (RuleObj p) = p"
| "obj_path (P2sObj p) = p"

lemma hs_allocs_path: "x \<in> set (hs_allocs t path) \<Longrightarrow> \<exists>q. obj_path x = path @ q \<and> (q = [] \<longrightarrow> x \<noteq> NodeObj path)"
  by (induction t arbitrary: path) fastforce+

lemma distinct_hs_allocs: "distinct (hs_allocs t path)"
proof (induction t arbitrary: path)
  case (Inner d dp p c0 c1)
  have "x \<noteq> y" if "x \<in> set (hs_allocs c0 (path @ [False]))" "y \<in> set (hs_allocs c1 (path @ [True]))" for x y
    using hs_allocs_path [OF that(1)] hs_allocs_path [OF that(2)] by auto
  moreover have "P2sObj path \<notin> set (hs_allocs c (path @ [k]))" "NodeObj (path @ [j]) \<notin> set (hs_allocs c (path @ [k]))" for c j k
    using hs_allocs_path [of "P2sObj path" c "path @ [k]"] hs_allocs_path [of "NodeObj (path @ [j])" c "path @ [k]"] by auto
  ultimately show ?case using Inner by auto
qed simp

end
