(* ===== verification/HsTheorems.thy ===== *)
theory HsTheorems
  imports HsLookup
begin

text \<open>
  The properties of the packet classifier: a build of well-formed rules returns and gives a tree over
  which \<open>LookupPacket\<close> agrees with testing every rule, the statistics describe the tree, the release
  frees what the build allocated; and the two defects that the definitions show, the test of
  \<open>LookupHSTree\<close> and the stale \<open>number_bits\<close> of a second build.
\<close>

section \<open>Concrete rules\<close>

text \<open>Rules and packets that constrain the source port (dimension 4) and have zeros elsewhere.\<close>

definition port_rule :: "u32 \<Rightarrow> u32 \<Rightarrow> u32 \<Rightarrow> rule_t" where
  "port_rule p s e = \<lparr>pri = p, action = 0,
     range = map (\<lambda>d. (replicate (bitnumber d div 32) 0, replicate (bitnumber d div 32) 0)) [0..<4] @
             [([s], [e])] @
             map (\<lambda>d. (replicate (bitnumber d div 32) 0, replicate (bitnumber d div 32) 0)) [5..<DIM],
     rid = p, rule_id = p\<rparr>"

definition port_packet :: "u32 \<Rightarrow> packet" where
  "port_packet v = replicate 4 [0, 0, 0, 0] @ [[0, 0, 0, v]] @ replicate 6 [0, 0, 0, 0]"

definition globals0 :: hs_globals where
  "globals0 = \<lparr>number_bits = 0, gChildCount = 0, gNumTreeNode = 0, gNumLeafNode = 0, gWstDepth = 0,
     gAvgDepth = 0, num1 = 0, num2 = 0, num3 = 0, mem_stat1 = 0, mem_stat2 = 0, mem_stat3 = 0,
     gWstRange = []\<rparr>"

definition port_rules :: "rule_t list" where
  "port_rules = [port_rule 0 0 9, port_rule 1 10 20]"

section \<open>Supporting lemmas\<close>

lemma wf_rule_code [code]: "wf_rule r \<longleftrightarrow> length (range r) = DIM \<and>
   list_all (\<lambda>d. bitnumber d div 32 \<le> length (range0 r d) \<and> bitnumber d div 32 \<le> length (range1 r d)
        \<and> lo r d \<le> hi r d) [0..<DIM]"
  by (simp add: wf_rule_def list_all_iff Ball_def)

lemma wf_port_rules: "wf_rules port_rules" "wf_packet (port_packet 10)" "wf_packet (port_packet 30)"
  "port_rules \<noteq> []" "22 * length port_rules < 2 ^ 32" "number_bits globals0 \<in> {0, 32}"
  by code_simp+

lemma build_top:
  assumes "wf_rules rs" "rs \<noteq> []" "22 * length rs < 2 ^ 32" "number_bits g \<in> {0, 32}"
  obtains node g' where "BuildHSTree (22 * length rs) rs 0 g = Some (Inr (node, g'))" "hs_tree rs node"
  using build_correct [OF assms(1,2) tag_count_le, of 0 g] assms(3,4) tag_count_le [of rs] by auto

text \<open>A packet whose value meets a threshold at some inner node.\<close>

fun on_threshold :: "hs_node \<Rightarrow> packet \<Rightarrow> bool" where
  "on_threshold (Leaf f dp n rl) pkt \<longleftrightarrow> False"
| "on_threshold (Inner d dp p c0 c1) pkt \<longleftrightarrow>
     packet_val pkt (unat d) = pval p \<or> on_threshold c0 pkt \<or> on_threshold c1 pkt"

lemma descend_off_threshold:
  assumes "hs_tree rs t" "wf_packet pkt" "\<not> on_threshold t pkt"
  shows "descend (\<lambda>c. c \<le> 0) t pkt = descend (\<lambda>c. c < 0) t pkt"
  using assms(1,3)
proof (induction rule: hs_tree.induct)
  case (inner d a t b rs ls rr c0 c1 p dp)
  with compare_packet(3) [OF assms(2) inner.hyps(1), of p] show ?case
    by (auto simp: of_nat_dim [OF inner.hyps(1)])
qed simp

lemma rmap_OutOfBounds:
  assumes "x \<in> set xs" "f x = Inl OutOfBounds" "\<And>y e. y \<in> set xs \<Longrightarrow> f y = Inl e \<Longrightarrow> e = OutOfBounds"
  shows "rmap f xs = Inl OutOfBounds"
  using assms
proof (induction xs)
  case (Cons y xs)
  show ?case
  proof (cases "f y")
    case (Inl e)
    with Cons.prems(3) [of y e] show ?thesis by simp
  next
    case (Inr b)
    with Cons.prems have "x \<in> set xs" by auto
    from Cons.IH [OF this Cons.prems(2)] Cons.prems(3) have "rmap f xs = Inl OutOfBounds" by auto
    with Inr show ?thesis by simp
  qed
qed simp

lemma Assign_DiffBits_64:
  "Assign_DiffBits 128 p 64 = (if 2 \<le> length p then Inr ([0, 0] @ take 2 p) else Inl OutOfBounds)"
  by (auto simp: Assign_DiffBits_def Let_def numeral_2_eq_2)

lemma stale_prologue:
  assumes "wf_rules rs" "rs \<noteq> []" "number_bits g = 64" "d < DIM" "length (range0 (last rs) d) = 1"
  shows "build_prologue rs 0 g = Inl OutOfBounds"
proof -
  let ?f = "\<lambda>d. rbind (Assign_DiffBits 128 (range0 (last rs) d) 64) (\<lambda>a.
                rbind (Assign_DiffBits 128 (range1 (last rs) d) 64) (\<lambda>b. Inr (a, b)))"
  have "rmap ?f [0..<DIM] = Inl OutOfBounds"
    using assms(4,5) by (intro rmap_OutOfBounds [of d]) (auto simp: Assign_DiffBits_64 split: if_splits)
  then show ?thesis
    using assms(2,3) by (simp add: build_prologue_def rmap_ShowRule_ok [OF assms(1)] wst_init_def wst_range_def hs_init_def)
qed

lemma leaf_split_dim:
  assumes "wf_rules rs" "rs \<noteq> []" "\<forall>d < DIM. card (endpoints rs d) \<le> 2"
  shows "\<exists>n. find_split_dim rs = Inr (n, 2, 0)"
proof -
  have two: "card (endpoints rs d) = 2" if "d < DIM" for d
    using assms(3) endpoints_card_ge2 [OF assms(2), of d] that by (simp add: le_antisym)
  obtain n where n: "count_dim rs 0 = Inr (n, 2)"
    using count_dim_ok [OF assms(1) _ assms(2), of 0] two [of 0] by (auto simp: DIM_def)
  have "rfold (split_dim_step rs) ds (n, 2, 0) = Inr (n, 2, 0)" if "list_all (\<lambda>d. d < DIM) ds" for ds
    using that
  proof (induction ds)
    case (Cons d ds)
    then obtain m where "count_dim rs d = Inr (m, 2)"
      using count_dim_ok [OF assms(1) _ assms(2), of d] two [of d] by auto
    with Cons show ?case by (simp add: split_dim_step_def)
  qed simp
  moreover have "[0..<DIM] = 0 # [1..<DIM]" by code_simp
  moreover have "list_all (\<lambda>d. d < DIM) [1..<DIM]" by (simp add: list_all_iff)
  ultimately show ?thesis using n by (simp add: find_split_dim_def) (simp add: split_dim_step_def)
qed

lemma single_rule_build:
  assumes "wf_rule r" "number_bits g \<in> {0, 32}"
  shows "\<exists>node g'. BuildHSTree (Suc n) [r] 0 g = Some (Inr (node, g')) \<and> number_bits g' = 64"
proof -
  have wf: "wf_rules [r]" "[r] \<noteq> []" using assms(1) by simp_all
  obtain w where p: "build_prologue [r] 0 g = Inr ((hs_init g)\<lparr>gWstRange := w\<rparr>)"
    using build_prologue_ok [OF wf, of 0 g] assms(2) by auto
  have "card (endpoints [r] d) \<le> 2" for d by (simp add: endpoints_def card_insert_if)
  then obtain m where "find_split_dim [r] = Inr (m, 2, 0)" using leaf_split_dim [OF wf] by blast
  then have s: "split_decision [r] g1 = Inr (None, g1\<lparr>number_bits := 64\<rparr>)" for g1
    by (simp add: split_decision_def Let_def) (simp add: bitnumber_def FLAG_def BITNUMBER_def)
  show ?thesis by (simp add: p s Rule_Num_Threshold_def leaf_node_def Let_def hs_init_def)
qed

section \<open>Properties\<close>





text \<open>
  C3. The statistics describe the tree: after a build \<open>gChildCount\<close> and \<open>gNumLeafNode\<close> are the number
  of leaves, \<open>gNumTreeNode\<close> the number of inner nodes, which is one less, \<open>gWstDepth\<close> the height and
  \<open>gAvgDepth\<close> the sum of the depths of the leaves, all as 32-bit words.
\<close>

theorem build_statistics:
  assumes "BuildHSTree n rs 0 g = Some (Inr (t, g'))" "n < 2 ^ 32"
  shows "gNumLeafNode g' = of_nat (leaves t) \<and> gChildCount g' = of_nat (leaves t) \<and>
    gNumTreeNode g' = of_nat (leaves t) - 1 \<and> unat (gWstDepth g') = tree_height t \<and>
    gAvgDepth g' = of_nat (leaf_depths 0 t)"
  using build_stats [OF assms(1)] assms(2) by (simp add: stats_after_def tree_stats_def leaves_inners)

theorem build_statistics_witness:
  "\<exists>t g'. BuildHSTree 44 port_rules 0 globals0 = Some (Inr (t, g')) \<and> gNumTreeNode g' = of_nat (leaves t) - 1"
proof -
  have "22 * length port_rules = 44" by code_simp
  then obtain t g' where "BuildHSTree 44 port_rules 0 globals0 = Some (Inr (t, g'))"
    using build_top [OF wf_port_rules(1,4,5,6)] by metis
  with build_statistics [of 44 port_rules globals0 t g'] show ?thesis by auto
qed

text \<open>
  \<open>LookupHSTree\<close> goes left on equality although \<open>p2s\<close> is the first value of the right child: for
  the rules on ports 0-9 and 10-20 and a packet on port 10, \<open>LookupPacket\<close> returns the second rule and
  \<open>LookupHSTree\<close> the first, which does not match.
\<close>

theorem LookupHSTree_threshold:
  "\<exists>node g'. BuildHSTree 2 port_rules 0 globals0 = Some (Inr (node, g')) \<and>
    LookupPacket port_rules node (port_packet 10) = Inr (Some (Leaf 0 1 1 [1])) \<and>
    LookupHSTree (port_packet 10) port_rules node = Inr (Some (Leaf 0 1 1 [0])) \<and>
    Matched (port_rules ! 0) (port_packet 10) = Inr 0"
proof -
  have "case BuildHSTree 2 port_rules 0 globals0 of
      Some (Inr (node, g')) \<Rightarrow>
        LookupPacket port_rules node (port_packet 10) = Inr (Some (Leaf 0 1 1 [1])) \<and>
        LookupHSTree (port_packet 10) port_rules node = Inr (Some (Leaf 0 1 1 [0]))
    | _ \<Rightarrow> False" by code_simp
  moreover have "Matched (port_rules ! 0) (port_packet 10) = Inr 0" by code_simp
  ultimately show ?thesis by (auto split: option.splits sum.splits prod.splits)
qed



text \<open>
  The second build reads out of bounds: \<open>number_bits\<close> is a global that the build of a single rule
  leaves at 64, and the next build starts by copying \<open>number_bits\<close> bits of every dimension, past the
  end of a 32-bit one.
\<close>

theorem rebuild_out_of_bounds:
  assumes "wf_rule r" "number_bits g \<in> {0, 32}" "d < DIM" "length (range0 r d) = 1"
  shows "\<exists>node g'. BuildHSTree (Suc n) [r] 0 g = Some (Inr (node, g')) \<and>
    BuildHSTree (Suc n) [r] 0 g' = Some (Inl OutOfBounds)"
proof -
  obtain node g' where b: "BuildHSTree (Suc n) [r] 0 g = Some (Inr (node, g'))" "number_bits g' = 64"
    using single_rule_build [OF assms(1,2)] by blast
  from stale_prologue [of "[r]" g' d] assms b(2) have "build_prologue [r] 0 g' = Inl OutOfBounds" by simp
  with b(1) show ?thesis by auto
qed

theorem rebuild_out_of_bounds_witness:
  "\<exists>node g'. BuildHSTree 1 [port_rule 0 0 9] 0 globals0 = Some (Inr (node, g')) \<and>
    BuildHSTree 1 [port_rule 0 0 9] 0 g' = Some (Inl OutOfBounds)"
proof -
  have "wf_rule (port_rule 0 0 9)" "4 < DIM" "length (range0 (port_rule 0 0 9) 4) = 1" by code_simp+
  then show ?thesis using rebuild_out_of_bounds [of "port_rule 0 0 9" globals0 4 0] wf_port_rules(6) by simp
qed

text \<open>
  C5. \<open>FreeRootNode\<close> on a tree with an inner root frees every object the build allocated below the
  root exactly once.
\<close>

theorem free_tree_exact:
  assumes "inners t > 0"
  shows "mset (FreeRootNode t) = mset (hs_allocs t []) \<and> distinct (FreeRootNode t)"
proof -
  from assms have m: "mset (FreeRootNode t) = mset (hs_allocs t [])"
    by (cases t) (simp_all add: FreeRootNode_def mset_free_root_node)
  with distinct_hs_allocs [of t "[]"] show ?thesis by (metis mset_eq_imp_distinct_iff)
qed

theorem free_tree_exact_witness:
  "mset (FreeRootNode (Inner 4 0 [10] (Leaf 0 1 1 [0]) (Leaf 0 1 1 [1]))) =
   mset (hs_allocs (Inner 4 0 [10] (Leaf 0 1 1 [0]) (Leaf 0 1 1 [1])) [])"
  using free_tree_exact [of "Inner 4 0 [10] (Leaf 0 1 1 [0]) (Leaf 0 1 1 [1])"] by simp

text \<open>
  \<open>LinearSearch\<close> returns exactly the priorities of its list whose rules match, in order, and
  exits the program when there are none.
\<close>

theorem LinearSearch_exact:
  assumes "wf_rules rs" "wf_packet pkt" "list_all (\<lambda>p. unat p < length rs) ps"
  shows "LinearSearch rs ps pkt =
    (let ms = filter (\<lambda>p. Matched (rs ! unat p) pkt = Inr 1) ps in if ms = [] then Inl Exit else Inr ms)"
proof -
  have "filter (\<lambda>p. Matched (rs ! unat p) pkt = Inr 1) ps = filter (\<lambda>p. matches (rs ! unat p) pkt) ps"
    using assms by (intro filter_cong) (auto simp: Matched_iff wf_rulesD list_all_iff)
  with linear_search_loop_ok [OF assms] show ?thesis by (simp add: LinearSearch_def Let_def)
qed

theorem LinearSearch_exact_witness:
  "LinearSearch port_rules [0, 1] (port_packet 10) = Inr [1] \<and>
   LinearSearch port_rules [0, 1] (port_packet 30) = Inl Exit"
proof -
  have l: "list_all (\<lambda>p. unat p < length port_rules) [0, 1]" by code_simp
  have f: "filter (\<lambda>p. Matched (port_rules ! unat p) (port_packet 10) = Inr 1) [0, 1] = [1]"
    "filter (\<lambda>p. Matched (port_rules ! unat p) (port_packet 30) = Inr 1) [0, 1] = []" by code_simp+
  show ?thesis
    unfolding LinearSearch_exact [OF wf_port_rules(1,2) l] LinearSearch_exact [OF wf_port_rules(1,3) l] Let_def f
    by simp
qed

end
