(* ===== verification/Bytes.thy ===== *)
theory Bytes
  imports Prelude
begin

text \<open>
  Multi-byte fields in memory and on the wire. The program runs on big-endian Octeon cores, so a
  field in memory has its network representation; \<open>get16\<close> and \<open>get32\<close> read a field at an offset of a
  buffer and \<open>be16\<close>, \<open>be32\<close> write one.
\<close>

definition be16 :: "u16 \<Rightarrow> u8 list" where
  "be16 w = [ucast (drop_bit 8 w), ucast w]"

definition be32 :: "u32 \<Rightarrow> u8 list" where
  "be32 w = [ucast (drop_bit 24 w), ucast (drop_bit 16 w), ucast (drop_bit 8 w), ucast w]"

definition un16 :: "u8 \<Rightarrow> u8 \<Rightarrow> u16" where
  "un16 a b = push_bit 8 (ucast a) OR ucast b"

definition un32 :: "u8 \<Rightarrow> u8 \<Rightarrow> u8 \<Rightarrow> u8 \<Rightarrow> u32" where
  "un32 a b c d = push_bit 24 (ucast a) OR push_bit 16 (ucast b) OR push_bit 8 (ucast c) OR ucast d"

definition get8 :: "u8 list \<Rightarrow> nat \<Rightarrow> u8" where
  "get8 buf i = buf ! i"

definition get16 :: "u8 list \<Rightarrow> nat \<Rightarrow> u16" where
  "get16 buf i = un16 (buf ! i) (buf ! (i + 1))"

definition get32 :: "u8 list \<Rightarrow> nat \<Rightarrow> u32" where
  "get32 buf i = un32 (buf ! i) (buf ! (i + 1)) (buf ! (i + 2)) (buf ! (i + 3))"

lemma high_bit_u8: "8 \<le> n \<Longrightarrow> \<not> bit (w :: u8) n"
  by (auto dest: bit_imp_le_length)

lemma length_be [simp]: "length (be16 w) = 2" "length (be32 v) = 4"
  by (simp_all add: be16_def be32_def)

lemma un16_be16 [simp]: "un16 (ucast (drop_bit 8 w)) (ucast w) = (w :: u16)"
  unfolding un16_def by (rule bit_word_eqI) (auto simp: bit_simps not_less)

lemma un32_be32 [simp]:
  "un32 (ucast (drop_bit 24 w)) (ucast (drop_bit 16 w)) (ucast (drop_bit 8 w)) (ucast w) = (w :: u32)"
  unfolding un32_def
proof (rule bit_word_eqI)
  fix n assume n: "n < LENGTH(32)"
  consider "n < 8" | "8 \<le> n" "n < 16" | "16 \<le> n" "n < 24" | "24 \<le> n" by linarith
  then show "bit (push_bit 24 (ucast (ucast (drop_bit 24 w) :: u8)) OR push_bit 16 (ucast (ucast (drop_bit 16 w) :: u8)) OR
      push_bit 8 (ucast (ucast (drop_bit 8 w) :: u8)) OR ucast (ucast w :: u8) :: u32) n = bit w n"
    by cases (use n in \<open>auto simp: bit_simps\<close>)
qed

lemma be16_un16 [simp]: "be16 (un16 a b) = [a, b]"
  unfolding be16_def un16_def by (auto intro!: bit_word_eqI simp: bit_simps high_bit_u8)

lemma be32_un32 [simp]: "be32 (un32 a b c d) = [a, b, c, d]"
  unfolding be32_def un32_def by (auto intro!: bit_word_eqI simp: bit_simps high_bit_u8)

text \<open>Reading a field that was written at its offset.\<close>

lemma get8_append [simp]: "length pre = i \<Longrightarrow> get8 (pre @ x # post) i = x"
  by (auto simp: get8_def)

lemma get16_append [simp]: "length pre = i \<Longrightarrow> get16 (pre @ be16 w @ post) i = w"
  by (auto simp: get16_def be16_def nth_append)

lemma get32_append [simp]: "length pre = i \<Longrightarrow> get32 (pre @ be32 w @ post) i = w"
  by (auto simp: get32_def be32_def nth_append)

text \<open>Reading past the fields in front.\<close>

lemma get_at:
  "get8 (pre @ xs) (length pre + k) = get8 xs k"
  "get16 (pre @ xs) (length pre + k) = get16 xs k"
  "get32 (pre @ xs) (length pre + k) = get32 xs k"
  by (simp_all add: get8_def get16_def get32_def nth_append add.assoc)

lemma get_skip:
  "4 \<le> k \<Longrightarrow> get8 (be32 w @ xs) k = get8 xs (k - 4)" "4 \<le> k \<Longrightarrow> get16 (be32 w @ xs) k = get16 xs (k - 4)"
  "4 \<le> k \<Longrightarrow> get32 (be32 w @ xs) k = get32 xs (k - 4)"
  "2 \<le> k \<Longrightarrow> get8 (be16 v @ xs) k = get8 xs (k - 2)" "2 \<le> k \<Longrightarrow> get16 (be16 v @ xs) k = get16 xs (k - 2)"
  "2 \<le> k \<Longrightarrow> get32 (be16 v @ xs) k = get32 xs (k - 2)"
  "1 \<le> k \<Longrightarrow> get8 (x # xs) k = get8 xs (k - 1)" "1 \<le> k \<Longrightarrow> get16 (x # xs) k = get16 xs (k - 1)"
  "1 \<le> k \<Longrightarrow> get32 (x # xs) k = get32 xs (k - 1)"
  using get_at [of "be32 w" xs "k - 4"] get_at [of "be16 v" xs "k - 2"] get_at [of "[x]" xs "k - 1"]
  by (simp_all only: length_be le_add_diff_inverse) simp_all

lemma get_here:
  "get8 (x # xs) 0 = x" "get16 (be16 v @ xs) 0 = v" "get32 (be32 w @ xs) 0 = w"
  "get16 (be16 v) 0 = v" "get32 (be32 w) 0 = w"
  by (simp_all add: get8_def get16_def get32_def be16_def be32_def)

lemma be16_inj: "be16 v = be16 w \<longleftrightarrow> v = w"
  by (metis get16_append append_Nil list.size(3))

lemma be32_inj: "be32 v = be32 w \<longleftrightarrow> v = w"
  by (metis get32_append append_Nil list.size(3))

text \<open>\<open>memcmp\<close> on arrays of the same length: the sign of the first difference.\<close>

fun memcmp :: "u8 list \<Rightarrow> u8 list \<Rightarrow> int" where
  "memcmp (x # xs) (y # ys) = (if x < y then -1 else if x = y then memcmp xs ys else 1)"
| "memcmp xs ys = 0"

lemma memcmp_0_iff: "length xs = length ys \<Longrightarrow> memcmp xs ys = 0 \<longleftrightarrow> xs = ys"
  by (induction xs ys rule: list_induct2) auto

end
