(* ===== verification/RuleTable.thy ===== *)
theory RuleTable
  imports Bytes
begin

text \<open>
  The rule table that the management plane keeps in shared memory
  (\<open>mgrplane/src/srv/srvnet/srv_rule.c\<close>, \<open>include/acl_rule.h\<close>, \<open>include/rpc-common.h\<close>): the packed
  rule tuple and its bytes, the table with its free counter, the operations that add, delete, clear
  and save rules, the contract \<open>rule_store\<close> that they meet over the set of rules in use, and the
  invariant of every reachable table.
\<close>

section \<open>Rule tuples\<close>

record rule_tuple =
  smac :: "u8 list"
  dmac :: "u8 list"
  sip :: u32
  sip_mask :: u32
  dip :: u32
  dip_mask :: u32
  sport_start :: u16
  sport_end :: u16
  dport_start :: u16
  dport_end :: u16
  protocol_start :: u8
  protocol_end :: u8
  tuple_action :: u16

definition wf_tuple :: "rule_tuple \<Rightarrow> bool" where
  "wf_tuple t \<longleftrightarrow> length (smac t) = 6 \<and> length (dmac t) = 6"

text \<open>The packed struct in memory, 40 bytes.\<close>

definition tuple_bytes :: "rule_tuple \<Rightarrow> u8 list" where
  "tuple_bytes t = smac t @ dmac t @ be32 (sip t) @ be32 (sip_mask t) @ be32 (dip t) @ be32 (dip_mask t) @
     be16 (sport_start t) @ be16 (sport_end t) @ be16 (dport_start t) @ be16 (dport_end t) @
     [protocol_start t, protocol_end t] @ be16 (tuple_action t)"

definition sizeof_tuple :: nat where
  "sizeof_tuple = 40"

text \<open>The struct read from a buffer at an offset, as the cast of a pointer into the buffer does.\<close>

definition read_tuple :: "u8 list \<Rightarrow> nat \<Rightarrow> rule_tuple" where
  "read_tuple buf i =
     \<lparr>smac = take 6 (drop i buf), dmac = take 6 (drop (i + 6) buf),
      sip = get32 buf (i + 12), sip_mask = get32 buf (i + 16), dip = get32 buf (i + 20), dip_mask = get32 buf (i + 24),
      sport_start = get16 buf (i + 28), sport_end = get16 buf (i + 30),
      dport_start = get16 buf (i + 32), dport_end = get16 buf (i + 34),
      protocol_start = get8 buf (i + 36), protocol_end = get8 buf (i + 37), tuple_action = get16 buf (i + 38)\<rparr>"

definition Rule_compare :: "rule_tuple \<Rightarrow> rule_tuple \<Rightarrow> int" where
  "Rule_compare rule1 rule2 = memcmp (tuple_bytes rule1) (tuple_bytes rule2)"

section \<open>The table\<close>

definition RULE_ENTRY_MAX :: nat where
  "RULE_ENTRY_MAX = 100000"

definition RULE_ENTRY_STATUS_FREE :: u8 where
  "RULE_ENTRY_STATUS_FREE = 0"

definition RULE_ENTRY_STATUS_USED :: u8 where
  "RULE_ENTRY_STATUS_USED = 1"

definition RULE_BUILD_UNCOMMIT :: int where
  "RULE_BUILD_UNCOMMIT = 0"

definition RULE_OK :: int where "RULE_OK = 0"
definition RULE_FULL :: int where "RULE_FULL = 1"
definition RULE_EXIST :: int where "RULE_EXIST = 2"
definition RULE_NOT_EXIST :: int where "RULE_NOT_EXIST = 3"

lemmas rule_codes = RULE_OK_def RULE_FULL_def RULE_EXIST_def RULE_NOT_EXIST_def

record rule_entry =
  entry_status :: u8
  entry_tuple :: rule_tuple

record rule_list =
  rule_entry_free :: int
  build_status :: int
  entries :: "rule_entry list"

definition zero_tuple :: rule_tuple where
  "zero_tuple = \<lparr>smac = replicate 6 0, dmac = replicate 6 0, sip = 0, sip_mask = 0, dip = 0, dip_mask = 0,
     sport_start = 0, sport_end = 0, dport_start = 0, dport_end = 0, protocol_start = 0, protocol_end = 0,
     tuple_action = 0\<rparr>"

text \<open>\<open>Rule_list_init\<close> after a successful \<open>shm_open\<close> and \<open>mmap\<close>: \<open>memset\<close> to 0 and the counter set.\<close>

definition Rule_list_init :: rule_list where
  "Rule_list_init =
     \<lparr>rule_entry_free = int RULE_ENTRY_MAX, build_status = 0,
      entries = replicate RULE_ENTRY_MAX \<lparr>entry_status = 0, entry_tuple = zero_tuple\<rparr>\<rparr>"

fun find_free_from :: "nat \<Rightarrow> rule_entry list \<Rightarrow> int" where
  "find_free_from i [] = -1"
| "find_free_from i (e # es) =
     (if entry_status e = RULE_ENTRY_STATUS_FREE then int i else find_free_from (Suc i) es)"

definition find_first_free :: "rule_list \<Rightarrow> int" where
  "find_first_free rl = find_free_from 0 (entries rl)"

fun duplicate_in :: "rule_tuple \<Rightarrow> rule_entry list \<Rightarrow> int" where
  "duplicate_in r [] = RULE_OK"
| "duplicate_in r (e # es) =
     (if entry_status e = RULE_ENTRY_STATUS_FREE then duplicate_in r es
      else if 0 = Rule_compare r (entry_tuple e) then RULE_EXIST
      else duplicate_in r es)"

definition Rule_duplicate_check :: "rule_list \<Rightarrow> rule_tuple \<Rightarrow> int" where
  "Rule_duplicate_check rl r = duplicate_in r (entries rl)"

definition Rule_add :: "rule_list \<Rightarrow> rule_tuple \<Rightarrow> rule_list \<times> int" where
  "Rule_add rl r =
     (if rule_entry_free rl = 0 then (rl, RULE_FULL)
      else if RULE_EXIST = Rule_duplicate_check rl r then (rl, RULE_EXIST)
      else (let index = find_first_free rl in
        if -1 = index then (rl, RULE_FULL)
        else (rl\<lparr>entries := (entries rl)[nat index := \<lparr>entry_status = RULE_ENTRY_STATUS_USED, entry_tuple = r\<rparr>],
                 rule_entry_free := rule_entry_free rl - 1, build_status := RULE_BUILD_UNCOMMIT\<rparr>, RULE_OK)))"

text \<open>The loop of \<open>Rule_del\<close>: the entries with the first equal rule freed, if there is one.\<close>

fun del_in :: "rule_tuple \<Rightarrow> rule_entry list \<Rightarrow> rule_entry list option" where
  "del_in r [] = None"
| "del_in r (e # es) =
     (if entry_status e = RULE_ENTRY_STATUS_FREE then map_option ((#) e) (del_in r es)
      else if 0 = Rule_compare (entry_tuple e) r
        then Some (e\<lparr>entry_status := RULE_ENTRY_STATUS_FREE\<rparr> # es)
      else map_option ((#) e) (del_in r es))"

definition Rule_del :: "rule_list \<Rightarrow> rule_tuple \<Rightarrow> rule_list \<times> int" where
  "Rule_del rl r =
     (if rule_entry_free rl = int RULE_ENTRY_MAX then (rl, RULE_NOT_EXIST)
      else case del_in r (entries rl) of
        None \<Rightarrow> (rl, RULE_NOT_EXIST)
      | Some es \<Rightarrow> (rl\<lparr>entries := es, rule_entry_free := rule_entry_free rl + 1,
                       build_status := RULE_BUILD_UNCOMMIT\<rparr>, RULE_OK))"

text \<open>\<open>Rule_del_by_id\<close> indexes the table with the 32-bit id of the request, without a check.\<close>

definition Rule_del_by_id :: "rule_list \<Rightarrow> u32 \<Rightarrow> (rule_list \<times> int) res" where
  "Rule_del_by_id rl i =
     (if int RULE_ENTRY_MAX = rule_entry_free rl then Inr (rl, RULE_NOT_EXIST)
      else if unat i \<ge> length (entries rl) then Inl OutOfBounds
      else if RULE_ENTRY_STATUS_FREE = entry_status (entries rl ! unat i) then Inr (rl, RULE_NOT_EXIST)
      else Inr (rl\<lparr>entries := (entries rl)[unat i := (entries rl ! unat i)\<lparr>entry_status := RULE_ENTRY_STATUS_FREE\<rparr>],
                   rule_entry_free := rule_entry_free rl + 1, build_status := RULE_BUILD_UNCOMMIT\<rparr>, RULE_OK))"

definition Rule_del_all :: "rule_list \<Rightarrow> rule_list \<times> int" where
  "Rule_del_all rl =
     (rl\<lparr>entries := map (\<lambda>e. e\<lparr>entry_status := RULE_ENTRY_STATUS_FREE\<rparr>) (entries rl),
         rule_entry_free := int RULE_ENTRY_MAX, build_status := RULE_BUILD_UNCOMMIT\<rparr>, RULE_OK)"

text \<open>\<open>Rule_Save_File\<close>: the lines that are printed, one for every used entry.\<close>

definition Rule_Save_File :: "rule_list \<Rightarrow> (nat \<times> u32 \<times> u32 \<times> u32 \<times> u32 \<times> u16 \<times> u16) list" where
  "Rule_Save_File rl =
     map (\<lambda>(i, e). let t = entry_tuple e in
            (i, sip t, sip_mask t, dip t, dip_mask t, sport_start t, sport_end t))
       (filter (\<lambda>(i, e). entry_status e \<noteq> RULE_ENTRY_STATUS_FREE) (enumerate 0 (entries rl)))"

section \<open>Bytes of a tuple\<close>

lemma length_tuple_bytes: "wf_tuple t \<Longrightarrow> length (tuple_bytes t) = sizeof_tuple"
  by (simp add: tuple_bytes_def wf_tuple_def sizeof_tuple_def)

lemma wf_read_tuple: "i + 40 \<le> length buf \<Longrightarrow> wf_tuple (read_tuple buf i)"
  by (simp add: read_tuple_def wf_tuple_def)

lemma six_bytes: "length (xs :: 'a list) = 6 \<Longrightarrow> \<exists>a b c d e f. xs = [a, b, c, d, e, f]"
  by (auto simp: length_Suc_conv eval_nat_numeral)

lemma read_tuple_bytes:
  assumes "wf_tuple t"
  shows "read_tuple (pre @ tuple_bytes t @ post) (length pre) = t"
proof (cases t)
  case (fields s m si sim di dim ss se ds de ps pe ac)
  with assms have "length s = 6" "length m = 6" by (simp_all add: wf_tuple_def)
  then obtain a b c d e f a' b' c' d' e' f' where
    sm: "s = [a, b, c, d, e, f]" "m = [a', b', c', d', e', f']" using six_bytes by metis
  define buf where "buf = tuple_bytes t @ post"
  have buf: "buf = a # b # c # d # e # f # a' # b' # c' # d' # e' # f' # be32 si @ be32 sim @ be32 di @ be32 dim @
      be16 ss @ be16 se @ be16 ds @ be16 de @ ps # pe # be16 ac @ post"
    by (simp add: buf_def tuple_bytes_def fields sm)
  have "get32 buf 12 = si" "get32 buf 16 = sim" "get32 buf 20 = di" "get32 buf 24 = dim"
    "get16 buf 28 = ss" "get16 buf 30 = se" "get16 buf 32 = ds" "get16 buf 34 = de"
    "get8 buf 36 = ps" "get8 buf 37 = pe" "get16 buf 38 = ac"
    by (simp_all add: buf get_skip get_here del: One_nat_def)
  moreover have "take 6 buf = s" "take 6 (drop 6 buf) = m" by (simp_all add: buf sm)
  ultimately have "read_tuple (pre @ buf) (length pre) = t"
    by (simp add: read_tuple_def get_at fields)
  then show ?thesis by (simp add: buf_def)
qed

lemma Rule_compare_0_iff:
  assumes "wf_tuple r" "wf_tuple t"
  shows "Rule_compare r t = 0 \<longleftrightarrow> r = t"
proof -
  have "tuple_bytes r = tuple_bytes t \<longleftrightarrow> r = t"
    by (metis read_tuple_bytes assms)
  with assms show ?thesis by (simp add: Rule_compare_def memcmp_0_iff length_tuple_bytes)
qed


section \<open>The contract of a rule store\<close>

text \<open>
  What the handlers of the management server rely on: the table behaves as a bounded set of rules.
  The codes are 0 for success, 1 for full, 2 for a duplicate and 3 for an unknown rule.
\<close>

datatype 'r rule_op = Add 'r | Del 'r | Clear

fun op_wf :: "('r \<Rightarrow> bool) \<Rightarrow> 'r rule_op \<Rightarrow> bool" where
  "op_wf ok (Add r) = ok r"
| "op_wf ok (Del r) = ok r"
| "op_wf ok Clear = True"

fun spec_op :: "nat \<Rightarrow> 'r rule_op \<Rightarrow> 'r set \<Rightarrow> 'r set \<times> int" where
  "spec_op cap (Add r) S = (if card S = cap then (S, 1) else if r \<in> S then (S, 2) else (insert r S, 0))"
| "spec_op cap (Del r) S = (if r \<in> S then (S - {r}, 0) else (S, 3))"
| "spec_op cap Clear S = ({}, 0)"

locale rule_store =
  fixes inv :: "'s \<Rightarrow> bool" and abs :: "'s \<Rightarrow> 'r set" and cap :: nat and ok :: "'r \<Rightarrow> bool"
    and add :: "'s \<Rightarrow> 'r \<Rightarrow> 's \<times> int" and del :: "'s \<Rightarrow> 'r \<Rightarrow> 's \<times> int" and clear :: "'s \<Rightarrow> 's \<times> int"
  assumes finite_abs: "inv s \<Longrightarrow> finite (abs s) \<and> card (abs s) \<le> cap"
    and inv_add: "inv s \<Longrightarrow> ok r \<Longrightarrow> inv (fst (add s r))"
    and add_abs: "inv s \<Longrightarrow> ok r \<Longrightarrow> (abs (fst (add s r)), snd (add s r)) = spec_op cap (Add r) (abs s)"
    and inv_del: "inv s \<Longrightarrow> ok r \<Longrightarrow> inv (fst (del s r))"
    and del_abs: "inv s \<Longrightarrow> ok r \<Longrightarrow> (abs (fst (del s r)), snd (del s r)) = spec_op cap (Del r) (abs s)"
    and inv_clear: "inv s \<Longrightarrow> inv (fst (clear s))"
    and clear_abs: "inv s \<Longrightarrow> (abs (fst (clear s)), snd (clear s)) = spec_op cap Clear (abs s)"
begin

fun exec :: "'r rule_op \<Rightarrow> 's \<Rightarrow> 's \<times> int" where
  "exec (Add r) s = add s r"
| "exec (Del r) s = del s r"
| "exec Clear s = clear s"

fun exec_all :: "'r rule_op list \<Rightarrow> 's \<Rightarrow> 's \<times> int list" where
  "exec_all [] s = (s, [])"
| "exec_all (p # ps) s = (let (s', c) = exec p s; (s'', cs) = exec_all ps s' in (s'', c # cs))"

lemma exec_inv: "inv s \<Longrightarrow> op_wf ok p \<Longrightarrow> inv (fst (exec p s))"
  by (cases p) (auto simp: inv_add inv_del inv_clear)

lemma exec_abs: "inv s \<Longrightarrow> op_wf ok p \<Longrightarrow> (abs (fst (exec p s)), snd (exec p s)) = spec_op cap p (abs s)"
  by (cases p) (simp_all only: exec.simps op_wf.simps add_abs del_abs clear_abs)

lemma add_then_del:
  assumes "inv s" "ok r" "r \<notin> abs s" "card (abs s) < cap"
  shows "snd (add s r) = 0" "snd (del (fst (add s r)) r) = 0" "abs (fst (del (fst (add s r)) r)) = abs s"
  using add_abs [OF assms(1,2)] del_abs [OF inv_add [OF assms(1,2)] assms(2)] assms(3,4)
  by (auto split: if_splits)

end

section \<open>The table meets the contract\<close>

definition used :: "rule_entry \<Rightarrow> bool" where
  "used e \<longleftrightarrow> entry_status e \<noteq> RULE_ENTRY_STATUS_FREE"

definition used_tuples :: "rule_entry list \<Rightarrow> rule_tuple list" where
  "used_tuples es = map entry_tuple (filter used es)"

definition rl_inv :: "rule_list \<Rightarrow> bool" where
  "rl_inv rl \<longleftrightarrow> length (entries rl) = RULE_ENTRY_MAX \<and>
     rule_entry_free rl = int RULE_ENTRY_MAX - int (length (used_tuples (entries rl))) \<and>
     distinct (used_tuples (entries rl)) \<and> list_all wf_tuple (used_tuples (entries rl))"

definition rl_abs :: "rule_list \<Rightarrow> rule_tuple set" where
  "rl_abs rl = set (used_tuples (entries rl))"

lemma used_tuples_simps [simp]:
  "used_tuples [] = []"
  "used_tuples (e # es) = (if used e then entry_tuple e # used_tuples es else used_tuples es)"
  "used_tuples (es @ fs) = used_tuples es @ used_tuples fs"
  by (simp_all add: used_tuples_def)

lemma used_free [simp]: "\<not> used (e\<lparr>entry_status := RULE_ENTRY_STATUS_FREE\<rparr>)"
  by (simp add: used_def)

lemma used_used [simp]: "used \<lparr>entry_status = RULE_ENTRY_STATUS_USED, entry_tuple = t\<rparr>"
  by (simp add: used_def RULE_ENTRY_STATUS_FREE_def RULE_ENTRY_STATUS_USED_def)

lemma length_used_tuples: "length (used_tuples es) \<le> length es"
  by (simp add: used_tuples_def)

lemma used_tuples_full: "length (used_tuples es) = length es \<longleftrightarrow> (\<forall>e \<in> set es. used e)"
proof -
  have "length (filter used es) = length es \<longleftrightarrow> (\<forall>e \<in> set es. used e)"
    by (metis filter_True length_filter_less less_irrefl)
  then show ?thesis by (simp add: used_tuples_def)
qed

lemma duplicate_in_iff:
  assumes "wf_tuple r" "list_all wf_tuple (used_tuples es)"
  shows "duplicate_in r es = (if r \<in> set (used_tuples es) then RULE_EXIST else RULE_OK)"
  using assms(2) by (induction es) (auto simp: used_def Rule_compare_0_iff assms(1) eq_commute [of 0])

lemma find_free_from_split:
  "(\<exists>e \<in> set es. \<not> used e) \<Longrightarrow> \<exists>pre e post. es = pre @ e # post \<and> (\<forall>x \<in> set pre. used x) \<and> \<not> used e \<and>
     find_free_from i es = int (i + length pre)"
proof (induction es arbitrary: i)
  case (Cons x es)
  show ?case
  proof (cases "used x")
    case False
    then show ?thesis by (intro exI [of _ "[]"]) (auto simp: used_def)
  next
    case True
    with Cons.prems have "\<exists>e \<in> set es. \<not> used e" by auto
    from Cons.IH [OF this, of "Suc i"] obtain pre e post where "es = pre @ e # post" "\<forall>x \<in> set pre. used x" "\<not> used e"
      "find_free_from (Suc i) es = int (Suc i + length pre)" by blast
    with True show ?thesis by (intro exI [of _ "x # pre"]) (auto simp: used_def)
  qed
qed simp

lemma del_in_None: "wf_tuple r \<Longrightarrow> list_all wf_tuple (used_tuples es) \<Longrightarrow> r \<notin> set (used_tuples es) \<Longrightarrow> del_in r es = None"
  by (induction es) (auto simp: used_def Rule_compare_0_iff split: if_splits)

lemma del_in_Some:
  assumes "wf_tuple r" "list_all wf_tuple (used_tuples es)" "r \<in> set (used_tuples es)"
  shows "\<exists>pre e post. es = pre @ e # post \<and> used e \<and> entry_tuple e = r \<and>
    del_in r es = Some (pre @ e\<lparr>entry_status := RULE_ENTRY_STATUS_FREE\<rparr> # post)"
  using assms(2,3)
proof (induction es)
  case (Cons x es)
  show ?case
  proof (cases "used x \<and> entry_tuple x = r")
    case True
    then show ?thesis by (intro exI [of _ "[]"]) (auto simp: used_def Rule_compare_0_iff assms(1))
  next
    case False
    with Cons obtain pre e post where "es = pre @ e # post" "used e" "entry_tuple e = r"
      "del_in r es = Some (pre @ e\<lparr>entry_status := RULE_ENTRY_STATUS_FREE\<rparr> # post)" by (auto split: if_splits)
    with False Cons.prems show ?thesis
      by (intro exI [of _ "x # pre"]) (auto simp: used_def Rule_compare_0_iff assms(1) split: if_splits)
  qed
qed simp

lemma card_rl_abs: "rl_inv rl \<Longrightarrow> card (rl_abs rl) = length (used_tuples (entries rl))"
  by (simp add: rl_inv_def rl_abs_def distinct_card)

lemma Rule_add_cases:
  assumes "rl_inv rl" "wf_tuple r"
  obtains "card (rl_abs rl) = RULE_ENTRY_MAX" "Rule_add rl r = (rl, RULE_FULL)"
  | "card (rl_abs rl) \<noteq> RULE_ENTRY_MAX" "r \<in> rl_abs rl" "Rule_add rl r = (rl, RULE_EXIST)"
  | pre e post where "card (rl_abs rl) \<noteq> RULE_ENTRY_MAX" "r \<notin> rl_abs rl" "entries rl = pre @ e # post" "\<not> used e"
      "Rule_add rl r = (rl\<lparr>entries := pre @ \<lparr>entry_status = RULE_ENTRY_STATUS_USED, entry_tuple = r\<rparr> # post,
         rule_entry_free := rule_entry_free rl - 1, build_status := RULE_BUILD_UNCOMMIT\<rparr>, RULE_OK)"
proof -
  have free: "rule_entry_free rl = 0 \<longleftrightarrow> card (rl_abs rl) = RULE_ENTRY_MAX"
    using assms(1) card_rl_abs [OF assms(1)] by (auto simp: rl_inv_def)
  have dup: "Rule_duplicate_check rl r = (if r \<in> rl_abs rl then RULE_EXIST else RULE_OK)"
    using assms by (simp add: Rule_duplicate_check_def duplicate_in_iff rl_inv_def rl_abs_def)
  show thesis
  proof (cases "card (rl_abs rl) = RULE_ENTRY_MAX")
    case True
    with free that(1) show thesis by (simp add: Rule_add_def)
  next
    case nf: False
    show thesis
    proof (cases "r \<in> rl_abs rl")
      case True
      with nf free dup that(2) show thesis by (simp add: Rule_add_def)
    next
      case False
      have "\<exists>e \<in> set (entries rl). \<not> used e"
        using nf used_tuples_full [of "entries rl"] assms(1) card_rl_abs [OF assms(1)] by (auto simp: rl_inv_def)
      then obtain pre e post where sp: "entries rl = pre @ e # post" "\<not> used e" "find_first_free rl = int (length pre)"
        using find_free_from_split [of "entries rl" 0] by (auto simp: find_first_free_def)
      with nf False free dup that(3) [of pre e post] show thesis
        by (simp add: Rule_add_def Let_def rule_codes)
    qed
  qed
qed

lemma Rule_del_cases:
  assumes "rl_inv rl" "wf_tuple r"
  obtains "r \<notin> rl_abs rl" "Rule_del rl r = (rl, RULE_NOT_EXIST)"
  | pre e post where "r \<in> rl_abs rl" "entries rl = pre @ e # post" "used e" "entry_tuple e = r"
      "Rule_del rl r = (rl\<lparr>entries := pre @ e\<lparr>entry_status := RULE_ENTRY_STATUS_FREE\<rparr> # post,
         rule_entry_free := rule_entry_free rl + 1, build_status := RULE_BUILD_UNCOMMIT\<rparr>, RULE_OK)"
proof (cases "r \<in> rl_abs rl")
  case False
  with assms that(1) show thesis
    by (auto simp: Rule_del_def rl_inv_def rl_abs_def del_in_None)
next
  case True
  with assms del_in_Some [of r "entries rl"] obtain pre e post where
    d: "entries rl = pre @ e # post" "used e" "entry_tuple e = r"
      "del_in r (entries rl) = Some (pre @ e\<lparr>entry_status := RULE_ENTRY_STATUS_FREE\<rparr> # post)"
    by (auto simp: rl_inv_def rl_abs_def)
  have "rule_entry_free rl \<noteq> int RULE_ENTRY_MAX"
    using assms(1) True by (auto simp: rl_inv_def rl_abs_def)
  with True d that(2) show thesis by (simp add: Rule_del_def)
qed

interpretation table: rule_store rl_inv rl_abs RULE_ENTRY_MAX wf_tuple Rule_add Rule_del Rule_del_all
proof unfold_locales
  fix rl r
  assume inv: "rl_inv rl"
  show "finite (rl_abs rl) \<and> card (rl_abs rl) \<le> RULE_ENTRY_MAX"
    using inv card_rl_abs [OF inv] length_used_tuples [of "entries rl"] by (simp add: rl_inv_def rl_abs_def)
  show "rl_inv (fst (Rule_del_all rl))"
    using inv by (auto simp: Rule_del_all_def rl_inv_def used_tuples_def filter_map o_def)
  show "(rl_abs (fst (Rule_del_all rl)), snd (Rule_del_all rl)) = spec_op RULE_ENTRY_MAX Clear (rl_abs rl)"
    by (auto simp: Rule_del_all_def rl_abs_def used_tuples_def filter_map o_def rule_codes)
  assume wf: "wf_tuple r"
  show "rl_inv (fst (Rule_add rl r))"
    by (rule Rule_add_cases [OF inv wf]) (use inv wf in \<open>auto simp: rl_inv_def rl_abs_def\<close>)
  show "(rl_abs (fst (Rule_add rl r)), snd (Rule_add rl r)) = spec_op RULE_ENTRY_MAX (Add r) (rl_abs rl)"
    by (rule Rule_add_cases [OF inv wf]) (auto simp: rl_abs_def rule_codes)
  show "rl_inv (fst (Rule_del rl r))"
    by (rule Rule_del_cases [OF inv wf]) (use inv wf in \<open>auto simp: rl_inv_def rl_abs_def\<close>)
  show "(rl_abs (fst (Rule_del rl r)), snd (Rule_del rl r)) = spec_op RULE_ENTRY_MAX (Del r) (rl_abs rl)"
    by (rule Rule_del_cases [OF inv wf]) (use inv in \<open>auto simp: rl_inv_def rl_abs_def rule_codes\<close>)
qed

section \<open>Reachable tables\<close>

inductive rl_reach :: "rule_list \<Rightarrow> bool" where
  init: "rl_reach Rule_list_init"
| add: "rl_reach rl \<Longrightarrow> wf_tuple r \<Longrightarrow> rl_reach (fst (Rule_add rl r))"
| del: "rl_reach rl \<Longrightarrow> wf_tuple r \<Longrightarrow> rl_reach (fst (Rule_del rl r))"
| del_by_id: "rl_reach rl \<Longrightarrow> Rule_del_by_id rl i = Inr (rl', c) \<Longrightarrow> rl_reach rl'"
| del_all: "rl_reach rl \<Longrightarrow> rl_reach (fst (Rule_del_all rl))"

lemma rl_inv_init: "rl_inv Rule_list_init"
  by (auto simp: rl_inv_def Rule_list_init_def used_tuples_def used_def RULE_ENTRY_STATUS_FREE_def)

lemma rl_abs_init: "rl_abs Rule_list_init = {}"
  by (auto simp: rl_abs_def Rule_list_init_def used_tuples_def used_def RULE_ENTRY_STATUS_FREE_def)

lemma rl_inv_free_entry:
  assumes "rl_inv rl" "entries rl = pre @ e # post" "used e"
  shows "rl_inv (rl\<lparr>entries := pre @ e\<lparr>entry_status := RULE_ENTRY_STATUS_FREE\<rparr> # post,
    rule_entry_free := rule_entry_free rl + 1, build_status := RULE_BUILD_UNCOMMIT\<rparr>)"
  using assms by (auto simp: rl_inv_def)

lemma rl_inv_del_by_id:
  assumes "rl_inv rl" "Rule_del_by_id rl i = Inr (rl', c)"
  shows "rl_inv rl'"
proof (cases "c = RULE_OK")
  case False
  with assms show ?thesis by (auto simp: Rule_del_by_id_def rule_codes split: if_splits)
next
  case True
  let ?k = "unat i"
  from True assms(2) have k: "?k < length (entries rl)" and u: "used (entries rl ! ?k)"
    and rl': "rl' = rl\<lparr>entries := (entries rl)[?k := (entries rl ! ?k)\<lparr>entry_status := RULE_ENTRY_STATUS_FREE\<rparr>],
      rule_entry_free := rule_entry_free rl + 1, build_status := RULE_BUILD_UNCOMMIT\<rparr>"
    by (auto simp: Rule_del_by_id_def used_def rule_codes split: if_splits)
  have "entries rl = take ?k (entries rl) @ entries rl ! ?k # drop (Suc ?k) (entries rl)"
    using k by (rule id_take_nth_drop)
  from rl_inv_free_entry [OF assms(1) this u] k show ?thesis
    by (simp add: rl' upd_conv_take_nth_drop)
qed

lemma rl_reach_inv: "rl_reach rl \<Longrightarrow> rl_inv rl"
proof (induction rule: rl_reach.induct)
  case (del_by_id rl i rl' c)
  then show ?case by (blast intro: rl_inv_del_by_id)
qed (simp_all add: rl_inv_init table.inv_add table.inv_del table.inv_clear)

lemma wf_zero_tuple: "wf_tuple zero_tuple"
  by (simp add: wf_tuple_def zero_tuple_def)

section \<open>Properties\<close>

text \<open>
  C6. In every reachable rule table the free counter is the number of free entries, the table keeps
  its size, and no two used entries hold the same rule.
\<close>

theorem rule_table_invariant:
  assumes "rl_reach rl"
  shows "length (entries rl) = RULE_ENTRY_MAX \<and>
    rule_entry_free rl = int (length (filter (\<lambda>e. entry_status e = RULE_ENTRY_STATUS_FREE) (entries rl))) \<and>
    distinct (map entry_tuple (filter (\<lambda>e. entry_status e \<noteq> RULE_ENTRY_STATUS_FREE) (entries rl)))"
proof -
  have inv: "rl_inv rl" using assms by (rule rl_reach_inv)
  have "length (filter (\<lambda>e. entry_status e = RULE_ENTRY_STATUS_FREE) (entries rl)) + length (used_tuples (entries rl)) =
      length (entries rl)"
    using sum_length_filter_compl [of used "entries rl"] by (simp add: used_tuples_def used_def)
  moreover have "filter (\<lambda>e. entry_status e \<noteq> RULE_ENTRY_STATUS_FREE) (entries rl) = filter used (entries rl)"
    by (rule filter_cong) (simp_all add: used_def)
  ultimately show ?thesis using inv by (auto simp: rl_inv_def used_tuples_def)
qed

theorem rule_table_invariant_witness:
  "length (entries (fst (Rule_add Rule_list_init zero_tuple))) = RULE_ENTRY_MAX"
  using rule_table_invariant [OF rl_reach.add [OF rl_reach.init wf_zero_tuple]] by simp

text \<open>
  C7. The table implements a bounded set of rules: adding, deleting and clearing act on the set of
  rules in use as on a set of at most \<open>RULE_ENTRY_MAX\<close> elements, with the code of each case (full before
  duplicate).
\<close>

theorem rule_table_refines:
  assumes "rl_reach rl" "wf_tuple r"
  shows "(rl_abs (fst (Rule_add rl r)), snd (Rule_add rl r)) = spec_op RULE_ENTRY_MAX (Add r) (rl_abs rl) \<and>
    (rl_abs (fst (Rule_del rl r)), snd (Rule_del rl r)) = spec_op RULE_ENTRY_MAX (Del r) (rl_abs rl) \<and>
    (rl_abs (fst (Rule_del_all rl)), snd (Rule_del_all rl)) = spec_op RULE_ENTRY_MAX Clear (rl_abs rl)"
  using table.add_abs [OF rl_reach_inv] table.del_abs [OF rl_reach_inv] table.clear_abs [OF rl_reach_inv] assms
  by blast

theorem rule_table_refines_witness:
  "(rl_abs (fst (Rule_add Rule_list_init zero_tuple)), snd (Rule_add Rule_list_init zero_tuple)) = ({zero_tuple}, 0)"
  using rule_table_refines [OF rl_reach.init wf_zero_tuple] by (simp add: rl_abs_init RULE_ENTRY_MAX_def)

text \<open>
  A delete by id leaves the table exactly when the table is not empty and the id is not below
  \<open>RULE_ENTRY_MAX\<close>: \<open>Rule_del_by_id\<close> has no bounds check.
\<close>

theorem del_by_id_bounds:
  assumes "rl_reach rl"
  shows "Rule_del_by_id rl i = Inl OutOfBounds \<longleftrightarrow> rl_abs rl \<noteq> {} \<and> RULE_ENTRY_MAX \<le> unat i"
proof -
  have inv: "rl_inv rl" using assms by (rule rl_reach_inv)
  then have "int RULE_ENTRY_MAX = rule_entry_free rl \<longleftrightarrow> rl_abs rl = {}" "length (entries rl) = RULE_ENTRY_MAX"
    by (auto simp: rl_inv_def rl_abs_def)
  then show ?thesis by (auto simp: Rule_del_by_id_def)
qed

theorem del_by_id_bounds_witness:
  "Rule_del_by_id (fst (Rule_add Rule_list_init zero_tuple)) 100000 = Inl OutOfBounds"
proof -
  have "rl_abs (fst (Rule_add Rule_list_init zero_tuple)) \<noteq> {}"
    using table.add_abs [OF rl_inv_init wf_zero_tuple] by (simp add: rl_abs_init RULE_ENTRY_MAX_def)
  then show ?thesis
    using del_by_id_bounds [OF rl_reach.add [OF rl_reach.init wf_zero_tuple], of 100000] by (simp add: RULE_ENTRY_MAX_def)
qed

end
