(* ===== verification/Message.thy ===== *)
theory Message
  imports RuleTable
begin

text \<open>
  The messages between the CLI and the management server (\<open>mgrplane/src/common/message.c\<close>,
  \<open>mgrplane/src/common/include/message.h\<close>): the 12-byte header, the parameter union, the tables that
  map a command to its header and its pack routine, and the routines that fill, pack and classify a
  message. The lemmas are round trips between packing and the reads of the receiver.
\<close>

section \<open>Formats and tables\<close>

text \<open>\<open>cmd_type_t\<close> is an unsigned enumeration; the commands are numbers below \<open>MAX_COMMAND_TYPE\<close>.\<close>

definition MAX_COMMAND_TYPE :: nat where
  "MAX_COMMAND_TYPE = 20"

definition SHOW_ACL_RULE :: nat where "SHOW_ACL_RULE = 8"
definition SHOW_ACL_RULE_ACK :: nat where "SHOW_ACL_RULE_ACK = 9"
definition ADD_ACL_RULE :: nat where "ADD_ACL_RULE = 10"
definition ADD_ACL_RULE_ACK :: nat where "ADD_ACL_RULE_ACK = 11"
definition DEL_ACL_RULE :: nat where "DEL_ACL_RULE = 12"
definition DEL_ACL_RULE_ACK :: nat where "DEL_ACL_RULE_ACK = 13"
definition DEL_ACL_RULE_ID :: nat where "DEL_ACL_RULE_ID = 14"
definition DEL_ACL_RULE_ID_ACK :: nat where "DEL_ACL_RULE_ID_ACK = 15"
definition DEL_ACL_RULE_ALL :: nat where "DEL_ACL_RULE_ALL = 16"
definition DEL_ACL_RULE_ALL_ACK :: nat where "DEL_ACL_RULE_ALL_ACK = 17"
definition COMMIT_ACL_RULE :: nat where "COMMIT_ACL_RULE = 18"
definition COMMIT_ACL_RULE_ACK :: nat where "COMMIT_ACL_RULE_ACK = 19"

lemmas cmd_defs = MAX_COMMAND_TYPE_def SHOW_ACL_RULE_def SHOW_ACL_RULE_ACK_def ADD_ACL_RULE_def ADD_ACL_RULE_ACK_def
  DEL_ACL_RULE_def DEL_ACL_RULE_ACK_def DEL_ACL_RULE_ID_def DEL_ACL_RULE_ID_ACK_def
  DEL_ACL_RULE_ALL_def DEL_ACL_RULE_ALL_ACK_def COMMIT_ACL_RULE_def COMMIT_ACL_RULE_ACK_def

record message_head =
  flag :: u8
  msg_type :: u8
  msg_code :: u16
  msg_id :: u32
  more_flag :: u8
  hlength :: u8
  blocktype :: u8
  data_block_num :: u8

definition MESSAGE_HEADER_LENGTH :: nat where
  "MESSAGE_HEADER_LENGTH = 12"

definition head_bytes :: "message_head \<Rightarrow> u8 list" where
  "head_bytes h = [flag h, msg_type h] @ be16 (msg_code h) @ be32 (msg_id h) @
     [more_flag h, hlength h, blocktype h, data_block_num h]"

definition read_head :: "u8 list \<Rightarrow> message_head" where
  "read_head buf =
     \<lparr>flag = get8 buf 0, msg_type = get8 buf 1, msg_code = get16 buf 2, msg_id = get32 buf 4,
      more_flag = get8 buf 8, hlength = get8 buf 9, blocktype = get8 buf 10, data_block_num = get8 buf 11\<rparr>"

record msg_header_info =
  info_cmd :: nat
  info_flag :: u8
  info_type :: u8
  info_code :: u16
  info_block :: u8

text \<open>
  \<open>rcp_msg_params_s\<close>: \<open>mem\<close> is the union of \<open>params[255]\<close>, blocks of 40 bytes, and \<open>info_buf\<close>.
\<close>

record rcp_params =
  p_msg_id :: u32
  p_more_flag :: u8
  p_nparam :: u8
  p_info_len :: u16
  p_mem :: "u8 list"

definition sizeof_data_block :: nat where
  "sizeof_data_block = 40"

definition zero_params :: rcp_params where
  "zero_params = \<lparr>p_msg_id = 0, p_more_flag = 0, p_nparam = 0, p_info_len = 0,
     p_mem = replicate (255 * sizeof_data_block) 0\<rparr>"

text \<open>A store of bytes at an offset of the union.\<close>

definition put_mem :: "nat \<Rightarrow> u8 list \<Rightarrow> rcp_params \<Rightarrow> rcp_params" where
  "put_mem i bs p = p\<lparr>p_mem := take i (p_mem p) @ bs @ drop (i + length bs) (p_mem p)\<rparr>"

section \<open>Header table\<close>

definition get_data_block_length :: "u8 \<Rightarrow> nat" where
  "get_data_block_length bt =
     (if bt = 1 then 13 else if bt = 2 then sizeof_tuple else if bt = 3 then 4 else if bt = 4 then 4 else 0)"

definition cmd_is_valid :: "nat \<Rightarrow> int" where
  "cmd_is_valid cmd = (if cmd < MAX_COMMAND_TYPE then 0 else 1)"

definition register_msg_header ::
  "u8 \<Rightarrow> nat \<Rightarrow> u8 \<Rightarrow> u16 \<Rightarrow> u8 \<Rightarrow> msg_header_info list \<Rightarrow> msg_header_info list" where
  "register_msg_header fl cmd ty code blk tbl =
     (if cmd_is_valid cmd \<noteq> 0 then tbl
      else tbl[cmd := \<lparr>info_cmd = cmd, info_flag = fl, info_type = ty, info_code = code, info_block = blk\<rparr>])"

text \<open>
  \<open>init_msg_header\<close>: the message codes run from 0x101 in the order of the commands; the block types
  are those of the calls, \<open>BLOCK_TYPE_START\<close> 0, \<open>BLOCK_ACL_RULE_TUPLE\<close> 2, \<open>BLOCK_RESULT_CODE\<close> 3 and
  \<open>BLOCK_ACL_RULE_ID\<close> 4.
\<close>

definition zero_header_info :: msg_header_info where
  "zero_header_info = \<lparr>info_cmd = 0, info_flag = 0, info_type = 0, info_code = 0, info_block = 0\<rparr>"

definition init_msg_header :: "msg_header_info list" where
  "init_msg_header =
     fold (\<lambda>(cmd, code, blk). register_msg_header 0x88 cmd 1 code blk)
       [(0, 0x101, 0), (1, 0x102, 0), (2, 0x103, 0), (3, 0x104, 0), (4, 0x105, 0), (5, 0x106, 0),
        (6, 0x107, 0), (7, 0x108, 0), (8, 0x109, 0), (9, 0x10A, 3), (10, 0x10B, 2), (11, 0x10C, 3),
        (12, 0x10D, 2), (13, 0x10E, 3), (14, 0x10F, 4), (15, 0x110, 3), (16, 0x111, 0), (17, 0x112, 3),
        (18, 0x113, 0), (19, 0x114, 3)]
       (replicate (MAX_COMMAND_TYPE + 1) zero_header_info)"

text \<open>\<open>get_cmd_type\<close> scans all \<open>MAX_COMMAND_TYPE + 1\<close> entries; \<open>None\<close> is the return value 1.\<close>

fun scan_headers :: "nat \<Rightarrow> msg_header_info list \<Rightarrow> message_head \<Rightarrow> nat option" where
  "scan_headers i [] h = None"
| "scan_headers i (e # es) h =
     (if flag h = info_flag e \<and> msg_type h = info_type e \<and> msg_code h = info_code e \<and> blocktype h = info_block e
      then Some i else scan_headers (Suc i) es h)"

definition get_cmd_type :: "message_head \<Rightarrow> nat option" where
  "get_cmd_type h = scan_headers 0 init_msg_header h"

definition encap_msg_header :: "nat \<Rightarrow> rcp_params \<Rightarrow> message_head" where
  "encap_msg_header cmd p =
     (let e = init_msg_header ! cmd in
      \<lparr>flag = info_flag e, msg_type = info_type e, msg_code = info_code e, msg_id = p_msg_id p,
       more_flag = p_more_flag p,
       hlength = of_nat ((unat (p_nparam p) * get_data_block_length (info_block e) + MESSAGE_HEADER_LENGTH) div 4),
       blocktype = info_block e, data_block_num = p_nparam p\<rparr>)"

section \<open>Packing\<close>

text \<open>Every pack routine gives its return value and the bytes it writes, as many as \<open>*len_p\<close>.\<close>

definition pack_blocks :: "nat \<Rightarrow> rcp_params \<Rightarrow> u8 list" where
  "pack_blocks len p =
     concat (map (\<lambda>i. take len (drop (i * sizeof_data_block) (p_mem p))) [0..<unat (p_nparam p)])"

definition pack_acl_rule_id :: "nat \<Rightarrow> rcp_params \<Rightarrow> int \<times> u8 list" where
  "pack_acl_rule_id cmd p =
     (if cmd_is_valid cmd \<noteq> 0 then (cmd_is_valid cmd, [])
      else (0, head_bytes (encap_msg_header cmd p) @ pack_blocks 4 p))"

definition pack_acl_rule :: "nat \<Rightarrow> rcp_params \<Rightarrow> int \<times> u8 list" where
  "pack_acl_rule cmd p =
     (if cmd_is_valid cmd \<noteq> 0 then (cmd_is_valid cmd, [])
      else (0, head_bytes (encap_msg_header cmd p) @ pack_blocks sizeof_tuple p))"

definition pack_result_code :: "nat \<Rightarrow> rcp_params \<Rightarrow> int \<times> u8 list" where
  "pack_result_code cmd p =
     (if cmd_is_valid cmd \<noteq> 0 then (cmd_is_valid cmd, [])
      else (0, head_bytes (encap_msg_header cmd p) @ pack_blocks 4 p))"

definition pack_null :: "nat \<Rightarrow> rcp_params \<Rightarrow> int \<times> u8 list" where
  "pack_null cmd p =
     (if cmd_is_valid cmd \<noteq> 0 then (cmd_is_valid cmd, [])
      else (0, head_bytes (encap_msg_header cmd p)))"

definition pack_show_info :: "nat \<Rightarrow> rcp_params \<Rightarrow> int \<times> u8 list" where
  "pack_show_info cmd p =
     (if cmd_is_valid cmd \<noteq> 0 then (cmd_is_valid cmd, [])
      else (0, head_bytes ((encap_msg_header cmd p)\<lparr>hlength := of_nat ((MESSAGE_HEADER_LENGTH + unat (p_info_len p)) div 4)\<rparr>)
               @ take (unat (p_info_len p)) (p_mem p)))"

datatype pack_handle = Pack_null | Pack_show_info | Pack_acl_rule | Pack_acl_rule_id | Pack_result_code

fun run_pack :: "pack_handle \<Rightarrow> nat \<Rightarrow> rcp_params \<Rightarrow> int \<times> u8 list" where
  "run_pack Pack_null = pack_null"
| "run_pack Pack_show_info = pack_show_info"
| "run_pack Pack_acl_rule = pack_acl_rule"
| "run_pack Pack_acl_rule_id = pack_acl_rule_id"
| "run_pack Pack_result_code = pack_result_code"

definition register_msg_pack_handle :: "nat \<Rightarrow> pack_handle \<Rightarrow> pack_handle option list \<Rightarrow> pack_handle option list" where
  "register_msg_pack_handle cmd h tbl = (if cmd_is_valid cmd \<noteq> 0 then tbl else tbl[cmd := Some h])"

definition init_msg_pack_handle :: "pack_handle option list" where
  "init_msg_pack_handle =
     fold (\<lambda>(cmd, h). register_msg_pack_handle cmd h)
       [(0, Pack_null), (1, Pack_show_info), (2, Pack_null), (3, Pack_show_info), (4, Pack_null),
        (5, Pack_show_info), (6, Pack_null), (7, Pack_show_info), (8, Pack_null), (9, Pack_show_info),
        (10, Pack_acl_rule), (11, Pack_result_code), (12, Pack_acl_rule), (13, Pack_result_code),
        (14, Pack_acl_rule_id), (15, Pack_result_code), (16, Pack_null), (17, Pack_result_code),
        (18, Pack_null), (19, Pack_result_code)]
       (replicate (MAX_COMMAND_TYPE + 1) None)"

text \<open>The call \<open>cmd_msg_handles[cmd].pack(...)\<close> of client and server.\<close>

definition call_pack :: "nat \<Rightarrow> rcp_params \<Rightarrow> (int \<times> u8 list) res" where
  "call_pack cmd p =
     (if cmd \<ge> length init_msg_pack_handle then Inl OutOfBounds
      else case init_msg_pack_handle ! cmd of None \<Rightarrow> Inl NullDeref | Some h \<Rightarrow> Inr (run_pack h cmd p))"

text \<open>\<open>param_to_pkt\<close>: the answer takes the message id of the request; the bytes are \<open>sbuf\<close>.\<close>

definition param_to_pkt :: "nat \<Rightarrow> u8 list \<Rightarrow> rcp_params \<Rightarrow> (int \<times> u8 list) res" where
  "param_to_pkt cmd from p =
     (if cmd_is_valid cmd \<noteq> 0 then Inr (cmd_is_valid cmd, [])
      else rbind (call_pack cmd (p\<lparr>p_msg_id := msg_id (read_head from)\<rparr>)) (\<lambda>(rv, bs). Inr (0, bs)))"

section \<open>Round trips\<close>

lemma length_head_bytes [simp]: "length (head_bytes h) = MESSAGE_HEADER_LENGTH"
  by (simp add: head_bytes_def MESSAGE_HEADER_LENGTH_def)

lemma read_head_bytes: "read_head (head_bytes h @ rest) = h"
  by (cases h) (simp add: read_head_def head_bytes_def get_skip get_here del: One_nat_def)

lemma init_headers_code: "list_all (\<lambda>cmd.
    scan_headers 0 init_msg_header \<lparr>flag = info_flag (init_msg_header ! cmd), msg_type = info_type (init_msg_header ! cmd),
      msg_code = info_code (init_msg_header ! cmd), msg_id = 0, more_flag = 0, hlength = 0,
      blocktype = info_block (init_msg_header ! cmd), data_block_num = 0\<rparr> = Some cmd) [0..<MAX_COMMAND_TYPE]"
  by code_simp

lemma scan_headers_cong:
  "flag h = flag h' \<Longrightarrow> msg_type h = msg_type h' \<Longrightarrow> msg_code h = msg_code h' \<Longrightarrow> blocktype h = blocktype h' \<Longrightarrow>
   scan_headers i es h = scan_headers i es h'"
  by (induction es arbitrary: i) auto

lemma get_cmd_type_encap:
  assumes "cmd < MAX_COMMAND_TYPE"
  shows "get_cmd_type (encap_msg_header cmd p) = Some cmd"
proof -
  have "scan_headers 0 init_msg_header \<lparr>flag = info_flag (init_msg_header ! cmd), msg_type = info_type (init_msg_header ! cmd),
      msg_code = info_code (init_msg_header ! cmd), msg_id = 0, more_flag = 0, hlength = 0,
      blocktype = info_block (init_msg_header ! cmd), data_block_num = 0\<rparr> = Some cmd"
    using init_headers_code assms by (simp add: list_all_iff)
  then show ?thesis
    unfolding get_cmd_type_def by (subst scan_headers_cong) (auto simp: encap_msg_header_def Let_def)
qed

lemma pack_handles_code: "list_all (\<lambda>cmd. init_msg_pack_handle ! cmd \<noteq> None) [0..<MAX_COMMAND_TYPE]"
  "length init_msg_pack_handle = 21"
  by code_simp+

text \<open>Every registered pack routine starts with a header that is classified as the command.\<close>

lemma call_pack_ok:
  assumes "cmd < MAX_COMMAND_TYPE"
  shows "\<exists>h rest. call_pack cmd p = Inr (0, head_bytes h @ rest) \<and> get_cmd_type h = Some cmd \<and> msg_id h = p_msg_id p"
proof -
  have "init_msg_pack_handle ! cmd \<noteq> None" using pack_handles_code(1) assms by (simp add: list_all_iff)
  then obtain k where k: "init_msg_pack_handle ! cmd = Some k" by auto
  let ?h = "encap_msg_header cmd p"
  have c: "call_pack cmd p = Inr (run_pack k cmd p)"
    using assms k pack_handles_code(2) by (simp add: call_pack_def MAX_COMMAND_TYPE_def)
  have g: "get_cmd_type (?h\<lparr>hlength := l\<rparr>) = Some cmd" for l
    using get_cmd_type_encap [OF assms, of p] unfolding get_cmd_type_def by (subst scan_headers_cong [of _ ?h]) auto
  have i: "msg_id ?h = p_msg_id p" by (simp add: encap_msg_header_def Let_def)
  have v: "cmd_is_valid cmd = 0" using assms by (simp add: cmd_is_valid_def)
  show ?thesis
  proof (cases "k = Pack_show_info")
    case True
    with c v g i show ?thesis
      by (intro exI [of _ "?h\<lparr>hlength := of_nat ((MESSAGE_HEADER_LENGTH + unat (p_info_len p)) div 4)\<rparr>"])
        (auto simp: pack_show_info_def)
  next
    case False
    with c v get_cmd_type_encap [OF assms, of p] i show ?thesis
      by (intro exI [of _ ?h]) (cases k, auto simp: pack_null_def pack_acl_rule_def pack_acl_rule_id_def pack_result_code_def)
  qed
qed

lemma pack_blocks_1: "p_nparam p = 1 \<Longrightarrow> pack_blocks n p = take n (p_mem p)"
  by (simp add: pack_blocks_def)

lemma put_mem_0: "take (length bs) (p_mem (put_mem 0 bs p)) = bs"
  by (simp add: put_mem_def)

end
