(* ===== verification/MgmtServer.thy ===== *)
theory MgmtServer
  imports Message
begin

text \<open>
  The management server (\<open>mgrplane/src/srv/srvcore/trans.c\<close>, \<open>mgrplane/src/srv/srvnet/cmdproc.c\<close>,
  \<open>srv_rule.c\<close>, \<open>srv_octeon.c\<close>, \<open>mgrplane/src/common/message.c\<close>): the socket table, the receive routine,
  the command dispatch and the handlers. The data plane behind \<open>pow_rpc_syncall2dp\<close> is the parameter
  \<open>dp\<close> (the reply to an opcode, or \<open>None\<close> for an error) and the outcome of \<open>fopen\<close> the parameter
  \<open>file_ok\<close>; both belong to the environment record.
\<close>

section \<open>The socket table\<close>

definition SOCK_MAX :: nat where
  "SOCK_MAX = 1027"

datatype sock_status = INVALID | INITIALIZED | CONNETED | OPERATIONAL

datatype sock_type = TCP_SERVER | TCP_CLIENT | UDP_CLIENT | UDP_SERVER

record sock_entry =
  status :: sock_status
  conn_num :: int
  account_id :: int
  stype :: sock_type

record socks =
  sock_map :: "sock_entry list"
  rfds :: "nat set"
  maxfd :: nat
  client_num :: int

definition zero_sock :: sock_entry where
  "zero_sock = \<lparr>status = INITIALIZED, conn_num = 0, account_id = 0, stype = TCP_SERVER\<rparr>"

definition sock_map_init :: "socks \<Rightarrow> socks" where
  "sock_map_init s = s\<lparr>sock_map := map (\<lambda>e. e\<lparr>status := INVALID, conn_num := 0, account_id := -1\<rparr>) (sock_map s)\<rparr>"

text \<open>\<open>FD_SET\<close> and \<open>FD_CLR\<close> write into a bit array of \<open>FD_SETSIZE\<close> bits.\<close>

definition FD_SETSIZE :: nat where
  "FD_SETSIZE = 1024"

definition add_fd :: "sock_type \<Rightarrow> nat \<Rightarrow> socks \<Rightarrow> socks res" where
  "add_fd ty fd s =
     (if fd \<ge> length (sock_map s) \<or> fd \<ge> FD_SETSIZE then Inl OutOfBounds
      else let e = (sock_map s ! fd)\<lparr>stype := ty\<rparr>;
               e1 = (if ty = TCP_CLIENT then e\<lparr>status := CONNETED, conn_num := 0\<rparr> else e\<lparr>status := OPERATIONAL\<rparr>);
               e2 = e1\<lparr>account_id := -1\<rparr>
           in Inr (s\<lparr>sock_map := (sock_map s)[fd := e2], rfds := insert fd (rfds s),
                     maxfd := (if int (maxfd s) - int fd \<ge> 0 then maxfd s else fd)\<rparr>))"

fun max_valid :: "nat \<Rightarrow> sock_entry list \<Rightarrow> nat \<Rightarrow> nat" where
  "max_valid i [] m = m"
| "max_valid i (e # es) m = max_valid (Suc i) es (if status e \<noteq> INVALID \<and> m < i then i else m)"

definition del_fd :: "nat \<Rightarrow> socks \<Rightarrow> socks res" where
  "del_fd fd s =
     (if fd \<ge> length (sock_map s) \<or> fd \<ge> FD_SETSIZE then Inl OutOfBounds
      else let m = (sock_map s)[fd := zero_sock\<lparr>status := INVALID\<rparr>] in
        Inr (s\<lparr>sock_map := m, rfds := rfds s - {fd},
               maxfd := (if fd = maxfd s then max_valid 0 m 0 else maxfd s), client_num := client_num s - 1\<rparr>))"

section \<open>Receiving\<close>

definition RECV_BUF :: nat where
  "RECV_BUF = 1518"

text \<open>
  \<open>recv_tcp_client_packet\<close> on the bytes that are pending: the return value, the receive buffer, the
  value of \<open>*rlen_p\<close> (an unsigned 32-bit number) and the bytes left. The buffer \<open>buf_r\<close> of \<open>server_run\<close>
  is reused, so its tail keeps what earlier messages left there. A negative \<open>data_len\<close> becomes a huge
  count for \<open>recv\<close>, which then takes all pending bytes.
\<close>

definition overwrite :: "u8 list \<Rightarrow> u8 list \<Rightarrow> u8 list" where
  "overwrite old new = new @ drop (length new) old"

definition recv_tcp_client_packet :: "u8 list \<Rightarrow> u8 list \<Rightarrow> (int \<times> u8 list \<times> u32 \<times> u8 list) res" where
  "recv_tcp_client_packet old pending =
     (let hdr = take MESSAGE_HEADER_LENGTH pending; rest = drop MESSAGE_HEADER_LENGTH pending in
      if length hdr \<noteq> MESSAGE_HEADER_LENGTH then Inr (1, overwrite old hdr, 0, rest)
      else let total_len = 4 * int (unat (hlength (read_head hdr)));
               data_len = total_len - int MESSAGE_HEADER_LENGTH in
        if data_len = 0 then Inr (0, overwrite old hdr, of_nat MESSAGE_HEADER_LENGTH, rest)
        else let n = (if data_len < 0 then length rest else min (nat data_len) (length rest)) in
          if MESSAGE_HEADER_LENGTH + n > RECV_BUF then Inl OutOfBounds
          else Inr (if int n \<noteq> data_len then 1 else 0, overwrite old (hdr @ take n rest),
                    of_nat MESSAGE_HEADER_LENGTH + of_nat n, drop n rest))"

section \<open>Answers\<close>

definition MAX_BUF :: nat where
  "MAX_BUF = 1530"

text \<open>\<open>send_rcp_res\<close>: the bytes given to \<open>send\<close>, none when \<open>param_to_pkt\<close> fails.\<close>

definition send_rcp_res :: "nat \<Rightarrow> u8 list \<Rightarrow> rcp_params \<Rightarrow> u8 \<Rightarrow> u8 list option res" where
  "send_rcp_res cmd_ack from p mf =
     (let p1 = p\<lparr>p_more_flag := mf\<rparr>;
          align = unat (p_info_len p1) mod 4;
          p2 = (if align \<noteq> 0 then p1\<lparr>p_info_len := p_info_len p1 + of_nat (4 - align)\<rparr> else p1)
      in rbind (param_to_pkt cmd_ack from p2) (\<lambda>(rv, bs).
         if length bs > MAX_BUF then Inl OutOfBounds
         else if rv \<noteq> 0 then Inr None else Inr (Some bs)))"

section \<open>The server state and its handlers\<close>

record server =
  rules :: rule_list
  sent :: "(nat \<times> u8 list) list"
  rule_file :: "(nat \<times> u32 \<times> u32 \<times> u32 \<times> u32 \<times> u16 \<times> u16) list"

record environment =
  dp :: "u16 \<Rightarrow> u8 list option"
  file_ok :: bool

definition answer :: "nat \<Rightarrow> u8 list \<Rightarrow> rcp_params \<Rightarrow> nat \<Rightarrow> server \<Rightarrow> server res" where
  "answer cmd_ack from p fd s =
     rbind (send_rcp_res cmd_ack from p 0) (\<lambda>r.
       Inr (case r of None \<Rightarrow> s | Some bs \<Rightarrow> s\<lparr>sent := sent s @ [(fd, bs)]\<rparr>))"

text \<open>\<open>params[0].CliResultCode.result_code = c; nparam = 1\<close> on zeroed parameters.\<close>

definition result_params :: "u32 \<Rightarrow> rcp_params" where
  "result_params c = (put_mem 0 (be32 c) zero_params)\<lparr>p_nparam := 1\<rparr>"

definition Rule_show_acl_rule :: "environment \<Rightarrow> u8 list \<Rightarrow> nat \<Rightarrow> server \<Rightarrow> server res" where
  "Rule_show_acl_rule env from fd s =
     (let s1 = (if file_ok env then s\<lparr>rule_file := Rule_Save_File (rules s)\<rparr> else s)
      in answer SHOW_ACL_RULE_ACK from (result_params (if file_ok env then 0 else 6)) fd s1)"

definition Rule_add_acl_rule :: "u8 list \<Rightarrow> nat \<Rightarrow> server \<Rightarrow> server res" where
  "Rule_add_acl_rule from fd s =
     (let (rl, ret) = Rule_add (rules s) (read_tuple from MESSAGE_HEADER_LENGTH);
          code = (if ret = RULE_OK then 0 else if ret = RULE_FULL then 1 else if ret = RULE_EXIST then 2 else 0)
      in answer ADD_ACL_RULE_ACK from (result_params code) fd (s\<lparr>rules := rl\<rparr>))"

definition Rule_del_acl_rule :: "u8 list \<Rightarrow> nat \<Rightarrow> server \<Rightarrow> server res" where
  "Rule_del_acl_rule from fd s =
     (let (rl, ret) = Rule_del (rules s) (read_tuple from MESSAGE_HEADER_LENGTH);
          code = (if ret = RULE_OK then 0 else if ret = RULE_NOT_EXIST then 3 else 0)
      in answer DEL_ACL_RULE_ACK from (result_params code) fd (s\<lparr>rules := rl\<rparr>))"

definition Rule_del_acl_rule_id :: "u8 list \<Rightarrow> nat \<Rightarrow> server \<Rightarrow> server res" where
  "Rule_del_acl_rule_id from fd s =
     rbind (Rule_del_by_id (rules s) (get32 from MESSAGE_HEADER_LENGTH)) (\<lambda>(rl, ret).
       let code = (if ret = RULE_OK then 0 else if ret = RULE_NOT_EXIST then 3 else 0)
       in answer DEL_ACL_RULE_ID_ACK from (result_params code) fd (s\<lparr>rules := rl\<rparr>))"

definition Rule_del_acl_rule_all :: "u8 list \<Rightarrow> nat \<Rightarrow> server \<Rightarrow> server res" where
  "Rule_del_acl_rule_all from fd s =
     answer DEL_ACL_RULE_ALL_ACK from (result_params 0) fd (s\<lparr>rules := fst (Rule_del_all (rules s))\<rparr>)"

definition Rule_commit_acl_rule :: "u8 list \<Rightarrow> nat \<Rightarrow> server \<Rightarrow> server res" where
  "Rule_commit_acl_rule from fd s = answer COMMIT_ACL_RULE_ACK from (result_params 0) fd s"

text \<open>
  \<open>octeon_rpccall\<close>: a failed call or a reply whose length does not match ends without an answer. The
  reply is \<open>rpc_msg_t\<close>: opcode, length of the text, text.
\<close>

definition octeon_rpccall :: "environment \<Rightarrow> u8 list \<Rightarrow> nat \<Rightarrow> nat \<Rightarrow> u16 \<Rightarrow> server \<Rightarrow> server res" where
  "octeon_rpccall env from fd cmd_ack opcode s =
     (case dp env opcode of
        None \<Rightarrow> Inr s
      | Some reply \<Rightarrow>
          if length reply < 4 then Inr s
          else let n = unat (get16 reply 2) in
            if n + 4 \<noteq> length reply then Inr s
            else answer cmd_ack from
              ((put_mem 0 (drop 4 reply @ [0]) zero_params)\<lparr>p_info_len := of_nat n\<rparr>) fd s)"

definition test_command_text :: "u8 list" where
  "test_command_text = map (\<lambda>c. of_nat (of_char c)) ''show test command.\<newline>''"

definition octeon_show_test_command :: "u8 list \<Rightarrow> nat \<Rightarrow> server \<Rightarrow> server res" where
  "octeon_show_test_command from fd s =
     answer 1 from ((put_mem 0 (test_command_text @ [0]) zero_params)\<lparr>p_info_len := 19\<rparr>) fd s"

section \<open>Dispatch\<close>

datatype proc_handle =
    Proc_test_command | Proc_show_dp_build_time | Proc_show_dp_pkt_stat | Proc_show_mem_pool
  | Proc_show_acl_rule | Proc_add_acl_rule | Proc_del_acl_rule | Proc_del_acl_rule_id
  | Proc_del_acl_rule_all | Proc_commit_acl_rule

fun run_proc :: "environment \<Rightarrow> proc_handle \<Rightarrow> u8 list \<Rightarrow> nat \<Rightarrow> server \<Rightarrow> server res" where
  "run_proc env Proc_test_command from fd s = octeon_show_test_command from fd s"
| "run_proc env Proc_show_dp_build_time from fd s = octeon_rpccall env from fd 3 0xA001 s"
| "run_proc env Proc_show_dp_pkt_stat from fd s = octeon_rpccall env from fd 5 0xA002 s"
| "run_proc env Proc_show_mem_pool from fd s = octeon_rpccall env from fd 7 0xA003 s"
| "run_proc env Proc_show_acl_rule from fd s = Rule_show_acl_rule env from fd s"
| "run_proc env Proc_add_acl_rule from fd s = Rule_add_acl_rule from fd s"
| "run_proc env Proc_del_acl_rule from fd s = Rule_del_acl_rule from fd s"
| "run_proc env Proc_del_acl_rule_id from fd s = Rule_del_acl_rule_id from fd s"
| "run_proc env Proc_del_acl_rule_all from fd s = Rule_del_acl_rule_all from fd s"
| "run_proc env Proc_commit_acl_rule from fd s = Rule_commit_acl_rule from fd s"

definition register_cmd_process_handle :: "nat \<Rightarrow> proc_handle \<Rightarrow> proc_handle option list \<Rightarrow> proc_handle option list" where
  "register_cmd_process_handle cmd h tbl = (if cmd_is_valid cmd \<noteq> 0 then tbl else tbl[cmd := Some h])"

definition init_cmd_process_handle :: "proc_handle option list" where
  "init_cmd_process_handle =
     fold (\<lambda>(cmd, h). register_cmd_process_handle cmd h)
       [(0, Proc_test_command), (2, Proc_show_dp_build_time), (4, Proc_show_dp_pkt_stat), (6, Proc_show_mem_pool),
        (8, Proc_show_acl_rule), (10, Proc_add_acl_rule), (12, Proc_del_acl_rule), (14, Proc_del_acl_rule_id),
        (16, Proc_del_acl_rule_all), (18, Proc_commit_acl_rule)]
       (replicate (MAX_COMMAND_TYPE + 1) None)"

text \<open>\<open>mgmt_process_cmd\<close>; \<open>cmd\<close> starts as \<open>-1\<close>, the largest number of the unsigned enumeration.\<close>

definition mgmt_process_cmd :: "environment \<Rightarrow> u8 list \<Rightarrow> nat \<Rightarrow> server \<Rightarrow> (int \<times> server) res" where
  "mgmt_process_cmd env from fd s =
     (let cmd = (case get_cmd_type (read_head from) of None \<Rightarrow> 2 ^ 32 - 1 | Some c \<Rightarrow> c) in
      if cmd_is_valid cmd \<noteq> 0 then Inr (cmd_is_valid cmd, s)
      else case init_cmd_process_handle ! cmd of
        None \<Rightarrow> Inr (1, s)
      | Some h \<Rightarrow> rbind (run_proc env h from fd s) (\<lambda>s'. Inr (0, s')))"

text \<open>One ready client in \<open>server_run\<close>: receive, dispatch, and whether the socket is closed.\<close>

definition serve_client ::
  "environment \<Rightarrow> u8 list \<Rightarrow> u8 list \<Rightarrow> nat \<Rightarrow> server \<Rightarrow> (bool \<times> u8 list \<times> u8 list \<times> server) res" where
  "serve_client env old pending fd s =
     rbind (recv_tcp_client_packet old pending) (\<lambda>(ret, buf, len, rest).
     rbind (if ret = 0 then mgmt_process_cmd env buf fd s else Inr (1, s)) (\<lambda>(rv, s').
     Inr (len = 0, buf, rest, s')))"

section \<open>Receiving what was packed\<close>

lemma recv_exact:
  assumes "3 \<le> unat (hlength h)" "length body = 4 * unat (hlength h) - 12"
  shows "recv_tcp_client_packet old (head_bytes h @ body @ rest) =
    Inr (0, overwrite old (head_bytes h @ body), of_nat (length (head_bytes h @ body)), rest)"
proof -
  have b: "unat (hlength h) < 256" using unsigned_less [where ?'a = nat, of "hlength h"] by simp
  have t: "take MESSAGE_HEADER_LENGTH (head_bytes h @ body @ rest) = head_bytes h"
    "drop MESSAGE_HEADER_LENGTH (head_bytes h @ body @ rest) = body @ rest" by simp_all
  have h: "read_head (head_bytes h) = h" using read_head_bytes [of h "[]"] by simp
  have d: "4 * int (unat (hlength h)) - int MESSAGE_HEADER_LENGTH = int (length body)"
    using assms by (simp add: MESSAGE_HEADER_LENGTH_def)
  have n: "MESSAGE_HEADER_LENGTH + length body \<le> RECV_BUF"
    using assms b by (simp add: RECV_BUF_def MESSAGE_HEADER_LENGTH_def)
  show ?thesis
  proof (cases "body = []")
    case True
    then show ?thesis unfolding recv_tcp_client_packet_def Let_def t h d by simp
  next
    case False
    then show ?thesis unfolding recv_tcp_client_packet_def Let_def t h d using n by simp
  qed
qed

lemma read_head_overwrite [simp]: "read_head (overwrite old (head_bytes h @ body)) = h"
  by (simp add: overwrite_def read_head_bytes)

lemma read_tuple_overwrite:
  "wf_tuple t \<Longrightarrow> read_tuple (overwrite old (head_bytes h @ tuple_bytes t)) MESSAGE_HEADER_LENGTH = t"
  using read_tuple_bytes [of t "head_bytes h"] by (simp add: overwrite_def)

section \<open>Answers with a result code\<close>

lemma init_tables_code:
  "list_all (\<lambda>c. init_msg_pack_handle ! c = Some Pack_result_code) [11, 13, 15, 17, 19]"
  "list_all (\<lambda>c. init_msg_pack_handle ! c = Some Pack_acl_rule) [10, 12]"
  "init_msg_pack_handle ! 9 = Some Pack_show_info"
  "list_all (\<lambda>c. info_block (init_msg_header ! c) = 2) [10, 12]"
  "map ((!) init_cmd_process_handle) [10, 12, 14, 16, 18] =
     [Some Proc_add_acl_rule, Some Proc_del_acl_rule, Some Proc_del_acl_rule_id, Some Proc_del_acl_rule_all, Some Proc_commit_acl_rule]"
  by code_simp+

lemma answer_result:
  assumes "ack \<in> {11, 13, 15, 17, 19}"
  shows "\<exists>h. answer ack from (result_params c) fd s = Inr (s\<lparr>sent := sent s @ [(fd, head_bytes h @ be32 c)]\<rparr>) \<and>
    get_cmd_type h = Some ack \<and> msg_id h = msg_id (read_head from)"
proof -
  let ?p = "(result_params c)\<lparr>p_more_flag := 0, p_msg_id := msg_id (read_head from)\<rparr>"
  have a: "ack < MAX_COMMAND_TYPE" "ack < 21" using assms by (auto simp: MAX_COMMAND_TYPE_def)
  have "init_msg_pack_handle ! ack = Some Pack_result_code" using assms init_tables_code(1) by auto
  then have c: "call_pack ack ?p = Inr (0, head_bytes (encap_msg_header ack ?p) @ be32 c)"
    using a put_mem_0 [of "be32 c" zero_params] pack_handles_code(2)
    by (simp add: call_pack_def pack_result_code_def cmd_is_valid_def pack_blocks_1 result_params_def)
  have "answer ack from (result_params c) fd s =
      Inr (s\<lparr>sent := sent s @ [(fd, head_bytes (encap_msg_header ack ?p) @ be32 c)]\<rparr>)"
    using c a by (simp add: answer_def send_rcp_res_def param_to_pkt_def cmd_is_valid_def Let_def
        result_params_def zero_params_def put_mem_def MAX_BUF_def MESSAGE_HEADER_LENGTH_def)
  moreover have "get_cmd_type (encap_msg_header ack ?p) = Some ack" by (rule get_cmd_type_encap [OF a(1)])
  moreover have "msg_id (encap_msg_header ack ?p) = msg_id (read_head from)"
    by (simp add: encap_msg_header_def Let_def)
  ultimately show ?thesis by blast
qed

text \<open>The parameters a client gives for one rule, and the bytes it sends.\<close>

definition rule_params :: "u32 \<Rightarrow> rule_tuple \<Rightarrow> rcp_params" where
  "rule_params m t = (put_mem 0 (tuple_bytes t) zero_params)\<lparr>p_msg_id := m, p_nparam := 1\<rparr>"

lemma pack_rule_request:
  fixes m :: u32
  assumes "wf_tuple t" "cmd \<in> {ADD_ACL_RULE, DEL_ACL_RULE}"
  defines "h \<equiv> encap_msg_header cmd (rule_params m t)"
  shows "call_pack cmd (rule_params m t) = Inr (0, head_bytes h @ tuple_bytes t)"
    "hlength h = 13" "get_cmd_type h = Some cmd" "msg_id h = m"
proof -
  have c: "cmd \<in> {10, 12}" using assms(2) by (simp add: cmd_defs)
  then have a: "cmd < MAX_COMMAND_TYPE" "cmd < 21" by (auto simp: MAX_COMMAND_TYPE_def)
  have k: "init_msg_pack_handle ! cmd = Some Pack_acl_rule" "info_block (init_msg_header ! cmd) = 2"
    using c init_tables_code(2,4) by auto
  have len: "length (tuple_bytes t) = sizeof_tuple" using assms(1) by (rule length_tuple_bytes)
  have "take sizeof_tuple (p_mem (put_mem 0 (tuple_bytes t) zero_params)) = tuple_bytes t"
    using put_mem_0 [of "tuple_bytes t" zero_params] len by simp
  then show "call_pack cmd (rule_params m t) = Inr (0, head_bytes h @ tuple_bytes t)"
    using a k pack_handles_code(2)
    by (simp add: call_pack_def pack_acl_rule_def cmd_is_valid_def pack_blocks_1 rule_params_def h_def)
  show "hlength h = 13"
    using k by (simp add: h_def encap_msg_header_def rule_params_def Let_def get_data_block_length_def
        sizeof_tuple_def MESSAGE_HEADER_LENGTH_def)
  show "get_cmd_type h = Some cmd" unfolding h_def by (rule get_cmd_type_encap [OF a(1)])
  show "msg_id h = m" by (simp add: h_def encap_msg_header_def rule_params_def Let_def)
qed

lemma serve_rule_request:
  assumes "wf_tuple t" "cmd \<in> {ADD_ACL_RULE, DEL_ACL_RULE}"
    "call_pack cmd (rule_params m t) = Inr (0, req)"
  shows "\<exists>h. req = head_bytes h @ tuple_bytes t \<and> msg_id h = m \<and>
    serve_client env old (req @ rest) fd s =
      rbind (run_proc env (if cmd = ADD_ACL_RULE then Proc_add_acl_rule else Proc_del_acl_rule) (overwrite old req) fd s)
        (\<lambda>s'. Inr (False, overwrite old req, rest, s'))"
proof -
  define h where "h = encap_msg_header cmd (rule_params m t)"
  note p = pack_rule_request [OF assms(1,2), of m, folded h_def]
  have req: "req = head_bytes h @ tuple_bytes t" using p(1) assms(3) by simp
  have r: "recv_tcp_client_packet old (req @ rest) = Inr (0, overwrite old req, 52, rest)"
    using recv_exact [of h "tuple_bytes t" old rest] length_tuple_bytes [OF assms(1)] p(2)
    by (simp add: req sizeof_tuple_def MESSAGE_HEADER_LENGTH_def)
  have c: "cmd = 10 \<or> cmd = 12" using assms(2) by (auto simp: cmd_defs)
  then have k: "init_cmd_process_handle ! cmd = Some (if cmd = ADD_ACL_RULE then Proc_add_acl_rule else Proc_del_acl_rule)"
    using init_tables_code(5) by (auto simp: ADD_ACL_RULE_def)
  have m: "mgmt_process_cmd env (overwrite old req) fd s =
      rbind (run_proc env (if cmd = ADD_ACL_RULE then Proc_add_acl_rule else Proc_del_acl_rule) (overwrite old req) fd s)
        (\<lambda>s'. Inr (0, s'))"
    unfolding mgmt_process_cmd_def using c k p(3) by (auto simp: req cmd_is_valid_def MAX_COMMAND_TYPE_def)
  have "serve_client env old (req @ rest) fd s =
      rbind (run_proc env (if cmd = ADD_ACL_RULE then Proc_add_acl_rule else Proc_del_acl_rule) (overwrite old req) fd s)
        (\<lambda>s'. Inr (False, overwrite old req, rest, s'))"
    by (simp add: serve_client_def r m rbind_assoc)
  with req p(4) show ?thesis by blast
qed

lemma Rule_add_code:
  "snd (Rule_add rl t) \<in> {RULE_OK, RULE_FULL, RULE_EXIST}"
  by (simp add: Rule_add_def Let_def)

lemma Rule_del_code: "snd (Rule_del rl t) \<in> {RULE_OK, RULE_NOT_EXIST}"
  by (simp add: Rule_del_def split: option.splits)

section \<open>The socket table\<close>

definition valid_fds :: "socks \<Rightarrow> nat set" where
  "valid_fds s = {fd. fd < length (sock_map s) \<and> status (sock_map s ! fd) \<noteq> INVALID}"

definition socks_inv :: "socks \<Rightarrow> bool" where
  "socks_inv s \<longleftrightarrow> length (sock_map s) = SOCK_MAX \<and> rfds s = valid_fds s \<and>
     (\<forall>fd \<in> valid_fds s. fd \<le> maxfd s) \<and> (maxfd s = 0 \<or> maxfd s \<in> valid_fds s)"

definition socks0 :: socks where
  "socks0 = sock_map_init \<lparr>sock_map = replicate SOCK_MAX zero_sock, rfds = {}, maxfd = 0, client_num = 0\<rparr>"

inductive socks_reach :: "socks \<Rightarrow> bool" where
  init: "socks_reach socks0"
| add: "socks_reach s \<Longrightarrow> add_fd ty fd s = Inr s' \<Longrightarrow> socks_reach s'"
| del: "socks_reach s \<Longrightarrow> del_fd fd s = Inr s' \<Longrightarrow> socks_reach s'"

lemma max_valid_le: "m \<le> max_valid i es m"
  by (induction es arbitrary: i m) (auto, meson less_imp_le order_trans)

lemma max_valid_upper: "k < length es \<Longrightarrow> status (es ! k) \<noteq> INVALID \<Longrightarrow> i + k \<le> max_valid i es m"
proof (induction es arbitrary: i m k)
  case (Cons e es)
  show ?case
  proof (cases k)
    case 0
    with Cons.prems have "i \<le> (if status e \<noteq> INVALID \<and> m < i then i else m)" by auto
    also have "\<dots> \<le> max_valid (Suc i) es (if status e \<noteq> INVALID \<and> m < i then i else m)" by (rule max_valid_le)
    finally show ?thesis using 0 by simp
  next
    case (Suc j)
    with Cons.IH [of j "Suc i"] Cons.prems show ?thesis by auto
  qed
qed simp

lemma max_valid_attained:
  "max_valid i es m = m \<or> (\<exists>k < length es. status (es ! k) \<noteq> INVALID \<and> max_valid i es m = i + k)"
proof (induction es arbitrary: i m)
  case (Cons e es)
  from Cons [of "Suc i" "if status e \<noteq> INVALID \<and> m < i then i else m"] show ?case
  proof
    assume "max_valid (Suc i) es (if status e \<noteq> INVALID \<and> m < i then i else m) = (if status e \<noteq> INVALID \<and> m < i then i else m)"
    then show ?thesis by (auto intro: exI [of _ 0])
  next
    assume "\<exists>k < length es. status (es ! k) \<noteq> INVALID \<and>
      max_valid (Suc i) es (if status e \<noteq> INVALID \<and> m < i then i else m) = Suc i + k"
    then obtain k where "k < length es" "status (es ! k) \<noteq> INVALID"
      "max_valid (Suc i) es (if status e \<noteq> INVALID \<and> m < i then i else m) = Suc i + k" by blast
    then show ?thesis by (intro disjI2 exI [of _ "Suc k"]) simp
  qed
qed simp

lemma socks_inv_init: "socks_inv socks0"
  by (auto simp: socks_inv_def socks0_def sock_map_init_def valid_fds_def)

lemma socks_inv_add:
  assumes "socks_inv s" "add_fd ty fd s = Inr s'"
  shows "socks_inv s' \<and> valid_fds s' = insert fd (valid_fds s)"
proof -
  from assms(2) have fd: "fd < length (sock_map s)" by (auto simp: add_fd_def split: if_splits)
  with assms(2) obtain e where s': "sock_map s' = (sock_map s)[fd := e]" "status e \<noteq> INVALID"
    "rfds s' = insert fd (rfds s)" "maxfd s' = max (maxfd s) fd"
    by (auto simp: add_fd_def Let_def max_def split: if_splits)
  then have "valid_fds s' = insert fd (valid_fds s)"
    using fd by (auto simp: valid_fds_def nth_list_update split: if_splits)
  with s' assms(1) show ?thesis by (auto simp: socks_inv_def max_def)
qed

lemma socks_inv_del:
  assumes "socks_inv s" "del_fd fd s = Inr s'"
  shows "socks_inv s' \<and> valid_fds s' = valid_fds s - {fd}"
proof -
  from assms(2) have fd: "fd < length (sock_map s)" by (auto simp: del_fd_def split: if_splits)
  let ?m = "(sock_map s)[fd := zero_sock\<lparr>status := INVALID\<rparr>]"
  from assms(2) fd have s': "sock_map s' = ?m" "rfds s' = rfds s - {fd}"
    "maxfd s' = (if fd = maxfd s then max_valid 0 ?m 0 else maxfd s)"
    by (auto simp: del_fd_def Let_def split: if_splits)
  then have v: "valid_fds s' = valid_fds s - {fd}"
    using fd by (auto simp: valid_fds_def nth_list_update split: if_splits)
  have "x \<le> maxfd s'" if x: "x \<in> valid_fds s'" for x
  proof (cases "fd = maxfd s")
    case True
    from x s'(1) have "x < length ?m" "status (?m ! x) \<noteq> INVALID" by (simp_all add: valid_fds_def)
    then have "0 + x \<le> max_valid 0 ?m 0" by (rule max_valid_upper)
    with True s'(3) show ?thesis by simp
  next
    case False
    have "\<forall>fd \<in> valid_fds s. fd \<le> maxfd s" using assms(1) by (simp add: socks_inv_def)
    moreover have "x \<in> valid_fds s" "maxfd s' = maxfd s" using x v s'(3) False by simp_all
    ultimately show ?thesis by simp
  qed
  moreover have "maxfd s' = 0 \<or> maxfd s' \<in> valid_fds s'"
  proof (cases "fd = maxfd s")
    case True
    with max_valid_attained [of 0 ?m 0] s' show ?thesis by (auto simp: valid_fds_def)
  next
    case False
    with s'(3) assms(1) v show ?thesis by (auto simp: socks_inv_def)
  qed
  ultimately show ?thesis using v s'(1,2) assms(1) by (simp add: socks_inv_def)
qed

lemma socks_reach_inv: "socks_reach s \<Longrightarrow> socks_inv s"
  by (induction rule: socks_reach.induct) (rule socks_inv_init, blast dest: socks_inv_add, blast dest: socks_inv_del)

end
