(* ===== verification/CliRule.thy ===== *)
theory CliRule
  imports MgmtServer
begin

text \<open>
  The rule commands of the CLI (\<open>mgrplane/src/client/cli_rule.c\<close>, \<open>mgrplane/src/common/cli_trans.c\<close>):
  validation of the arguments, the request that is sent, and the reading of the answer.
\<close>

section \<open>Commands\<close>

text \<open>The parsed arguments of \<open>add rule\<close> and \<open>delete rule\<close>.\<close>

record rule_args =
  a_smac :: "u8 list"
  a_dmac :: "u8 list"
  a_sip :: u32
  a_sip_mask :: u32
  a_dip :: u32
  a_dip_mask :: u32
  a_sport_start :: u32
  a_sport_end :: u32
  a_dport_start :: u32
  a_dport_end :: u32
  a_proto_start :: u32
  a_proto_end :: u32
  a_action :: string

text \<open>The checks and assignments in source order; \<open>None\<close> is \<open>CPARSER_NOT_OK\<close>.\<close>

definition mask_invalid :: "u32 \<Rightarrow> u32 \<Rightarrow> bool" where
  "mask_invalid ip m \<longleftrightarrow> (0 = ip \<and> 0 \<noteq> m) \<or> (0 \<noteq> ip \<and> m > 32)"

definition range_invalid :: "u32 \<Rightarrow> u32 \<Rightarrow> u32 \<Rightarrow> bool" where
  "range_invalid s e lim \<longleftrightarrow> s > e \<or> e > lim"

definition rule_of_args :: "rule_args \<Rightarrow> rule_tuple option" where
  "rule_of_args a =
     (if mask_invalid (a_sip a) (a_sip_mask a) then None
      else if mask_invalid (a_dip a) (a_dip_mask a) then None
      else if range_invalid (a_sport_start a) (a_sport_end a) 0xffff then None
      else if range_invalid (a_dport_start a) (a_dport_end a) 0xffff then None
      else if range_invalid (a_proto_start a) (a_proto_end a) 0xff then None
      else Some \<lparr>smac = take 6 (a_smac a), dmac = take 6 (a_dmac a),
                 sip = a_sip a, sip_mask = a_sip_mask a, dip = a_dip a, dip_mask = a_dip_mask a,
                 sport_start = ucast (a_sport_start a), sport_end = ucast (a_sport_end a),
                 dport_start = ucast (a_dport_start a), dport_end = ucast (a_dport_end a),
                 protocol_start = ucast (a_proto_start a), protocol_end = ucast (a_proto_end a),
                 tuple_action = (if a_action a = ''fw'' then 0 else if a_action a = ''drop'' then 1 else 0)\<rparr>)"

text \<open>
  The requests, with the next value of \<open>g_msg_id\<close>, which is incremented before the checks.
\<close>

definition cmd_add_rule :: "u32 \<Rightarrow> rule_args \<Rightarrow> u32 \<times> (int \<times> u8 list) res option" where
  "cmd_add_rule g_msg_id a =
     (g_msg_id + 1, map_option (\<lambda>t. call_pack ADD_ACL_RULE (rule_params g_msg_id t)) (rule_of_args a))"

definition cmd_delete_rule :: "u32 \<Rightarrow> rule_args \<Rightarrow> u32 \<times> (int \<times> u8 list) res option" where
  "cmd_delete_rule g_msg_id a =
     (g_msg_id + 1, map_option (\<lambda>t. call_pack DEL_ACL_RULE (rule_params g_msg_id t)) (rule_of_args a))"

definition cmd_delete_rule_id :: "u32 \<Rightarrow> u32 \<Rightarrow> u32 \<times> (int \<times> u8 list) res option" where
  "cmd_delete_rule_id g_msg_id i =
     (if i > 100000 then (g_msg_id, None)
      else (g_msg_id + 1, Some (call_pack DEL_ACL_RULE_ID
             ((put_mem 0 (be32 i) zero_params)\<lparr>p_msg_id := g_msg_id, p_nparam := 1\<rparr>))))"

definition cmd_delete_rule_all :: "u32 \<Rightarrow> u32 \<times> (int \<times> u8 list) res" where
  "cmd_delete_rule_all g_msg_id = (g_msg_id + 1, call_pack DEL_ACL_RULE_ALL (zero_params\<lparr>p_msg_id := g_msg_id\<rparr>))"

definition cmd_commit_rule :: "u32 \<Rightarrow> u32 \<times> (int \<times> u8 list) res" where
  "cmd_commit_rule g_msg_id = (g_msg_id + 1, call_pack COMMIT_ACL_RULE (zero_params\<lparr>p_msg_id := g_msg_id\<rparr>))"

definition cmd_show_rule :: "u32 \<Rightarrow> u32 \<times> (int \<times> u8 list) res" where
  "cmd_show_rule g_msg_id = (g_msg_id + 1, call_pack SHOW_ACL_RULE (zero_params\<lparr>p_msg_id := g_msg_id\<rparr>))"

text \<open>
  The answer in \<open>recv_buf\<close>, which was zeroed and has 2048 bytes: the result code behind the header.
\<close>

definition BUFSIZE :: nat where
  "BUFSIZE = 2048"

definition process_message :: "u8 list \<Rightarrow> u8 list" where
  "process_message reply = overwrite (replicate BUFSIZE 0) (take (BUFSIZE - 1) reply)"

definition result_of_reply :: "u8 list \<Rightarrow> u32" where
  "result_of_reply reply = get32 (process_message reply) MESSAGE_HEADER_LENGTH"

text \<open>\<open>_sec_error\<close>; \<open>digits3\<close> is the \<open>%3d\<close> of the two-digit codes that reach it.\<close>

definition digits3 :: "nat \<Rightarrow> string" where
  "digits3 n = (if n < 10 then ''  '' @ [char_of (48 + n)] else '' '' @ [char_of (48 + n div 10), char_of (48 + n mod 10)])"

definition sec_error :: "int \<Rightarrow> string" where
  "sec_error errcode =
     (if errcode = 0 then ''Ok.\<newline>'' else if errcode = 1 then ''Rule Full.\<newline>''
      else if errcode = 2 then ''Rule already exist.\<newline>'' else if errcode = 3 then ''Rule not exist.\<newline>''
      else if errcode = 5 then ''Memory out.\<newline>'' else if errcode = 6 then ''File error.\<newline>''
      else if errcode < 0 \<or> 15 \<le> errcode then ''Failed.''
      else ''Error #'' @ digits3 (nat errcode))"

text \<open>What \<open>%s\<close> prints of a zeroed buffer with these bytes in front.\<close>

definition c_string :: "u8 list \<Rightarrow> u8 list" where
  "c_string bs = takeWhile (\<lambda>b. b \<noteq> 0) bs"

text \<open>
  The loop of \<open>process_cli_show_cmd\<close>: receive messages until one has no \<open>more_flag\<close>, and print their text. The
  stream is what the server has sent; a short read exits the program. \<open>data_len\<close> is unsigned.
\<close>

function show_loop :: "u8 list \<Rightarrow> u8 list res" where
  "show_loop stream =
     (if length stream < MESSAGE_HEADER_LENGTH then Inl Exit
      else let h = read_head stream; rest = drop MESSAGE_HEADER_LENGTH stream;
               data_len = (if 4 * unat (hlength h) < MESSAGE_HEADER_LENGTH
                           then 2 ^ 32 + 4 * unat (hlength h) - MESSAGE_HEADER_LENGTH
                           else 4 * unat (hlength h) - MESSAGE_HEADER_LENGTH) in
        if min data_len (length rest) > BUFSIZE - MESSAGE_HEADER_LENGTH then Inl OutOfBounds
        else if length rest < data_len then Inl Exit
        else if more_flag h \<noteq> 0
          then rbind (show_loop (drop data_len rest)) (\<lambda>text. Inr (c_string (take data_len rest) @ text))
        else Inr (c_string (take data_len rest)))"
  by pat_completeness auto
termination
  by (relation "measure length") (auto simp: MESSAGE_HEADER_LENGTH_def Let_def)

section \<open>What validation ensures\<close>

lemma ucast_le_16: "x \<le> y \<Longrightarrow> y \<le> (0xffff :: u32) \<Longrightarrow> (ucast x :: u16) \<le> ucast y"
  by (simp add: word_le_nat_alt unsigned_ucast_eq take_bit_nat_eq_self)

lemma ucast_le_8: "x \<le> y \<Longrightarrow> y \<le> (0xff :: u32) \<Longrightarrow> (ucast x :: u8) \<le> ucast y"
  by (simp add: word_le_nat_alt unsigned_ucast_eq take_bit_nat_eq_self)

lemma rule_of_args_SomeD:
  assumes "rule_of_args a = Some t" "length (a_smac a) = 6" "length (a_dmac a) = 6"
  shows "wf_tuple t" "sip_mask t \<le> 32" "dip_mask t \<le> 32" "sport_start t \<le> sport_end t"
    "dport_start t \<le> dport_end t" "protocol_start t \<le> protocol_end t"
  using assms
  by (auto simp: rule_of_args_def mask_invalid_def range_invalid_def wf_tuple_def not_less
      intro: ucast_le_16 ucast_le_8 split: if_splits)

declare show_loop.simps [simp del]

end
