(* ===== verification/LoadRule.thy ===== *)
theory LoadRule
  imports HyperSplit RuleTable
begin

text \<open>
  From the rule table to the classifier (\<open>dataplane/src/acl/acl.c\<close>): \<open>ReadIPRange\<close>, \<open>range_alloc\<close> and
  \<open>load_rule\<close>. The range pointers of the filters are explicit here, because \<open>load_rule\<close> copies one set
  of pointers into every filter and leaves those of its default rule \<open>NULL\<close>.
\<close>

section \<open>Prefixes\<close>

definition combine :: "u32 list \<Rightarrow> u32" where
  "combine p = (let r0 = p ! 0; r1 = push_bit 8 r0 + p ! 1; r2 = push_bit 8 r1 + p ! 2 in push_bit 8 r2 + p ! 3)"

definition set_tail :: "nat \<Rightarrow> u32 \<Rightarrow> u32 list \<Rightarrow> u32 list" where
  "set_tail q v p = take (4 - q) p @ replicate q v"

text \<open>
  \<open>ReadIPRange\<close>: first and last address of a prefix. \<open>mask = 32 - mask\<close> is unsigned; the loops and the
  update of byte \<open>3 - masklit1\<close> leave the array of four bytes when it is more than 32.
\<close>

definition ReadIPRange :: "u32 \<Rightarrow> u32 \<Rightarrow> (u32 \<times> u32) res" where
  "ReadIPRange ipnet ipmask =
     (let trange = [drop_bit 24 ipnet, drop_bit 16 ipnet AND 0xFF, drop_bit 8 ipnet AND 0xFF, ipnet AND 0xFF];
          m = unat (32 - ipmask); masklit1 = m div 8; masklit2 = m mod 8;
          masklit3 = push_bit masklit2 1 - 1 in
      if masklit1 > 4 \<or> (masklit1 = 4 \<and> masklit2 \<noteq> 0) then Inl OutOfBounds
      else let p = set_tail masklit1 0 trange;
               p1 = (if masklit2 \<noteq> 0 then p[3 - masklit1 := p ! (3 - masklit1) AND NOT masklit3] else p);
               q = set_tail masklit1 255 p1;
               q1 = (if masklit2 \<noteq> 0 then q[3 - masklit1 := q ! (3 - masklit1) OR masklit3] else q)
           in Inr (combine p1, combine q1))"

section \<open>Filters\<close>

text \<open>A range pointer: \<open>NULL\<close>, or the cell of a dimension and a side that \<open>range_alloc\<close> made.\<close>

datatype range_ptr = Null | Cell nat

type_synonym cells = "(u32 list \<times> u32 list) list"

definition alloc_words :: "nat list" where
  "alloc_words = [4, 4, 2, 2, 1, 1, 1, 2, 1, 1, 1]"

text \<open>
  \<open>range_alloc\<close> when every \<open>malloc\<close> succeeds; \<open>junk\<close> is what the memory holds. One pointer stands for the
  two sides of a dimension, which are allocated and copied together.
\<close>

definition fit :: "nat \<Rightarrow> u32 list \<Rightarrow> u32 list" where
  "fit n ws = take n (ws @ replicate n 0)"

definition range_alloc :: "cells \<Rightarrow> cells \<times> range_ptr list" where
  "range_alloc junk =
     (map (\<lambda>d. (fit (alloc_words ! d) (fst (junk ! d)), fit (alloc_words ! d) (snd (junk ! d)))) [0..<DIM],
      map Cell [0..<DIM])"

text \<open>\<open>range_free\<close> releases the cells and clears the pointers.\<close>

definition range_free :: "range_ptr list \<Rightarrow> cells \<Rightarrow> cells \<times> range_ptr list" where
  "range_free dims c =
     (map (\<lambda>(i, x). if Cell i \<in> set dims then ([], []) else x) (enumerate 0 c), map (\<lambda>p. Null) dims)"

definition set0 :: "nat \<Rightarrow> u32 \<Rightarrow> cells \<Rightarrow> cells" where
  "set0 d v c = c[d := ((fst (c ! d))[0 := v], snd (c ! d))]"

definition set1 :: "nat \<Rightarrow> u32 \<Rightarrow> cells \<Rightarrow> cells" where
  "set1 d v c = c[d := (fst (c ! d), (snd (c ! d))[0 := v])]"

record filter_t =
  f_dim :: "range_ptr list"
  f_action :: u32
  f_id :: u32
  f_rule_id :: u32

text \<open>
  One used entry: the values are written through the shared pointers. The bytes of a MAC address go to
  the start (two bytes) and the end (four bytes) of its dimension; dimensions 2, 3, 6 and 7 are not
  written.
\<close>

definition mac_hi :: "u8 list \<Rightarrow> u32" where
  "mac_hi m = ucast (m ! 0) * 256 + ucast (m ! 1)"

definition mac_lo :: "u8 list \<Rightarrow> u32" where
  "mac_lo m = ucast (m ! 2) * 16777216 + ucast (m ! 3) * 65536 + ucast (m ! 4) * 256 + ucast (m ! 5)"

definition write_entry :: "rule_tuple \<Rightarrow> cells \<Rightarrow> cells res" where
  "write_entry t c =
     (let c0 = set1 0 (mac_lo (smac t)) (set0 0 (mac_hi (smac t)) c);
          c1 = set1 1 (mac_lo (dmac t)) (set0 1 (mac_hi (dmac t)) c0);
          c4 = set1 4 (ucast (sport_end t)) (set0 4 (ucast (sport_start t)) c1);
          c5 = set1 5 (ucast (dport_end t)) (set0 5 (ucast (dport_start t)) c4);
          c8 = set1 8 (ucast (protocol_end t)) (set0 8 (ucast (protocol_start t)) c5) in
      rbind (ReadIPRange (sip t) (sip_mask t)) (\<lambda>(s, e).
      rbind (ReadIPRange (dip t) (dip_mask t)) (\<lambda>(s', e').
      Inr (set1 10 e' (set0 10 s' (set1 9 e (set0 9 s c8)))))))"

fun load_filters :: "nat \<Rightarrow> rule_entry list \<Rightarrow> range_ptr list \<Rightarrow> cells \<Rightarrow> (filter_t list \<times> cells) res" where
  "load_filters i [] dims c = Inr ([], c)"
| "load_filters i (e # es) dims c =
     (if entry_status e = RULE_ENTRY_STATUS_FREE then load_filters (Suc i) es dims c
      else rbind (write_entry (entry_tuple e) c) (\<lambda>c'.
           rbind (load_filters (Suc i) es dims c') (\<lambda>(fs, c'').
           Inr (\<lparr>f_dim = dims, f_action = ucast (tuple_action (entry_tuple e)), f_id = of_nat i, f_rule_id = of_nat i\<rparr> # fs, c''))))"

text \<open>A rule of the set, with its pointers, and its ranges as \<open>BuildHSTree\<close> reads them.\<close>

record rule_p =
  rp_pri :: u32
  rp_action :: u32
  rp_range :: "range_ptr list"
  rp_id :: u32
  rp_rule_id :: u32

definition deref :: "cells \<Rightarrow> range_ptr \<Rightarrow> (u32 list \<times> u32 list) res" where
  "deref c p = (case p of Null \<Rightarrow> Inl NullDeref | Cell d \<Rightarrow> if d < length c then Inr (c ! d) else Inl OutOfBounds)"

definition view_rule :: "cells \<Rightarrow> rule_p \<Rightarrow> rule_t res" where
  "view_rule c r =
     rbind (rmap (deref c) (rp_range r)) (\<lambda>rg.
       Inr \<lparr>pri = rp_pri r, action = rp_action r, range = rg, rid = rp_id r, rule_id = rp_rule_id r\<rparr>)"

definition ruleset_of :: "filter_t list \<Rightarrow> rule_p list" where
  "ruleset_of fs =
     (let rs = map (\<lambda>(i, f). \<lparr>rp_pri = of_nat i, rp_action = f_action f, rp_range = f_dim f, rp_id = f_id f, rp_rule_id = f_rule_id f\<rparr>)
                 (enumerate 0 fs) in
      if length fs + 1 < RULE_ENTRY_MAX
      then rs @ [\<lparr>rp_pri = of_nat (length fs), rp_action = 0, rp_range = replicate DIM Null, rp_id = 0, rp_rule_id = 0\<rparr>]
      else rs)"

text \<open>
  \<open>load_rule\<close> with the build. The result is the rule set, the tree, the globals and the cells, which
  \<open>range_free\<close> has released although the rule set still points at them. \<open>args_ok\<close> is that neither
  \<open>ruleset\<close> nor \<open>node\<close> is \<open>NULL\<close>; otherwise the function returns false, here \<open>None\<close>.
\<close>

definition load_rule ::
  "nat \<Rightarrow> bool \<Rightarrow> cells \<Rightarrow> rule_list \<Rightarrow> hs_globals \<Rightarrow> (rule_p list \<times> hs_node \<times> hs_globals \<times> cells) option res option" where
  "load_rule fuel args_ok junk rl g =
     (let (c, dims) = range_alloc junk in
      if \<not> args_ok then Some (Inr None)
      else fbind (Some (load_filters 0 (entries rl) dims c)) (\<lambda>(fs, c').
        let rps = ruleset_of fs in
        fbind (Some (rmap (view_rule c') rps)) (\<lambda>rs.
        fbind (BuildHSTree fuel rs 0 g) (\<lambda>(node, g').
        Some (Inr (Some (rps, node, g', fst (range_free dims c'))))))))"

section \<open>Prefixes as bit masks\<close>

lemma bit_byte:
  assumes "b < 256" "bit (b :: u32) n"
  shows "n < 8"
proof -
  have "unat b < 2 ^ 8" using assms(1) by (simp add: word_less_nat_alt)
  then have "take_bit 8 (unat b) = unat b" by (simp add: take_bit_nat_eq_self_iff)
  moreover have "bit (unat b) n" using assms(2) by (simp add: bit_unsigned_iff)
  ultimately show ?thesis by (metis bit_take_bit_iff)
qed

lemma byte_add: "b < 256 \<Longrightarrow> push_bit 8 (x :: u32) + b = push_bit 8 x OR b"
  by (rule disjunctive_add) (auto simp: bit_simps dest: bit_byte)

lemma byteI:
  assumes "\<And>n. bit (b :: u32) n \<Longrightarrow> n < 8"
  shows "b < 256"
proof -
  have "take_bit 8 b = b" by (rule bit_eqI) (use assms in \<open>auto simp: bit_take_bit_iff\<close>)
  then have "take_bit 8 (unat b) = unat b" by (metis unsigned_take_bit_eq)
  then have "unat b < 2 ^ 8" by (simp add: take_bit_nat_eq_self_iff)
  then show ?thesis by (simp add: word_less_nat_alt)
qed

lemma bit_255: "bit (0xFF :: u32) n \<longleftrightarrow> n < 8"
proof -
  have m: "(0xFF :: u32) = mask 8" by (simp add: mask_eq_exp_minus_1)
  show ?thesis unfolding m bit_mask_iff by (auto simp: possible_bit_def)
qed

lemma byte_closed:
  "x AND 0xFF < (256 :: u32)" "drop_bit 24 (x :: u32) < 256" "(0 :: u32) < 256" "(255 :: u32) < 256"
  "b < (256 :: u32) \<Longrightarrow> b AND y < 256" "b < (256 :: u32) \<Longrightarrow> c < 256 \<Longrightarrow> b OR c < 256"
proof -
  show "drop_bit 24 x < 256" by (rule byteI) (auto simp: bit_simps dest: bit_imp_le_length)
  show "x AND 0xFF < (256 :: u32)" by (rule byteI) (simp only: bit_and_iff bit_255)
qed (auto intro!: byteI simp: bit_simps dest: bit_byte)

lemma bit_combine:
  assumes "length p = 4" "\<And>b. b \<in> set p \<Longrightarrow> b < 256" "n < 32"
  shows "bit (combine p) n \<longleftrightarrow> bit (p ! (3 - n div 8)) (n mod 8)"
proof -
  obtain a b c d where p: "p = [a, b, c, d]" using assms(1) by (auto simp: length_Suc_conv eval_nat_numeral)
  with assms(2) have lt: "a < 256" "b < 256" "c < 256" "d < 256" by auto
  have comb: "combine [a, b, c, d] = push_bit 8 (push_bit 8 (push_bit 8 a OR b) OR c) OR d"
    using lt by (simp add: combine_def byte_add)
  have hi: "\<not> bit b k" "\<not> bit c k" "\<not> bit d k" if "8 \<le> k" for k
    using that lt bit_byte by (meson not_le)+
  consider "n < 8" | "8 \<le> n" "n < 16" | "16 \<le> n" "n < 24" | "24 \<le> n" by linarith
  then show ?thesis
  proof cases
    case 1
    then have "n div 8 = 0" "n mod 8 = n" by auto
    with 1 show ?thesis by (simp add: comb p bit_simps)
  next
    case 2
    then have d: "n div 8 = 1" using assms(3) by linarith
    then have "n mod 8 = n - 8" using minus_mult_div_eq_mod [of n 8] by simp
    with d 2 hi show ?thesis by (simp add: comb p bit_simps)
  next
    case 3
    then have d: "n div 8 = 2" using assms(3) by linarith
    then have "n mod 8 = n - 8 - 8" using minus_mult_div_eq_mod [of n 8] by simp
    with d 3 hi show ?thesis by (simp add: comb p bit_simps)
  next
    case 4
    then have d: "n div 8 = 3" using assms(3) by linarith
    then have "n mod 8 = n - 8 - 8 - 8" using minus_mult_div_eq_mod [of n 8] by simp
    with d 4 hi assms(3) show ?thesis by (simp add: comb p bit_simps)
  qed
qed

lemma bit_masklit: "r < 8 \<Longrightarrow> bit (push_bit r 1 - 1 :: u32) n \<longleftrightarrow> n < r"
proof -
  assume r: "r < 8"
  have m: "(push_bit r 1 - 1 :: u32) = mask r" by (simp add: mask_eq_exp_minus_1 push_bit_eq_mult)
  show ?thesis unfolding m bit_mask_iff using r by (auto simp: possible_bit_def)
qed

text \<open>The bytes of the network address, and the two arrays the bounds are made from.\<close>

definition net_bytes :: "u32 \<Rightarrow> u32 list" where
  "net_bytes x = [drop_bit 24 x, drop_bit 16 x AND 0xFF, drop_bit 8 x AND 0xFF, x AND 0xFF]"

lemma and_FF: "(x :: u32) AND 0xFF = take_bit 8 x"
  by (simp add: take_bit_eq_mask mask_eq_exp_minus_1)

lemma net_bytes_eq:
  "net_bytes x = [drop_bit 24 x, take_bit 8 (drop_bit 16 x), take_bit 8 (drop_bit 8 x), take_bit 8 x]"
  by (simp add: net_bytes_def and_FF)

lemma bit_net_bytes:
  assumes "n < 32"
  shows "bit (net_bytes x ! (3 - n div 8)) (n mod 8) \<longleftrightarrow> bit x n"
proof -
  have m: "n mod 8 < 8" by simp
  consider "n < 8" | "8 \<le> n" "n < 16" | "16 \<le> n" "n < 24" | "24 \<le> n" by linarith
  then show ?thesis
  proof cases
    case 1
    then have "n div 8 = 0" "n mod 8 = n" by auto
    with 1 show ?thesis by (simp add: net_bytes_eq bit_take_bit_iff)
  next
    case 2
    then have "n div 8 = 1" using assms by linarith
    moreover from this have "8 + n mod 8 = n" using mult_div_mod_eq [of 8 n] by simp
    ultimately show ?thesis using m by (simp add: net_bytes_eq bit_take_bit_iff bit_drop_bit_eq)
  next
    case 3
    then have "n div 8 = 2" using assms by linarith
    moreover from this have "16 + n mod 8 = n" using mult_div_mod_eq [of 8 n] by simp
    ultimately show ?thesis using m by (simp add: net_bytes_eq bit_take_bit_iff bit_drop_bit_eq)
  next
    case 4
    then have "n div 8 = 3" using assms by linarith
    moreover from this have "24 + n mod 8 = n" using mult_div_mod_eq [of 8 n] by simp
    ultimately show ?thesis using m by (simp add: net_bytes_eq bit_drop_bit_eq)
  qed
qed

lemma set_tail_nth:
  "length p = 4 \<Longrightarrow> q \<le> 4 \<Longrightarrow> j < 4 \<Longrightarrow> set_tail q v p ! j = (if j < 4 - q then p ! j else v)"
  by (auto simp: set_tail_def nth_append)

lemma length_set_tail: "length p = 4 \<Longrightarrow> q \<le> 4 \<Longrightarrow> length (set_tail q v p) = 4"
  by (simp add: set_tail_def)

lemma bytes_nthI: "length p = 4 \<Longrightarrow> (\<And>j. j < 4 \<Longrightarrow> p ! j < 256) \<Longrightarrow> b \<in> set p \<Longrightarrow> b < (256 :: u32)"
  by (auto simp: in_set_conv_nth)

lemma net_bytes_lt: "j < 4 \<Longrightarrow> net_bytes x ! j < 256" "length (net_bytes x) = 4"
proof -
  assume "j < 4"
  then consider "j = 0" | "j = 1" | "j = 2" | "j = 3" by linarith
  then show "net_bytes x ! j < 256" by cases (simp_all add: net_bytes_def byte_closed(1,2))
qed (simp add: net_bytes_def)

lemma ReadIPRange_valid:
  assumes "ipmask \<le> 32"
  shows "ReadIPRange ipnet ipmask =
    Inr (ipnet AND NOT (mask (32 - unat ipmask)), ipnet OR mask (32 - unat ipmask))"
proof -
  define m where "m = 32 - unat ipmask"
  define q r where "q = m div 8" and "r = m mod 8"
  have ml: "unat (32 - ipmask) = m" using assms by (simp add: m_def unat_sub)
  have "m \<le> 32" by (simp add: m_def)
  then have qr: "q \<le> 4" "r < 8" "q = 4 \<Longrightarrow> r = 0" "m = 8 * q + r" unfolding q_def r_def by presburger+
  define lit where "lit = (push_bit r 1 - 1 :: u32)"
  have lit1: "bit lit k \<longleftrightarrow> k < r" for k unfolding lit_def by (rule bit_masklit [OF qr(2)])
  have lit2: "lit < 256" by (rule byteI) (use lit1 qr(2) in auto)
  define p where "p = set_tail q 0 (net_bytes ipnet)"
  define p1 where "p1 = (if r \<noteq> 0 then p[3 - q := p ! (3 - q) AND NOT lit] else p)"
  define s where "s = set_tail q 255 p1"
  define s1 where "s1 = (if r \<noteq> 0 then s[3 - q := s ! (3 - q) OR lit] else s)"
  have len: "length p = 4" "length p1 = 4" "length s = 4" "length s1 = 4"
    using qr(1) net_bytes_lt(2) by (simp_all add: p_def p1_def s_def s1_def length_set_tail)
  have pj: "p ! j = (if j < 4 - q then net_bytes ipnet ! j else 0)"
    and p1j: "p1 ! j = (if j < 4 - q then if r \<noteq> 0 \<and> j = 3 - q then net_bytes ipnet ! j AND NOT lit else net_bytes ipnet ! j else 0)"
    and s1j: "s1 ! j = (if j < 4 - q then if r \<noteq> 0 \<and> j = 3 - q then net_bytes ipnet ! j AND NOT lit OR lit else net_bytes ipnet ! j else 255)"
    if "j < 4" for j
    using that qr(1,3) net_bytes_lt(2) [of ipnet] len
    by (auto simp: p_def p1_def s_def s1_def set_tail_nth nth_list_update length_set_tail split: if_splits)
  have b1: "b < 256" if "b \<in> set p1" for b
    using bytes_nthI [OF len(2) _ that] p1j net_bytes_lt(1) by (auto simp: byte_closed)
  have b2: "b < 256" if "b \<in> set s1" for b
    using bytes_nthI [OF len(4) _ that] s1j net_bytes_lt(1) lit2 by (auto simp: byte_closed)
  have P: "bit (combine p1) n \<longleftrightarrow> bit ipnet n \<and> m \<le> n" and S: "bit (combine s1) n \<longleftrightarrow> bit ipnet n \<or> n < m"
    if n: "n < 32" for n
  proof -
    define j k where "j = 3 - n div 8" and "k = n mod 8"
    have jk: "j < 4" "k < 8" "j < 4 - q \<longleftrightarrow> q \<le> n div 8" "q < 4 \<Longrightarrow> j = 3 - q \<longleftrightarrow> n div 8 = q" "n = 8 * (n div 8) + k"
      using n qr(1) by (auto simp: j_def k_def)
    have net: "bit (net_bytes ipnet ! j) k \<longleftrightarrow> bit ipnet n" unfolding j_def k_def by (rule bit_net_bytes [OF n])
    have mn: "m \<le> n \<longleftrightarrow> q < n div 8 \<or> n div 8 = q \<and> r \<le> k" using jk(2,5) qr(2,4) by linarith
    have d: "n div 8 < 4" using n by linarith
    have FF: "bit (255 :: u32) k" using jk(2) by (simp only: bit_255)
    have "(bit (p1 ! j) k \<longleftrightarrow> bit ipnet n \<and> m \<le> n) \<and> (bit (s1 ! j) k \<longleftrightarrow> bit ipnet n \<or> n < m)"
    proof (cases "n div 8" q rule: linorder_cases)
      case less
      then have "\<not> m \<le> n" "p1 ! j = 0" "s1 ! j = 255" using mn jk(3) p1j [OF jk(1)] s1j [OF jk(1)] by simp_all
      with FF show ?thesis by simp
    next
      case equal
      then have "m \<le> n \<longleftrightarrow> r \<le> k" "j < 4 - q" "j = 3 - q" using mn jk(3,4) d by simp_all
      with p1j [OF jk(1)] s1j [OF jk(1)] net lit1 [of k] jk(2) show ?thesis
        by (cases "r = 0") (auto simp: bit_and_iff bit_not_iff bit_or_iff possible_bit_def)
    next
      case greater
      then have "m \<le> n" "j < 4 - q" "j \<noteq> 3 - q" using mn jk(3,4) d by auto
      with p1j [OF jk(1)] s1j [OF jk(1)] net show ?thesis by simp
    qed
    then show "bit (combine p1) n \<longleftrightarrow> bit ipnet n \<and> m \<le> n" "bit (combine s1) n \<longleftrightarrow> bit ipnet n \<or> n < m"
      by (simp_all add: bit_combine [OF len(2) b1 n] bit_combine [OF len(4) b2 n] j_def [symmetric] k_def [symmetric])
  qed
  have "combine p1 = ipnet AND NOT (mask m)" "combine s1 = ipnet OR mask m"
    by (rule bit_word_eqI; use P S in \<open>auto simp: bit_simps\<close>)+
  moreover have "ReadIPRange ipnet ipmask = Inr (combine p1, combine s1)"
    unfolding ReadIPRange_def Let_def ml q_def [symmetric] r_def [symmetric] net_bytes_def [symmetric]
        lit_def [symmetric] p_def [symmetric] p1_def [symmetric] s_def [symmetric] s1_def [symmetric]
    using qr(1,3) by auto
  ultimately show ?thesis by (simp add: m_def)
qed

lemma ReadIPRange_invalid: "32 < ipmask \<Longrightarrow> ReadIPRange ipnet ipmask = Inl OutOfBounds"
proof -
  assume "32 < ipmask"
  then have a: "32 < unat ipmask" by (simp add: word_less_nat_alt)
  have b: "unat ipmask < 2 ^ 32" using unsigned_less [where ?'a = nat, of ipmask] by simp
  have "unat (32 - ipmask) = 2 ^ 32 + 32 - unat ipmask"
    using a b by (simp add: unat_sub_if')
  with a b have "32 < unat (32 - ipmask)" by simp
  then have "4 < unat (32 - ipmask) div 8 \<or> unat (32 - ipmask) div 8 = 4 \<and> unat (32 - ipmask) mod 8 \<noteq> 0" by presburger
  then show ?thesis by (auto simp: ReadIPRange_def Let_def)
qed

section \<open>The loaded filters\<close>

lemma load_filters_dims:
  "load_filters i es dims c = Inr (fs, c') \<Longrightarrow> f \<in> set fs \<Longrightarrow> f_dim f = dims"
  by (induction es arbitrary: i c fs) (auto simp: rbind_Inr_iff split: if_splits)

lemma load_filters_length:
  "load_filters i es dims c = Inr (fs, c') \<Longrightarrow> length fs = length (used_tuples es)"
  by (induction es arbitrary: i c fs) (auto simp: rbind_Inr_iff used_def split: if_splits)

definition masks_ok :: "rule_tuple \<Rightarrow> bool" where
  "masks_ok t \<longleftrightarrow> sip_mask t \<le> 32 \<and> dip_mask t \<le> 32"

lemma length_set01 [simp]: "length (set0 d v c) = length c" "length (set1 d v c) = length c"
  by (simp_all add: set0_def set1_def)

lemma write_entry_ok:
  assumes "masks_ok t"
  shows "\<exists>c'. write_entry t c = Inr c' \<and> length c' = length c"
  using assms by (simp add: write_entry_def Let_def masks_ok_def ReadIPRange_valid)

lemma load_filters_ok:
  assumes "list_all masks_ok (used_tuples es)"
  shows "\<exists>fs c'. load_filters i es dims c = Inr (fs, c') \<and> length c' = length c"
  using assms
proof (induction es arbitrary: i c)
  case (Cons e es)
  show ?case
  proof (cases "used e")
    case False
    with Cons show ?thesis by (auto simp: used_def)
  next
    case True
    with Cons.prems obtain c1 where c1: "write_entry (entry_tuple e) c = Inr c1" "length c1 = length c"
      using write_entry_ok by auto
    from Cons.IH [of "Suc i" c1] Cons.prems True obtain fs c2 where
      "load_filters (Suc i) es dims c1 = Inr (fs, c2)" "length c2 = length c1" by auto
    with True c1 show ?thesis by (auto simp: used_def)
  qed
qed simp

lemma load_filters_cells: "load_filters i es dims c = Inr (fs, c') \<Longrightarrow> length c' = length c"
proof (induction es arbitrary: i c fs)
  case (Cons e es)
  have "length c1 = length c" if "write_entry (entry_tuple e) c = Inr c1" for c1
    using that by (auto simp: write_entry_def Let_def rbind_Inr_iff)
  with Cons show ?case by (auto simp: rbind_Inr_iff split: if_splits)
qed simp

text \<open>The source port cells after the load are those of the last used entry.\<close>

lemma set_other: "d \<noteq> d' \<Longrightarrow> set0 d' v c ! d = c ! d" "d \<noteq> d' \<Longrightarrow> set1 d' v c ! d = c ! d"
  by (simp_all add: set0_def set1_def)

lemma write_entry_port:
  assumes "write_entry t c = Inr c'" "4 < length c" "length (fst (c ! 4)) = 1" "length (snd (c ! 4)) = 1"
  shows "c' ! 4 = ([ucast (sport_start t)], [ucast (sport_end t)]) \<and> length c' = length c"
proof -
  obtain x y where xy: "c ! 4 = ([x], [y])"
    using assms(3,4) by (cases "c ! 4") (auto simp: length_Suc_conv)
  have "set1 4 w (set0 4 v d) ! 4 = ([v], [w])" if "4 < length d" "d ! 4 = ([x], [y])" for d v w
    using that by (simp add: set0_def set1_def)
  with assms(1,2) xy show ?thesis
    by (auto simp: write_entry_def Let_def rbind_Inr_iff set_other)
qed

lemma load_filters_port:
  assumes "load_filters i es dims c = Inr (fs, c')" "4 < length c" "length (fst (c ! 4)) = 1" "length (snd (c ! 4)) = 1"
    "used_tuples es \<noteq> []"
  shows "c' ! 4 = ([ucast (sport_start (last (used_tuples es)))], [ucast (sport_end (last (used_tuples es)))])"
proof -
  have gen: "length c' = length c \<and> (c' ! 4 = (case used_tuples es of [] \<Rightarrow> c ! 4
      | _ \<Rightarrow> ([ucast (sport_start (last (used_tuples es)))], [ucast (sport_end (last (used_tuples es)))])))"
    if "load_filters i es dims c = Inr (fs, c')" "4 < length c" "length (fst (c ! 4)) = 1" "length (snd (c ! 4)) = 1"
    for i es dims c fs c'
    using that
  proof (induction es arbitrary: i c fs)
    case (Cons e es)
    show ?case
    proof (cases "used e")
      case False
      then have "used_tuples (e # es) = used_tuples es" "load_filters i (e # es) dims c = load_filters (Suc i) es dims c"
        by (simp_all add: used_def)
      with Cons.IH [of "Suc i" c fs] Cons.prems show ?thesis by (simp only: simp_thms)
    next
      case True
      with Cons.prems obtain c1 fs1 where s: "write_entry (entry_tuple e) c = Inr c1"
        "load_filters (Suc i) es dims c1 = Inr (fs1, c')" by (auto simp: rbind_Inr_iff used_def)
      note w = write_entry_port [OF s(1) Cons.prems(2-4)]
      with Cons.IH [OF s(2)] Cons.prems True show ?thesis by (auto split: list.splits)
    qed
  qed simp
  from gen [OF assms(1-4)] assms(5) show ?thesis by (cases "used_tuples es") auto
qed

lemma view_default: "rp_range r = replicate DIM Null \<Longrightarrow> view_rule c r = Inl NullDeref"
  by (simp add: view_rule_def DIM_def deref_def numeral_eq_Suc)

lemma rmap_append_fault:
  assumes "\<And>x. x \<in> set xs \<Longrightarrow> \<exists>y. f x = Inr y" "f z = Inl e"
  shows "rmap f (xs @ [z]) = Inl e"
  using assms(1)
proof (induction xs)
  case (Cons x xs)
  then obtain y where "f x = Inr y" by auto
  with Cons show ?case by auto
qed (simp add: assms(2))

lemma view_cells:
  assumes "length c = DIM" "rp_range r = map Cell [0..<DIM]"
  shows "view_rule c r = Inr \<lparr>pri = rp_pri r, action = rp_action r, range = c, rid = rp_id r, rule_id = rp_rule_id r\<rparr>"
proof -
  have "rmap (deref c) (map Cell [0..<DIM]) = Inr (map ((!) c) [0..<DIM])"
    by (subst rmap_pure [where g = "\<lambda>p. case p of Null \<Rightarrow> ([], []) | Cell d \<Rightarrow> c ! d"])
      (auto simp: deref_def assms(1) o_def)
  moreover have "map ((!) c) [0..<DIM] = c" using assms(1) map_nth [of c] by simp
  ultimately show ?thesis using assms(2) by (simp add: view_rule_def)
qed

end
