(* ===== verification/MgmtTheorems.thy ===== *)
theory MgmtTheorems
  imports CliRule LoadRule
begin

text \<open>
  Properties of the management plane that span its components: a rule entered at the CLI reaches the
  table of the server and its answer reaches the CLI, what the CLI accepts is a valid prefix and port
  range for the loader, and the defects at the borders between the components.
\<close>

section \<open>Concrete values\<close>

definition env0 :: environment where
  "env0 = \<lparr>dp = (\<lambda>op. None), file_ok = True\<rparr>"

definition server0 :: server where
  "server0 = \<lparr>rules = Rule_list_init, sent = [], rule_file = []\<rparr>"

definition web_args :: rule_args where
  "web_args = \<lparr>a_smac = [0, 1, 2, 3, 4, 5], a_dmac = [0, 1, 2, 3, 4, 6], a_sip = 0x0A000001, a_sip_mask = 24,
     a_dip = 0, a_dip_mask = 0, a_sport_start = 0, a_sport_end = 65535, a_dport_start = 80, a_dport_end = 443,
     a_proto_start = 6, a_proto_end = 6, a_action = ''drop''\<rparr>"

section \<open>Supporting lemmas\<close>

lemma result_of_reply_code: "result_of_reply (head_bytes h @ be32 c) = c"
proof -
  have "take (BUFSIZE - 1) (head_bytes h @ be32 c) = head_bytes h @ be32 c"
    by (simp add: BUFSIZE_def MESSAGE_HEADER_LENGTH_def)
  then show ?thesis
    by (simp add: result_of_reply_def process_message_def overwrite_def)
qed

lemma result_of_reply_head: "length reply = MESSAGE_HEADER_LENGTH \<Longrightarrow> result_of_reply reply = 0"
  by (simp add: result_of_reply_def process_message_def overwrite_def BUFSIZE_def MESSAGE_HEADER_LENGTH_def
      get32_def nth_append un32_def)

lemma show_ack_header_only:
  "\<exists>h. answer SHOW_ACL_RULE_ACK from (result_params c) fd s = Inr (s\<lparr>sent := sent s @ [(fd, head_bytes h)]\<rparr>)"
proof -
  have v: "cmd_is_valid 9 = 0" by (simp add: cmd_is_valid_def MAX_COMMAND_TYPE_def)
  show ?thesis
    using pack_handles_code(2) init_tables_code(3) v
    by (simp add: SHOW_ACL_RULE_ACK_def answer_def send_rcp_res_def param_to_pkt_def Let_def call_pack_def
        pack_show_info_def result_params_def zero_params_def put_mem_def MAX_BUF_def MESSAGE_HEADER_LENGTH_def)
      blast
qed

text \<open>Two used entries with different source ports.\<close>

definition two_used :: "rule_entry list" where
  "two_used =
     [\<lparr>entry_status = RULE_ENTRY_STATUS_USED, entry_tuple = zero_tuple\<lparr>sport_start := 1, sport_end := 2\<rparr>\<rparr>,
      \<lparr>entry_status = RULE_ENTRY_STATUS_USED, entry_tuple = zero_tuple\<lparr>sport_start := 7, sport_end := 9\<rparr>\<rparr>]"

section \<open>Properties\<close>

text \<open>
  C8. End to end addition: the bytes the CLI packs for \<open>add rule\<close> with arguments it accepts are
  received and dispatched by the server so that its table becomes the result of \<open>Rule_add\<close> on exactly
  the rule that was entered; one answer goes back, with the message id of the request, and the CLI
  reads from it the code that \<open>Rule_add\<close> returned. What earlier requests left in the receive buffer and
  what follows in the stream play no part.
\<close>

theorem add_rule_end_to_end:
  assumes "rule_of_args a = Some t" "length (a_smac a) = 6" "length (a_dmac a) = 6"
  shows "\<exists>req buf s' ans. cmd_add_rule m a = (m + 1, Some (Inr (0, req))) \<and>
    serve_client env old (req @ rest) fd s = Inr (False, buf, rest, s') \<and>
    rules s' = fst (Rule_add (rules s) t) \<and> sent s' = sent s @ [(fd, ans)] \<and>
    msg_id (read_head ans) = m \<and> get_cmd_type (read_head ans) = Some ADD_ACL_RULE_ACK \<and>
    result_of_reply ans = of_int (snd (Rule_add (rules s) t))"
proof -
  note v = rule_of_args_SomeD [OF assms]
  define h where "h = encap_msg_header ADD_ACL_RULE (rule_params m t)"
  define req where "req = head_bytes h @ tuple_bytes t"
  have p: "call_pack ADD_ACL_RULE (rule_params m t) = Inr (0, req)"
    using pack_rule_request(1) [OF v(1), of ADD_ACL_RULE m] by (simp add: req_def h_def)
  have h: "msg_id h = m" using pack_rule_request(4) [OF v(1), of ADD_ACL_RULE m] by (simp add: h_def)
  obtain rl ret where add: "Rule_add (rules s) t = (rl, ret)" by (cases "Rule_add (rules s) t")
  define code :: u32 where "code = (if ret = RULE_OK then 0 else if ret = RULE_FULL then 1 else if ret = RULE_EXIST then 2 else 0)"
  have code: "code = of_int ret" using Rule_add_code [of "rules s" t] add by (auto simp: code_def rule_codes)
  have rd: "read_tuple (overwrite old req) MESSAGE_HEADER_LENGTH = t"
    unfolding req_def by (rule read_tuple_overwrite [OF v(1)])
  have hd: "read_head (overwrite old req) = h" by (simp add: req_def)
  obtain ha where ha: "answer ADD_ACL_RULE_ACK (overwrite old req) (result_params code) fd (s\<lparr>rules := rl\<rparr>) =
      Inr (s\<lparr>rules := rl, sent := sent s @ [(fd, head_bytes ha @ be32 code)]\<rparr>)"
    "get_cmd_type ha = Some ADD_ACL_RULE_ACK" "msg_id ha = m"
    using answer_result [of ADD_ACL_RULE_ACK "overwrite old req" code fd "s\<lparr>rules := rl\<rparr>"] h hd
    by (auto simp: ADD_ACL_RULE_ACK_def)
  have "Rule_add_acl_rule (overwrite old req) fd s =
      Inr (s\<lparr>rules := rl, sent := sent s @ [(fd, head_bytes ha @ be32 code)]\<rparr>)"
    unfolding Rule_add_acl_rule_def rd add Let_def prod.case code_def [symmetric] by (rule ha(1))
  with serve_rule_request [OF v(1) _ p, of env old rest fd s] have
    "serve_client env old (req @ rest) fd s = Inr (False, overwrite old req, rest,
       s\<lparr>rules := rl, sent := sent s @ [(fd, head_bytes ha @ be32 code)]\<rparr>)"
    by auto
  moreover have "cmd_add_rule m a = (m + 1, Some (Inr (0, req)))"
    using p assms(1) by (simp add: cmd_add_rule_def)
  ultimately show ?thesis
    using ha(2,3) code add by (intro exI [of _ req] exI conjI) (auto simp: read_head_bytes result_of_reply_code)
qed

theorem add_rule_end_to_end_witness:
  "\<exists>t req buf s'. rule_of_args web_args = Some t \<and> cmd_add_rule 7 web_args = (8, Some (Inr (0, req))) \<and>
    serve_client env0 (replicate 1518 0) (req @ []) 4 server0 = Inr (False, buf, [], s') \<and>
    rules s' = fst (Rule_add Rule_list_init t)"
proof -
  have "case rule_of_args web_args of Some t \<Rightarrow> True | None \<Rightarrow> False" by code_simp
  then obtain t where t: "rule_of_args web_args = Some t" by (auto split: option.splits)
  from add_rule_end_to_end [OF t, of 7 env0 "replicate 1518 0" "[]" 4 server0] t show ?thesis
    by (auto simp: web_args_def server0_def)
qed

text \<open>
  C9. What the CLI accepts is safe for the loader: a rule that passes the checks of \<open>add rule\<close> has
  prefixes for which \<open>ReadIPRange\<close> stays in its array and gives an ordered range, and its port and
  protocol ranges are ordered.
\<close>

theorem accepted_rule_loads:
  assumes "rule_of_args a = Some t" "length (a_smac a) = 6" "length (a_dmac a) = 6"
  shows "\<exists>s e s' e'. ReadIPRange (sip t) (sip_mask t) = Inr (s, e) \<and> s \<le> e \<and>
    ReadIPRange (dip t) (dip_mask t) = Inr (s', e') \<and> s' \<le> e' \<and>
    sport_start t \<le> sport_end t \<and> dport_start t \<le> dport_end t \<and> protocol_start t \<le> protocol_end t"
proof -
  note v = rule_of_args_SomeD [OF assms]
  have "x AND NOT y \<le> x OR y" for x y :: u32
    by (rule order_trans [OF word_and_le2]) (rule le_word_or2)
  with v show ?thesis by (simp add: ReadIPRange_valid)
qed

theorem accepted_rule_loads_witness:
  "\<exists>t s e. rule_of_args web_args = Some t \<and> ReadIPRange (sip t) (sip_mask t) = Inr (s, e) \<and> s \<le> e"
proof -
  have "case rule_of_args web_args of Some t \<Rightarrow> True | None \<Rightarrow> False" by code_simp
  then obtain t where t: "rule_of_args web_args = Some t" by (auto split: option.splits)
  with accepted_rule_loads [OF t] show ?thesis by (auto simp: web_args_def)
qed

text \<open>
  \<open>ReadIPRange\<close> computes the first and the last address of the prefix for masks up to 32 and
  writes outside its array of four bytes for every larger mask.
\<close>

theorem ReadIPRange_exact:
  "ReadIPRange ipnet ipmask =
    (if ipmask \<le> 32 then Inr (ipnet AND NOT (mask (32 - unat ipmask)), ipnet OR mask (32 - unat ipmask))
     else Inl OutOfBounds)"
  using ReadIPRange_valid [of ipmask ipnet] ReadIPRange_invalid [of ipmask ipnet] by auto

text \<open>
  \<open>load_rule\<close> dereferences \<open>NULL\<close>: the default rule it appends has no ranges, so a build is never
  reached for a reachable table whose rules have valid masks and that is not within one rule of full.
\<close>

theorem load_rule_null:
  assumes "rl_reach rl" "list_all masks_ok (used_tuples (entries rl))"
    "length (used_tuples (entries rl)) + 1 < RULE_ENTRY_MAX"
  shows "load_rule fuel True junk rl g = Some (Inl NullDeref)"
proof -
  obtain c dims where ra: "range_alloc junk = (c, dims)" "length c = DIM" "dims = map Cell [0..<DIM]"
    by (simp add: range_alloc_def)
  obtain fs c' where lf: "load_filters 0 (entries rl) dims c = Inr (fs, c')" "length c' = DIM"
    using load_filters_ok [OF assms(2), of 0 dims c] ra(2) by auto
  have fs: "length fs + 1 < RULE_ENTRY_MAX" using load_filters_length [OF lf(1)] assms(3) by simp
  define rs where "rs = map (\<lambda>(i, f). \<lparr>rp_pri = of_nat i, rp_action = f_action f, rp_range = f_dim f, rp_id = f_id f, rp_rule_id = f_rule_id f\<rparr>)
                 (enumerate 0 fs)"
  have "\<exists>y. view_rule c' r = Inr y" if "r \<in> set rs" for r
  proof -
    from that obtain a where "a < length fs" "rp_range r = f_dim (fs ! a)"
      by (auto simp: rs_def in_set_enumerate_eq)
    then have "rp_range r = map Cell [0..<DIM]" using load_filters_dims [OF lf(1) nth_mem] ra(3) by simp
    from view_cells [OF lf(2) this] show ?thesis by blast
  qed
  then have "rmap (view_rule c') (ruleset_of fs) = Inl NullDeref"
    using fs by (simp add: ruleset_of_def rs_def [symmetric] rmap_append_fault view_default)
  then show ?thesis by (simp add: load_rule_def ra(1) lf(1) Let_def)
qed

theorem load_rule_null_witness:
  "load_rule 100 True (replicate 11 ([], [])) Rule_list_init
     \<lparr>number_bits = 0, gChildCount = 0, gNumTreeNode = 0, gNumLeafNode = 0, gWstDepth = 0, gAvgDepth = 0,
      num1 = 0, num2 = 0, num3 = 0, mem_stat1 = 0, mem_stat2 = 0, mem_stat3 = 0, gWstRange = []\<rparr> = Some (Inl NullDeref)"
proof -
  have "used_tuples (entries Rule_list_init) = []" using rl_abs_init by (simp add: rl_abs_def)
  then show ?thesis by (intro load_rule_null rl_reach.init) (simp_all add: RULE_ENTRY_MAX_def)
qed

text \<open>
  All loaded filters share one set of range cells: after the load every filter's source port range
  is that of the last used entry of the table.
\<close>

theorem load_rule_aliases:
  assumes "range_alloc junk = (c, dims)" "load_filters 0 (entries rl) dims c = Inr (fs, c')" "f \<in> set fs"
  shows "deref c' (f_dim f ! 4) =
    Inr ([ucast (sport_start (last (used_tuples (entries rl))))], [ucast (sport_end (last (used_tuples (entries rl))))])"
proof -
  have c: "4 < length c" "length (fst (c ! 4)) = 1" "length (snd (c ! 4)) = 1" and d: "dims ! 4 = Cell 4"
    using assms(1) by (auto simp: range_alloc_def DIM_def alloc_words_def fit_def)
  have "used_tuples (entries rl) \<noteq> []" using load_filters_length [OF assms(2)] assms(3) by auto
  note p = load_filters_port [OF assms(2) c this]
  have "f_dim f = dims" by (rule load_filters_dims [OF assms(2,3)])
  moreover have "length c' = length c"
    using assms(2) by (rule load_filters_cells)
  ultimately show ?thesis using p c(1) d by (simp add: deref_def)
qed

theorem load_rule_aliases_witness:
  "\<exists>c dims fs c'. range_alloc (replicate 11 ([], [])) = (c, dims) \<and>
     load_filters 0 two_used dims c = Inr (fs, c') \<and> length fs = 2 \<and> deref c' (f_dim (hd fs) ! 4) = Inr ([7], [9])"
proof -
  let ?rl = "\<lparr>rule_entry_free = 0, build_status = 0, entries = two_used\<rparr>"
  obtain c dims where a: "range_alloc (replicate 11 ([], [])) = (c, dims)" by fastforce
  have "list_all masks_ok (used_tuples two_used)" by code_simp
  then obtain fs c' where l: "load_filters 0 two_used dims c = Inr (fs, c')"
    using load_filters_ok [of two_used 0 dims c] a by (auto simp: range_alloc_def)
  then have n: "length fs = 2" using load_filters_length [OF l] by (simp add: two_used_def)
  then have "hd fs \<in> set fs" by (cases fs) auto
  with a l n load_rule_aliases [of "replicate 11 ([], [])" c dims ?rl fs c' "hd fs"] show ?thesis
    by (simp add: two_used_def)
qed

text \<open>
  The receive routine overruns its 1518-byte buffer exactly when a header announces less than its
  own 12 bytes and more than 1506 bytes are pending: the negative data length becomes a huge count.
\<close>

theorem recv_overflow:
  assumes "MESSAGE_HEADER_LENGTH \<le> length pending"
  shows "recv_tcp_client_packet old pending = Inl OutOfBounds \<longleftrightarrow>
    hlength (read_head (take MESSAGE_HEADER_LENGTH pending)) < 3 \<and> RECV_BUF < length pending"
proof -
  obtain h where h: "hlength (read_head (take MESSAGE_HEADER_LENGTH pending)) = h" by simp
  have lt: "uint h < 256" using uint_lt2p [of h] by simp
  have h3: "h < 3 \<longleftrightarrow> uint h < 3" by (simp add: word_less_def)
  have len: "length (take MESSAGE_HEADER_LENGTH pending) = MESSAGE_HEADER_LENGTH" using assms by simp
  show ?thesis
    unfolding recv_tcp_client_packet_def Let_def len h h3 using lt assms uint_ge_0 [of h]
    by (auto simp: MESSAGE_HEADER_LENGTH_def RECV_BUF_def not_less)
qed

theorem recv_overflow_witness:
  "recv_tcp_client_packet [] (replicate 2000 0) = Inl OutOfBounds"
proof -
  have "hlength (read_head (take MESSAGE_HEADER_LENGTH (replicate 2000 0))) < 3"
    by (simp add: read_head_def MESSAGE_HEADER_LENGTH_def get8_def)
  then show ?thesis
    using recv_overflow [of "replicate 2000 0" "[]"] by (simp add: MESSAGE_HEADER_LENGTH_def RECV_BUF_def)
qed

text \<open>
  In every reachable socket table the descriptors watched by \<open>select\<close> are exactly the valid ones,
  and \<open>maxfd\<close> is an upper bound of them that is attained when it is not 0.
\<close>

theorem socket_table_invariant:
  assumes "socks_reach s"
  shows "rfds s = valid_fds s \<and> (\<forall>fd. fd \<in> rfds s \<longrightarrow> fd \<le> maxfd s) \<and> (maxfd s \<noteq> 0 \<longrightarrow> maxfd s \<in> rfds s)"
  using socks_reach_inv [OF assms] by (auto simp: socks_inv_def)

theorem socket_table_invariant_witness:
  "\<exists>s s'. add_fd TCP_SERVER 3 socks0 = Inr s \<and> del_fd 3 s = Inr s' \<and> rfds s' = valid_fds s'"
proof -
  obtain s where s: "add_fd TCP_SERVER 3 socks0 = Inr s"
    by (simp add: add_fd_def Let_def socks0_def sock_map_init_def SOCK_MAX_def FD_SETSIZE_def)
  then have len: "length (sock_map s) = 1027"
    by (auto simp: add_fd_def Let_def socks0_def sock_map_init_def SOCK_MAX_def FD_SETSIZE_def)
  obtain s' where s': "del_fd 3 s = Inr s'" by (simp add: del_fd_def Let_def len FD_SETSIZE_def)
  with s socket_table_invariant [OF socks_reach.del [OF socks_reach.add [OF socks_reach.init s] s']] show ?thesis by blast
qed

text \<open>
  C11. Every command survives packing: for each of the 20 commands the registered pack routine exists
  and produces a packet from whose header \<open>get_cmd_type\<close> recovers the command and the message id.
\<close>

theorem pack_classify_roundtrip:
  assumes "cmd < MAX_COMMAND_TYPE"
  shows "\<exists>bs. call_pack cmd p = Inr (0, bs) \<and> get_cmd_type (read_head bs) = Some cmd \<and> msg_id (read_head bs) = p_msg_id p"
  using call_pack_ok [OF assms, of p] by (auto simp: read_head_bytes)

theorem pack_classify_roundtrip_witness:
  "\<exists>bs. call_pack COMMIT_ACL_RULE zero_params = Inr (0, bs) \<and> get_cmd_type (read_head bs) = Some COMMIT_ACL_RULE"
proof -
  have "COMMIT_ACL_RULE < MAX_COMMAND_TYPE" by (simp add: cmd_defs)
  from pack_classify_roundtrip [OF this, of zero_params] show ?thesis by auto
qed

text \<open>
  A commit has no effect beyond its answer: the handler changes neither the rule table nor its
  build status and makes no call to the data plane (its result does not depend on the data plane), and
  it always answers success.
\<close>

theorem commit_has_no_effect:
  "\<exists>h. (\<forall>env. run_proc env Proc_commit_acl_rule from fd s =
      Inr (s\<lparr>sent := sent s @ [(fd, head_bytes h @ be32 0)]\<rparr>))"
  using answer_result [of COMMIT_ACL_RULE_ACK "from" 0 fd s]
  by (auto simp: Rule_commit_acl_rule_def COMMIT_ACL_RULE_ACK_def)

text \<open>
  The result of \<open>show rule\<close> is lost: the answer is packed as an information message of length 0, so
  it consists of the header alone and the CLI reads success from it, also when the server could not
  open the file.
\<close>

theorem show_rule_code_lost:
  "\<exists>h s'. Rule_show_acl_rule env from fd s = Inr s' \<and> sent s' = sent s @ [(fd, head_bytes h)] \<and>
    result_of_reply (head_bytes h) = 0"
proof -
  obtain h where "answer SHOW_ACL_RULE_ACK from (result_params (if file_ok env then 0 else 6)) fd
      (if file_ok env then s\<lparr>rule_file := Rule_Save_File (rules s)\<rparr> else s) =
    Inr ((if file_ok env then s\<lparr>rule_file := Rule_Save_File (rules s)\<rparr> else s)
      \<lparr>sent := sent (if file_ok env then s\<lparr>rule_file := Rule_Save_File (rules s)\<rparr> else s) @ [(fd, head_bytes h)]\<rparr>)"
    using show_ack_header_only by blast
  then show ?thesis
    by (auto simp: Rule_show_acl_rule_def Let_def result_of_reply_head)
qed

text \<open>
  The check of the CLI does not protect the table: the id 100000 passes it and is the first one
  outside the table, so for every reachable table that is not empty the handler faults on the request
  the CLI sends.
\<close>

theorem delete_id_unprotected:
  assumes "rl_reach (rules s)" "rl_abs (rules s) \<noteq> {}"
  shows "\<exists>req. cmd_delete_rule_id m 100000 = (m + 1, Some (Inr (0, req))) \<and>
    run_proc env Proc_del_acl_rule_id (overwrite old req) fd s = Inl OutOfBounds"
proof -
  let ?p = "(put_mem 0 (be32 100000) zero_params)\<lparr>p_msg_id := m, p_nparam := 1\<rparr>"
  have k: "init_msg_pack_handle ! 14 = Some Pack_acl_rule_id" by code_simp
  have v: "cmd_is_valid 14 = 0" by (simp add: cmd_is_valid_def MAX_COMMAND_TYPE_def)
  define req where "req = head_bytes (encap_msg_header 14 ?p) @ be32 100000"
  have "call_pack DEL_ACL_RULE_ID ?p = Inr (0, req)"
    using k v pack_handles_code(2) put_mem_0 [of "be32 100000" zero_params]
    by (simp add: call_pack_def DEL_ACL_RULE_ID_def pack_acl_rule_id_def pack_blocks_1 req_def)
  moreover have "get32 (overwrite old req) MESSAGE_HEADER_LENGTH = 100000"
    by (simp add: req_def overwrite_def)
  moreover have "int RULE_ENTRY_MAX \<noteq> rule_entry_free (rules s)" "length (entries (rules s)) = RULE_ENTRY_MAX"
    using rl_reach_inv [OF assms(1)] assms(2) by (auto simp: rl_inv_def rl_abs_def)
  ultimately show ?thesis
    by (simp add: cmd_delete_rule_id_def Rule_del_acl_rule_id_def Rule_del_by_id_def RULE_ENTRY_MAX_def)
qed

theorem delete_id_unprotected_witness:
  "\<exists>req. cmd_delete_rule_id 1 100000 = (2, Some (Inr (0, req))) \<and>
    run_proc env0 Proc_del_acl_rule_id (overwrite [] req) 4 (server0\<lparr>rules := fst (Rule_add Rule_list_init zero_tuple)\<rparr>) = Inl OutOfBounds"
proof -
  have "rl_abs (fst (Rule_add Rule_list_init zero_tuple)) \<noteq> {}"
    using table.add_abs [OF rl_inv_init wf_zero_tuple] by (simp add: rl_abs_init RULE_ENTRY_MAX_def)
  with delete_id_unprotected [of "server0\<lparr>rules := fst (Rule_add Rule_list_init zero_tuple)\<rparr>" 1 env0 "[]" 4]
    rl_reach.add [OF rl_reach.init wf_zero_tuple] show ?thesis by simp
qed

end
