(* ===== verification/Hash.thy ===== *)
theory Hash
  imports Bytes
begin

text \<open>
  The hash functions of the data plane: Jenkins' hash of \<open>dataplane/src/include/jhash.h\<close> (over bytes,
  over words, and over one to three words), \<open>TluHash\<close> and the flow hash of
  \<open>dataplane/src/flow/tluhash.h\<close>. All arithmetic is modulo \<open>2 ^ 32\<close>.
\<close>

section \<open>Jenkins' hash\<close>

definition JHASH_GOLDEN_RATIO :: u32 where
  "JHASH_GOLDEN_RATIO = 0x9e3779b9"

text \<open>\<open>__jhash_mix\<close>: three rounds; the macro updates its three arguments.\<close>

definition mix_round :: "nat \<Rightarrow> nat \<Rightarrow> nat \<Rightarrow> u32 \<times> u32 \<times> u32 \<Rightarrow> u32 \<times> u32 \<times> u32" where
  "mix_round i j k abc = (case abc of (a, b, c) \<Rightarrow>
     let a = (a - b - c) XOR drop_bit i c;
         b = (b - c - a) XOR push_bit j a;
         c = (c - a - b) XOR drop_bit k b
     in (a, b, c))"

definition jhash_mix :: "u32 \<times> u32 \<times> u32 \<Rightarrow> u32 \<times> u32 \<times> u32" where
  "jhash_mix abc = mix_round 3 10 15 (mix_round 12 16 5 (mix_round 13 8 13 abc))"

text \<open>
  Byte \<open>i\<close> of the key, shifted by \<open>s\<close> bits; 0 behind the end, for the cases that the fall-through
  \<open>switch\<close> at the end of \<open>jhash\<close> skips. A key is the list of its \<open>length\<close> bytes.
\<close>

definition kb :: "u8 list \<Rightarrow> nat \<Rightarrow> nat \<Rightarrow> u32" where
  "kb k i s = (if i < length k then push_bit s (ucast (k ! i)) else 0)"

definition add_block :: "u8 list \<Rightarrow> u32 \<times> u32 \<times> u32 \<Rightarrow> u32 \<times> u32 \<times> u32" where
  "add_block k abc = (case abc of (a, b, c) \<Rightarrow>
     (a + (kb k 0 0 + kb k 1 8 + kb k 2 16 + kb k 3 24),
      b + (kb k 4 0 + kb k 5 8 + kb k 6 16 + kb k 7 24),
      c + (kb k 8 0 + kb k 9 8 + kb k 10 16 + kb k 11 24)))"

text \<open>The \<open>switch\<close>: the bytes 8 to 10 go to the upper three bytes of \<open>c\<close>, whose lowest holds the length.\<close>

definition add_tail :: "u8 list \<Rightarrow> u32 \<times> u32 \<times> u32 \<Rightarrow> u32 \<times> u32 \<times> u32" where
  "add_tail k abc = (case abc of (a, b, c) \<Rightarrow>
     (a + kb k 3 24 + kb k 2 16 + kb k 1 8 + kb k 0 0,
      b + kb k 7 24 + kb k 6 16 + kb k 5 8 + kb k 4 0,
      c + kb k 10 24 + kb k 9 16 + kb k 8 8))"

function jhash_loop :: "u8 list \<Rightarrow> u32 \<times> u32 \<times> u32 \<Rightarrow> u8 list \<times> u32 \<times> u32 \<times> u32" where
  "jhash_loop k abc =
     (if length k \<ge> 12 then jhash_loop (drop 12 k) (jhash_mix (add_block (take 12 k) abc)) else (k, abc))"
  by pat_completeness auto
termination
  by (relation "measure (\<lambda>(k, abc). length k)") auto

declare jhash_loop.simps [simp del]

definition jhash :: "u8 list \<Rightarrow> u32 \<Rightarrow> u32" where
  "jhash key initval =
     (case jhash_loop key (JHASH_GOLDEN_RATIO, JHASH_GOLDEN_RATIO, initval) of
        (k, a, b, c) \<Rightarrow> snd (snd (jhash_mix (add_tail k (a, b, c + of_nat (length key))))))"

fun jhash2_loop :: "u32 list \<Rightarrow> u32 \<times> u32 \<times> u32 \<Rightarrow> u32 list \<times> u32 \<times> u32 \<times> u32" where
  "jhash2_loop (x # y # z # k) (a, b, c) = jhash2_loop k (jhash_mix (a + x, b + y, c + z))"
| "jhash2_loop k abc = (k, abc)"

definition jhash2 :: "u32 list \<Rightarrow> u32 \<Rightarrow> u32" where
  "jhash2 k initval =
     (case jhash2_loop k (JHASH_GOLDEN_RATIO, JHASH_GOLDEN_RATIO, initval) of
        (r, a, b, c) \<Rightarrow>
          let c = c + of_nat (length k) * 4;
              b = (if length r = 2 then b + r ! 1 else b);
              a = (if length r = 2 \<or> length r = 1 then a + r ! 0 else a)
          in snd (snd (jhash_mix (a, b, c))))"

definition jhash_3words :: "u32 \<Rightarrow> u32 \<Rightarrow> u32 \<Rightarrow> u32 \<Rightarrow> u32" where
  "jhash_3words a b c initval =
     snd (snd (jhash_mix (a + JHASH_GOLDEN_RATIO, b + JHASH_GOLDEN_RATIO, c + initval)))"

definition jhash_2words :: "u32 \<Rightarrow> u32 \<Rightarrow> u32 \<Rightarrow> u32" where
  "jhash_2words a b initval = jhash_3words a b 0 initval"

definition jhash_1word :: "u32 \<Rightarrow> u32 \<Rightarrow> u32" where
  "jhash_1word a initval = jhash_3words a 0 0 initval"

section \<open>Flow hash\<close>

text \<open>\<open>TluHash\<close> has the nine statements of the mix written out.\<close>

definition TluHash :: "u32 \<Rightarrow> u32 \<Rightarrow> u32" where
  "TluHash u1 u2 =
     (let a = u2 + 0x9e3779b9; b = u1 + 0x9e3779b9; c = 0;
          a = a - b; a = a - c; a = a XOR drop_bit 13 c;
          b = b - c; b = b - a; b = b XOR push_bit 8 a;
          c = c - a; c = c - b; c = c XOR drop_bit 13 b;
          a = a - b; a = a - c; a = a XOR drop_bit 12 c;
          b = b - c; b = b - a; b = b XOR push_bit 16 a;
          c = c - a; c = c - b; c = c XOR drop_bit 5 b;
          a = a - b; a = a - c; a = a XOR drop_bit 3 c;
          b = b - c; b = b - a; b = b XOR push_bit 10 a;
          c = c - a; c = c - b; c = c XOR drop_bit 15 b
      in c)"

definition flow_hashfn :: "u8 \<Rightarrow> u32 \<Rightarrow> u32 \<Rightarrow> u16 \<Rightarrow> u16 \<Rightarrow> u32" where
  "flow_hashfn ucPro ulSrcIp ulDstIp usSrcPort usDstPort =
     (let s_hash = TluHash ulSrcIp (ucast usSrcPort);
          d_hash = TluHash ulDstIp (ucast usDstPort);
          p_hash = TluHash (ucast ucPro) 0
      in s_hash XOR d_hash XOR p_hash)"

section \<open>Lemmas\<close>

lemma TluHash_jhash: "TluHash u1 u2 = jhash_2words u2 u1 0"
  by (simp only: TluHash_def jhash_2words_def jhash_3words_def jhash_mix_def mix_round_def Let_def
      JHASH_GOLDEN_RATIO_def prod.case snd_conv add_0_left)

lemma flow_hashfn_swap: "flow_hashfn p d s dp sp = flow_hashfn p s d sp dp"
  by (simp add: flow_hashfn_def Let_def ac_simps)

text \<open>The bytes of a word, least significant first, and their sum in \<open>jhash\<close>.\<close>

definition le32 :: "u32 \<Rightarrow> u8 list" where
  "le32 w = rev (be32 w)"

lemma length_le32 [simp]: "length (le32 w) = 4"
  by (simp add: le32_def)

lemma byte_sum:
  "ucast a + push_bit 8 (ucast b) + push_bit 16 (ucast c) + push_bit 24 (ucast d) = (un32 d c b a :: u32)"
  for a b c d :: u8
proof -
  have hi: "\<not> bit x k" if "8 \<le> k" for x :: u8 and k using that by (rule high_bit_u8)
  have "ucast a + push_bit 8 (ucast b) = (ucast a OR push_bit 8 (ucast b) :: u32)"
    by (rule disjunctive_add) (auto simp: bit_simps dest: hi)
  moreover have "\<dots> + push_bit 16 (ucast c) = (ucast a OR push_bit 8 (ucast b) OR push_bit 16 (ucast c) :: u32)"
    by (subst disjunctive_add) (auto simp: bit_simps hi or.assoc dest: hi)
  moreover have "\<dots> + push_bit 24 (ucast d) = (ucast a OR push_bit 8 (ucast b) OR push_bit 16 (ucast c) OR push_bit 24 (ucast d) :: u32)"
    by (subst disjunctive_add) (auto simp: bit_simps hi or.assoc dest: hi)
  ultimately show ?thesis by (simp add: un32_def or.assoc or.commute or.left_commute)
qed

lemma le32_sum:
  "kb (le32 w) 0 0 + kb (le32 w) 1 8 + kb (le32 w) 2 16 + kb (le32 w) 3 24 = w"
  using byte_sum [of "ucast w" "ucast (drop_bit 8 w)" "ucast (drop_bit 16 w)" "ucast (drop_bit 24 w)"]
  by (simp add: kb_def le32_def be32_def)

lemma kb_append:
  "i < length xs \<Longrightarrow> kb (xs @ ys) i s = kb xs i s"
  "kb (xs @ ys) (length xs + i) s = kb ys i s"
  by (auto simp: kb_def nth_append)

lemma kb_le32:
  "kb (le32 w @ ys) 0 s = kb (le32 w) 0 s" "kb (le32 w @ ys) (Suc 0) s = kb (le32 w) (Suc 0) s"
  "kb (le32 w @ ys) 2 s = kb (le32 w) 2 s" "kb (le32 w @ ys) 3 s = kb (le32 w) 3 s"
  "4 \<le> n \<Longrightarrow> kb (le32 w @ ys) n s = kb ys (n - 4) s"
  using kb_append(2) [of "le32 w" ys "n - 4" s] by (simp_all add: kb_append)

lemma add_block_words: "add_block (le32 x @ le32 y @ le32 z) (a, b, c) = (a + x, b + y, c + z)"
  using le32_sum [of x] le32_sum [of y] le32_sum [of z]
  by (simp add: add_block_def kb_le32)

lemma jhash_loop_words:
  "jhash_loop (concat (map le32 ws)) abc =
    (case jhash2_loop ws abc of (r, abc') \<Rightarrow> (concat (map le32 r), abc'))"
proof (induction ws abc rule: jhash2_loop.induct)
  case (1 x y z k a b c)
  have "jhash_loop (concat (map le32 (x # y # z # k))) (a, b, c) =
      jhash_loop (concat (map le32 k)) (jhash_mix (add_block (le32 x @ le32 y @ le32 z) (a, b, c)))"
    by (subst jhash_loop.simps) simp
  with 1 show ?case by (simp add: add_block_words)
qed (simp_all add: jhash_loop.simps)

lemma add_tail_words:
  "add_tail [] (a, b, c) = (a, b, c)"
  "add_tail (le32 x) (a, b, c) = (a + x, b, c)"
  "add_tail (le32 x @ le32 y) (a, b, c) = (a + x, b + y, c)"
proof -
  show "add_tail [] (a, b, c) = (a, b, c)" by (simp add: add_tail_def kb_def)
  show "add_tail (le32 x) (a, b, c) = (a + x, b, c)"
    using le32_sum [of x] by (simp add: add_tail_def kb_def algebra_simps)
  show "add_tail (le32 x @ le32 y) (a, b, c) = (a + x, b + y, c)"
    using le32_sum [of x] le32_sum [of y] by (simp add: add_tail_def kb_le32 algebra_simps) (simp add: kb_def)
qed

lemma jhash2_loop_rest: "length (fst (jhash2_loop ws abc)) < 3"
  by (induction ws abc rule: jhash2_loop.induct) simp_all

lemma length_words: "length (concat (map le32 ws)) = 4 * length ws"
  by (induction ws) simp_all

text \<open>
  C12. Jenkins' hash over words is the one over bytes: \<open>jhash2\<close> of a word array is \<open>jhash\<close> of the array's
  bytes in little-endian order, for every length and initial value.
\<close>

theorem jhash2_jhash: "jhash2 ws initval = jhash (concat (map le32 ws)) initval"
proof -
  obtain r a b c where l: "jhash2_loop ws (JHASH_GOLDEN_RATIO, JHASH_GOLDEN_RATIO, initval) = (r, a, b, c)"
    by (metis prod_cases4)
  have "length r < 3" using jhash2_loop_rest [of ws "(JHASH_GOLDEN_RATIO, JHASH_GOLDEN_RATIO, initval)"] l by simp
  then consider "r = []" | x where "r = [x]" | x y where "r = [x, y]"
    by (cases r; cases "tl r"; cases "tl (tl r)") auto
  then show ?thesis
    by cases (simp_all add: jhash2_def jhash_def jhash_loop_words l add_tail_words length_words mult.commute)
qed

end
