(* ===== verification/Hlist.thy ===== *)
theory Hlist
  imports Prelude
begin

text \<open>
  The hash chains of \<open>dataplane/src/include/hlist.h\<close> at the level of pointers: a head has a pointer to
  the first node, a node has \<open>next\<close> and \<open>pprev\<close>, the address of the pointer that points at it. The
  operations are those of the header with its iteration macros. The contract \<open>chain_store\<close> states
  what the tables built on chains rely on; it is met by \<open>hlist_add_head\<close> and \<open>hlist_del\<close> for the
  representation \<open>hl\<close>, which says that a head and its nodes spell a list of distinct nodes.
\<close>

section \<open>Heap of nodes\<close>

text \<open>
  \<open>struct hlist_node *\<close> and \<open>struct hlist_node **\<close>: nodes and heads are named by numbers. The
  addresses \<open>LIST_POISON1\<close> and \<open>LIST_POISON2\<close> of a removed node are \<open>Poison\<close> and \<open>PPoison\<close>.
\<close>

datatype link = Null | Ref nat | Poison

datatype plink = PNull | PHead nat | PNext nat | PPoison

record hheap =
  first :: "nat \<Rightarrow> link"
  nxt :: "nat \<Rightarrow> link"
  pprev :: "nat \<Rightarrow> plink"

section \<open>Operations\<close>

definition INIT_HLIST_HEAD :: "nat \<Rightarrow> hheap \<Rightarrow> hheap" where
  "INIT_HLIST_HEAD h H = H\<lparr>first := (first H)(h := Null)\<rparr>"

definition hlist_empty :: "nat \<Rightarrow> hheap \<Rightarrow> bool" where
  "hlist_empty h H \<longleftrightarrow> first H h = Null"

definition hlist_unhashed :: "nat \<Rightarrow> hheap \<Rightarrow> bool" where
  "hlist_unhashed n H \<longleftrightarrow> pprev H n = PNull"

text \<open>\<open>*pprev = l\<close> and \<open>p->pprev = q\<close>.\<close>

definition store_link :: "plink \<Rightarrow> link \<Rightarrow> hheap \<Rightarrow> hheap res" where
  "store_link p l H = (case p of
     PNull \<Rightarrow> Inl NullDeref
   | PPoison \<Rightarrow> Inl OutOfBounds
   | PHead h \<Rightarrow> Inr (H\<lparr>first := (first H)(h := l)\<rparr>)
   | PNext a \<Rightarrow> Inr (H\<lparr>nxt := (nxt H)(a := l)\<rparr>))"

definition store_pprev :: "link \<Rightarrow> plink \<Rightarrow> hheap \<Rightarrow> hheap res" where
  "store_pprev l q H = (case l of
     Null \<Rightarrow> Inl NullDeref
   | Poison \<Rightarrow> Inl OutOfBounds
   | Ref a \<Rightarrow> Inr (H\<lparr>pprev := (pprev H)(a := q)\<rparr>))"

definition hlist_del_raw :: "nat \<Rightarrow> hheap \<Rightarrow> hheap res" where
  "hlist_del_raw n H =
     (let next = nxt H n; pp = pprev H n in
      rbind (store_link pp next H) (\<lambda>H1.
      if next \<noteq> Null then store_pprev next pp H1 else Inr H1))"

definition hlist_del :: "nat \<Rightarrow> hheap \<Rightarrow> hheap res" where
  "hlist_del n H =
     rbind (hlist_del_raw n H) (\<lambda>H1.
     Inr (H1\<lparr>nxt := (nxt H1)(n := Poison), pprev := (pprev H1)(n := PPoison)\<rparr>))"

definition hlist_add_head :: "nat \<Rightarrow> nat \<Rightarrow> hheap \<Rightarrow> hheap res" where
  "hlist_add_head n h H =
     (let f = first H h; H1 = H\<lparr>nxt := (nxt H)(n := f)\<rparr> in
      rbind (if f \<noteq> Null then store_pprev f (PNext n) H1 else Inr H1) (\<lambda>H2.
      Inr (H2\<lparr>first := (first H2)(h := Ref n), pprev := (pprev H2)(n := PHead h)\<rparr>)))"

text \<open>
  \<open>hlist_for_each_entry\<close> with a body that returns at the first node it accepts, and
  \<open>hlist_for_each_entry_safe\<close>, which reads \<open>next\<close> before the body runs. A walk takes one unit of fuel
  per node and one for the end.
\<close>

fun hlist_find :: "nat \<Rightarrow> (nat \<Rightarrow> bool) \<Rightarrow> link \<Rightarrow> hheap \<Rightarrow> nat option res option" where
  "hlist_find 0 P pos H = None"
| "hlist_find (Suc n) P pos H = (case pos of
     Null \<Rightarrow> Some (Inr None)
   | Poison \<Rightarrow> Some (Inl OutOfBounds)
   | Ref a \<Rightarrow> if P a then Some (Inr (Some a)) else hlist_find n P (nxt H a) H)"

fun hlist_for_each_safe :: "nat \<Rightarrow> (nat \<Rightarrow> 's \<Rightarrow> 's res) \<Rightarrow> ('s \<Rightarrow> hheap) \<Rightarrow> link \<Rightarrow> 's \<Rightarrow> 's res option" where
  "hlist_for_each_safe 0 body hp pos s = None"
| "hlist_for_each_safe (Suc n) body hp pos s = (case pos of
     Null \<Rightarrow> Some (Inr s)
   | Poison \<Rightarrow> Some (Inl OutOfBounds)
   | Ref a \<Rightarrow> fbind (Some (body a s)) (hlist_for_each_safe n body hp (nxt (hp s) a)))"

section \<open>The contract of a chain store\<close>

text \<open>
  What the tables use: \<open>chain H h xs\<close> says that head \<open>h\<close> holds the nodes \<open>xs\<close>, adding puts a node in
  front, deleting takes it out, and both leave the chains of other heads alone.
\<close>

locale chain_store =
  fixes chain :: "'h \<Rightarrow> nat \<Rightarrow> nat list \<Rightarrow> bool"
    and add :: "nat \<Rightarrow> nat \<Rightarrow> 'h \<Rightarrow> 'h res"
    and del :: "nat \<Rightarrow> 'h \<Rightarrow> 'h res"
  assumes chain_distinct: "chain H h xs \<Longrightarrow> distinct xs"
    and add_chain: "chain H h xs \<Longrightarrow> n \<notin> set xs \<Longrightarrow> \<exists>H'. add n h H = Inr H' \<and> chain H' h (n # xs)"
    and add_frame: "\<lbrakk>chain H h xs; chain H k ys; add n h H = Inr H'; k \<noteq> h; n \<notin> set xs; n \<notin> set ys; set xs \<inter> set ys = {}\<rbrakk> \<Longrightarrow> chain H' k ys"
    and del_chain: "chain H h xs \<Longrightarrow> n \<in> set xs \<Longrightarrow> \<exists>H'. del n H = Inr H' \<and> chain H' h (remove1 n xs)"
    and del_frame: "\<lbrakk>chain H h xs; n \<in> set xs; chain H k ys; del n H = Inr H'; k \<noteq> h; set xs \<inter> set ys = {}\<rbrakk> \<Longrightarrow> chain H' k ys"
begin

lemma move_chain:
  assumes c: "chain H h xs" "chain H k ys" "h \<noteq> k" "set xs \<inter> set ys = {}" "n \<in> set xs"
  shows "\<exists>H'. rbind (del n H) (add n k) = Inr H' \<and> chain H' h (remove1 n xs) \<and> chain H' k (n # ys) \<and>
    (\<forall>j zs. j \<noteq> h \<longrightarrow> j \<noteq> k \<longrightarrow> chain H j zs \<longrightarrow> set zs \<inter> (set xs \<union> set ys) = {} \<longrightarrow> chain H' j zs)"
proof -
  obtain H1 where d: "del n H = Inr H1" "chain H1 h (remove1 n xs)" using del_chain [OF c(1,5)] by blast
  have k1: "chain H1 k ys" using del_frame [OF c(1,5,2) d(1)] c(3,4) by auto
  have "n \<notin> set ys" using c(4,5) by auto
  then obtain H2 where a: "add n k H1 = Inr H2" "chain H2 k (n # ys)" using add_chain [OF k1] by blast
  have r: "n \<notin> set (remove1 n xs)" "set (remove1 n xs) \<subseteq> set xs"
    using chain_distinct [OF c(1)] by (simp_all add: set_remove1_subset)
  have "chain H2 h (remove1 n xs)" using add_frame [OF k1 d(2) a(1)] c(3-5) r by auto
  moreover have "chain H2 j zs"
    if j: "j \<noteq> h" "j \<noteq> k" "chain H j zs" "set zs \<inter> (set xs \<union> set ys) = {}" for j zs
  proof -
    have "chain H1 j zs" using del_frame [OF c(1,5) j(3) d(1)] j by auto
    with j c(4,5) show ?thesis using add_frame [OF k1 _ a(1), of j zs] by auto
  qed
  ultimately show ?thesis using d(1) a by (intro exI [of _ H2]) auto
qed

lemma add_del_chain:
  assumes "chain H h xs" "n \<notin> set xs"
  shows "\<exists>H'. rbind (add n h H) (del n) = Inr H' \<and> chain H' h xs"
proof -
  obtain H1 where a: "add n h H = Inr H1" "chain H1 h (n # xs)" using add_chain [OF assms] by blast
  obtain H2 where "del n H1 = Inr H2" "chain H2 h (remove1 n (n # xs))"
    using del_chain [OF a(2), of n] unfolding list.set by blast
  with a(1) show ?thesis by auto
qed

end

section \<open>Chains in the heap\<close>

fun seg :: "hheap \<Rightarrow> plink \<Rightarrow> link \<Rightarrow> nat list \<Rightarrow> bool" where
  "seg H p l [] \<longleftrightarrow> l = Null"
| "seg H p l (x # xs) \<longleftrightarrow> l = Ref x \<and> pprev H x = p \<and> seg H (PNext x) (nxt H x) xs"

definition hl :: "hheap \<Rightarrow> nat \<Rightarrow> nat list \<Rightarrow> bool" where
  "hl H h xs \<longleftrightarrow> distinct xs \<and> seg H (PHead h) (first H h) xs"

lemma seg_cong:
  "(\<And>x. x \<in> set xs \<Longrightarrow> nxt H' x = nxt H x \<and> pprev H' x = pprev H x) \<Longrightarrow> seg H' p l xs = seg H p l xs"
  by (induction xs arbitrary: p l) auto

lemma seg_update [simp]:
  "x \<notin> set xs \<Longrightarrow> seg (H\<lparr>nxt := (nxt H)(x := v)\<rparr>) p l xs = seg H p l xs"
  "x \<notin> set xs \<Longrightarrow> seg (H\<lparr>pprev := (pprev H)(x := q)\<rparr>) p l xs = seg H p l xs"
  "seg (H\<lparr>first := f\<rparr>) p l xs = seg H p l xs"
  by (rule seg_cong; auto)+

lemma hl_Nil: "hl (INIT_HLIST_HEAD h H) h []"
  by (simp add: hl_def INIT_HLIST_HEAD_def)

lemma hl_unique: "seg H p l xs \<Longrightarrow> seg H q l ys \<Longrightarrow> xs = ys"
proof (induction xs arbitrary: p q l ys)
  case Nil
  then show ?case by (cases ys) auto
next
  case (Cons x xs)
  then show ?case by (cases ys) auto
qed

lemma hl_init_other: "h \<noteq> k \<Longrightarrow> hl (INIT_HLIST_HEAD h H) k xs = hl H k xs"
  by (simp add: hl_def INIT_HLIST_HEAD_def)

lemma add_head_ok:
  assumes "hl H h xs" "n \<notin> set xs"
  shows "\<exists>H'. hlist_add_head n h H = Inr H' \<and> hl H' h (n # xs) \<and>
    (\<forall>k ys. k \<noteq> h \<longrightarrow> n \<notin> set ys \<longrightarrow> set xs \<inter> set ys = {} \<longrightarrow> hl H k ys \<longrightarrow> hl H' k ys)"
proof (cases xs)
  case Nil
  have "seg (H\<lparr>nxt := (nxt H)(n := Null), first := (first H)(h := Ref n), pprev := (pprev H)(n := PHead h)\<rparr>) p l ys =
      seg H p l ys" if "n \<notin> set ys" for p l ys
    by (rule seg_cong) (use that in auto)
  with Nil assms show ?thesis by (auto simp: hl_def hlist_add_head_def Let_def)
next
  case (Cons x zs)
  let ?H' = "H\<lparr>nxt := (nxt H)(n := Ref x), pprev := (pprev H)(x := PNext n, n := PHead h), first := (first H)(h := Ref n)\<rparr>"
  have f: "first H h = Ref x" using assms(1) Cons by (simp add: hl_def)
  have nx: "n \<noteq> x" "n \<notin> set zs" "x \<notin> set zs" using assms Cons by (auto simp: hl_def)
  have "hlist_add_head n h H = Inr ?H'"
    by (simp add: hlist_add_head_def Let_def f store_pprev_def)
  moreover have "seg ?H' (PNext x) (nxt H x) zs = seg H (PNext x) (nxt H x) zs"
    by (rule seg_cong) (use nx in auto)
  then have "hl ?H' h (n # xs)" using assms Cons nx by (simp add: hl_def)
  moreover have "hl ?H' k ys" if "k \<noteq> h" "n \<notin> set ys" "set xs \<inter> set ys = {}" "hl H k ys" for k ys
  proof -
    have "seg ?H' (PHead k) (first H k) ys = seg H (PHead k) (first H k) ys"
      by (rule seg_cong) (use that Cons in auto)
    with that show ?thesis by (simp add: hl_def)
  qed
  ultimately show ?thesis by blast
qed

text \<open>A segment of nodes that ends in the link \<open>e\<close>, and a chain split at a node \<open>m\<close>.\<close>

fun lseg :: "hheap \<Rightarrow> plink \<Rightarrow> link \<Rightarrow> nat list \<Rightarrow> link \<Rightarrow> bool" where
  "lseg H p l [] e \<longleftrightarrow> l = e"
| "lseg H p l (x # xs) e \<longleftrightarrow> l = Ref x \<and> pprev H x = p \<and> lseg H (PNext x) (nxt H x) xs e"

definition pp_of :: "plink \<Rightarrow> nat list \<Rightarrow> plink" where
  "pp_of p ps = (if ps = [] then p else PNext (last ps))"

lemma lseg_cong:
  "(\<And>x. x \<in> set xs \<Longrightarrow> nxt H' x = nxt H x \<and> pprev H' x = pprev H x) \<Longrightarrow> lseg H' p l xs e = lseg H p l xs e"
  by (induction xs arbitrary: p l) auto

lemma seg_split:
  "seg H p l (ps @ m # qs) \<longleftrightarrow>
    lseg H p l ps (Ref m) \<and> pprev H m = pp_of p ps \<and> seg H (PNext m) (nxt H m) qs"
  by (induction ps arbitrary: p l) (auto simp: pp_of_def)

lemma del_pointwise:
  assumes "hl H h (ps @ n # qs)"
  shows "\<exists>H'. hlist_del n H = Inr H' \<and> first H' = (if ps = [] then (first H)(h := nxt H n) else first H) \<and>
    (\<forall>x. x \<noteq> n \<longrightarrow> nxt H' x = (if ps \<noteq> [] \<and> x = last ps then nxt H n else nxt H x)) \<and>
    (\<forall>x. x \<noteq> n \<longrightarrow> pprev H' x = (if nxt H n = Ref x then pprev H n else pprev H x))"
proof -
  have "seg H (PNext n) (nxt H n) qs" "pprev H n = pp_of (PHead h) ps" using assms by (auto simp: hl_def seg_split)
  then show ?thesis
    by (cases qs; cases "ps = []")
       (auto simp: pp_of_def hlist_del_def hlist_del_raw_def Let_def store_link_def store_pprev_def)
qed

lemma del_ok:
  assumes "hl H h (ps @ n # qs)"
  shows "\<exists>H'. hlist_del n H = Inr H' \<and> hl H' h (ps @ qs) \<and>
    (\<forall>k ys. k \<noteq> h \<longrightarrow> set (ps @ n # qs) \<inter> set ys = {} \<longrightarrow> hl H k ys \<longrightarrow> hl H' k ys)"
proof -
  obtain H' where d: "hlist_del n H = Inr H'" "first H' = (if ps = [] then (first H)(h := nxt H n) else first H)"
    "\<And>x. x \<noteq> n \<Longrightarrow> nxt H' x = (if ps \<noteq> [] \<and> x = last ps then nxt H n else nxt H x)"
    "\<And>x. x \<noteq> n \<Longrightarrow> pprev H' x = (if nxt H n = Ref x then pprev H n else pprev H x)"
    using del_pointwise [OF assms] by blast
  have dist: "distinct (ps @ n # qs)" and n: "pprev H n = pp_of (PHead h) ps" "seg H (PNext n) (nxt H n) qs"
    using assms by (auto simp: hl_def seg_split)
  have lastp: "x \<noteq> last ps" if "ps \<noteq> []" "x \<notin> set ps" for x using that by auto
  have tlD: "x \<in> set qs" if "x \<in> set (tl qs)" for x using that by (cases qs) auto
  have same: "nxt H' x = nxt H x \<and> pprev H' x = pprev H x"
    if "x \<notin> set (ps @ n # qs) \<or> x \<in> set (butlast ps) \<or> x \<in> set (tl qs)" for x
  proof -
    have "x \<noteq> n" using that dist by (auto dest: in_set_butlastD tlD)
    moreover have "ps \<noteq> [] \<Longrightarrow> x \<noteq> last ps"
      using that dist lastp [of x] by (cases ps rule: rev_cases) (auto dest: tlD)
    moreover have "nxt H n \<noteq> Ref x"
      using that dist n(2) by (cases qs) (auto dest: in_set_butlastD)
    ultimately show ?thesis using d(3,4) by auto
  qed
  have tail: "seg H' (pprev H n) (nxt H n) qs"
  proof (cases qs)
    case (Cons y ys)
    have "seg H' (PNext y) (nxt H y) ys = seg H (PNext y) (nxt H y) ys" by (rule seg_cong) (use same Cons in auto)
    with Cons n(2) dist d(3,4) lastp [of y] show ?thesis by auto
  qed (use n(2) in simp)
  have "seg H' (PHead h) (first H' h) (ps @ qs)"
  proof (cases ps rule: rev_cases)
    case Nil
    with tail n(1) d(2) show ?thesis by (simp add: pp_of_def)
  next
    case (snoc ps' m)
    have "lseg H' (PHead h) (first H h) ps' (Ref m) = lseg H (PHead h) (first H h) ps' (Ref m)"
      by (rule lseg_cong) (use same snoc in auto)
    moreover have "pprev H' m = pprev H m" "nxt H' m = nxt H n"
      using snoc dist d(3,4) n(2) by (auto split: if_splits) (cases qs; auto)
    ultimately show ?thesis
      using assms tail n(1) snoc d(2) by (simp add: hl_def seg_split pp_of_def)
  qed
  then have "hl H' h (ps @ qs)" using dist by (simp add: hl_def)
  moreover have "hl H' k ys" if "k \<noteq> h" "set (ps @ n # qs) \<inter> set ys = {}" "hl H k ys" for k ys
  proof -
    have "seg H' (PHead k) (first H k) ys = seg H (PHead k) (first H k) ys"
      by (rule seg_cong) (use same that in blast)
    with that d(2) show ?thesis by (auto simp: hl_def)
  qed
  ultimately show ?thesis using d(1) by blast
qed

lemma del_remove1:
  assumes "hl H h xs" "n \<in> set xs"
  shows "\<exists>H'. hlist_del n H = Inr H' \<and> hl H' h (remove1 n xs) \<and>
    (\<forall>k ys. k \<noteq> h \<longrightarrow> set xs \<inter> set ys = {} \<longrightarrow> hl H k ys \<longrightarrow> hl H' k ys)"
proof -
  obtain ps qs where xs: "xs = ps @ n # qs" "n \<notin> set ps" using assms(2) by (metis split_list_first)
  then have "remove1 n xs = ps @ qs" by (simp add: remove1_append)
  with del_ok [of H h ps n qs] assms(1) xs(1) show ?thesis by simp
qed

interpretation hlist: chain_store hl hlist_add_head hlist_del
proof
  show "distinct xs" if "hl H h xs" for H h xs using that by (simp add: hl_def)
  show "\<exists>H'. hlist_add_head n h H = Inr H' \<and> hl H' h (n # xs)" if "hl H h xs" "n \<notin> set xs" for H h xs n
    using add_head_ok [OF that] by blast
  show "hl H' k ys" if "hl H h xs" "hl H k ys" "hlist_add_head n h H = Inr H'" "k \<noteq> h" "n \<notin> set xs" "n \<notin> set ys"
    "set xs \<inter> set ys = {}" for H h xs k ys n H'
    using add_head_ok [OF that(1,5)] that by auto
  show "\<exists>H'. hlist_del n H = Inr H' \<and> hl H' h (remove1 n xs)" if "hl H h xs" "n \<in> set xs" for H h xs n
    using del_remove1 [OF that] by blast
  show "hl H' k ys" if "hl H h xs" "n \<in> set xs" "hl H k ys" "hlist_del n H = Inr H'" "k \<noteq> h" "set xs \<inter> set ys = {}"
    for H h xs n k ys H'
    using del_remove1 [OF that(1,2)] that by auto
qed

section \<open>Walks\<close>

definition head_link :: "nat list \<Rightarrow> link" where
  "head_link xs = (case xs of [] \<Rightarrow> Null | x # _ \<Rightarrow> Ref x)"

lemma head_link_simps [simp]: "head_link [] = Null" "head_link (x # xs) = Ref x"
  by (simp_all add: head_link_def)

lemma seg_head: "seg H p l xs \<Longrightarrow> l = head_link xs"
  by (cases xs) auto

lemma hl_first: "hl H h xs \<Longrightarrow> first H h = head_link xs"
  by (auto simp: hl_def dest: seg_head)

lemma hl_nxt: "hl H h (ps @ x # xs) \<Longrightarrow> nxt H x = head_link xs"
  by (auto simp: hl_def seg_split dest: seg_head)

lemma hlist_find_seg:
  "seg H p l xs \<Longrightarrow> length xs < n \<Longrightarrow> hlist_find n P l H = Some (Inr (find P xs))"
proof (induction xs arbitrary: n p l)
  case Nil
  then show ?case by (cases n) auto
next
  case (Cons x xs)
  then show ?case by (cases n) auto
qed

lemma hlist_find_hl: "hl H h xs \<Longrightarrow> length xs < n \<Longrightarrow> hlist_find n P (first H h) H = Some (Inr (find P xs))"
  by (auto simp: hl_def intro: hlist_find_seg)

text \<open>
  A safe walk over \<open>xs\<close>: if the body keeps an invariant about the nodes seen and to come, and the
  invariant says where \<open>next\<close> of the current node points, the walk visits all of \<open>xs\<close> in order.
\<close>

lemma hlist_for_each_safe_rule:
  assumes step: "\<And>ds x rs s. I ds (x # rs) s \<Longrightarrow> nxt (hp s) x = head_link rs \<and> (\<exists>s'. body x s = Inr s' \<and> I (ds @ [x]) rs s')"
    and "I ds xs s" "length xs < n"
  shows "\<exists>s'. hlist_for_each_safe n body hp (head_link xs) s = Some (Inr s') \<and> I (ds @ xs) [] s'"
  using assms(2,3)
proof (induction xs arbitrary: ds s n)
  case Nil
  then show ?case by (cases n) auto
next
  case (Cons x xs)
  then obtain m where n: "n = Suc m" "length xs < m" by (cases n) auto
  from step [OF Cons.prems(1)] obtain s' where s: "nxt (hp s) x = head_link xs" "body x s = Inr s'" "I (ds @ [x]) xs s'" by auto
  from Cons.IH [OF s(3) n(2)] n(1) s(1,2) show ?case by auto
qed

text \<open>A walk that ended ends the same way with more fuel.\<close>

lemma hlist_find_mono: "hlist_find n P l H = Some r \<Longrightarrow> n \<le> k \<Longrightarrow> hlist_find k P l H = Some r"
proof (induction n arbitrary: k l)
  case (Suc n)
  then obtain j where k: "k = Suc j" "n \<le> j" by (cases k) auto
  then show ?case using Suc.prems(1) Suc.IH [OF _ k(2)] by (cases l) (simp_all split: if_splits)
qed simp

lemma hlist_for_each_safe_mono:
  "hlist_for_each_safe n body hp l s = Some r \<Longrightarrow> n \<le> k \<Longrightarrow> hlist_for_each_safe k body hp l s = Some r"
proof (induction n arbitrary: k l s)
  case (Suc n)
  then obtain j where k: "k = Suc j" "n \<le> j" by (cases k) auto
  show ?case
  proof (cases l)
    case (Ref a)
    with Suc.prems(1) Suc.IH [OF _ k(2)] k(1) show ?thesis by (cases "body a s") (auto simp: fbind_def)
  qed (use Suc.prems k in simp_all)
qed simp

end
