(* ===== verification/MemPool.thy ===== *)
theory MemPool
  imports Prelude
begin

text \<open>
  The buffer pools of \<open>dataplane/src/platform/mem_pool.c\<close>: pools of fixed-size slices, each slice with a
  control block in front. The two software pools (2048 and 8192 bytes) keep their free slices in four
  chains that allocations use in turn; the other two hand their slices to the hardware allocator.
  Addresses are natural numbers. A chain head is the list of the free control blocks, front first, or
  \<open>None\<close> when it was cleared but never initialised.
\<close>

section \<open>State\<close>

record mem_slice_ctrl =
  magic :: u32
  pool_id :: u16
  subpool_id :: u8
  ref :: u8

record mem_slice_chain =
  freenum :: u32
  head :: "nat list option"

record mem_pool_cfg =
  start :: nat
  totalsize :: u32
  slicesize :: u32
  slicenum :: u32
  datasize :: u32
  global_index :: u32
  msc :: "mem_slice_chain list"

text \<open>The pools, the control blocks by address, and the slices given to the hardware pools.\<close>

record mem_state =
  mem_pool :: "mem_pool_cfg list"
  ctrl :: "nat \<Rightarrow> mem_slice_ctrl"
  fpa_given :: "(nat \<times> nat) list"

definition MEM_POOL_MAGIC_NUM :: u32 where
  "MEM_POOL_MAGIC_NUM = 0xab01ab01"

definition MEM_POOL_INTERNAL_NUM :: nat where
  "MEM_POOL_INTERNAL_NUM = 4"

definition MEM_POOL_SLICE_CTRL_SIZE :: nat where
  "MEM_POOL_SLICE_CTRL_SIZE = 24"

definition MEM_POOL_CFG_SIZE :: nat where
  "MEM_POOL_CFG_SIZE = 128"

definition MEM_POOL_ID_HOST_MBUF :: nat where
  "MEM_POOL_ID_HOST_MBUF = 0"

definition MEM_POOL_ID_FLOW_NODE :: nat where
  "MEM_POOL_ID_FLOW_NODE = 1"

definition MEM_POOL_ID_SMALL_BUFFER :: nat where
  "MEM_POOL_ID_SMALL_BUFFER = 2"

definition MEM_POOL_ID_LARGE_BUFFER :: nat where
  "MEM_POOL_ID_LARGE_BUFFER = 3"

definition MEM_POOL_ID_MAX :: nat where
  "MEM_POOL_ID_MAX = 4"

definition FPA_POOL_ID_HOST_MBUF :: nat where
  "FPA_POOL_ID_HOST_MBUF = 6"

definition FPA_POOL_ID_FLOW_NODE :: nat where
  "FPA_POOL_ID_FLOW_NODE = 7"

definition MEM_POOL_HOST_MBUF_SIZE :: u32 where
  "MEM_POOL_HOST_MBUF_SIZE = 256"

definition MEM_POOL_FLOW_NODE_SIZE :: u32 where
  "MEM_POOL_FLOW_NODE_SIZE = 256"

definition MEM_POOL_SMALL_BUFFER_SIZE :: u32 where
  "MEM_POOL_SMALL_BUFFER_SIZE = 2048"

definition MEM_POOL_LARGE_BUFFER_SIZE :: u32 where
  "MEM_POOL_LARGE_BUFFER_SIZE = 8192"

definition MEM_POOL_HOST_MBUF_NUM :: u32 where
  "MEM_POOL_HOST_MBUF_NUM = 3000"

definition MEM_POOL_FLOW_NODE_NUM :: u32 where
  "MEM_POOL_FLOW_NODE_NUM = 100000"

definition MEM_POOL_SMALL_BUFFER_NUM :: u32 where
  "MEM_POOL_SMALL_BUFFER_NUM = 1000"

definition MEM_POOL_LARGE_BUFFER_NUM :: u32 where
  "MEM_POOL_LARGE_BUFFER_NUM = 256"

definition SEC_OK :: int where
  "SEC_OK = 0"

definition SEC_NO :: int where
  "SEC_NO = 1"

lemmas mem_consts = MEM_POOL_MAGIC_NUM_def MEM_POOL_INTERNAL_NUM_def MEM_POOL_SLICE_CTRL_SIZE_def
  MEM_POOL_ID_HOST_MBUF_def MEM_POOL_ID_FLOW_NODE_def MEM_POOL_ID_SMALL_BUFFER_def MEM_POOL_ID_LARGE_BUFFER_def
  MEM_POOL_ID_MAX_def

section \<open>Allocation and release\<close>

definition set_chain :: "nat \<Rightarrow> nat \<Rightarrow> mem_slice_chain \<Rightarrow> mem_state \<Rightarrow> mem_state" where
  "set_chain p i ch st =
     st\<lparr>mem_pool := (mem_pool st)[p := (mem_pool st ! p)\<lparr>msc := (msc (mem_pool st ! p))[i := ch]\<rparr>]\<rparr>"

text \<open>The result is the buffer, \<open>None\<close> for \<open>NULL\<close>, with the state after the call.\<close>

definition mem_pool_alloc :: "nat \<Rightarrow> u32 \<Rightarrow> mem_state \<Rightarrow> (nat option \<times> mem_state) res" where
  "mem_pool_alloc pid alloc_size st =
     (if pid = MEM_POOL_ID_SMALL_BUFFER \<or> pid = MEM_POOL_ID_LARGE_BUFFER then
        (let mp = mem_pool st ! pid in
         if alloc_size > datasize mp then Inr (None, st)
         else
           let index = unat (global_index mp AND 3);
               st1 = st\<lparr>mem_pool := (mem_pool st)[pid := mp\<lparr>global_index := global_index mp + 1\<rparr>]\<rparr>;
               chain = msc mp ! index
           in case head chain of
                None \<Rightarrow> Inl NullDeref
              | Some [] \<Rightarrow> Inr (None, st1)
              | Some (l # ls) \<Rightarrow>
                  let st2 = set_chain pid index \<lparr>freenum = freenum chain - 1, head = Some ls\<rparr> st1 in
                  if ref (ctrl st2 l) \<noteq> 0 then Inr (None, st2)
                  else Inr (Some (l + MEM_POOL_SLICE_CTRL_SIZE),
                            st2\<lparr>ctrl := (ctrl st2)(l := (ctrl st2 l)\<lparr>ref := 1\<rparr>)\<rparr>))
      else Inr (None, st))"

definition mem_pool_free :: "nat \<Rightarrow> mem_state \<Rightarrow> mem_state res" where
  "mem_pool_free buf st =
     (let mscb = buf - MEM_POOL_SLICE_CTRL_SIZE; c = ctrl st mscb in
      if magic c \<noteq> MEM_POOL_MAGIC_NUM then Inr st
      else if unat (pool_id c) \<ge> MEM_POOL_ID_MAX then Inr st
      else if unat (subpool_id c) \<ge> MEM_POOL_INTERNAL_NUM then Inr st
      else if ref c \<noteq> 1 then Inr st
      else
        let st1 = st\<lparr>ctrl := (ctrl st)(mscb := c\<lparr>ref := 0\<rparr>)\<rparr>;
            p = unat (pool_id c); i = unat (subpool_id c);
            chain = msc (mem_pool st1 ! p) ! i
        in case head chain of
             None \<Rightarrow> Inl NullDeref
           | Some ls \<Rightarrow> Inr (set_chain p i \<lparr>freenum = freenum chain + 1, head = Some (mscb # ls)\<rparr> st1))"

section \<open>Initialisation\<close>

text \<open>The inner loop of \<open>mem_pool_sw_slice_inject\<close>: \<open>n\<close> slices from \<open>addr\<close> on go to the front of chain \<open>i\<close>.\<close>

fun inject_chain :: "nat \<Rightarrow> nat \<Rightarrow> nat \<Rightarrow> nat \<Rightarrow> nat \<Rightarrow> nat list \<times> (nat \<Rightarrow> mem_slice_ctrl) \<Rightarrow> nat list \<times> (nat \<Rightarrow> mem_slice_ctrl)" where
  "inject_chain pid i sz 0 addr lc = lc"
| "inject_chain pid i sz (Suc n) addr (ls, c) =
     inject_chain pid i sz n (addr + sz)
       (addr # ls, c(addr := (c addr)\<lparr>magic := MEM_POOL_MAGIC_NUM, pool_id := of_nat pid, subpool_id := of_nat i\<rparr>))"

fun inject_chains :: "nat \<Rightarrow> nat list \<Rightarrow> nat \<Rightarrow> nat \<Rightarrow> nat \<Rightarrow> mem_state \<Rightarrow> mem_state" where
  "inject_chains pid [] sz n addr st = st"
| "inject_chains pid (i # is) sz n addr st =
     (case inject_chain pid i sz n addr ([], ctrl st) of
        (ls, c) \<Rightarrow> inject_chains pid is sz n (addr + n * sz)
                     (set_chain pid i \<lparr>freenum = of_nat n, head = Some ls\<rparr> (st\<lparr>ctrl := c\<rparr>)))"

definition mem_pool_sw_slice_inject :: "nat \<Rightarrow> mem_state \<Rightarrow> int \<times> mem_state" where
  "mem_pool_sw_slice_inject pid st =
     (let mpc = mem_pool st ! pid in
      if unat (slicenum mpc) mod MEM_POOL_INTERNAL_NUM \<noteq> 0 then (SEC_NO, st)
      else (SEC_OK, inject_chains pid [0..<MEM_POOL_INTERNAL_NUM] (unat (slicesize mpc))
                      (unat (slicenum mpc) div MEM_POOL_INTERNAL_NUM) (start mpc) st))"

definition mem_pool_fpa_slice_inject :: "nat \<Rightarrow> mem_state \<Rightarrow> int \<times> mem_state" where
  "mem_pool_fpa_slice_inject pid st =
     (let give = (\<lambda>fpa. map (\<lambda>i. (start (mem_pool st ! pid) + i * unat (slicesize (mem_pool st ! pid)), fpa))
                     [0..<unat (slicenum (mem_pool st ! pid))]) in
      if pid = MEM_POOL_ID_HOST_MBUF then (SEC_OK, st\<lparr>fpa_given := fpa_given st @ give FPA_POOL_ID_HOST_MBUF\<rparr>)
      else if pid = MEM_POOL_ID_FLOW_NODE then (SEC_OK, st\<lparr>fpa_given := fpa_given st @ give FPA_POOL_ID_FLOW_NODE\<rparr>)
      else (SEC_NO, st))"

definition new_cfg :: "nat \<Rightarrow> u32 \<Rightarrow> u32 \<Rightarrow> u32 \<Rightarrow> mem_pool_cfg" where
  "new_cfg base sz num data =
     \<lparr>start = base + MEM_POOL_CFG_SIZE, totalsize = num * sz, slicesize = sz, slicenum = num, datasize = data,
      global_index = 0, msc = replicate MEM_POOL_INTERNAL_NUM \<lparr>freenum = 0, head = None\<rparr>\<rparr>"

text \<open>
  \<open>Mem_Pool_Init\<close>: \<open>blocks\<close> are the four results of \<open>cvmx_bootmem_alloc_named\<close>, \<open>None\<close> for \<open>NULL\<close>. Every
  pool is cleared, described, published in \<open>mem_pool\<close> and filled.
\<close>

definition init_pool ::
  "nat \<Rightarrow> nat option \<Rightarrow> u32 \<Rightarrow> u32 \<Rightarrow> u32 \<Rightarrow> (nat \<Rightarrow> mem_state \<Rightarrow> int \<times> mem_state) \<Rightarrow> int \<times> mem_state \<Rightarrow> int \<times> mem_state" where
  "init_pool pid block sz num data inject r =
     (case r of (ret, st) \<Rightarrow>
        if ret = SEC_NO then (ret, st)
        else case block of
          None \<Rightarrow> (SEC_NO, st)
        | Some base \<Rightarrow> inject pid (st\<lparr>mem_pool := (mem_pool st)[pid := new_cfg base sz num data]\<rparr>))"

definition Mem_Pool_Init :: "nat option list \<Rightarrow> mem_state \<Rightarrow> int \<times> mem_state" where
  "Mem_Pool_Init blocks st =
     init_pool MEM_POOL_ID_LARGE_BUFFER (blocks ! 3) MEM_POOL_LARGE_BUFFER_SIZE MEM_POOL_LARGE_BUFFER_NUM
       (MEM_POOL_LARGE_BUFFER_SIZE - of_nat MEM_POOL_SLICE_CTRL_SIZE) mem_pool_sw_slice_inject
     (init_pool MEM_POOL_ID_SMALL_BUFFER (blocks ! 2) MEM_POOL_SMALL_BUFFER_SIZE MEM_POOL_SMALL_BUFFER_NUM
       (MEM_POOL_SMALL_BUFFER_SIZE - of_nat MEM_POOL_SLICE_CTRL_SIZE) mem_pool_sw_slice_inject
     (init_pool MEM_POOL_ID_FLOW_NODE (blocks ! 1) MEM_POOL_FLOW_NODE_SIZE MEM_POOL_FLOW_NODE_NUM 0 mem_pool_fpa_slice_inject
     (init_pool MEM_POOL_ID_HOST_MBUF (blocks ! 0) MEM_POOL_HOST_MBUF_SIZE MEM_POOL_HOST_MBUF_NUM 0 mem_pool_fpa_slice_inject
     (SEC_OK, st))))"

section \<open>The contract of a buffer pool\<close>

text \<open>
  What the users of a pool rely on: an allocation returns a free buffer or nothing, a release makes
  the buffer free, and neither touches the other buffers. Buffers are named by their control block.
\<close>

locale buffer_pool =
  fixes inv :: "'s \<Rightarrow> bool"
    and blocks :: "'s \<Rightarrow> nat set"
    and free :: "'s \<Rightarrow> nat set"
    and alloc :: "u32 \<Rightarrow> 's \<Rightarrow> (nat option \<times> 's) res"
    and release :: "nat \<Rightarrow> 's \<Rightarrow> 's res"
  assumes free_blocks: "inv s \<Longrightarrow> free s \<subseteq> blocks s"
    and alloc_total: "inv s \<Longrightarrow> \<exists>r s'. alloc n s = Inr (r, s')"
    and alloc_inv: "inv s \<Longrightarrow> alloc n s = Inr (r, s') \<Longrightarrow> inv s' \<and> blocks s' = blocks s"
    and alloc_None: "inv s \<Longrightarrow> alloc n s = Inr (None, s') \<Longrightarrow> free s' = free s"
    and alloc_Some: "inv s \<Longrightarrow> alloc n s = Inr (Some b, s') \<Longrightarrow> b - MEM_POOL_SLICE_CTRL_SIZE \<in> free s \<and>
      MEM_POOL_SLICE_CTRL_SIZE \<le> b \<and> free s' = free s - {b - MEM_POOL_SLICE_CTRL_SIZE}"
    and release_ok: "inv s \<Longrightarrow> a \<in> blocks s \<Longrightarrow>
      \<exists>s'. release (a + MEM_POOL_SLICE_CTRL_SIZE) s = Inr s' \<and> inv s' \<and> blocks s' = blocks s \<and> free s' = insert a (free s)"
begin

text \<open>Two buffers allocated one after the other are different, also across allocations that fail.\<close>

lemma alloc_distinct:
  assumes "inv s" "alloc m s = Inr (Some b, s1)" "alloc n s1 = Inr (Some c, s2)"
  shows "b \<noteq> c"
  using alloc_Some [OF assms(1,2)] alloc_Some [OF conjunct1 [OF alloc_inv [OF assms(1,2)]] assms(3)] by auto

text \<open>Giving an allocated buffer back restores the free set.\<close>

lemma alloc_release:
  assumes "inv s" "alloc n s = Inr (Some b, s1)"
  shows "\<exists>s2. release b s1 = Inr s2 \<and> inv s2 \<and> blocks s2 = blocks s \<and> free s2 = free s"
proof -
  note a = alloc_Some [OF assms] and i = alloc_inv [OF assms]
  have "b - MEM_POOL_SLICE_CTRL_SIZE \<in> blocks s1" using a i free_blocks [OF assms(1)] by auto
  from release_ok [OF conjunct1 [OF i] this] a i show ?thesis by auto
qed

lemma release_release:
  assumes "inv s" "a \<in> blocks s" "release (a + MEM_POOL_SLICE_CTRL_SIZE) s = Inr s1"
  shows "\<exists>s2. release (a + MEM_POOL_SLICE_CTRL_SIZE) s1 = Inr s2 \<and> free s2 = free s1"
proof -
  have s1: "inv s1" "a \<in> blocks s1" "a \<in> free s1" using release_ok [OF assms(1,2)] assms(2,3) by auto
  from release_ok [OF s1(1,2)] s1(3) show ?thesis by auto
qed

end

section \<open>Invariant of a software pool\<close>

definition slices :: "mem_pool_cfg \<Rightarrow> nat set" where
  "slices mp = (\<lambda>k. start mp + k * unat (slicesize mp)) ` {..<unat (slicenum mp)}"

definition chain_of :: "nat \<Rightarrow> mem_state \<Rightarrow> nat \<Rightarrow> nat list" where
  "chain_of p st i = (case head (msc (mem_pool st ! p) ! i) of None \<Rightarrow> [] | Some ls \<Rightarrow> ls)"

definition free_set :: "nat \<Rightarrow> mem_state \<Rightarrow> nat set" where
  "free_set p st = (\<Union>i < MEM_POOL_INTERNAL_NUM. set (chain_of p st i))"

definition pool_slices :: "nat \<Rightarrow> mem_state \<Rightarrow> nat set" where
  "pool_slices p st = slices (mem_pool st ! p)"

text \<open>
  Every slice has an intact control block; it is in the chain its control block names, once and with
  reference count 0, or in no chain, with reference count 1.
\<close>

definition pool_inv :: "nat \<Rightarrow> mem_state \<Rightarrow> bool" where
  "pool_inv p st \<longleftrightarrow> length (msc (mem_pool st ! p)) = MEM_POOL_INTERNAL_NUM \<and>
     (\<forall>i < MEM_POOL_INTERNAL_NUM. msc (mem_pool st ! p) ! i =
        \<lparr>freenum = of_nat (length (chain_of p st i)), head = Some (chain_of p st i)\<rparr> \<and> distinct (chain_of p st i)) \<and>
     free_set p st \<subseteq> pool_slices p st \<and>
     (\<forall>i < MEM_POOL_INTERNAL_NUM. \<forall>a \<in> set (chain_of p st i). unat (subpool_id (ctrl st a)) = i) \<and>
     (\<forall>a \<in> pool_slices p st. magic (ctrl st a) = MEM_POOL_MAGIC_NUM \<and> unat (pool_id (ctrl st a)) = p \<and>
        unat (subpool_id (ctrl st a)) < MEM_POOL_INTERNAL_NUM \<and> ref (ctrl st a) = (if a \<in> free_set p st then 0 else 1))"

text \<open>The data part of a slice lies behind its control block and inside the slice.\<close>

definition pool_fits :: "nat \<Rightarrow> mem_state \<Rightarrow> bool" where
  "pool_fits p st \<longleftrightarrow> unat (datasize (mem_pool st ! p)) + MEM_POOL_SLICE_CTRL_SIZE \<le> unat (slicesize (mem_pool st ! p))"

definition mem_inv :: "mem_state \<Rightarrow> bool" where
  "mem_inv st \<longleftrightarrow> length (mem_pool st) = MEM_POOL_ID_MAX \<and>
     pool_fits MEM_POOL_ID_SMALL_BUFFER st \<and> pool_fits MEM_POOL_ID_LARGE_BUFFER st \<and>
     pool_inv MEM_POOL_ID_SMALL_BUFFER st \<and> pool_inv MEM_POOL_ID_LARGE_BUFFER st \<and>
     pool_slices MEM_POOL_ID_SMALL_BUFFER st \<inter> pool_slices MEM_POOL_ID_LARGE_BUFFER st = {}"

lemma pool_invD:
  assumes "pool_inv p st" "i < MEM_POOL_INTERNAL_NUM"
  shows "msc (mem_pool st ! p) ! i = \<lparr>freenum = of_nat (length (chain_of p st i)), head = Some (chain_of p st i)\<rparr>"
    "distinct (chain_of p st i)" "set (chain_of p st i) \<subseteq> free_set p st"
    "a \<in> set (chain_of p st i) \<Longrightarrow> unat (subpool_id (ctrl st a)) = i"
  using assms by (auto simp: pool_inv_def free_set_def)

lemma pool_invI:
  assumes "length (msc (mem_pool st ! p)) = MEM_POOL_INTERNAL_NUM"
    and "\<And>i. i < MEM_POOL_INTERNAL_NUM \<Longrightarrow>
      msc (mem_pool st ! p) ! i = \<lparr>freenum = of_nat (length (chain_of p st i)), head = Some (chain_of p st i)\<rparr>"
    and "\<And>i. i < MEM_POOL_INTERNAL_NUM \<Longrightarrow> distinct (chain_of p st i)"
    and "\<And>i a. i < MEM_POOL_INTERNAL_NUM \<Longrightarrow> a \<in> set (chain_of p st i) \<Longrightarrow> unat (subpool_id (ctrl st a)) = i"
    and "\<And>a. a \<in> pool_slices p st \<Longrightarrow> magic (ctrl st a) = MEM_POOL_MAGIC_NUM \<and> unat (pool_id (ctrl st a)) = p \<and>
      unat (subpool_id (ctrl st a)) < MEM_POOL_INTERNAL_NUM \<and> ref (ctrl st a) = (if a \<in> free_set p st then 0 else 1)"
    and "free_set p st \<subseteq> pool_slices p st"
  shows "pool_inv p st"
  using assms by (auto simp: pool_inv_def)

lemma pool_inv_slice:
  assumes "pool_inv p st" "a \<in> pool_slices p st"
  shows "magic (ctrl st a) = MEM_POOL_MAGIC_NUM" "unat (pool_id (ctrl st a)) = p"
    "unat (subpool_id (ctrl st a)) < MEM_POOL_INTERNAL_NUM" "ref (ctrl st a) = (if a \<in> free_set p st then 0 else 1)"
  using assms by (auto simp: pool_inv_def)

lemma pool_frame:
  assumes "mem_pool st' ! q = mem_pool st ! q" "\<And>a. a \<in> pool_slices q st \<Longrightarrow> ctrl st' a = ctrl st a"
  shows "pool_slices q st' = pool_slices q st" "chain_of q st' = chain_of q st" "free_set q st' = free_set q st"
    "pool_inv q st \<Longrightarrow> pool_inv q st'"
proof -
  show sl: "pool_slices q st' = pool_slices q st" by (simp add: pool_slices_def assms(1))
  show ch: "chain_of q st' = chain_of q st" by (simp add: chain_of_def assms(1) fun_eq_iff)
  then show fs: "free_set q st' = free_set q st" by (simp add: free_set_def)
  assume inv: "pool_inv q st"
  have "ctrl st' a = ctrl st a" if "i < MEM_POOL_INTERNAL_NUM" "a \<in> set (chain_of q st i)" for a i
    using inv that by (intro assms(2)) (auto simp: pool_inv_def free_set_def)
  with inv assms sl ch fs show "pool_inv q st'" by (simp add: pool_inv_def)
qed

lemma set_chain_simps [simp]:
  "ctrl (set_chain p i ch st) = ctrl st" "length (mem_pool (set_chain p i ch st)) = length (mem_pool st)"
  "q \<noteq> p \<Longrightarrow> mem_pool (set_chain p i ch st) ! q = mem_pool st ! q"
  by (simp_all add: set_chain_def)

lemma set_chain_pool:
  assumes "p < length (mem_pool st)" "i < length (msc (mem_pool st ! p))"
  shows "pool_slices p (set_chain p i ch st) = pool_slices p st"
    "length (msc (mem_pool (set_chain p i ch st) ! p)) = length (msc (mem_pool st ! p))"
    "msc (mem_pool (set_chain p i ch st) ! p) ! j = (if j = i then ch else msc (mem_pool st ! p) ! j)"
    "chain_of p (set_chain p i ch st) j = (if j = i then case head ch of None \<Rightarrow> [] | Some ls \<Rightarrow> ls else chain_of p st j)"
  using assms by (auto simp: set_chain_def pool_slices_def slices_def chain_of_def nth_list_update)

definition bump :: "nat \<Rightarrow> mem_state \<Rightarrow> mem_state" where
  "bump p st = st\<lparr>mem_pool := (mem_pool st)[p := (mem_pool st ! p)\<lparr>global_index := global_index (mem_pool st ! p) + 1\<rparr>]\<rparr>"

lemma bump_simps [simp]:
  "ctrl (bump p st) = ctrl st" "length (mem_pool (bump p st)) = length (mem_pool st)"
  "q \<noteq> p \<Longrightarrow> mem_pool (bump p st) ! q = mem_pool st ! q"
  "msc (mem_pool (bump p st) ! p) = msc (mem_pool st ! p)" "pool_slices p (bump p st) = pool_slices p st"
  "chain_of p (bump p st) = chain_of p st" "free_set p (bump p st) = free_set p st"
proof -
  show m: "msc (mem_pool (bump p st) ! p) = msc (mem_pool st ! p)"
    by (cases "p < length (mem_pool st)") (simp_all add: bump_def list_update_beyond)
  show "pool_slices p (bump p st) = pool_slices p st"
    by (cases "p < length (mem_pool st)") (simp_all add: bump_def pool_slices_def slices_def list_update_beyond)
  show c: "chain_of p (bump p st) = chain_of p st" by (simp add: chain_of_def m fun_eq_iff)
  show "free_set p (bump p st) = free_set p st" by (simp add: free_set_def c)
qed (simp_all add: bump_def)

lemma pool_inv_bump: "pool_inv p (bump p st) = pool_inv p st"
  by (simp add: pool_inv_def)

text \<open>The chain an allocation looks at.\<close>

definition turn :: "nat \<Rightarrow> mem_state \<Rightarrow> nat" where
  "turn p st = unat (global_index (mem_pool st ! p) AND 3)"

lemma turn_less: "turn p st < MEM_POOL_INTERNAL_NUM"
proof -
  have "global_index (mem_pool st ! p) AND 3 \<le> 3" by (rule word_and_le1)
  then have "unat (global_index (mem_pool st ! p) AND 3) \<le> 3" by (simp add: word_le_nat_alt)
  then show ?thesis by (simp add: turn_def MEM_POOL_INTERNAL_NUM_def)
qed

definition take_front :: "nat \<Rightarrow> nat \<Rightarrow> nat \<Rightarrow> nat list \<Rightarrow> mem_state \<Rightarrow> mem_state" where
  "take_front p i l ls st =
     (let st2 = set_chain p i \<lparr>freenum = of_nat (length ls), head = Some ls\<rparr> (bump p st)
      in st2\<lparr>ctrl := (ctrl st2)(l := (ctrl st2 l)\<lparr>ref := 1\<rparr>)\<rparr>)"

definition sw_pool :: "nat \<Rightarrow> bool" where
  "sw_pool p \<longleftrightarrow> p = MEM_POOL_ID_SMALL_BUFFER \<or> p = MEM_POOL_ID_LARGE_BUFFER"

lemma mem_pool_alloc_eq:
  assumes "pool_inv p st" "sw_pool p"
  shows "mem_pool_alloc p n st = Inr
    (if n > datasize (mem_pool st ! p) then (None, st)
     else case chain_of p st (turn p st) of
       [] \<Rightarrow> (None, bump p st)
     | l # ls \<Rightarrow> (Some (l + MEM_POOL_SLICE_CTRL_SIZE), take_front p (turn p st) l ls st))"
proof (cases "chain_of p st (turn p st)")
  case Nil
  with assms(2) pool_invD(1) [OF assms(1) turn_less] show ?thesis
    by (auto simp: mem_pool_alloc_def sw_pool_def Let_def turn_def bump_def)
next
  case (Cons l ls)
  have "l \<in> free_set p st" using pool_invD(3) [OF assms(1) turn_less [of p st]] Cons by auto
  moreover have "l \<in> pool_slices p st" using calculation assms(1) by (auto simp: pool_inv_def)
  ultimately have "ref (ctrl st l) = 0" using pool_inv_slice(4) [OF assms(1)] by simp
  with Cons assms(2) pool_invD(1) [OF assms(1) turn_less] show ?thesis
    by (auto simp: mem_pool_alloc_def sw_pool_def Let_def turn_def bump_def take_front_def)
qed

lemma pool_inv_length: "pool_inv p st \<Longrightarrow> length (msc (mem_pool st ! p)) = MEM_POOL_INTERNAL_NUM"
  by (simp add: pool_inv_def)

lemma pool_inv_free: "pool_inv p st \<Longrightarrow> a \<in> free_set p st \<Longrightarrow> a \<in> pool_slices p st"
  by (auto simp: pool_inv_def)

lemma free_chain:
  assumes "pool_inv p st"
  shows "a \<in> free_set p st \<longleftrightarrow> a \<in> pool_slices p st \<and> a \<in> set (chain_of p st (unat (subpool_id (ctrl st a))))"
proof
  assume "a \<in> free_set p st"
  then obtain i where "i < MEM_POOL_INTERNAL_NUM" "a \<in> set (chain_of p st i)" by (auto simp: free_set_def)
  with pool_invD(4) [OF assms] pool_inv_free [OF assms \<open>a \<in> free_set p st\<close>]
  show "a \<in> pool_slices p st \<and> a \<in> set (chain_of p st (unat (subpool_id (ctrl st a))))" by metis
next
  assume "a \<in> pool_slices p st \<and> a \<in> set (chain_of p st (unat (subpool_id (ctrl st a))))"
  with pool_inv_slice(3) [OF assms] show "a \<in> free_set p st" by (auto simp: free_set_def)
qed

lemma take_front_pool:
  assumes inv: "pool_inv p st" and p: "p < length (mem_pool st)" and i: "i < MEM_POOL_INTERNAL_NUM"
    and ch: "chain_of p st i = l # ls"
  shows "pool_slices p (take_front p i l ls st) = pool_slices p st"
    "chain_of p (take_front p i l ls st) j = (if j = i then ls else chain_of p st j)"
    "free_set p (take_front p i l ls st) = free_set p st - {l}"
    "ctrl (take_front p i l ls st) = (ctrl st)(l := (ctrl st l)\<lparr>ref := 1\<rparr>)"
    "pool_inv p (take_front p i l ls st)"
proof -
  let ?st' = "take_front p i l ls st"
  have len: "i < length (msc (mem_pool (bump p st) ! p))" "p < length (mem_pool (bump p st))"
    using pool_inv_length [OF inv] i p by simp_all
  note sc = set_chain_pool [OF len(2,1)]
  show sl: "pool_slices p ?st' = pool_slices p st"
    using sc(1) bump_simps(5) [of p st] by (simp add: take_front_def Let_def pool_slices_def)
  have co: "chain_of p ?st' j = (if j = i then ls else chain_of p st j)" for j
    using sc(4) [of "\<lparr>freenum = of_nat (length ls), head = Some ls\<rparr>" j]
    by (simp add: take_front_def Let_def chain_of_def)
  then show "chain_of p ?st' j = (if j = i then ls else chain_of p st j)" .
  show ct: "ctrl ?st' = (ctrl st)(l := (ctrl st l)\<lparr>ref := 1\<rparr>)" by (simp add: take_front_def Let_def)
  have l1: "l \<notin> set ls" and li: "unat (subpool_id (ctrl st l)) = i"
    using pool_invD(2) [OF inv i] pool_invD(4) [OF inv i, of l] ch by auto
  have l2: "j = i" if "j < MEM_POOL_INTERNAL_NUM" "l \<in> set (chain_of p st j)" for j
    using pool_invD(4) [OF inv that] li by simp
  show fs: "free_set p ?st' = free_set p st - {l}"
  proof
    show "free_set p ?st' \<subseteq> free_set p st - {l}" using l1 ch i by (auto simp: free_set_def co dest: l2 split: if_splits)
    show "free_set p st - {l} \<subseteq> free_set p ?st'"
    proof
      fix x assume "x \<in> free_set p st - {l}"
      then obtain j where "j < MEM_POOL_INTERNAL_NUM" "x \<in> set (chain_of p st j)" "x \<noteq> l" by (auto simp: free_set_def)
      with ch have "x \<in> set (chain_of p ?st' j)" by (auto simp: co)
      with \<open>j < MEM_POOL_INTERNAL_NUM\<close> show "x \<in> free_set p ?st'" by (auto simp: free_set_def)
    qed
  qed
  have ms: "msc (mem_pool ?st' ! p) ! j = (if j = i then \<lparr>freenum = of_nat (length ls), head = Some ls\<rparr> else msc (mem_pool st ! p) ! j)" for j
    using sc(3) [of _ j] by (simp add: take_front_def Let_def)
  have "length (msc (mem_pool ?st' ! p)) = MEM_POOL_INTERNAL_NUM"
    using sc(2) pool_inv_length [OF inv] by (simp add: take_front_def Let_def)
  then show "pool_inv p ?st'"
  proof (rule pool_invI)
    fix j assume j: "j < MEM_POOL_INTERNAL_NUM"
    show "msc (mem_pool ?st' ! p) ! j = \<lparr>freenum = of_nat (length (chain_of p ?st' j)), head = Some (chain_of p ?st' j)\<rparr>"
      using pool_invD(1) [OF inv j] by (simp add: ms co)
    show "distinct (chain_of p ?st' j)" using pool_invD(2) [OF inv j] ch by (auto simp: co)
    show "unat (subpool_id (ctrl ?st' b)) = j" if "b \<in> set (chain_of p ?st' j)" for b
      using pool_invD(4) [OF inv j, of b] that ch by (auto simp: co ct split: if_splits)
  next
    fix b assume "b \<in> pool_slices p ?st'"
    with pool_inv_slice [OF inv, of b] show "magic (ctrl ?st' b) = MEM_POOL_MAGIC_NUM \<and> unat (pool_id (ctrl ?st' b)) = p \<and>
        unat (subpool_id (ctrl ?st' b)) < MEM_POOL_INTERNAL_NUM \<and> ref (ctrl ?st' b) = (if b \<in> free_set p ?st' then 0 else 1)"
      by (auto simp: sl fs ct)
  qed (use inv in \<open>auto simp: sl fs pool_inv_free\<close>)
qed

definition put_back :: "nat \<Rightarrow> nat \<Rightarrow> nat \<Rightarrow> mem_state \<Rightarrow> mem_state" where
  "put_back p i a st =
     set_chain p i \<lparr>freenum = of_nat (length (a # chain_of p st i)), head = Some (a # chain_of p st i)\<rparr>
       (st\<lparr>ctrl := (ctrl st)(a := (ctrl st a)\<lparr>ref := 0\<rparr>)\<rparr>)"

lemma mem_pool_free_eq:
  assumes inv: "pool_inv p st" "p < MEM_POOL_ID_MAX" and a: "a \<in> pool_slices p st"
  shows "mem_pool_free (a + MEM_POOL_SLICE_CTRL_SIZE) st = Inr
    (if a \<in> free_set p st then st else put_back p (unat (subpool_id (ctrl st a))) a st)"
  using pool_inv_slice [OF inv(1) a] pool_invD(1) [OF inv(1) pool_inv_slice(3) [OF inv(1) a]] inv(2)
  by (simp add: mem_pool_free_def Let_def put_back_def add.commute)

lemma put_back_pool:
  assumes inv: "pool_inv p st" and p: "p < length (mem_pool st)" and a: "a \<in> pool_slices p st" "a \<notin> free_set p st"
    and i: "i = unat (subpool_id (ctrl st a))"
  shows "pool_slices p (put_back p i a st) = pool_slices p st"
    "chain_of p (put_back p i a st) j = (if j = i then a # chain_of p st i else chain_of p st j)"
    "free_set p (put_back p i a st) = insert a (free_set p st)"
    "ctrl (put_back p i a st) = (ctrl st)(a := (ctrl st a)\<lparr>ref := 0\<rparr>)"
    "pool_inv p (put_back p i a st)"
proof -
  let ?st' = "put_back p i a st"
  let ?st1 = "st\<lparr>ctrl := (ctrl st)(a := (ctrl st a)\<lparr>ref := 0\<rparr>)\<rparr>"
  have i4: "i < MEM_POOL_INTERNAL_NUM" using pool_inv_slice(3) [OF inv a(1)] i by simp
  then have len: "i < length (msc (mem_pool ?st1 ! p))" "p < length (mem_pool ?st1)"
    using pool_inv_length [OF inv] p by simp_all
  note sc = set_chain_pool [OF len(2,1)]
  show sl: "pool_slices p ?st' = pool_slices p st"
    using sc(1) by (simp add: put_back_def pool_slices_def)
  have co: "chain_of p ?st' j = (if j = i then a # chain_of p st i else chain_of p st j)" for j
    using sc(4) [of _ j] by (simp add: put_back_def) (simp add: chain_of_def)
  then show "chain_of p ?st' j = (if j = i then a # chain_of p st i else chain_of p st j)" .
  show ct: "ctrl ?st' = (ctrl st)(a := (ctrl st a)\<lparr>ref := 0\<rparr>)" by (simp add: put_back_def)
  show fs: "free_set p ?st' = insert a (free_set p st)"
    using i4 by (auto simp: free_set_def co split: if_splits)
  have nch: "a \<notin> set (chain_of p st j)" if "j < MEM_POOL_INTERNAL_NUM" for j
    using a(2) that by (auto simp: free_set_def)
  have ms: "msc (mem_pool ?st' ! p) ! j = (if j = i then \<lparr>freenum = of_nat (length (a # chain_of p st i)), head = Some (a # chain_of p st i)\<rparr>
      else msc (mem_pool st ! p) ! j)" for j
    using sc(3) [of _ j] by (simp add: put_back_def)
  have "length (msc (mem_pool ?st' ! p)) = MEM_POOL_INTERNAL_NUM"
    using sc(2) pool_inv_length [OF inv] by (simp add: put_back_def)
  then show "pool_inv p ?st'"
  proof (rule pool_invI)
    fix j assume j: "j < MEM_POOL_INTERNAL_NUM"
    show "msc (mem_pool ?st' ! p) ! j = \<lparr>freenum = of_nat (length (chain_of p ?st' j)), head = Some (chain_of p ?st' j)\<rparr>"
      using pool_invD(1) [OF inv j] by (simp add: ms co)
    show "distinct (chain_of p ?st' j)" using pool_invD(2) [OF inv j] nch [OF j] by (auto simp: co)
    show "unat (subpool_id (ctrl ?st' b)) = j" if "b \<in> set (chain_of p ?st' j)" for b
      using pool_invD(4) [OF inv j, of b] that i [symmetric] by (cases "b = a") (simp_all add: co ct split: if_splits)
  next
    fix b assume "b \<in> pool_slices p ?st'"
    with pool_inv_slice [OF inv, of b] show "magic (ctrl ?st' b) = MEM_POOL_MAGIC_NUM \<and> unat (pool_id (ctrl ?st' b)) = p \<and>
        unat (subpool_id (ctrl ?st' b)) < MEM_POOL_INTERNAL_NUM \<and> ref (ctrl ?st' b) = (if b \<in> free_set p ?st' then 0 else 1)"
      by (auto simp: sl fs ct)
  qed (use inv a(1) in \<open>auto simp: sl fs pool_inv_free\<close>)
qed

lemma other_pool [simp]:
  "length (mem_pool (put_back p i a st)) = length (mem_pool st)"
  "q \<noteq> p \<Longrightarrow> mem_pool (put_back p i a st) ! q = mem_pool st ! q"
  "length (mem_pool (take_front p i a ls st)) = length (mem_pool st)"
  "q \<noteq> p \<Longrightarrow> mem_pool (take_front p i a ls st) ! q = mem_pool st ! q"
  "pool_fits p (put_back p i a st) = pool_fits p st"
  "pool_fits p (take_front p i a ls st) = pool_fits p st" "pool_fits p (bump p st) = pool_fits p st"
  by (cases "p < length (mem_pool st)";
      simp add: put_back_def take_front_def Let_def pool_fits_def set_chain_def bump_def list_update_beyond)+

lemma sw_pool_less: "sw_pool p \<Longrightarrow> p < MEM_POOL_ID_MAX"
  by (auto simp: sw_pool_def mem_consts)

lemma mem_invD:
  assumes "mem_inv st" "sw_pool p"
  shows "pool_inv p st" "p < length (mem_pool st)" "pool_fits p st"
    "sw_pool q \<Longrightarrow> q \<noteq> p \<Longrightarrow> pool_slices p st \<inter> pool_slices q st = {}"
  using assms by (auto simp: mem_inv_def sw_pool_def mem_consts)

text \<open>A step that keeps the invariant of one software pool and touches only its slices keeps the whole.\<close>

lemma mem_inv_step:
  assumes inv: "mem_inv st" and p: "sw_pool p" and "length (mem_pool st') = length (mem_pool st)"
    and "pool_inv p st'" "pool_slices p st' = pool_slices p st" "pool_fits p st' = pool_fits p st"
    and "\<And>q. q \<noteq> p \<Longrightarrow> mem_pool st' ! q = mem_pool st ! q"
    and "\<And>a. a \<notin> pool_slices p st \<Longrightarrow> ctrl st' a = ctrl st a"
  shows "mem_inv st' \<and> (\<forall>q. sw_pool q \<longrightarrow> pool_slices q st' = pool_slices q st) \<and>
    (\<forall>q. sw_pool q \<longrightarrow> q \<noteq> p \<longrightarrow> free_set q st' = free_set q st)"
proof -
  have q: "pool_inv q st' \<and> pool_slices q st' = pool_slices q st \<and> free_set q st' = free_set q st"
    if "sw_pool q" "q \<noteq> p" for q
  proof -
    have "ctrl st' a = ctrl st a" if "a \<in> pool_slices q st" for a
      using mem_invD(4) [OF inv p \<open>sw_pool q\<close> \<open>q \<noteq> p\<close>] that by (intro assms(8)) auto
    with pool_frame [OF assms(7) [OF that(2)]] mem_invD(1) [OF inv that(1)] show ?thesis by blast
  qed
  have sl: "pool_slices q st' = pool_slices q st" if "sw_pool q" for q using q [OF that] assms(5) by (cases "q = p") auto
  have "pool_inv q st'" if "sw_pool q" for q using q [OF that] assms(4) by (cases "q = p") auto
  moreover have "pool_fits q st'" if "sw_pool q" for q
    using mem_invD(3) [OF inv that] assms(6,7) by (cases "q = p") (auto simp: pool_fits_def)
  ultimately have "mem_inv st'"
    using inv sl assms(3) by (auto simp: mem_inv_def sw_pool_def)
  with q sl show ?thesis by blast
qed

lemma alloc_step:
  assumes inv: "mem_inv st" and p: "sw_pool p" and al: "mem_pool_alloc p n st = Inr (r, st')"
  shows "mem_inv st' \<and> (\<forall>q. sw_pool q \<longrightarrow> pool_slices q st' = pool_slices q st) \<and>
    (\<forall>q. sw_pool q \<longrightarrow> q \<noteq> p \<longrightarrow> free_set q st' = free_set q st)"
    and "r = None \<Longrightarrow> free_set p st' = free_set p st \<and> ctrl st' = ctrl st"
    and "r = Some b \<Longrightarrow> b - MEM_POOL_SLICE_CTRL_SIZE \<in> free_set p st \<and> MEM_POOL_SLICE_CTRL_SIZE \<le> b \<and> n \<le> datasize (mem_pool st ! p) \<and>
      free_set p st' = free_set p st - {b - MEM_POOL_SLICE_CTRL_SIZE} \<and>
      ctrl st' = (ctrl st)(b - MEM_POOL_SLICE_CTRL_SIZE := (ctrl st (b - MEM_POOL_SLICE_CTRL_SIZE))\<lparr>ref := 1\<rparr>)"
proof -
  note pi = mem_invD(1,2) [OF inv p]
  note eq = al [unfolded mem_pool_alloc_eq [OF pi(1) p]]
  consider "n > datasize (mem_pool st ! p)" "r = None" "st' = st"
    | "r = None" "st' = bump p st"
    | l ls where "n \<le> datasize (mem_pool st ! p)" "chain_of p st (turn p st) = l # ls" "r = Some (l + MEM_POOL_SLICE_CTRL_SIZE)"
        "st' = take_front p (turn p st) l ls st"
    using eq by (auto split: if_splits list.splits)
  then have "mem_inv st' \<and> (\<forall>q. sw_pool q \<longrightarrow> pool_slices q st' = pool_slices q st) \<and>
      (\<forall>q. sw_pool q \<longrightarrow> q \<noteq> p \<longrightarrow> free_set q st' = free_set q st) \<and>
      (r = None \<longrightarrow> free_set p st' = free_set p st \<and> ctrl st' = ctrl st) \<and>
      (r = Some b \<longrightarrow> b - MEM_POOL_SLICE_CTRL_SIZE \<in> free_set p st \<and> MEM_POOL_SLICE_CTRL_SIZE \<le> b \<and> n \<le> datasize (mem_pool st ! p) \<and>
      free_set p st' = free_set p st - {b - MEM_POOL_SLICE_CTRL_SIZE} \<and>
      ctrl st' = (ctrl st)(b - MEM_POOL_SLICE_CTRL_SIZE := (ctrl st (b - MEM_POOL_SLICE_CTRL_SIZE))\<lparr>ref := 1\<rparr>))"
  proof cases
    case 2
    with mem_inv_step [OF inv p, of "bump p st"] pi show ?thesis by (simp add: pool_inv_bump)
  next
    case (3 l ls)
    note tf = take_front_pool [OF pi turn_less 3(2)]
    have l: "l \<in> free_set p st" using pool_invD(3) [OF pi(1) turn_less [of p st]] 3(2) by auto
    have "mem_inv st' \<and> (\<forall>q. sw_pool q \<longrightarrow> pool_slices q st' = pool_slices q st) \<and>
      (\<forall>q. sw_pool q \<longrightarrow> q \<noteq> p \<longrightarrow> free_set q st' = free_set q st)"
      unfolding 3(4) by (rule mem_inv_step [OF inv p _ tf(5,1)]) (use pool_inv_free [OF pi(1) l] in \<open>auto simp: tf(4)\<close>)
    with 3 tf(3,4) l show ?thesis by auto
  qed (use inv in auto)
  then show "mem_inv st' \<and> (\<forall>q. sw_pool q \<longrightarrow> pool_slices q st' = pool_slices q st) \<and>
    (\<forall>q. sw_pool q \<longrightarrow> q \<noteq> p \<longrightarrow> free_set q st' = free_set q st)"
    and "r = None \<Longrightarrow> free_set p st' = free_set p st \<and> ctrl st' = ctrl st"
    and "r = Some b \<Longrightarrow> b - MEM_POOL_SLICE_CTRL_SIZE \<in> free_set p st \<and> MEM_POOL_SLICE_CTRL_SIZE \<le> b \<and> n \<le> datasize (mem_pool st ! p) \<and>
      free_set p st' = free_set p st - {b - MEM_POOL_SLICE_CTRL_SIZE} \<and>
      ctrl st' = (ctrl st)(b - MEM_POOL_SLICE_CTRL_SIZE := (ctrl st (b - MEM_POOL_SLICE_CTRL_SIZE))\<lparr>ref := 1\<rparr>)"
    by blast+
qed

lemma free_step:
  assumes inv: "mem_inv st" and p: "sw_pool p" and a: "a \<in> pool_slices p st"
  shows "\<exists>st'. mem_pool_free (a + MEM_POOL_SLICE_CTRL_SIZE) st = Inr st' \<and> mem_inv st' \<and>
    (\<forall>q. sw_pool q \<longrightarrow> pool_slices q st' = pool_slices q st) \<and>
    (\<forall>q. sw_pool q \<longrightarrow> q \<noteq> p \<longrightarrow> free_set q st' = free_set q st) \<and> free_set p st' = insert a (free_set p st)"
proof (cases "a \<in> free_set p st")
  case True
  with mem_pool_free_eq [OF mem_invD(1) [OF inv p] sw_pool_less [OF p] a] inv show ?thesis by (auto simp: insert_absorb)
next
  case False
  note pi = mem_invD(1,2) [OF inv p]
  note pb = put_back_pool [OF pi a False refl]
  let ?st' = "put_back p (unat (subpool_id (ctrl st a))) a st"
  have "mem_inv ?st' \<and> (\<forall>q. sw_pool q \<longrightarrow> pool_slices q ?st' = pool_slices q st) \<and>
      (\<forall>q. sw_pool q \<longrightarrow> q \<noteq> p \<longrightarrow> free_set q ?st' = free_set q st)"
    by (rule mem_inv_step [OF inv p _ pb(5,1)]) (use a in \<open>auto simp: pb(4)\<close>)
  with mem_pool_free_eq [OF pi(1) sw_pool_less [OF p] a] False pb(3) show ?thesis by simp
qed

lemma sw_buffer_pool:
  assumes p: "sw_pool p"
  shows "buffer_pool mem_inv (pool_slices p) (free_set p) (mem_pool_alloc p) mem_pool_free"
proof
  show "free_set p s \<subseteq> pool_slices p s" if "mem_inv s" for s
    using pool_inv_free [OF mem_invD(1) [OF that p]] by blast
  show "\<exists>r s'. mem_pool_alloc p n s = Inr (r, s')" if "mem_inv s" for s n
  proof -
    note eq = mem_pool_alloc_eq [OF mem_invD(1) [OF that p] p]
    obtain x where "mem_pool_alloc p n s = Inr x" using eq by blast
    then show ?thesis by (cases x) simp
  qed
  show "mem_inv s' \<and> pool_slices p s' = pool_slices p s" if "mem_inv s" "mem_pool_alloc p n s = Inr (r, s')" for s n r s'
    using alloc_step(1) [OF that(1) p that(2)] p by blast
  show "free_set p s' = free_set p s" if "mem_inv s" "mem_pool_alloc p n s = Inr (None, s')" for s n s'
    using alloc_step(2) [OF that(1) p that(2)] by blast
  show "b - MEM_POOL_SLICE_CTRL_SIZE \<in> free_set p s \<and> MEM_POOL_SLICE_CTRL_SIZE \<le> b \<and>
      free_set p s' = free_set p s - {b - MEM_POOL_SLICE_CTRL_SIZE}"
    if "mem_inv s" "mem_pool_alloc p n s = Inr (Some b, s')" for s n b s'
    using alloc_step(3) [OF that(1) p that(2) refl] by blast
  show "\<exists>s'. mem_pool_free (a + MEM_POOL_SLICE_CTRL_SIZE) s = Inr s' \<and> mem_inv s' \<and>
      pool_slices p s' = pool_slices p s \<and> free_set p s' = insert a (free_set p s)"
    if "mem_inv s" "a \<in> pool_slices p s" for s a
    using free_step [OF that(1) p that(2)] p by blast
qed

interpretation small: buffer_pool mem_inv "pool_slices MEM_POOL_ID_SMALL_BUFFER" "free_set MEM_POOL_ID_SMALL_BUFFER"
  "mem_pool_alloc MEM_POOL_ID_SMALL_BUFFER" mem_pool_free
  by (rule sw_buffer_pool) (simp add: sw_pool_def)

interpretation large: buffer_pool mem_inv "pool_slices MEM_POOL_ID_LARGE_BUFFER" "free_set MEM_POOL_ID_LARGE_BUFFER"
  "mem_pool_alloc MEM_POOL_ID_LARGE_BUFFER" mem_pool_free
  by (rule sw_buffer_pool) (simp add: sw_pool_def)

section \<open>Initialisation establishes the invariant\<close>

lemma inject_chain_eq:
  assumes "0 < sz"
  shows "inject_chain pid i sz n addr (ls, c) =
    (rev (map (\<lambda>k. addr + k * sz) [0..<n]) @ ls,
     \<lambda>a. if a \<in> (\<lambda>k. addr + k * sz) ` {..<n}
         then (c a)\<lparr>magic := MEM_POOL_MAGIC_NUM, pool_id := of_nat pid, subpool_id := of_nat i\<rparr> else c a)"
proof (induction n arbitrary: addr ls c)
  case (Suc n)
  have l: "map (\<lambda>k. addr + k * sz) [0..<Suc n] = addr # map (\<lambda>k. addr + sz + k * sz) [0..<n]"
    by (simp add: upt_conv_Cons map_Suc_upt [symmetric] add.assoc del: upt_Suc)
  have "(\<lambda>k. addr + k * sz) ` {..<Suc n} = set (map (\<lambda>k. addr + k * sz) [0..<Suc n])" by auto
  also have "\<dots> = insert addr ((\<lambda>k. addr + sz + k * sz) ` {..<n})" unfolding l by auto
  finally have s: "(\<lambda>k. addr + k * sz) ` {..<Suc n} = insert addr ((\<lambda>k. addr + sz + k * sz) ` {..<n})" .
  have "addr \<notin> (\<lambda>k. addr + sz + k * sz) ` {..<n}" using assms by auto
  then show ?case
    unfolding inject_chain.simps Suc.IH s l by (auto simp: fun_eq_iff)
qed simp

definition init_chain :: "nat \<Rightarrow> nat \<Rightarrow> nat \<Rightarrow> nat \<Rightarrow> nat list" where
  "init_chain base sz n i = rev (map (\<lambda>k. base + (i * n + k) * sz) [0..<n])"

lemma init_chain_disjoint:
  assumes "0 < sz" "a \<in> set (init_chain base sz n i)" "a \<in> set (init_chain base sz n j)"
  shows "i = j"
proof -
  obtain k l where "k < n" "l < n" "(i * n + k) * sz = (j * n + l) * sz" using assms(2,3) by (auto simp: init_chain_def)
  with assms(1) have "i * n + k = j * n + l" "k < n" "l < n" by auto
  then have "(i * n + k) div n = (j * n + l) div n" "k < n" "l < n" by auto
  then show ?thesis by (simp add: div_mult_self3)
qed

lemma inject_chains_eq:
  assumes sz: "0 < sz" and "j \<le> m" "m \<le> length (msc (mem_pool st ! pid))" "pid < length (mem_pool st)"
    "inject_chains pid [j..<m] sz n (base + j * n * sz) st = st'"
  shows "mem_pool st' = (mem_pool st)[pid := (mem_pool st ! pid)\<lparr>msc := msc (mem_pool st' ! pid)\<rparr>] \<and>
    length (msc (mem_pool st' ! pid)) = length (msc (mem_pool st ! pid)) \<and>
    (\<forall>i. msc (mem_pool st' ! pid) ! i = (if j \<le> i \<and> i < m then \<lparr>freenum = of_nat n, head = Some (init_chain base sz n i)\<rparr>
                                     else msc (mem_pool st ! pid) ! i)) \<and>
    (\<forall>i a. j \<le> i \<longrightarrow> i < m \<longrightarrow> a \<in> set (init_chain base sz n i) \<longrightarrow>
       ctrl st' a = (ctrl st a)\<lparr>magic := MEM_POOL_MAGIC_NUM, pool_id := of_nat pid, subpool_id := of_nat i\<rparr>) \<and>
    (\<forall>a. (\<forall>i. j \<le> i \<longrightarrow> i < m \<longrightarrow> a \<notin> set (init_chain base sz n i)) \<longrightarrow> ctrl st' a = ctrl st a)"
  using assms(2-)
proof (induction "m - j" arbitrary: j st)
  case 0
  then show ?case by auto
next
  case (Suc d)
  have ic: "inject_chain pid j sz n (base + j * n * sz) ([], ctrl st) =
      (init_chain base sz n j, \<lambda>a. if a \<in> set (init_chain base sz n j)
         then (ctrl st a)\<lparr>magic := MEM_POOL_MAGIC_NUM, pool_id := of_nat pid, subpool_id := of_nat j\<rparr> else ctrl st a)"
    unfolding inject_chain_eq [OF sz] by (auto simp: init_chain_def add_mult_distrib fun_eq_iff)
  define st1 where "st1 = set_chain pid j \<lparr>freenum = of_nat n, head = Some (init_chain base sz n j)\<rparr>
    (st\<lparr>ctrl := \<lambda>a. if a \<in> set (init_chain base sz n j)
         then (ctrl st a)\<lparr>magic := MEM_POOL_MAGIC_NUM, pool_id := of_nat pid, subpool_id := of_nat j\<rparr> else ctrl st a\<rparr>)"
  have jm: "j < m" using Suc(2) by simp
  then have up: "[j..<m] = j # [Suc j..<m]" by (simp add: upt_conv_Cons)
  have step: "inject_chains pid [j..<m] sz n (base + j * n * sz) st =
      inject_chains pid [Suc j..<m] sz n (base + Suc j * n * sz) st1"
    unfolding up inject_chains.simps ic prod.case st1_def [symmetric] by (simp add: algebra_simps)
  have m1: "mem_pool st1 = (mem_pool st)[pid := (mem_pool st ! pid)\<lparr>msc := (msc (mem_pool st ! pid))[j := \<lparr>freenum = of_nat n, head = Some (init_chain base sz n j)\<rparr>]\<rparr>]"
    by (simp add: st1_def set_chain_def)
  have "d = m - Suc j" "Suc j \<le> m" "m \<le> length (msc (mem_pool st1 ! pid))" "pid < length (mem_pool st1)"
    using Suc(2-) jm by (simp_all add: m1)
  note IH = Suc(1) [OF this step [symmetric, unfolded Suc.prems(4)]]
  from IH have st':
    "mem_pool st' = (mem_pool st1)[pid := (mem_pool st1 ! pid)\<lparr>msc := msc (mem_pool st' ! pid)\<rparr>]"
    "length (msc (mem_pool st' ! pid)) = length (msc (mem_pool st1 ! pid))"
    "\<And>i. msc (mem_pool st' ! pid) ! i = (if Suc j \<le> i \<and> i < m then \<lparr>freenum = of_nat n, head = Some (init_chain base sz n i)\<rparr>
                                     else msc (mem_pool st1 ! pid) ! i)"
    "\<And>i a. Suc j \<le> i \<Longrightarrow> i < m \<Longrightarrow> a \<in> set (init_chain base sz n i) \<Longrightarrow>
       ctrl st' a = (ctrl st1 a)\<lparr>magic := MEM_POOL_MAGIC_NUM, pool_id := of_nat pid, subpool_id := of_nat i\<rparr>"
    "\<And>a. (\<forall>i. Suc j \<le> i \<longrightarrow> i < m \<longrightarrow> a \<notin> set (init_chain base sz n i)) \<Longrightarrow> ctrl st' a = ctrl st1 a" by blast+
  have c1: "ctrl st1 a = (if a \<in> set (init_chain base sz n j)
         then (ctrl st a)\<lparr>magic := MEM_POOL_MAGIC_NUM, pool_id := of_nat pid, subpool_id := of_nat j\<rparr> else ctrl st a)" for a
    by (simp add: st1_def)
  have "ctrl st' a = (ctrl st a)\<lparr>magic := MEM_POOL_MAGIC_NUM, pool_id := of_nat pid, subpool_id := of_nat i\<rparr>"
    if "j \<le> i" "i < m" "a \<in> set (init_chain base sz n i)" for i a
  proof (cases "i = j")
    case True
    have "a \<notin> set (init_chain base sz n k)" if "Suc j \<le> k" for k
      using init_chain_disjoint [OF sz, of a base n i k] \<open>a \<in> set (init_chain base sz n i)\<close> True that by auto
    with st'(5) [of a] that True c1 show ?thesis by auto
  next
    case False
    then have "a \<notin> set (init_chain base sz n j)" using init_chain_disjoint [OF sz that(3)] by auto
    with st'(4) [of i a] that False c1 show ?thesis by simp
  qed
  moreover have "ctrl st' a = ctrl st a" if "\<forall>i. j \<le> i \<longrightarrow> i < m \<longrightarrow> a \<notin> set (init_chain base sz n i)" for a
    using st'(5) [of a] that c1 [of a] jm by auto
  moreover have "mem_pool st' = (mem_pool st)[pid := (mem_pool st ! pid)\<lparr>msc := msc (mem_pool st' ! pid)\<rparr>]"
    using st'(1) Suc.prems(3) by (simp add: m1)
  moreover have "msc (mem_pool st' ! pid) ! i = (if j \<le> i \<and> i < m then \<lparr>freenum = of_nat n, head = Some (init_chain base sz n i)\<rparr>
      else msc (mem_pool st ! pid) ! i)" for i
    using st'(3) [of i] Suc.prems jm by (auto simp: m1 nth_list_update)
  moreover have "length (msc (mem_pool st' ! pid)) = length (msc (mem_pool st ! pid))"
    using st'(2) Suc.prems by (simp add: m1)
  ultimately show ?case by blast
qed

lemma init_chains_slices:
  assumes "unat (slicenum mp) = MEM_POOL_INTERNAL_NUM * n"
  shows "slices mp = (\<Union>i < MEM_POOL_INTERNAL_NUM. set (init_chain (start mp) (unat (slicesize mp)) n i))"
proof (intro equalityI subsetI)
  fix a assume "a \<in> slices mp"
  then obtain t where t: "t < MEM_POOL_INTERNAL_NUM * n" "a = start mp + t * unat (slicesize mp)"
    using assms by (auto simp: slices_def)
  then have "0 < n" by (cases n) auto
  then have "t mod n < n" "t div n < MEM_POOL_INTERNAL_NUM" using t(1) by (simp_all add: less_mult_imp_div_less)
  moreover have "a = start mp + (t div n * n + t mod n) * unat (slicesize mp)" using t(2) by simp
  ultimately show "a \<in> (\<Union>i < MEM_POOL_INTERNAL_NUM. set (init_chain (start mp) (unat (slicesize mp)) n i))"
    unfolding init_chain_def by (intro UN_I [of "t div n"]) (auto intro!: image_eqI [of _ _ "t mod n"])
next
  fix a assume "a \<in> (\<Union>i < MEM_POOL_INTERNAL_NUM. set (init_chain (start mp) (unat (slicesize mp)) n i))"
  then obtain i k where i: "i < MEM_POOL_INTERNAL_NUM" "k < n" "a = start mp + (i * n + k) * unat (slicesize mp)"
    by (auto simp: init_chain_def)
  have "i * n + k < Suc i * n" using i(2) by simp
  also have "\<dots> \<le> MEM_POOL_INTERNAL_NUM * n" using i(1) by (intro mult_le_mono1) simp
  finally show "a \<in> slices mp" using i(3) assms by (auto simp: slices_def)
qed

lemma inject_pool_inv:
  assumes pid: "pid < length (mem_pool st)" "pid < 2 ^ 16" and mp: "length (msc (mem_pool st ! pid)) = MEM_POOL_INTERNAL_NUM"
    "0 < unat (slicesize (mem_pool st ! pid))" "unat (slicenum (mem_pool st ! pid)) mod MEM_POOL_INTERNAL_NUM = 0"
    and clean: "\<And>a. a \<in> pool_slices pid st \<Longrightarrow> ref (ctrl st a) = 0"
  shows "\<exists>st'. mem_pool_sw_slice_inject pid st = (SEC_OK, st') \<and> pool_inv pid st' \<and>
    pool_slices pid st' = pool_slices pid st \<and> free_set pid st' = pool_slices pid st \<and>
    length (mem_pool st') = length (mem_pool st) \<and> (\<forall>q. q \<noteq> pid \<longrightarrow> mem_pool st' ! q = mem_pool st ! q) \<and>
    datasize (mem_pool st' ! pid) = datasize (mem_pool st ! pid) \<and> slicesize (mem_pool st' ! pid) = slicesize (mem_pool st ! pid) \<and>
    (\<forall>i < MEM_POOL_INTERNAL_NUM. length (chain_of pid st' i) = unat (slicenum (mem_pool st ! pid)) div MEM_POOL_INTERNAL_NUM) \<and>
    (\<forall>a. a \<notin> pool_slices pid st \<longrightarrow> ctrl st' a = ctrl st a)"
proof -
  let ?mp = "mem_pool st ! pid"
  define n where "n = unat (slicenum ?mp) div MEM_POOL_INTERNAL_NUM"
  define ch where "ch = init_chain (start ?mp) (unat (slicesize ?mp)) n"
  have n: "unat (slicenum ?mp) = MEM_POOL_INTERNAL_NUM * n" using mp(3) unfolding n_def by auto
  define st' where "st' = inject_chains pid [0..<MEM_POOL_INTERNAL_NUM] (unat (slicesize ?mp)) n (start ?mp) st"
  have ic: "inject_chains pid [0..<MEM_POOL_INTERNAL_NUM] (unat (slicesize ?mp)) n (start ?mp + 0 * n * unat (slicesize ?mp)) st = st'"
    by (simp add: st'_def)
  note eq = inject_chains_eq [OF mp(2) le0 eq_refl [OF mp(1) [symmetric]] pid(1) ic, folded ch_def]
  from eq have st': "mem_pool st' = (mem_pool st)[pid := ?mp\<lparr>msc := msc (mem_pool st' ! pid)\<rparr>]" by (elim conjE)
  from eq mp(1) have len: "length (msc (mem_pool st' ! pid)) = MEM_POOL_INTERNAL_NUM" by (elim conjE) simp
  from eq have chains: "msc (mem_pool st' ! pid) ! i = \<lparr>freenum = of_nat n, head = Some (ch i)\<rparr>" if "i < MEM_POOL_INTERNAL_NUM" for i
    using that by (elim conjE) simp
  from eq have ctrl_in: "ctrl st' a = (ctrl st a)\<lparr>magic := MEM_POOL_MAGIC_NUM, pool_id := of_nat pid, subpool_id := of_nat i\<rparr>"
    if "i < MEM_POOL_INTERNAL_NUM" "a \<in> set (ch i)" for i a
    using that by (elim conjE) blast
  from eq have ctrl_out: "ctrl st' a = ctrl st a" if "\<forall>i < MEM_POOL_INTERNAL_NUM. a \<notin> set (ch i)" for a
    using that by (elim conjE) simp
  have m: "mem_pool st' ! pid = ?mp\<lparr>msc := msc (mem_pool st' ! pid)\<rparr>"
    using arg_cong [OF st', of "\<lambda>l. l ! pid"] pid(1) by (metis nth_list_update_eq)
  have slice_fields: "start (mem_pool st' ! pid) = start ?mp" "slicesize (mem_pool st' ! pid) = slicesize ?mp"
    "slicenum (mem_pool st' ! pid) = slicenum ?mp" "datasize (mem_pool st' ! pid) = datasize ?mp"
    by (subst m, simp)+
  have "slices (mem_pool st' ! pid) = slices ?mp"
    using slice_fields by (simp add: slices_def)
  then have sl: "pool_slices pid st' = pool_slices pid st" by (simp add: pool_slices_def)
  have un: "pool_slices pid st = (\<Union>i < MEM_POOL_INTERNAL_NUM. set (ch i))"
    unfolding pool_slices_def ch_def by (rule init_chains_slices [OF n])
  have co: "chain_of pid st' i = ch i" if "i < MEM_POOL_INTERNAL_NUM" for i using chains [OF that] by (simp add: chain_of_def)
  have fs: "free_set pid st' = pool_slices pid st" unfolding free_set_def un using co by simp
  have sub: "unat (of_nat i :: u8) = i" if "i < MEM_POOL_INTERNAL_NUM" for i
    using that by (simp add: MEM_POOL_INTERNAL_NUM_def unat_of_nat)
  have lch: "length (ch i) = n" for i by (simp add: ch_def init_chain_def)
  have "inj (\<lambda>k. start ?mp + (i * n + k) * unat (slicesize ?mp))" for i using mp(2) by (auto simp: inj_def)
  then have dch: "distinct (ch i)" for i
    by (auto simp: ch_def init_chain_def distinct_map intro: inj_on_subset)
  have "pool_inv pid st'"
  proof (rule pool_invI)
    fix i assume i: "i < MEM_POOL_INTERNAL_NUM"
    show "msc (mem_pool st' ! pid) ! i = \<lparr>freenum = of_nat (length (chain_of pid st' i)), head = Some (chain_of pid st' i)\<rparr>"
      using chains [OF i] co [OF i] lch by simp
    show "distinct (chain_of pid st' i)" using co [OF i] dch by simp
    show "unat (subpool_id (ctrl st' a)) = i" if "a \<in> set (chain_of pid st' i)" for a
      using ctrl_in [OF i, of a] that co [OF i] sub [OF i] by simp
  next
    fix a assume "a \<in> pool_slices pid st'"
    then obtain i where i: "i < MEM_POOL_INTERNAL_NUM" "a \<in> set (ch i)" "a \<in> pool_slices pid st" using sl un by auto
    have "unat (of_nat pid :: u16) = pid" using pid(2) by (simp add: unat_of_nat)
    then show "magic (ctrl st' a) = MEM_POOL_MAGIC_NUM \<and> unat (pool_id (ctrl st' a)) = pid \<and>
        unat (subpool_id (ctrl st' a)) < MEM_POOL_INTERNAL_NUM \<and> ref (ctrl st' a) = (if a \<in> free_set pid st' then 0 else 1)"
      using ctrl_in [OF i(1,2)] sub [OF i(1)] i clean [OF i(3)] by (simp add: fs)
  qed (use len sl fs in simp_all)
  moreover have "mem_pool_sw_slice_inject pid st = (SEC_OK, st')"
    using mp(3) by (simp add: st'_def mem_pool_sw_slice_inject_def Let_def n_def)
  moreover have "length (mem_pool st') = length (mem_pool st)" "\<forall>q. q \<noteq> pid \<longrightarrow> mem_pool st' ! q = mem_pool st ! q"
    by (subst st', simp)+
  moreover have "\<forall>a. a \<notin> pool_slices pid st \<longrightarrow> ctrl st' a = ctrl st a" using ctrl_out un by auto
  moreover have "\<forall>i < MEM_POOL_INTERNAL_NUM. length (chain_of pid st' i) = unat (slicenum ?mp) div MEM_POOL_INTERNAL_NUM"
    using co lch by (simp add: n_def)
  ultimately show ?thesis using sl fs slice_fields by blast
qed

lemma init_pool_sw:
  assumes st: "length (mem_pool st) = MEM_POOL_ID_MAX" and p: "p < MEM_POOL_ID_MAX"
    and sz: "0 < unat sz" "unat num mod MEM_POOL_INTERNAL_NUM = 0"
    and clean: "\<And>a. a \<in> slices (new_cfg base sz num data) \<Longrightarrow> ref (ctrl st a) = 0"
  shows "\<exists>st'. init_pool p (Some base) sz num data mem_pool_sw_slice_inject (SEC_OK, st) = (SEC_OK, st') \<and> pool_inv p st' \<and>
    pool_slices p st' = slices (new_cfg base sz num data) \<and> free_set p st' = pool_slices p st' \<and>
    length (mem_pool st') = MEM_POOL_ID_MAX \<and> (\<forall>q. q \<noteq> p \<longrightarrow> mem_pool st' ! q = mem_pool st ! q) \<and>
    datasize (mem_pool st' ! p) = data \<and> slicesize (mem_pool st' ! p) = sz \<and>
    (\<forall>i < MEM_POOL_INTERNAL_NUM. length (chain_of p st' i) = unat num div MEM_POOL_INTERNAL_NUM) \<and>
    (\<forall>a. a \<notin> slices (new_cfg base sz num data) \<longrightarrow> ctrl st' a = ctrl st a)"
proof -
  let ?st = "st\<lparr>mem_pool := (mem_pool st)[p := new_cfg base sz num data]\<rparr>"
  have cfg: "mem_pool ?st ! p = new_cfg base sz num data" "pool_slices p ?st = slices (new_cfg base sz num data)"
    using st p by (simp_all add: pool_slices_def)
  have f: "length (msc (new_cfg base sz num data)) = MEM_POOL_INTERNAL_NUM" "slicesize (new_cfg base sz num data) = sz"
    "slicenum (new_cfg base sz num data) = num" "datasize (new_cfg base sz num data) = data"
    by (simp_all add: new_cfg_def)
  have "p < length (mem_pool ?st)" "p < 2 ^ 16" using st p by (simp_all add: MEM_POOL_ID_MAX_def)
  from inject_pool_inv [OF this, unfolded cfg f, OF refl sz] clean obtain st' where st':
    "mem_pool_sw_slice_inject p ?st = (SEC_OK, st')" "pool_inv p st'" "pool_slices p st' = slices (new_cfg base sz num data)"
    "free_set p st' = slices (new_cfg base sz num data)" "length (mem_pool st') = length (mem_pool ?st)"
    "\<forall>q. q \<noteq> p \<longrightarrow> mem_pool st' ! q = mem_pool ?st ! q" "datasize (mem_pool st' ! p) = data" "slicesize (mem_pool st' ! p) = sz"
    "\<forall>i < MEM_POOL_INTERNAL_NUM. length (chain_of p st' i) = unat num div MEM_POOL_INTERNAL_NUM"
    "\<forall>a. a \<notin> slices (new_cfg base sz num data) \<longrightarrow> ctrl st' a = ctrl ?st a"
    by auto
  then show ?thesis using st p by (auto simp: init_pool_def SEC_OK_def SEC_NO_def)
qed

lemma init_pool_fpa:
  assumes "p = MEM_POOL_ID_HOST_MBUF \<or> p = MEM_POOL_ID_FLOW_NODE"
  shows "\<exists>st'. init_pool p (Some base) sz num data mem_pool_fpa_slice_inject (SEC_OK, st) = (SEC_OK, st') \<and>
    length (mem_pool st') = length (mem_pool st) \<and> ctrl st' = ctrl st"
  using assms by (auto simp: init_pool_def mem_pool_fpa_slice_inject_def SEC_OK_def SEC_NO_def mem_consts)

lemma slices_range:
  assumes "a \<in> slices mp" "0 < unat (slicesize mp)"
  shows "start mp \<le> a \<and> a < start mp + unat (slicenum mp) * unat (slicesize mp)"
  using assms by (auto simp: slices_def)

lemma slices_apart:
  assumes "a \<in> slices mp" "b \<in> slices mp" "a \<noteq> b"
  shows "a + unat (slicesize mp) \<le> b \<or> b + unat (slicesize mp) \<le> a"
proof -
  obtain k l where kl: "a = start mp + k * unat (slicesize mp)" "b = start mp + l * unat (slicesize mp)"
    using assms(1,2) by (auto simp: slices_def)
  then consider "Suc k \<le> l" | "Suc l \<le> k" using assms(3) by (cases k l rule: linorder_cases) auto
  then show ?thesis
  proof cases
    case 1
    then have "Suc k * unat (slicesize mp) \<le> l * unat (slicesize mp)" by (rule mult_le_mono1)
    then show ?thesis using kl by simp
  next
    case 2
    then have "Suc l * unat (slicesize mp) \<le> k * unat (slicesize mp)" by (rule mult_le_mono1)
    then show ?thesis using kl by simp
  qed
qed

text \<open>The memory blocks of the two software pools do not overlap.\<close>

definition boot_blocks :: "nat \<Rightarrow> nat \<Rightarrow> bool" where
  "boot_blocks b2 b3 \<longleftrightarrow>
     b2 + MEM_POOL_CFG_SIZE + unat MEM_POOL_SMALL_BUFFER_NUM * unat MEM_POOL_SMALL_BUFFER_SIZE \<le> b3 \<or>
     b3 + MEM_POOL_CFG_SIZE + unat MEM_POOL_LARGE_BUFFER_NUM * unat MEM_POOL_LARGE_BUFFER_SIZE \<le> b2"

lemmas pool_sizes = MEM_POOL_SMALL_BUFFER_NUM_def MEM_POOL_SMALL_BUFFER_SIZE_def MEM_POOL_LARGE_BUFFER_NUM_def
  MEM_POOL_LARGE_BUFFER_SIZE_def MEM_POOL_CFG_SIZE_def MEM_POOL_SLICE_CTRL_SIZE_def MEM_POOL_INTERNAL_NUM_def

lemma boot_blocks_disjoint:
  assumes "boot_blocks b2 b3"
  shows "slices (new_cfg b2 MEM_POOL_SMALL_BUFFER_SIZE MEM_POOL_SMALL_BUFFER_NUM d) \<inter>
    slices (new_cfg b3 MEM_POOL_LARGE_BUFFER_SIZE MEM_POOL_LARGE_BUFFER_NUM d') = {}"
proof -
  have False if a: "a \<in> slices (new_cfg b2 MEM_POOL_SMALL_BUFFER_SIZE MEM_POOL_SMALL_BUFFER_NUM d)"
    and b: "a \<in> slices (new_cfg b3 MEM_POOL_LARGE_BUFFER_SIZE MEM_POOL_LARGE_BUFFER_NUM d')" for a
    using slices_range [OF a] slices_range [OF b] assms by (auto simp: new_cfg_def boot_blocks_def pool_sizes)
  then show ?thesis by blast
qed

text \<open>\<open>Mem_Pool_Init\<close> in two halves: the hardware pools, which leave the control blocks alone, and the software pools.\<close>

lemma init_fpa_pools:
  assumes "length (mem_pool st) = MEM_POOL_ID_MAX"
  shows "\<exists>s1. init_pool MEM_POOL_ID_FLOW_NODE (Some b1) MEM_POOL_FLOW_NODE_SIZE MEM_POOL_FLOW_NODE_NUM 0 mem_pool_fpa_slice_inject
     (init_pool MEM_POOL_ID_HOST_MBUF (Some b0) MEM_POOL_HOST_MBUF_SIZE MEM_POOL_HOST_MBUF_NUM 0 mem_pool_fpa_slice_inject
     (SEC_OK, st)) = (SEC_OK, s1) \<and> length (mem_pool s1) = MEM_POOL_ID_MAX \<and> ctrl s1 = ctrl st"
proof -
  obtain s0 where s0: "init_pool MEM_POOL_ID_HOST_MBUF (Some b0) MEM_POOL_HOST_MBUF_SIZE MEM_POOL_HOST_MBUF_NUM 0
      mem_pool_fpa_slice_inject (SEC_OK, st) = (SEC_OK, s0)" "length (mem_pool s0) = MEM_POOL_ID_MAX" "ctrl s0 = ctrl st"
    using init_pool_fpa [of MEM_POOL_ID_HOST_MBUF b0 MEM_POOL_HOST_MBUF_SIZE MEM_POOL_HOST_MBUF_NUM 0 st] assms by auto
  show ?thesis
    using init_pool_fpa [of MEM_POOL_ID_FLOW_NODE b1 MEM_POOL_FLOW_NODE_SIZE MEM_POOL_FLOW_NODE_NUM 0 s0] s0 by auto
qed

lemma init_sw_pools:
  assumes s1: "length (mem_pool s1) = MEM_POOL_ID_MAX" and clean: "\<And>a. ref (ctrl s1 a) = 0" and bb: "boot_blocks b2 b3"
  shows "\<exists>s3. init_pool MEM_POOL_ID_LARGE_BUFFER (Some b3) MEM_POOL_LARGE_BUFFER_SIZE MEM_POOL_LARGE_BUFFER_NUM
       (MEM_POOL_LARGE_BUFFER_SIZE - of_nat MEM_POOL_SLICE_CTRL_SIZE) mem_pool_sw_slice_inject
     (init_pool MEM_POOL_ID_SMALL_BUFFER (Some b2) MEM_POOL_SMALL_BUFFER_SIZE MEM_POOL_SMALL_BUFFER_NUM
       (MEM_POOL_SMALL_BUFFER_SIZE - of_nat MEM_POOL_SLICE_CTRL_SIZE) mem_pool_sw_slice_inject (SEC_OK, s1)) = (SEC_OK, s3) \<and>
    mem_inv s3 \<and> datasize (mem_pool s3 ! MEM_POOL_ID_SMALL_BUFFER) = 2024 \<and> (\<forall>p. sw_pool p \<longrightarrow> free_set p s3 = pool_slices p s3 \<and> (\<forall>i < MEM_POOL_INTERNAL_NUM. chain_of p s3 i \<noteq> []))"
proof -
  let ?d2 = "MEM_POOL_SMALL_BUFFER_SIZE - of_nat MEM_POOL_SLICE_CTRL_SIZE"
  let ?d3 = "MEM_POOL_LARGE_BUFFER_SIZE - of_nat MEM_POOL_SLICE_CTRL_SIZE"
  let ?S2 = "slices (new_cfg b2 MEM_POOL_SMALL_BUFFER_SIZE MEM_POOL_SMALL_BUFFER_NUM ?d2)"
  let ?S3 = "slices (new_cfg b3 MEM_POOL_LARGE_BUFFER_SIZE MEM_POOL_LARGE_BUFFER_NUM ?d3)"
  let ?r2 = "init_pool MEM_POOL_ID_SMALL_BUFFER (Some b2) MEM_POOL_SMALL_BUFFER_SIZE MEM_POOL_SMALL_BUFFER_NUM ?d2
      mem_pool_sw_slice_inject (SEC_OK, s1)"
  have disj: "?S2 \<inter> ?S3 = {}" by (rule boot_blocks_disjoint [OF bb])
  have n: "MEM_POOL_ID_SMALL_BUFFER < MEM_POOL_ID_MAX" "MEM_POOL_ID_LARGE_BUFFER < MEM_POOL_ID_MAX"
    "0 < unat MEM_POOL_SMALL_BUFFER_SIZE" "0 < unat MEM_POOL_LARGE_BUFFER_SIZE"
    "unat MEM_POOL_SMALL_BUFFER_NUM mod MEM_POOL_INTERNAL_NUM = 0" "unat MEM_POOL_LARGE_BUFFER_NUM mod MEM_POOL_INTERNAL_NUM = 0"
    by (simp_all add: pool_sizes mem_consts)
  obtain s2 where s2: "?r2 = (SEC_OK, s2)" "pool_inv MEM_POOL_ID_SMALL_BUFFER s2"
    "pool_slices MEM_POOL_ID_SMALL_BUFFER s2 = ?S2" "free_set MEM_POOL_ID_SMALL_BUFFER s2 = pool_slices MEM_POOL_ID_SMALL_BUFFER s2"
    "length (mem_pool s2) = MEM_POOL_ID_MAX" "datasize (mem_pool s2 ! MEM_POOL_ID_SMALL_BUFFER) = ?d2"
    "slicesize (mem_pool s2 ! MEM_POOL_ID_SMALL_BUFFER) = MEM_POOL_SMALL_BUFFER_SIZE" "\<And>a. a \<notin> ?S2 \<Longrightarrow> ctrl s2 a = ctrl s1 a"
    "\<And>i. i < MEM_POOL_INTERNAL_NUM \<Longrightarrow> length (chain_of MEM_POOL_ID_SMALL_BUFFER s2 i) = unat MEM_POOL_SMALL_BUFFER_NUM div MEM_POOL_INTERNAL_NUM"
    using init_pool_sw [OF s1 n(1,3,5) clean, of b2 ?d2] by auto
  have "ref (ctrl s2 a) = 0" if "a \<in> ?S3" for a
  proof -
    have "a \<notin> ?S2" using that disj by blast
    then show ?thesis using s2(8) clean by simp
  qed
  from init_pool_sw [OF s2(5) n(2,4,6) this, of b3 ?d3] obtain s3 where s3:
    "init_pool MEM_POOL_ID_LARGE_BUFFER (Some b3) MEM_POOL_LARGE_BUFFER_SIZE MEM_POOL_LARGE_BUFFER_NUM ?d3
      mem_pool_sw_slice_inject (SEC_OK, s2) = (SEC_OK, s3)" "pool_inv MEM_POOL_ID_LARGE_BUFFER s3"
    "pool_slices MEM_POOL_ID_LARGE_BUFFER s3 = ?S3" "free_set MEM_POOL_ID_LARGE_BUFFER s3 = pool_slices MEM_POOL_ID_LARGE_BUFFER s3"
    "length (mem_pool s3) = MEM_POOL_ID_MAX" "\<And>q. q \<noteq> MEM_POOL_ID_LARGE_BUFFER \<Longrightarrow> mem_pool s3 ! q = mem_pool s2 ! q"
    "datasize (mem_pool s3 ! MEM_POOL_ID_LARGE_BUFFER) = ?d3"
    "slicesize (mem_pool s3 ! MEM_POOL_ID_LARGE_BUFFER) = MEM_POOL_LARGE_BUFFER_SIZE" "\<And>a. a \<notin> ?S3 \<Longrightarrow> ctrl s3 a = ctrl s2 a"
    "\<And>i. i < MEM_POOL_INTERNAL_NUM \<Longrightarrow> length (chain_of MEM_POOL_ID_LARGE_BUFFER s3 i) = unat MEM_POOL_LARGE_BUFFER_NUM div MEM_POOL_INTERNAL_NUM"
    by blast
  have keep: "mem_pool s3 ! MEM_POOL_ID_SMALL_BUFFER = mem_pool s2 ! MEM_POOL_ID_SMALL_BUFFER" by (rule s3(6)) (simp add: mem_consts)
  have "ctrl s3 a = ctrl s2 a" if "a \<in> pool_slices MEM_POOL_ID_SMALL_BUFFER s2" for a
    using that disj unfolding s2(3) by (intro s3(9)) blast
  note fr = pool_frame [OF keep this]
  have "pool_fits MEM_POOL_ID_SMALL_BUFFER s3" "pool_fits MEM_POOL_ID_LARGE_BUFFER s3"
    using keep s2(6,7) s3(7,8) by (simp_all add: pool_fits_def pool_sizes)
  then have "mem_inv s3" using s3(2,3,5) fr s2(2,3) disj by (simp add: mem_inv_def)
  moreover have "chain_of p s3 i \<noteq> []" if "sw_pool p" "i < MEM_POOL_INTERNAL_NUM" for p i
    using s2(9) [OF that(2)] s3(10) [OF that(2)] that(1) fr(2) by (auto simp: sw_pool_def pool_sizes)
  moreover have "free_set p s3 = pool_slices p s3" if "sw_pool p" for p
    using s2(4) s3(4) fr(1,3) that by (auto simp: sw_pool_def)
  moreover have "datasize (mem_pool s3 ! MEM_POOL_ID_SMALL_BUFFER) = 2024" using keep s2(6) by (simp add: pool_sizes)
  ultimately show ?thesis using s2(1) s3(1) by auto
qed

lemma Mem_Pool_Init_ok:
  assumes st: "length (mem_pool st) = MEM_POOL_ID_MAX" and clean: "\<And>a. ref (ctrl st a) = 0"
    and bb: "boot_blocks b2 b3"
  shows "\<exists>st'. Mem_Pool_Init [Some b0, Some b1, Some b2, Some b3] st = (SEC_OK, st') \<and> mem_inv st' \<and>
    datasize (mem_pool st' ! MEM_POOL_ID_SMALL_BUFFER) = 2024 \<and> (\<forall>p. sw_pool p \<longrightarrow> free_set p st' = pool_slices p st' \<and> (\<forall>i < MEM_POOL_INTERNAL_NUM. chain_of p st' i \<noteq> []))"
proof -
  obtain s1 where s1: "init_pool MEM_POOL_ID_FLOW_NODE (Some b1) MEM_POOL_FLOW_NODE_SIZE MEM_POOL_FLOW_NODE_NUM 0 mem_pool_fpa_slice_inject
     (init_pool MEM_POOL_ID_HOST_MBUF (Some b0) MEM_POOL_HOST_MBUF_SIZE MEM_POOL_HOST_MBUF_NUM 0 mem_pool_fpa_slice_inject
     (SEC_OK, st)) = (SEC_OK, s1)" "length (mem_pool s1) = MEM_POOL_ID_MAX" "ctrl s1 = ctrl st"
    using init_fpa_pools [OF st] by blast
  have "\<And>a. ref (ctrl s1 a) = 0" using s1(3) clean by simp
  from init_sw_pools [OF s1(2) this bb] show ?thesis
    unfolding Mem_Pool_Init_def by (simp add: s1(1) numeral_3_eq_3)
qed

section \<open>Reachable states and properties\<close>

text \<open>
  After start-up on cleared memory: any allocation, and any release of a slice's buffer, allocated or
  not.
\<close>

inductive mp_reach :: "mem_state \<Rightarrow> bool" where
  init: "\<lbrakk>length (mem_pool st) = MEM_POOL_ID_MAX; \<And>a. ref (ctrl st a) = 0; boot_blocks b2 b3;
    Mem_Pool_Init [Some b0, Some b1, Some b2, Some b3] st = (ret, st')\<rbrakk> \<Longrightarrow> mp_reach st'"
| alloc: "\<lbrakk>mp_reach st; mem_pool_alloc p n st = Inr (r, st')\<rbrakk> \<Longrightarrow> mp_reach st'"
| free: "\<lbrakk>mp_reach st; sw_pool p; a \<in> pool_slices p st; mem_pool_free (a + MEM_POOL_SLICE_CTRL_SIZE) st = Inr st'\<rbrakk> \<Longrightarrow> mp_reach st'"

lemma alloc_no_pool: "\<not> sw_pool p \<Longrightarrow> mem_pool_alloc p n st = Inr (None, st)"
  by (simp add: mem_pool_alloc_def sw_pool_def)

lemma mp_reach_inv: "mp_reach st \<Longrightarrow> mem_inv st"
proof (induction rule: mp_reach.induct)
  case (init st b2 b3 b0 b1 ret st')
  with Mem_Pool_Init_ok [OF init(1-3), of b0 b1] show ?case by auto
next
  case (alloc st p n r st')
  then show ?case
    using alloc_step(1) [of st p n r st'] alloc_no_pool [of p n st] by (cases "sw_pool p") auto
next
  case (free st p a st')
  with free_step [of st p a] show ?case by auto
qed

lemma alloc_fresh:
  assumes inv: "mem_inv st" and al: "mem_pool_alloc p n st = Inr (Some b, st')"
  defines "a \<equiv> b - MEM_POOL_SLICE_CTRL_SIZE"
  shows "b = a + MEM_POOL_SLICE_CTRL_SIZE" "a \<in> pool_slices p st" "ref (ctrl st a) = 0"
    "ctrl st' = (ctrl st)(a := (ctrl st a)\<lparr>ref := 1\<rparr>)"
    "unat n + MEM_POOL_SLICE_CTRL_SIZE \<le> unat (slicesize (mem_pool st ! p))"
proof -
  have p: "sw_pool p" using al alloc_no_pool [of p n st] by auto
  note al' = alloc_step(3) [OF inv p al refl] and pi = mem_invD [OF inv p]
  have fr: "a \<in> free_set p st" using al' by (simp add: a_def)
  show "b = a + MEM_POOL_SLICE_CTRL_SIZE" using al' by (simp add: a_def)
  show sl: "a \<in> pool_slices p st" using fr pi(1) by (auto dest: pool_inv_free)
  show "ref (ctrl st a) = 0" using pool_inv_slice(4) [OF pi(1) sl] fr by simp
  show "ctrl st' = (ctrl st)(a := (ctrl st a)\<lparr>ref := 1\<rparr>)" using al' by (simp add: a_def)
  show "unat n + MEM_POOL_SLICE_CTRL_SIZE \<le> unat (slicesize (mem_pool st ! p))"
    using al' pi(3) by (simp add: pool_fits_def word_le_nat_alt)
qed

text \<open>A state after start-up, for the witnesses.\<close>

definition blank :: mem_state where
  "blank = \<lparr>mem_pool = replicate 4 (new_cfg 0 0 0 0), ctrl = (\<lambda>a. \<lparr>magic = 0, pool_id = 0, subpool_id = 0, ref = 0\<rparr>), fpa_given = []\<rparr>"

lemma booted:
  obtains st where "mp_reach st" "free_set MEM_POOL_ID_SMALL_BUFFER st = pool_slices MEM_POOL_ID_SMALL_BUFFER st"
    "datasize (mem_pool st ! MEM_POOL_ID_SMALL_BUFFER) = 2024" "chain_of MEM_POOL_ID_SMALL_BUFFER st (turn MEM_POOL_ID_SMALL_BUFFER st) \<noteq> []"
proof -
  have b: "length (mem_pool blank) = MEM_POOL_ID_MAX" "\<And>a. ref (ctrl blank a) = 0" "boot_blocks 30000000 40000000"
    by (simp_all add: blank_def mem_consts boot_blocks_def pool_sizes)
  obtain st where st: "Mem_Pool_Init [Some 0, Some 1000000, Some 30000000, Some 40000000] blank = (SEC_OK, st)"
    "datasize (mem_pool st ! MEM_POOL_ID_SMALL_BUFFER) = 2024"
    "free_set MEM_POOL_ID_SMALL_BUFFER st = pool_slices MEM_POOL_ID_SMALL_BUFFER st"
    "\<And>i. i < MEM_POOL_INTERNAL_NUM \<Longrightarrow> chain_of MEM_POOL_ID_SMALL_BUFFER st i \<noteq> []"
    using Mem_Pool_Init_ok [OF b, of 0 1000000] by (auto simp: sw_pool_def)
  from that [OF mp_reach.init [OF b st(1)] st(3,2) st(4) [OF turn_less]] show thesis .
qed

lemma booted_alloc:
  obtains st b st' where "mp_reach st" "mem_pool_alloc MEM_POOL_ID_SMALL_BUFFER 1500 st = Inr (Some b, st')"
proof -
  obtain st where st: "mp_reach st" "datasize (mem_pool st ! MEM_POOL_ID_SMALL_BUFFER) = 2024"
    "chain_of MEM_POOL_ID_SMALL_BUFFER st (turn MEM_POOL_ID_SMALL_BUFFER st) \<noteq> []" using booted by blast
  have p: "sw_pool MEM_POOL_ID_SMALL_BUFFER" by (simp add: sw_pool_def)
  note eq = mem_pool_alloc_eq [OF mem_invD(1) [OF mp_reach_inv [OF st(1)] p] p, of 1500]
  obtain l ls where "chain_of MEM_POOL_ID_SMALL_BUFFER st (turn MEM_POOL_ID_SMALL_BUFFER st) = l # ls"
    using st(3) by (cases "chain_of MEM_POOL_ID_SMALL_BUFFER st (turn MEM_POOL_ID_SMALL_BUFFER st)") auto
  with eq st(1,2) that show thesis by simp
qed

text \<open>
  C13. A buffer that \<open>mem_pool_alloc\<close> returns in a reachable state belongs to a slice of the pool that was
  not in use and is marked as used; the requested bytes lie behind the slice's control block inside
  the slice, apart from every other slice of the pool, whose control block is not touched.
\<close>

theorem mem_pool_alloc_fresh:
  assumes "mp_reach st" "mem_pool_alloc p n st = Inr (Some b, st')" "a = b - MEM_POOL_SLICE_CTRL_SIZE"
  shows "a \<in> pool_slices p st \<and> ref (ctrl st a) = 0 \<and> ref (ctrl st' a) = 1 \<and>
    (\<forall>c. c \<in> pool_slices p st \<longrightarrow> c \<noteq> a \<longrightarrow> ctrl st' c = ctrl st c \<and>
       (b + unat n \<le> c \<or> c + unat (slicesize (mem_pool st ! p)) \<le> a))"
proof -
  note f = alloc_fresh [OF mp_reach_inv [OF assms(1)] assms(2), folded assms(3)]
  have "b + unat n \<le> c \<or> c + unat (slicesize (mem_pool st ! p)) \<le> a" if "c \<in> pool_slices p st" "c \<noteq> a" for c
    using slices_apart [of a "mem_pool st ! p" c] f(1,2,5) that by (auto simp: pool_slices_def)
  with f(2-4) show ?thesis by auto
qed

theorem mem_pool_alloc_fresh_witness:
  "\<exists>st b st'. mp_reach st \<and> mem_pool_alloc MEM_POOL_ID_SMALL_BUFFER 1500 st = Inr (Some b, st') \<and>
    ref (ctrl st' (b - MEM_POOL_SLICE_CTRL_SIZE)) = 1"
proof -
  obtain st b st' where a: "mp_reach st" "mem_pool_alloc MEM_POOL_ID_SMALL_BUFFER 1500 st = Inr (Some b, st')"
    using booted_alloc .
  with mem_pool_alloc_fresh [OF a refl] show ?thesis by blast
qed

text \<open>
  In a reachable state an allocation from a software pool never faults, and it fails exactly when
  the request exceeds the data size of the pool or the one chain whose turn it is, chosen by the
  lowest two bits of the allocation counter, is empty, whatever the other three chains hold.
\<close>

theorem mem_pool_alloc_exact:
  assumes "mp_reach st" "p = MEM_POOL_ID_SMALL_BUFFER \<or> p = MEM_POOL_ID_LARGE_BUFFER"
  shows "\<exists>r st'. mem_pool_alloc p n st = Inr (r, st') \<and>
    (r = None \<longleftrightarrow> datasize (mem_pool st ! p) < n \<or>
       head (msc (mem_pool st ! p) ! unat (global_index (mem_pool st ! p) AND 3)) = Some [])"
proof -
  have p: "sw_pool p" using assms(2) by (simp add: sw_pool_def)
  note pi = mem_invD(1) [OF mp_reach_inv [OF assms(1)] p]
  have "head (msc (mem_pool st ! p) ! turn p st) = Some (chain_of p st (turn p st))"
    using pool_invD(1) [OF pi turn_less [of p st]] by simp
  then show ?thesis
    unfolding mem_pool_alloc_eq [OF pi p] turn_def [symmetric] by (auto split: list.splits)
qed

theorem mem_pool_alloc_exact_witness:
  "\<exists>st r st'. mp_reach st \<and> mem_pool_alloc MEM_POOL_ID_SMALL_BUFFER 3000 st = Inr (r, st') \<and> r = None"
proof -
  obtain st where st: "mp_reach st" "datasize (mem_pool st ! MEM_POOL_ID_SMALL_BUFFER) = 2024" using booted by blast
  with mem_pool_alloc_exact [OF st(1), of MEM_POOL_ID_SMALL_BUFFER 3000] show ?thesis by auto
qed





end
