(* ===== verification/Mbuf.thy ===== *)
theory Mbuf
  imports Bytes
begin

text \<open>
  The packet descriptor \<open>mbuf_t\<close> of \<open>dataplane/src/include/mbuf.h\<close>. Pointers into the packet are 64-bit
  addresses, 0 for \<open>NULL\<close>; the bytes of the packet buffer from \<open>pkt_ptr\<close> on are part of the record
  (\<open>pkt_data\<close>), and a read through a pointer is a read at its distance from \<open>pkt_ptr\<close>. Mbufs and flow
  nodes are named by numbers.
\<close>

section \<open>The descriptor\<close>

text \<open>The fields of \<open>cvmx_buf_ptr_t\<close> the program uses.\<close>

record buf_ptr =
  bp_addr :: u64
  bp_back :: u64
  bp_pool :: u64

record mbuf_t =
  magic_flag :: u32
  pkt_space :: u16
  pkt_totallen :: u16
  packet_ptr :: buf_ptr
  pkt_ptr :: u64
  ethh :: u64
  vlanh :: u64
  network_header :: u64
  transport_header :: u64
  input_port :: u32
  eth_dst :: "u8 list"
  eth_src :: "u8 list"
  sip :: u32
  dip :: u32
  sport :: u16
  dport :: u16
  proto :: u8
  vlan_idx :: u8
  payload_len :: u16
  vlan_id :: u16
  defrag_id :: u16
  payload :: u64
  frag_offset :: int
  frag_len :: int
  mflags :: u32
  flow_hash :: u32
  flow :: "nat option"
  pkt_data :: "u8 list"

definition zero_mbuf :: mbuf_t where
  "zero_mbuf = \<lparr>magic_flag = 0, pkt_space = 0, pkt_totallen = 0, packet_ptr = \<lparr>bp_addr = 0, bp_back = 0, bp_pool = 0\<rparr>,
     pkt_ptr = 0, ethh = 0, vlanh = 0, network_header = 0, transport_header = 0, input_port = 0, eth_dst = replicate 6 0,
     eth_src = replicate 6 0, sip = 0, dip = 0, sport = 0, dport = 0, proto = 0, vlan_idx = 0, payload_len = 0, vlan_id = 0,
     defrag_id = 0, payload = 0, frag_offset = 0, frag_len = 0, mflags = 0, flow_hash = 0, flow = None, pkt_data = []\<rparr>"

definition MBUF_MAGIC_NUM :: u32 where
  "MBUF_MAGIC_NUM = 0xab00ab00"

definition PKTBUF_HW :: u16 where
  "PKTBUF_HW = 1"

definition PKTBUF_SW :: u16 where
  "PKTBUF_SW = 2"

definition PKT_HAS_FLOW :: u32 where
  "PKT_HAS_FLOW = push_bit 8 1"

section \<open>Reads through packet pointers\<close>

text \<open>\<open>n\<close> bytes at the pointer \<open>p\<close>; outside the buffer the read is a fault.\<close>

definition read_pkt :: "mbuf_t \<Rightarrow> u64 \<Rightarrow> nat \<Rightarrow> u8 list res" where
  "read_pkt m p n =
     (let off = unat (p - pkt_ptr m) in
      if off + n \<le> length (pkt_data m) then Inr (take n (drop off (pkt_data m))) else Inl OutOfBounds)"

definition pkt8 :: "mbuf_t \<Rightarrow> u64 \<Rightarrow> u8 res" where
  "pkt8 m p = rbind (read_pkt m p 1) (\<lambda>bs. Inr (get8 bs 0))"

definition pkt16 :: "mbuf_t \<Rightarrow> u64 \<Rightarrow> u16 res" where
  "pkt16 m p = rbind (read_pkt m p 2) (\<lambda>bs. Inr (get16 bs 0))"

definition pkt32 :: "mbuf_t \<Rightarrow> u64 \<Rightarrow> u32 res" where
  "pkt32 m p = rbind (read_pkt m p 4) (\<lambda>bs. Inr (get32 bs 0))"

section \<open>Moving a packet to another buffer\<close>

text \<open>\<open>packet_header_ptr_adjust\<close>: every set pointer keeps its distance from the start of the packet.\<close>

definition moved :: "u64 \<Rightarrow> u64 \<Rightarrow> u64 \<Rightarrow> u64" where
  "moved old new p = new + (p - old)"

definition packet_header_ptr_adjust :: "mbuf_t \<Rightarrow> u64 \<Rightarrow> u64 \<Rightarrow> mbuf_t" where
  "packet_header_ptr_adjust mb old_pkt new_pkt =
     mb\<lparr>ethh := if ethh mb \<noteq> 0 then moved old_pkt new_pkt (ethh mb) else ethh mb,
        vlanh := if vlan_idx mb \<noteq> 0 then moved old_pkt new_pkt (vlanh mb) else vlanh mb,
        network_header := if network_header mb \<noteq> 0 then moved old_pkt new_pkt (network_header mb) else network_header mb,
        transport_header := if transport_header mb \<noteq> 0 then moved old_pkt new_pkt (transport_header mb) else transport_header mb,
        payload := if payload mb \<noteq> 0 then moved old_pkt new_pkt (payload mb) else payload mb\<rparr>"

section \<open>Lemmas\<close>

lemma moved_distance [simp]: "moved old new p - new = p - old"
  by (simp add: moved_def)

lemma read_pkt_length: "read_pkt m p n = Inr bs \<Longrightarrow> length bs = n"
  by (auto simp: read_pkt_def Let_def split: if_splits)

lemma read_pkt_ok:
  "unat (p - pkt_ptr m) + n \<le> length (pkt_data m) \<Longrightarrow>
    read_pkt m p n = Inr (take n (drop (unat (p - pkt_ptr m)) (pkt_data m)))"
  by (simp add: read_pkt_def Let_def)

lemma pkt_reads_ok:
  "unat (p - pkt_ptr m) + 1 \<le> length (pkt_data m) \<Longrightarrow> pkt8 m p = Inr (get8 (pkt_data m) (unat (p - pkt_ptr m)))"
  "unat (p - pkt_ptr m) + 2 \<le> length (pkt_data m) \<Longrightarrow> pkt16 m p = Inr (get16 (pkt_data m) (unat (p - pkt_ptr m)))"
  "unat (p - pkt_ptr m) + 4 \<le> length (pkt_data m) \<Longrightarrow> pkt32 m p = Inr (get32 (pkt_data m) (unat (p - pkt_ptr m)))"
  by (simp_all add: pkt8_def pkt16_def pkt32_def read_pkt_ok get8_def get16_def get32_def)

text \<open>The distance of a pointer behind another one.\<close>

lemma ptr_off:
  fixes p q :: u64
  assumes "unat (p - q) + n < 2 ^ 64"
  shows "unat (p + of_nat n - q) = unat (p - q) + n"
proof -
  have "p + of_nat n - q = (p - q) + of_nat n" by (simp add: algebra_simps)
  moreover have "unat (of_nat n :: u64) = n" using assms by (simp add: unat_of_nat)
  ultimately show ?thesis using assms by (simp only: unat_word_ariths) simp
qed

end
