(* ===== verification/Flow.thy ===== *)
theory Flow
  imports Hash Hlist MemPool Mbuf
begin

text \<open>
  The flow table of \<open>dataplane/src/flow/flow.c\<close> and \<open>flow.h\<close>: 65536 hash chains of flow nodes, looked up
  and extended for every packet and swept by a timer. A critical section under a bucket lock is one
  function; the cores interleave at the sections. An item lock is part of the state: taking a held one
  is the result \<open>Blocked\<close>. The buffers of the hardware allocator are arguments (\<open>None\<close> for \<open>NULL\<close>) and
  the buffers handed back to it are logged in order. \<open>now\<close> is what \<open>cvmx_get_cycle\<close> returns.
\<close>

section \<open>State\<close>

record flow_item_t =
  cycle :: u64
  use_cnt :: u32
  f_sip :: u32
  f_dip :: u32
  f_sport :: u16
  f_dport :: u16
  f_protocol :: u16
  f_input_port :: u16

text \<open>
  Heads 0 to 65535 are the buckets; \<open>timeout_head\<close> is the local list of the timer. \<open>ictrl\<close> is the control
  block in front of an item, \<open>new_flow\<close> and \<open>del_flow\<close> are the counters of the running core.
\<close>

record flow_state =
  hh :: hheap
  item :: "nat \<Rightarrow> flow_item_t"
  ictrl :: "nat \<Rightarrow> mem_slice_ctrl"
  item_locked :: "nat \<Rightarrow> bool"
  new_flow :: u64
  del_flow :: u64
  fpa_freed :: "nat list"

definition FLOW_BUCKET_NUM :: nat where
  "FLOW_BUCKET_NUM = 65536"

definition FLOW_BUCKET_MASK :: u32 where
  "FLOW_BUCKET_MASK = 0xFFFF"

definition timeout_head :: nat where
  "timeout_head = FLOW_BUCKET_NUM"

section \<open>Items\<close>

definition flow_item_alloc :: "nat option \<Rightarrow> flow_state \<Rightarrow> nat option \<times> flow_state" where
  "flow_item_alloc buf t = (case buf of
     None \<Rightarrow> (None, t)
   | Some a \<Rightarrow> (Some a, t\<lparr>ictrl := (ictrl t)(a := (ictrl t a)\<lparr>magic := MEM_POOL_MAGIC_NUM, pool_id := of_nat FPA_POOL_ID_FLOW_NODE\<rparr>)\<rparr>))"

definition flow_item_free :: "nat \<Rightarrow> flow_state \<Rightarrow> flow_state" where
  "flow_item_free f t =
     (if magic (ictrl t f) \<noteq> MEM_POOL_MAGIC_NUM then t
      else if unat (pool_id (ictrl t f)) \<noteq> FPA_POOL_ID_FLOW_NODE then t
      else t\<lparr>fpa_freed := fpa_freed t @ [f]\<rparr>)"

definition FLOW_ITEM_LOCK :: "nat \<Rightarrow> flow_state \<Rightarrow> flow_state res" where
  "FLOW_ITEM_LOCK f t = (if item_locked t f then Inl Blocked else Inr (t\<lparr>item_locked := (item_locked t)(f := True)\<rparr>))"

definition FLOW_ITEM_UNLOCK :: "nat \<Rightarrow> flow_state \<Rightarrow> flow_state" where
  "FLOW_ITEM_UNLOCK f t = t\<lparr>item_locked := (item_locked t)(f := False)\<rparr>"

definition FlowIncrUsecnt :: "nat \<Rightarrow> flow_state \<Rightarrow> flow_state" where
  "FlowIncrUsecnt f t = t\<lparr>item := (item t)(f := (item t f)\<lparr>use_cnt := use_cnt (item t f) + 1\<rparr>)\<rparr>"

definition FlowDecrUsecnt :: "nat \<Rightarrow> flow_state \<Rightarrow> flow_state" where
  "FlowDecrUsecnt f t = t\<lparr>item := (item t)(f := (item t f)\<lparr>use_cnt := use_cnt (item t f) - 1\<rparr>)\<rparr>"

text \<open>The pointer \<open>*d\<close> in the mbuf is returned with the state.\<close>

definition FlowReference :: "nat option \<Rightarrow> nat \<Rightarrow> flow_state \<Rightarrow> nat option \<times> flow_state" where
  "FlowReference d f t = (if d = Some f then (d, t) else (Some f, FlowIncrUsecnt f t))"

definition FlowDeReference :: "nat option \<Rightarrow> flow_state \<Rightarrow> nat option \<times> flow_state" where
  "FlowDeReference d t = (case d of None \<Rightarrow> (None, t) | Some f \<Rightarrow> (None, FlowDecrUsecnt f t))"

section \<open>Lookup and insertion\<close>

definition flowhashfn :: "u32 \<Rightarrow> u32 \<Rightarrow> u16 \<Rightarrow> u16 \<Rightarrow> u8 \<Rightarrow> u32" where
  "flowhashfn saddr daddr sp dp prot = flow_hashfn prot saddr daddr sp dp AND FLOW_BUCKET_MASK"

definition FlowMatch :: "flow_item_t \<Rightarrow> mbuf_t \<Rightarrow> bool" where
  "FlowMatch f m \<longleftrightarrow>
     (f_sip f = sip m \<and> f_dip f = dip m \<and> f_sport f = sport m \<and> f_dport f = dport m \<and> f_protocol f = ucast (proto m)) \<or>
     (f_sip f = dip m \<and> f_dip f = sip m \<and> f_sport f = dport m \<and> f_dport f = sport m \<and> f_protocol f = ucast (proto m))"

definition FlowInsert :: "nat \<Rightarrow> nat \<Rightarrow> flow_state \<Rightarrow> flow_state res" where
  "FlowInsert b f t = rbind (hlist_add_head f b (hh t)) (\<lambda>H. Inr (t\<lparr>hh := H\<rparr>))"

definition FlowFind :: "nat \<Rightarrow> u64 \<Rightarrow> nat \<Rightarrow> mbuf_t \<Rightarrow> flow_state \<Rightarrow> (nat option \<times> flow_state) res option" where
  "FlowFind fuel now b m t =
     fbind (hlist_find fuel (\<lambda>a. FlowMatch (item t a) m) (first (hh t) b) (hh t)) (\<lambda>r.
       Some (Inr (case r of
         None \<Rightarrow> (None, t)
       | Some f \<Rightarrow> (Some f, t\<lparr>item := (item t)(f := (item t f)\<lparr>cycle := now\<rparr>)\<rparr>))))"

definition new_item :: "u64 \<Rightarrow> mbuf_t \<Rightarrow> flow_item_t" where
  "new_item now m = \<lparr>cycle = now, use_cnt = 0, f_sip = sip m, f_dip = dip m, f_sport = sport m, f_dport = dport m,
     f_protocol = ucast (proto m), f_input_port = 0\<rparr>"

text \<open>
  \<open>FlowAdd\<close>: the node is filled and locked before the bucket is locked and searched again. The lock of
  the fresh node is free after the \<open>memset\<close>.
\<close>

definition FlowAdd :: "nat \<Rightarrow> nat option \<Rightarrow> u64 \<Rightarrow> nat \<Rightarrow> mbuf_t \<Rightarrow> flow_state \<Rightarrow> (nat option \<times> flow_state) res option" where
  "FlowAdd fuel buf now b m t =
     (case flow_item_alloc buf t of
        (None, t1) \<Rightarrow> Some (Inr (None, t1))
      | (Some f, t1) \<Rightarrow>
          let t2 = t1\<lparr>item := (item t1)(f := new_item now m), item_locked := (item_locked t1)(f := True)\<rparr> in
          fbind (FlowFind fuel now b m t2) (\<lambda>(r, t3).
            case r of
              None \<Rightarrow> fbind (Some (FlowInsert b f t3)) (\<lambda>t4. Some (Inr (Some f, t4\<lparr>new_flow := new_flow t4 + 1\<rparr>)))
            | Some g \<Rightarrow> fbind (Some (FLOW_ITEM_LOCK g t3)) (\<lambda>t4. Some (Inr (Some g, flow_item_free f t4)))))"

definition bucket_of :: "mbuf_t \<Rightarrow> nat" where
  "bucket_of m = unat (flowhashfn (sip m) (dip m) (sport m) (dport m) (proto m))"

text \<open>The first critical section of \<open>FlowGetFlowFromHash\<close>: a flow that is found is locked.\<close>

definition flow_lookup :: "nat \<Rightarrow> u64 \<Rightarrow> mbuf_t \<Rightarrow> flow_state \<Rightarrow> (nat option \<times> flow_state) res option" where
  "flow_lookup fuel now m t =
     fbind (FlowFind fuel now (bucket_of m) m t) (\<lambda>(r, t1).
       case r of
         None \<Rightarrow> Some (Inr (None, t1))
       | Some f \<Rightarrow> fbind (Some (FLOW_ITEM_LOCK f t1)) (\<lambda>t2. Some (Inr (Some f, t2))))"

definition FlowGetFlowFromHash ::
  "nat \<Rightarrow> nat option \<Rightarrow> u64 \<Rightarrow> u64 \<Rightarrow> mbuf_t \<Rightarrow> flow_state \<Rightarrow> (nat option \<times> flow_state) res option" where
  "FlowGetFlowFromHash fuel buf now now' m t =
     fbind (flow_lookup fuel now m t) (\<lambda>(r, t1).
       case r of
         Some f \<Rightarrow> Some (Inr (Some f, t1))
       | None \<Rightarrow> FlowAdd fuel buf now' (bucket_of m) m t1)"

section \<open>Ageing\<close>

definition FLOW_MAX_TIMEOUT :: "u64 \<Rightarrow> u64" where
  "FLOW_MAX_TIMEOUT oct_cpu_rate = 20 * oct_cpu_rate"

definition FlowTimeOut :: "u64 \<Rightarrow> flow_item_t \<Rightarrow> u64 \<Rightarrow> bool" where
  "FlowTimeOut rate f current_cycle =
     (if sint (use_cnt f) > 0 then False
      else if current_cycle > cycle f \<and> current_cycle - cycle f > FLOW_MAX_TIMEOUT rate then True
      else False)"

text \<open>The bodies of the two loops of \<open>FlowAgeTimeoutCB\<close>; a taken item lock is released again in both branches.\<close>

definition age_item :: "u64 \<Rightarrow> u64 \<Rightarrow> nat \<Rightarrow> flow_state \<Rightarrow> flow_state res" where
  "age_item rate now f t =
     (if item_locked t f then Inr t
      else if FlowTimeOut rate (item t f) now then
        rbind (hlist_del f (hh t)) (\<lambda>H.
        rbind (hlist_add_head f timeout_head H) (\<lambda>H'.
        Inr (t\<lparr>hh := H', del_flow := del_flow t + 1\<rparr>)))
      else Inr t)"

definition reap_item :: "nat \<Rightarrow> flow_state \<Rightarrow> flow_state res" where
  "reap_item f t = rbind (hlist_del f (hh t)) (\<lambda>H. Inr (flow_item_free f (t\<lparr>hh := H\<rparr>)))"

text \<open>One bucket; \<open>busy\<close> are the buckets whose lock another core holds, which the timer skips.\<close>

definition age_bucket :: "nat \<Rightarrow> (nat \<Rightarrow> bool) \<Rightarrow> u64 \<Rightarrow> u64 \<Rightarrow> nat \<Rightarrow> flow_state \<Rightarrow> flow_state res option" where
  "age_bucket fuel busy rate now i t =
     (let t1 = t\<lparr>hh := INIT_HLIST_HEAD timeout_head (hh t)\<rparr> in
      if busy i then Some (Inr t1)
      else fbind (hlist_for_each_safe fuel (age_item rate now) hh (first (hh t1) i) t1) (\<lambda>t2.
           hlist_for_each_safe fuel reap_item hh (first (hh t2) timeout_head) t2))"

fun age_from :: "nat \<Rightarrow> (nat \<Rightarrow> bool) \<Rightarrow> u64 \<Rightarrow> u64 \<Rightarrow> nat list \<Rightarrow> flow_state \<Rightarrow> flow_state res option" where
  "age_from fuel busy rate now [] t = Some (Inr t)"
| "age_from fuel busy rate now (i # is) t = fbind (age_bucket fuel busy rate now i t) (age_from fuel busy rate now is)"

definition FlowAgeTimeoutCB :: "nat \<Rightarrow> (nat \<Rightarrow> bool) \<Rightarrow> u64 \<Rightarrow> u64 \<Rightarrow> flow_state \<Rightarrow> flow_state res option" where
  "FlowAgeTimeoutCB fuel busy rate now t = age_from fuel busy rate now [0..<FLOW_BUCKET_NUM] t"

section \<open>Initialisation\<close>

text \<open>\<open>mem\<close> says whether the table could be allocated, \<open>timer\<close> whether \<open>OCT_Timer_Create\<close> succeeded.\<close>

definition FlowInit :: "bool \<Rightarrow> bool \<Rightarrow> flow_state \<Rightarrow> int \<times> flow_state" where
  "FlowInit mem timer t =
     (if \<not> mem then (SEC_NO, t)
      else let t1 = t\<lparr>hh := fold INIT_HLIST_HEAD [0..<FLOW_BUCKET_NUM] (hh t)\<rparr> in
           if \<not> timer then (SEC_NO, t1) else (SEC_OK, t1))"

section \<open>Matching and hashing\<close>

lemma FlowMatch_bucket:
  assumes "FlowMatch f m" "FlowMatch f m'"
  shows "bucket_of m = bucket_of m'"
proof -
  have up: "(ucast (ucast x :: u16) :: u8) = x" for x :: u8
    by (rule bit_word_eqI) (auto simp: bit_simps)
  have "(ucast (proto m) :: u16) = ucast (proto m')" using assms by (auto simp: FlowMatch_def)
  from arg_cong [OF this, of "\<lambda>x. ucast x :: u8"] have p: "proto m = proto m'" unfolding up .
  consider "sip m = sip m'" "dip m = dip m'" "sport m = sport m'" "dport m = dport m'"
    | "sip m = dip m'" "dip m = sip m'" "sport m = dport m'" "dport m = sport m'"
    using assms unfolding FlowMatch_def by metis
  then show ?thesis
    by cases (simp_all add: p bucket_of_def flowhashfn_def flow_hashfn_swap [of "proto m'" "dip m'" "sip m'" "dport m'" "sport m'"])
qed

lemma FlowMatch_trans: "FlowMatch f m \<Longrightarrow> FlowMatch f m' \<Longrightarrow> FlowMatch g m \<Longrightarrow> FlowMatch g m'"
  by (auto simp: FlowMatch_def)

lemma FlowMatch_new [simp]: "FlowMatch (new_item now m) m"
  by (simp add: FlowMatch_def new_item_def)

lemma FlowMatch_cycle [simp]: "FlowMatch (f\<lparr>cycle := c\<rparr>) m = FlowMatch f m" "FlowMatch (f\<lparr>use_cnt := u\<rparr>) m = FlowMatch f m"
  by (simp_all add: FlowMatch_def)

lemma bucket_of_less: "bucket_of m < FLOW_BUCKET_NUM"
proof -
  let ?h = "flow_hashfn (proto m) (sip m) (dip m) (sport m) (dport m)"
  have "?h AND 0xFFFF \<le> 0xFFFF" by (rule word_and_le1)
  then have "unat (?h AND 0xFFFF) \<le> 65535" by (simp add: word_le_nat_alt)
  then show ?thesis by (simp add: bucket_of_def flowhashfn_def FLOW_BUCKET_MASK_def FLOW_BUCKET_NUM_def)
qed

section \<open>Invariant\<close>

definition item_ok :: "flow_state \<Rightarrow> nat \<Rightarrow> bool" where
  "item_ok t a \<longleftrightarrow> magic (ictrl t a) = MEM_POOL_MAGIC_NUM \<and> unat (pool_id (ictrl t a)) = FPA_POOL_ID_FLOW_NODE"

text \<open>
  \<open>ch i\<close> are the nodes of bucket \<open>i\<close>: the chains are disjoint, an item only matches packets that hash to
  its bucket, no two items match the same packet, and every item has an intact control block.
\<close>

definition flow_inv :: "(nat \<Rightarrow> nat list) \<Rightarrow> flow_state \<Rightarrow> bool" where
  "flow_inv ch t \<longleftrightarrow> (\<forall>i < FLOW_BUCKET_NUM. hl (hh t) i (ch i)) \<and>
     (\<forall>i < FLOW_BUCKET_NUM. \<forall>j < FLOW_BUCKET_NUM. i \<noteq> j \<longrightarrow> set (ch i) \<inter> set (ch j) = {}) \<and>
     (\<forall>i < FLOW_BUCKET_NUM. \<forall>a \<in> set (ch i). item_ok t a \<and> (\<forall>m. FlowMatch (item t a) m \<longrightarrow> bucket_of m = i)) \<and>
     (\<forall>i < FLOW_BUCKET_NUM. \<forall>a \<in> set (ch i). \<forall>b \<in> set (ch i). \<forall>m.
        FlowMatch (item t a) m \<longrightarrow> FlowMatch (item t b) m \<longrightarrow> a = b)"

definition in_table :: "(nat \<Rightarrow> nat list) \<Rightarrow> nat \<Rightarrow> bool" where
  "in_table ch a \<longleftrightarrow> (\<exists>i < FLOW_BUCKET_NUM. a \<in> set (ch i))"

lemma flow_invD:
  assumes "flow_inv ch t" "i < FLOW_BUCKET_NUM"
  shows "hl (hh t) i (ch i)" "j < FLOW_BUCKET_NUM \<Longrightarrow> i \<noteq> j \<Longrightarrow> set (ch i) \<inter> set (ch j) = {}"
    "a \<in> set (ch i) \<Longrightarrow> item_ok t a" "a \<in> set (ch i) \<Longrightarrow> FlowMatch (item t a) m \<Longrightarrow> bucket_of m = i"
    "a \<in> set (ch i) \<Longrightarrow> b \<in> set (ch i) \<Longrightarrow> FlowMatch (item t a) m \<Longrightarrow> FlowMatch (item t b) m \<Longrightarrow> a = b"
  using assms unfolding flow_inv_def by blast+

lemma flow_invI:
  assumes "\<And>i. i < FLOW_BUCKET_NUM \<Longrightarrow> hl (hh t) i (ch i)"
    and "\<And>i j. i < FLOW_BUCKET_NUM \<Longrightarrow> j < FLOW_BUCKET_NUM \<Longrightarrow> i \<noteq> j \<Longrightarrow> set (ch i) \<inter> set (ch j) = {}"
    and "\<And>i a. i < FLOW_BUCKET_NUM \<Longrightarrow> a \<in> set (ch i) \<Longrightarrow> item_ok t a"
    and "\<And>i a m. i < FLOW_BUCKET_NUM \<Longrightarrow> a \<in> set (ch i) \<Longrightarrow> FlowMatch (item t a) m \<Longrightarrow> bucket_of m = i"
    and "\<And>i a b m. i < FLOW_BUCKET_NUM \<Longrightarrow> a \<in> set (ch i) \<Longrightarrow> b \<in> set (ch i) \<Longrightarrow>
      FlowMatch (item t a) m \<Longrightarrow> FlowMatch (item t b) m \<Longrightarrow> a = b"
  shows "flow_inv ch t"
  unfolding flow_inv_def
proof (intro conjI)
  show "\<forall>i < FLOW_BUCKET_NUM. hl (hh t) i (ch i)" using assms(1) by blast
  show "\<forall>i < FLOW_BUCKET_NUM. \<forall>j < FLOW_BUCKET_NUM. i \<noteq> j \<longrightarrow> set (ch i) \<inter> set (ch j) = {}" using assms(2) by blast
  show "\<forall>i < FLOW_BUCKET_NUM. \<forall>a \<in> set (ch i). item_ok t a \<and> (\<forall>m. FlowMatch (item t a) m \<longrightarrow> bucket_of m = i)"
    using assms(3,4) by blast
  show "\<forall>i < FLOW_BUCKET_NUM. \<forall>a \<in> set (ch i). \<forall>b \<in> set (ch i). \<forall>m.
      FlowMatch (item t a) m \<longrightarrow> FlowMatch (item t b) m \<longrightarrow> a = b" using assms(5) by blast
qed

text \<open>The invariant only depends on the chains and, for the items of the table, on what they match.\<close>

lemma flow_inv_cong:
  assumes inv: "flow_inv ch t" and "\<And>i. i < FLOW_BUCKET_NUM \<Longrightarrow> hl (hh t') i (ch i)"
    and ok: "\<And>a. in_table ch a \<Longrightarrow> item_ok t' a = item_ok t a"
    and mt: "\<And>a m. in_table ch a \<Longrightarrow> FlowMatch (item t' a) m = FlowMatch (item t a) m"
  shows "flow_inv ch t'"
proof (rule flow_invI)
  fix i assume i: "i < FLOW_BUCKET_NUM"
  have tab: "in_table ch a" if "a \<in> set (ch i)" for a using that i by (auto simp: in_table_def)
  show "hl (hh t') i (ch i)" by (rule assms(2) [OF i])
  show "set (ch i) \<inter> set (ch j) = {}" if "j < FLOW_BUCKET_NUM" "i \<noteq> j" for j by (rule flow_invD(2) [OF inv i that])
  show "item_ok t' a" if "a \<in> set (ch i)" for a using flow_invD(3) [OF inv i that] ok [OF tab [OF that]] by simp
  show "bucket_of m = i" if "a \<in> set (ch i)" "FlowMatch (item t' a) m" for a m
    using flow_invD(4) [OF inv i that(1)] mt [OF tab [OF that(1)]] that(2) by simp
  show "a = b" if "a \<in> set (ch i)" "b \<in> set (ch i)" "FlowMatch (item t' a) m" "FlowMatch (item t' b) m" for a b m
    using flow_invD(5) [OF inv i that(1,2)] mt [OF tab [OF that(1)]] mt [OF tab [OF that(2)]] that(3,4) by simp
qed

lemma flow_unique:
  assumes "flow_inv ch t" "i < FLOW_BUCKET_NUM" "j < FLOW_BUCKET_NUM" "a \<in> set (ch i)" "b \<in> set (ch j)"
    "FlowMatch (item t a) m" "FlowMatch (item t b) m"
  shows "a = b"
  using flow_invD(4) [OF assms(1,2,4,6)] flow_invD(4) [OF assms(1,3,5,7)] flow_invD(5) [OF assms(1,2)] assms by blast

section \<open>Lookup\<close>

lemma FlowFind_eq:
  assumes "flow_inv ch t" "b < FLOW_BUCKET_NUM" "length (ch b) < fuel"
  shows "FlowFind fuel now b m t = Some (Inr (case find (\<lambda>a. FlowMatch (item t a) m) (ch b) of
    None \<Rightarrow> (None, t) | Some f \<Rightarrow> (Some f, t\<lparr>item := (item t)(f := (item t f)\<lparr>cycle := now\<rparr>)\<rparr>)))"
  using hlist_find_hl [OF flow_invD(1) [OF assms(1,2)] assms(3)] by (simp add: FlowFind_def)

lemma FlowFind_cases:
  assumes "flow_inv ch t" "b < FLOW_BUCKET_NUM" "length (ch b) < fuel"
  obtains "\<And>a. a \<in> set (ch b) \<Longrightarrow> \<not> FlowMatch (item t a) m" "FlowFind fuel now b m t = Some (Inr (None, t))"
  | f where "f \<in> set (ch b)" "FlowMatch (item t f) m"
      "FlowFind fuel now b m t = Some (Inr (Some f, t\<lparr>item := (item t)(f := (item t f)\<lparr>cycle := now\<rparr>)\<rparr>))"
proof (cases "find (\<lambda>a. FlowMatch (item t a) m) (ch b)")
  case None
  note eq = FlowFind_eq [OF assms, of now m, unfolded None option.case]
  show thesis by (rule that(1) [OF _ eq]) (use None in \<open>auto simp: find_None_iff\<close>)
next
  case (Some f)
  note eq = FlowFind_eq [OF assms, of now m, unfolded Some option.case]
  show thesis by (rule that(2) [OF _ _ eq]) (use Some in \<open>auto simp: find_Some_iff\<close>)
qed

lemma flow_inv_touch:
  "flow_inv ch t \<Longrightarrow> flow_inv ch (t\<lparr>item := (item t)(f := (item t f)\<lparr>cycle := now\<rparr>)\<rparr>)"
  by (rule flow_inv_cong) (auto simp: item_ok_def dest: flow_invD(1))

lemma flow_inv_other [simp]: "flow_inv ch (t\<lparr>item_locked := l\<rparr>) = flow_inv ch t" "flow_inv ch (t\<lparr>new_flow := n\<rparr>) = flow_inv ch t"
  "flow_inv ch (t\<lparr>del_flow := n\<rparr>) = flow_inv ch t" "flow_inv ch (t\<lparr>fpa_freed := fs\<rparr>) = flow_inv ch t"
  by (simp_all add: flow_inv_def item_ok_def)

lemma flow_inv_insert:
  assumes inv: "flow_inv ch t" and b: "b = bucket_of m" and f: "\<not> in_table ch f" "item_ok t f" "item t f = new_item now m"
    and nomatch: "\<And>a. a \<in> set (ch b) \<Longrightarrow> \<not> FlowMatch (item t a) m"
  shows "\<exists>t'. FlowInsert b f t = Inr t' \<and> flow_inv (ch(b := f # ch b)) t' \<and> item t' = item t \<and> item_locked t' = item_locked t \<and>
    ictrl t' = ictrl t \<and> fpa_freed t' = fpa_freed t \<and> del_flow t' = del_flow t"
proof -
  have bN: "b < FLOW_BUCKET_NUM" using b bucket_of_less by simp
  have fn: "f \<notin> set (ch i)" if "i < FLOW_BUCKET_NUM" for i using f(1) that by (auto simp: in_table_def)
  obtain H where H: "hlist_add_head f b (hh t) = Inr H" "hl H b (f # ch b)"
    using hlist.add_chain [OF flow_invD(1) [OF inv bN] fn [OF bN]] by blast
  have others: "hl H i (ch i)" if "i < FLOW_BUCKET_NUM" "i \<noteq> b" for i
    using hlist.add_frame [OF flow_invD(1) [OF inv bN] flow_invD(1) [OF inv that(1)] H(1)] that fn bN
      flow_invD(2) [OF inv bN that(1)] by blast
  let ?ch = "ch(b := f # ch b)" and ?t = "t\<lparr>hh := H\<rparr>"
  have bucket: "bucket_of m' = b" if "FlowMatch (item t f) m'" for m'
    using FlowMatch_bucket [of "new_item now m" m m'] that f(3) b by simp
  have unmatched: "\<not> FlowMatch (item t a) m'" if "a \<in> set (ch b)" "FlowMatch (item t f) m'" for a m'
    using nomatch [OF that(1)] FlowMatch_trans [of "item t f" m' m "item t a"] that(2) f(3) by auto
  have "flow_inv ?ch ?t"
  proof (rule flow_invI)
    fix i assume i: "i < FLOW_BUCKET_NUM"
    show "hl (hh ?t) i (?ch i)" using H(2) others i by simp
    show "set (?ch i) \<inter> set (?ch j) = {}" if "j < FLOW_BUCKET_NUM" "i \<noteq> j" for j
      using flow_invD(2) [OF inv i that] fn [OF i] fn [OF that(1)] that(2) by (cases "i = b"; cases "j = b") simp_all
    show "item_ok ?t a" if "a \<in> set (?ch i)" for a
      using that f(2) flow_invD(3) [OF inv i] by (cases "i = b") (auto simp: item_ok_def)
    show "bucket_of m' = i" if "a \<in> set (?ch i)" "FlowMatch (item ?t a) m'" for a m'
      using that bucket flow_invD(4) [OF inv i] by (cases "i = b") auto
    show "a = a'" if "a \<in> set (?ch i)" "a' \<in> set (?ch i)" "FlowMatch (item ?t a) m'" "FlowMatch (item ?t a') m'" for a a' m'
    proof (cases "i = b")
      case True
      with that unmatched flow_invD(5) [OF inv i, of a a' m'] show ?thesis by auto
    qed (use that flow_invD(5) [OF inv i, of a a' m'] in simp)
  qed
  with H(1) show ?thesis by (auto simp: FlowInsert_def)
qed

lemma item_ok_alloc: "flow_item_alloc (Some f) t = (Some f, t') \<Longrightarrow> item_ok t' f"
  by (auto simp: flow_item_alloc_def item_ok_def FPA_POOL_ID_FLOW_NODE_def)

text \<open>\<open>FlowAdd\<close> with a node that is not in the table: the node is inserted, or a flow that another core added meanwhile is used.\<close>

lemma FlowAdd_cases:
  assumes inv: "flow_inv ch t" and f: "\<not> in_table ch f" and b: "b = bucket_of m" and fuel: "length (ch b) < fuel"
  obtains t' where "\<And>a. a \<in> set (ch b) \<Longrightarrow> \<not> FlowMatch (item t a) m" "FlowAdd fuel (Some f) now b m t = Some (Inr (Some f, t'))"
      "flow_inv (ch(b := f # ch b)) t'" "item t' f = new_item now m" "item_locked t' = (item_locked t)(f := True)" "fpa_freed t' = fpa_freed t"
  | g where "g \<in> set (ch b)" "FlowMatch (item t g) m" "item_locked t g" "FlowAdd fuel (Some f) now b m t = Some (Inl Blocked)"
  | g t' where "g \<in> set (ch b)" "FlowMatch (item t g) m" "\<not> item_locked t g" "FlowAdd fuel (Some f) now b m t = Some (Inr (Some g, t'))"
      "flow_inv ch t'" "item_locked t' = (item_locked t)(f := True, g := True)" "fpa_freed t' = fpa_freed t @ [f]"
proof -
  obtain t1 where al: "flow_item_alloc (Some f) t = (Some f, t1)" by (simp add: flow_item_alloc_def)
  define t2 where "t2 = t1\<lparr>item := (item t1)(f := new_item now m), item_locked := (item_locked t1)(f := True)\<rparr>"
  have bN: "b < FLOW_BUCKET_NUM" using b bucket_of_less by simp
  have t1: "t1 = t\<lparr>ictrl := ictrl t1\<rparr>" "\<And>a. a \<noteq> f \<Longrightarrow> ictrl t1 a = ictrl t a" using al by (auto simp: flow_item_alloc_def)
  have ok: "item_ok t2 f" using item_ok_alloc [OF al] by (simp add: t2_def item_ok_def)
  have t2: "hh t2 = hh t" "item t2 = (item t)(f := new_item now m)" "item_locked t2 = (item_locked t)(f := True)" "fpa_freed t2 = fpa_freed t"
    using arg_cong [OF t1(1), of hh] arg_cong [OF t1(1), of item] arg_cong [OF t1(1), of item_locked] arg_cong [OF t1(1), of fpa_freed]
    by (simp_all add: t2_def)
  have fn: "a \<noteq> f" if "in_table ch a" for a using f that by blast
  have inv2: "flow_inv ch t2"
    using t2(1,2) t1(2) fn flow_invD(1) [OF inv] by (intro flow_inv_cong [OF inv]) (auto simp: item_ok_def t2_def)
  have same: "item t2 a = item t a" if "a \<in> set (ch b)" for a using that bN f t2(2) by (auto simp: in_table_def)
  have add: "FlowAdd fuel (Some f) now b m t = fbind (FlowFind fuel now b m t2) (\<lambda>(r, t3).
      case r of
        None \<Rightarrow> fbind (Some (FlowInsert b f t3)) (\<lambda>t4. Some (Inr (Some f, t4\<lparr>new_flow := new_flow t4 + 1\<rparr>)))
      | Some g \<Rightarrow> fbind (Some (FLOW_ITEM_LOCK g t3)) (\<lambda>t4. Some (Inr (Some g, flow_item_free f t4))))"
    unfolding FlowAdd_def al t2_def by (simp add: Let_def)
  show thesis
  proof (rule FlowFind_cases [OF inv2 bN fuel, of m now])
    assume n: "\<And>a. a \<in> set (ch b) \<Longrightarrow> \<not> FlowMatch (item t2 a) m" and ff: "FlowFind fuel now b m t2 = Some (Inr (None, t2))"
    obtain t4 where t4: "FlowInsert b f t2 = Inr t4" "flow_inv (ch(b := f # ch b)) t4"
        "item t4 = item t2" "item_locked t4 = item_locked t2" "fpa_freed t4 = fpa_freed t2"
      using flow_inv_insert [OF inv2 b f ok, of now] n t2(2) by auto
    have "item t4 f = new_item now m" "item_locked t4 = (item_locked t)(f := True)" "fpa_freed t4 = fpa_freed t"
      using t4(3-5) t2 by simp_all
    moreover have "flow_inv (ch(b := f # ch b)) (t4\<lparr>new_flow := new_flow t4 + 1\<rparr>)"
      using t4(2) by simp
    moreover have "FlowAdd fuel (Some f) now b m t = Some (Inr (Some f, t4\<lparr>new_flow := new_flow t4 + 1\<rparr>))"
      unfolding add ff by (simp add: t4(1))
    moreover have "\<not> FlowMatch (item t a) m" if "a \<in> set (ch b)" for a using n [OF that] same [OF that] by simp
    ultimately show thesis using that(1) [of "t4\<lparr>new_flow := new_flow t4 + 1\<rparr>"] by simp
  next
    fix g assume g: "g \<in> set (ch b)" "FlowMatch (item t2 g) m"
      and ff: "FlowFind fuel now b m t2 = Some (Inr (Some g, t2\<lparr>item := (item t2)(g := (item t2 g)\<lparr>cycle := now\<rparr>)\<rparr>))"
    have gf: "g \<noteq> f" using g(1) bN f by (auto simp: in_table_def)
    have gm: "FlowMatch (item t g) m" using g same by auto
    let ?t3 = "t2\<lparr>item := (item t2)(g := (item t2 g)\<lparr>cycle := now\<rparr>)\<rparr>"
    show thesis
    proof (cases "item_locked t g")
      case True
      with that(2) [OF g(1) gm] add ff gf t2(3) show thesis by (simp add: FLOW_ITEM_LOCK_def)
    next
      case False
      let ?t4 = "?t3\<lparr>item_locked := (item_locked t2)(g := True)\<rparr>"
      have "flow_inv ch ?t4" using flow_inv_touch [OF inv2] by simp
      then have "flow_inv ch (flow_item_free f ?t4)" by (simp add: flow_item_free_def)
      moreover have "fpa_freed (flow_item_free f ?t4) = fpa_freed t @ [f]" using ok t2(4) by (simp add: flow_item_free_def item_ok_def)
      moreover have "item_locked (flow_item_free f ?t4) = (item_locked t)(f := True, g := True)" by (simp add: flow_item_free_def t2(3))
      moreover have "FlowAdd fuel (Some f) now b m t = Some (Inr (Some g, flow_item_free f ?t4))"
        using add ff gf False t2(3) by (simp add: FLOW_ITEM_LOCK_def)
      ultimately show thesis using that(3) [OF g(1) gm False] by blast
    qed
  qed
qed

end
