(* ===== verification/Packet.thy ===== *)
theory Packet
  imports Flow
begin

text \<open>
  The life of a packet descriptor, \<open>dataplane/src/common/mbuf.c\<close>, and the packet counters of
  \<open>decode/decode-statistic.h\<close>. A packet lives in a hardware buffer, given back to its hardware pool, or
  in a slice of a software pool. What is given back to the hardware is logged in order.
\<close>

section \<open>Counters\<close>

datatype stat = RECV_ERR | RECV_ADDR_ERR | RECV_OK | RECV_PC | RECV_PB
  | L2_HEADER_ERR | L2_UNSUPPORT | L2_RECV_OK
  | VLAN_HEADER_ERR | VLAN_LAYER_EXCEED | VLAN_UNSUPPORT | VLAN_RECV_OK
  | IPV4_HEADER_ERR | IPV4_VERSION_ERR | IPV4_LEN_ERR | IPV4_UNSUPPORT | IPV4_RECV_OK
  | FRAG_LEN_ERR | FRAG_FCB_NO | FRAG_HW2SW_ERR | FRAG_DEFRAG_ERR | FRAG_REASM_OK | FRAG_CACHE_OK
  | UDP_HEADER_ERR | UDP_LEN_ERR | UDP_RECV_OK
  | TCP_HEADER_ERR | TCP_LEN_ERR | TCP_RECV_OK
  | FLOW_GETNODE_ERR | FLOW_PROC_OK
  | TX_SEND_PORT_ERR | TX_HW_SEND_ERR | TX_SW_DESC_ERR | TX_SW_SEND_ERR | TX_SEND_OVER

section \<open>State\<close>

text \<open>
  \<open>mbufs\<close> and \<open>mctrl\<close> are the descriptors and the control blocks in front of them, by number;
  \<open>host_freed\<close> are the nodes given back to the hardware pool of descriptors, \<open>hw_freed\<close> the packet
  buffers with their pools, and \<open>stats\<close> the counters of the running core.
\<close>

record pkt_state =
  flows :: flow_state
  mem :: mem_state
  mbufs :: "nat \<Rightarrow> mbuf_t"
  mctrl :: "nat \<Rightarrow> mem_slice_ctrl"
  host_freed :: "nat list"
  hw_freed :: "(u64 \<times> u64) list"
  stats :: "stat \<Rightarrow> u64"

definition STAT :: "stat \<Rightarrow> 'a pkt_state_scheme \<Rightarrow> 'a pkt_state_scheme" where
  "STAT c s = s\<lparr>stats := (stats s)(c := stats s c + 1)\<rparr>"

definition upd_mbuf :: "nat \<Rightarrow> (mbuf_t \<Rightarrow> mbuf_t) \<Rightarrow> 'a pkt_state_scheme \<Rightarrow> 'a pkt_state_scheme" where
  "upd_mbuf mb g s = s\<lparr>mbufs := (mbufs s)(mb := g (mbufs s mb))\<rparr>"

section \<open>Descriptors\<close>

definition packet_recycle :: "nat \<Rightarrow> 'a pkt_state_scheme \<Rightarrow> 'a pkt_state_scheme" where
  "packet_recycle mb s =
     (case FlowDeReference (flow (mbufs s mb)) (flows s) of
        (d, t) \<Rightarrow> upd_mbuf mb (\<lambda>m. m\<lparr>flow := d\<rparr>) (s\<lparr>flows := t\<rparr>))"

definition mbuf_alloc :: "nat option \<Rightarrow> 'a pkt_state_scheme \<Rightarrow> nat option \<times> 'a pkt_state_scheme" where
  "mbuf_alloc buf s = (case buf of
     None \<Rightarrow> (None, s)
   | Some a \<Rightarrow> (Some a, s\<lparr>mctrl := (mctrl s)(a := (mctrl s a)\<lparr>magic := MEM_POOL_MAGIC_NUM, pool_id := of_nat FPA_POOL_ID_HOST_MBUF\<rparr>)\<rparr>))"

definition mbuf_free :: "nat \<Rightarrow> 'a pkt_state_scheme \<Rightarrow> 'a pkt_state_scheme" where
  "mbuf_free mb s =
     (let s1 = packet_recycle mb s in
      if magic (mctrl s1 mb) \<noteq> MEM_POOL_MAGIC_NUM then s1
      else if unat (pool_id (mctrl s1 mb)) \<noteq> FPA_POOL_ID_HOST_MBUF then s1
      else s1\<lparr>host_freed := host_freed s1 @ [mb]\<rparr>)"

section \<open>Packet buffers\<close>

definition start_of_buffer :: "buf_ptr \<Rightarrow> u64" where
  "start_of_buffer b = push_bit 7 (drop_bit 7 (bp_addr b) - bp_back b)"

definition packet_destory_rawdata :: "buf_ptr \<Rightarrow> 'a pkt_state_scheme \<Rightarrow> 'a pkt_state_scheme" where
  "packet_destory_rawdata b s = s\<lparr>hw_freed := hw_freed s @ [(start_of_buffer b, bp_pool b)]\<rparr>"

definition packet_destroy_all :: "nat \<Rightarrow> 'a pkt_state_scheme \<Rightarrow> 'a pkt_state_scheme res" where
  "packet_destroy_all mb s =
     (let m = mbufs s mb in
      rbind (if pkt_space m = PKTBUF_HW then
               Inr (s\<lparr>hw_freed := hw_freed s @ [(start_of_buffer (packet_ptr m), bp_pool (packet_ptr m))]\<rparr>)
             else if pkt_space m = PKTBUF_SW then
               rbind (mem_pool_free (unat (pkt_ptr m)) (mem s)) (\<lambda>k. Inr (s\<lparr>mem := k\<rparr>))
             else Inr s)
        (\<lambda>s1. Inr (mbuf_free mb s1)))"

definition packet_destroy_data :: "nat \<Rightarrow> 'a pkt_state_scheme \<Rightarrow> 'a pkt_state_scheme" where
  "packet_destroy_data mb s =
     (let m = mbufs s mb in
      if pkt_space m = PKTBUF_HW then
        s\<lparr>hw_freed := hw_freed s @ [(start_of_buffer (packet_ptr m), bp_pool (packet_ptr m))]\<rparr>
      else s)"

text \<open>
  \<open>packet_hw2sw\<close>. The model keeps of the new buffer only the bytes the copy wrote, so a later read
  behind them counts as a fault.
\<close>

definition packet_hw2sw :: "nat \<Rightarrow> 'a pkt_state_scheme \<Rightarrow> (int \<times> 'a pkt_state_scheme) res" where
  "packet_hw2sw mb s =
     (let m = mbufs s mb in
      if pkt_space m = PKTBUF_SW then Inr (SEC_OK, s)
      else rbind (mem_pool_alloc MEM_POOL_ID_SMALL_BUFFER (ucast (pkt_totallen m)) (mem s)) (\<lambda>(b, k).
        case b of
          None \<Rightarrow> Inr (SEC_NO, s\<lparr>mem := k\<rparr>)
        | Some buf \<Rightarrow>
            rbind (read_pkt m (pkt_ptr m) (unat (pkt_totallen m))) (\<lambda>bs.
              let new = of_nat buf;
                  m1 = m\<lparr>pkt_data := bs, pkt_space := PKTBUF_SW, pkt_ptr := new\<rparr>;
                  m2 = packet_header_ptr_adjust m1 (pkt_ptr m) new;
                  m3 = m2\<lparr>packet_ptr := \<lparr>bp_addr = 0, bp_back = 0, bp_pool = 0\<rparr>\<rparr>
              in Inr (SEC_OK, packet_destory_rawdata (packet_ptr m) (s\<lparr>mem := k, mbufs := (mbufs s)(mb := m3)\<rparr>)))))"

section \<open>What a release changes\<close>

lemma packet_recycle_eq:
  "packet_recycle mb s = s\<lparr>flows := snd (FlowDeReference (flow (mbufs s mb)) (flows s)), mbufs := (mbufs s)(mb := (mbufs s mb)\<lparr>flow := None\<rparr>)\<rparr>"
  by (simp add: packet_recycle_def FlowDeReference_def upd_mbuf_def split: option.splits)

definition mbuf_ok :: "nat \<Rightarrow> 'a pkt_state_scheme \<Rightarrow> bool" where
  "mbuf_ok mb s \<longleftrightarrow> magic (mctrl s mb) = MEM_POOL_MAGIC_NUM \<and> unat (pool_id (mctrl s mb)) = FPA_POOL_ID_HOST_MBUF"

lemma mbuf_free_eq:
  "mbuf_free mb s = s\<lparr>flows := snd (FlowDeReference (flow (mbufs s mb)) (flows s)),
     mbufs := (mbufs s)(mb := (mbufs s mb)\<lparr>flow := None\<rparr>),
     host_freed := host_freed s @ (if mbuf_ok mb s then [mb] else [])\<rparr>"
  by (simp add: mbuf_free_def packet_recycle_eq Let_def mbuf_ok_def)

lemma packet_destroy_all_cases:
  assumes "packet_destroy_all mb s = Inr s'"
  obtains "pkt_space (mbufs s mb) = PKTBUF_HW"
      "s' = mbuf_free mb (s\<lparr>hw_freed := hw_freed s @ [(start_of_buffer (packet_ptr (mbufs s mb)), bp_pool (packet_ptr (mbufs s mb)))]\<rparr>)"
  | k where "pkt_space (mbufs s mb) = PKTBUF_SW" "mem_pool_free (unat (pkt_ptr (mbufs s mb))) (mem s) = Inr k" "s' = mbuf_free mb (s\<lparr>mem := k\<rparr>)"
  | "pkt_space (mbufs s mb) \<noteq> PKTBUF_HW" "pkt_space (mbufs s mb) \<noteq> PKTBUF_SW" "s' = mbuf_free mb s"
proof (cases "pkt_space (mbufs s mb) = PKTBUF_HW")
  case True
  with assms that(1) show thesis by (simp add: packet_destroy_all_def Let_def)
next
  case hw: False
  show thesis
  proof (cases "pkt_space (mbufs s mb) = PKTBUF_SW")
    case True
    with hw assms that(2) show thesis
      by (cases "mem_pool_free (unat (pkt_ptr (mbufs s mb))) (mem s)") (auto simp: packet_destroy_all_def Let_def)
  next
    case False
    with hw assms that(3) show thesis by (simp add: packet_destroy_all_def Let_def)
  qed
qed

text \<open>A destroyed packet takes its descriptor, its buffer and its reference with it and leaves the other packets alone.\<close>

lemma packet_destroy_all_frame:
  assumes "packet_destroy_all mb s = Inr s'"
  shows "mctrl s' = mctrl s" "stats s' = stats s" "host_freed s' = host_freed s @ (if mbuf_ok mb s then [mb] else [])"
    "mbufs s' = (mbufs s)(mb := (mbufs s mb)\<lparr>flow := None\<rparr>)"
    "flows s' = snd (FlowDeReference (flow (mbufs s mb)) (flows s))"
  using assms by (auto elim!: packet_destroy_all_cases simp: mbuf_free_eq mbuf_ok_def)

end
