(* ===== verification/TxRing.thy ===== *)
theory TxRing
  imports Packet
begin

text \<open>
  Receiving and sending, \<open>dataplane/src/platform/oct-rxtx.c\<close>. A packet in a hardware buffer is handed to
  the output unit and forgotten; one in a software buffer waits in the ring of its port until the
  output unit has cleared the byte \<open>mem_ref\<close> of its descriptor. The state is the one of the running
  core. The answer of the output unit is the argument \<open>ok\<close>.
\<close>

section \<open>State\<close>

definition OCT_PKO_TX_DESC_NUM :: nat where
  "OCT_PKO_TX_DESC_NUM = 64"

definition OCT_PHY_PORT_MAX :: nat where
  "OCT_PHY_PORT_MAX = 4"

record pend_tx_done_t =
  mem_ref :: u8
  pend_mb :: nat

record tx_done_t =
  consumer :: u16
  producer :: u16
  tx_entries :: u16
  pend_tx_done :: "pend_tx_done_t list"

text \<open>
  \<open>wqe_freed\<close> and \<open>wqe_data_freed\<close> log the calls that free a work queue entry and the packet data of one.
  What the output unit gets: a hardware buffer, or an address with the descriptor to acknowledge in.
\<close>

datatype pko_cmd = SendHw buf_ptr u16 | SendSw u64 u16 nat

record tx_state = pkt_state +
  tx_done :: "tx_done_t list"
  oct_tx_entries :: u32
  pko_sent :: "(u8 \<times> pko_cmd) list"
  wqe_freed :: "nat list"
  wqe_data_freed :: "nat list"

section \<open>Receiving\<close>

text \<open>The fields of a work queue entry the program reads; \<open>wq_data\<close> are the bytes of its packet.\<close>

record wqe =
  rcv_error :: bool
  wq_bufs :: nat
  wq_packet_ptr :: buf_ptr
  wq_port :: u32
  wq_len :: u16
  wq_data :: "u8 list"

text \<open>\<open>phys_to_ptr\<close> is \<open>cvmx_phys_to_ptr\<close>; a failed allocation of the descriptor is not checked before the \<open>memset\<close>.\<close>

definition oct_rx_process_work ::
  "(u64 \<Rightarrow> u64) \<Rightarrow> nat \<Rightarrow> wqe \<Rightarrow> nat option \<Rightarrow> 'a tx_state_scheme \<Rightarrow> (nat option \<times> 'a tx_state_scheme) res" where
  "oct_rx_process_work phys_to_ptr wq w buf s =
     (if rcv_error w \<or> wq_bufs w > 1 then
        Inr (None, STAT RECV_ERR (s\<lparr>wqe_data_freed := wqe_data_freed s @ [wq], wqe_freed := wqe_freed s @ [wq]\<rparr>))
      else
        let pkt_virt = phys_to_ptr (bp_addr (wq_packet_ptr w)) in
        if pkt_virt = 0 then Inr (None, STAT RECV_ADDR_ERR s)
        else case mbuf_alloc buf s of
          (None, s1) \<Rightarrow> Inl NullDeref
        | (Some mb, s1) \<Rightarrow>
            let m = zero_mbuf\<lparr>magic_flag := MBUF_MAGIC_NUM, pkt_space := PKTBUF_HW, packet_ptr := wq_packet_ptr w,
                      input_port := wq_port w, pkt_totallen := wq_len w, pkt_ptr := pkt_virt, pkt_data := wq_data w\<rparr>;
                s2 = s1\<lparr>mbufs := (mbufs s1)(mb := m), wqe_freed := wqe_freed s1 @ [wq]\<rparr>;
                s3 = STAT RECV_PC s2;
                s4 = s3\<lparr>stats := (stats s3)(RECV_PB := stats s3 RECV_PB + ucast (wq_len w))\<rparr>
            in Inr (Some mb, STAT RECV_OK s4))"

section \<open>The ring\<close>

definition step_index :: "u16 \<Rightarrow> u16" where
  "step_index i = (i + 1) AND of_nat (OCT_PKO_TX_DESC_NUM - 1)"

definition oct_pend_tx_done_add :: "nat \<Rightarrow> tx_done_t \<Rightarrow> (nat \<times> tx_done_t) res" where
  "oct_pend_tx_done_add mb t =
     (let p = unat (producer t) in
      if p < length (pend_tx_done t) then
        Inr (p, t\<lparr>pend_tx_done := (pend_tx_done t)[p := \<lparr>mem_ref = 0xFF, pend_mb = mb\<rparr>],
                  tx_entries := tx_entries t + 1, producer := step_index (producer t)\<rparr>)
      else Inl OutOfBounds)"

definition oct_pend_tx_done_remove :: "tx_done_t \<Rightarrow> tx_done_t" where
  "oct_pend_tx_done_remove t =
     t\<lparr>producer := (producer t - 1) AND of_nat (OCT_PKO_TX_DESC_NUM - 1), tx_entries := tx_entries t - 1\<rparr>"

text \<open>The loop over one ring; \<open>c\<close> is the local \<open>consumer\<close>, stored when the loop is left.\<close>

fun tx_done_loop :: "nat \<Rightarrow> nat \<Rightarrow> u16 \<Rightarrow> 'a tx_state_scheme \<Rightarrow> 'a tx_state_scheme res option" where
  "tx_done_loop 0 port c s = None"
| "tx_done_loop (Suc n) port c s =
     (let t = tx_done s ! port in
      if c = producer t then Some (Inr (s\<lparr>tx_done := (tx_done s)[port := t\<lparr>consumer := c\<rparr>]\<rparr>))
      else if length (pend_tx_done t) \<le> unat c then Some (Inl OutOfBounds)
      else let d = pend_tx_done t ! unat c in
           if mem_ref d = 0xFF then Some (Inr (s\<lparr>tx_done := (tx_done s)[port := t\<lparr>consumer := c\<rparr>]\<rparr>))
           else fbind (Some (packet_destroy_all (pend_mb d) s)) (\<lambda>s1.
                  tx_done_loop n port (step_index c)
                    (s1\<lparr>tx_done := (tx_done s1)[port := (tx_done s1 ! port)\<lparr>tx_entries := tx_entries (tx_done s1 ! port) - 1\<rparr>],
                        oct_tx_entries := oct_tx_entries s1 - 1\<rparr>)))"

fun tx_done_ports :: "nat \<Rightarrow> nat list \<Rightarrow> 'a tx_state_scheme \<Rightarrow> 'a tx_state_scheme res option" where
  "tx_done_ports fuel [] s = Some (Inr s)"
| "tx_done_ports fuel (port # ports) s =
     fbind (if tx_entries (tx_done s ! port) \<noteq> 0 then tx_done_loop fuel port (consumer (tx_done s ! port)) s else Some (Inr s))
       (tx_done_ports fuel ports)"

definition oct_tx_done_check :: "nat \<Rightarrow> 'a tx_state_scheme \<Rightarrow> 'a tx_state_scheme res option" where
  "oct_tx_done_check fuel s = tx_done_ports fuel [0..<OCT_PHY_PORT_MAX] s"

section \<open>Sending\<close>

definition oct_tx_process_mbuf :: "bool \<Rightarrow> nat \<Rightarrow> u8 \<Rightarrow> 'a tx_state_scheme \<Rightarrow> 'a tx_state_scheme res" where
  "oct_tx_process_mbuf ok mb port s =
     (let m = mbufs s mb in
      if unat port > OCT_PHY_PORT_MAX then
        rbind (packet_destroy_all mb s) (\<lambda>s1. Inr (STAT TX_SEND_PORT_ERR s1))
      else if pkt_space m = PKTBUF_HW then
        let s1 = (if ok then s\<lparr>pko_sent := pko_sent s @ [(port, SendHw (packet_ptr m) (pkt_totallen m))]\<rparr>
                  else packet_destroy_data mb (STAT TX_HW_SEND_ERR s))
        in Inr (STAT TX_SEND_OVER (mbuf_free mb s1))
      else if pkt_space m = PKTBUF_SW then
        if length (tx_done s) \<le> unat port then Inl OutOfBounds
        else let t = tx_done s ! unat port in
          if unat (tx_entries t) < OCT_PKO_TX_DESC_NUM - 1 then
            rbind (oct_pend_tx_done_add mb t) (\<lambda>(cookie, t1).
              let s1 = s\<lparr>tx_done := (tx_done s)[unat port := t1], oct_tx_entries := oct_tx_entries s + 1\<rparr> in
              if ok then Inr (STAT TX_SEND_OVER (s1\<lparr>pko_sent := pko_sent s1 @ [(port, SendSw (pkt_ptr m) (pkt_totallen m) cookie)]\<rparr>))
              else rbind (packet_destroy_all mb
                     (s1\<lparr>tx_done := (tx_done s1)[unat port := oct_pend_tx_done_remove (tx_done s1 ! unat port)],
                         oct_tx_entries := oct_tx_entries s1 - 1\<rparr>)) (\<lambda>s2. Inr (STAT TX_SW_SEND_ERR s2)))
          else rbind (packet_destroy_all mb s) (\<lambda>s1. Inr (STAT TX_SW_DESC_ERR s1))
      else Inr (STAT TX_SEND_OVER s))"

definition l7_deliver :: "bool \<Rightarrow> nat \<Rightarrow> 'a tx_state_scheme \<Rightarrow> 'a tx_state_scheme res" where
  "l7_deliver ok mb s = oct_tx_process_mbuf ok mb (ucast (input_port (mbufs s mb))) s"

section \<open>Initialisation\<close>

definition empty_ring :: tx_done_t where
  "empty_ring = \<lparr>consumer = 0, producer = 0, tx_entries = 0,
     pend_tx_done = replicate OCT_PKO_TX_DESC_NUM \<lparr>mem_ref = 0, pend_mb = 0\<rparr>\<rparr>"

text \<open>\<open>mem_ok\<close>: the named block could be allocated. The rings of one core.\<close>

definition oct_rxtx_init :: "bool \<Rightarrow> 'a tx_state_scheme \<Rightarrow> int \<times> 'a tx_state_scheme" where
  "oct_rxtx_init mem_ok s =
     (if mem_ok then (SEC_OK, s\<lparr>tx_done := replicate OCT_PHY_PORT_MAX empty_ring\<rparr>) else (SEC_NO, s))"

section \<open>The ring as a queue\<close>

text \<open>A queue of bounded length that takes an element back from its end.\<close>

locale bounded_queue =
  fixes inv :: "'s \<Rightarrow> bool"
    and items :: "'s \<Rightarrow> 'd list"
    and cap :: nat
    and entry :: "'x \<Rightarrow> 'd"
    and push :: "'x \<Rightarrow> 's \<Rightarrow> ('c \<times> 's) res"
    and unpush :: "'s \<Rightarrow> 's"
  assumes bounded: "inv s \<Longrightarrow> length (items s) \<le> cap"
    and push_ok: "inv s \<Longrightarrow> length (items s) < cap \<Longrightarrow> \<exists>c s'. push x s = Inr (c, s') \<and> inv s' \<and> items s' = items s @ [entry x]"
    and unpush_ok: "inv s \<Longrightarrow> items s \<noteq> [] \<Longrightarrow> inv (unpush s) \<and> items (unpush s) = butlast (items s)"
begin

text \<open>Taking back what was just put in restores the queue.\<close>

lemma push_unpush:
  assumes "inv s" "length (items s) < cap"
  shows "\<exists>c s'. push x s = Inr (c, s') \<and> inv (unpush s') \<and> items (unpush s') = items s"
proof -
  obtain c s' where p: "push x s = Inr (c, s')" "inv s'" "items s' = items s @ [entry x]" using push_ok [OF assms] by blast
  with unpush_ok [OF p(2)] show ?thesis by auto
qed

end

definition ring_inv :: "tx_done_t \<Rightarrow> bool" where
  "ring_inv t \<longleftrightarrow> length (pend_tx_done t) = 64 \<and> unat (consumer t) < 64 \<and> unat (tx_entries t) < 64 \<and>
     unat (producer t) = (unat (consumer t) + unat (tx_entries t)) mod 64"

definition ring_items :: "tx_done_t \<Rightarrow> pend_tx_done_t list" where
  "ring_items t = map (\<lambda>k. pend_tx_done t ! ((unat (consumer t) + k) mod 64)) [0..<unat (tx_entries t)]"

definition pending :: "nat \<Rightarrow> pend_tx_done_t" where
  "pending mb = \<lparr>mem_ref = 0xFF, pend_mb = mb\<rparr>"

lemma length_ring_items [simp]: "length (ring_items t) = unat (tx_entries t)"
  by (simp add: ring_items_def)

lemma and_63: "unat (w AND 63 :: u16) = unat w mod 64"
proof -
  have "w AND 63 = take_bit 6 w" by (simp add: take_bit_eq_mask mask_eq_exp_minus_1)
  then have "unat (w AND 63) = take_bit 6 (unat w)" by (simp only: unsigned_take_bit_eq)
  then show ?thesis by (simp add: take_bit_eq_mod)
qed

lemma step_index: "unat i < 64 \<Longrightarrow> unat (step_index i) = Suc (unat i) mod 64"
  unfolding step_index_def OCT_PKO_TX_DESC_NUM_def by (simp add: and_63 unat_word_ariths)

lemma ring_add:
  assumes t: "ring_inv t" "unat (tx_entries t) < 63"
  shows "\<exists>c t'. oct_pend_tx_done_add mb t = Inr (c, t') \<and> ring_inv t' \<and> ring_items t' = ring_items t @ [pending mb]"
proof -
  let ?t = "t\<lparr>pend_tx_done := (pend_tx_done t)[unat (producer t) := pending mb], tx_entries := tx_entries t + 1,
    producer := step_index (producer t)\<rparr>"
  have p: "unat (producer t) < 64" using t(1) by (simp add: ring_inv_def)
  have n: "unat (tx_entries t + 1) = Suc (unat (tx_entries t))" using t(2) by (simp add: unat_word_ariths)
  have "oct_pend_tx_done_add mb t = Inr (unat (producer t), ?t)"
    using t(1) p by (simp add: oct_pend_tx_done_add_def Let_def ring_inv_def pending_def)
  moreover have "ring_inv ?t" using t p n by (simp add: ring_inv_def step_index mod_Suc_eq)
  moreover have "ring_items ?t = ring_items t @ [pending mb]"
  proof -
    have other: "(unat (consumer t) + k) mod 64 \<noteq> unat (producer t)" if "k < unat (tx_entries t)" for k
    proof
      assume "(unat (consumer t) + k) mod 64 = unat (producer t)"
      then have "(unat (consumer t) + k) mod 64 = (unat (consumer t) + unat (tx_entries t)) mod 64" using t(1) by (simp add: ring_inv_def)
      then have "k mod 64 = unat (tx_entries t) mod 64" by (simp add: mod_eq_iff_dvd_symdiff_nat)
      with that t(2) show False by simp
    qed
    have len: "length (pend_tx_done t) = 64" and pr: "unat (producer t) = (unat (consumer t) + unat (tx_entries t)) mod 64"
      using t(1) by (simp_all add: ring_inv_def)
    have "(pend_tx_done t)[unat (producer t) := pending mb] ! ((unat (consumer t) + k) mod 64) = pend_tx_done t ! ((unat (consumer t) + k) mod 64)"
      if "k < unat (tx_entries t)" for k using other [OF that] by simp
    then show ?thesis using len pr [symmetric] p by (simp add: ring_items_def n)
  qed
  ultimately show ?thesis by blast
qed

lemma ring_remove:
  assumes t: "ring_inv t" "ring_items t \<noteq> []"
  shows "ring_inv (oct_pend_tx_done_remove t) \<and> ring_items (oct_pend_tx_done_remove t) = butlast (ring_items t)"
proof -
  obtain n where n: "unat (tx_entries t) = Suc n" using t(2) by (cases "unat (tx_entries t)") (auto simp: ring_items_def)
  then have n1: "unat (tx_entries t - 1) = n" by (simp add: unat_sub word_le_nat_alt)
  have p: "unat (producer t - 1) mod 64 = (unat (consumer t) + n) mod 64"
  proof (cases "producer t = 0")
    case True
    then have "(unat (consumer t) + Suc n) mod 64 = 0" using t(1) n by (simp add: ring_inv_def)
    with True show ?thesis by (simp add: mod_Suc unsigned_minus_1_eq_mask mask_eq_exp_minus_1 split: if_splits)
  next
    case False
    then have "unat (producer t - 1) = unat (producer t) - 1" by (simp add: unat_minus_one)
    with t(1) n False show ?thesis by (auto simp: ring_inv_def mod_Suc unat_eq_0 split: if_splits)
  qed
  show ?thesis using t n n1 p
    by (simp add: oct_pend_tx_done_remove_def ring_inv_def ring_items_def OCT_PKO_TX_DESC_NUM_def and_63)
qed

interpretation ring: bounded_queue ring_inv ring_items 63 pending oct_pend_tx_done_add oct_pend_tx_done_remove
proof
  show "length (ring_items t) \<le> 63" if "ring_inv t" for t using that by (simp add: ring_inv_def)
  show "\<exists>c s'. oct_pend_tx_done_add x t = Inr (c, s') \<and> ring_inv s' \<and> ring_items s' = ring_items t @ [pending x]"
    if "ring_inv t" "length (ring_items t) < 63" for t x using ring_add [of t x] that by simp
  show "ring_inv (oct_pend_tx_done_remove t) \<and> ring_items (oct_pend_tx_done_remove t) = butlast (ring_items t)"
    if "ring_inv t" "ring_items t \<noteq> []" for t using ring_remove [OF that] .
qed

section \<open>Reaping a ring\<close>

text \<open>The output unit has acknowledged a descriptor: its byte is no longer 0xFF.\<close>

definition sent :: "pend_tx_done_t \<Rightarrow> bool" where
  "sent d \<longleftrightarrow> mem_ref d \<noteq> 0xFF"

definition completed :: "tx_done_t \<Rightarrow> nat list" where
  "completed t = map pend_mb (takeWhile sent (ring_items t))"

definition reap :: "tx_done_t \<Rightarrow> tx_done_t" where
  "reap t = t\<lparr>consumer := of_nat ((unat (consumer t) + length (completed t)) mod 64),
     tx_entries := tx_entries t - of_nat (length (completed t))\<rparr>"

lemma packet_destroy_all_ring:
  "packet_destroy_all mb (s\<lparr>tx_done := x, oct_tx_entries := n\<rparr>) =
     rbind (packet_destroy_all mb s) (\<lambda>s1. Inr (s1\<lparr>tx_done := x, oct_tx_entries := n\<rparr>))"
  by (cases "mem_pool_free (unat (pkt_ptr (mbufs s mb))) (mem s)")
    (auto simp: packet_destroy_all_def Let_def mbuf_free_eq mbuf_ok_def)

lemma destroys_frame:
  "rbind (rfold packet_destroy_all xs (s\<lparr>tx_done := x, oct_tx_entries := n\<rparr>)) (\<lambda>s1. Inr (s1\<lparr>tx_done := y, oct_tx_entries := k\<rparr>)) =
   rbind (rfold packet_destroy_all xs s) (\<lambda>s1. Inr (s1\<lparr>tx_done := y, oct_tx_entries := k\<rparr>))"
proof (induction xs arbitrary: s)
  case (Cons a xs)
  then show ?case by (cases "packet_destroy_all a s") (simp_all add: packet_destroy_all_ring)
qed simp

lemma packet_destroy_all_tx:
  "packet_destroy_all mb s = Inr s1 \<Longrightarrow> tx_done s1 = tx_done s \<and> oct_tx_entries s1 = oct_tx_entries s"
  by (auto elim!: packet_destroy_all_cases simp: mbuf_free_eq)

lemma ring_items_Cons:
  assumes "ring_inv t" "unat (tx_entries t) = Suc n"
  shows "ring_inv (t\<lparr>consumer := step_index (consumer t), tx_entries := tx_entries t - 1\<rparr>)"
    "ring_items t = pend_tx_done t ! unat (consumer t) # ring_items (t\<lparr>consumer := step_index (consumer t), tx_entries := tx_entries t - 1\<rparr>)"
proof -
  have n1: "unat (tx_entries t - 1) = n" using assms(2) by (simp add: unat_sub word_le_nat_alt)
  have c: "unat (consumer t) < 64" using assms(1) by (simp add: ring_inv_def)
  show "ring_inv (t\<lparr>consumer := step_index (consumer t), tx_entries := tx_entries t - 1\<rparr>)"
    using assms n1 c by (simp add: ring_inv_def step_index mod_add_left_eq)
  have up: "[0..<Suc n] = 0 # map Suc [0..<n]" by (simp add: upt_conv_Cons map_Suc_upt del: upt_Suc)
  have "(Suc (unat (consumer t)) mod 64 + k) mod 64 = (unat (consumer t) + Suc k) mod 64" for k
    by (simp add: mod_add_left_eq)
  then show "ring_items t = pend_tx_done t ! unat (consumer t) # ring_items (t\<lparr>consumer := step_index (consumer t), tx_entries := tx_entries t - 1\<rparr>)"
    unfolding ring_items_def using assms(2) n1 c by (simp add: up step_index del: upt_Suc)
qed

lemma reap_Nil: "completed t = [] \<Longrightarrow> unat (consumer t) < 64 \<Longrightarrow> reap t = t"
  by (simp add: reap_def)

lemma reap_Cons:
  assumes "ring_inv t" "unat (tx_entries t) = Suc n" "sent (pend_tx_done t ! unat (consumer t))"
  defines "t' \<equiv> t\<lparr>consumer := step_index (consumer t), tx_entries := tx_entries t - 1\<rparr>"
  shows "completed t = pend_mb (pend_tx_done t ! unat (consumer t)) # completed t'" "reap t = reap t'"
proof -
  show c: "completed t = pend_mb (pend_tx_done t ! unat (consumer t)) # completed t'"
    using ring_items_Cons(2) [OF assms(1,2)] assms(3) by (simp add: completed_def t'_def)
  have "unat (consumer t) < 64" using assms(1) by (simp add: ring_inv_def)
  then have "(unat (consumer t) + Suc k) mod 64 = (unat (step_index (consumer t)) + k) mod 64" for k
    by (simp add: step_index mod_add_left_eq)
  then show "reap t = reap t'" by (simp add: reap_def c t'_def diff_diff_eq)
qed

lemma ring_inv_producer:
  assumes "ring_inv t"
  shows "consumer t = producer t \<longleftrightarrow> tx_entries t = 0"
proof
  assume "consumer t = producer t"
  with assms have "(unat (consumer t) + 0) mod 64 = (unat (consumer t) + unat (tx_entries t)) mod 64" by (simp add: ring_inv_def)
  then have "unat (tx_entries t) mod 64 = 0" by (simp add: mod_eq_iff_dvd_symdiff_nat)
  with assms show "tx_entries t = 0" by (simp add: ring_inv_def unat_eq_0)
next
  assume "tx_entries t = 0"
  with assms show "consumer t = producer t" by (simp add: ring_inv_def word_unat_eq_iff)
qed

lemma entries_consumer: "t\<lparr>tx_entries := n, consumer := c\<rparr> = t\<lparr>consumer := c, tx_entries := n\<rparr>"
  by (cases t) simp

lemma tx_done_loop_ok:
  assumes "port < length (tx_done s)" "ring_inv ((tx_done s ! port)\<lparr>consumer := c\<rparr>)" "unat (tx_entries (tx_done s ! port)) < fuel"
  shows "tx_done_loop fuel port c s =
    (let t = (tx_done s ! port)\<lparr>consumer := c\<rparr> in
     Some (rbind (rfold packet_destroy_all (completed t) s) (\<lambda>s1.
       Inr (s1\<lparr>tx_done := (tx_done s)[port := reap t], oct_tx_entries := oct_tx_entries s - of_nat (length (completed t))\<rparr>))))"
  using assms
proof (induction fuel arbitrary: c s)
  case (Suc fuel)
  let ?t = "(tx_done s ! port)\<lparr>consumer := c\<rparr>"
  have c: "unat c < 64" "length (pend_tx_done (tx_done s ! port)) = 64" using Suc.prems(2) by (simp_all add: ring_inv_def)
  show ?case
  proof (cases "unat (tx_entries (tx_done s ! port))")
    case 0
    then have "completed ?t = []" by (simp add: completed_def ring_items_def)
    moreover have "c = producer (tx_done s ! port)" using ring_inv_producer [OF Suc.prems(2)] 0 by (simp add: unat_eq_0)
    ultimately show ?thesis using reap_Nil [of ?t] c by (simp add: Let_def)
  next
    case (Suc n)
    have ne: "c \<noteq> producer (tx_done s ! port)" using ring_inv_producer [OF Suc.prems(2)] Suc by auto
    let ?d = "pend_tx_done (tx_done s ! port) ! unat c"
    show ?thesis
    proof (cases "sent ?d")
      case False
      then have "completed ?t = []" using ring_items_Cons(2) [OF Suc.prems(2), of n] Suc by (simp add: completed_def)
      with False reap_Nil [of ?t] c ne show ?thesis by (simp add: Let_def sent_def)
    next
      case True
      let ?t' = "(tx_done s ! port)\<lparr>consumer := step_index c, tx_entries := tx_entries (tx_done s ! port) - 1\<rparr>"
      have inv': "ring_inv ?t'" using ring_items_Cons(1) [OF Suc.prems(2), of n] Suc by simp
      have rc: "completed ?t = pend_mb ?d # completed ?t'" "reap ?t = reap ?t'"
        using reap_Cons [OF Suc.prems(2), of n] Suc True by simp_all
      show ?thesis
      proof (cases "packet_destroy_all (pend_mb ?d) s")
        case (Inl e)
        with True c ne rc(1) show ?thesis by (simp add: Let_def sent_def)
      next
        case (Inr s1)
        note s1 = packet_destroy_all_tx [OF Inr]
        let ?u = "tx_done s ! port"
        let ?s2 = "s1\<lparr>tx_done := (tx_done s)[port := ?u\<lparr>tx_entries := tx_entries ?u - 1\<rparr>], oct_tx_entries := oct_tx_entries s - 1\<rparr>"
        have p: "port < length (tx_done s)" by fact
        have "tx_done_loop fuel port (step_index c) ?s2 =
          Some (rbind (rfold packet_destroy_all (completed ?t') ?s2) (\<lambda>s3.
            Inr (s3\<lparr>tx_done := (tx_done s)[port := reap ?t'], oct_tx_entries := oct_tx_entries s - 1 - of_nat (length (completed ?t'))\<rparr>)))"
          using Suc.IH [of ?s2 "step_index c"] inv' p Suc Suc.prems(3) by (simp add: Let_def unat_sub word_le_nat_alt entries_consumer)
        also have "rbind (rfold packet_destroy_all xs ?s2) (\<lambda>s3. Inr (s3\<lparr>tx_done := y, oct_tx_entries := k\<rparr>)) =
          rbind (rfold packet_destroy_all xs s1) (\<lambda>s3. Inr (s3\<lparr>tx_done := y, oct_tx_entries := k\<rparr>))" for xs y k
          by (rule destroys_frame)
        finally show ?thesis using True c ne rc Inr s1 by (simp add: Let_def sent_def diff_diff_eq)
      qed
    qed
  qed
qed simp

lemma reap_ring: "ring_inv t \<Longrightarrow> ring_inv (reap t) \<and> ring_items (reap t) = dropWhile sent (ring_items t)"
proof (induction "unat (tx_entries t)" arbitrary: t)
  case (0 t)
  then have "ring_items t = []" by (simp add: ring_items_def)
  moreover from this "0.prems" have "reap t = t" by (intro reap_Nil) (simp_all add: completed_def ring_inv_def)
  ultimately show ?case using "0.prems" by simp
next
  case (Suc n t)
  let ?t' = "t\<lparr>consumer := step_index (consumer t), tx_entries := tx_entries t - 1\<rparr>"
  let ?d = "pend_tx_done t ! unat (consumer t)"
  have n: "unat (tx_entries t) = Suc n" using Suc.hyps(2) by simp
  note items = ring_items_Cons(2) [OF Suc.prems n]
  have t': "n = unat (tx_entries ?t')" "ring_inv ?t'" using n ring_items_Cons(1) [OF Suc.prems n] by (simp_all add: unat_sub word_le_nat_alt)
  show ?case
  proof (cases "sent ?d")
    case True
    then show ?thesis using Suc.hyps(1) [OF t'] reap_Cons(2) [OF Suc.prems n True] items by simp
  next
    case False
    then have "completed t = []" by (simp add: completed_def items)
    then have "reap t = t" using Suc.prems by (intro reap_Nil) (simp_all add: ring_inv_def)
    then show ?thesis using Suc.prems items False by simp
  qed
qed

lemma reap_idle: "ring_inv t \<Longrightarrow> tx_entries t = 0 \<Longrightarrow> completed t = [] \<and> reap t = t"
  by (auto simp: completed_def ring_items_def ring_inv_def intro!: reap_Nil)

lemma rfold_append_bind: "rbind (rfold f (xs @ ys) s) g = rbind (rfold f xs s) (\<lambda>s1. rbind (rfold f ys s1) g)"
  by (simp add: rfold_append rbind_assoc)

text \<open>The ports one after the other.\<close>

lemma tx_done_ports_ok:
  assumes "distinct ports" "\<And>p. p \<in> set ports \<Longrightarrow> p < length (tx_done s) \<and> ring_inv (tx_done s ! p)" "64 \<le> fuel"
  shows "tx_done_ports fuel ports s =
    Some (rbind (rfold packet_destroy_all (concat (map (\<lambda>p. completed (tx_done s ! p)) ports)) s) (\<lambda>s1.
      Inr (s1\<lparr>tx_done := fold (\<lambda>p ts. ts[p := reap (ts ! p)]) ports (tx_done s),
              oct_tx_entries := oct_tx_entries s - of_nat (length (concat (map (\<lambda>p. completed (tx_done s ! p)) ports)))\<rparr>)))"
  using assms
proof (induction ports arbitrary: s)
  case (Cons p ports)
  let ?t = "tx_done s ! p" and ?rest = "\<lambda>s. concat (map (\<lambda>p. completed (tx_done s ! p)) ports)"
  have p: "p < length (tx_done s)" "ring_inv ?t" "p \<notin> set ports" using Cons.prems by auto
  have fuel: "unat (tx_entries ?t) < fuel" using p(2) Cons.prems(3) by (simp add: ring_inv_def)
  have one: "(if tx_entries ?t \<noteq> 0 then tx_done_loop fuel p (consumer ?t) s else Some (Inr s)) =
    Some (rbind (rfold packet_destroy_all (completed ?t) s) (\<lambda>s1.
       Inr (s1\<lparr>tx_done := (tx_done s)[p := reap ?t], oct_tx_entries := oct_tx_entries s - of_nat (length (completed ?t))\<rparr>)))"
    using tx_done_loop_ok [OF p(1) _ fuel, of "consumer ?t"] p(2) reap_idle [OF p(2)] by (simp add: Let_def)
  show ?case
  proof (cases "rfold packet_destroy_all (completed ?t) s")
    case (Inl e)
    then show ?thesis using one by (simp add: rfold_append)
  next
    case (Inr s1)
    let ?s2 = "s1\<lparr>tx_done := (tx_done s)[p := reap ?t], oct_tx_entries := oct_tx_entries s - of_nat (length (completed ?t))\<rparr>"
    have other: "tx_done ?s2 ! q = tx_done s ! q" if "q \<in> set ports" for q using that p(3) by (cases "q = p") auto
    have rest: "?rest ?s2 = ?rest s" using other by (intro arg_cong [where f = concat] map_cong) simp_all
    have "tx_done_ports fuel ports ?s2 = Some (rbind (rfold packet_destroy_all (?rest s) ?s2) (\<lambda>s3.
      Inr (s3\<lparr>tx_done := fold (\<lambda>p ts. ts[p := reap (ts ! p)]) ports (tx_done ?s2),
              oct_tx_entries := oct_tx_entries ?s2 - of_nat (length (?rest s))\<rparr>)))"
      using Cons.IH [of ?s2, unfolded rest] Cons.prems other by simp
    also have "\<dots> = Some (rbind (rfold packet_destroy_all (?rest s) s1) (\<lambda>s3.
      Inr (s3\<lparr>tx_done := fold (\<lambda>p ts. ts[p := reap (ts ! p)]) (p # ports) (tx_done s),
              oct_tx_entries := oct_tx_entries s - of_nat (length (completed ?t @ ?rest s))\<rparr>)))"
      unfolding destroys_frame using p(1) by (simp add: diff_diff_eq)
    finally show ?thesis using one Inr by (simp add: rfold_append_bind)
  qed
qed simp

lemma reap_all: "length ts = n \<Longrightarrow> fold (\<lambda>p ts. ts[p := reap (ts ! p)]) [0..<n] ts = map reap ts"
proof -
  have "fold (\<lambda>p ts. ts[p := reap (ts ! p)]) [0..<k] ts = map reap (take k ts) @ drop k ts" if "k \<le> length ts" for k
    using that
  proof (induction k)
    case (Suc k)
    then have "drop k ts = ts ! k # drop (Suc k) ts" by (simp add: Cons_nth_drop_Suc)
    with Suc show ?case by (simp add: take_Suc_conv_app_nth list_update_append nth_append)
  qed simp
  then show "length ts = n \<Longrightarrow> fold (\<lambda>p ts. ts[p := reap (ts ! p)]) [0..<n] ts = map reap ts" by simp
qed

section \<open>Properties\<close>

text \<open>
  C22. \<open>oct_tx_done_check\<close> refines a queue per port: on well-formed rings it ends within 64 rounds per port,
  destroys exactly the packets in front of each queue that the output unit has acknowledged, port by
  port and oldest first, and leaves well-formed rings with those packets removed and the counter of
  waiting packets lowered by their number. A fault of a release is the only way it can fail.
\<close>

theorem oct_tx_done_check_refines:
  assumes "length (tx_done s) = OCT_PHY_PORT_MAX" "\<And>t. t \<in> set (tx_done s) \<Longrightarrow> ring_inv t"
  shows "oct_tx_done_check 64 s =
      Some (rbind (rfold packet_destroy_all (concat (map completed (tx_done s))) s) (\<lambda>s1.
        Inr (s1\<lparr>tx_done := map reap (tx_done s),
                oct_tx_entries := oct_tx_entries s - of_nat (length (concat (map completed (tx_done s))))\<rparr>))) \<and>
    (\<forall>t \<in> set (tx_done s). ring_inv (reap t) \<and> ring_items (reap t) = dropWhile sent (ring_items t) \<and>
      completed t = map pend_mb (takeWhile sent (ring_items t)))"
proof -
  have all: "map (\<lambda>p. completed (tx_done s ! p)) [0..<OCT_PHY_PORT_MAX] = map completed (tx_done s)"
    using assms(1) by (metis map_nth map_map comp_apply map_cong)
  have "tx_done_ports 64 [0..<OCT_PHY_PORT_MAX] s =
      Some (rbind (rfold packet_destroy_all (concat (map completed (tx_done s))) s) (\<lambda>s1.
        Inr (s1\<lparr>tx_done := map reap (tx_done s),
                oct_tx_entries := oct_tx_entries s - of_nat (length (concat (map completed (tx_done s))))\<rparr>)))"
    using tx_done_ports_ok [of "[0..<OCT_PHY_PORT_MAX]" s 64] assms reap_all [OF assms(1)] by (simp add: all)
  with assms(2) reap_ring show ?thesis by (simp add: oct_tx_done_check_def completed_def)
qed

text \<open>A core with two packets waiting at port 0, the first of them acknowledged.\<close>

definition busy_tx :: tx_state where
  "busy_tx = \<lparr>flows = \<lparr>hh = \<lparr>first = \<lambda>_. Null, nxt = \<lambda>_. Poison, pprev = \<lambda>_. PPoison\<rparr>, item = \<lambda>_. new_item 0 zero_mbuf,
       ictrl = \<lambda>_. \<lparr>magic = 0, pool_id = 0, subpool_id = 0, ref = 0\<rparr>, item_locked = \<lambda>_. False, new_flow = 0, del_flow = 0, fpa_freed = []\<rparr>,
     mem = \<lparr>mem_pool = [], ctrl = \<lambda>_. \<lparr>magic = 0, pool_id = 0, subpool_id = 0, ref = 0\<rparr>, fpa_given = []\<rparr>,
     mbufs = \<lambda>_. zero_mbuf\<lparr>pkt_space := PKTBUF_SW\<rparr>,
     mctrl = \<lambda>_. \<lparr>magic = MEM_POOL_MAGIC_NUM, pool_id = of_nat FPA_POOL_ID_HOST_MBUF, subpool_id = 0, ref = 0\<rparr>,
     host_freed = [], hw_freed = [], stats = \<lambda>_. 0,
     tx_done = empty_ring\<lparr>producer := 2, tx_entries := 2,
         pend_tx_done := \<lparr>mem_ref = 0, pend_mb = 7\<rparr> # pending 8 # replicate 62 \<lparr>mem_ref = 0, pend_mb = 0\<rparr>\<rparr> # replicate 3 empty_ring,
     oct_tx_entries = 2, pko_sent = [], wqe_freed = [], wqe_data_freed = []\<rparr>"

theorem oct_tx_done_check_refines_witness:
  "\<exists>s'. oct_tx_done_check 64 busy_tx = Some (Inr s') \<and> host_freed s' = [7] \<and> oct_tx_entries s' = 1 \<and>
    ring_items (tx_done s' ! 0) = [pending 8]"
proof -
  have len: "length (tx_done busy_tx) = OCT_PHY_PORT_MAX" by (simp add: busy_tx_def OCT_PHY_PORT_MAX_def)
  have inv: "ring_inv t" if "t \<in> set (tx_done busy_tx)" for t
    using that by (auto simp: busy_tx_def ring_inv_def empty_ring_def OCT_PKO_TX_DESC_NUM_def)
  have items: "ring_items (tx_done busy_tx ! 0) = [\<lparr>mem_ref = 0, pend_mb = 7\<rparr>, pending 8]" "ring_items empty_ring = []"
    by (simp_all add: busy_tx_def ring_items_def empty_ring_def upt_rec)
  have c: "concat (map completed (tx_done busy_tx)) = [7]"
    using items by (simp add: completed_def busy_tx_def sent_def pending_def)
  have "\<exists>s1. packet_destroy_all 7 busy_tx = Inr s1 \<and> host_freed s1 = [7]"
    by (simp add: packet_destroy_all_def busy_tx_def mem_pool_free_def mbuf_free_eq mbuf_ok_def PKTBUF_SW_def PKTBUF_HW_def
        MEM_POOL_MAGIC_NUM_def FPA_POOL_ID_HOST_MBUF_def Let_def)
  then obtain s1 where s1: "packet_destroy_all 7 busy_tx = Inr s1" "host_freed s1 = [7]" by blast
  have t0: "tx_done busy_tx ! 0 \<in> set (tx_done busy_tx)" by (simp add: busy_tx_def)
  have d: "dropWhile sent (ring_items (tx_done busy_tx ! 0)) = [pending 8]" unfolding items(1) by (simp add: sent_def pending_def)
  have n: "map reap (tx_done busy_tx) ! 0 = reap (tx_done busy_tx ! 0)" "oct_tx_entries busy_tx = 2" by (simp_all add: busy_tx_def)
  from oct_tx_done_check_refines [OF len inv] t0 have
    "oct_tx_done_check 64 busy_tx = Some (Inr (s1\<lparr>tx_done := map reap (tx_done busy_tx), oct_tx_entries := oct_tx_entries busy_tx - 1\<rparr>))"
    "ring_items (reap (tx_done busy_tx ! 0)) = [pending 8]"
    unfolding c d [symmetric] by (simp_all add: s1(1))
  with n s1(2) show ?thesis by simp
qed

text \<open>
  Sending a packet in a software buffer on a core with well-formed rings. For the ports 0 to 3 the
  packet is queued last at its port when the ring has room and the output unit takes it; when the
  unit refuses it, the queue is as before and the packet is destroyed; when the ring is full it is
  destroyed. Ports above 4 are rejected. Port 4 passes the check \<open>port > OCT_PHY_PORT_MAX\<close> and is used
  as an index behind the four rings.
\<close>

theorem oct_tx_process_mbuf_sw:
  assumes sw: "pkt_space (mbufs s mb) = PKTBUF_SW" and len: "length (tx_done s) = OCT_PHY_PORT_MAX"
    and inv: "\<And>t. t \<in> set (tx_done s) \<Longrightarrow> ring_inv t"
  shows "if unat port < 4 then
      if length (ring_items (tx_done s ! unat port)) < 63 then
        \<exists>t' c. ring_inv t' \<and>
          (if ok then ring_items t' = ring_items (tx_done s ! unat port) @ [pending mb] \<and>
             oct_tx_process_mbuf ok mb port s = Inr (STAT TX_SEND_OVER (s\<lparr>tx_done := (tx_done s)[unat port := t'],
               oct_tx_entries := oct_tx_entries s + 1, pko_sent := pko_sent s @ [(port, SendSw (pkt_ptr (mbufs s mb)) (pkt_totallen (mbufs s mb)) c)]\<rparr>))
           else ring_items t' = ring_items (tx_done s ! unat port) \<and>
             oct_tx_process_mbuf ok mb port s = rbind (packet_destroy_all mb (s\<lparr>tx_done := (tx_done s)[unat port := t']\<rparr>)) (\<lambda>s'. Inr (STAT TX_SW_SEND_ERR s')))
      else oct_tx_process_mbuf ok mb port s = rbind (packet_destroy_all mb s) (\<lambda>s'. Inr (STAT TX_SW_DESC_ERR s'))
    else if port = 4 then oct_tx_process_mbuf ok mb port s = Inl OutOfBounds
    else oct_tx_process_mbuf ok mb port s = rbind (packet_destroy_all mb s) (\<lambda>s'. Inr (STAT TX_SEND_PORT_ERR s'))"
proof (cases "unat port < 4")
  case False
  then consider "port = 4" | "unat port > 4" by (cases "unat port = 4") (auto simp: word_unat_eq_iff)
  then show ?thesis using len sw
    by cases (auto simp: oct_tx_process_mbuf_def OCT_PHY_PORT_MAX_def PKTBUF_SW_def PKTBUF_HW_def)
next
  case True
  let ?t = "tx_done s ! unat port"
  have t: "ring_inv ?t" using inv True len by (simp add: OCT_PHY_PORT_MAX_def)
  show ?thesis
  proof (cases "length (ring_items ?t) < 63")
    case False
    with True sw len show ?thesis by (simp add: oct_tx_process_mbuf_def OCT_PHY_PORT_MAX_def OCT_PKO_TX_DESC_NUM_def PKTBUF_SW_def PKTBUF_HW_def Let_def)
  next
    case room: True
    obtain c t1 where add: "oct_pend_tx_done_add mb ?t = Inr (c, t1)" "ring_inv t1" "ring_items t1 = ring_items ?t @ [pending mb]"
      using ring.push_ok [OF t room] by blast
    have un: "ring_inv (oct_pend_tx_done_remove t1)" "ring_items (oct_pend_tx_done_remove t1) = ring_items ?t"
      using ring.push_unpush [OF t room, of mb] add(1) by auto
    have eq: "oct_tx_process_mbuf ok mb port s = (let s1 = s\<lparr>tx_done := (tx_done s)[unat port := t1], oct_tx_entries := oct_tx_entries s + 1\<rparr> in
        if ok then Inr (STAT TX_SEND_OVER (s1\<lparr>pko_sent := pko_sent s1 @ [(port, SendSw (pkt_ptr (mbufs s mb)) (pkt_totallen (mbufs s mb)) c)]\<rparr>))
        else rbind (packet_destroy_all mb (s\<lparr>tx_done := (tx_done s)[unat port := oct_pend_tx_done_remove t1]\<rparr>)) (\<lambda>s2. Inr (STAT TX_SW_SEND_ERR s2)))"
      using True room sw len add(1)
      by (simp add: oct_tx_process_mbuf_def OCT_PHY_PORT_MAX_def OCT_PKO_TX_DESC_NUM_def PKTBUF_SW_def PKTBUF_HW_def Let_def)
    show ?thesis
    proof (cases ok)
      case True
      with eq add(2,3) room \<open>unat port < 4\<close> show ?thesis by (simp add: Let_def) blast
    next
      case False
      with eq un room \<open>unat port < 4\<close> show ?thesis by (simp add: Let_def) blast
    qed
  qed
qed

theorem oct_tx_process_mbuf_sw_witness:
  "oct_tx_process_mbuf True 9 4 busy_tx = Inl OutOfBounds \<and>
   (\<exists>t' c. ring_items t' = [\<lparr>mem_ref = 0, pend_mb = 7\<rparr>, pending 8, pending 9] \<and> oct_tx_process_mbuf True 9 0 busy_tx =
      Inr (STAT TX_SEND_OVER (busy_tx\<lparr>tx_done := (tx_done busy_tx)[0 := t'], oct_tx_entries := 3, pko_sent := [(0, SendSw 0 0 c)]\<rparr>)))"
proof -
  have len: "length (tx_done busy_tx) = OCT_PHY_PORT_MAX" by (simp add: busy_tx_def OCT_PHY_PORT_MAX_def)
  have inv: "ring_inv t" if "t \<in> set (tx_done busy_tx)" for t
    using that by (auto simp: busy_tx_def ring_inv_def empty_ring_def OCT_PKO_TX_DESC_NUM_def)
  have sw: "pkt_space (mbufs busy_tx 9) = PKTBUF_SW" by (simp add: busy_tx_def)
  have items: "ring_items (tx_done busy_tx ! 0) = [\<lparr>mem_ref = 0, pend_mb = 7\<rparr>, pending 8]"
    by (simp add: busy_tx_def ring_items_def empty_ring_def upt_rec)
  have f: "oct_tx_entries busy_tx + 1 = 3" "pko_sent busy_tx = []" "pkt_ptr (mbufs busy_tx 9) = 0" "pkt_totallen (mbufs busy_tx 9) = 0"
    by (simp_all add: busy_tx_def zero_mbuf_def)
  have "oct_tx_process_mbuf True 9 4 busy_tx = Inl OutOfBounds"
    using oct_tx_process_mbuf_sw [OF sw len inv, of 4 True] by simp
  moreover have "\<exists>t' c. ring_items t' = [\<lparr>mem_ref = 0, pend_mb = 7\<rparr>, pending 8, pending 9] \<and> oct_tx_process_mbuf True 9 0 busy_tx =
      Inr (STAT TX_SEND_OVER (busy_tx\<lparr>tx_done := (tx_done busy_tx)[0 := t'], oct_tx_entries := 3, pko_sent := [(0, SendSw 0 0 c)]\<rparr>))"
    using oct_tx_process_mbuf_sw [OF sw len inv, of 0 True] by (auto simp: items f)
  ultimately show ?thesis ..
qed

end
