(* ===== verification/Ipv4.thy ===== *)
theory Ipv4
  imports Mbuf
begin

text \<open>
  The IPv4 header as \<open>dataplane/src/decode/decode-ipv4.h\<close> reads and writes it through
  \<open>mbuf->network_header\<close>, and the header checksum.
\<close>

section \<open>Fields\<close>

definition IPV4_HEADER_LEN :: u16 where
  "IPV4_HEADER_LEN = 20"

definition IPV4_PKTLEN_MAX :: int where
  "IPV4_PKTLEN_MAX = 65535"

definition PROTO_TCP :: u8 where
  "PROTO_TCP = 6"

definition PROTO_UDP :: u8 where
  "PROTO_UDP = 17"

definition IP_GET_RAW_VER :: "u8 \<Rightarrow> u8" where
  "IP_GET_RAW_VER b = drop_bit 4 (b AND 0xf0)"

definition IPV4_GET_HLEN :: "mbuf_t \<Rightarrow> nat res" where
  "IPV4_GET_HLEN m = rbind (pkt8 m (network_header m)) (\<lambda>b. Inr (unat (b AND 0x0f) * 4))"

definition IPV4_GET_IPLEN :: "mbuf_t \<Rightarrow> u16 res" where
  "IPV4_GET_IPLEN m = pkt16 m (network_header m + 2)"

definition IPV4_GET_IPID :: "mbuf_t \<Rightarrow> u16 res" where
  "IPV4_GET_IPID m = pkt16 m (network_header m + 4)"

definition IPV4_GET_RAW_IPOFFSET :: "mbuf_t \<Rightarrow> u16 res" where
  "IPV4_GET_RAW_IPOFFSET m = pkt16 m (network_header m + 6)"

definition IPV4_GET_IPOFFSET :: "mbuf_t \<Rightarrow> u16 res" where
  "IPV4_GET_IPOFFSET m = rbind (IPV4_GET_RAW_IPOFFSET m) (\<lambda>w. Inr (w AND 0x1fff))"

definition IPV4_GET_MF :: "mbuf_t \<Rightarrow> u8 res" where
  "IPV4_GET_MF m = rbind (IPV4_GET_RAW_IPOFFSET m) (\<lambda>w. Inr (ucast (drop_bit 13 (w AND 0x2000))))"

definition IPV4_GET_IPPROTO :: "mbuf_t \<Rightarrow> u8 res" where
  "IPV4_GET_IPPROTO m = pkt8 m (network_header m + 9)"

definition IPV4_GET_IPSRC :: "mbuf_t \<Rightarrow> u32 res" where
  "IPV4_GET_IPSRC m = pkt32 m (network_header m + 12)"

definition IPV4_GET_IPDST :: "mbuf_t \<Rightarrow> u32 res" where
  "IPV4_GET_IPDST m = pkt32 m (network_header m + 16)"

definition IPV4_IS_FRAGMENT :: "mbuf_t \<Rightarrow> bool res" where
  "IPV4_IS_FRAGMENT m = rbind (IPV4_GET_IPOFFSET m) (\<lambda>off. rbind (IPV4_GET_MF m) (\<lambda>mf. Inr (off > 0 \<or> mf = 1)))"

text \<open>A write of bytes through a packet pointer; outside the buffer it is a fault.\<close>

definition write_pkt :: "mbuf_t \<Rightarrow> u64 \<Rightarrow> u8 list \<Rightarrow> mbuf_t res" where
  "write_pkt m p bs =
     (let off = unat (p - pkt_ptr m); d = pkt_data m in
      if off + length bs \<le> length d then Inr (m\<lparr>pkt_data := take off d @ bs @ drop (off + length bs) d\<rparr>) else Inl OutOfBounds)"

definition IPV4_SET_IPLEN :: "mbuf_t \<Rightarrow> u16 \<Rightarrow> mbuf_t res" where
  "IPV4_SET_IPLEN m v = write_pkt m (network_header m + 2) (be16 v)"

definition IPV4_SET_IPOFF :: "mbuf_t \<Rightarrow> u16 \<Rightarrow> mbuf_t res" where
  "IPV4_SET_IPOFF m v = write_pkt m (network_header m + 6) (be16 v)"

definition IPV4_SET_IPCSUM :: "mbuf_t \<Rightarrow> u16 \<Rightarrow> mbuf_t res" where
  "IPV4_SET_IPCSUM m v = write_pkt m (network_header m + 10) (be16 v)"

section \<open>Checksum\<close>

text \<open>The first \<open>n\<close> words from index \<open>i\<close> on, in 32-bit arithmetic.\<close>

fun csum_words :: "u16 list \<Rightarrow> nat \<Rightarrow> nat \<Rightarrow> u32" where
  "csum_words pkt i 0 = 0"
| "csum_words pkt i (Suc n) = csum_words pkt i n + ucast (pkt ! (i + n))"

definition fold_csum :: "u32 \<Rightarrow> u16" where
  "fold_csum s =
     (let s1 = drop_bit 16 s + (s AND 0x0000FFFF);
          s2 = s1 + drop_bit 16 s1
      in ucast (NOT s2))"

definition IPV4CalculateChecksum :: "u16 list \<Rightarrow> u16 \<Rightarrow> u16" where
  "IPV4CalculateChecksum pkt hlen =
     (let csum = ucast (pkt ! 0) + (csum_words pkt 1 4 + csum_words pkt 6 4);
          h = hlen - 20
      in fold_csum (csum +
        (if h = 0 then 0
         else if h = 4 then csum_words pkt 10 2
         else if h = 8 then csum_words pkt 10 4
         else if h = 12 then csum_words pkt 10 6
         else if h = 16 then csum_words pkt 10 8
         else if h = 20 then csum_words pkt 10 10
         else if h = 24 then csum_words pkt 10 12
         else if h = 28 then csum_words pkt 10 14
         else if h = 32 then csum_words pkt 10 16
         else if h = 36 then csum_words pkt 10 18
         else if h = 40 then csum_words pkt 10 20
         else 0)))"

section \<open>The checksum verifies\<close>

text \<open>Addition with end-around carry, and the sum a receiver forms over the words of a header.\<close>

definition oc_add :: "u16 \<Rightarrow> u16 \<Rightarrow> u16" where
  "oc_add a b = (let s = unat a + unat b in of_nat (s mod 65536 + s div 65536))"

definition oc_sum :: "u16 list \<Rightarrow> u16" where
  "oc_sum ws = foldl oc_add 0 ws"

lemma u16_less: "unat (w :: u16) < 65536"
  using unsigned_less [of w] by simp

lemma unat_oc_add: "unat (oc_add a b) = (if unat a + unat b < 65536 then unat a + unat b else unat a + unat b - 65535)"
proof -
  have b: "unat a < 65536" "unat b < 65536" by (rule u16_less)+
  show ?thesis
  proof (cases "unat a + unat b < 65536")
    case False
    then have "(unat a + unat b) mod 65536 = unat a + unat b - 65536" "(unat a + unat b) div 65536 = 1"
      using b by (simp_all add: mod_if div_if)
    with False b show ?thesis unfolding oc_add_def Let_def unat_of_nat by simp
  qed (unfold oc_add_def Let_def unat_of_nat, simp)
qed

lemma oc_add_mod: "unat (oc_add a b) mod 65535 = (unat a + unat b) mod 65535"
  by (simp add: unat_oc_add le_mod_geq)

lemma oc_fold: "unat (foldl oc_add a ws) mod 65535 = (unat a + (\<Sum>w\<leftarrow>ws. unat w)) mod 65535"
proof (induction ws arbitrary: a)
  case (Cons w ws)
  show ?case unfolding foldl_Cons Cons.IH by (simp add: add.assoc [symmetric]) (metis mod_add_left_eq oc_add_mod)
qed simp

lemma oc_add_0: "oc_add a b = 0 \<longleftrightarrow> a = 0 \<and> b = 0"
  by (auto simp: word_unat_eq_iff unat_oc_add split: if_splits)

lemma oc_fold_0: "foldl oc_add a ws = 0 \<longleftrightarrow> a = 0 \<and> (\<forall>w \<in> set ws. w = 0)"
  by (induction ws arbitrary: a) (auto simp: oc_add_0)

lemma oc_sum_ones:
  assumes "(\<Sum>w\<leftarrow>ws. unat w) mod 65535 = 0" "w \<in> set ws" "w \<noteq> 0"
  shows "oc_sum ws = 0xFFFF"
proof -
  have "unat (oc_sum ws) mod 65535 = 0" using assms(1) by (simp add: oc_sum_def oc_fold)
  moreover have "oc_sum ws \<noteq> 0" using assms(2,3) by (auto simp: oc_sum_def oc_fold_0)
  moreover have "unat (oc_sum ws) < 65536" by (rule u16_less)
  ultimately have "unat (oc_sum ws) = 65535" by (auto simp: mod_if unat_eq_0 split: if_splits)
  then show ?thesis by (simp add: word_unat_eq_iff)
qed

lemma unat_not16: "unat (NOT w :: u16) = 65535 - unat w"
proof -
  have "NOT w = -1 - w" by (simp add: not_eq_complement)
  moreover have "unat (-1 - w) = unat (-1 :: u16) - unat w" by (rule unat_sub) simp
  moreover have "unat (-1 :: u16) = 65535" by (simp add: unsigned_minus_1_eq_mask mask_eq_exp_minus_1)
  ultimately show ?thesis by simp
qed

lemma fold_csum_sum: "(unat s + unat (fold_csum s)) mod 65535 = 0 \<and> (unat s = 0 \<longrightarrow> fold_csum s \<noteq> 0)"
proof -
  define S where "S = unat s"
  define s1 where "s1 = drop_bit 16 s + (s AND 0x0000FFFF)"
  define s2 where "s2 = s1 + drop_bit 16 s1"
  have S: "S < 2 ^ 32" unfolding S_def using unsigned_less [of s] by simp
  have lo: "unat (x AND 0xFFFF :: u32) = unat x mod 65536" for x
  proof -
    have "x AND 0xFFFF = take_bit 16 x" by (simp add: take_bit_eq_mask mask_eq_exp_minus_1)
    then have "unat (x AND 0xFFFF) = take_bit 16 (unat x)" by (simp only: unsigned_take_bit_eq)
    then show ?thesis by (simp add: take_bit_eq_mod)
  qed
  have hi: "unat (drop_bit 16 x :: u32) = unat x div 65536" for x
    by (simp add: drop_bit_eq_div unat_div_distrib)
  have dv: "S div 65536 < 65536" "S mod 65536 < 65536" using S by (simp_all add: div_less_iff_less_mult)
  have u1: "unat s1 = S div 65536 + S mod 65536"
    unfolding s1_def using dv by (simp add: unat_word_ariths hi lo S_def [symmetric])
  have u2: "unat s2 = unat s1 + unat s1 div 65536"
    unfolding s2_def using u1 dv by (simp add: unat_word_ariths hi)
  define L where "L = unat s2 mod 65536"
  have L: "L mod 65535 = S mod 65535" "L < 65536" "S = 0 \<Longrightarrow> L = 0"
  proof -
    have e: "S = 65536 * (S div 65536) + S mod 65536" by simp
    have "S = (S div 65536 + S mod 65536) + (S div 65536) * 65535" using e by linarith
    then have m: "(S div 65536 + S mod 65536) mod 65535 = S mod 65535" by (metis mod_mult_self1)
    show "L < 65536" by (simp add: L_def)
    show "L = 0" if "S = 0" using that u1 u2 by (simp add: L_def)
    show "L mod 65535 = S mod 65535"
    proof (cases "unat s1 < 65536")
      case True
      then show ?thesis using u1 u2 m by (simp add: L_def)
    next
      case False
      define r where "r = unat s1 - 65536"
      have r: "unat s1 = 65536 + r" "r < 65535" using False u1 dv by (simp_all add: r_def)
      then have "unat s2 = r + 1 + 65536" using u2 by (simp add: div_add_self1)
      then have "L = r + 1" unfolding L_def using r(2) by (simp only: mod_add_self2) simp
      moreover have "(65536 + r) mod 65535 = (r + 1 + 65535) mod 65535" by simp
      ultimately show ?thesis using u1 m r(1) by (simp only: mod_add_self2)
    qed
  qed
  have "fold_csum s = NOT (ucast s2)" unfolding fold_csum_def s1_def s2_def Let_def
    by (rule bit_word_eqI) (simp add: bit_simps)
  moreover have "unat (ucast s2 :: u16) = L" by (simp add: L_def unsigned_ucast_eq take_bit_eq_mod)
  ultimately have c: "unat (fold_csum s) = 65535 - L" by (simp add: unat_not16)
  have "(S + (65535 - L)) mod 65535 = (L + (65535 - L)) mod 65535" by (rule mod_add_cong) (use L(1) in simp_all)
  also have "\<dots> = 0" using L(2) by simp
  finally have "(S + (65535 - L)) mod 65535 = 0" .
  then show ?thesis using c L(3) by (auto simp: S_def word_unat_eq_iff)
qed

lemma unat_ucast32: "unat (ucast (w :: u16) :: u32) = unat w"
proof -
  have "unat w < 2 ^ 32" using u16_less [of w] by simp
  then show ?thesis by (simp only: unsigned_ucast_eq take_bit_nat_eq_self_iff) (simp add: take_bit_nat_eq_self)
qed

lemma sum_split: "(\<Sum>k<a + b. f k) = (\<Sum>k<a. f k) + (\<Sum>k<b. f (a + k))" for f :: "nat \<Rightarrow> nat"
  by (induction b) (simp_all add: add.assoc)

lemma csum_words_sum: "n \<le> 100 \<Longrightarrow> unat (csum_words pkt i n) = (\<Sum>k<n. unat (pkt ! (i + k))) \<and> (\<Sum>k<n. unat (pkt ! (i + k))) \<le> n * 65535"
proof (induction n)
  case (Suc n)
  have w: "unat (ucast (pkt ! (i + n)) :: u32) = unat (pkt ! (i + n))" by (rule unat_ucast32)
  have "unat (pkt ! (i + n)) \<le> 65535" using u16_less [of "pkt ! (i + n)"] by simp
  with Suc w show ?case by (simp add: unat_word_ariths)
qed simp

text \<open>The words that enter the sum: all words of the header but the checksum field.\<close>

lemma IPV4CalculateChecksum_words:
  assumes "n \<le> 10"
  shows "\<exists>s. IPV4CalculateChecksum pkt (of_nat (20 + 4 * n)) = fold_csum s \<and>
    unat s = unat (pkt ! 0) + (\<Sum>k<4. unat (pkt ! (1 + k))) + (\<Sum>k<4. unat (pkt ! (6 + k))) + (\<Sum>k<2 * n. unat (pkt ! (10 + k)))"
proof -
  define s where "s = ucast (pkt ! 0) + (csum_words pkt 1 4 + csum_words pkt 6 4) + csum_words pkt 10 (2 * n)"
  have w: "unat (ucast (pkt ! 0) :: u32) = unat (pkt ! 0)" "unat (pkt ! 0) \<le> 65535"
    using u16_less [of "pkt ! 0"] by (simp_all add: unat_ucast32)
  note a = csum_words_sum [of 4 pkt 1] csum_words_sum [of 4 pkt 6] csum_words_sum [of "2 * n" pkt 10]
  have "unat s = unat (pkt ! 0) + (\<Sum>k<4. unat (pkt ! (1 + k))) + (\<Sum>k<4. unat (pkt ! (6 + k))) + (\<Sum>k<2 * n. unat (pkt ! (10 + k)))"
    unfolding s_def using a w assms by (simp add: unat_word_ariths)
  moreover have "IPV4CalculateChecksum pkt (of_nat (20 + 4 * n)) = fold_csum s"
  proof -
    have "n \<in> {10, 9, 8, 7, 6, 5} \<union> {4, 3, 2, 1, 0}" using assms by simp arith
    then show ?thesis unfolding s_def IPV4CalculateChecksum_def Let_def by (elim UnE insertE emptyE) simp_all
  qed
  ultimately show ?thesis by blast
qed

lemma sum_list_words: "length ws = m \<Longrightarrow> (\<Sum>w\<leftarrow>ws. unat (w :: u16)) = (\<Sum>k<m. unat (ws ! k))"
  by (simp add: sum_list_sum_nth atLeast0LessThan)

lemma checksum_verifies:
  assumes "20 \<le> hlen" "hlen \<le> 60" "4 dvd hlen" "length ws = hlen div 2"
  shows "oc_sum (ws[5 := IPV4CalculateChecksum ws (of_nat hlen)]) = 0xFFFF \<and>
    IPV4CalculateChecksum (ws[5 := v]) (of_nat hlen) = IPV4CalculateChecksum ws (of_nat hlen)"
proof -
  define n where "n = (hlen - 20) div 4"
  have h: "hlen = 20 + 4 * n" "n \<le> 10" using assms(1-3) by (auto simp: n_def)
  have len: "length ws = 10 + 2 * n" using assms(4) h(1) by simp
  define S where "S = (\<lambda>ws :: u16 list. unat (ws ! 0) + (\<Sum>k<4. unat (ws ! (1 + k))) + (\<Sum>k<4. unat (ws ! (6 + k))) + (\<Sum>k<2 * n. unat (ws ! (10 + k))))"
  have eq: "\<exists>s. IPV4CalculateChecksum pkt (of_nat hlen) = fold_csum s \<and> unat s = S pkt" for pkt
    using IPV4CalculateChecksum_words [OF h(2), of pkt] by (simp add: h(1) S_def)
  have S5: "S (ws[5 := v]) = S ws" for v by (simp add: S_def eval_nat_numeral)
  obtain s where s: "IPV4CalculateChecksum ws (of_nat hlen) = fold_csum s" "unat s = S ws" using eq [of ws] by blast
  obtain s' where s': "IPV4CalculateChecksum (ws[5 := v]) (of_nat hlen) = fold_csum s'" "unat s' = S ws"
    using eq [of "ws[5 := v]"] S5 by auto
  have ss: "s' = s" using s(2) s'(2) by (simp add: word_unat_eq_iff)
  let ?c = "fold_csum s" and ?ws = "ws[5 := fold_csum s]"
  have sum: "(\<Sum>w\<leftarrow>?ws. unat w) = S ws + unat ?c"
  proof -
    have "(\<Sum>w\<leftarrow>?ws. unat w) = (\<Sum>k<10 + 2 * n. unat (?ws ! k))" using len by (simp add: sum_list_words)
    also have "\<dots> = (\<Sum>k<10. unat (?ws ! k)) + (\<Sum>k<2 * n. unat (?ws ! (10 + k)))"
      by (rule sum_split)
    also have "(\<Sum>k<10. unat (?ws ! k)) = unat (?ws ! 0) + (\<Sum>k<4. unat (?ws ! (1 + k))) + unat (?ws ! 5) + (\<Sum>k<4. unat (?ws ! (6 + k)))"
      by (simp add: eval_nat_numeral)
    also have "unat (?ws ! 5) = unat ?c" using len by simp
    finally show ?thesis using S5 [of ?c] by (simp add: S_def)
  qed
  have c: "(S ws + unat ?c) mod 65535 = 0" "S ws = 0 \<Longrightarrow> ?c \<noteq> 0" using fold_csum_sum [of s] s(2) by auto
  have "\<exists>w \<in> set ?ws. w \<noteq> 0"
  proof (rule ccontr)
    assume "\<not> (\<exists>w \<in> set ?ws. w \<noteq> 0)"
    then have "(\<Sum>w\<leftarrow>?ws. unat w) = 0" by (auto simp: sum_list_eq_0_iff)
    then have "S ws + unat ?c = 0" using sum by simp
    with c(2) show False by (simp add: unat_eq_0)
  qed
  then have "oc_sum ?ws = 0xFFFF" using oc_sum_ones [of ?ws] sum c(1) by auto
  with s(1) s'(1) ss show ?thesis by simp
qed

text \<open>
  C23. The checksum \<open>IPV4CalculateChecksum\<close> returns for a header of 20 to 60 bytes is the Internet checksum:
  it does not depend on the checksum field, and with it in that field the sum of all words of the
  header with end-around carry is 0xFFFF, so that every receiver accepts the header.
\<close>

theorem IPV4CalculateChecksum_verifies:
  assumes "20 \<le> hlen" "hlen \<le> 60" "4 dvd hlen" "length ws = hlen div 2"
  shows "oc_sum (ws[5 := IPV4CalculateChecksum ws (of_nat hlen)]) = 0xFFFF \<and>
    IPV4CalculateChecksum (ws[5 := v]) (of_nat hlen) = IPV4CalculateChecksum ws (of_nat hlen)"
  by (rule checksum_verifies [OF assms])

theorem IPV4CalculateChecksum_verifies_witness:
  "oc_sum ([0x4500, 0x0054, 0x1c46, 0, 0x4011, 0xBEEF, 0xc0a8, 0x0001, 0xc0a8, 0x00c7]
     [5 := IPV4CalculateChecksum [0x4500, 0x0054, 0x1c46, 0, 0x4011, 0xBEEF, 0xc0a8, 0x0001, 0xc0a8, 0x00c7] 20]) = 0xFFFF"
  using IPV4CalculateChecksum_verifies [of 20 "[0x4500, 0x0054, 0x1c46, 0, 0x4011, 0xBEEF, 0xc0a8, 0x0001, 0xc0a8, 0x00c7]"] by simp

end
