(* ===== verification/Defrag.thy ===== *)
theory Defrag
  imports TxRing Ipv4
begin

text \<open>
  Reassembly of IPv4 fragments, \<open>dataplane/src/decode/decode-defrag.c\<close>: a hash table of fragment control
  blocks, each with the fragments of one datagram in the order of their offsets. The chain of mbufs
  from \<open>fragments\<close> to \<open>fragments_tail\<close> is the list \<open>c_fragments\<close>. The sections under the bucket lock and
  under the lock of a control block are atomic. Control blocks come from the pool of the descriptors
  and share their numbers and control words.
\<close>

section \<open>State\<close>

definition DEFRAG_FIRST_IN :: u8 where
  "DEFRAG_FIRST_IN = 1"

definition DEFRAG_LAST_IN :: u8 where
  "DEFRAG_LAST_IN = 2"

definition DEFRAG_COMPLETE :: u8 where
  "DEFRAG_COMPLETE = 4"

definition FRAG_BUCKET_NUM :: nat where
  "FRAG_BUCKET_NUM = 1024"

definition FRAG_BUCKET_MASK :: u32 where
  "FRAG_BUCKET_MASK = 1023"

record fcb_t =
  c_fragments :: "nat list"
  c_cycle :: u64
  c_sip :: u32
  c_dip :: u32
  c_id :: u16
  c_status :: u16
  c_total_fraglen :: int
  c_meat :: int
  c_last_in :: u8

record dp_state = tx_state +
  fh :: hheap
  fcbs :: "nat \<Rightarrow> fcb_t"
  del_fcb :: u64

definition upd_fcb :: "nat \<Rightarrow> (fcb_t \<Rightarrow> fcb_t) \<Rightarrow> dp_state \<Rightarrow> dp_state" where
  "upd_fcb f g s = s\<lparr>fcbs := (fcbs s)(f := g (fcbs s f))\<rparr>"

section \<open>Control blocks\<close>

definition fcb_alloc :: "nat option \<Rightarrow> dp_state \<Rightarrow> nat option \<times> dp_state" where
  "fcb_alloc buf s = (case buf of
     None \<Rightarrow> (None, s)
   | Some a \<Rightarrow> (Some a, s\<lparr>mctrl := (mctrl s)(a := (mctrl s a)\<lparr>magic := MEM_POOL_MAGIC_NUM, pool_id := of_nat FPA_POOL_ID_HOST_MBUF\<rparr>)\<rparr>))"

definition fcb_free :: "nat \<Rightarrow> dp_state \<Rightarrow> dp_state" where
  "fcb_free f s =
     (if magic (mctrl s f) \<noteq> MEM_POOL_MAGIC_NUM then s
      else if unat (pool_id (mctrl s f)) \<noteq> FPA_POOL_ID_HOST_MBUF then s
      else s\<lparr>host_freed := host_freed s @ [f]\<rparr>)"

definition new_fcb :: "mbuf_t \<Rightarrow> fcb_t" where
  "new_fcb m = \<lparr>c_fragments = [], c_cycle = 0, c_sip = sip m, c_dip = dip m, c_id = defrag_id m, c_status = 0,
     c_total_fraglen = 0, c_meat = 0, c_last_in = 0\<rparr>"

definition fcb_create :: "nat option \<Rightarrow> nat \<Rightarrow> dp_state \<Rightarrow> nat option \<times> dp_state" where
  "fcb_create buf mb s =
     (case fcb_alloc buf s of
        (None, s1) \<Rightarrow> (None, s1)
      | (Some f, s1) \<Rightarrow> (Some f, s1\<lparr>fcbs := (fcbs s1)(f := new_fcb (mbufs s1 mb))\<rparr>))"

definition fcb_insert :: "nat \<Rightarrow> nat \<Rightarrow> dp_state \<Rightarrow> dp_state res" where
  "fcb_insert b f s = rbind (hlist_add_head f b (fh s)) (\<lambda>H. Inr (s\<lparr>fh := H\<rparr>))"

definition ip4_frag_hashfn :: "mbuf_t \<Rightarrow> u32" where
  "ip4_frag_hashfn m = jhash_3words (sip m) (dip m) (ucast (defrag_id m)) 0 AND FRAG_BUCKET_MASK"

definition ip4_frag_match :: "fcb_t \<Rightarrow> mbuf_t \<Rightarrow> bool" where
  "ip4_frag_match c m \<longleftrightarrow> c_id c = defrag_id m \<and> c_sip c = sip m \<and> c_dip c = dip m"

definition FragFind :: "nat \<Rightarrow> u64 \<Rightarrow> nat \<Rightarrow> nat \<Rightarrow> dp_state \<Rightarrow> (nat option \<times> dp_state) res option" where
  "FragFind fuel now b mb s =
     fbind (hlist_find fuel (\<lambda>a. ip4_frag_match (fcbs s a) (mbufs s mb)) (first (fh s) b) (fh s)) (\<lambda>r.
       Some (Inr (case r of None \<Rightarrow> (None, s) | Some f \<Rightarrow> (Some f, upd_fcb f (\<lambda>c. c\<lparr>c_cycle := now\<rparr>) s))))"

section \<open>Reassembly\<close>

definition Frag_defrag_freefrags :: "nat \<Rightarrow> dp_state \<Rightarrow> dp_state res" where
  "Frag_defrag_freefrags f s =
     rbind (rfold packet_destroy_all (c_fragments (fcbs s f)) s) (\<lambda>s1. Inr (upd_fcb f (\<lambda>c. c\<lparr>c_fragments := []\<rparr>) s1))"

definition setup_mbuf :: "mbuf_t \<Rightarrow> u64 \<Rightarrow> mbuf_t" where
  "setup_mbuf h buf =
     (packet_header_ptr_adjust
        (zero_mbuf\<lparr>pkt_space := PKTBUF_SW, pkt_ptr := buf, ethh := ethh h, vlan_idx := vlan_idx h, vlan_id := vlan_id h,
           network_header := network_header h, transport_header := transport_header h, payload := payload h\<rparr>)
        (pkt_ptr h) buf)
     \<lparr>magic_flag := MBUF_MAGIC_NUM, input_port := input_port h, eth_dst := eth_dst h, eth_src := eth_src h,
      sip := sip h, dip := dip h, sport := sport h, dport := dport h, proto := proto h\<rparr>"

text \<open>When the buffer cannot be allocated, the new descriptor is released before it was cleared.\<close>

definition Frag_defrag_setup :: "nat option \<Rightarrow> nat \<Rightarrow> nat \<Rightarrow> dp_state \<Rightarrow> (nat option \<times> dp_state) res" where
  "Frag_defrag_setup buf h0 f s =
     (case mbuf_alloc buf s of
        (None, s1) \<Rightarrow> Inr (None, s1)
      | (Some new, s1) \<Rightarrow>
          let h = mbufs s1 h0 in
          rbind (IPV4_GET_HLEN h) (\<lambda>ihl.
          rbind (mem_pool_alloc MEM_POOL_ID_LARGE_BUFFER
                   (of_int (c_total_fraglen (fcbs s1 f)) + ucast (network_header h - pkt_ptr h) + of_nat ihl) (mem s1)) (\<lambda>(b, k).
            case b of
              None \<Rightarrow> Inr (None, mbuf_free new (s1\<lparr>mem := k\<rparr>))
            | Some packet_buffer \<Rightarrow>
                Inr (Some new, s1\<lparr>mem := k, mbufs := (mbufs s1)(new := setup_mbuf h (of_nat packet_buffer))\<rparr>))))"

text \<open>A copy of \<open>bs\<close> into a packet buffer of \<open>cap\<close> bytes at its current length.\<close>

definition append_pkt :: "nat \<Rightarrow> u8 list \<Rightarrow> mbuf_t \<Rightarrow> mbuf_t res" where
  "append_pkt cap bs m =
     (let off = unat (pkt_totallen m) in
      if off + length bs \<le> cap then
        Inr (m\<lparr>pkt_data := take off (pkt_data m) @ replicate (off - length (pkt_data m)) 0 @ bs @ drop (off + length bs) (pkt_data m)\<rparr>)
      else Inl OutOfBounds)"

definition append_frag :: "nat \<Rightarrow> mbuf_t \<Rightarrow> mbuf_t \<Rightarrow> mbuf_t res" where
  "append_frag cap n m =
     rbind (read_pkt n (pkt_ptr n + ucast (pkt_totallen n) - of_int (frag_len n)) (nat (frag_len n))) (\<lambda>bs.
     rbind (append_pkt cap bs m) (\<lambda>m1. Inr (m1\<lparr>pkt_totallen := pkt_totallen m1 + of_int (frag_len n)\<rparr>)))"

definition words_of :: "u8 list \<Rightarrow> u16 list" where
  "words_of bs = map (\<lambda>i. get16 bs (2 * i)) [0..<length bs div 2]"

text \<open>The header of the reassembled datagram: length, offset 0 and checksum.\<close>

definition finish_header :: "int \<Rightarrow> nat \<Rightarrow> mbuf_t \<Rightarrow> mbuf_t res" where
  "finish_header len ihlen m =
     rbind (IPV4_SET_IPLEN m (of_int len)) (\<lambda>m1.
     rbind (IPV4_SET_IPOFF m1 0) (\<lambda>m2.
     rbind (read_pkt m2 (network_header m2) (max 20 ihlen)) (\<lambda>bs.
     IPV4_SET_IPCSUM m2 (IPV4CalculateChecksum (words_of bs) (of_nat ihlen)))))"

definition Frag_defrag_reasm :: "nat option \<Rightarrow> nat \<Rightarrow> dp_state \<Rightarrow> (nat option \<times> dp_state) res" where
  "Frag_defrag_reasm buf f s =
     (case c_fragments (fcbs s f) of
        [] \<Rightarrow> Inl NullDeref
      | h0 # rest \<Rightarrow>
          rbind (IPV4_GET_HLEN (mbufs s h0)) (\<lambda>ihlen.
            let len = int ihlen + c_total_fraglen (fcbs s f) in
            if len > IPV4_PKTLEN_MAX then Inr (None, s)
            else rbind (Frag_defrag_setup buf h0 f s) (\<lambda>(r, s1).
              case r of
                None \<Rightarrow> Inr (None, s1)
              | Some new \<Rightarrow>
                  let h = mbufs s1 h0; cap = unat (datasize (mem_pool (mem s1) ! MEM_POOL_ID_LARGE_BUFFER)) in
                  rbind (read_pkt h (pkt_ptr h) (unat (pkt_totallen h))) (\<lambda>bs.
                  rbind (append_pkt cap bs (mbufs s1 new)) (\<lambda>m0.
                  rbind (rfold (\<lambda>a. append_frag cap (mbufs s1 a)) rest (m0\<lparr>pkt_totallen := pkt_totallen m0 + pkt_totallen h\<rparr>)) (\<lambda>m1.
                  rbind (finish_header len ihlen m1) (\<lambda>m2.
                  rbind (Frag_defrag_freefrags f
                           (upd_fcb f (\<lambda>c. c\<lparr>c_status := c_status c OR ucast DEFRAG_COMPLETE\<rparr>) (s1\<lparr>mbufs := (mbufs s1)(new := m2)\<rparr>))) (\<lambda>s2.
                  Inr (Some new, STAT FRAG_REASM_OK s2)))))))))"

section \<open>One fragment\<close>

text \<open>Where a fragment goes: the fragments in front of it and the ones behind.\<close>

definition frag_split :: "(nat \<Rightarrow> mbuf_t) \<Rightarrow> int \<Rightarrow> nat list \<Rightarrow> nat list \<times> nat list" where
  "frag_split M offset xs =
     (if xs = [] \<or> frag_offset (M (last xs)) < offset then (xs, [])
      else (takeWhile (\<lambda>a. frag_len (M a) < offset) xs, dropWhile (\<lambda>a. frag_len (M a) < offset) xs))"

text \<open>The length and the last-fragment flag after a fragment that ends at \<open>end\<close>, \<open>None\<close> for an error.\<close>

definition frag_bounds :: "u8 \<Rightarrow> int \<Rightarrow> fcb_t \<Rightarrow> fcb_t option" where
  "frag_bounds mf end c =
     (if mf = 0 then
        if end < c_total_fraglen c \<or> c_last_in c AND DEFRAG_LAST_IN \<noteq> 0 then None
        else Some (c\<lparr>c_last_in := c_last_in c OR DEFRAG_LAST_IN, c_total_fraglen := end\<rparr>)
      else if end > c_total_fraglen c then
        if c_last_in c AND DEFRAG_LAST_IN \<noteq> 0 then None else Some (c\<lparr>c_total_fraglen := end\<rparr>)
      else Some c)"

definition frag_err :: "nat \<Rightarrow> dp_state \<Rightarrow> (nat option \<times> dp_state) res" where
  "frag_err mb s = rbind (packet_destroy_all mb s) (\<lambda>s1. Inr (None, STAT FRAG_DEFRAG_ERR s1))"

definition frag_overlap :: "(nat \<Rightarrow> mbuf_t) \<Rightarrow> int \<Rightarrow> int \<Rightarrow> nat list \<times> nat list \<Rightarrow> bool" where
  "frag_overlap M offset end p =
     ((fst p \<noteq> [] \<and> frag_offset (M (last (fst p))) + frag_len (M (last (fst p))) - offset > 0) \<or>
      (snd p \<noteq> [] \<and> frag_offset (M (hd (snd p))) - end < 0))"

definition Frag_defrag_process :: "nat option \<Rightarrow> nat \<Rightarrow> nat \<Rightarrow> dp_state \<Rightarrow> (nat option \<times> dp_state) res" where
  "Frag_defrag_process buf mb f s =
     (let m = mbufs s mb; c = fcbs s f in
      if c_last_in c AND DEFRAG_COMPLETE \<noteq> 0 then frag_err mb s
      else
        let offset = frag_offset m; end = offset + frag_len m in
        rbind (IPV4_GET_MF m) (\<lambda>mf.
        case frag_bounds mf end c of
          None \<Rightarrow> frag_err mb s
        | Some c1 \<Rightarrow>
            let s1 = upd_fcb f (\<lambda>_. c1) s; p = frag_split (mbufs s) offset (c_fragments c1) in
            if frag_overlap (mbufs s) offset end p then frag_err mb s1
            else
              let c2 = c1\<lparr>c_fragments := fst p @ mb # snd p, c_meat := c_meat c1 + frag_len m,
                          c_last_in := if offset = 0 then c_last_in c1 OR DEFRAG_FIRST_IN else c_last_in c1\<rparr>;
                  s2 = upd_fcb f (\<lambda>_. c2) s1
              in if c_last_in c2 = DEFRAG_FIRST_IN OR DEFRAG_LAST_IN \<and> c_meat c2 = c_total_fraglen c2
                 then Frag_defrag_reasm buf f s2
                 else Inr (None, STAT FRAG_CACHE_OK s2)))"

definition Frag_defrag_begin :: "nat option \<Rightarrow> nat \<Rightarrow> nat \<Rightarrow> dp_state \<Rightarrow> (nat option \<times> dp_state) res" where
  "Frag_defrag_begin buf mb f s =
     rbind (packet_hw2sw mb s) (\<lambda>(r, s1).
       if r \<noteq> SEC_OK then rbind (packet_destroy_all mb s1) (\<lambda>s2. Inr (None, STAT FRAG_HW2SW_ERR s2))
       else Frag_defrag_process buf mb f s1)"

text \<open>
  \<open>Defrag\<close>: \<open>fbuf\<close> and \<open>mbuf\<close> are what the hardware allocator returns for a control block and for the
  descriptor of the whole datagram.
\<close>

definition Defrag :: "nat \<Rightarrow> nat option \<Rightarrow> nat option \<Rightarrow> u64 \<Rightarrow> nat \<Rightarrow> dp_state \<Rightarrow> (nat option \<times> dp_state) res option" where
  "Defrag fuel fbuf mbuf now mb s =
     (let b = unat (ip4_frag_hashfn (mbufs s mb)) in
      fbind (FragFind fuel now b mb s) (\<lambda>(r, s1).
        case r of
          Some f \<Rightarrow> Some (Frag_defrag_begin mbuf mb f s1)
        | None \<Rightarrow>
            case fcb_create fbuf mb s1 of
              (None, s2) \<Rightarrow> Some (rbind (packet_destroy_all mb s2) (\<lambda>s3. Inr (None, STAT FRAG_FCB_NO s3)))
            | (Some f, s2) \<Rightarrow>
                Some (rbind (fcb_insert b f (upd_fcb f (\<lambda>c. c\<lparr>c_cycle := now\<rparr>) s2)) (\<lambda>s3. Frag_defrag_begin mbuf mb f s3))))"

section \<open>Ageing\<close>

definition FRAG_MAX_TIMEOUT :: "u64 \<Rightarrow> u64" where
  "FRAG_MAX_TIMEOUT oct_cpu_rate = 20 * oct_cpu_rate"

definition frag_timeout_head :: nat where
  "frag_timeout_head = FRAG_BUCKET_NUM"

definition age_fcb :: "u64 \<Rightarrow> u64 \<Rightarrow> nat \<Rightarrow> dp_state \<Rightarrow> dp_state res" where
  "age_fcb rate now f s =
     (if now > c_cycle (fcbs s f) \<and> now - c_cycle (fcbs s f) > FRAG_MAX_TIMEOUT rate then
        rbind (hlist_del f (fh s)) (\<lambda>H.
        rbind (hlist_add_head f frag_timeout_head H) (\<lambda>H'.
        Inr (s\<lparr>fh := H', del_fcb := del_fcb s + 1\<rparr>)))
      else Inr s)"

definition reap_fcb :: "nat \<Rightarrow> dp_state \<Rightarrow> dp_state res" where
  "reap_fcb f s =
     rbind (hlist_del f (fh s)) (\<lambda>H.
     rbind (Frag_defrag_freefrags f (s\<lparr>fh := H\<rparr>)) (\<lambda>s1. Inr (fcb_free f s1)))"

definition frag_age_bucket :: "nat \<Rightarrow> (nat \<Rightarrow> bool) \<Rightarrow> u64 \<Rightarrow> u64 \<Rightarrow> nat \<Rightarrow> dp_state \<Rightarrow> dp_state res option" where
  "frag_age_bucket fuel busy rate now i s =
     (let s1 = s\<lparr>fh := INIT_HLIST_HEAD frag_timeout_head (fh s)\<rparr> in
      if busy i then Some (Inr s1)
      else fbind (hlist_for_each_safe fuel (age_fcb rate now) fh (first (fh s1) i) s1) (\<lambda>s2.
           hlist_for_each_safe fuel reap_fcb fh (first (fh s2) frag_timeout_head) s2))"

fun frag_age_from :: "nat \<Rightarrow> (nat \<Rightarrow> bool) \<Rightarrow> u64 \<Rightarrow> u64 \<Rightarrow> nat list \<Rightarrow> dp_state \<Rightarrow> dp_state res option" where
  "frag_age_from fuel busy rate now [] s = Some (Inr s)"
| "frag_age_from fuel busy rate now (i # is) s = fbind (frag_age_bucket fuel busy rate now i s) (frag_age_from fuel busy rate now is)"

definition Frag_defrag_timeout :: "nat \<Rightarrow> (nat \<Rightarrow> bool) \<Rightarrow> u64 \<Rightarrow> u64 \<Rightarrow> dp_state \<Rightarrow> dp_state res option" where
  "Frag_defrag_timeout fuel busy rate now s = frag_age_from fuel busy rate now [0..<FRAG_BUCKET_NUM] s"

text \<open>\<open>block\<close> says whether the table could be allocated, \<open>timer\<close> whether the timer could be created.\<close>

definition FragModule_init :: "bool \<Rightarrow> bool \<Rightarrow> dp_state \<Rightarrow> int \<times> dp_state" where
  "FragModule_init block timer s =
     (if \<not> block then (SEC_NO, s)
      else let s1 = s\<lparr>fh := fold INIT_HLIST_HEAD [0..<FRAG_BUCKET_NUM] (fh s)\<rparr> in
           if \<not> timer then (SEC_NO, s1) else (SEC_OK, s1))"

end
