(* ===== verification/DefragChain.thy ===== *)
theory DefragChain
  imports Defrag
begin

text \<open>
  The chain of fragments of one datagram: fragments in order that do not overlap, how a new fragment
  enters it, and when it covers the datagram.
\<close>

section \<open>Tilings\<close>

definition frag_end :: "mbuf_t \<Rightarrow> int" where
  "frag_end m = frag_offset m + frag_len m"

definition tiled :: "(nat \<Rightarrow> mbuf_t) \<Rightarrow> nat list \<Rightarrow> bool" where
  "tiled M xs \<longleftrightarrow> sorted_wrt (\<lambda>a b. frag_end (M a) \<le> frag_offset (M b)) xs \<and> (\<forall>a \<in> set xs. 0 \<le> frag_offset (M a) \<and> 0 < frag_len (M a))"

text \<open>The fragments \<open>xs\<close> follow each other without a gap from offset \<open>off\<close> on.\<close>

fun contig :: "(nat \<Rightarrow> mbuf_t) \<Rightarrow> int \<Rightarrow> nat list \<Rightarrow> bool" where
  "contig M off [] \<longleftrightarrow> True"
| "contig M off (a # xs) \<longleftrightarrow> frag_offset (M a) = off \<and> contig M (frag_end (M a)) xs"

lemma tiled_append:
  "tiled M (xs @ ys) \<longleftrightarrow> tiled M xs \<and> tiled M ys \<and> (\<forall>a \<in> set xs. \<forall>b \<in> set ys. frag_end (M a) \<le> frag_offset (M b))"
  by (auto simp: tiled_def sorted_wrt_append)

lemma tiled_Cons:
  "tiled M (a # xs) \<longleftrightarrow> 0 \<le> frag_offset (M a) \<and> 0 < frag_len (M a) \<and> (\<forall>b \<in> set xs. frag_end (M a) \<le> frag_offset (M b)) \<and> tiled M xs"
  by (auto simp: tiled_def)

lemma tiled_last:
  assumes "tiled M xs" "a \<in> set xs"
  shows "frag_end (M a) \<le> frag_end (M (last xs))"
proof -
  obtain ys z where xs: "xs = ys @ [z]" using assms(2) by (cases xs rule: rev_cases) auto
  with assms show ?thesis by (auto simp: tiled_append tiled_Cons frag_end_def)
qed

lemma tiled_hd:
  assumes "tiled M xs" "a \<in> set xs"
  shows "frag_offset (M (hd xs)) \<le> frag_offset (M a)"
  using assms by (cases xs) (auto simp: tiled_Cons frag_end_def)

text \<open>Inserting a fragment at the place \<open>frag_split\<close> finds keeps the tiling when it overlaps neither neighbour.\<close>

lemma frag_split_append: "fst (frag_split M off xs) @ snd (frag_split M off xs) = xs"
  by (simp add: frag_split_def)

lemma tiled_insert:
  assumes t: "tiled M xs" and p: "frag_split M (frag_offset (M a)) xs = p" and ov: "\<not> frag_overlap M (frag_offset (M a)) (frag_end (M a)) p"
    and a: "0 \<le> frag_offset (M a)" "0 < frag_len (M a)"
  shows "tiled M (fst p @ a # snd p)"
proof -
  have xs: "xs = fst p @ snd p" using frag_split_append [of M "frag_offset (M a)" xs] p by simp
  have t12: "tiled M (fst p)" "tiled M (snd p)" "\<forall>x \<in> set (fst p). \<forall>y \<in> set (snd p). frag_end (M x) \<le> frag_offset (M y)"
    using t unfolding xs tiled_append by auto
  have before: "frag_end (M x) \<le> frag_offset (M a)" if "x \<in> set (fst p)" for x
    using tiled_last [OF t12(1) that] ov that by (auto simp: frag_overlap_def frag_end_def)
  have after: "frag_end (M a) \<le> frag_offset (M y)" if "y \<in> set (snd p)" for y
    using tiled_hd [OF t12(2) that] ov that by (auto simp: frag_overlap_def)
  show ?thesis using t12 before after a by (auto simp: tiled_append tiled_Cons)
qed

lemma sum_frag_le:
  assumes "tiled M xs" "\<And>a. a \<in> set xs \<Longrightarrow> e \<le> frag_offset (M a) \<and> frag_end (M a) \<le> T" "e \<le> T"
  shows "(\<Sum>a\<leftarrow>xs. frag_len (M a)) \<le> T - e"
  using assms
proof (induction xs arbitrary: e)
  case (Cons a xs)
  have "(\<Sum>a\<leftarrow>xs. frag_len (M a)) \<le> T - frag_end (M a)"
    using Cons.prems by (intro Cons.IH) (auto simp: tiled_Cons)
  with Cons.prems(2) [of a] show ?case by (simp add: frag_end_def)
qed simp

text \<open>Fragments inside \<open>[0, T)\<close> whose lengths add up to \<open>T\<close> cover it.\<close>

lemma tiled_covers:
  assumes "tiled M xs" "\<And>a. a \<in> set xs \<Longrightarrow> e \<le> frag_offset (M a) \<and> frag_end (M a) \<le> T"
    "(\<Sum>a\<leftarrow>xs. frag_len (M a)) = T - e"
  shows "contig M e xs"
  using assms
proof (induction xs arbitrary: e)
  case (Cons a xs)
  have t: "tiled M xs" "\<And>b. b \<in> set xs \<Longrightarrow> frag_end (M a) \<le> frag_offset (M b)" using Cons.prems(1) by (auto simp: tiled_Cons)
  have b: "e \<le> frag_offset (M a)" "frag_end (M a) \<le> T" using Cons.prems(2) [of a] by auto
  have le: "(\<Sum>a\<leftarrow>xs. frag_len (M a)) \<le> T - frag_end (M a)"
    using Cons.prems(2) t b(2) by (intro sum_frag_le) auto
  have eq: "frag_offset (M a) = e" "(\<Sum>a\<leftarrow>xs. frag_len (M a)) = T - frag_end (M a)"
    using Cons.prems(3) le b(1) by (simp_all add: frag_end_def)
  have "contig M (frag_end (M a)) xs" using t Cons.prems(2) eq(2) by (intro Cons.IH) auto
  with eq(1) show ?case by simp
qed simp

text \<open>The byte at offset \<open>i\<close> of the concatenation of the payloads comes from the fragment that covers \<open>i\<close>.\<close>

definition payload_of :: "mbuf_t \<Rightarrow> u8 list" where
  "payload_of m = drop (length (pkt_data m) - nat (frag_len m)) (pkt_data m)"

lemma contig_ge: "contig M e ys \<Longrightarrow> x \<in> set ys \<Longrightarrow> (\<And>b. b \<in> set ys \<Longrightarrow> 0 < frag_len (M b)) \<Longrightarrow> e \<le> frag_offset (M x)"
  by (induction ys arbitrary: e) (force simp: frag_end_def)+

lemma contig_payload:
  assumes "contig M e xs" "a \<in> set xs" "\<And>b. b \<in> set xs \<Longrightarrow> 0 < frag_len (M b) \<and> nat (frag_len (M b)) \<le> length (pkt_data (M b))"
    "i < nat (frag_len (M a))"
  shows "concat (map (\<lambda>a. payload_of (M a)) xs) ! (nat (frag_offset (M a) - e) + i) = payload_of (M a) ! i"
  using assms
proof (induction xs arbitrary: e)
  case (Cons b xs)
  have len: "length (payload_of (M x)) = nat (frag_len (M x))" if "x \<in> set (b # xs)" for x
    using Cons.prems(3) [OF that] by (simp add: payload_of_def)
  have off: "frag_end (M b) \<le> frag_offset (M x)" if "x \<in> set xs" for x
    by (rule contig_ge [of M _ xs]) (use Cons.prems(1,3) that in auto)
  show ?case
  proof (cases "a = b")
    case True
    then show ?thesis using Cons.prems(1,4) len [of b] by (simp add: nth_append)
  next
    case False
    then have a: "a \<in> set xs" using Cons.prems(2) by simp
    have b: "0 < frag_len (M b)" "frag_offset (M b) = e" using Cons.prems by auto
    have "nat (frag_offset (M a) - e) + i = length (payload_of (M b)) + (nat (frag_offset (M a) - frag_end (M b)) + i)"
      using off [OF a] b len [of b] by (simp add: frag_end_def)
    moreover have "concat (map (\<lambda>a. payload_of (M a)) xs) ! (nat (frag_offset (M a) - frag_end (M b)) + i) = payload_of (M a) ! i"
      using Cons.prems a b by (intro Cons.IH) (auto simp: frag_end_def)
    ultimately show ?thesis by (simp add: nth_append)
  qed
qed simp

section \<open>Invariant of a control block\<close>

definition frag_complete :: "fcb_t \<Rightarrow> bool" where
  "frag_complete c \<longleftrightarrow> c_status c AND ucast DEFRAG_COMPLETE \<noteq> 0"

definition last_seen :: "fcb_t \<Rightarrow> bool" where
  "last_seen c \<longleftrightarrow> c_last_in c AND DEFRAG_LAST_IN \<noteq> 0"

text \<open>
  The fragments lie in order inside the datagram, \<open>c_meat\<close> counts the bytes cached now and the bytes
  handed on, and the length is final once the last fragment was seen.
\<close>

definition fcb_inv :: "(nat \<Rightarrow> mbuf_t) \<Rightarrow> fcb_t \<Rightarrow> bool" where
  "fcb_inv M c \<longleftrightarrow> tiled M (c_fragments c) \<and> distinct (c_fragments c) \<and> (\<forall>a \<in> set (c_fragments c). frag_end (M a) \<le> c_total_fraglen c) \<and>
     c_meat c = (\<Sum>a\<leftarrow>c_fragments c. frag_len (M a)) + (if frag_complete c then c_total_fraglen c else 0) \<and>
     0 \<le> c_total_fraglen c \<and> (frag_complete c \<longrightarrow> last_seen c \<and> 0 < c_total_fraglen c) \<and> c_last_in c AND DEFRAG_COMPLETE = 0"

lemma flag_bit: "w AND 2 = 0 \<longleftrightarrow> \<not> bit w 1" "w AND 4 = 0 \<longleftrightarrow> \<not> bit w 2" for w :: "'a::len word"
  using and_exp_eq_0_iff_not_bit [of w 1] and_exp_eq_0_iff_not_bit [of w 2] by simp_all

lemma flags_or [simp]: "bit (w OR 2) (Suc 0)" "bit (w OR 2) 2 = bit w 2" "bit (w OR 1) (Suc 0) = bit w (Suc 0)" "bit (w OR 1) 2 = bit w 2" for w :: u8
  by (simp_all add: bit_or_iff bit_numeral_rec bit_1_iff eval_nat_numeral)

lemmas flag_defs = frag_complete_def last_seen_def DEFRAG_COMPLETE_def DEFRAG_LAST_IN_def DEFRAG_FIRST_IN_def

lemma flag_simps: "frag_complete c \<longleftrightarrow> bit (c_status c) 2" "last_seen c \<longleftrightarrow> bit (c_last_in c) 1"
  "c_last_in c AND DEFRAG_COMPLETE = 0 \<longleftrightarrow> \<not> bit (c_last_in c) 2" "c_last_in c AND DEFRAG_LAST_IN = 0 \<longleftrightarrow> \<not> bit (c_last_in c) 1"
  by (simp_all add: flag_defs flag_bit)

lemma frag_bounds_inv:
  assumes inv: "fcb_inv M c" and b: "frag_bounds mf e c = Some c1" and e: "0 \<le> e"
  shows "fcb_inv M c1" "e \<le> c_total_fraglen c1" "c_fragments c1 = c_fragments c" "c_meat c1 = c_meat c" "c_status c1 = c_status c"
    "c_sip c1 = c_sip c" "c_dip c1 = c_dip c" "c_id c1 = c_id c"
proof -
  have "c1 = c\<lparr>c_last_in := c_last_in c OR 2, c_total_fraglen := e\<rparr> \<and> c_total_fraglen c \<le> e \<and> \<not> bit (c_last_in c) 1 \<or>
    c1 = c\<lparr>c_total_fraglen := e\<rparr> \<and> c_total_fraglen c < e \<and> \<not> bit (c_last_in c) 1 \<or> c1 = c \<and> e \<le> c_total_fraglen c"
    using b by (auto simp: frag_bounds_def flag_simps DEFRAG_LAST_IN_def flag_bit split: if_splits)
  moreover have "\<forall>a \<in> set (c_fragments c). frag_end (M a) \<le> e" if "c_total_fraglen c \<le> e" using inv that by (force simp: fcb_inv_def)
  ultimately show "fcb_inv M c1" "e \<le> c_total_fraglen c1" "c_fragments c1 = c_fragments c" "c_meat c1 = c_meat c" "c_status c1 = c_status c"
    "c_sip c1 = c_sip c" "c_dip c1 = c_dip c" "c_id c1 = c_id c"
    using inv e by (auto simp: fcb_inv_def flag_simps)
qed

text \<open>A fragment that overlaps nothing enters the chain.\<close>

definition enter :: "(nat \<Rightarrow> mbuf_t) \<Rightarrow> nat \<Rightarrow> fcb_t \<Rightarrow> fcb_t" where
  "enter M mb c =
     (let p = frag_split M (frag_offset (M mb)) (c_fragments c) in
      c\<lparr>c_fragments := fst p @ mb # snd p, c_meat := c_meat c + frag_len (M mb),
        c_last_in := if frag_offset (M mb) = 0 then c_last_in c OR DEFRAG_FIRST_IN else c_last_in c\<rparr>)"

lemma enter_inv:
  assumes inv: "fcb_inv M c" and mb: "mb \<notin> set (c_fragments c)" "0 \<le> frag_offset (M mb)" "0 < frag_len (M mb)"
    "frag_end (M mb) \<le> c_total_fraglen c"
    and ov: "\<not> frag_overlap M (frag_offset (M mb)) (frag_end (M mb)) (frag_split M (frag_offset (M mb)) (c_fragments c))"
  shows "fcb_inv M (enter M mb c)" "set (c_fragments (enter M mb c)) = insert mb (set (c_fragments c))"
proof -
  let ?p = "frag_split M (frag_offset (M mb)) (c_fragments c)"
  have xs: "c_fragments c = fst ?p @ snd ?p" using frag_split_append [of M "frag_offset (M mb)" "c_fragments c"] by simp
  have t: "tiled M (c_fragments c)" using inv by (simp add: fcb_inv_def)
  have t': "tiled M (fst ?p @ mb # snd ?p)" by (rule tiled_insert [OF t refl ov mb(2,3)])
  have st: "set (fst ?p @ mb # snd ?p) = insert mb (set (c_fragments c))" by (subst (3) xs) auto
  show "set (c_fragments (enter M mb c)) = insert mb (set (c_fragments c))" using st by (simp add: enter_def Let_def)
  have d: "distinct (fst ?p @ mb # snd ?p)"
  proof -
    have "distinct (fst ?p @ snd ?p)" "mb \<notin> set (fst ?p @ snd ?p)" using inv mb(1) xs by (auto simp: fcb_inv_def)
    then show ?thesis by auto
  qed
  have sum: "(\<Sum>a\<leftarrow>fst ?p @ mb # snd ?p. frag_len (M a)) = (\<Sum>a\<leftarrow>c_fragments c. frag_len (M a)) + frag_len (M mb)"
    by (subst (3) xs) simp
  show "fcb_inv M (enter M mb c)"
    unfolding fcb_inv_def enter_def Let_def using t' st sum d inv mb(4)
    by (simp add: fcb_inv_def flag_simps DEFRAG_FIRST_IN_def flag_bit frag_complete_def last_seen_def DEFRAG_LAST_IN_def DEFRAG_COMPLETE_def)
qed

lemma status_bit: "bit (w OR 4) 2" for w :: u16
  by (simp add: bit_or_iff bit_numeral_rec eval_nat_numeral)

lemma frag_sum_pos:
  assumes "fcb_inv M c" "mb \<in> set (c_fragments c)"
  shows "0 < (\<Sum>a\<leftarrow>c_fragments c. frag_len (M a))"
proof -
  obtain ys zs where xs: "c_fragments c = ys @ mb # zs" using split_list [OF assms(2)] by blast
  have nn: "0 \<le> (\<Sum>a\<leftarrow>us. frag_len (M a))" if "set us \<subseteq> set (c_fragments c)" for us
    using that assms(1) by (intro sum_list_nonneg) (auto simp: fcb_inv_def tiled_def intro: less_imp_le)
  have "0 < frag_len (M mb)" using assms by (simp add: fcb_inv_def tiled_def)
  moreover have "0 \<le> (\<Sum>a\<leftarrow>ys. frag_len (M a))" "0 \<le> (\<Sum>a\<leftarrow>zs. frag_len (M a))" by (rule nn, unfold xs, force)+
  ultimately show ?thesis unfolding xs by simp
qed

text \<open>When the bytes add up, the chain is the whole datagram.\<close>

lemma enter_complete:
  assumes inv: "fcb_inv M c" and ne: "mb \<in> set (c_fragments c)" and full: "c_meat c = c_total_fraglen c"
  shows "contig M 0 (c_fragments c)" "\<not> frag_complete c"
proof -
  have t: "tiled M (c_fragments c)" "\<And>a. a \<in> set (c_fragments c) \<Longrightarrow> 0 \<le> frag_offset (M a) \<and> frag_end (M a) \<le> c_total_fraglen c"
    using inv by (auto simp: fcb_inv_def tiled_def)
  show nc: "\<not> frag_complete c" using inv full frag_sum_pos [OF inv ne] by (auto simp: fcb_inv_def)
  show "contig M 0 (c_fragments c)"
    using inv full nc t by (intro tiled_covers [where T = "c_total_fraglen c"]) (auto simp: fcb_inv_def)
qed

text \<open>The control block after the datagram was handed on.\<close>

lemma delivered_inv:
  assumes inv: "fcb_inv M c" and ne: "mb \<in> set (c_fragments c)"
    and full: "c_last_in c = DEFRAG_FIRST_IN OR DEFRAG_LAST_IN \<and> c_meat c = c_total_fraglen c"
  shows "fcb_inv M' (c\<lparr>c_status := c_status c OR 4, c_fragments := []\<rparr>)"
proof -
  have T: "0 < c_total_fraglen c" using frag_sum_pos [OF inv ne] inv full enter_complete(2) [OF inv ne] by (simp add: fcb_inv_def)
  have l: "c_last_in c = 3" using full by (simp add: DEFRAG_FIRST_IN_def DEFRAG_LAST_IN_def)
  then have "bit (c_last_in c) 1" "\<not> bit (c_last_in c) 2" by (simp_all add: bit_numeral_rec eval_nat_numeral)
  with T conjunct2 [OF full] show ?thesis by (simp add: fcb_inv_def tiled_def flag_simps status_bit)
qed

end
