(* ===== verification/Reasm.thy ===== *)
theory Reasm
  imports DefragChain
begin

text \<open>
  What \<open>Frag_defrag_reasm\<close> of \<open>decode-defrag.c\<close> builds from a complete chain: the bytes of the new packet
  and its header.
\<close>

section \<open>Fragments in software buffers\<close>

text \<open>
  What the decoder and \<open>packet_hw2sw\<close> leave of a fragment: a software buffer with exactly the packet, a
  readable IP header, and the payload of the fragment behind it up to the end of the packet.
\<close>

definition hdr_off :: "mbuf_t \<Rightarrow> nat" where
  "hdr_off m = unat (network_header m - pkt_ptr m)"

definition hdr_len :: "mbuf_t \<Rightarrow> nat" where
  "hdr_len m = unat (pkt_data m ! hdr_off m AND 0x0f) * 4"

definition frag_ok :: "mbuf_t \<Rightarrow> bool" where
  "frag_ok m \<longleftrightarrow> pkt_space m = PKTBUF_SW \<and> length (pkt_data m) = unat (pkt_totallen m) \<and> 0 < frag_len m \<and> 0 \<le> frag_offset m \<and>
     network_header m \<noteq> 0 \<and> 20 \<le> hdr_len m \<and> hdr_off m + hdr_len m + nat (frag_len m) = unat (pkt_totallen m)"

lemma frag_ok_hlen: "frag_ok m \<Longrightarrow> IPV4_GET_HLEN m = Inr (hdr_len m)"
  by (auto simp: frag_ok_def IPV4_GET_HLEN_def hdr_len_def hdr_off_def pkt_reads_ok get8_def)

lemma frag_ok_mf:
  assumes "frag_ok m"
  shows "\<exists>v. IPV4_GET_MF m = Inr v"
proof -
  have "unat (network_header m - pkt_ptr m) + 8 \<le> length (pkt_data m)" using assms by (auto simp: frag_ok_def hdr_off_def)
  moreover have "length (pkt_data m) < 65536" using assms u16_less [of "pkt_totallen m"] by (simp add: frag_ok_def)
  ultimately have "unat (network_header m + 6 - pkt_ptr m) = unat (network_header m - pkt_ptr m) + 6"
    using ptr_off [of "network_header m" "pkt_ptr m" 6] by simp
  then show ?thesis
    using \<open>unat (network_header m - pkt_ptr m) + 8 \<le> length (pkt_data m)\<close>
    by (simp add: IPV4_GET_MF_def IPV4_GET_RAW_IPOFFSET_def pkt_reads_ok)
qed

section \<open>Copying the payloads\<close>

lemma append_frag_ok:
  assumes n: "frag_ok n" and m: "length (pkt_data m) = unat (pkt_totallen m)" and cap: "length (pkt_data m) + nat (frag_len n) \<le> cap" "cap < 65536"
  shows "\<exists>m'. append_frag cap n m = Inr m' \<and> m' = m\<lparr>pkt_data := pkt_data m @ payload_of n, pkt_totallen := pkt_totallen m'\<rparr> \<and>
    length (pkt_data m') = unat (pkt_totallen m')"
proof -
  have l: "nat (frag_len n) \<le> unat (pkt_totallen n)" "0 < frag_len n" "length (pkt_data n) = unat (pkt_totallen n)" using n by (auto simp: frag_ok_def)
  have tl: "unat (pkt_totallen n) < 65536" by (rule u16_less)
  define k where "k = nat (frag_len n)"
  have k: "of_int (frag_len n) = (of_nat k :: u64)" "of_int (frag_len n) = (of_nat k :: u16)" "k \<le> unat (pkt_totallen n)" "k < 65536"
    using l tl by (simp_all add: k_def of_nat_nat)
  have uk: "unat (of_nat k :: u64) = k" "unat (of_nat k :: u16) = k" using k(4) by (simp_all add: unat_of_nat)
  have ut: "unat (ucast (pkt_totallen n) :: u64) = unat (pkt_totallen n)"
    using tl by (simp add: unsigned_ucast_eq take_bit_nat_eq_self)
  have d: "unat (pkt_ptr n + ucast (pkt_totallen n) - of_nat k - pkt_ptr n) = unat (pkt_totallen n) - k"
    using k(3) ut uk by (simp add: unat_sub word_le_nat_alt)
  have rd: "read_pkt n (pkt_ptr n + ucast (pkt_totallen n) - of_nat k) k = Inr (payload_of n)"
    using l(3) k(3) d by (simp add: read_pkt_def Let_def payload_of_def k_def)
  have pl: "length (payload_of n) = k" using l(3) k(3) by (simp add: payload_of_def k_def)
  let ?m = "m\<lparr>pkt_data := pkt_data m @ payload_of n, pkt_totallen := pkt_totallen m + of_nat k\<rparr>"
  have "append_frag cap n m = Inr ?m"
    using rd pl m cap k(1,2) by (simp add: append_frag_def append_pkt_def Let_def k_def [symmetric])
  moreover have "length (pkt_data ?m) = unat (pkt_totallen ?m)"
    using m pl uk(2) cap by (simp add: unat_word_ariths k_def [symmetric])
  ultimately show ?thesis by auto
qed

text \<open>Two descriptors that differ in their bytes only.\<close>

definition same_but_data :: "mbuf_t \<Rightarrow> mbuf_t \<Rightarrow> bool" where
  "same_but_data m m' \<longleftrightarrow> m'\<lparr>pkt_data := [], pkt_totallen := 0\<rparr> = m\<lparr>pkt_data := [], pkt_totallen := 0\<rparr>"

lemma append_frags_ok:
  assumes "\<And>a. a \<in> set xs \<Longrightarrow> frag_ok (M a)" "length (pkt_data m) = unat (pkt_totallen m)"
    "length (pkt_data m) + nat (\<Sum>a\<leftarrow>xs. frag_len (M a)) \<le> cap" "cap < 65536"
  shows "\<exists>m'. rfold (\<lambda>a. append_frag cap (M a)) xs m = Inr m' \<and> pkt_data m' = pkt_data m @ concat (map (\<lambda>a. payload_of (M a)) xs) \<and>
    same_but_data m m' \<and> length (pkt_data m') = unat (pkt_totallen m')"
  using assms
proof (induction xs arbitrary: m)
  case Nil
  then show ?case by (simp add: same_but_data_def)
next
  case (Cons a xs)
  have a: "frag_ok (M a)" using Cons.prems(1) by simp
  have nn: "0 \<le> (\<Sum>a\<leftarrow>xs. frag_len (M a))"
    using Cons.prems(1) by (intro sum_list_nonneg) (auto simp: frag_ok_def intro: less_imp_le)
  have la: "length (payload_of (M a)) = nat (frag_len (M a))" "0 < frag_len (M a)"
    using a by (auto simp: frag_ok_def payload_of_def)
  have sum: "nat (\<Sum>a\<leftarrow>a # xs. frag_len (M a)) = nat (frag_len (M a)) + nat (\<Sum>a\<leftarrow>xs. frag_len (M a))"
    using nn la(2) by (simp add: nat_add_distrib)
  have c1: "length (pkt_data m) + nat (frag_len (M a)) \<le> cap" using Cons.prems(3) sum by simp
  obtain m1 where m1: "append_frag cap (M a) m = Inr m1" "m1 = m\<lparr>pkt_data := pkt_data m @ payload_of (M a), pkt_totallen := pkt_totallen m1\<rparr>"
    "length (pkt_data m1) = unat (pkt_totallen m1)"
    using append_frag_ok [OF a Cons.prems(2) c1 Cons.prems(4)] by blast
  have d1: "pkt_data m1 = pkt_data m @ payload_of (M a)" by (subst m1(2)) simp
  have s1: "same_but_data m m1" unfolding same_but_data_def by (subst m1(2)) simp
  obtain m2 where m2: "rfold (\<lambda>a. append_frag cap (M a)) xs m1 = Inr m2"
    "pkt_data m2 = pkt_data m1 @ concat (map (\<lambda>a. payload_of (M a)) xs)" "same_but_data m1 m2" "length (pkt_data m2) = unat (pkt_totallen m2)"
    using Cons.IH [OF _ m1(3) _ Cons.prems(4)] Cons.prems(1,3) d1 la(1) sum by auto
  with m1(1) d1 s1 show ?case by (auto simp: same_but_data_def)
qed

section \<open>The header of the datagram\<close>

definition put16 :: "u8 list \<Rightarrow> nat \<Rightarrow> u16 \<Rightarrow> u8 list" where
  "put16 d i v = d[i := ucast (drop_bit 8 v), Suc i := ucast v]"

lemma length_put16 [simp]: "length (put16 d i v) = length d"
  by (simp add: put16_def)

lemma put16_eq: "i + 2 \<le> length d \<Longrightarrow> take i d @ be16 v @ drop (i + 2) d = put16 d i v"
  by (rule nth_equalityI) (auto simp: put16_def be16_def nth_append nth_list_update nth_Cons split: nat.splits intro!: arg_cong [where f = "nth d"])

lemma write16:
  assumes "unat (p - pkt_ptr m) = i" "i + 2 \<le> length (pkt_data m)"
  shows "write_pkt m p (be16 v) = Inr (m\<lparr>pkt_data := put16 (pkt_data m) i v\<rparr>)"
  using assms put16_eq [of i "pkt_data m" v] by (simp add: write_pkt_def Let_def)

lemma get16_put16: "i + 2 \<le> length d \<Longrightarrow> get16 (put16 d i v) i = v"
  by (simp add: get16_def put16_def nth_list_update)

lemma get16_put16_other: "j + 2 \<le> i \<or> i + 2 \<le> j \<Longrightarrow> get16 (put16 d i v) j = get16 d j"
  by (auto simp: get16_def put16_def nth_list_update)

lemma drop_put16: "i + 2 \<le> k \<Longrightarrow> drop k (put16 d i v) = drop k d"
  by (simp add: put16_def)

lemma take_put16: "k \<le> i \<Longrightarrow> take k (put16 d i v) = take k d"
  by (simp add: put16_def)

lemma words_of_put16:
  assumes "2 * k + 2 \<le> h" "i + h \<le> length d"
  shows "words_of (take h (drop i (put16 d (i + 2 * k) v))) = (words_of (take h (drop i d)))[k := v]"
proof (rule nth_equalityI)
  fix j assume "j < length (words_of (take h (drop i (put16 d (i + 2 * k) v))))"
  then have j: "j < h div 2" using assms by (simp add: words_of_def)
  have w: "words_of (take h (drop i x)) ! j = get16 x (i + 2 * j)" if "i + h \<le> length x" for x
    using that j by (simp add: words_of_def get16_def add.assoc)
  show "words_of (take h (drop i (put16 d (i + 2 * k) v))) ! j = (words_of (take h (drop i d)))[k := v] ! j"
  proof (cases "j = k")
    case True
    then show ?thesis using w [of "put16 d (i + 2 * k) v"] assms j get16_put16 [of "i + 2 * k" d v] by (simp add: words_of_def)
  next
    case False
    then have "i + 2 * j + 2 \<le> i + 2 * k \<or> i + 2 * k + 2 \<le> i + 2 * j" by linarith
    then show ?thesis using False w [of "put16 d (i + 2 * k) v"] w [of d] assms get16_put16_other [of "i + 2 * j" "i + 2 * k" d v] by simp
  qed
qed (simp add: words_of_def)

text \<open>The bytes of a packet with a finished header at \<open>i\<close>.\<close>

definition finished :: "u16 \<Rightarrow> nat \<Rightarrow> nat \<Rightarrow> u8 list \<Rightarrow> u8 list" where
  "finished len ihl i d =
     (let d2 = put16 (put16 d (i + 2) len) (i + 6) 0
      in put16 d2 (i + 10) (IPV4CalculateChecksum (words_of (take ihl (drop i d2))) (of_nat ihl)))"

lemma finish_header_eq:
  assumes i: "unat (network_header m - pkt_ptr m) = i" and len: "i + ihl \<le> length (pkt_data m)" "20 \<le> ihl" "length (pkt_data m) < 65536"
  shows "finish_header n ihl m = Inr (m\<lparr>pkt_data := finished (of_int n) ihl i (pkt_data m)\<rparr>)"
proof -
  have o: "unat (network_header m + 2 - pkt_ptr m) = i + 2" "unat (network_header m + 6 - pkt_ptr m) = i + 6" "unat (network_header m + 10 - pkt_ptr m) = i + 10"
    using ptr_off [of "network_header m" "pkt_ptr m" 2] ptr_off [of "network_header m" "pkt_ptr m" 6]
      ptr_off [of "network_header m" "pkt_ptr m" 10] i len by simp_all
  have b: "i + 2 + 2 \<le> length (pkt_data m)" "i + 6 + 2 \<le> length (pkt_data m)" "i + 10 + 2 \<le> length (pkt_data m)" using len by simp_all
  show ?thesis
    unfolding finish_header_def IPV4_SET_IPLEN_def IPV4_SET_IPOFF_def IPV4_SET_IPCSUM_def
    using write16 [OF o(1) b(1)] write16 [of _ "m\<lparr>pkt_data := _\<rparr>"] o b i len
    by (simp add: write16 read_pkt_def Let_def finished_def max_def)
qed

lemma finished_facts:
  assumes "i + ihl \<le> length d" "20 \<le> ihl" "ihl \<le> 60" "4 dvd ihl"
  shows "length (finished n ihl i d) = length d" "take i (finished n ihl i d) = take i d" "drop (i + ihl) (finished n ihl i d) = drop (i + ihl) d"
    "get16 (finished n ihl i d) (i + 2) = n" "get16 (finished n ihl i d) (i + 6) = 0"
    "oc_sum (words_of (take ihl (drop i (finished n ihl i d)))) = 0xFFFF"
proof -
  define d2 where "d2 = put16 (put16 d (i + 2) n) (i + 6) 0"
  define ws where "ws = words_of (take ihl (drop i d2))"
  have f: "finished n ihl i d = put16 d2 (i + 10) (IPV4CalculateChecksum ws (of_nat ihl))"
    by (simp add: finished_def d2_def ws_def Let_def)
  have l2: "length d2 = length d" by (simp add: d2_def)
  show "length (finished n ihl i d) = length d" by (simp add: f l2)
  show "take i (finished n ihl i d) = take i d" by (simp add: f d2_def take_put16)
  show "drop (i + ihl) (finished n ihl i d) = drop (i + ihl) d" using assms by (simp add: f d2_def drop_put16)
  show "get16 (finished n ihl i d) (i + 2) = n" "get16 (finished n ihl i d) (i + 6) = 0"
    using assms by (simp_all add: f d2_def get16_put16_other get16_put16)
  have "length ws = ihl div 2" using assms l2 by (simp add: ws_def words_of_def)
  from checksum_verifies [OF assms(2-4) this] words_of_put16 [of 5 ihl i d2] assms l2
  show "oc_sum (words_of (take ihl (drop i (finished n ihl i d)))) = 0xFFFF" by (simp add: f ws_def)
qed

section \<open>Releasing fragments\<close>

text \<open>A packet whose buffer is a slice of a software pool.\<close>

definition sw_home :: "mem_state \<Rightarrow> mbuf_t \<Rightarrow> bool" where
  "sw_home k m \<longleftrightarrow> pkt_space m = PKTBUF_SW \<and> (\<exists>p a. sw_pool p \<and> a \<in> pool_slices p k \<and> unat (pkt_ptr m) = a + MEM_POOL_SLICE_CTRL_SIZE)"

definition same_slices :: "mem_state \<Rightarrow> mem_state \<Rightarrow> bool" where
  "same_slices k k' \<longleftrightarrow> (\<forall>p. sw_pool p \<longrightarrow> pool_slices p k' = pool_slices p k)"

lemma sw_home_slices: "same_slices k k' \<Longrightarrow> sw_home k m \<Longrightarrow> sw_home k' m"
  by (auto simp: sw_home_def same_slices_def)

lemma sw_home_flow [simp]: "sw_home k (m\<lparr>flow := x\<rparr>) = sw_home k m"
  by (simp add: sw_home_def)

text \<open>The parts of the state a release of packets leaves alone.\<close>

definition frag_frame :: "nat set \<Rightarrow> dp_state \<Rightarrow> dp_state \<Rightarrow> bool" where
  "frag_frame A s s' \<longleftrightarrow> fcbs s' = fcbs s \<and> fh s' = fh s \<and> mctrl s' = mctrl s \<and> tx_done s' = tx_done s \<and> (\<forall>b. b \<notin> A \<longrightarrow> mbufs s' b = mbufs s b)"

lemma destroy_ok:
  fixes s :: dp_state
  assumes inv: "mem_inv (mem s)" and h: "sw_home (mem s) (mbufs s mb)"
  shows "\<exists>s'. packet_destroy_all mb s = Inr s' \<and> mem_inv (mem s') \<and> same_slices (mem s) (mem s') \<and> frag_frame {mb} s s' \<and>
    mbufs s' mb = (mbufs s mb)\<lparr>flow := None\<rparr>"
proof -
  obtain p a where a: "sw_pool p" "a \<in> pool_slices p (mem s)" "unat (pkt_ptr (mbufs s mb)) = a + MEM_POOL_SLICE_CTRL_SIZE"
    using h by (auto simp: sw_home_def)
  obtain k where k: "mem_pool_free (unat (pkt_ptr (mbufs s mb))) (mem s) = Inr k" "mem_inv k" "same_slices (mem s) k"
    using free_step [OF inv a(1,2)] a(3) by (auto simp: same_slices_def)
  have "packet_destroy_all mb s = Inr (mbuf_free mb (s\<lparr>mem := k\<rparr>))"
    using h k(1) by (simp add: packet_destroy_all_def Let_def sw_home_def PKTBUF_SW_def PKTBUF_HW_def)
  with k(2,3) show ?thesis by (auto simp: mbuf_free_eq frag_frame_def)
qed

lemma destroys_ok:
  fixes s :: dp_state
  assumes "mem_inv (mem s)" "\<And>a. a \<in> set xs \<Longrightarrow> sw_home (mem s) (mbufs s a)"
  shows "\<exists>s'. rfold packet_destroy_all xs s = Inr s' \<and> mem_inv (mem s') \<and> same_slices (mem s) (mem s') \<and> frag_frame (set xs) s s'"
  using assms
proof (induction xs arbitrary: s)
  case Nil
  then show ?case by (simp add: same_slices_def frag_frame_def)
next
  case (Cons a xs)
  obtain s1 where s1: "packet_destroy_all a s = Inr s1" "mem_inv (mem s1)" "same_slices (mem s) (mem s1)" "frag_frame {a} s s1"
      "mbufs s1 a = (mbufs s a)\<lparr>flow := None\<rparr>"
    using destroy_ok [OF Cons.prems(1), of a] Cons.prems(2) by auto
  have "sw_home (mem s1) (mbufs s1 b)" if "b \<in> set xs" for b
    using sw_home_slices [OF s1(3)] Cons.prems(2) [of b] that s1(4,5) by (cases "b = a") (auto simp: frag_frame_def)
  from Cons.IH [OF s1(2) this] obtain s2 where s2: "rfold packet_destroy_all xs s1 = Inr s2" "mem_inv (mem s2)"
    "same_slices (mem s1) (mem s2)" "frag_frame (set xs) s1 s2" by blast
  have "same_slices (mem s) (mem s2)" "frag_frame (set (a # xs)) s s2" using s1(3,4) s2(3,4) by (auto simp: same_slices_def frag_frame_def)
  with s1(1) s2 show ?case by auto
qed

lemma alloc_datasize: "mem_pool_alloc p n k = Inr (r, k') \<Longrightarrow> datasize (mem_pool k' ! q) = datasize (mem_pool k ! q)"
  unfolding mem_pool_alloc_def Let_def
  by (cases "p < length (mem_pool k)"; cases "q = p") (auto simp: set_chain_def list_update_beyond split: if_splits option.splits list.splits)

section \<open>The whole datagram\<close>

text \<open>
  The packet \<open>m\<close> made from the fragments \<open>xs\<close>: link layer header of the first fragment, an IP header that
  says so, with offset 0 and a valid checksum, and the payloads one after the other.
\<close>

definition reassembled :: "(nat \<Rightarrow> mbuf_t) \<Rightarrow> nat list \<Rightarrow> mbuf_t \<Rightarrow> bool" where
  "reassembled M xs m \<longleftrightarrow>
     (let h = M (hd xs); i = hdr_off h; ihl = hdr_len h in
      hdr_off m = i \<and> length (pkt_data m) = unat (pkt_totallen m) \<and> pkt_space m = PKTBUF_SW \<and>
      take i (pkt_data m) = take i (pkt_data h) \<and>
      get16 (pkt_data m) (i + 2) = of_nat ihl + of_int (\<Sum>a\<leftarrow>xs. frag_len (M a)) \<and> get16 (pkt_data m) (i + 6) = 0 \<and>
      oc_sum (words_of (take ihl (drop i (pkt_data m)))) = 0xFFFF \<and>
      drop (i + ihl) (pkt_data m) = concat (map (\<lambda>a. payload_of (M a)) xs) \<and>
      sip m = sip h \<and> dip m = dip h \<and> proto m = proto h \<and> input_port m = input_port h)"

lemma setup_mbuf_fields [simp]:
  "pkt_data (setup_mbuf h b) = []" "pkt_totallen (setup_mbuf h b) = 0" "pkt_ptr (setup_mbuf h b) = b" "pkt_space (setup_mbuf h b) = PKTBUF_SW"
  "network_header h \<noteq> 0 \<Longrightarrow> network_header (setup_mbuf h b) - b = network_header h - pkt_ptr h"
  "sip (setup_mbuf h b) = sip h" "dip (setup_mbuf h b) = dip h" "proto (setup_mbuf h b) = proto h" "input_port (setup_mbuf h b) = input_port h"
  by (simp_all add: setup_mbuf_def packet_header_ptr_adjust_def zero_mbuf_def)

lemma same_but_dataD:
  assumes "same_but_data m m'"
  shows "pkt_ptr m' = pkt_ptr m" "network_header m' = network_header m" "pkt_space m' = pkt_space m" "sip m' = sip m" "dip m' = dip m"
    "proto m' = proto m" "input_port m' = input_port m"
proof -
  note e = assms [unfolded same_but_data_def]
  show "pkt_ptr m' = pkt_ptr m" using arg_cong [OF e, of pkt_ptr] by simp
  show "network_header m' = network_header m" using arg_cong [OF e, of network_header] by simp
  show "pkt_space m' = pkt_space m" using arg_cong [OF e, of pkt_space] by simp
  show "sip m' = sip m" using arg_cong [OF e, of sip] by simp
  show "dip m' = dip m" using arg_cong [OF e, of dip] by simp
  show "proto m' = proto m" using arg_cong [OF e, of proto] by simp
  show "input_port m' = input_port m" using arg_cong [OF e, of input_port] by simp
qed

lemma hdr_len_bounds: "hdr_len m \<le> 60" "4 dvd hdr_len m"
proof -
  have "pkt_data m ! hdr_off m AND 0x0f \<le> 0x0f" by (rule word_and_le1)
  then have "unat (pkt_data m ! hdr_off m AND 0x0f) \<le> 15" by (simp add: word_le_nat_alt)
  then show "hdr_len m \<le> 60" "4 dvd hdr_len m" by (simp_all add: hdr_len_def)
qed

text \<open>The copy of a complete chain into a buffer that is large enough.\<close>

lemma reasm_copy:
  assumes ok: "\<And>a. a \<in> set (h # rest) \<Longrightarrow> frag_ok (M a)" and T: "T = (\<Sum>a\<leftarrow>h # rest. frag_len (M a))"
    and cap: "hdr_off (M h) + hdr_len (M h) + nat T \<le> cap" "cap < 65536"
  shows "\<exists>m2. rbind (read_pkt (M h) (pkt_ptr (M h)) (unat (pkt_totallen (M h)))) (\<lambda>bs.
      rbind (append_pkt cap bs (setup_mbuf (M h) b)) (\<lambda>m0.
      rbind (rfold (\<lambda>a. append_frag cap (M a)) rest (m0\<lparr>pkt_totallen := pkt_totallen m0 + pkt_totallen (M h)\<rparr>))
        (finish_header (int (hdr_len (M h)) + T) (hdr_len (M h))))) = Inr m2 \<and> reassembled M (h # rest) m2"
proof -
  let ?h = "M h" and ?i = "hdr_off (M h)" and ?l = "hdr_len (M h)"
  have h: "frag_ok ?h" using ok by simp
  have hl: "length (pkt_data ?h) = unat (pkt_totallen ?h)" "?i + ?l + nat (frag_len ?h) = unat (pkt_totallen ?h)" "network_header ?h \<noteq> 0" "20 \<le> ?l" "0 < frag_len ?h"
    using h by (auto simp: frag_ok_def)
  have nn: "0 \<le> (\<Sum>a\<leftarrow>rest. frag_len (M a))"
    using ok by (intro sum_list_nonneg) (auto simp: frag_ok_def intro: less_imp_le)
  have nT: "nat T = nat (frag_len ?h) + nat (\<Sum>a\<leftarrow>rest. frag_len (M a))" using nn hl(5) T by (simp add: nat_add_distrib)
  define m1 where "m1 = (setup_mbuf ?h b)\<lparr>pkt_data := pkt_data ?h, pkt_totallen := pkt_totallen ?h\<rparr>"
  have rd: "read_pkt ?h (pkt_ptr ?h) (unat (pkt_totallen ?h)) = Inr (pkt_data ?h)" using hl(1) by (simp add: read_pkt_def)
  have ap: "append_pkt cap (pkt_data ?h) (setup_mbuf ?h b) = Inr ((setup_mbuf ?h b)\<lparr>pkt_data := pkt_data ?h\<rparr>)"
    using hl(1,2) cap(1) nT by (simp add: append_pkt_def Let_def)
  have m1l: "length (pkt_data m1) = unat (pkt_totallen m1)" "pkt_data m1 = pkt_data ?h" using hl(1) by (simp_all add: m1_def)
  obtain m2 where m2: "rfold (\<lambda>a. append_frag cap (M a)) rest m1 = Inr m2" "pkt_data m2 = pkt_data ?h @ concat (map (\<lambda>a. payload_of (M a)) rest)"
    "same_but_data m1 m2" "length (pkt_data m2) = unat (pkt_totallen m2)"
    using append_frags_ok [of rest M m1 cap] ok m1l hl(1,2) cap nT by auto
  note sd = same_but_dataD [OF m2(3)]
  have off: "unat (network_header m2 - pkt_ptr m2) = ?i" using sd hl(3) by (simp add: m1_def hdr_off_def)
  have len: "?i + ?l \<le> length (pkt_data m2)" "length (pkt_data m2) < 65536" using m2(2,4) hl(1,2) u16_less [of "pkt_totallen m2"] by simp_all
  let ?d = "finished (of_int (int ?l + T)) ?l ?i (pkt_data m2)"
  have fin: "finish_header (int ?l + T) ?l m2 = Inr (m2\<lparr>pkt_data := ?d\<rparr>)" by (rule finish_header_eq [OF off len(1) hl(4) len(2)])
  note ff = finished_facts [OF len(1) hl(4) hdr_len_bounds, of "of_int (int ?l + T)"]
  have e: "unat (pkt_totallen ?h) - nat (frag_len ?h) = ?i + ?l" using hl(2) by linarith
  have ph: "drop (?i + ?l) (pkt_data m2) = concat (map (\<lambda>a. payload_of (M a)) (h # rest))"
    using m2(2) hl(1,2) e by (simp add: payload_of_def)
  have tk: "take ?i (pkt_data m2) = take ?i (pkt_data ?h)" using m2(2) hl(1,2) by simp
  have re: "reassembled M (h # rest) (m2\<lparr>pkt_data := ?d\<rparr>)"
    unfolding reassembled_def Let_def using ff off ph tk m2(4) sd T by (simp add: hdr_off_def m1_def)
  have "rbind (read_pkt ?h (pkt_ptr ?h) (unat (pkt_totallen ?h))) (\<lambda>bs.
      rbind (append_pkt cap bs (setup_mbuf ?h b)) (\<lambda>m0.
      rbind (rfold (\<lambda>a. append_frag cap (M a)) rest (m0\<lparr>pkt_totallen := pkt_totallen m0 + pkt_totallen ?h\<rparr>))
        (finish_header (int ?l + T) ?l))) = Inr (m2\<lparr>pkt_data := ?d\<rparr>)"
    using rd ap m2(1) fin by (simp add: m1_def)
  with re show ?thesis by blast
qed

lemma rfold_cong: "(\<And>x s. x \<in> set xs \<Longrightarrow> f x s = g x s) \<Longrightarrow> rfold f xs s = rfold g xs s"
proof (induction xs arbitrary: s)
  case (Cons x xs)
  then show ?case by (cases "g x s") simp_all
qed simp

text \<open>The size \<open>Frag_defrag_setup\<close> asks for does not wrap.\<close>

lemma large_size:
  fixes d :: u64
  assumes "0 \<le> T" "T \<le> 65535" "unat d < 65536" "l < 65536"
  shows "of_int T + ucast d + of_nat l = (of_nat (unat d + l + nat T) :: u32)" "unat (of_int T + ucast d + of_nat l :: u32) = nat T + unat d + l"
proof -
  show eq: "of_int T + ucast d + of_nat l = (of_nat (unat d + l + nat T) :: u32)" using assms(1) by (simp add: of_nat_nat)
  have "unat d + l + nat T < 2 ^ 32" using assms by (simp add: nat_less_iff)
  then show "unat (of_int T + ucast d + of_nat l :: u32) = nat T + unat d + l" unfolding eq by (simp only: unat_of_nat) simp
qed

text \<open>
  \<open>Frag_defrag_reasm\<close> on a complete chain: it never faults; when the datagram is too long or there is no
  memory (\<open>refused\<close>) the chain stays, otherwise the fragments are released and the new packet is what it should be.
\<close>

definition refused :: "mem_state \<Rightarrow> (nat \<Rightarrow> mbuf_t) \<Rightarrow> nat list \<Rightarrow> bool" where
  "refused k M xs \<longleftrightarrow>
     (let h = M (hd xs); T = (\<Sum>a\<leftarrow>xs. frag_len (M a)) in
      IPV4_PKTLEN_MAX < int (hdr_len h) + T \<or>
      (\<exists>k'. mem_pool_alloc MEM_POOL_ID_LARGE_BUFFER (of_nat (hdr_off h + hdr_len h + nat T)) k = Inr (None, k')))"

lemma reasm_ok:
  assumes mi: "mem_inv (mem s)" "unat (datasize (mem_pool (mem s) ! MEM_POOL_ID_LARGE_BUFFER)) < 65536"
    and xs: "c_fragments (fcbs s f) = xs" "xs \<noteq> []" "new \<notin> set xs"
    and ok: "\<And>a. a \<in> set xs \<Longrightarrow> frag_ok (mbufs s a) \<and> sw_home (mem s) (mbufs s a)"
    and T: "c_total_fraglen (fcbs s f) = (\<Sum>a\<leftarrow>xs. frag_len (mbufs s a))"
  shows "\<exists>r s'. Frag_defrag_reasm (Some new) f s = Inr (r, s') \<and> mem_inv (mem s') \<and> same_slices (mem s) (mem s') \<and>
    (r = None \<and> refused (mem s) (mbufs s) xs \<and> fcbs s' = fcbs s \<and> (\<forall>b. b \<noteq> new \<longrightarrow> mbufs s' b = mbufs s b) \<or>
     r = Some new \<and> fcbs s' = (fcbs s)(f := (fcbs s f)\<lparr>c_status := c_status (fcbs s f) OR 4, c_fragments := []\<rparr>) \<and>
       reassembled (mbufs s) xs (mbufs s' new) \<and> (\<forall>b. b \<notin> insert new (set xs) \<longrightarrow> mbufs s' b = mbufs s b))"
proof -
  obtain h rest where hr: "xs = h # rest" using xs(2) by (cases xs) auto
  let ?c = "fcbs s f" and ?h = "mbufs s h" and ?T = "c_total_fraglen (fcbs s f)" and ?l = "hdr_len (mbufs s h)" and ?i = "hdr_off (mbufs s h)"
  have h: "frag_ok ?h" using ok hr by simp
  have nh: "new \<noteq> h" using xs(3) hr by auto
  have Tp: "0 \<le> ?T" unfolding T using ok by (intro sum_list_nonneg) (auto simp: frag_ok_def intro: less_imp_le)
  have il: "?i + ?l < 65536" using h u16_less [of "pkt_totallen ?h"] by (simp add: frag_ok_def)
  show ?thesis
  proof (cases "int ?l + ?T > IPV4_PKTLEN_MAX")
    case True
    then have "Frag_defrag_reasm (Some new) f s = Inr (None, s)"
      unfolding Frag_defrag_reasm_def using xs(1) hr frag_ok_hlen [OF h] by simp
    moreover have "refused (mem s) (mbufs s) xs" using True T hr by (simp add: refused_def Let_def)
    ultimately show ?thesis using mi(1) by (auto simp: same_slices_def)
  next
    case False
    let ?s1 = "s\<lparr>mctrl := (mctrl s)(new := (mctrl s new)\<lparr>magic := MEM_POOL_MAGIC_NUM, pool_id := of_nat FPA_POOL_ID_HOST_MBUF\<rparr>)\<rparr>"
    let ?n = "of_int ?T + ucast (network_header ?h - pkt_ptr ?h) + of_nat ?l :: u32"
    obtain r k where al: "mem_pool_alloc MEM_POOL_ID_LARGE_BUFFER ?n (mem s) = Inr (r, k)" using large.alloc_total [OF mi(1)] by blast
    have sl: "sw_pool MEM_POOL_ID_LARGE_BUFFER" by (simp add: sw_pool_def)
    note st = alloc_step [OF mi(1) sl al]
    have sz: "?n = of_nat (unat (network_header ?h - pkt_ptr ?h) + ?l + nat ?T)" "unat ?n = nat ?T + unat (network_header ?h - pkt_ptr ?h) + ?l"
      by (rule large_size; use Tp False il in \<open>simp add: hdr_off_def IPV4_PKTLEN_MAX_def\<close>)+
    have k: "mem_inv k" "same_slices (mem s) k" using st(1) by (auto simp: same_slices_def)
    have start: "Frag_defrag_reasm (Some new) f s = rbind (Frag_defrag_setup (Some new) h f s) (\<lambda>(r, s1).
              case r of
                None \<Rightarrow> Inr (None, s1)
              | Some new \<Rightarrow>
                  let g = mbufs s1 h; cap = unat (datasize (mem_pool (mem s1) ! MEM_POOL_ID_LARGE_BUFFER)) in
                  rbind (rbind (read_pkt g (pkt_ptr g) (unat (pkt_totallen g))) (\<lambda>bs.
                  rbind (append_pkt cap bs (mbufs s1 new)) (\<lambda>m0.
                  rbind (rfold (\<lambda>a. append_frag cap (mbufs s1 a)) rest (m0\<lparr>pkt_totallen := pkt_totallen m0 + pkt_totallen g\<rparr>))
                  (finish_header (int ?l + ?T) ?l)))) (\<lambda>m2.
                  rbind (Frag_defrag_freefrags f
                           (upd_fcb f (\<lambda>c. c\<lparr>c_status := c_status c OR ucast DEFRAG_COMPLETE\<rparr>) (s1\<lparr>mbufs := (mbufs s1)(new := m2)\<rparr>))) (\<lambda>s2.
                  Inr (Some new, STAT FRAG_REASM_OK s2))))"
      unfolding Frag_defrag_reasm_def Let_def rbind_assoc using xs(1) hr frag_ok_hlen [OF h] False by simp
    show ?thesis
    proof (cases r)
      case None
      then have "Frag_defrag_setup (Some new) h f s = Inr (None, mbuf_free new (?s1\<lparr>mem := k\<rparr>))"
        unfolding Frag_defrag_setup_def mbuf_alloc_def using al frag_ok_hlen [OF h] by simp
      moreover have "refused (mem s) (mbufs s) xs"
        unfolding refused_def Let_def hr list.sel T [unfolded hr, symmetric] using al [unfolded sz(1) None, folded hdr_off_def] by blast
      ultimately show ?thesis using start k by (auto simp: mbuf_free_eq)
    next
      case (Some b)
      let ?s2 = "?s1\<lparr>mem := k, mbufs := (mbufs s)(new := setup_mbuf ?h (of_nat b))\<rparr>"
      let ?cap = "unat (datasize (mem_pool k ! MEM_POOL_ID_LARGE_BUFFER))"
      have set: "Frag_defrag_setup (Some new) h f s = Inr (Some new, ?s2)"
        unfolding Frag_defrag_setup_def mbuf_alloc_def using al Some frag_ok_hlen [OF h] by simp
      have un: "unat ?n = nat ?T + ?i + ?l" using sz(2) by (simp add: hdr_off_def)
      have cap: "?i + ?l + nat ?T \<le> ?cap" "?cap < 65536"
        using st(3) [of b] Some un alloc_datasize [OF al] mi(2) by (simp_all add: word_le_nat_alt)
      have cong: "rfold (\<lambda>a. append_frag ?cap (if a = new then m' else mbufs s a)) rest m = rfold (\<lambda>a. append_frag ?cap (mbufs s a)) rest m" for m m'
        by (rule rfold_cong) (use xs(3) hr in auto)
      obtain m2 where m2: "rbind (read_pkt ?h (pkt_ptr ?h) (unat (pkt_totallen ?h))) (\<lambda>bs.
          rbind (append_pkt ?cap bs (setup_mbuf ?h (of_nat b))) (\<lambda>m0.
          rbind (rfold (\<lambda>a. append_frag ?cap (mbufs s a)) rest (m0\<lparr>pkt_totallen := pkt_totallen m0 + pkt_totallen ?h\<rparr>))
            (finish_header (int ?l + ?T) ?l))) = Inr m2" "reassembled (mbufs s) (h # rest) m2"
        using reasm_copy [of h rest "mbufs s" ?T ?cap "of_nat b"] ok hr T cap by auto
      let ?s3 = "upd_fcb f (\<lambda>c. c\<lparr>c_status := c_status c OR ucast DEFRAG_COMPLETE\<rparr>) (?s2\<lparr>mbufs := (mbufs ?s2)(new := m2)\<rparr>)"
      have home: "sw_home (mem ?s3) (mbufs ?s3 a)" if "a \<in> set xs" for a
        using sw_home_slices [OF k(2)] ok that xs(3) by (auto simp: upd_fcb_def)
      obtain s4 where s4: "rfold packet_destroy_all xs ?s3 = Inr s4" "mem_inv (mem s4)" "same_slices k (mem s4)" "frag_frame (set xs) ?s3 s4"
        using destroys_ok [of ?s3 xs] home k(1) by (auto simp: upd_fcb_def)
      have fr: "Frag_defrag_freefrags f ?s3 = Inr (upd_fcb f (\<lambda>c. c\<lparr>c_fragments := []\<rparr>) s4)"
        unfolding Frag_defrag_freefrags_def using s4(1) xs(1) by (simp add: upd_fcb_def)
      let ?s5 = "STAT FRAG_REASM_OK (upd_fcb f (\<lambda>c. c\<lparr>c_fragments := []\<rparr>) s4)"
      have "Frag_defrag_reasm (Some new) f s = Inr (Some new, ?s5)"
        unfolding start set using nh m2(1) fr by (simp add: Let_def cong)
      moreover have "fcbs ?s5 = (fcbs s)(f := ?c\<lparr>c_status := c_status ?c OR 4, c_fragments := []\<rparr>)"
        using s4(4) by (auto simp: frag_frame_def upd_fcb_def STAT_def DEFRAG_COMPLETE_def)
      moreover have "mbufs ?s5 new = m2" "\<forall>b. b \<notin> insert new (set xs) \<longrightarrow> mbufs ?s5 b = mbufs s b"
        using s4(4) xs(3) by (auto simp: frag_frame_def upd_fcb_def STAT_def)
      moreover have "mem_inv (mem ?s5)" "same_slices (mem s) (mem ?s5)"
        using s4(2,3) k(2) by (simp_all add: upd_fcb_def STAT_def same_slices_def)
      ultimately show ?thesis using m2(2) hr by blast
    qed
  qed
qed

end
