(* ===== verification/DefragTheorems.thy ===== *)
theory DefragTheorems
  imports Reasm
begin

text \<open>The properties of reassembly: what \<open>Frag_defrag_process\<close> of \<open>decode-defrag.c\<close> does with one fragment.\<close>

section \<open>Invariant\<close>

definition frag_inv :: "nat \<Rightarrow> dp_state \<Rightarrow> bool" where
  "frag_inv f s \<longleftrightarrow> fcb_inv (mbufs s) (fcbs s f) \<and> (\<forall>a \<in> set (c_fragments (fcbs s f)). frag_ok (mbufs s a) \<and> sw_home (mem s) (mbufs s a))"

lemma fcb_inv_cong:
  assumes "\<And>a. a \<in> set (c_fragments c) \<Longrightarrow> M' a = M a"
  shows "fcb_inv M' c = fcb_inv M c"
proof -
  have "sorted_wrt (\<lambda>a b. frag_end (M' a) \<le> frag_offset (M' b)) (c_fragments c) = sorted_wrt (\<lambda>a b. frag_end (M a) \<le> frag_offset (M b)) (c_fragments c)"
    by (rule iffI; erule sorted_wrt_mono_rel [rotated]) (use assms in auto)
  moreover have "(\<Sum>a\<leftarrow>c_fragments c. frag_len (M' a)) = (\<Sum>a\<leftarrow>c_fragments c. frag_len (M a))"
    by (rule arg_cong [where f = sum_list], rule map_cong) (use assms in auto)
  ultimately show ?thesis using assms by (simp add: fcb_inv_def tiled_def)
qed

text \<open>A chain survives what leaves its fragments and the slices of the pools in place.\<close>

lemma frag_inv_frame:
  assumes "fcb_inv (mbufs s) c" "\<And>a. a \<in> set (c_fragments c) \<Longrightarrow> frag_ok (mbufs s a) \<and> sw_home (mem s) (mbufs s a)"
    "fcbs s' f = c" "\<And>a. a \<in> set (c_fragments c) \<Longrightarrow> mbufs s' a = mbufs s a" "same_slices (mem s) (mem s')"
  shows "frag_inv f s'"
  using assms fcb_inv_cong [of c "mbufs s'" "mbufs s"] sw_home_slices [OF assms(5)] by (auto simp: frag_inv_def)

lemma upd_fcb_simps [simp]:
  "mbufs (upd_fcb f g s) = mbufs s" "mem (upd_fcb f g s) = mem s" "fcbs (upd_fcb f g s) = (fcbs s)(f := g (fcbs s f))"
  by (simp_all add: upd_fcb_def)

lemma STAT_simps [simp]: "mbufs (STAT x s) = mbufs s" "mem (STAT x s) = mem s" "fcbs (STAT x (s' :: dp_state)) = fcbs s'"
  by (simp_all add: STAT_def)

lemma frag_err_ok:
  assumes mi: "mem_inv (mem s)" and home: "sw_home (mem s) (mbufs s mb)" and c: "fcb_inv (mbufs s) (fcbs s f)" "mb \<notin> set (c_fragments (fcbs s f))"
    "\<And>a. a \<in> set (c_fragments (fcbs s f)) \<Longrightarrow> frag_ok (mbufs s a) \<and> sw_home (mem s) (mbufs s a)"
  shows "\<exists>s'. frag_err mb s = Inr (None, s') \<and> frag_inv f s' \<and> mem_inv (mem s') \<and> c_fragments (fcbs s' f) = c_fragments (fcbs s f)"
proof -
  obtain s1 where s1: "packet_destroy_all mb s = Inr s1" "mem_inv (mem s1)" "same_slices (mem s) (mem s1)" "frag_frame {mb} s s1"
    using destroy_ok [OF mi home] by blast
  have "frag_inv f (STAT FRAG_DEFRAG_ERR s1)"
    by (rule frag_inv_frame [OF c(1,3)]) (use s1(3,4) c(2) in \<open>auto simp: frag_frame_def\<close>)
  with s1 show ?thesis by (auto simp: frag_err_def frag_frame_def)
qed

text \<open>Reassembly of the chain of \<open>f\<close>, seen from the control block; \<open>buf\<close> is the descriptor the allocator has for it.\<close>

lemma reasm_no_mbuf:
  assumes "c_fragments (fcbs s f) = h # rest" "frag_ok (mbufs s h)"
  shows "Frag_defrag_reasm None f s = Inr (None, s)"
  using assms frag_ok_hlen by (simp add: Frag_defrag_reasm_def Frag_defrag_setup_def mbuf_alloc_def Let_def)

lemma reasm_step:
  assumes mi: "mem_inv (mem s)" "unat (datasize (mem_pool (mem s) ! MEM_POOL_ID_LARGE_BUFFER)) < 65536"
    and c: "fcbs s f = c" "fcb_inv (mbufs s) c" "mb \<in> set (c_fragments c)" "\<And>n. buf = Some n \<Longrightarrow> n \<notin> set (c_fragments c)"
    and fr: "\<And>a. a \<in> set (c_fragments c) \<Longrightarrow> frag_ok (mbufs s a) \<and> sw_home (mem s) (mbufs s a)"
    and T: "c_total_fraglen c = (\<Sum>a\<leftarrow>c_fragments c. frag_len (mbufs s a))"
    and full: "c_last_in c = DEFRAG_FIRST_IN OR DEFRAG_LAST_IN \<and> c_meat c = c_total_fraglen c"
  shows "\<exists>r s'. Frag_defrag_reasm buf f s = Inr (r, s') \<and> frag_inv f s' \<and> mem_inv (mem s') \<and>
    (case r of None \<Rightarrow> fcbs s' f = c \<and> (buf = None \<or> refused (mem s) (mbufs s) (c_fragments c))
     | Some n \<Rightarrow> buf = Some n \<and> fcbs s' f = c\<lparr>c_status := c_status c OR 4, c_fragments := []\<rparr> \<and> reassembled (mbufs s) (c_fragments c) (mbufs s' n))"
proof (cases buf)
  case None
  obtain h rest where h: "c_fragments c = h # rest" using c(3) by (cases "c_fragments c") auto
  have "Frag_defrag_reasm buf f s = Inr (None, s)" unfolding None by (rule reasm_no_mbuf [of s f h rest]) (use h c(1) fr in auto)
  with None c(1,2) fr mi show ?thesis by (auto simp: frag_inv_def)
next
  case (Some new)
  have ne: "c_fragments c \<noteq> []" using c(3) by auto
  obtain r s' where rs: "Frag_defrag_reasm (Some new) f s = Inr (r, s')" "mem_inv (mem s')" "same_slices (mem s) (mem s')"
    "r = None \<and> refused (mem s) (mbufs s) (c_fragments c) \<and> fcbs s' = fcbs s \<and> (\<forall>b. b \<noteq> new \<longrightarrow> mbufs s' b = mbufs s b) \<or>
     r = Some new \<and> fcbs s' = (fcbs s)(f := c\<lparr>c_status := c_status c OR 4, c_fragments := []\<rparr>) \<and> reassembled (mbufs s) (c_fragments c) (mbufs s' new)"
    using reasm_ok [OF mi arg_cong [OF c(1), of c_fragments] ne c(4) [OF Some] fr] c(1) T by metis
  from rs(4) show ?thesis
  proof
    assume r: "r = None \<and> refused (mem s) (mbufs s) (c_fragments c) \<and> fcbs s' = fcbs s \<and> (\<forall>b. b \<noteq> new \<longrightarrow> mbufs s' b = mbufs s b)"
    have "frag_inv f s'" by (rule frag_inv_frame [OF c(2) fr]) (use r c(1) c(4) [OF Some] rs(3) in auto)
    with rs r c(1) Some show ?thesis by auto
  next
    assume r: "r = Some new \<and> fcbs s' = (fcbs s)(f := c\<lparr>c_status := c_status c OR 4, c_fragments := []\<rparr>) \<and> reassembled (mbufs s) (c_fragments c) (mbufs s' new)"
    have "frag_inv f s'" using r delivered_inv [OF c(2,3) full] by (simp add: frag_inv_def)
    with rs r Some show ?thesis by auto
  qed
qed

section \<open>Properties\<close>

text \<open>
  What becomes of fragment \<open>mb\<close> in the chain \<open>xs\<close> of a control block, which is \<open>c'\<close> afterwards. No packet: the
  fragment was dropped, or it is in the chain, and when the chain is complete then there was no descriptor or
  no buffer for the datagram or it is too long. A packet \<open>m\<close>: it is made from all fragments, which follow each
  other from offset 0 on.
\<close>

definition frag_result :: "nat option \<Rightarrow> nat \<Rightarrow> nat list \<Rightarrow> dp_state \<Rightarrow> nat option \<Rightarrow> fcb_t \<Rightarrow> mbuf_t \<Rightarrow> bool" where
  "frag_result buf mb xs s r c' m = (case r of
     None \<Rightarrow> set (c_fragments c') = set xs \<or>
       set (c_fragments c') = insert mb (set xs) \<and>
       (c_last_in c' = DEFRAG_FIRST_IN OR DEFRAG_LAST_IN \<and> c_meat c' = c_total_fraglen c' \<longrightarrow>
        buf = None \<or> refused (mem s) (mbufs s) (c_fragments c'))
   | Some n \<Rightarrow> buf = Some n \<and> c_fragments c' = [] \<and>
       (\<exists>ys. set ys = insert mb (set xs) \<and> distinct ys \<and> contig (mbufs s) 0 ys \<and> reassembled (mbufs s) ys m))"

lemma frag_result_upd: "frag_result buf mb xs (upd_fcb f g s) r c' m = frag_result buf mb xs s r c' m"
  by (simp add: frag_result_def split: option.split)

text \<open>A fragment that overlaps no other one, for a control block \<open>c1\<close> whose bounds are already adjusted.\<close>

lemma enter_step:
  assumes mi: "mem_inv (mem s)" "unat (datasize (mem_pool (mem s) ! MEM_POOL_ID_LARGE_BUFFER)) < 65536"
    and mb: "frag_ok (mbufs s mb)" "sw_home (mem s) (mbufs s mb)" "mb \<notin> set (c_fragments c1)"
    and b: "fcb_inv (mbufs s) c1" "frag_end (mbufs s mb) \<le> c_total_fraglen c1"
    and fr: "\<And>a. a \<in> set (c_fragments c1) \<Longrightarrow> frag_ok (mbufs s a) \<and> sw_home (mem s) (mbufs s a)"
    and new: "\<And>n. buf = Some n \<Longrightarrow> n \<notin> insert mb (set (c_fragments c1))"
    and ov: "\<not> frag_overlap (mbufs s) (frag_offset (mbufs s mb)) (frag_end (mbufs s mb)) (frag_split (mbufs s) (frag_offset (mbufs s mb)) (c_fragments c1))"
  defines "c2 \<equiv> enter (mbufs s) mb c1"
  shows "\<exists>r s'. (if c_last_in c2 = DEFRAG_FIRST_IN OR DEFRAG_LAST_IN \<and> c_meat c2 = c_total_fraglen c2
       then Frag_defrag_reasm buf f (upd_fcb f (\<lambda>_. c2) s) else Inr (None, STAT FRAG_CACHE_OK (upd_fcb f (\<lambda>_. c2) s))) = Inr (r, s') \<and>
     frag_inv f s' \<and> mem_inv (mem s') \<and> frag_result buf mb (c_fragments c1) s r (fcbs s' f) (mbufs s' (the r))"
proof -
  let ?M = "mbufs s" and ?s = "upd_fcb f (\<lambda>_. c2) s"
  have pos: "0 \<le> frag_offset (?M mb)" "0 < frag_len (?M mb)" using mb(1) by (auto simp: frag_ok_def)
  have c2: "fcb_inv ?M c2" "set (c_fragments c2) = insert mb (set (c_fragments c1))"
    unfolding c2_def using enter_inv [OF b(1) mb(3) pos b(2) ov] by simp_all
  have fr2: "frag_ok (?M a) \<and> sw_home (mem s) (?M a)" if "a \<in> set (c_fragments c2)" for a using that c2(2) fr mb by auto
  show ?thesis
  proof (cases "c_last_in c2 = DEFRAG_FIRST_IN OR DEFRAG_LAST_IN \<and> c_meat c2 = c_total_fraglen c2")
    case False
    have "frag_inv f (STAT FRAG_CACHE_OK ?s)" by (rule frag_inv_frame [OF c2(1) fr2]) (auto simp: same_slices_def)
    with False c2(2) mi(1) show ?thesis by (auto simp: frag_result_def)
  next
    case True
    have in2: "mb \<in> set (c_fragments c2)" using c2(2) by simp
    note full = enter_complete [OF c2(1) in2 conjunct2 [OF True]]
    have T: "c_total_fraglen c2 = (\<Sum>a\<leftarrow>c_fragments c2. frag_len (?M a))" using c2(1) full(2) True by (simp add: fcb_inv_def)
    have nn: "n \<notin> set (c_fragments c2)" if "buf = Some n" for n using new [OF that] c2(2) by auto
    from reasm_step [of ?s f c2 mb buf] mi c2(1) fr2 in2 nn T True obtain r s' where
      rs: "Frag_defrag_reasm buf f ?s = Inr (r, s')" "frag_inv f s'" "mem_inv (mem s')"
        "case r of None \<Rightarrow> fcbs s' f = c2 \<and> (buf = None \<or> refused (mem s) ?M (c_fragments c2))
         | Some n \<Rightarrow> buf = Some n \<and> fcbs s' f = c2\<lparr>c_status := c_status c2 OR 4, c_fragments := []\<rparr> \<and> reassembled ?M (c_fragments c2) (mbufs s' n)"
      unfolding upd_fcb_simps by auto
    have "distinct (c_fragments c2)" using c2(1) by (simp add: fcb_inv_def)
    with rs(4) c2(2) full(1) have "frag_result buf mb (c_fragments c1) s r (fcbs s' f) (mbufs s' (the r))"
      by (auto simp: frag_result_def split: option.splits)
    with rs True show ?thesis by auto
  qed
qed

text \<open>
  C24. One fragment under the lock of its control block, with a well-formed chain and well-formed memory
  pools. The call returns without a fault and keeps the chain well formed, in order and without
  overlap. A packet comes out only when the fragments seen, this one included, cover the datagram
  from 0 to its length without a gap; the packet then has the link layer header of the first
  fragment, the right length, offset 0 and a valid checksum in its IP header, and behind it the
  payloads of the fragments in the order of their offsets. Otherwise the fragment was dropped and the
  chain has the fragments it had, or the fragment is in the chain; the chain is complete then only
  when the datagram is longer than 65535 bytes or there was no memory for it.
\<close>

theorem Frag_defrag_process_correct:
  assumes mi: "mem_inv (mem s)" "unat (datasize (mem_pool (mem s) ! MEM_POOL_ID_LARGE_BUFFER)) < 65536"
    and inv: "frag_inv f s" and mb: "frag_ok (mbufs s mb)" "sw_home (mem s) (mbufs s mb)" "mb \<notin> set (c_fragments (fcbs s f))"
    and new: "\<And>n. buf = Some n \<Longrightarrow> n \<notin> insert mb (set (c_fragments (fcbs s f)))"
  shows "\<exists>r s'. Frag_defrag_process buf mb f s = Inr (r, s') \<and> frag_inv f s' \<and> mem_inv (mem s') \<and>
    frag_result buf mb (c_fragments (fcbs s f)) s r (fcbs s' f) (mbufs s' (the r))"
proof -
  let ?M = "mbufs s" and ?c = "fcbs s f" and ?m = "mbufs s mb"
  have ci: "fcb_inv ?M ?c" and fr: "\<And>a. a \<in> set (c_fragments ?c) \<Longrightarrow> frag_ok (?M a) \<and> sw_home (mem s) (?M a)"
    using inv by (auto simp: frag_inv_def)
  obtain mf where mf: "IPV4_GET_MF ?m = Inr mf" using frag_ok_mf [OF mb(1)] by blast
  have nc: "c_last_in ?c AND DEFRAG_COMPLETE = 0" using ci by (simp add: fcb_inv_def)
  show ?thesis
  proof (cases "frag_bounds mf (frag_end ?m) ?c")
    case None
    then have "Frag_defrag_process buf mb f s = frag_err mb s"
      using nc mf by (simp add: Frag_defrag_process_def Let_def frag_end_def)
    then show ?thesis using frag_err_ok [OF mi(1) mb(2) ci mb(3) fr] by (auto simp: frag_result_def)
  next
    case (Some c1)
    have "0 \<le> frag_end ?m" using mb(1) by (auto simp: frag_ok_def frag_end_def)
    note b = frag_bounds_inv [OF ci Some this]
    let ?p = "frag_split ?M (frag_offset ?m) (c_fragments c1)" and ?s1 = "upd_fcb f (\<lambda>_. c1) s" and ?c2 = "enter ?M mb c1"
    have eq: "Frag_defrag_process buf mb f s =
      (if frag_overlap ?M (frag_offset ?m) (frag_end ?m) ?p then frag_err mb ?s1
       else if c_last_in ?c2 = DEFRAG_FIRST_IN OR DEFRAG_LAST_IN \<and> c_meat ?c2 = c_total_fraglen ?c2
         then Frag_defrag_reasm buf f (upd_fcb f (\<lambda>_. ?c2) ?s1) else Inr (None, STAT FRAG_CACHE_OK (upd_fcb f (\<lambda>_. ?c2) ?s1)))"
      using nc mf Some by (simp add: Frag_defrag_process_def Let_def frag_end_def enter_def)
    show ?thesis
    proof (cases "frag_overlap ?M (frag_offset ?m) (frag_end ?m) ?p")
      case True
      then show ?thesis using eq frag_err_ok [of ?s1 mb f] mi(1) mb b fr by (auto simp: frag_result_def)
    next
      case False
      then show ?thesis using enter_step [of ?s1 mb c1 buf f, unfolded upd_fcb_simps frag_result_upd] mi mb b fr new eq by simp
    qed
  qed
qed

text \<open>
  A core with one packet 1 in a slice of the small pool: a header of 20 bytes and a payload of 8, the
  only fragment of its datagram, and an empty control block 2. The large pool has one free slice.
\<close>

definition tiny_mem :: mem_state where
  "tiny_mem = \<lparr>mem_pool =
      [new_cfg 0 0 0 0, new_cfg 0 0 0 0,
       \<lparr>start = 1000, totalsize = 2048, slicesize = 2048, slicenum = 1, datasize = 2024, global_index = 0,
         msc = replicate 4 \<lparr>freenum = 0, head = Some []\<rparr>\<rparr>,
       \<lparr>start = 10000, totalsize = 8192, slicesize = 8192, slicenum = 1, datasize = 8168, global_index = 0,
         msc = \<lparr>freenum = 1, head = Some [10000]\<rparr> # replicate 3 \<lparr>freenum = 0, head = Some []\<rparr>\<rparr>],
     ctrl = (\<lambda>a. if a = 1000 then \<lparr>magic = MEM_POOL_MAGIC_NUM, pool_id = 2, subpool_id = 0, ref = 1\<rparr>
                 else \<lparr>magic = MEM_POOL_MAGIC_NUM, pool_id = 3, subpool_id = 0, ref = 0\<rparr>),
     fpa_given = []\<rparr>"

definition one_frag :: mbuf_t where
  "one_frag = zero_mbuf\<lparr>pkt_space := PKTBUF_SW, pkt_totallen := 28, pkt_ptr := 1024, network_header := 1024, frag_offset := 0, frag_len := 8,
     pkt_data := [0x45, 0, 0, 28, 0, 1, 0, 0, 64, 17, 0, 0, 10, 0, 0, 1, 10, 0, 0, 2, 1, 2, 3, 4, 5, 6, 7, 8]\<rparr>"

definition frag_state :: dp_state where
  "frag_state = \<lparr>flows = flows busy_tx, mem = tiny_mem, mbufs = (\<lambda>_. one_frag), mctrl = mctrl busy_tx, host_freed = [], hw_freed = [],
     stats = (\<lambda>_. 0), tx_done = [], oct_tx_entries = 0, pko_sent = [], wqe_freed = [], wqe_data_freed = [],
     fh = \<lparr>first = \<lambda>_. Null, nxt = \<lambda>_. Poison, pprev = \<lambda>_. PPoison\<rparr>, fcbs = (\<lambda>_. new_fcb zero_mbuf), del_fcb = 0\<rparr>"

lemma below_4: "i < 4 \<Longrightarrow> i = 0 \<or> i = 1 \<or> i = 2 \<or> i = (3 :: nat)"
  by presburger

lemma tiny_mem_inv: "mem_inv tiny_mem"
proof -
  have sl: "pool_slices 2 tiny_mem = {1000}" "pool_slices 3 tiny_mem = {10000}"
    by (simp_all add: pool_slices_def slices_def tiny_mem_def lessThan_Suc)
  have ch: "chain_of 2 tiny_mem i = []" "chain_of 3 tiny_mem i = (if i = 0 then [10000] else [])" if "i < 4" for i
    using below_4 [OF that] by (elim disjE; simp add: chain_of_def tiny_mem_def)+
  have fs: "free_set 2 tiny_mem = {}" "free_set 3 tiny_mem = {10000}"
    using ch by (auto simp: free_set_def MEM_POOL_INTERNAL_NUM_def split: if_splits)
  have ms: "msc (mem_pool tiny_mem ! 2) ! i = \<lparr>freenum = of_nat (length (chain_of 2 tiny_mem i)), head = Some (chain_of 2 tiny_mem i)\<rparr>"
    "msc (mem_pool tiny_mem ! 3) ! i = \<lparr>freenum = of_nat (length (chain_of 3 tiny_mem i)), head = Some (chain_of 3 tiny_mem i)\<rparr>" if "i < 4" for i
    unfolding ch [OF that] using below_4 [OF that] by (elim disjE; simp add: tiny_mem_def)+
  have "pool_inv 2 tiny_mem"
    unfolding pool_inv_def MEM_POOL_INTERNAL_NUM_def using ms(1) ch(1) sl(1) fs(1) by (simp add: tiny_mem_def)
  moreover have "pool_inv 3 tiny_mem"
    unfolding pool_inv_def MEM_POOL_INTERNAL_NUM_def using ms(2) ch(2) sl(2) fs(2) by (simp add: tiny_mem_def)
  moreover have "pool_fits 2 tiny_mem" "pool_fits 3 tiny_mem" by (simp_all add: pool_fits_def tiny_mem_def MEM_POOL_SLICE_CTRL_SIZE_def)
  moreover have "length (mem_pool tiny_mem) = 4" by (simp add: tiny_mem_def)
  ultimately show ?thesis by (simp add: mem_inv_def mem_consts sl)
qed

lemma one_frag_ok: "frag_ok one_frag" "sw_home tiny_mem one_frag"
proof -
  show "frag_ok one_frag" by (simp add: frag_ok_def one_frag_def hdr_off_def hdr_len_def zero_mbuf_def)
  have "1000 \<in> pool_slices 2 tiny_mem" by (simp add: pool_slices_def slices_def tiny_mem_def)
  then show "sw_home tiny_mem one_frag"
    unfolding sw_home_def by (intro conjI exI [of _ 2] exI [of _ 1000]) (simp_all add: one_frag_def sw_pool_def mem_consts)
qed

theorem Frag_defrag_process_correct_witness:
  "\<exists>r s'. Frag_defrag_process (Some 3) 1 2 frag_state = Inr (r, s') \<and> frag_inv 2 s' \<and> mem_inv (mem s')"
proof -
  have mi: "mem_inv (mem frag_state)" "unat (datasize (mem_pool (mem frag_state) ! MEM_POOL_ID_LARGE_BUFFER)) < 65536"
    using tiny_mem_inv by (simp_all add: frag_state_def tiny_mem_def MEM_POOL_ID_LARGE_BUFFER_def)
  have inv: "frag_inv 2 frag_state"
    by (simp add: frag_inv_def frag_state_def new_fcb_def fcb_inv_def tiled_def flag_simps)
  have mb: "frag_ok (mbufs frag_state 1)" "sw_home (mem frag_state) (mbufs frag_state 1)" "1 \<notin> set (c_fragments (fcbs frag_state 2))"
    using one_frag_ok by (simp_all add: frag_state_def new_fcb_def)
  have "3 \<notin> insert 1 (set (c_fragments (fcbs frag_state 2)))" by (simp add: frag_state_def new_fcb_def)
  then show ?thesis using Frag_defrag_process_correct [OF mi inv mb, of "Some 3"] by auto
qed

text \<open>
  A fragment that closes the gap between two others is dropped: when the chain holds a first fragment
  as long as the offset of the new one and a later fragment behind it, which is the case whenever the
  three parts of a datagram arrive as first, third, second and the first two are equally long, the
  search compares the offset with the length of a fragment instead of its offset, stops at the first
  one and takes the new fragment for an overlap.
\<close>

theorem gap_fragment_dropped:
  assumes chain: "c_fragments (fcbs s f) = [a, b]" and st: "c_last_in (fcbs s f) AND DEFRAG_COMPLETE = 0" "frag_end (mbufs s b) \<le> c_total_fraglen (fcbs s f)"
    and first: "frag_offset (mbufs s a) = 0" "frag_len (mbufs s a) = frag_offset (mbufs s mb)"
    and gap: "0 < frag_offset (mbufs s mb)" "0 < frag_len (mbufs s mb)" "frag_end (mbufs s mb) \<le> frag_offset (mbufs s b)" "0 < frag_len (mbufs s b)"
    and mf: "IPV4_GET_MF (mbufs s mb) = Inr 1"
  shows "Frag_defrag_process buf mb f s = rbind (packet_destroy_all mb s) (\<lambda>s'. Inr (None, STAT FRAG_DEFRAG_ERR s'))"
proof -
  let ?m = "mbufs s mb" and ?c = "fcbs s f"
  have "frag_bounds 1 (frag_offset ?m + frag_len ?m) ?c = Some ?c" using gap st(2) by (simp add: frag_bounds_def frag_end_def)
  moreover have "frag_split (mbufs s) (frag_offset ?m) [a, b] = ([], [a, b])"
    using gap first by (simp add: frag_split_def frag_end_def)
  moreover have "frag_overlap (mbufs s) (frag_offset ?m) (frag_offset ?m + frag_len ?m) ([], [a, b])"
    using first gap by (simp add: frag_overlap_def)
  moreover have "upd_fcb f (\<lambda>_. ?c) s = s" by (simp add: upd_fcb_def)
  ultimately show ?thesis using st(1) mf chain by (simp add: Frag_defrag_process_def Let_def frag_err_def)
qed

text \<open>First, third and second part of a datagram of three parts of 8 bytes.\<close>

definition part :: "int \<Rightarrow> mbuf_t" where
  "part off = one_frag\<lparr>frag_offset := off, pkt_data := [0x45, 0, 0, 28, 0, 1, 0x20, word_of_int (off div 8)] @ drop 8 (pkt_data one_frag)\<rparr>"

definition three_parts :: dp_state where
  "three_parts = frag_state\<lparr>mbufs := (\<lambda>i. if i = 1 then part 0 else if i = 3 then part 16 else part 8),
     fcbs := (\<lambda>_. (new_fcb zero_mbuf)\<lparr>c_fragments := [1, 3], c_meat := 16, c_last_in := DEFRAG_FIRST_IN, c_total_fraglen := 24\<rparr>)\<rparr>"

theorem gap_fragment_dropped_witness:
  "Frag_defrag_process (Some 9) 2 5 three_parts = rbind (packet_destroy_all 2 three_parts) (\<lambda>s'. Inr (None, STAT FRAG_DEFRAG_ERR s'))"
proof (rule gap_fragment_dropped)
  show "c_fragments (fcbs three_parts 5) = [1, 3]" by (simp add: three_parts_def)
  show "c_last_in (fcbs three_parts 5) AND DEFRAG_COMPLETE = 0" by (simp add: three_parts_def DEFRAG_FIRST_IN_def DEFRAG_COMPLETE_def)
  show "IPV4_GET_MF (mbufs three_parts 2) = Inr 1"
    by (simp add: three_parts_def part_def one_frag_def IPV4_GET_MF_def IPV4_GET_RAW_IPOFFSET_def pkt16_def read_pkt_def get16_def un16_def zero_mbuf_def)
qed (simp_all add: three_parts_def part_def one_frag_def frag_end_def)

end
