(* ===== verification/FragFrame.thy ===== *)
theory FragFrame
  imports DefragTheorems
begin

text \<open>
  What the operations on fragments leave alone, whatever the state: the chains of the table, the other
  control blocks, the other descriptors and the layout of the memory pools.
\<close>

section \<open>Layout of the pools\<close>

definition layout :: "mem_state \<Rightarrow> nat \<Rightarrow> nat \<times> u32 \<times> u32 \<times> u32" where
  "layout k q = (start (mem_pool k ! q), slicesize (mem_pool k ! q), slicenum (mem_pool k ! q), datasize (mem_pool k ! q))"

lemma layout_slices: "layout k' = layout k \<Longrightarrow> same_slices k k'"
  by (simp add: layout_def fun_eq_iff same_slices_def pool_slices_def slices_def)

lemma layout_datasize: "layout k' = layout k \<Longrightarrow> datasize (mem_pool k' ! q) = datasize (mem_pool k ! q)"
  by (simp add: layout_def fun_eq_iff)

lemma layout_ctrl [simp]: "layout (k\<lparr>ctrl := c\<rparr>) = layout k"
  by (simp add: layout_def fun_eq_iff)

lemma layout_set_chain [simp]: "layout (set_chain p i c k) = layout k"
proof
  fix q show "layout (set_chain p i c k) q = layout k q"
    by (cases "p < length (mem_pool k)"; cases "q = p") (simp_all add: layout_def set_chain_def list_update_beyond)
qed

lemma layout_index [simp]: "layout (k\<lparr>mem_pool := (mem_pool k)[p := (mem_pool k ! p)\<lparr>global_index := g\<rparr>]\<rparr>) = layout k"
proof
  fix q show "layout (k\<lparr>mem_pool := (mem_pool k)[p := (mem_pool k ! p)\<lparr>global_index := g\<rparr>]\<rparr>) q = layout k q"
    by (cases "p < length (mem_pool k)"; cases "q = p") (simp_all add: layout_def list_update_beyond)
qed

lemma alloc_layout: "mem_pool_alloc p n k = Inr (r, k') \<Longrightarrow> layout k' = layout k"
  unfolding mem_pool_alloc_def Let_def by (auto split: if_splits option.splits list.splits)

lemma free_layout: "mem_pool_free b k = Inr k' \<Longrightarrow> layout k' = layout k"
  unfolding mem_pool_free_def Let_def by (auto split: if_splits option.splits)

section \<open>Frame\<close>

definition frag_key :: "fcb_t \<Rightarrow> u32 \<times> u32 \<times> u16" where
  "frag_key c = (c_sip c, c_dip c, c_id c)"

text \<open>Outside the descriptors \<open>A\<close> and control block \<open>f\<close> nothing has changed, and \<open>f\<close> keeps its key and time.\<close>

definition kept :: "nat set \<Rightarrow> nat \<Rightarrow> dp_state \<Rightarrow> dp_state \<Rightarrow> bool" where
  "kept A f s s' \<longleftrightarrow> fh s' = fh s \<and> layout (mem s') = layout (mem s) \<and> (\<forall>g. g \<noteq> f \<longrightarrow> fcbs s' g = fcbs s g) \<and>
     frag_key (fcbs s' f) = frag_key (fcbs s f) \<and> (\<forall>b. b \<notin> A \<longrightarrow> mbufs s' b = mbufs s b) \<and> (\<forall>b. mbuf_ok b s \<longrightarrow> mbuf_ok b s')"

lemma kept_refl: "kept A f s s"
  by (simp add: kept_def)

lemma kept_trans: "kept A f s s' \<Longrightarrow> kept B f s' s'' \<Longrightarrow> A \<subseteq> C \<Longrightarrow> B \<subseteq> C \<Longrightarrow> kept C f s s''"
  unfolding kept_def by (metis (no_types, lifting) subsetD)

lemma kept_mono: "kept A f s s' \<Longrightarrow> A \<subseteq> C \<Longrightarrow> kept C f s s'"
  by (auto simp: kept_def)

lemma kept_STAT [simp]: "kept A f s (STAT x s') = kept A f s s'"
  by (simp add: kept_def STAT_def mbuf_ok_def)

lemma kept_upd_fcb [simp]: "(\<And>c. frag_key (g c) = frag_key c) \<Longrightarrow> kept A f s (upd_fcb f g s') = kept A f s s'"
  by (simp add: kept_def upd_fcb_def mbuf_ok_def)

lemma destroy_kept:
  assumes "packet_destroy_all mb s = Inr s'"
  shows "kept {mb} f s s'"
  using assms
proof (cases rule: packet_destroy_all_cases)
  case (2 k)
  then show ?thesis using free_layout [OF 2(2)] by (simp add: kept_def mbuf_free_eq mbuf_ok_def)
qed (simp_all add: kept_def mbuf_free_eq mbuf_ok_def)

lemma destroys_kept: "rfold packet_destroy_all xs s = Inr s' \<Longrightarrow> kept (set xs) f s s'"
proof (induction xs arbitrary: s)
  case (Cons a xs)
  then obtain s1 where "packet_destroy_all a s = Inr s1" "rfold packet_destroy_all xs s1 = Inr s'" by (auto simp: rbind_Inr_iff)
  with Cons.IH [of s1] destroy_kept [of a s s1 f] show ?case by (auto intro: kept_trans)
qed (simp add: kept_refl)

lemma freefrags_kept: "Frag_defrag_freefrags f s = Inr s' \<Longrightarrow> kept (set (c_fragments (fcbs s f))) f s s'"
  by (auto simp: Frag_defrag_freefrags_def rbind_Inr_iff frag_key_def dest: destroys_kept)

lemma setup_kept:
  assumes "Frag_defrag_setup buf h f s = Inr (r, s')"
  shows "kept (set_option buf) f s s' \<and> fcbs s' = fcbs s \<and> (\<forall>n. r = Some n \<longrightarrow> buf = Some n)"
  using assms unfolding Frag_defrag_setup_def mbuf_alloc_def
  by (auto simp: rbind_Inr_iff Let_def kept_def mbuf_free_eq mbuf_ok_def FPA_POOL_ID_HOST_MBUF_def split: option.splits dest!: alloc_layout)

lemma reasm_kept:
  assumes "Frag_defrag_reasm buf f s = Inr (r, s')"
  shows "kept (set_option buf \<union> set (c_fragments (fcbs s f))) f s s'"
proof -
  obtain h rest where h: "c_fragments (fcbs s f) = h # rest" using assms by (cases "c_fragments (fcbs s f)") (auto simp: Frag_defrag_reasm_def)
  then obtain ihl where ihl: "IPV4_GET_HLEN (mbufs s h) = Inr ihl" using assms by (auto simp: Frag_defrag_reasm_def rbind_Inr_iff)
  show ?thesis
  proof (cases "int ihl + c_total_fraglen (fcbs s f) > IPV4_PKTLEN_MAX")
    case True
    then have "s' = s" using assms h ihl by (simp add: Frag_defrag_reasm_def)
    then show ?thesis by (simp add: kept_refl)
  next
    case False
    with assms h ihl obtain r1 s1 where s1: "Frag_defrag_setup buf h f s = Inr (r1, s1)"
      and rest: "(case r1 of None \<Rightarrow> Inr (None, s1) | Some new \<Rightarrow>
        let h = mbufs s1 h; cap = unat (datasize (mem_pool (mem s1) ! MEM_POOL_ID_LARGE_BUFFER)) in
        rbind (read_pkt h (pkt_ptr h) (unat (pkt_totallen h))) (\<lambda>bs.
        rbind (append_pkt cap bs (mbufs s1 new)) (\<lambda>m0.
        rbind (rfold (\<lambda>a. append_frag cap (mbufs s1 a)) rest (m0\<lparr>pkt_totallen := pkt_totallen m0 + pkt_totallen h\<rparr>)) (\<lambda>m1.
        rbind (finish_header (int ihl + c_total_fraglen (fcbs s f)) ihl m1) (\<lambda>m2.
        rbind (Frag_defrag_freefrags f
                 (upd_fcb f (\<lambda>c. c\<lparr>c_status := c_status c OR ucast DEFRAG_COMPLETE\<rparr>) (s1\<lparr>mbufs := (mbufs s1)(new := m2)\<rparr>))) (\<lambda>s2.
        Inr (Some new, STAT FRAG_REASM_OK s2))))))) = Inr (r, s')"
      by (auto simp: Frag_defrag_reasm_def rbind_Inr_iff Let_def)
    note k = setup_kept [OF s1]
    show ?thesis
    proof (cases r1)
      case None
      then show ?thesis using rest k by (auto intro: kept_mono)
    next
      case (Some new)
      then obtain m2 s2 where s2: "Frag_defrag_freefrags f
          (upd_fcb f (\<lambda>c. c\<lparr>c_status := c_status c OR ucast DEFRAG_COMPLETE\<rparr>) (s1\<lparr>mbufs := (mbufs s1)(new := m2)\<rparr>)) = Inr s2" "s' = STAT FRAG_REASM_OK s2"
        using rest by (auto simp: rbind_Inr_iff Let_def)
      let ?s = "upd_fcb f (\<lambda>c. c\<lparr>c_status := c_status c OR ucast DEFRAG_COMPLETE\<rparr>) (s1\<lparr>mbufs := (mbufs s1)(new := m2)\<rparr>)"
      have "kept (set_option buf) f s ?s" using k Some by (simp add: frag_key_def) (simp add: kept_def mbuf_ok_def)
      moreover have "kept (set (c_fragments (fcbs s f))) f ?s s2" using freefrags_kept [OF s2(1)] k by (simp add: upd_fcb_def)
      ultimately show ?thesis unfolding s2(2) kept_STAT by (rule kept_trans) auto
    qed
  qed
qed

end
