(* ===== verification/Sweep.thy ===== *)
theory Sweep
  imports Hlist
begin

text \<open>
  The two passes that the timers of the flow table and of the fragment table make over a bucket: the
  first moves the expired nodes to a local list, the second empties that list and releases the nodes. The
  locale \<open>ageing\<close> is what a table has to promise; the result of a bucket is proved once for both.
\<close>

text \<open>The chains after the timer has visited the buckets \<open>is\<close>, and the nodes it took out, in the order of their release.\<close>

definition swept :: "(nat \<Rightarrow> bool) \<Rightarrow> (nat \<Rightarrow> bool) \<Rightarrow> nat list \<Rightarrow> (nat \<Rightarrow> nat list) \<Rightarrow> nat \<Rightarrow> nat list" where
  "swept busy E is ch i = (if i \<in> set is \<and> \<not> busy i then filter (\<lambda>a. \<not> E a) (ch i) else ch i)"

definition collected :: "(nat \<Rightarrow> bool) \<Rightarrow> (nat \<Rightarrow> bool) \<Rightarrow> nat list \<Rightarrow> (nat \<Rightarrow> nat list) \<Rightarrow> nat list" where
  "collected busy E is ch = concat (map (\<lambda>i. rev (filter E (ch i))) (filter (\<lambda>i. \<not> busy i) is))"

lemma collected_Cons: "collected busy E (i # is) ch = (if busy i then [] else rev (filter E (ch i))) @ collected busy E is ch"
  by (simp add: collected_def)

lemma collected_cong: "(\<And>i. i \<in> set is \<Longrightarrow> ch' i = ch i) \<Longrightarrow> (\<And>i a. i \<in> set is \<Longrightarrow> a \<in> set (ch i) \<Longrightarrow> E' a = E a) \<Longrightarrow>
    collected busy E' is ch' = collected busy E is ch"
  unfolding collected_def by (rule arg_cong [where f = concat], rule map_cong) (auto cong: filter_cong)

lemma in_collected: "a \<in> set (collected busy E is ch) \<longleftrightarrow> (\<exists>i \<in> set is. \<not> busy i \<and> a \<in> set (ch i) \<and> E a)"
  by (auto simp: collected_def)

locale ageing =
  fixes heap :: "'s \<Rightarrow> hheap"
    and put :: "hheap \<Rightarrow> 's \<Rightarrow> 's"
    and count :: "'s \<Rightarrow> 's"
    and old :: "'s \<Rightarrow> nat \<Rightarrow> bool"
    and good :: "'s \<Rightarrow> nat \<Rightarrow> bool"
    and out :: "'s \<Rightarrow> nat \<Rightarrow> nat list"
    and log :: "'s \<Rightarrow> nat list"
    and age :: "nat \<Rightarrow> 's \<Rightarrow> 's res"
    and reap :: "nat \<Rightarrow> 's \<Rightarrow> 's res"
    and rel :: "'s \<Rightarrow> 's \<Rightarrow> bool"
    and N :: nat
    and T :: nat
  assumes heap_simps: "heap (put H s) = H" "heap (count s) = heap s"
    and put_frame: "old (put H s) = old s" "good (put H s) = good s" "out (put H s) = out s" "log (put H s) = log s" "rel s (put H s)"
    and count_frame: "old (count s) = old s" "good (count s) = good s" "out (count s) = out s" "log (count s) = log s" "rel s (count s)"
    and age_eq: "age a s = (if old s a then rbind (hlist_del a (heap s)) (\<lambda>H. rbind (hlist_add_head a T H) (\<lambda>H'. Inr (count (put H' s)))) else Inr s)"
    and reap_ok: "good s a \<Longrightarrow> hlist_del a (heap s) = Inr H \<Longrightarrow> \<exists>s'. reap a s = Inr s' \<and> heap s' = H \<and> log s' = log s @ out s a \<and> rel s s' \<and>
      (\<forall>b. b \<noteq> a \<longrightarrow> (good s b \<longrightarrow> good s' b) \<and> out s' b = out s b \<and> old s' b = old s b)"
    and rel_trans: "rel s s' \<Longrightarrow> rel s' s'' \<Longrightarrow> rel s s''"
    and rel_refl: "rel s s"
    and apart: "N \<le> T"
begin

text \<open>The table: proper, disjoint chains in the buckets below \<open>N\<close>.\<close>

definition table :: "(nat \<Rightarrow> nat list) \<Rightarrow> 's \<Rightarrow> bool" where
  "table ch s \<longleftrightarrow> (\<forall>i < N. hl (heap s) i (ch i)) \<and> (\<forall>i < N. \<forall>j < N. i \<noteq> j \<longrightarrow> set (ch i) \<inter> set (ch j) = {})"

definition alike :: "'s \<Rightarrow> 's \<Rightarrow> bool" where
  "alike s0 s \<longleftrightarrow> rel s0 s \<and> old s = old s0 \<and> good s = good s0 \<and> out s = out s0 \<and> log s = log s0"

text \<open>Between two nodes of the first pass over bucket \<open>i\<close>: \<open>ds\<close> are done, \<open>rs\<close> are to come.\<close>

definition sweeping :: "(nat \<Rightarrow> nat list) \<Rightarrow> nat \<Rightarrow> 's \<Rightarrow> nat list \<Rightarrow> nat list \<Rightarrow> 's \<Rightarrow> bool" where
  "sweeping ch i s0 ds rs s \<longleftrightarrow>
     hl (heap s) i (filter (\<lambda>a. \<not> old s0 a) ds @ rs) \<and> hl (heap s) T (rev (filter (old s0) ds)) \<and> ch i = ds @ rs \<and>
     (\<forall>j < N. j \<noteq> i \<longrightarrow> hl (heap s) j (ch j)) \<and> alike s0 s"

lemma sweeping_step:
  assumes tab: "table ch s0" and i: "i < N" and s: "sweeping ch i s0 ds (x # rs) s"
  shows "nxt (heap s) x = head_link rs \<and> (\<exists>s'. age x s = Inr s' \<and> sweeping ch i s0 (ds @ [x]) rs s')"
proof -
  have hli: "hl (heap s) i (filter (\<lambda>a. \<not> old s0 a) ds @ x # rs)" and hlT: "hl (heap s) T (rev (filter (old s0) ds))" and ch: "ch i = ds @ x # rs"
    and oth: "\<And>j. j < N \<Longrightarrow> j \<noteq> i \<Longrightarrow> hl (heap s) j (ch j)" and al: "alike s0 s"
    using s by (auto simp: sweeping_def)
  have ol: "old s = old s0" using al by (simp add: alike_def)
  have dist: "distinct (ds @ x # rs)" unfolding ch [symmetric] using tab i by (simp add: table_def hl_def)
  have nx: "nxt (heap s) x = head_link rs" by (rule hl_nxt [OF hli])
  show ?thesis
  proof (cases "old s0 x")
    case False
    then have "age x s = Inr s" by (simp add: age_eq ol)
    moreover have "sweeping ch i s0 (ds @ [x]) rs s" using s False by (auto simp: sweeping_def)
    ultimately show ?thesis using nx by blast
  next
    case True
    have iT: "i \<noteq> T" using i apart by simp
    have disj: "set (filter (\<lambda>a. \<not> old s0 a) ds @ x # rs) \<inter> set (rev (filter (old s0) ds)) = {}" using dist by auto
    obtain H where H: "rbind (hlist_del x (heap s)) (hlist_add_head x T) = Inr H"
      "hl H i (remove1 x (filter (\<lambda>a. \<not> old s0 a) ds @ x # rs))" "hl H T (x # rev (filter (old s0) ds))"
      "\<And>j zs. j \<noteq> i \<Longrightarrow> j \<noteq> T \<Longrightarrow> hl (heap s) j zs \<Longrightarrow>
        set zs \<inter> (set (filter (\<lambda>a. \<not> old s0 a) ds @ x # rs) \<union> set (rev (filter (old s0) ds))) = {} \<Longrightarrow> hl H j zs"
      using hlist.move_chain [OF hli hlT iT disj, of x] by auto
    have r1: "remove1 x (filter (\<lambda>a. \<not> old s0 a) ds @ x # rs) = filter (\<lambda>a. \<not> old s0 a) ds @ rs" using True by (simp add: remove1_append)
    have "age x s = Inr (count (put H s))" using H(1) True by (auto simp: age_eq ol rbind_Inr_iff)
    moreover have "hl H j (ch j)" if "j < N" "j \<noteq> i" for j
    proof (rule H(4) [OF that(2) _ oth [OF that]])
      show "j \<noteq> T" using that(1) apart by simp
      have "set (ch j) \<inter> set (ds @ x # rs) = {}" using tab i that ch unfolding table_def by (metis inf_commute)
      then show "set (ch j) \<inter> (set (filter (\<lambda>a. \<not> old s0 a) ds @ x # rs) \<union> set (rev (filter (old s0) ds))) = {}" by auto
    qed
    moreover have "alike s0 (count (put H s))"
      using al rel_trans [OF _ rel_trans [OF put_frame(5) count_frame(5)], of s0 s H] by (simp add: alike_def put_frame count_frame)
    ultimately show ?thesis using nx H(2,3) r1 True ch by (auto simp: sweeping_def heap_simps)
  qed
qed

text \<open>Between two nodes of the second pass: the nodes \<open>rs\<close> of the local list are to be released.\<close>

definition reaping :: "(nat \<Rightarrow> nat list) \<Rightarrow> 's \<Rightarrow> nat list \<Rightarrow> nat list \<Rightarrow> 's \<Rightarrow> bool" where
  "reaping ch s0 ds rs s \<longleftrightarrow> hl (heap s) T rs \<and> (\<forall>j < N. hl (heap s) j (ch j) \<and> set rs \<inter> set (ch j) = {}) \<and> (\<forall>a \<in> set rs. good s a) \<and>
     rel s0 s \<and> log s = log s0 @ concat (map (out s0) ds) \<and>
     (\<forall>b. b \<notin> set ds \<longrightarrow> (good s0 b \<longrightarrow> good s b) \<and> out s b = out s0 b \<and> old s b = old s0 b) \<and> distinct (ds @ rs)"

lemma reaping_step:
  assumes s: "reaping ch s0 ds (x # rs) s"
  shows "nxt (heap s) x = head_link rs \<and> (\<exists>s'. reap x s = Inr s' \<and> reaping ch s0 (ds @ [x]) rs s')"
proof -
  have hT: "hl (heap s) T (x # rs)" and gd: "good s x" using s by (auto simp: reaping_def)
  obtain H where H: "hlist_del x (heap s) = Inr H" "hl H T rs" using hlist.del_chain [OF hT, of x] by auto
  have oth: "hl H j (ch j)" if "j < N" for j
    using hlist.del_frame [OF hT _ _ H(1), of j "ch j"] s that apart by (auto simp: reaping_def)
  obtain s' where s': "reap x s = Inr s'" "heap s' = H" "log s' = log s @ out s x" "rel s s'"
    "\<And>b. b \<noteq> x \<Longrightarrow> (good s b \<longrightarrow> good s' b) \<and> out s' b = out s b \<and> old s' b = old s b" using reap_ok [OF gd H(1)] by blast
  have nd: "x \<notin> set ds" "x \<notin> set rs" using s by (simp_all add: reaping_def)
  have "out s x = out s0 x" using s nd(1) by (simp add: reaping_def)
  moreover have "rel s0 s'" using s s'(4) rel_trans by (auto simp: reaping_def)
  moreover have "\<forall>a \<in> set rs. good s' a" 
  proof
    fix a assume a: "a \<in> set rs"
    then have "good s a" "a \<noteq> x" using s nd(2) by (auto simp: reaping_def)
    with s'(5) [of a] show "good s' a" by simp
  qed
  ultimately have "reaping ch s0 (ds @ [x]) rs s'" using s s'(2,3,5) H(2) oth by (auto simp: reaping_def)
  moreover have "nxt (heap s) x = head_link rs" using hl_nxt [of "heap s" T "[]" x rs] hT by simp
  ultimately show ?thesis using s'(1) by blast
qed

text \<open>A whole bucket.\<close>

definition bucket :: "nat \<Rightarrow> nat \<Rightarrow> 's \<Rightarrow> 's res option" where
  "bucket fuel i s =
     (let s1 = put (INIT_HLIST_HEAD T (heap s)) s in
      fbind (hlist_for_each_safe fuel age heap (first (heap s1) i) s1) (\<lambda>s2.
        hlist_for_each_safe fuel reap heap (first (heap s2) T) s2))"

lemma table_init: "table ch s \<Longrightarrow> table ch (put (INIT_HLIST_HEAD T (heap s)) s)"
proof -
  assume t: "table ch s"
  have "hl (INIT_HLIST_HEAD T (heap s)) i (ch i)" if "i < N" for i
    using t that hl_init_other [of T i] apart by (simp add: table_def)
  with t show ?thesis by (simp add: table_def heap_simps)
qed

lemma bucket_ok:
  assumes tab: "table ch s" and i: "i < N" and fuel: "length (ch i) < fuel" and gd: "\<And>a. a \<in> set (ch i) \<Longrightarrow> old s a \<Longrightarrow> good s a"
  defines "gone \<equiv> rev (filter (old s) (ch i))"
  shows "\<exists>s'. bucket fuel i s = Some (Inr s') \<and> table (ch(i := filter (\<lambda>a. \<not> old s a) (ch i))) s' \<and> rel s s' \<and> log s' = log s @ concat (map (out s) gone) \<and>
    (\<forall>b. b \<notin> set gone \<longrightarrow> (good s b \<longrightarrow> good s' b) \<and> out s' b = out s b \<and> old s' b = old s b)"
proof -
  let ?s1 = "put (INIT_HLIST_HEAD T (heap s)) s" and ?ch = "ch(i := filter (\<lambda>a. \<not> old s a) (ch i))"
  have t1: "table ch ?s1" by (rule table_init [OF tab])
  have "sweeping ch i ?s1 [] (ch i) ?s1"
    using t1 i hl_Nil [of T "heap s"] rel_refl by (simp add: sweeping_def table_def alike_def heap_simps)
  from hlist_for_each_safe_rule [where I = "sweeping ch i ?s1" and hp = heap, OF sweeping_step [OF t1 i] this fuel]
  obtain s2 where s2: "hlist_for_each_safe fuel age heap (head_link (ch i)) ?s1 = Some (Inr s2)" "sweeping ch i ?s1 (ch i) [] s2" by auto
  have k2: "hl (heap s2) i (filter (\<lambda>a. \<not> old s a) (ch i))" "hl (heap s2) T gone" "\<And>j. j < N \<Longrightarrow> j \<noteq> i \<Longrightarrow> hl (heap s2) j (ch j)"
    "rel s s2" "old s2 = old s" "good s2 = good s" "out s2 = out s" "log s2 = log s"
    using s2(2) rel_trans [OF put_frame(5) [of s "INIT_HLIST_HEAD T (heap s)"], of s2] by (auto simp: sweeping_def alike_def put_frame gone_def)
  have hl2: "hl (heap s2) j (?ch j)" if "j < N" for j using k2(1,3) that by simp
  have di: "distinct (ch i)" using tab i by (auto simp: table_def hl_def)
  have dj: "set gone \<inter> set (?ch j) = {}" if "j < N" for j
  proof (cases "j = i")
    case False
    then have "set (ch i) \<inter> set (ch j) = {}" using tab i that unfolding table_def by blast
    with False show ?thesis by (auto simp: gone_def)
  qed (auto simp: gone_def)
  have "reaping ?ch s2 [] gone s2"
    using k2(2,6) hl2 dj gd rel_refl di by (auto simp: reaping_def gone_def)
  moreover have "length gone < fuel" unfolding gone_def by (simp add: le_less_trans [OF length_filter_le fuel])
  ultimately obtain s3 where s3: "hlist_for_each_safe fuel reap heap (head_link gone) s2 = Some (Inr s3)" "reaping ?ch s2 gone [] s3"
    using hlist_for_each_safe_rule [where I = "reaping ?ch s2" and hp = heap and body = reap and s = s2, OF reaping_step, of "[]"] by fastforce
  have "table ?ch s3" using s3(2) tab i by (auto simp: reaping_def table_def)
  moreover have "bucket fuel i s = Some (Inr s3)"
    using s2(1) s3(1) hl_first [of "heap ?s1" i "ch i"] hl_first [OF k2(2)] t1 i by (simp add: bucket_def Let_def table_def)
  moreover have "rel s s3" using s3(2) k2(4) rel_trans by (auto simp: reaping_def)
  ultimately show ?thesis using s3(2) k2(5-8) by (auto simp: reaping_def)
qed

text \<open>A run over buckets; a bucket that another core has locked is skipped after the local list was cleared.\<close>

fun run :: "nat \<Rightarrow> (nat \<Rightarrow> bool) \<Rightarrow> nat list \<Rightarrow> 's \<Rightarrow> 's res option" where
  "run fuel busy [] s = Some (Inr s)"
| "run fuel busy (i # is) s = fbind (if busy i then Some (Inr (put (INIT_HLIST_HEAD T (heap s)) s)) else bucket fuel i s) (run fuel busy is)"

lemma run_ok:
  assumes "table ch s" "\<And>i. i < N \<Longrightarrow> length (ch i) < fuel" "distinct is" "set is \<subseteq> {..<N}" "\<And>i a. i < N \<Longrightarrow> a \<in> set (ch i) \<Longrightarrow> old s a \<Longrightarrow> good s a"
  shows "\<exists>s'. run fuel busy is s = Some (Inr s') \<and> table (swept busy (old s) is ch) s' \<and> rel s s' \<and>
    log s' = log s @ concat (map (out s) (collected busy (old s) is ch)) \<and>
    (\<forall>b. b \<notin> set (collected busy (old s) is ch) \<longrightarrow> (good s b \<longrightarrow> good s' b) \<and> out s' b = out s b \<and> old s' b = old s b)"
  using assms
proof (induction "is" arbitrary: s ch)
  case Nil
  then show ?case using rel_refl by (simp add: swept_def [abs_def] collected_def)
next
  case (Cons i "is")
  let ?E = "old s"
  let ?ch = "if busy i then ch else ch(i := filter (\<lambda>a. \<not> ?E a) (ch i))" and ?gone = "if busy i then [] else rev (filter ?E (ch i))"
  have i: "i < N" "i \<notin> set is" "set is \<subseteq> {..<N}" "distinct is" using Cons.prems(3,4) by simp_all
  obtain s1 where s1: "(if busy i then Some (Inr (put (INIT_HLIST_HEAD T (heap s)) s)) else bucket fuel i s) = Some (Inr s1)" "table ?ch s1" "rel s s1"
    "log s1 = log s @ concat (map (out s) ?gone)" "\<And>b. b \<notin> set ?gone \<Longrightarrow> (good s b \<longrightarrow> good s1 b) \<and> out s1 b = out s b \<and> old s1 b = old s b"
  proof (cases "busy i")
    case True
    then show thesis using that [of "put (INIT_HLIST_HEAD T (heap s)) s"] table_init [OF Cons.prems(1)] put_frame by simp
  next
    case False
    then show thesis using bucket_ok [OF Cons.prems(1) i(1) Cons.prems(2) [OF i(1)] Cons.prems(5) [OF i(1)]] that by auto
  qed
  have apart_i: "b \<notin> set ?gone" if "j < N" "b \<in> set (?ch j)" for j b
    using Cons.prems(1) i(1) that unfolding table_def by (cases "j = i") (auto split: if_splits)
  have same: "b \<in> set (?ch j) \<Longrightarrow> old s1 b = old s b \<and> out s1 b = out s b \<and> (good s b \<longrightarrow> good s1 b)" if "j < N" for j b
    using s1(5) apart_i [OF that] by blast
  have len: "length (?ch j) < fuel" if "j < N" for j
    using Cons.prems(2) [OF that] le_less_trans [OF length_filter_le Cons.prems(2) [OF i(1)]] by simp
  have gd: "good s1 a" if "j < N" "a \<in> set (?ch j)" "old s1 a" for j a
    using same [OF that(1,2)] Cons.prems(5) [OF that(1), of a] that by (auto split: if_splits)
  have "\<exists>s'. run fuel busy is s1 = Some (Inr s') \<and> table (swept busy (old s1) is ?ch) s' \<and> rel s1 s' \<and>
    log s' = log s1 @ concat (map (out s1) (collected busy (old s1) is ?ch)) \<and>
    (\<forall>b. b \<notin> set (collected busy (old s1) is ?ch) \<longrightarrow> (good s1 b \<longrightarrow> good s' b) \<and> out s' b = out s1 b \<and> old s' b = old s1 b)"
    using s1(2) len i(4,3) gd by (rule Cons.IH)
  then obtain s2 where s2: "run fuel busy is s1 = Some (Inr s2)" "table (swept busy (old s1) is ?ch) s2" "rel s1 s2"
    "log s2 = log s1 @ concat (map (out s1) (collected busy (old s1) is ?ch))"
    "\<And>b. b \<notin> set (collected busy (old s1) is ?ch) \<Longrightarrow> (good s1 b \<longrightarrow> good s2 b) \<and> out s2 b = out s1 b \<and> old s2 b = old s1 b"
    by blast
  have chj: "?ch j = ch j" if "j \<in> set is" for j using that i(2) by auto
  have coll: "collected busy (old s1) is ?ch = collected busy ?E is ch"
  proof (rule collected_cong [OF chj])
    fix j a assume "j \<in> set is" "a \<in> set (ch j)"
    then show "old s1 a = ?E a" using same [of j a] chj [of j] i(3) by auto
  qed
  have outs: "map (out s1) (collected busy ?E is ch) = map (out s) (collected busy ?E is ch)"
  proof (rule map_cong [OF refl])
    fix a assume "a \<in> set (collected busy ?E is ch)"
    then obtain j where "j \<in> set is" "a \<in> set (ch j)" by (auto simp: in_collected)
    then show "out s1 a = out s a" using same [of j a] chj [of j] i(3) by auto
  qed
  have "swept busy (old s1) is ?ch j = swept busy ?E (i # is) ch j" if "j < N" for j
  proof (cases "j \<in> set is")
    case True
    have "filter (\<lambda>a. \<not> old s1 a) (ch j) = filter (\<lambda>a. \<not> ?E a) (ch j)"
      by (rule filter_cong [OF refl]) (use same [OF that] chj [OF True] in auto)
    then show ?thesis using True chj [OF True] by (simp add: swept_def)
  qed (auto simp: swept_def)
  then have "table (swept busy ?E (i # is) ch) s2" using s2(2) by (simp add: table_def)
  moreover have "log s2 = log s @ concat (map (out s) (collected busy ?E (i # is) ch))"
    using s2(4) s1(4) unfolding coll outs collected_Cons by simp
  moreover have "run fuel busy (i # is) s = Some (Inr s2)" using s1(1) s2(1) by simp
  moreover have "rel s s2" using s1(3) s2(3) rel_trans by blast
  moreover have "(good s b \<longrightarrow> good s2 b) \<and> out s2 b = out s b \<and> old s2 b = old s b" if "b \<notin> set (collected busy ?E (i # is) ch)" for b
    using s1(5) [of b] s2(5) [of b] that unfolding coll collected_Cons by simp
  ultimately show ?case by blast
qed

end

end
