(* ===== verification/FragAge.thy ===== *)
theory FragAge
  imports DefragTheorems Sweep
begin

text \<open>
  The ageing of the fragment table, \<open>Frag_defrag_timeout\<close> of \<open>decode-defrag.c\<close>: the table is swept like the
  flow table, and a control block that is too old is released together with the fragments it has collected.
\<close>

section \<open>What a release needs and does\<close>

definition frag_expired :: "u64 \<Rightarrow> u64 \<Rightarrow> dp_state \<Rightarrow> nat \<Rightarrow> bool" where
  "frag_expired rate now s f \<longleftrightarrow> now > c_cycle (fcbs s f) \<and> now - c_cycle (fcbs s f) > FRAG_MAX_TIMEOUT rate"

text \<open>A control block that can be released: it and its fragments come from the descriptor pool, the fragments lie in software buffers.\<close>

definition frag_good :: "dp_state \<Rightarrow> nat \<Rightarrow> bool" where
  "frag_good s f \<longleftrightarrow> mem_inv (mem s) \<and> mbuf_ok f s \<and> (\<forall>a \<in> set (c_fragments (fcbs s f)). sw_home (mem s) (mbufs s a) \<and> mbuf_ok a s)"

definition frag_out :: "dp_state \<Rightarrow> nat \<Rightarrow> nat list" where
  "frag_out s f = c_fragments (fcbs s f) @ [f]"

definition frag_rel :: "dp_state \<Rightarrow> dp_state \<Rightarrow> bool" where
  "frag_rel s s' \<longleftrightarrow> (mem_inv (mem s) \<longrightarrow> mem_inv (mem s')) \<and> same_slices (mem s) (mem s') \<and> mctrl s' = mctrl s \<and> tx_done s' = tx_done s \<and>
     (\<forall>b. mbufs s' b = mbufs s b \<or> mbufs s' b = (mbufs s b)\<lparr>flow := None\<rparr>)"

lemma same_slices_refl [simp]: "same_slices k k"
  by (simp add: same_slices_def)

lemma frag_rel_refl [simp]: "frag_rel s s"
  by (simp add: frag_rel_def)

lemma frag_rel_trans:
  assumes "frag_rel s s'" "frag_rel s' s''"
  shows "frag_rel s s''"
proof -
  have "mbufs s'' b = mbufs s b \<or> mbufs s'' b = (mbufs s b)\<lparr>flow := None\<rparr>" for b
    using assms unfolding frag_rel_def by (metis (no_types, lifting) mbuf_t.surjective mbuf_t.update_convs(27))
  with assms show ?thesis by (simp add: frag_rel_def same_slices_def)
qed

lemma mbuf_ok_rel: "frag_rel s s' \<Longrightarrow> mbuf_ok a s' = mbuf_ok a s"
  by (simp add: frag_rel_def mbuf_ok_def)

lemma sw_home_rel: "frag_rel s s' \<Longrightarrow> sw_home (mem s) (mbufs s a) \<Longrightarrow> sw_home (mem s') (mbufs s' a)"
  using sw_home_slices [of "mem s" "mem s'"] unfolding frag_rel_def by (metis sw_home_flow)

lemma destroys_log:
  fixes s :: dp_state
  assumes "mem_inv (mem s)" "\<And>a. a \<in> set xs \<Longrightarrow> sw_home (mem s) (mbufs s a) \<and> mbuf_ok a s"
  shows "\<exists>s'. rfold packet_destroy_all xs s = Inr s' \<and> frag_rel s s' \<and> fcbs s' = fcbs s \<and> fh s' = fh s \<and> host_freed s' = host_freed s @ xs"
  using assms
proof (induction xs arbitrary: s)
  case (Cons a xs)
  obtain s1 where s1: "packet_destroy_all a s = Inr s1" "mem_inv (mem s1)" "same_slices (mem s) (mem s1)" "frag_frame {a} s s1" "mbufs s1 a = (mbufs s a)\<lparr>flow := None\<rparr>"
    using destroy_ok [OF Cons.prems(1), of a] Cons.prems(2) by auto
  have hf: "host_freed s1 = host_freed s @ [a]" using packet_destroy_all_frame(3) [OF s1(1)] Cons.prems(2) [of a] by simp
  have "mbufs s1 b = mbufs s b \<or> mbufs s1 b = (mbufs s b)\<lparr>flow := None\<rparr>" for b using s1(4,5) by (cases "b = a") (auto simp: frag_frame_def)
  then have r1: "frag_rel s s1" using s1 by (simp add: frag_rel_def frag_frame_def)
  have "sw_home (mem s1) (mbufs s1 b) \<and> mbuf_ok b s1" if "b \<in> set xs" for b
    using sw_home_rel [OF r1] mbuf_ok_rel [OF r1] Cons.prems(2) [of b] that by simp
  from Cons.IH [OF s1(2) this] obtain s2 where s2: "rfold packet_destroy_all xs s1 = Inr s2" "frag_rel s1 s2" "fcbs s2 = fcbs s1" "fh s2 = fh s1"
    "host_freed s2 = host_freed s1 @ xs" by blast
  with s1(1,4) hf frag_rel_trans [OF r1 s2(2)] show ?case by (simp add: frag_frame_def)
qed simp

lemma reap_fcb_ok:
  assumes g: "frag_good s a" and d: "hlist_del a (fh s) = Inr H"
  shows "\<exists>s'. reap_fcb a s = Inr s' \<and> fh s' = H \<and> host_freed s' = host_freed s @ frag_out s a \<and> frag_rel s s' \<and>
    fcbs s' = (fcbs s)(a := (fcbs s a)\<lparr>c_fragments := []\<rparr>)"
proof -
  let ?s = "s\<lparr>fh := H\<rparr>"
  have m: "mem_inv (mem ?s)" "\<And>x. x \<in> set (c_fragments (fcbs s a)) \<Longrightarrow> sw_home (mem ?s) (mbufs ?s x) \<and> mbuf_ok x ?s"
    using g by (auto simp: frag_good_def mbuf_ok_def)
  obtain s1 where s1: "rfold packet_destroy_all (c_fragments (fcbs s a)) ?s = Inr s1" "frag_rel ?s s1" "fcbs s1 = fcbs s" "fh s1 = H"
    "host_freed s1 = host_freed s @ c_fragments (fcbs s a)" using destroys_log [OF m] by auto
  let ?t = "upd_fcb a (\<lambda>c. c\<lparr>c_fragments := []\<rparr>) s1"
  have ok: "magic (mctrl ?t a) = MEM_POOL_MAGIC_NUM" "unat (pool_id (mctrl ?t a)) = FPA_POOL_ID_HOST_MBUF"
    using g s1(2) by (simp_all add: frag_good_def mbuf_ok_def frag_rel_def upd_fcb_def)
  have "reap_fcb a s = Inr (?t\<lparr>host_freed := host_freed ?t @ [a]\<rparr>)"
    using d s1(1) ok by (simp add: reap_fcb_def Frag_defrag_freefrags_def fcb_free_def)
  then show ?thesis using s1 by (auto simp: frag_out_def frag_rel_def upd_fcb_def)
qed

interpretation frag_age: ageing fh "\<lambda>H s. s\<lparr>fh := H\<rparr>" "\<lambda>s. s\<lparr>del_fcb := del_fcb s + 1\<rparr>" "frag_expired rate now" frag_good frag_out host_freed
  "age_fcb rate now" reap_fcb frag_rel FRAG_BUCKET_NUM frag_timeout_head for rate now
proof
  show "age_fcb rate now a s = (if frag_expired rate now s a then rbind (hlist_del a (fh s)) (\<lambda>H. rbind (hlist_add_head a frag_timeout_head H) (\<lambda>H'.
      Inr (s\<lparr>fh := H', del_fcb := del_fcb (s\<lparr>fh := H'\<rparr>) + 1\<rparr>))) else Inr s)" for a s
    by (simp add: age_fcb_def frag_expired_def)
  show "\<exists>s'. reap_fcb a s = Inr s' \<and> fh s' = H \<and> host_freed s' = host_freed s @ frag_out s a \<and> frag_rel s s' \<and>
      (\<forall>b. b \<noteq> a \<longrightarrow> (frag_good s b \<longrightarrow> frag_good s' b) \<and> frag_out s' b = frag_out s b \<and> frag_expired rate now s' b = frag_expired rate now s b)"
    if g: "frag_good s a" "hlist_del a (fh s) = Inr H" for s a H
  proof -
    obtain s' where s': "reap_fcb a s = Inr s'" "fh s' = H" "host_freed s' = host_freed s @ frag_out s a" "frag_rel s s'"
      "fcbs s' = (fcbs s)(a := (fcbs s a)\<lparr>c_fragments := []\<rparr>)" using reap_fcb_ok [OF g] by blast
    have "frag_good s' b" if "b \<noteq> a" "frag_good s b" for b
      using that s'(4,5) sw_home_rel [OF s'(4)] mbuf_ok_rel [OF s'(4)] by (simp add: frag_good_def frag_rel_def)
    with s' show ?thesis by (intro exI [of _ s']) (simp add: frag_out_def frag_expired_def)
  qed
  show "frag_rel s s''" if "frag_rel s s'" "frag_rel s' s''" for s s' s'' by (rule frag_rel_trans [OF that])
qed (auto simp: frag_expired_def frag_good_def frag_out_def frag_rel_def mbuf_ok_def frag_timeout_head_def fun_eq_iff)

section \<open>A run of the timer\<close>

definition frag_chains :: "(nat \<Rightarrow> nat list) \<Rightarrow> dp_state \<Rightarrow> bool" where
  "frag_chains ch s \<longleftrightarrow> (\<forall>i < FRAG_BUCKET_NUM. hl (fh s) i (ch i)) \<and>
     (\<forall>i < FRAG_BUCKET_NUM. \<forall>j < FRAG_BUCKET_NUM. i \<noteq> j \<longrightarrow> set (ch i) \<inter> set (ch j) = {})"

lemma frag_table: "frag_age.table = frag_chains"
  by (simp add: fun_eq_iff frag_age.table_def frag_chains_def)

lemma frag_chains_cong: "frag_chains ch s \<Longrightarrow> (\<And>i. i < FRAG_BUCKET_NUM \<Longrightarrow> ch' i = ch i) \<Longrightarrow> frag_chains ch' s"
  by (simp add: frag_chains_def)

lemma frag_age_from_run: "frag_age_from fuel busy rate now is s = frag_age.run rate now fuel busy is s"
  by (induction "is" arbitrary: s) (simp_all add: frag_age_bucket_def frag_age.bucket_def fbind_def Let_def split: option.splits sum.splits)

text \<open>
  C25. A run of the fragment timer over a table with chains shorter than the fuel ends without a fault. In every bucket whose lock
  was free exactly the datagrams that got no fragment for more than twenty seconds leave the table, the rest stays in order; each removed
  control block is released after all its fragments, once, and the buffers of the fragments go back to their pools, which keep
  their invariant.
\<close>

theorem Frag_defrag_timeout_correct:
  assumes tab: "frag_chains ch s" and fuel: "\<And>i. i < FRAG_BUCKET_NUM \<Longrightarrow> length (ch i) < fuel" and mi: "mem_inv (mem s)"
    and all_good: "\<forall>i < FRAG_BUCKET_NUM. \<forall>f \<in> set (ch i). frag_good s f"
  shows "\<exists>s'. Frag_defrag_timeout fuel busy rate now s = Some (Inr s') \<and> mem_inv (mem s') \<and>
    frag_chains (\<lambda>i. if busy i then ch i else filter (\<lambda>f. \<not> frag_expired rate now s f) (ch i)) s' \<and>
    host_freed s' = host_freed s @ concat (map (\<lambda>f. c_fragments (fcbs s f) @ [f])
      (concat (map (\<lambda>i. if busy i then [] else rev (filter (frag_expired rate now s) (ch i))) [0..<FRAG_BUCKET_NUM]))) \<and>
    (\<forall>i < FRAG_BUCKET_NUM. \<forall>f \<in> set (ch i). busy i \<or> \<not> frag_expired rate now s f \<longrightarrow> frag_good s' f \<and> c_fragments (fcbs s' f) = c_fragments (fcbs s f))"
proof -
  have good: "\<And>i f. i < FRAG_BUCKET_NUM \<Longrightarrow> f \<in> set (ch i) \<Longrightarrow> frag_good s f" using all_good by blast
  let ?is = "[0..<FRAG_BUCKET_NUM]" and ?E = "frag_expired rate now s"
  let ?coll = "collected busy ?E ?is ch"
  obtain s' where s': "frag_age.run rate now fuel busy ?is s = Some (Inr s')" "frag_chains (swept busy ?E ?is ch) s'" "frag_rel s s'"
    "host_freed s' = host_freed s @ concat (map (frag_out s) ?coll)"
    "\<And>b. b \<notin> set ?coll \<Longrightarrow> (frag_good s b \<longrightarrow> frag_good s' b) \<and> frag_out s' b = frag_out s b"
    using frag_age.run_ok [of ch s fuel ?is rate now busy, unfolded frag_table, OF tab fuel distinct_upt] good by (auto simp: atLeast0LessThan)
  have coll: "concat (map (\<lambda>i. if busy i then [] else rev (filter E (ch i))) js) = collected busy E js ch" for E js
    by (induction js) (simp_all add: collected_def)
  have "frag_chains (\<lambda>i. if busy i then ch i else filter (\<lambda>f. \<not> ?E f) (ch i)) s'" 
    by (rule frag_chains_cong [OF s'(2)]) (simp add: swept_def)
  moreover have "frag_good s' f \<and> c_fragments (fcbs s' f) = c_fragments (fcbs s f)"
    if "i < FRAG_BUCKET_NUM" "f \<in> set (ch i)" "busy i \<or> \<not> ?E f" for i f
  proof -
    have "f \<notin> set ?coll"
    proof
      assume "f \<in> set ?coll"
      then obtain j where "j < FRAG_BUCKET_NUM" "\<not> busy j" "f \<in> set (ch j)" "?E f" by (auto simp: in_collected)
      with tab that show False unfolding frag_chains_def by (cases "i = j") blast+
    qed
    with s'(5) [of f] good [OF that(1,2)] show ?thesis by (simp add: frag_out_def)
  qed
  ultimately show ?thesis using s'(1,3,4) mi coll
    by (simp add: Frag_defrag_timeout_def frag_age_from_run frag_rel_def frag_out_def [abs_def])
qed

text \<open>A table with one datagram: control block 2 in bucket 0, last touched at time 0, with fragment 1.\<close>

definition aged_state :: dp_state where
  "aged_state = frag_state\<lparr>fh := \<lparr>first = \<lambda>h. if h = 0 then Ref 2 else Null, nxt = \<lambda>_. Null, pprev = \<lambda>_. PHead 0\<rparr>,
     fcbs := (\<lambda>_. (new_fcb zero_mbuf)\<lparr>c_fragments := [1]\<rparr>)\<rparr>"

lemma aged_state_ok:
  "frag_chains ((\<lambda>_. [])(0 := [2])) aged_state" "mem_inv (mem aged_state)" "frag_good aged_state 2" "frag_expired 1 100 aged_state 2"
  using one_frag_ok tiny_mem_inv
  by (auto simp: frag_chains_def aged_state_def hl_def frag_good_def frag_state_def busy_tx_def mbuf_ok_def FPA_POOL_ID_HOST_MBUF_def frag_expired_def
      new_fcb_def FRAG_MAX_TIMEOUT_def)

theorem Frag_defrag_timeout_correct_witness:
  "\<exists>s'. Frag_defrag_timeout 2 (\<lambda>_. False) 1 100 aged_state = Some (Inr s') \<and> host_freed s' = [1, 2] \<and> frag_chains (\<lambda>_. []) s'"
proof -
  let ?ch = "(\<lambda>_. [])(0 := [2]) :: nat \<Rightarrow> nat list" and ?E = "frag_expired 1 100 aged_state"
  have 1: "\<And>i. i < FRAG_BUCKET_NUM \<Longrightarrow> length (?ch i) < 2" "\<forall>i < FRAG_BUCKET_NUM. \<forall>f \<in> set (?ch i). frag_good aged_state f"
    using aged_state_ok(3) by (auto split: if_splits)
  obtain s' where s': "Frag_defrag_timeout 2 (\<lambda>_. False) 1 100 aged_state = Some (Inr s')" "frag_chains (\<lambda>i. filter (\<lambda>f. \<not> ?E f) (?ch i)) s'"
    "host_freed s' = host_freed aged_state @ concat (map (\<lambda>f. c_fragments (fcbs aged_state f) @ [f]) (concat (map (\<lambda>i. rev (filter ?E (?ch i))) [0..<FRAG_BUCKET_NUM])))"
    using Frag_defrag_timeout_correct [OF aged_state_ok(1) 1(1) aged_state_ok(2) 1(2), where busy = "\<lambda>_. False" and rate = 1 and now = 100, unfolded if_False] by blast
  have "0 < FRAG_BUCKET_NUM" by (simp add: FRAG_BUCKET_NUM_def)
  then have n: "[0..<FRAG_BUCKET_NUM] = 0 # [Suc 0..<FRAG_BUCKET_NUM]" by (rule upt_conv_Cons)
  have "concat (map (\<lambda>i. rev (filter ?E (?ch i))) [Suc 0..<FRAG_BUCKET_NUM]) = []" by auto
  then have "host_freed s' = [1, 2]" using s'(3) aged_state_ok(4) unfolding n by (simp add: aged_state_def frag_state_def)
  moreover have "frag_chains (\<lambda>_. []) s'" by (rule frag_chains_cong [OF s'(2)]) (use aged_state_ok(4) in auto)
  ultimately show ?thesis using s'(1) by blast
qed

end
