(* ===== verification/Clist.thy ===== *)
theory Clist
  imports Hlist
begin

text \<open>
  The circular lists of \<open>dataplane/src/include/list.h\<close> at the level of pointers: a list is a head and its
  nodes, each with \<open>next\<close> and \<open>prev\<close>. The representation \<open>cl\<close> says that a head and its nodes form a ring
  of distinct nodes; with it \<open>list_add\<close> and \<open>list_del\<close> meet the contract \<open>chain_store\<close> of the hash chains.
\<close>

section \<open>Store\<close>

text \<open>\<open>struct list_head *\<close>: heads and nodes are named by numbers; \<open>LPoison\<close> is \<open>LIST_POISON1\<close> and \<open>LIST_POISON2\<close>.\<close>

datatype lptr = LNull | LPoison | LHead nat | LNode nat

record lstore =
  lnext :: "lptr \<Rightarrow> lptr"
  lprev :: "lptr \<Rightarrow> lptr"

definition deref :: "lptr \<Rightarrow> 'a \<Rightarrow> 'a res" where
  "deref p a = (case p of LNull \<Rightarrow> Inl NullDeref | LPoison \<Rightarrow> Inl OutOfBounds | _ \<Rightarrow> Inr a)"

definition get_next :: "lptr \<Rightarrow> lstore \<Rightarrow> lptr res" where
  "get_next p S = deref p (lnext S p)"

definition get_prev :: "lptr \<Rightarrow> lstore \<Rightarrow> lptr res" where
  "get_prev p S = deref p (lprev S p)"

definition set_next :: "lptr \<Rightarrow> lptr \<Rightarrow> lstore \<Rightarrow> lstore res" where
  "set_next p v S = deref p (S\<lparr>lnext := (lnext S)(p := v)\<rparr>)"

definition set_prev :: "lptr \<Rightarrow> lptr \<Rightarrow> lstore \<Rightarrow> lstore res" where
  "set_prev p v S = deref p (S\<lparr>lprev := (lprev S)(p := v)\<rparr>)"

section \<open>Operations\<close>

definition INIT_LIST_HEAD :: "lptr \<Rightarrow> lstore \<Rightarrow> lstore res" where
  "INIT_LIST_HEAD p S = rbind (set_next p p S) (set_prev p p)"

definition list_add_raw :: "lptr \<Rightarrow> lptr \<Rightarrow> lptr \<Rightarrow> lstore \<Rightarrow> lstore res" where
  "list_add_raw new prev next S =
     rbind (set_prev next new S) (\<lambda>S. rbind (set_next new next S) (\<lambda>S. rbind (set_prev new prev S) (set_next prev new)))"

definition list_add :: "lptr \<Rightarrow> lptr \<Rightarrow> lstore \<Rightarrow> lstore res" where
  "list_add new head S = rbind (get_next head S) (\<lambda>n. list_add_raw new head n S)"

definition list_add_tail :: "lptr \<Rightarrow> lptr \<Rightarrow> lstore \<Rightarrow> lstore res" where
  "list_add_tail new head S = rbind (get_prev head S) (\<lambda>p. list_add_raw new p head S)"

definition list_del_raw :: "lptr \<Rightarrow> lptr \<Rightarrow> lstore \<Rightarrow> lstore res" where
  "list_del_raw prev next S = rbind (set_prev next prev S) (set_next prev next)"

definition list_unlink :: "lptr \<Rightarrow> lstore \<Rightarrow> lstore res" where
  "list_unlink entry S = rbind (get_prev entry S) (\<lambda>p. rbind (get_next entry S) (\<lambda>n. list_del_raw p n S))"

definition list_del :: "lptr \<Rightarrow> lstore \<Rightarrow> lstore res" where
  "list_del entry S = rbind (list_unlink entry S) (\<lambda>S. rbind (set_next entry LPoison S) (set_prev entry LPoison))"

definition list_del_init :: "lptr \<Rightarrow> lstore \<Rightarrow> lstore res" where
  "list_del_init entry S = rbind (list_unlink entry S) (INIT_LIST_HEAD entry)"

definition list_move :: "lptr \<Rightarrow> lptr \<Rightarrow> lstore \<Rightarrow> lstore res" where
  "list_move entry head S = rbind (list_unlink entry S) (list_add entry head)"

definition list_move_tail :: "lptr \<Rightarrow> lptr \<Rightarrow> lstore \<Rightarrow> lstore res" where
  "list_move_tail entry head S = rbind (list_unlink entry S) (list_add_tail entry head)"

definition list_empty :: "lptr \<Rightarrow> lstore \<Rightarrow> bool res" where
  "list_empty head S = rbind (get_next head S) (\<lambda>n. Inr (n = head))"

definition list_empty_careful :: "lptr \<Rightarrow> lstore \<Rightarrow> bool res" where
  "list_empty_careful head S = rbind (get_next head S) (\<lambda>n. rbind (get_prev head S) (\<lambda>p. Inr (n = head \<and> n = p)))"

definition list_splice_raw :: "lptr \<Rightarrow> lptr \<Rightarrow> lstore \<Rightarrow> lstore res" where
  "list_splice_raw list head S =
     rbind (get_next list S) (\<lambda>first. rbind (get_prev list S) (\<lambda>last. rbind (get_next head S) (\<lambda>at.
     rbind (set_prev first head S) (\<lambda>S. rbind (set_next head first S) (\<lambda>S. rbind (set_next last at S) (set_prev at last))))))"

definition list_splice :: "lptr \<Rightarrow> lptr \<Rightarrow> lstore \<Rightarrow> lstore res" where
  "list_splice list head S = rbind (list_empty list S) (\<lambda>e. if e then Inr S else list_splice_raw list head S)"

definition list_splice_init :: "lptr \<Rightarrow> lptr \<Rightarrow> lstore \<Rightarrow> lstore res" where
  "list_splice_init list head S =
     rbind (list_empty list S) (\<lambda>e. if e then Inr S else rbind (list_splice_raw list head S) (INIT_LIST_HEAD list))"

lemmas list_ops = INIT_LIST_HEAD_def list_add_raw_def list_add_def list_add_tail_def list_del_raw_def list_unlink_def list_del_def
  list_empty_def list_splice_raw_def get_next_def get_prev_def set_next_def set_prev_def

lemma deref_simps [simp]: "deref (LHead k) a = Inr a" "deref (LNode n) a = Inr a" "deref LNull a = Inl NullDeref" "deref LPoison a = Inl OutOfBounds"
  by (simp_all add: deref_def)

section \<open>Rings\<close>

fun links :: "lstore \<Rightarrow> lptr \<Rightarrow> nat list \<Rightarrow> lptr \<Rightarrow> bool" where
  "links S p [] e \<longleftrightarrow> lnext S p = e \<and> lprev S e = p"
| "links S p (x # xs) e \<longleftrightarrow> lnext S p = LNode x \<and> lprev S (LNode x) = p \<and> links S (LNode x) xs e"

definition cl :: "lstore \<Rightarrow> nat \<Rightarrow> nat list \<Rightarrow> bool" where
  "cl S k xs \<longleftrightarrow> distinct xs \<and> links S (LHead k) xs (LHead k)"

lemma links_append: "links S p (xs @ y # ys) e \<longleftrightarrow> links S p xs (LNode y) \<and> links S (LNode y) ys e"
  by (induction xs arbitrary: p) auto

lemma links_cong:
  assumes "\<And>q. q = p \<or> q \<in> LNode ` set xs \<Longrightarrow> lnext S' q = lnext S q" "\<And>q. q = e \<or> q \<in> LNode ` set xs \<Longrightarrow> lprev S' q = lprev S q"
  shows "links S' p xs e = links S p xs e"
  using assms by (induction xs arbitrary: p) auto

text \<open>The pointer behind the front of a list and the one before its end.\<close>

definition front :: "nat list \<Rightarrow> lptr \<Rightarrow> lptr" where
  "front xs e = (case xs of [] \<Rightarrow> e | x # _ \<Rightarrow> LNode x)"

definition rear :: "lptr \<Rightarrow> nat list \<Rightarrow> lptr" where
  "rear p xs = (if xs = [] then p else LNode (last xs))"

lemma links_ends: "links S p xs e \<Longrightarrow> lnext S p = front xs e \<and> lprev S e = rear p xs"
proof (induction xs arbitrary: p)
  case (Cons x xs)
  then show ?case by (cases xs) (simp_all add: front_def rear_def)
qed (simp add: front_def rear_def)

lemma list_add_eq:
  assumes "lnext S (LHead k) = front xs (LHead k)"
  shows "list_add (LNode n) (LHead k) S = Inr (S\<lparr>lprev := (lprev S)(front xs (LHead k) := LNode n, LNode n := LHead k),
    lnext := (lnext S)(LNode n := front xs (LHead k), LHead k := LNode n)\<rparr>)"
  using assms by (cases xs) (simp_all add: list_ops front_def)

lemma list_add_ok:
  assumes c: "cl S k xs" and n: "n \<notin> set xs"
  shows "\<exists>S'. list_add (LNode n) (LHead k) S = Inr S' \<and> cl S' k (n # xs) \<and>
    (\<forall>j ys. j \<noteq> k \<longrightarrow> n \<notin> set ys \<longrightarrow> set xs \<inter> set ys = {} \<longrightarrow> cl S j ys \<longrightarrow> cl S' j ys)"
proof -
  let ?S = "S\<lparr>lprev := (lprev S)(front xs (LHead k) := LNode n, LNode n := LHead k),
    lnext := (lnext S)(LNode n := front xs (LHead k), LHead k := LNode n)\<rparr>"
  have l: "links S (LHead k) xs (LHead k)" "distinct xs" using c by (simp_all add: cl_def)
  have eq: "list_add (LNode n) (LHead k) S = Inr ?S" by (rule list_add_eq) (use links_ends [OF l(1)] in simp)
  have "links ?S (LNode n) xs (LHead k)"
  proof (cases xs)
    case (Cons y ys)
    have "links ?S (LNode y) ys (LHead k) = links S (LNode y) ys (LHead k)"
      by (rule links_cong) (use Cons n l(2) in \<open>auto simp: front_def\<close>)
    with Cons l n show ?thesis by (auto simp: front_def)
  qed (simp add: front_def)
  then have "cl ?S k (n # xs)" using l(2) n by (simp add: cl_def)
  moreover have "cl ?S j ys" if "j \<noteq> k" "n \<notin> set ys" "set xs \<inter> set ys = {}" "cl S j ys" for j ys
  proof -
    have "links ?S (LHead j) ys (LHead j) = links S (LHead j) ys (LHead j)"
      by (rule links_cong) (use that in \<open>auto simp: front_def split: list.splits\<close>)
    with that(4) show ?thesis by (simp add: cl_def)
  qed
  ultimately show ?thesis using eq by blast
qed

lemma list_del_eq:
  assumes "lprev S (LNode n) = rear (LHead k) ps" "lnext S (LNode n) = front qs (LHead k)"
  shows "list_del (LNode n) S = Inr (S\<lparr>lprev := (lprev S)(front qs (LHead k) := rear (LHead k) ps, LNode n := LPoison),
    lnext := (lnext S)(rear (LHead k) ps := front qs (LHead k), LNode n := LPoison)\<rparr>)"
  using assms by (cases qs; cases "ps = []") (simp_all add: list_ops front_def rear_def)

lemma list_del_ok:
  assumes c: "cl S k (ps @ n # qs)"
  shows "\<exists>S'. list_del (LNode n) S = Inr S' \<and> cl S' k (ps @ qs) \<and>
    (\<forall>j ys. j \<noteq> k \<longrightarrow> set (ps @ n # qs) \<inter> set ys = {} \<longrightarrow> cl S j ys \<longrightarrow> cl S' j ys)"
proof -
  let ?S = "S\<lparr>lprev := (lprev S)(front qs (LHead k) := rear (LHead k) ps, LNode n := LPoison),
    lnext := (lnext S)(rear (LHead k) ps := front qs (LHead k), LNode n := LPoison)\<rparr>"
  have d: "distinct (ps @ n # qs)" and l: "links S (LHead k) ps (LNode n)" "links S (LNode n) qs (LHead k)"
    using c by (simp_all add: cl_def links_append)
  have eq: "list_del (LNode n) S = Inr ?S" by (rule list_del_eq) (use links_ends [OF l(1)] links_ends [OF l(2)] in simp_all)
  have "links ?S (LHead k) (ps @ qs) (LHead k)"
  proof (cases qs)
    case Nil
    show ?thesis
    proof (cases ps rule: rev_cases)
      case (snoc ps' m)
      have "links ?S (LHead k) ps' (LNode m) = links S (LHead k) ps' (LNode m)"
        by (rule links_cong) (use Nil snoc d in \<open>auto simp: front_def rear_def\<close>)
      with Nil snoc l d show ?thesis by (simp add: links_append front_def rear_def)
    qed (simp add: Nil front_def rear_def)
  next
    case (Cons y ys)
    have lp: "last ps \<notin> set qs" if "ps \<noteq> []" using last_in_set [OF that] d by auto
    have q: "links ?S (LNode y) ys (LHead k) = links S (LNode y) ys (LHead k)"
      by (rule links_cong) (use Cons d lp in \<open>auto simp: front_def rear_def split: if_splits\<close>)
    show ?thesis
    proof (cases ps rule: rev_cases)
      case (snoc ps' m)
      have "links ?S (LHead k) ps' (LNode m) = links S (LHead k) ps' (LNode m)"
        by (rule links_cong) (use Cons snoc d in \<open>auto simp: front_def rear_def\<close>)
      with Cons snoc l q d show ?thesis by (auto simp: links_append front_def rear_def)
    qed (use Cons l q d in \<open>simp add: front_def rear_def\<close>)
  qed
  then have "cl ?S k (ps @ qs)" using d by (simp add: cl_def)
  moreover have "cl ?S j ys" if "j \<noteq> k" "set (ps @ n # qs) \<inter> set ys = {}" "cl S j ys" for j ys
  proof -
    have lp: "last ps \<notin> set ys" if "ps \<noteq> []" using last_in_set [OF that] \<open>set (ps @ n # qs) \<inter> set ys = {}\<close> by auto
    have "links ?S (LHead j) ys (LHead j) = links S (LHead j) ys (LHead j)"
      by (rule links_cong) (use that lp in \<open>auto simp: front_def rear_def split: list.splits\<close>)
    with that(3) show ?thesis by (simp add: cl_def)
  qed
  ultimately show ?thesis using eq by blast
qed

text \<open>The list head of number \<open>k\<close> and its nodes as a store of chains.\<close>

definition cl_add :: "nat \<Rightarrow> nat \<Rightarrow> lstore \<Rightarrow> lstore res" where
  "cl_add n k = list_add (LNode n) (LHead k)"

definition cl_del :: "nat \<Rightarrow> lstore \<Rightarrow> lstore res" where
  "cl_del n = list_del (LNode n)"

lemma cl_del_remove1:
  assumes "cl S k xs" "n \<in> set xs"
  shows "\<exists>S'. cl_del n S = Inr S' \<and> cl S' k (remove1 n xs) \<and>
    (\<forall>j ys. j \<noteq> k \<longrightarrow> set xs \<inter> set ys = {} \<longrightarrow> cl S j ys \<longrightarrow> cl S' j ys)"
proof -
  obtain ps qs where xs: "xs = ps @ n # qs" "n \<notin> set ps" using assms(2) by (metis split_list_first)
  then have "remove1 n xs = ps @ qs" by (simp add: remove1_append)
  with list_del_ok [of S k ps n qs] assms(1) xs(1) show ?thesis by (simp add: cl_del_def)
qed

interpretation clist: chain_store cl cl_add cl_del
proof
  show "distinct xs" if "cl S k xs" for S k xs using that by (simp add: cl_def)
  show "\<exists>S'. cl_add n k S = Inr S' \<and> cl S' k (n # xs)" if "cl S k xs" "n \<notin> set xs" for S k xs n
    using list_add_ok [OF that] by (auto simp: cl_add_def)
  show "cl S' j ys" if "cl S k xs" "cl S j ys" "cl_add n k S = Inr S'" "j \<noteq> k" "n \<notin> set xs" "n \<notin> set ys" "set xs \<inter> set ys = {}"
    for S k xs j ys n S'
    using list_add_ok [OF that(1,5)] that by (auto simp: cl_add_def)
  show "\<exists>S'. cl_del n S = Inr S' \<and> cl S' k (remove1 n xs)" if "cl S k xs" "n \<in> set xs" for S k xs n
    using cl_del_remove1 [OF that] by blast
  show "cl S' j ys" if "cl S k xs" "n \<in> set xs" "cl S j ys" "cl_del n S = Inr S'" "j \<noteq> k" "set xs \<inter> set ys = {}" for S k xs n j ys S'
    using cl_del_remove1 [OF that(1,2)] that by auto
qed

lemma list_empty_cl: "cl S k xs \<Longrightarrow> list_empty (LHead k) S = Inr (xs = [])"
  by (cases xs) (auto simp: cl_def list_ops)

lemma INIT_LIST_HEAD_cl:
  "\<exists>S'. INIT_LIST_HEAD (LHead k) S = Inr S' \<and> cl S' k [] \<and> (\<forall>j ys. j \<noteq> k \<longrightarrow> cl S j ys \<longrightarrow> cl S' j ys)"
proof -
  let ?S = "S\<lparr>lnext := (lnext S)(LHead k := LHead k), lprev := (lprev S)(LHead k := LHead k)\<rparr>"
  have "cl ?S j ys" if "j \<noteq> k" "cl S j ys" for j ys
  proof -
    have "links ?S (LHead j) ys (LHead j) = links S (LHead j) ys (LHead j)" by (rule links_cong) (use that in auto)
    with that(2) show ?thesis by (simp add: cl_def)
  qed
  then show ?thesis by (simp add: list_ops cl_def)
qed

text \<open>Joining two lists: the nodes of the spliced list come first.\<close>

lemma list_splice_cl:
  assumes c: "cl S k xs" "cl S j ys" "j \<noteq> k" "set xs \<inter> set ys = {}"
  shows "\<exists>S'. list_splice (LHead k) (LHead j) S = Inr S' \<and> cl S' j (xs @ ys)"
proof (cases xs rule: rev_cases)
  case Nil
  with c show ?thesis by (auto simp: list_splice_def list_empty_cl [OF c(1)])
next
  case (snoc xs' m)
  obtain x where x: "front xs (LHead k) = LNode x" "x \<in> set xs" using snoc by (cases xs') (auto simp: front_def)
  have lx: "links S (LHead k) xs (LHead k)" "distinct xs" and ly: "links S (LHead j) ys (LHead j)" "distinct ys" using c by (simp_all add: cl_def)
  note ex = links_ends [OF lx(1)] and ey = links_ends [OF ly(1)]
  let ?a = "front ys (LHead j)"
  let ?S = "S\<lparr>lprev := (lprev S)(LNode x := LHead j, ?a := LNode m), lnext := (lnext S)(LHead j := LNode x, LNode m := ?a)\<rparr>"
  have a: "deref ?a r = Inr r" for r :: lstore by (cases ys) (simp_all add: front_def)
  have "list_splice (LHead k) (LHead j) S = Inr ?S"
    using ex ey snoc x(1) a by (simp add: list_splice_def list_empty_cl [OF c(1)] list_ops rear_def)
  moreover have "links ?S (LHead j) (xs' @ [m]) ?a"
  proof (cases xs')
    case Nil
    then show ?thesis using snoc x c(4) by (auto simp: front_def split: list.splits)
  next
    case (Cons y zs)
    then have xy: "x = y" using x snoc by (simp add: front_def)
    have "links ?S (LNode y) zs (LNode m) = links S (LNode y) zs (LNode m)"
      by (rule links_cong) (use snoc Cons xy lx(2) c(4) in \<open>auto simp: front_def split: list.splits\<close>)
    then show ?thesis using Cons snoc lx xy c(4) by (auto simp: links_append front_def split: list.splits)
  qed
  moreover have "links ?S (LNode m) ys (LHead j)"
  proof (cases ys)
    case (Cons y zs)
    have "links ?S (LNode y) zs (LHead j) = links S (LNode y) zs (LHead j)"
      by (rule links_cong) (use snoc x Cons ly(2) c(4) in \<open>auto simp: front_def\<close>)
    then show ?thesis using Cons ly by (simp add: front_def)
  qed (simp add: front_def)
  ultimately have l: "list_splice (LHead k) (LHead j) S = Inr ?S" "links ?S (LHead j) xs ?a" "links ?S (LNode m) ys (LHead j)"
    using snoc by simp_all
  have "links ?S (LHead j) (xs @ ys) (LHead j)"
  proof (cases ys)
    case (Cons y zs)
    with l(2,3) show ?thesis by (simp add: links_append front_def)
  qed (use l(2) in \<open>simp add: front_def\<close>)
  then have "cl ?S j (xs @ ys)" using lx(2) ly(2) c(4) by (simp add: cl_def)
  with l(1) show ?thesis by blast
qed

end
