(* ===== verification/SosMalloc.thy ===== *)
theory SosMalloc
  imports Clist MemPool
begin

text \<open>
  The allocator of small objects, \<open>dataplane/src/common/sos_malloc.c\<close>: a region of memory is cut into blocks
  of slices of one size, the slices of a size hang in four circular lists, and an empty list makes the
  allocator cut another block. Addresses are natural numbers. The list head of chain \<open>i\<close> of size \<open>c\<close> has
  the number \<open>head_no c i\<close>. The size of the control structure at the front of the region contains locks of
  the SDK and is the parameter \<open>region_size\<close>.
\<close>

section \<open>State\<close>

record slice_head =
  headmagic :: u32
  slice_type :: u32
  subchain_id :: u8
  sref :: u8
  tailmagic :: u32

record sos_chain =
  chain_total :: u32
  chain_free :: u32

record sos_block =
  b_type :: nat
  b_start :: nat
  b_len :: u32

record sos_state =
  r_start :: nat
  total_size :: u32
  current_size :: u32
  current_start :: nat
  block_num :: u32
  blocks :: "sos_block list"
  gindex :: "nat \<Rightarrow> u32"
  schain :: "nat \<Rightarrow> sos_chain"
  ls :: lstore
  slice :: "nat \<Rightarrow> slice_head"

definition SOS_SIZE_NUM :: nat where
  "SOS_SIZE_NUM = 12"

text \<open>The array has \<open>SOS_SIZE_NUM\<close> entries and eleven initialisers, so the last entry is zero.\<close>

definition sos_mem_size :: "(u32 \<times> u32) list" where
  "sos_mem_size = [(16, 4096), (32, 4096), (64, 4096), (96, 2048), (128, 2048), (256, 1024), (512, 512), (1024, 256),
     (2048, 128), (4096, 64), (8192, 32), (0, 0)]"

definition SOS_MEM_POOL_SIZE :: u32 where
  "SOS_MEM_POOL_SIZE = 1 * 1024 * 1024 * 50"

definition SOS_MEM_CHAIN_INTERNAL_NUM :: nat where
  "SOS_MEM_CHAIN_INTERNAL_NUM = 4"

definition SOS_MEM_TAIL_MAGIC_SIZE :: u32 where
  "SOS_MEM_TAIL_MAGIC_SIZE = 4"

definition SOS_MEM_HEAD_MAGIC :: u32 where
  "SOS_MEM_HEAD_MAGIC = 0x87654321"

definition SOS_MEM_TAIL_MAGIC :: u32 where
  "SOS_MEM_TAIL_MAGIC = 0x12345678"

definition SOS_MEM_SLICE_HEAD_SIZE :: u32 where
  "SOS_MEM_SLICE_HEAD_SIZE = 32"

definition SOS_MEM_BLOCK_MAX :: nat where
  "SOS_MEM_BLOCK_MAX = 4096"

definition head_no :: "nat \<Rightarrow> nat \<Rightarrow> nat" where
  "head_no c i = SOS_MEM_CHAIN_INTERNAL_NUM * c + i"

section \<open>Cutting a block\<close>

text \<open>The body of the inner loop: slice \<open>j\<close> of chain \<open>i\<close> at \<open>start + i*j*size\<close>, computed in 32 bits.\<close>

definition slice_addr :: "nat \<Rightarrow> u32 \<Rightarrow> nat \<Rightarrow> nat \<Rightarrow> nat" where
  "slice_addr base sz i j = base + unat (of_nat (i * j) * sz)"

definition link_slice :: "nat \<Rightarrow> nat \<Rightarrow> u32 \<Rightarrow> nat \<Rightarrow> nat \<Rightarrow> sos_state \<Rightarrow> sos_state res" where
  "link_slice c base sz i j s =
     (let a = slice_addr base sz i j;
          h = (slice s a)\<lparr>headmagic := SOS_MEM_HEAD_MAGIC, subchain_id := of_nat i, slice_type := of_nat c, tailmagic := SOS_MEM_TAIL_MAGIC\<rparr>
      in rbind (list_add (LNode a) (LHead (head_no c i)) (ls s)) (\<lambda>L. Inr (s\<lparr>slice := (slice s)(a := h), ls := L\<rparr>)))"

definition link_chain :: "nat \<Rightarrow> nat \<Rightarrow> u32 \<Rightarrow> nat \<Rightarrow> nat \<Rightarrow> sos_state \<Rightarrow> sos_state res" where
  "link_chain c base sz n i s = rfold (link_slice c base sz i) [0..<n] s"

definition sos_mem_block_ctrl_init :: "nat \<Rightarrow> nat \<Rightarrow> u32 \<Rightarrow> nat \<Rightarrow> sos_state \<Rightarrow> sos_state res" where
  "sos_mem_block_ctrl_init c base sz initnum s =
     rfold (\<lambda>i s.
       let s1 = s\<lparr>schain := (schain s)(head_no c i := \<lparr>chain_total = of_nat initnum, chain_free = of_nat initnum\<rparr>)\<rparr> in
       rbind (INIT_LIST_HEAD (LHead (head_no c i)) (ls s1)) (\<lambda>L.
       link_chain c base sz (initnum div SOS_MEM_CHAIN_INTERNAL_NUM) i (s1\<lparr>ls := L\<rparr>))) [0..<SOS_MEM_CHAIN_INTERNAL_NUM] s"

definition sos_mem_block_replenish :: "nat \<Rightarrow> nat \<Rightarrow> u32 \<Rightarrow> nat \<Rightarrow> sos_state \<Rightarrow> sos_state res" where
  "sos_mem_block_replenish c base sz initnum s =
     rfold (\<lambda>i s.
       let k = head_no c i;
           s1 = s\<lparr>schain := (schain s)(k := \<lparr>chain_total = chain_total (schain s k) + of_nat initnum, chain_free = chain_free (schain s k) + of_nat initnum\<rparr>)\<rparr> in
       link_chain c base sz (initnum div SOS_MEM_CHAIN_INTERNAL_NUM) i s1) [0..<SOS_MEM_CHAIN_INTERNAL_NUM] s"

definition slice_whole :: "nat \<Rightarrow> u32" where
  "slice_whole c = fst (sos_mem_size ! c) + SOS_MEM_SLICE_HEAD_SIZE + SOS_MEM_TAIL_MAGIC_SIZE"

definition request_size :: "nat \<Rightarrow> u32" where
  "request_size c = slice_whole c * snd (sos_mem_size ! c)"

text \<open>The entry of a new block in the table and the end of the used part of the region.\<close>

definition enter_block :: "nat \<Rightarrow> nat \<Rightarrow> sos_state \<Rightarrow> sos_state res" where
  "enter_block c base s =
     (if unat (block_num s) < length (blocks s) then
        Inr (s\<lparr>blocks := (blocks s)[unat (block_num s) := \<lparr>b_type = c, b_start = base, b_len = request_size c\<rparr>], block_num := block_num s + 1\<rparr>)
      else Inl OutOfBounds)"

definition cut :: "nat \<Rightarrow> nat \<Rightarrow> sos_state \<Rightarrow> sos_state" where
  "cut c base s = s\<lparr>current_start := base + unat (request_size c), current_size := current_size s - request_size c\<rparr>"

fun sos_mem_block_init_from :: "nat list \<Rightarrow> sos_state \<Rightarrow> (int \<times> sos_state) res" where
  "sos_mem_block_init_from [] s = Inr (SEC_OK, s)"
| "sos_mem_block_init_from (c # cs) s =
     (if current_size s < request_size c then Inr (SEC_NO, s)
      else let base = current_start s in
        rbind (sos_mem_block_ctrl_init c base (slice_whole c) (unat (snd (sos_mem_size ! c))) s) (\<lambda>s1.
        rbind (enter_block c base s1) (\<lambda>s2.
        sos_mem_block_init_from cs (cut c base s2))))"

definition sos_mem_block_init :: "sos_state \<Rightarrow> (int \<times> sos_state) res" where
  "sos_mem_block_init s = sos_mem_block_init_from [0..<SOS_SIZE_NUM] s"

definition zero_slice :: slice_head where
  "zero_slice = \<lparr>headmagic = 0, slice_type = 0, subchain_id = 0, sref = 0, tailmagic = 0\<rparr>"

text \<open>The region after the \<open>memset\<close> and the assignments of \<open>sos_mem_init\<close>.\<close>

definition zero_region :: "nat \<Rightarrow> u32 \<Rightarrow> sos_state" where
  "zero_region ptr region_size = \<lparr>r_start = ptr, total_size = SOS_MEM_POOL_SIZE, current_size = SOS_MEM_POOL_SIZE - region_size,
     current_start = ptr + unat region_size, block_num = 0,
     blocks = replicate SOS_MEM_BLOCK_MAX \<lparr>b_type = 0, b_start = 0, b_len = 0\<rparr>, gindex = (\<lambda>_. 0),
     schain = (\<lambda>_. \<lparr>chain_total = 0, chain_free = 0\<rparr>), ls = \<lparr>lnext = \<lambda>_. LNull, lprev = \<lambda>_. LNull\<rparr>, slice = (\<lambda>_. zero_slice)\<rparr>"

definition sos_mem_init :: "nat option \<Rightarrow> u32 \<Rightarrow> (int \<times> sos_state option) res" where
  "sos_mem_init ptr region_size = (case ptr of
     None \<Rightarrow> Inr (SEC_NO, None)
   | Some p \<Rightarrow> rbind (sos_mem_block_init (zero_region p region_size)) (\<lambda>(r, s). Inr (if r \<noteq> SEC_OK then SEC_NO else SEC_OK, Some s)))"

section \<open>Allocation and release\<close>

fun best_from :: "nat \<Rightarrow> u32 \<Rightarrow> (u32 \<times> u32) list \<Rightarrow> int" where
  "best_from i sz [] = -1"
| "best_from i sz (e # es) = (if sz \<le> fst e then int i else best_from (i + 1) sz es)"

definition get_best_size :: "u32 \<Rightarrow> int" where
  "get_best_size sz = best_from 0 sz sos_mem_size"

definition sos_mem_replenish :: "nat \<Rightarrow> sos_state \<Rightarrow> (int \<times> sos_state) res" where
  "sos_mem_replenish c s =
     (if unat (block_num s) = SOS_MEM_BLOCK_MAX then Inr (SEC_NO, s)
      else if request_size c > current_size s then Inr (SEC_NO, s)
      else let base = current_start s in
        rbind (enter_block c base s) (\<lambda>s1.
        rbind (sos_mem_block_replenish c base (slice_whole c) (unat (snd (sos_mem_size ! c))) s1) (\<lambda>s2.
        Inr (SEC_OK, cut c base s2))))"

text \<open>
  \<open>_sos_mem_alloc\<close>. A list pointer that is a head is no slice: the bytes in front of it would be read as
  the header of one.
\<close>

definition sos_mem_alloc_type :: "nat \<Rightarrow> sos_state \<Rightarrow> (nat option \<times> sos_state) res" where
  "sos_mem_alloc_type c s =
     (let k = head_no c (unat (gindex s c AND of_nat (SOS_MEM_CHAIN_INTERNAL_NUM - 1)));
          s1 = s\<lparr>gindex := (gindex s)(c := gindex s c + 1)\<rparr>
      in rbind (list_empty (LHead k) (ls s1)) (\<lambda>e.
         if e then Inr (None, s1)
         else rbind (get_next (LHead k) (ls s1)) (\<lambda>l.
           rbind (list_del l (ls s1)) (\<lambda>L.
           let s2 = s1\<lparr>ls := L, schain := (schain s1)(k := (schain s1 k)\<lparr>chain_free := chain_free (schain s1 k) - 1\<rparr>)\<rparr> in
           case l of
             LNode a \<Rightarrow>
               if sref (slice s2 a) \<noteq> 0 then Inr (None, s2)
               else Inr (Some (a + unat SOS_MEM_SLICE_HEAD_SIZE), s2\<lparr>slice := (slice s2)(a := (slice s2 a)\<lparr>sref := 1\<rparr>)\<rparr>)
           | _ \<Rightarrow> Inl OutOfBounds))))"

definition sos_mem_alloc :: "u32 \<Rightarrow> sos_state \<Rightarrow> (nat option \<times> sos_state) res" where
  "sos_mem_alloc sz s =
     (let t = get_best_size sz in
      if t < 0 then Inr (None, s)
      else rbind (sos_mem_alloc_type (nat t) s) (\<lambda>(p, s1).
        case p of
          Some a \<Rightarrow> Inr (Some a, s1)
        | None \<Rightarrow> rbind (sos_mem_replenish (nat t) s1) (\<lambda>(r, s2).
            if r = SEC_OK then sos_mem_alloc_type (nat t) s2 else Inr (None, s2))))"

definition sos_mem_free :: "nat \<Rightarrow> sos_state \<Rightarrow> sos_state res" where
  "sos_mem_free p s =
     (let a = p - unat SOS_MEM_SLICE_HEAD_SIZE; h = slice s a; i = unat (subchain_id h); c = unat (slice_type h) in
      if headmagic h \<noteq> SOS_MEM_HEAD_MAGIC then Inr s
      else if i \<ge> SOS_MEM_CHAIN_INTERNAL_NUM then Inr s
      else if c > SOS_SIZE_NUM then Inr s
      else if sref h \<noteq> 1 then Inr s
      else if c = SOS_SIZE_NUM then Inl OutOfBounds
      else let k = head_no c i; s1 = s\<lparr>slice := (slice s)(a := h\<lparr>sref := 0\<rparr>)\<rparr> in
        rbind (list_add (LNode a) (LHead k) (ls s1)) (\<lambda>L.
        Inr (s1\<lparr>ls := L, schain := (schain s1)(k := (schain s1 k)\<lparr>chain_free := chain_free (schain s1 k) + 1\<rparr>)\<rparr>)))"

end
