(* ===== verification/Decode.thy ===== *)
theory Decode
  imports Defrag
begin

text \<open>
  The decoders of \<open>dataplane/src/decode\<close> (Ethernet, VLAN, IPv4, TCP and UDP) and \<open>FlowHandlePacket\<close> of
  \<open>flow.c\<close>, which together take a received packet to the output port. A decoder gets the number of the
  descriptor, the pointer \<open>pkt\<close> to its header and the length \<open>len\<close> from there on. What a packet takes from
  outside, buffers of the hardware allocator, times and the answer of the output unit, is in \<open>dp_env\<close>.
\<close>

record dp_env =
  e_fuel :: nat
  e_flow_node :: "nat option"
  e_fcb :: "nat option"
  e_mbuf :: "nat option"
  e_frag_now :: u64
  e_now :: u64
  e_now' :: u64
  e_pko_ok :: bool

definition DECODE_OK :: nat where
  "DECODE_OK = 0"

definition DECODE_DROP :: nat where
  "DECODE_DROP = 1"

section \<open>Flow\<close>

definition FlowHandlePacket :: "dp_env \<Rightarrow> nat \<Rightarrow> dp_state \<Rightarrow> dp_state res option" where
  "FlowHandlePacket e mb s =
     fbind (FlowGetFlowFromHash (e_fuel e) (e_flow_node e) (e_now e) (e_now' e) (mbufs s mb) (flows s)) (\<lambda>(r, t).
       case r of
         None \<Rightarrow> Some (rbind (packet_destroy_all mb (s\<lparr>flows := t\<rparr>)) (\<lambda>s1. Inr (STAT FLOW_GETNODE_ERR s1)))
       | Some f \<Rightarrow>
           (case FlowReference (flow (mbufs s mb)) f t of
              (d, t1) \<Rightarrow>
                let s1 = upd_mbuf mb (\<lambda>m. m\<lparr>flow := d, mflags := mflags m OR PKT_HAS_FLOW\<rparr>) (s\<lparr>flows := FLOW_ITEM_UNLOCK f t1\<rparr>)
                in Some (l7_deliver (e_pko_ok e) mb (STAT FLOW_PROC_OK s1))))"

section \<open>TCP and UDP\<close>

definition TCP_HEADER_LEN :: u16 where
  "TCP_HEADER_LEN = 20"

definition TCP_OPTLENMAX :: u8 where
  "TCP_OPTLENMAX = 40"

definition UDP_HEADER_LEN :: u16 where
  "UDP_HEADER_LEN = 8"

definition TCP_GET_HLEN :: "mbuf_t \<Rightarrow> u8 res" where
  "TCP_GET_HLEN m = rbind (pkt8 m (transport_header m + 12)) (\<lambda>b. Inr (push_bit 2 (drop_bit 4 (b AND 0xf0))))"

definition DecodeTCPPacket :: "nat \<Rightarrow> u64 \<Rightarrow> u16 \<Rightarrow> dp_state \<Rightarrow> (nat \<times> dp_state) res" where
  "DecodeTCPPacket mb pkt len s =
     (if len < TCP_HEADER_LEN then Inr (DECODE_DROP, STAT TCP_HEADER_ERR s)
      else
        let s1 = upd_mbuf mb (\<lambda>m. m\<lparr>transport_header := pkt\<rparr>) s; m = mbufs s1 mb in
        rbind (TCP_GET_HLEN m) (\<lambda>hlen.
          if len < ucast hlen then Inr (DECODE_DROP, STAT TCP_LEN_ERR s1)
          else if hlen - ucast TCP_HEADER_LEN > TCP_OPTLENMAX then Inr (DECODE_DROP, STAT TCP_LEN_ERR s1)
          else
            rbind (pkt16 m (transport_header m)) (\<lambda>sp.
            rbind (pkt16 m (transport_header m + 2)) (\<lambda>dp.
            Inr (DECODE_OK, upd_mbuf mb (\<lambda>m. m\<lparr>sport := sp, dport := dp, payload := pkt + ucast hlen, payload_len := len - ucast hlen\<rparr>) s1)))))"

definition DecodeTCP :: "dp_env \<Rightarrow> nat \<Rightarrow> u64 \<Rightarrow> u16 \<Rightarrow> dp_state \<Rightarrow> (nat \<times> dp_state) res option" where
  "DecodeTCP e mb pkt len s =
     fbind (Some (DecodeTCPPacket mb pkt len s)) (\<lambda>(r, s1).
       if r \<noteq> DECODE_OK then Some (Inr (DECODE_DROP, s1))
       else fbind (FlowHandlePacket e mb (STAT TCP_RECV_OK s1)) (\<lambda>s2. Some (Inr (DECODE_OK, s2))))"

definition UDP_GET_LEN :: "mbuf_t \<Rightarrow> u16 res" where
  "UDP_GET_LEN m = pkt16 m (transport_header m + 4)"

definition DecodeUDPPacket :: "nat \<Rightarrow> u64 \<Rightarrow> u16 \<Rightarrow> dp_state \<Rightarrow> (nat \<times> dp_state) res" where
  "DecodeUDPPacket mb pkt len s =
     (if len < UDP_HEADER_LEN then Inr (DECODE_DROP, STAT UDP_HEADER_ERR s)
      else
        let s1 = upd_mbuf mb (\<lambda>m. m\<lparr>transport_header := pkt\<rparr>) s; m = mbufs s1 mb in
        rbind (UDP_GET_LEN m) (\<lambda>ulen.
          if len < ulen then Inr (DECODE_DROP, STAT UDP_LEN_ERR s1)
          else if len \<noteq> ulen then Inr (DECODE_DROP, STAT UDP_LEN_ERR s1)
          else
            rbind (pkt16 m (transport_header m)) (\<lambda>sp.
            rbind (pkt16 m (transport_header m + 2)) (\<lambda>dp.
            Inr (DECODE_OK, upd_mbuf mb (\<lambda>m. m\<lparr>sport := sp, dport := dp, payload := pkt + ucast UDP_HEADER_LEN, payload_len := len - UDP_HEADER_LEN\<rparr>) s1)))))"

definition DecodeUDP :: "dp_env \<Rightarrow> nat \<Rightarrow> u64 \<Rightarrow> u16 \<Rightarrow> dp_state \<Rightarrow> (nat \<times> dp_state) res option" where
  "DecodeUDP e mb pkt len s =
     fbind (Some (DecodeUDPPacket mb pkt len s)) (\<lambda>(r, s1).
       if r \<noteq> DECODE_OK then Some (Inr (DECODE_DROP, s1))
       else fbind (FlowHandlePacket e mb (STAT UDP_RECV_OK s1)) (\<lambda>s2. Some (Inr (DECODE_OK, s2))))"

section \<open>IPv4\<close>

definition DecodeIPV4Packet :: "nat \<Rightarrow> u64 \<Rightarrow> u16 \<Rightarrow> dp_state \<Rightarrow> (nat \<times> dp_state) res" where
  "DecodeIPV4Packet mb pkt len s =
     (if len < IPV4_HEADER_LEN then Inr (DECODE_DROP, STAT IPV4_HEADER_ERR s)
      else rbind (pkt8 (mbufs s mb) pkt) (\<lambda>b.
        if IP_GET_RAW_VER b \<noteq> 4 then Inr (DECODE_DROP, STAT IPV4_VERSION_ERR s)
        else
          let s1 = upd_mbuf mb (\<lambda>m. m\<lparr>network_header := pkt\<rparr>) s; m = mbufs s1 mb in
          rbind (IPV4_GET_HLEN m) (\<lambda>hlen.
          if hlen < unat IPV4_HEADER_LEN then Inr (DECODE_DROP, STAT IPV4_HEADER_ERR s1)
          else rbind (IPV4_GET_IPLEN m) (\<lambda>iplen.
          if unat iplen < hlen then Inr (DECODE_DROP, STAT IPV4_LEN_ERR s1)
          else if len < iplen then Inr (DECODE_DROP, STAT IPV4_LEN_ERR s1)
          else
            rbind (IPV4_GET_IPSRC m) (\<lambda>src.
            rbind (IPV4_GET_IPDST m) (\<lambda>dst.
            Inr (DECODE_OK, upd_mbuf mb (\<lambda>m. m\<lparr>sip := src, dip := dst\<rparr>) s1)))))))"

text \<open>What follows reassembly: the decoder of the transport protocol, on the packet that came out.\<close>

definition transport :: "dp_env \<Rightarrow> nat \<Rightarrow> dp_state \<Rightarrow> (nat \<times> dp_state) res option" where
  "transport e nmb s =
     (let m = mbufs s nmb;
          go = (\<lambda>decoder.
            fbind (Some (IPV4_GET_HLEN m)) (\<lambda>hlen.
            fbind (Some (IPV4_GET_IPLEN m)) (\<lambda>iplen.
            fbind (decoder e nmb (network_header m + of_nat hlen) (iplen - of_nat hlen) (STAT IPV4_RECV_OK s)) (\<lambda>(r, s1).
              if r \<noteq> DECODE_OK then Some (rbind (packet_destroy_all nmb s1) (\<lambda>s2. Inr (DECODE_OK, s2)))
              else Some (Inr (DECODE_OK, s1))))))
      in if proto m = PROTO_TCP then go DecodeTCP
         else if proto m = PROTO_UDP then go DecodeUDP
         else Some (rbind (packet_destroy_all nmb (STAT IPV4_UNSUPPORT s)) (\<lambda>s1. Inr (DECODE_OK, s1))))"

definition DecodeIPV4 :: "dp_env \<Rightarrow> nat \<Rightarrow> u64 \<Rightarrow> u16 \<Rightarrow> dp_state \<Rightarrow> (nat \<times> dp_state) res option" where
  "DecodeIPV4 e mb pkt len s =
     fbind (Some (DecodeIPV4Packet mb pkt len s)) (\<lambda>(r, s0).
       if r \<noteq> DECODE_OK then Some (Inr (DECODE_DROP, s0))
       else fbind (Some (IPV4_GET_IPPROTO (mbufs s0 mb))) (\<lambda>protocol.
         let s1 = upd_mbuf mb (\<lambda>m. m\<lparr>proto := protocol\<rparr>) s0; m = mbufs s1 mb in
         fbind (Some (IPV4_IS_FRAGMENT m)) (\<lambda>frag.
         if \<not> frag then transport e mb s1
         else
           fbind (Some (IPV4_GET_HLEN m)) (\<lambda>ihl.
           fbind (Some (IPV4_GET_IPID m)) (\<lambda>ident.
           fbind (Some (IPV4_GET_IPOFFSET m)) (\<lambda>off.
             let s2 = upd_mbuf mb (\<lambda>m. m\<lparr>defrag_id := ident, frag_offset := int (unat off) * 8, frag_len := int (unat len) - int ihl\<rparr>) s1 in
             if frag_len (mbufs s2 mb) = 0 then Some (Inr (DECODE_DROP, STAT FRAG_LEN_ERR s2))
             else fbind (Defrag (e_fuel e) (e_fcb e) (e_mbuf e) (e_frag_now e) mb s2) (\<lambda>(r, s3).
               case r of None \<Rightarrow> Some (Inr (DECODE_OK, s3)) | Some nmb \<Rightarrow> transport e nmb s3)))))))"

section \<open>Ethernet\<close>

definition ETHERNET_HEADER_LEN :: u16 where
  "ETHERNET_HEADER_LEN = 14"

definition VLAN_HEADER_LEN :: u16 where
  "VLAN_HEADER_LEN = 4"

definition ETHERNET_TYPE_IP :: u16 where
  "ETHERNET_TYPE_IP = 0x0800"

definition ETHERNET_TYPE_VLAN :: u16 where
  "ETHERNET_TYPE_VLAN = 0x8100"

definition ETHERNET_TYPE_8021QINQ :: u16 where
  "ETHERNET_TYPE_8021QINQ = 0x9100"

lemma vlan_shrinks: "\<not> len < (4 :: u16) \<Longrightarrow> unat (len - 4) < unat len"
  by (simp add: unat_sub word_le_nat_alt word_less_nat_alt)

function DecodeVLAN :: "dp_env \<Rightarrow> nat \<Rightarrow> u64 \<Rightarrow> u16 \<Rightarrow> dp_state \<Rightarrow> (nat \<times> dp_state) res option" where
  "DecodeVLAN e mb pkt len s =
     (if len < VLAN_HEADER_LEN then Some (Inr (DECODE_DROP, STAT VLAN_HEADER_ERR s))
      else if vlan_idx (mbufs s mb) \<ge> 1 then Some (Inr (DECODE_DROP, STAT VLAN_LAYER_EXCEED s))
      else case pkt16 (mbufs s mb) (pkt + 2) of
        Inl x \<Rightarrow> Some (Inl x)
      | Inr ty \<Rightarrow>
          let s1 = upd_mbuf mb (\<lambda>m. m\<lparr>vlanh := pkt, vlan_idx := 1\<rparr>) s in
          if ty = ETHERNET_TYPE_IP then DecodeIPV4 e mb (pkt + ucast VLAN_HEADER_LEN) (len - VLAN_HEADER_LEN) s1
          else if ty = ETHERNET_TYPE_VLAN \<or> ty = ETHERNET_TYPE_8021QINQ
            then DecodeVLAN e mb (pkt + ucast VLAN_HEADER_LEN) (len - VLAN_HEADER_LEN) s1
          else Some (Inr (DECODE_DROP, STAT VLAN_UNSUPPORT s1)))"
  by pat_completeness auto

termination
  by (relation "measure (\<lambda>(e, mb, pkt, len, s). unat len)") (simp_all add: VLAN_HEADER_LEN_def vlan_shrinks)

definition DecodeEthernet :: "dp_env \<Rightarrow> nat \<Rightarrow> u64 \<Rightarrow> u16 \<Rightarrow> dp_state \<Rightarrow> (nat \<times> dp_state) res option" where
  "DecodeEthernet e mb pkt len s =
     (if len < ETHERNET_HEADER_LEN then Some (Inr (DECODE_DROP, STAT L2_HEADER_ERR s))
      else
        let s1 = upd_mbuf mb (\<lambda>m. m\<lparr>ethh := pkt\<rparr>) s; m = mbufs s1 mb in
        fbind (Some (pkt8 m pkt)) (\<lambda>d0.
        if d0 \<noteq> 0x88 then Some (Inr (DECODE_DROP, s1))
        else
          fbind (Some (read_pkt m pkt 6)) (\<lambda>dst.
          fbind (Some (read_pkt m (pkt + 6) 6)) (\<lambda>src.
          fbind (Some (pkt16 m (pkt + 12))) (\<lambda>ty.
            let s2 = upd_mbuf mb (\<lambda>m. m\<lparr>eth_dst := dst, eth_src := src\<rparr>) s1 in
            if ty = ETHERNET_TYPE_IP then
              DecodeIPV4 e mb (pkt + ucast ETHERNET_HEADER_LEN) (len - ETHERNET_HEADER_LEN) (STAT L2_RECV_OK s2)
            else if ty = ETHERNET_TYPE_VLAN \<or> ty = ETHERNET_TYPE_8021QINQ then
              DecodeVLAN e mb (pkt + ucast ETHERNET_HEADER_LEN) (len - ETHERNET_HEADER_LEN) (STAT L2_RECV_OK s2)
            else Some (Inr (DECODE_DROP, STAT L2_UNSUPPORT s2)))))))"

definition Decode :: "dp_env \<Rightarrow> nat \<Rightarrow> dp_state \<Rightarrow> dp_state res option" where
  "Decode e mb s =
     fbind (DecodeEthernet e mb (pkt_ptr (mbufs s mb)) (pkt_totallen (mbufs s mb)) s) (\<lambda>(r, s1).
       if r \<noteq> DECODE_OK then Some (packet_destroy_all mb s1) else Some (Inr s1))"

end
