(* ===== verification/Watchdog.thy ===== *)
theory Watchdog
  imports MemPool
begin

text \<open>
  The table shared by the cores (\<open>dataplane/src/platform/oct-sched.c\<close>, \<open>oct-sched.h\<close>) and the watchdog on
  it (\<open>dataplane/src/common/watchdog.c\<close>): every core registers and resets its counter from the main loop,
  a thread checks all counters in turn and aborts the program when one has grown past the limit. The table
  is shared, so a run is any sequence of the operations of the cores and the thread.
\<close>

section \<open>Table\<close>

record wd_core =
  watchdog_enabled :: u32
  watchdog_ok :: u32

record oct_sched =
  watchdog_disabled :: u32
  watchdog_retry :: u32
  sched_data :: "wd_core list"

definition CPU_HW_RUNNING_MAX :: nat where
  "CPU_HW_RUNNING_MAX = 4"

definition WD_WATCHDOG_TIMEOUT :: u32 where
  "WD_WATCHDOG_TIMEOUT = 40"

definition WD_WATCHDOG_CHECK_INTERVAL :: u32 where
  "WD_WATCHDOG_CHECK_INTERVAL = 10"

text \<open>\<open>oct_sched_init\<close>: \<open>mem\<close> says whether the bootmem allocator returned a block.\<close>

definition oct_sched_init :: "bool \<Rightarrow> int \<times> oct_sched option" where
  "oct_sched_init mem =
     (if mem then (SEC_OK, Some \<lparr>watchdog_disabled = 0, watchdog_retry = 0,
        sched_data = replicate CPU_HW_RUNNING_MAX \<lparr>watchdog_enabled = 0, watchdog_ok = 0\<rparr>\<rparr>)
      else (SEC_NO, None))"

definition upd_core :: "nat \<Rightarrow> (wd_core \<Rightarrow> wd_core) \<Rightarrow> oct_sched \<Rightarrow> oct_sched res" where
  "upd_core i f s = (if i < length (sched_data s) then Inr (s\<lparr>sched_data := (sched_data s)[i := f (sched_data s ! i)]\<rparr>) else Inl OutOfBounds)"

text \<open>The macros \<open>watchdog_ok()\<close> and \<open>register_watchdog()\<close> on core \<open>i\<close>.\<close>

definition wd_kick :: "nat \<Rightarrow> oct_sched \<Rightarrow> oct_sched res" where
  "wd_kick i = upd_core i (\<lambda>d. d\<lparr>watchdog_ok := 0\<rparr>)"

definition register_watchdog :: "nat \<Rightarrow> oct_sched \<Rightarrow> oct_sched res" where
  "register_watchdog i = upd_core i (\<lambda>d. d\<lparr>watchdog_enabled := 1\<rparr>)"

section \<open>Watchdog\<close>

definition wd_is_watchdog_registered :: "wd_core \<Rightarrow> bool" where
  "wd_is_watchdog_registered d \<longleftrightarrow> watchdog_enabled d \<noteq> 0"

definition wd_disable_watchdog :: "oct_sched \<Rightarrow> oct_sched" where
  "wd_disable_watchdog s = s\<lparr>watchdog_disabled := 1\<rparr>"

definition wd_enable_watchdog :: "oct_sched \<Rightarrow> oct_sched" where
  "wd_enable_watchdog s = s\<lparr>watchdog_disabled := 0\<rparr>"

definition wd_is_watchdog_disabled :: "oct_sched \<Rightarrow> u32" where
  "wd_is_watchdog_disabled s = watchdog_disabled s"

definition wd_set_watchdog_timeout :: "u32 \<Rightarrow> oct_sched \<Rightarrow> oct_sched" where
  "wd_set_watchdog_timeout sec s =
     (let sec = (if sec < WD_WATCHDOG_TIMEOUT then WD_WATCHDOG_TIMEOUT else sec)
      in s\<lparr>watchdog_retry := sec div WD_WATCHDOG_CHECK_INTERVAL\<rparr>)"

text \<open>The loop of \<open>wd_check_watchdog\<close>: the cores with their new counters, and whether one was over the limit.\<close>

fun check_cores :: "u32 \<Rightarrow> wd_core list \<Rightarrow> bool \<times> wd_core list" where
  "check_cores retry [] = (False, [])"
| "check_cores retry (d # ds) =
     (let (fired, ds') = check_cores retry ds in
      if \<not> wd_is_watchdog_registered d then (fired, d # ds')
      else (watchdog_ok d > retry \<or> fired, d\<lparr>watchdog_ok := watchdog_ok d + 1\<rparr> # ds'))"

definition wd_check_watchdog :: "oct_sched \<Rightarrow> oct_sched res" where
  "wd_check_watchdog s =
     (if wd_is_watchdog_disabled s \<noteq> 0 then Inr s
      else let (fired, ds) = check_cores (watchdog_retry s) (sched_data s) in
        if fired then Inl Exit else Inr (s\<lparr>sched_data := ds\<rparr>))"

text \<open>\<open>wd_watchdog_init\<close> up to the start of the thread.\<close>

definition wd_watchdog_init :: "oct_sched \<Rightarrow> oct_sched" where
  "wd_watchdog_init s = wd_set_watchdog_timeout WD_WATCHDOG_TIMEOUT (wd_enable_watchdog s)"

section \<open>Runs\<close>

text \<open>An operation on the table: a core's reset of its counter, its registration, or a round of the thread.\<close>

datatype wd_event = Kick nat | Register nat | Check

fun wd_step :: "wd_event \<Rightarrow> oct_sched \<Rightarrow> oct_sched res" where
  "wd_step (Kick i) s = wd_kick i s"
| "wd_step (Register i) s = register_watchdog i s"
| "wd_step Check s = wd_check_watchdog s"

definition wd_run :: "wd_event list \<Rightarrow> oct_sched \<Rightarrow> oct_sched res" where
  "wd_run = rfold wd_step"

text \<open>Rounds of the thread in which core \<open>i\<close> was registered, since its last reset.\<close>

fun silent :: "nat \<Rightarrow> wd_event list \<Rightarrow> bool \<times> nat" where
  "silent i [] = (False, 0)"
| "silent i (e # es) = (let (on, n) = silent i es in
     case e of
       Kick j \<Rightarrow> (on, if j = i then 0 else n)
     | Register j \<Rightarrow> (on \<or> j = i, n)
     | Check \<Rightarrow> (on, if on then Suc n else n))"

text \<open>The contract of a watchdog on the history of events, the latest first: all cores are in the table and no round found a registered core silent for more than \<open>r\<close> rounds.\<close>

fun in_time :: "nat \<Rightarrow> nat \<Rightarrow> wd_event list \<Rightarrow> bool" where
  "in_time m r [] = True"
| "in_time m r (e # es) \<longleftrightarrow> in_time m r es \<and>
     (case e of
        Kick j \<Rightarrow> j < m
      | Register j \<Rightarrow> j < m
      | Check \<Rightarrow> (\<forall>i < m. fst (silent i es) \<longrightarrow> snd (silent i es) \<le> r))"

definition agrees :: "wd_event list \<Rightarrow> oct_sched \<Rightarrow> bool" where
  "agrees es s \<longleftrightarrow> (\<forall>i < length (sched_data s). wd_is_watchdog_registered (sched_data s ! i) = fst (silent i es) \<and>
     unat (watchdog_ok (sched_data s ! i)) = snd (silent i es))"

lemma check_cores_exact:
  "check_cores r ds = (\<exists>i < length ds. wd_is_watchdog_registered (ds ! i) \<and> watchdog_ok (ds ! i) > r,
     map (\<lambda>d. if wd_is_watchdog_registered d then d\<lparr>watchdog_ok := watchdog_ok d + 1\<rparr> else d) ds)"
proof (induction ds)
  case (Cons d ds)
  then show ?case by (auto simp: Ex_less_Suc2)
qed simp

lemma upd_core_Inl: "upd_core i f s = Inl e \<longleftrightarrow> \<not> i < length (sched_data s) \<and> e = OutOfBounds"
  by (auto simp: upd_core_def)

lemma wd_step_agrees:
  assumes "agrees es s" "watchdog_disabled s = 0" "unat (watchdog_retry s) + 1 < 2 ^ 32"
  shows "case wd_step e s of
      Inl f \<Rightarrow> \<not> in_time (length (sched_data s)) (unat (watchdog_retry s)) (e # es) \<and> f \<in> {Exit, OutOfBounds}
    | Inr s' \<Rightarrow> (in_time (length (sched_data s)) (unat (watchdog_retry s)) es \<longrightarrow> in_time (length (sched_data s)) (unat (watchdog_retry s)) (e # es)) \<and>
        agrees (e # es) s' \<and> watchdog_disabled s' = 0 \<and> watchdog_retry s' = watchdog_retry s \<and> length (sched_data s') = length (sched_data s)"
proof (cases e)
  case (Kick j)
  then show ?thesis using assms
    by (auto simp: wd_kick_def upd_core_def agrees_def nth_list_update wd_is_watchdog_registered_def split: prod.splits)
next
  case (Register j)
  then show ?thesis using assms
    by (auto simp: register_watchdog_def upd_core_def agrees_def nth_list_update wd_is_watchdog_registered_def split: prod.splits)
next
  case Check
  let ?late = "\<exists>i < length (sched_data s). wd_is_watchdog_registered (sched_data s ! i) \<and> watchdog_ok (sched_data s ! i) > watchdog_retry s"
  have late: "?late \<longleftrightarrow> (\<exists>i < length (sched_data s). fst (silent i es) \<and> \<not> snd (silent i es) \<le> unat (watchdog_retry s))"
    using assms(1) by (auto simp: agrees_def word_less_nat_alt not_le)
  show ?thesis
  proof (cases ?late)
    case True
    then show ?thesis using Check late assms(2)
      by (auto simp: wd_check_watchdog_def wd_is_watchdog_disabled_def check_cores_exact)
  next
    case False
    have inc: "unat (watchdog_ok (sched_data s ! i) + 1) = Suc (unat (watchdog_ok (sched_data s ! i)))"
      if "i < length (sched_data s)" "wd_is_watchdog_registered (sched_data s ! i)" for i
    proof -
      have "unat (watchdog_ok (sched_data s ! i)) \<le> unat (watchdog_retry s)" using False that by (auto simp: word_less_nat_alt not_less)
      then show ?thesis using assms(3) by (simp add: unat_word_ariths)
    qed
    show ?thesis using False Check late assms(1,2) inc
      by (auto simp: wd_check_watchdog_def wd_is_watchdog_disabled_def check_cores_exact agrees_def wd_is_watchdog_registered_def split: prod.splits)
  qed
qed

text \<open>The table after the start-up of the watchdog with a timeout of \<open>sec\<close> seconds.\<close>

definition wd_booted :: "u32 \<Rightarrow> oct_sched" where
  "wd_booted sec = wd_set_watchdog_timeout sec (wd_watchdog_init (the (snd (oct_sched_init True))))"

definition wd_limit :: "u32 \<Rightarrow> nat" where
  "wd_limit sec = max (unat WD_WATCHDOG_TIMEOUT) (unat sec) div unat WD_WATCHDOG_CHECK_INTERVAL"

lemma wd_booted_simps:
  "watchdog_disabled (wd_booted sec) = 0" "unat (watchdog_retry (wd_booted sec)) = wd_limit sec" "length (sched_data (wd_booted sec)) = CPU_HW_RUNNING_MAX"
  "agrees [] (wd_booted sec)" "wd_limit sec + 1 < 2 ^ 32"
proof -
  show "unat (watchdog_retry (wd_booted sec)) = wd_limit sec"
    by (simp add: wd_booted_def wd_set_watchdog_timeout_def wd_limit_def unat_div word_less_nat_alt max_def WD_WATCHDOG_TIMEOUT_def)
  have "max 40 (unat sec) div 10 \<le> 2 ^ 32 div 10" using unsigned_less [of sec, where 'a = nat] by (intro div_le_mono) simp
  then show "wd_limit sec + 1 < 2 ^ 32" by (simp add: wd_limit_def WD_WATCHDOG_TIMEOUT_def WD_WATCHDOG_CHECK_INTERVAL_def)
qed (simp_all add: wd_booted_def wd_set_watchdog_timeout_def wd_watchdog_init_def wd_enable_watchdog_def oct_sched_init_def agrees_def
    wd_is_watchdog_registered_def)

definition wd_ready :: "u32 \<Rightarrow> wd_event list \<Rightarrow> oct_sched \<Rightarrow> bool" where
  "wd_ready sec es s \<longleftrightarrow> agrees es s \<and> watchdog_disabled s = 0 \<and> unat (watchdog_retry s) = wd_limit sec \<and> length (sched_data s) = CPU_HW_RUNNING_MAX"

lemma wd_run_ready:
  "case wd_run es (wd_booted sec) of
     Inl f \<Rightarrow> \<not> in_time CPU_HW_RUNNING_MAX (wd_limit sec) (rev es) \<and> f \<in> {Exit, OutOfBounds}
   | Inr s \<Rightarrow> in_time CPU_HW_RUNNING_MAX (wd_limit sec) (rev es) \<and> wd_ready sec (rev es) s"
proof (induction es rule: rev_induct)
  case Nil
  then show ?case using wd_booted_simps [of sec] by (simp add: wd_run_def wd_ready_def)
next
  case (snoc e es)
  show ?case
  proof (cases "wd_run es (wd_booted sec)")
    case (Inl f)
    with snoc show ?thesis by (simp add: wd_run_def rfold_append)
  next
    case (Inr s)
    then have s: "wd_ready sec (rev es) s" "in_time CPU_HW_RUNNING_MAX (wd_limit sec) (rev es)" using snoc by simp_all
    have "wd_run (es @ [e]) (wd_booted sec) = wd_step e s" using Inr by (cases "wd_step e s") (simp_all add: wd_run_def rfold_append)
    with wd_step_agrees [of "rev es" s e] s wd_booted_simps(5) [of sec] show ?thesis by (auto simp: wd_ready_def split: sum.splits)
  qed
qed

lemma silent_registered: "Register i \<in> set es \<Longrightarrow> fst (silent i es)"
proof (induction es)
  case (Cons e es)
  then show ?case by (cases e) (auto split: prod.splits)
qed simp

lemma silent_count: "Kick i \<notin> set xs \<Longrightarrow> Register i \<in> set ys \<Longrightarrow> length (filter ((=) Check) xs) \<le> snd (silent i (xs @ ys))"
proof (induction xs)
  case (Cons e xs)
  then show ?case using silent_registered [of i "xs @ ys"] by (cases e) (auto split: prod.splits)
qed simp

lemma in_time_prefix: "in_time m r (xs @ ys) \<Longrightarrow> in_time m r ys"
  by (induction xs) auto

lemma late_round:
  assumes "Kick i \<notin> set xs" "Register i \<in> set ys" "i < m" "r + 2 \<le> length (filter ((=) Check) xs)"
  shows "\<not> in_time m r (xs @ ys)"
proof
  assume t: "in_time m r (xs @ ys)"
  have "filter ((=) Check) xs \<noteq> []" using assms(4) by auto
  then obtain as bs where xs: "xs = as @ Check # bs" "\<forall>a \<in> set as. a \<noteq> Check"
    using split_list_first [of Check xs] by (auto simp: filter_empty_conv)
  have "length (filter ((=) Check) as) = 0" using xs(2) by (auto simp: filter_empty_conv)
  then have "r + 1 \<le> length (filter ((=) Check) bs)" using assms(4) xs(1) by simp
  also have "\<dots> \<le> snd (silent i (bs @ ys))" by (rule silent_count) (use assms xs in auto)
  finally have "\<not> snd (silent i (bs @ ys)) \<le> r" by simp
  moreover have "in_time m r (Check # bs @ ys)" using in_time_prefix [of m r as "Check # bs @ ys"] t unfolding xs(1) by simp
  ultimately show False using assms(3) silent_registered [of i "bs @ ys"] assms(2) by auto
qed

lemma exit_only:
  assumes "\<forall>e \<in> set es. \<forall>j. e = Kick j \<or> e = Register j \<longrightarrow> j < CPU_HW_RUNNING_MAX" "wd_run es (wd_booted sec) = Inl f"
  shows "f = Exit"
  using assms
proof (induction es rule: rev_induct)
  case (snoc e es)
  show ?case
  proof (cases "wd_run es (wd_booted sec)")
    case (Inl g)
    with snoc show ?thesis by (simp add: wd_run_def rfold_append)
  next
    case (Inr s)
    then have "length (sched_data s) = CPU_HW_RUNNING_MAX" using wd_run_ready [where es = es and sec = sec] by (simp add: wd_ready_def)
    moreover have "wd_step e s = Inl f" using Inr snoc.prems(2) by (cases "wd_step e s") (simp_all add: wd_run_def rfold_append)
    ultimately show ?thesis using snoc.prems(1)
      by (cases e) (auto simp: wd_kick_def register_watchdog_def upd_core_def wd_check_watchdog_def split: if_splits prod.splits)
  qed
qed (simp add: wd_run_def)

section \<open>Theorems\<close>

text \<open>
  C28. Watchdog: whatever the order in which cores register, reset their counters and the thread makes its rounds, the
  program runs on exactly when the history meets the contract: every core number is inside the table, and no
  round found a registered core that had been silent for more than \<open>timeout div 10\<close> rounds, the timeout being at least 40
  seconds. In particular the 32-bit counters never wrap around.
\<close>

theorem watchdog_exact: "(\<exists>s. wd_run es (wd_booted sec) = Inr s) \<longleftrightarrow> in_time CPU_HW_RUNNING_MAX (wd_limit sec) (rev es)"
  using wd_run_ready [where es = es and sec = sec] by (auto split: sum.splits)

text \<open>
  Watchdog: a core that has registered and then does not reset its counter while the thread makes
  \<open>timeout div 10 + 2\<close> rounds brings the program down with \<open>abort\<close>, whatever the other cores do.
\<close>

theorem watchdog_detects:
  assumes "Register i \<in> set es" "Kick i \<notin> set fs" "wd_limit sec + 2 \<le> length (filter ((=) Check) fs)"
    "\<forall>e \<in> set (es @ fs). \<forall>j. e = Kick j \<or> e = Register j \<longrightarrow> j < CPU_HW_RUNNING_MAX"
  shows "wd_run (es @ fs) (wd_booted sec) = Inl Exit"
proof -
  have "\<not> in_time CPU_HW_RUNNING_MAX (wd_limit sec) (rev fs @ rev es)"
    by (rule late_round [where i = i]) (use assms in \<open>auto simp: rev_filter [symmetric]\<close>)
  then obtain f where "wd_run (es @ fs) (wd_booted sec) = Inl f" using wd_run_ready [where es = "es @ fs" and sec = sec] by (auto split: sum.splits)
  with exit_only [OF assms(4)] show ?thesis by simp
qed

theorem watchdog_detects_witness:
  "wd_run ([Register 1, Register 2, Check, Kick 1] @ [Check, Check, Kick 2, Check, Check, Check, Kick 2, Check]) (wd_booted 0) = Inl Exit"
  by (rule watchdog_detects [where i = 1])
    (auto simp: wd_limit_def WD_WATCHDOG_TIMEOUT_def WD_WATCHDOG_CHECK_INTERVAL_def CPU_HW_RUNNING_MAX_def)

end
