(* ===== verification/DpCmd.thy ===== *)
theory DpCmd
  imports SosMalloc Decode Watchdog
begin

text \<open>
  The commands of the management plane to the data plane, \<open>dataplane/src/common/dp_cmd.c\<close> with the message
  of \<open>include/rpc-common.h\<close>: a work queue entry from the Linux group holds an opcode, the answer is printed
  into a local array, written behind an Ethernet header into the buffer of the same entry, and the entry
  is submitted to the group of the Linux side.
\<close>

section \<open>Printing\<close>

text \<open>The decimal numbers of \<open>%d\<close> and \<open>%ld\<close>.\<close>

definition digit :: "nat \<Rightarrow> char" where
  "digit d = char_of (48 + d)"

fun dec :: "nat \<Rightarrow> string" where
  "dec n = (if n < 10 then [digit n] else dec (n div 10) @ [digit (n mod 10)])"

definition sdec :: "int \<Rightarrow> string" where
  "sdec i = (if i < 0 then CHR ''-'' # dec (nat (- i)) else dec (nat i))"

text \<open>\<open>sprintf\<close> at the end of what \<open>out[1024]\<close> already holds; the text and its final zero have to fit.\<close>

definition OUT_SIZE :: nat where
  "OUT_SIZE = 1024"

definition sprintf :: "string \<Rightarrow> string \<Rightarrow> string res" where
  "sprintf t out = (if length out + length t < OUT_SIZE then Inr (out @ t) else Inl OutOfBounds)"

definition line :: "string \<Rightarrow> string" where
  "line t = t @ [CHR 0x0A]"

section \<open>Messages\<close>

definition ETH_P :: u16 where
  "ETH_P = 0x3322"

definition COMMAND_INVALID :: u16 where
  "COMMAND_INVALID = 0"

definition COMMAND_SHOW_BUILD_TIME :: u16 where
  "COMMAND_SHOW_BUILD_TIME = 0xA001"

definition COMMAND_SHOW_PKT_STAT :: u16 where
  "COMMAND_SHOW_PKT_STAT = 0xA002"

definition COMMAND_SHOW_MEM_POOL :: u16 where
  "COMMAND_SHOW_MEM_POOL = 0xA003"

definition COMMAND_ACL_RULE_COMMIT :: u16 where
  "COMMAND_ACL_RULE_COMMIT = 0xA004"

definition TO_LINUX_GROUP :: nat where
  "TO_LINUX_GROUP = 14"

text \<open>
  A work queue entry as the main loop gets it: the receive fields, its group, the size in its packet
  pointer, and for a timer entry the mark and the structure in its data area. For a command \<open>wq_data\<close> is the
  buffer from the packet's address to its end.
\<close>

datatype timer_fn = Age_flows | Age_frags

record oct_timer =
  t_magic :: u32
  t_tick :: u16
  t_fn :: "timer_fn option"

record work = wqe +
  wq_grp :: nat
  wq_size :: u16
  wq_unused8 :: u8
  wq_timer :: oct_timer

definition text_bytes :: "string \<Rightarrow> u8 list" where
  "text_bytes t = map (\<lambda>c. of_nat (of_char c)) t"

text \<open>The answer in the buffer: the type of the Ethernet header, the opcode, the length in 16 bits and the text.\<close>

definition oct_send_response :: "u16 \<Rightarrow> string \<Rightarrow> work \<Rightarrow> work res" where
  "oct_send_response opcode data w =
     (let n = length data; len = of_nat n in
      if 18 + n \<le> length (wq_data w) then
        Inr (w\<lparr>wq_data := take 12 (wq_data w) @ be16 ETH_P @ be16 opcode @ be16 len @ text_bytes data @ drop (18 + n) (wq_data w),
               wq_size := 14 + 4 + len, wq_len := 14 + 4 + len, wq_port := 0, wq_grp := TO_LINUX_GROUP\<rparr>)
      else Inl OutOfBounds)"

definition oct_rx_command_get :: "(u64 \<Rightarrow> u64) \<Rightarrow> work \<Rightarrow> u16 res" where
  "oct_rx_command_get phys_to_ptr w =
     (if wq_bufs w \<noteq> 0 then
        if phys_to_ptr (bp_addr (wq_packet_ptr w)) = 0 then Inr COMMAND_INVALID
        else if 2 \<le> length (wq_data w) then Inr (get16 (wq_data w) 0) else Inl OutOfBounds
      else Inr COMMAND_INVALID)"

section \<open>The texts\<close>

text \<open>\<open>__DATE__\<close> and \<open>__TIME__\<close> are \<open>date\<close> and \<open>time\<close>.\<close>

definition dp_show_build_time :: "string \<Rightarrow> string \<Rightarrow> string res" where
  "dp_show_build_time date time = sprintf (line (date @ '', '' @ time)) ''''"

text \<open>
  The counters of all cores added up in 64 bits and printed as signed. The macros move \<open>recv_packet_count\<close> and
  \<open>recv_packet_count_sum\<close>, and the two byte counters, in step, so each pair is one counter of \<open>stat\<close>.
\<close>

definition all_cores :: "(nat \<Rightarrow> stat \<Rightarrow> u64) \<Rightarrow> stat \<Rightarrow> string" where
  "all_cores pktstat c = sdec (sint (foldl (\<lambda>x i. x + pktstat i c) 0 [0..<CPU_HW_RUNNING_MAX]))"

definition rule16 :: string where
  "rule16 = line ''----------------''"

definition dp_show_pkt_stat :: "(nat \<Rightarrow> stat \<Rightarrow> u64) \<Rightarrow> string res" where
  "dp_show_pkt_stat pktstat =
     rfold sprintf
       [line ''packet statistic:'', line ''----------------------------------'', line '''', line ''recv_count:'', rule16,
        line (''recv_packet_count: '' @ all_cores pktstat RECV_PC), line (''recv_packet_bytes: '' @ all_cores pktstat RECV_PB),
        line (''recv_packet_count_sum: '' @ all_cores pktstat RECV_PC), line (''recv_packet_bytes_sum: '' @ all_cores pktstat RECV_PB),
        rule16, line '''', line ''rx_stat:'', rule16,
        line (''rx_err: '' @ all_cores pktstat RECV_ERR), line (''addr_err: '' @ all_cores pktstat RECV_ADDR_ERR), line (''rx_ok: '' @ all_cores pktstat RECV_OK),
        rule16, line '''', line ''ether_stat:'', rule16,
        line (''headerlen_err: '' @ all_cores pktstat L2_HEADER_ERR), line (''unsupport: '' @ all_cores pktstat L2_UNSUPPORT), line (''rx_ok: '' @ all_cores pktstat L2_RECV_OK)]
       ''''"

definition show_u32 :: "u32 \<Rightarrow> string" where
  "show_u32 w = sdec (sint w)"

text \<open>The lines of the four chains of a pool; both pools print the number of small buffers per chain.\<close>

definition pool_line :: "nat \<Rightarrow> mem_state \<Rightarrow> nat \<Rightarrow> string" where
  "pool_line p k i = line (''pool '' @ dec i @ '':  free num '' @ show_u32 (freenum (msc (mem_pool k ! p) ! i)) @
     ''('' @ show_u32 (MEM_POOL_SMALL_BUFFER_NUM div of_nat MEM_POOL_INTERNAL_NUM) @ '')'')"

definition dp_show_mem_pool :: "(nat \<Rightarrow> string) \<Rightarrow> mem_state \<Rightarrow> sos_state \<Rightarrow> string res" where
  "dp_show_mem_pool fmt_ptr k s =
     rfold sprintf
       ([line ''mem pool stat:'', rule16, line (''small pool('' @ show_u32 MEM_POOL_SMALL_BUFFER_SIZE @ '' bytes):''),
         line (''total slice num '' @ show_u32 MEM_POOL_SMALL_BUFFER_NUM @ ''.'')] @
        map (pool_line MEM_POOL_ID_SMALL_BUFFER k) [0..<MEM_POOL_INTERNAL_NUM] @
        [rule16, line (''large pool('' @ show_u32 MEM_POOL_LARGE_BUFFER_SIZE @ '' bytes):''),
         line (''total slice num '' @ show_u32 MEM_POOL_LARGE_BUFFER_NUM @ ''.'')] @
        map (pool_line MEM_POOL_ID_LARGE_BUFFER k) [0..<MEM_POOL_INTERNAL_NUM] @
        [rule16, line ''sos mem pool stat:'', rule16, line ''Global pool info:'',
         line (''start: '' @ fmt_ptr (r_start s) @ ''    totalsize: '' @ show_u32 (total_size s)),
         line (''cur_start: '' @ fmt_ptr (current_start s) @ ''    cur_size: '' @ show_u32 (current_size s))])
       ''''"

definition dp_acl_rule_commit :: "string \<Rightarrow> string \<Rightarrow> string res" where
  "dp_acl_rule_commit date time = sprintf (line (date @ '', '' @ time)) ''''"

section \<open>Commands\<close>

text \<open>
  The state of a core and of what it shares: \<open>plane\<close> the packet processing with the counters of this core, \<open>pktstat_of\<close> the
  counters of the others, \<open>submitted\<close> and \<open>armed\<close> the work queue entries handed to the scheduler and to the timer.
\<close>

record main_state =
  plane :: dp_state
  sos :: sos_state
  sched :: oct_sched
  pktstat_of :: "nat \<Rightarrow> stat \<Rightarrow> u64"
  global_time :: u32
  submitted :: "(nat \<times> work) list"
  armed :: "(nat \<times> work) list"

text \<open>What an iteration takes from outside: the core's number, addresses, times, locks held by others, allocations and answers of the hardware.\<close>

record main_env =
  phys_to_ptr :: "u64 \<Rightarrow> u64"
  fmt_ptr :: "nat \<Rightarrow> string"
  build_date :: string
  build_time :: string
  local_cpu_id :: nat
  oct_cpu_rate :: u64
  timer_now :: u64
  bucket_busy :: "nat \<Rightarrow> bool"
  loop_fuel :: nat
  rx_buf :: "nat option"
  packet_env :: dp_env

definition pktstat :: "main_env \<Rightarrow> main_state \<Rightarrow> nat \<Rightarrow> stat \<Rightarrow> u64" where
  "pktstat env s i = (if i = local_cpu_id env then stats (plane s) else pktstat_of s i)"

definition respond :: "nat \<Rightarrow> work \<Rightarrow> u16 \<Rightarrow> string res \<Rightarrow> main_state \<Rightarrow> main_state res" where
  "respond wq w opcode text s =
     rbind text (\<lambda>t. rbind (oct_send_response opcode t w) (\<lambda>w'. Inr (s\<lparr>submitted := submitted s @ [(wq, w')]\<rparr>)))"

definition oct_packet_free :: "nat \<Rightarrow> main_state \<Rightarrow> main_state" where
  "oct_packet_free wq s =
     s\<lparr>plane := (plane s)\<lparr>wqe_data_freed := wqe_data_freed (plane s) @ [wq], wqe_freed := wqe_freed (plane s) @ [wq]\<rparr>\<rparr>"

text \<open>The switch of \<open>oct_rx_process_command\<close>; the fourth case runs on into the default, which prints a message.\<close>

definition oct_rx_process_command :: "main_env \<Rightarrow> nat \<Rightarrow> work \<Rightarrow> main_state \<Rightarrow> main_state res" where
  "oct_rx_process_command env wq w s =
     rbind (oct_rx_command_get (phys_to_ptr env) w) (\<lambda>opcode.
       if opcode = COMMAND_INVALID then Inr (oct_packet_free wq s)
       else if opcode = COMMAND_SHOW_BUILD_TIME then respond wq w opcode (dp_show_build_time (build_date env) (build_time env)) s
       else if opcode = COMMAND_SHOW_PKT_STAT then respond wq w opcode (dp_show_pkt_stat (pktstat env s)) s
       else if opcode = COMMAND_SHOW_MEM_POOL then respond wq w opcode (dp_show_mem_pool (fmt_ptr env) (mem (plane s)) (sos s)) s
       else if opcode = COMMAND_ACL_RULE_COMMIT then respond wq w opcode (dp_acl_rule_commit (build_date env) (build_time env)) s
       else Inr s)"

section \<open>Lengths\<close>

declare dec.simps [simp del]

lemma length_dec: "n < 10 ^ Suc k \<Longrightarrow> length (dec n) \<le> Suc k"
proof (induction k arbitrary: n)
  case 0
  then show ?case by (subst dec.simps) simp
next
  case (Suc k)
  then show ?case using Suc.IH [of "n div 10"] by (subst dec.simps) (auto simp: less_mult_imp_div_less)
qed

lemma length_sdec: "\<bar>i\<bar> < 10 ^ Suc k \<Longrightarrow> length (sdec i) \<le> Suc (Suc k)"
  using length_dec [of "nat (- i)" k] length_dec [of "nat i" k] by (auto simp: sdec_def nat_less_iff)

lemma length_all_cores: "length (all_cores ps c) \<le> 20"
proof -
  have "\<bar>sint w\<bar> < 10 ^ Suc 18" for w :: u64
    using sint_ge [of w] sint_lt [of w] by (simp add: abs_less_iff)
  then show ?thesis unfolding all_cores_def using length_sdec [of _ 18] by fastforce
qed

lemma length_show_u32: "length (show_u32 w) \<le> 11"
proof -
  have "\<bar>sint w\<bar> < 10 ^ Suc 9" using sint_ge [of w] sint_lt [of w] by (simp add: abs_less_iff)
  then show ?thesis unfolding show_u32_def using length_sdec [of "sint w" 9] by simp
qed

lemma sprintf_all:
  assumes "length out + sum_list (map length ts) < OUT_SIZE"
  shows "rfold sprintf ts out = Inr (out @ concat ts)"
  using assms by (induction ts arbitrary: out) (auto simp: sprintf_def)

lemma length_line [simp]: "length (line t) = Suc (length t)"
  by (simp add: line_def)

lemma nul_dec [simp]: "CHR 0x00 \<notin> set (dec n)"
proof (induction n rule: dec.induct)
  case (1 n)
  have d: "digit k \<noteq> CHR 0x00" if "k < 10" for k
  proof -
    have "of_char (digit k) = 48 + k" using that by (simp add: digit_def)
    moreover have "of_char (CHR 0x00) = (0 :: nat)" by simp
    ultimately show ?thesis by (metis add_is_0 zero_neq_numeral)
  qed
  show ?case using 1 d [of n] d [of "n mod 10"] by (subst dec.simps) auto
qed

lemma nul_numbers [simp]: "CHR 0x00 \<notin> set (sdec i)" "CHR 0x00 \<notin> set (show_u32 w)" "CHR 0x00 \<notin> set (all_cores ps c)"
  by (simp_all add: sdec_def show_u32_def all_cores_def)

lemma nul_line [simp]: "CHR 0x00 \<in> set (line t) \<longleftrightarrow> CHR 0x00 \<in> set t"
  by (simp add: line_def)

lemma show_pkt_stat_ok: "\<exists>t. dp_show_pkt_stat ps = Inr t \<and> length t \<le> 1000 \<and> CHR 0x00 \<notin> set t"
  unfolding dp_show_pkt_stat_def
  using length_all_cores [of ps RECV_PC] length_all_cores [of ps RECV_PB] length_all_cores [of ps RECV_ERR] length_all_cores [of ps RECV_ADDR_ERR]
    length_all_cores [of ps RECV_OK] length_all_cores [of ps L2_HEADER_ERR] length_all_cores [of ps L2_UNSUPPORT] length_all_cores [of ps L2_RECV_OK]
  by (subst sprintf_all) (simp_all add: OUT_SIZE_def rule16_def)

lemma show_mem_pool_ok:
  assumes "\<And>a. length (fmt a) \<le> 18 \<and> CHR 0x00 \<notin> set (fmt a)"
  shows "\<exists>t. dp_show_mem_pool fmt k s = Inr t \<and> length t \<le> 1000 \<and> CHR 0x00 \<notin> set t"
proof -
  have line: "length (pool_line p k i) \<le> 53" if "i < 4" for p i
    using length_dec [of i 0] that length_show_u32 [of "freenum (msc (mem_pool k ! p) ! i)"]
      length_show_u32 [of "MEM_POOL_SMALL_BUFFER_NUM div of_nat MEM_POOL_INTERNAL_NUM"] by (simp add: pool_line_def)
  have four: "[0..<MEM_POOL_INTERNAL_NUM] = [0, 1, 2, 3]" by (simp add: MEM_POOL_INTERNAL_NUM_def upt_rec)
  show ?thesis unfolding dp_show_mem_pool_def
    using line [of 0 MEM_POOL_ID_SMALL_BUFFER] line [of 1 MEM_POOL_ID_SMALL_BUFFER] line [of 2 MEM_POOL_ID_SMALL_BUFFER] line [of 3 MEM_POOL_ID_SMALL_BUFFER]
      line [of 0 MEM_POOL_ID_LARGE_BUFFER] line [of 1 MEM_POOL_ID_LARGE_BUFFER] line [of 2 MEM_POOL_ID_LARGE_BUFFER] line [of 3 MEM_POOL_ID_LARGE_BUFFER]
      length_show_u32 [of MEM_POOL_SMALL_BUFFER_SIZE] length_show_u32 [of MEM_POOL_SMALL_BUFFER_NUM] length_show_u32 [of MEM_POOL_LARGE_BUFFER_SIZE]
      length_show_u32 [of MEM_POOL_LARGE_BUFFER_NUM] length_show_u32 [of "total_size s"] length_show_u32 [of "current_size s"]
      assms [of "r_start s"] assms [of "current_start s"]
    by (subst sprintf_all) (simp_all add: OUT_SIZE_def rule16_def four pool_line_def)
qed

end
