(* ===== verification/MainLoop.thy ===== *)
theory MainLoop
  imports DpCmd
begin

text \<open>
  The program around the packet path: timers (\<open>dataplane/src/platform/oct-init.c\<close>), the start of a core and
  the main loop (\<open>main.c\<close>), and the mapping of the rule table (\<open>dataplane/src/acl/dp_acl.c\<close>). One iteration of
  the loop is a function of the work queue entry it got; a run is a fold over entries. Tag, tag type
  and priority of an entry are not kept: the program only passes them on.
\<close>

section \<open>Timers\<close>

definition FROM_LINUX_GROUP :: nat where
  "FROM_LINUX_GROUP = 13"

definition FROM_INPUT_PORT_GROUP :: nat where
  "FROM_INPUT_PORT_GROUP = 0"

definition TIMER_GROUP :: nat where
  "TIMER_GROUP = 8"

definition TIMER_FLAG_OF_WORK :: u8 where
  "TIMER_FLAG_OF_WORK = 0x11"

definition TIMER_THREAD_MAGIC :: u32 where
  "TIMER_THREAD_MAGIC = 0xabab"

definition OCT_Timer_Init :: "int \<Rightarrow> int" where
  "OCT_Timer_Init status = (if status \<noteq> 0 then SEC_NO else SEC_OK)"

text \<open>
  \<open>OCT_Timer_Create\<close>: \<open>wqe\<close> is the entry of the hardware pool, \<open>result\<close> the answer of \<open>cvmx_tim_add_entry\<close>, 0 for success.
  The parameters behind \<open>param\<close> are not copied into the entry, and a refused entry is not given back.
\<close>

definition timer_work :: "nat \<Rightarrow> timer_fn option \<Rightarrow> u16 \<Rightarrow> work" where
  "timer_work grp fn tick = \<lparr>rcv_error = False, wq_bufs = 0, wq_packet_ptr = \<lparr>bp_addr = 0, bp_back = 0, bp_pool = 0\<rparr>, wq_port = 0, wq_len = 0,
     wq_data = [], wq_grp = grp, wq_size = 0, wq_unused8 = TIMER_FLAG_OF_WORK, wq_timer = \<lparr>t_magic = TIMER_THREAD_MAGIC, t_tick = tick, t_fn = fn\<rparr>\<rparr>"

definition OCT_Timer_Create :: "u64 \<Rightarrow> timer_fn option \<Rightarrow> u32 \<Rightarrow> u16 \<Rightarrow> nat option \<Rightarrow> int \<Rightarrow> main_state \<Rightarrow> int \<times> main_state" where
  "OCT_Timer_Create grp fn param_len tick wqe result s =
     (if grp \<ge> 16 \<or> param_len > 96 - 24 then (SEC_NO, s)
      else case wqe of
        None \<Rightarrow> (SEC_NO, s)
      | Some wq \<Rightarrow> (result, if result = 0 then s\<lparr>armed := armed s @ [(wq, timer_work (unat grp) fn tick)]\<rparr> else s))"

definition run_timer :: "main_env \<Rightarrow> timer_fn option \<Rightarrow> main_state \<Rightarrow> main_state res option" where
  "run_timer env fn s = (case fn of
     None \<Rightarrow> Some (Inr s)
   | Some Age_flows \<Rightarrow>
       fbind (FlowAgeTimeoutCB (loop_fuel env) (bucket_busy env) (oct_cpu_rate env) (timer_now env) (flows (plane s))) (\<lambda>t.
         Some (Inr (s\<lparr>plane := (plane s)\<lparr>flows := t\<rparr>\<rparr>)))
   | Some Age_frags \<Rightarrow>
       fbind (Frag_defrag_timeout (loop_fuel env) (bucket_busy env) (oct_cpu_rate env) (timer_now env) (plane s)) (\<lambda>p.
         Some (Inr (s\<lparr>plane := p\<rparr>))))"

definition OCT_Timer_Thread_Process :: "main_env \<Rightarrow> nat \<Rightarrow> work \<Rightarrow> main_state \<Rightarrow> main_state res option" where
  "OCT_Timer_Thread_Process env wq w s =
     (if TIMER_THREAD_MAGIC \<noteq> t_magic (wq_timer w) \<or> TIMER_FLAG_OF_WORK \<noteq> wq_unused8 w then Some (Inr s)
      else fbind (run_timer env (t_fn (wq_timer w)) s) (\<lambda>s1. Some (Inr (s1\<lparr>armed := armed s1 @ [(wq, w)]\<rparr>))))"

section \<open>The loop\<close>

definition receive :: "main_env \<Rightarrow> nat \<Rightarrow> work \<Rightarrow> main_state \<Rightarrow> main_state res option" where
  "receive env wq w s =
     fbind (Some (oct_rx_process_work (phys_to_ptr env) wq (wqe.truncate w) (rx_buf env) (plane s))) (\<lambda>(mb, p).
       case mb of
         None \<Rightarrow> Some (Inr (s\<lparr>plane := p\<rparr>))
       | Some m \<Rightarrow> fbind (Decode (packet_env env) m p) (\<lambda>p'. Some (Inr (s\<lparr>plane := p'\<rparr>))))"

definition dispatch :: "main_env \<Rightarrow> nat \<Rightarrow> work \<Rightarrow> main_state \<Rightarrow> main_state res option" where
  "dispatch env wq w s =
     (if wq_grp w = FROM_INPUT_PORT_GROUP then receive env wq w s
      else if wq_grp w = TIMER_GROUP then
        fbind (Some (wd_kick (local_cpu_id env) (sched s))) (\<lambda>d.
          OCT_Timer_Thread_Process env wq w (s\<lparr>global_time := global_time s + 1, sched := d\<rparr>))
      else if wq_grp w = FROM_LINUX_GROUP then Some (oct_rx_process_command env wq w s)
      else Some (Inr s))"

definition mainloop_body :: "main_env \<Rightarrow> (nat \<times> work) option \<Rightarrow> main_state \<Rightarrow> main_state res option" where
  "mainloop_body env work s =
     fbind (if oct_tx_entries (plane s) \<noteq> 0 then oct_tx_done_check (loop_fuel env) (plane s) else Some (Inr (plane s))) (\<lambda>p.
       case work of
         None \<Rightarrow> Some (Inr (s\<lparr>plane := p\<rparr>))
       | Some (wq, w) \<Rightarrow> dispatch env wq w (s\<lparr>plane := p\<rparr>))"

fun mainloop :: "(main_env \<times> (nat \<times> work) option) list \<Rightarrow> main_state \<Rightarrow> main_state res option" where
  "mainloop [] s = Some (Inr s)"
| "mainloop ((env, work) # rest) s = fbind (mainloop_body env work s) (mainloop rest)"

section \<open>Start\<close>

text \<open>
  \<open>DP_Acl_Rule_Init\<close>: \<open>fd\<close> is the result of \<open>shm_open\<close>, \<open>ptr\<close> that of \<open>mmap\<close>, which is \<open>MAP_FAILED\<close>, that is -1, on failure. The
  code compares with \<open>NULL\<close>.
\<close>

definition DP_Acl_Rule_Init :: "int \<Rightarrow> int \<Rightarrow> int \<times> int option" where
  "DP_Acl_Rule_Init fd ptr =
     (if fd < 0 then (SEC_NO, None)
      else if ptr = 0 then (SEC_NO, None)
      else (SEC_OK, Some ptr))"

text \<open>The answers of the platform during the start: allocations, and on the other cores the lookups of the named blocks.\<close>

record boot_env =
  is_init_core :: bool
  core_num :: nat
  tim_status :: int
  pool_blocks :: "nat option list"
  sos_block :: "nat option"
  sos_region_size :: u32
  sched_mem :: bool
  rxtx_mem :: bool
  found_pool :: bool
  found_sos :: bool
  found_sched :: bool
  found_rxtx :: bool
  stat_mem :: bool
  frag_mem :: bool
  frag_timer :: "nat option \<times> int"
  flow_mem :: bool
  flow_timer :: "nat option \<times> int"
  found_stat :: bool
  found_frag :: bool
  found_flow :: bool
  shm_fd :: int
  shm_ptr :: int

definition low_init_core :: "boot_env \<Rightarrow> main_state \<Rightarrow> (int \<times> main_state) res" where
  "low_init_core b s =
     (if OCT_Timer_Init (tim_status b) \<noteq> SEC_OK then Inr (SEC_NO, s)
      else let (r, k) = Mem_Pool_Init (pool_blocks b) (mem (plane s)); s1 = s\<lparr>plane := (plane s)\<lparr>mem := k\<rparr>\<rparr> in
        if r \<noteq> SEC_OK then Inr (SEC_NO, s1)
        else rbind (sos_mem_init (sos_block b) (sos_region_size b)) (\<lambda>(r, so).
          let s2 = (case so of None \<Rightarrow> s1 | Some x \<Rightarrow> s1\<lparr>sos := x\<rparr>) in
          if r \<noteq> SEC_OK then Inr (SEC_NO, s2)
          else case oct_sched_init (sched_mem b) of
            (r, None) \<Rightarrow> Inr (SEC_NO, s2)
          | (r, Some t) \<Rightarrow>
              let (r, p) = oct_rxtx_init (rxtx_mem b) (plane s2) in
              if r \<noteq> SEC_OK then Inr (SEC_NO, s2\<lparr>sched := t\<rparr>)
              else Inr (SEC_OK, s2\<lparr>plane := p, sched := wd_watchdog_init t\<rparr>)))"

definition low_other_core :: "boot_env \<Rightarrow> int" where
  "low_other_core b = (if found_pool b \<and> found_sos b \<and> found_sched b \<and> found_rxtx b then SEC_OK else SEC_NO)"

definition Sec_LowLevel_Init :: "boot_env \<Rightarrow> main_state \<Rightarrow> (int \<times> main_state) res" where
  "Sec_LowLevel_Init b s =
     rbind (if is_init_core b then low_init_core b s else Inr (low_other_core b, s)) (\<lambda>(r, s1).
       if r \<noteq> SEC_OK then Inr (SEC_NO, s1)
       else rbind (register_watchdog (core_num b) (sched s1)) (\<lambda>t. Inr (SEC_OK, s1\<lparr>sched := t\<rparr>)))"

definition create_timer :: "timer_fn \<Rightarrow> nat option \<times> int \<Rightarrow> main_state \<Rightarrow> int \<times> main_state" where
  "create_timer fn t = OCT_Timer_Create (of_nat TIMER_GROUP) (Some fn) 0 1000 (fst t) (snd t)"

text \<open>The failure of \<open>FragModule_init\<close> is printed and the start goes on.\<close>

definition high_init_core :: "boot_env \<Rightarrow> main_state \<Rightarrow> int \<times> main_state" where
  "high_init_core b s =
     (if \<not> stat_mem b then (SEC_NO, s)
      else
        let s1 = s\<lparr>plane := (plane s)\<lparr>stats := (\<lambda>_. 0)\<rparr>, pktstat_of := (\<lambda>_ _. 0)\<rparr>;
            (t, s2) = (if frag_mem b then create_timer Age_frags (frag_timer b) s1 else (0, s1));
            (r, p) = FragModule_init (frag_mem b) (t = 0) (plane s2);
            s3 = s2\<lparr>plane := p\<rparr>;
            (t, s4) = (if flow_mem b then create_timer Age_flows (flow_timer b) s3 else (0, s3));
            (r, f) = FlowInit (flow_mem b) (t = 0) (flows (plane s4));
            s5 = s4\<lparr>plane := (plane s4)\<lparr>flows := f\<rparr>\<rparr>
        in if r \<noteq> SEC_OK then (SEC_NO, s5) else (SEC_OK, s5))"

definition high_other_core :: "boot_env \<Rightarrow> int" where
  "high_other_core b = (if found_stat b \<and> found_frag b \<and> found_flow b then SEC_OK else SEC_NO)"

definition Sec_HighLevel_Init :: "boot_env \<Rightarrow> main_state \<Rightarrow> int \<times> main_state" where
  "Sec_HighLevel_Init b s =
     (let (r, s1) = (if is_init_core b then high_init_core b s else (high_other_core b, s)) in
      if r \<noteq> SEC_OK then (SEC_NO, s1)
      else if fst (DP_Acl_Rule_Init (shm_fd b) (shm_ptr b)) \<noteq> SEC_OK then (SEC_NO, s1)
      else (SEC_OK, s1))"

text \<open>\<open>main\<close> on the work it gets: a failed start ends the program.\<close>

definition main :: "boot_env \<Rightarrow> (main_env \<times> (nat \<times> work) option) list \<Rightarrow> main_state \<Rightarrow> main_state res option" where
  "main b input s =
     fbind (Some (Sec_LowLevel_Init b s)) (\<lambda>(r, s1).
       if r \<noteq> SEC_OK then Some (Inl Exit)
       else let (r, s2) = Sec_HighLevel_Init b s1 in
         if r \<noteq> SEC_OK then Some (Inl Exit) else mainloop input s2)"

end
