(* ===== verification/WorkLog.thy ===== *)
theory WorkLog
  imports MainLoop
begin

text \<open>
  Which operations give back work queue entries: only the receive routine and the release of a bad
  command. Everything behind them, decoding, reassembly, sending, completion and ageing, leaves the log of
  released entries alone.
\<close>

definition wqe_log :: "'a tx_state_scheme \<Rightarrow> nat list \<times> nat list" where
  "wqe_log s = (wqe_freed s, wqe_data_freed s)"

named_theorems log_simps \<open>updates that leave the log alone\<close>
named_theorems log_dest \<open>operations that leave the log alone\<close>

lemma wqe_log_updates [log_simps]:
  "wqe_log (STAT c s) = wqe_log s" "wqe_log (upd_mbuf mb g s) = wqe_log s" "wqe_log (s\<lparr>tx_done := x1\<rparr>) = wqe_log s"
  "wqe_log (s\<lparr>oct_tx_entries := x2\<rparr>) = wqe_log s" "wqe_log (s\<lparr>pko_sent := x3\<rparr>) = wqe_log s" "wqe_log (s\<lparr>mem := x4\<rparr>) = wqe_log s"
  "wqe_log (s\<lparr>mbufs := x5\<rparr>) = wqe_log s" "wqe_log (s\<lparr>flows := x6\<rparr>) = wqe_log s" "wqe_log (s\<lparr>mctrl := x7\<rparr>) = wqe_log s"
  "wqe_log (s\<lparr>hw_freed := x8\<rparr>) = wqe_log s" "wqe_log (s\<lparr>host_freed := x9\<rparr>) = wqe_log s" "wqe_log (mbuf_free mb s) = wqe_log s"
  "wqe_log (packet_destroy_data mb s) = wqe_log s" "wqe_log (packet_destory_rawdata b s) = wqe_log s"
  by (simp_all add: wqe_log_def STAT_def upd_mbuf_def mbuf_free_eq packet_destroy_data_def packet_destory_rawdata_def Let_def)

lemma wqe_log_dp_updates [log_simps]:
  "wqe_log (upd_fcb f h s) = wqe_log s" "wqe_log (s\<lparr>fh := x1\<rparr>) = wqe_log s" "wqe_log (s\<lparr>fcbs := x2\<rparr>) = wqe_log s" "wqe_log (s\<lparr>del_fcb := x3\<rparr>) = wqe_log s"
  "wqe_log (fcb_free f s) = wqe_log s"
  by (simp_all add: wqe_log_def upd_fcb_def fcb_free_def)

lemmas run_simps = rbind_Inr_iff fbind_Some_Inr_iff Let_def

section \<open>Sending\<close>

lemma packet_destroy_all_log [log_dest]: "packet_destroy_all mb s = Inr s' \<Longrightarrow> wqe_log s' = wqe_log s"
  by (auto elim!: packet_destroy_all_cases simp: log_simps)

lemma mbuf_alloc_log [log_dest]: "mbuf_alloc buf s = (r, s') \<Longrightarrow> wqe_log s' = wqe_log s"
  by (auto simp: mbuf_alloc_def log_simps split: option.splits)

lemma oct_tx_process_mbuf_log [log_dest]: "oct_tx_process_mbuf ok mb port s = Inr s' \<Longrightarrow> wqe_log s' = wqe_log s"
  by (auto simp: oct_tx_process_mbuf_def run_simps log_simps dest!: log_dest split: if_splits)

lemma l7_deliver_log [log_dest]: "l7_deliver ok mb s = Inr s' \<Longrightarrow> wqe_log s' = wqe_log s"
  by (auto simp: l7_deliver_def dest!: log_dest)

lemma tx_done_loop_log [log_dest]: "tx_done_loop n port c s = Some (Inr s') \<Longrightarrow> wqe_log s' = wqe_log s"
  by (induction n port c s rule: tx_done_loop.induct) (auto simp: run_simps log_simps dest!: log_dest split: if_splits)

lemma tx_done_ports_log [log_dest]: "tx_done_ports fuel ports s = Some (Inr s') \<Longrightarrow> wqe_log s' = wqe_log s"
  by (induction fuel ports s rule: tx_done_ports.induct) (auto simp: run_simps dest!: log_dest split: if_splits)

lemma oct_tx_done_check_log [log_dest]: "oct_tx_done_check fuel s = Some (Inr s') \<Longrightarrow> wqe_log s' = wqe_log s"
  by (auto simp: oct_tx_done_check_def dest!: log_dest)

section \<open>Reassembly\<close>

lemma packet_hw2sw_log [log_dest]: "packet_hw2sw mb s = Inr (r, s') \<Longrightarrow> wqe_log s' = wqe_log s"
  by (auto simp: packet_hw2sw_def run_simps log_simps split: if_splits option.splits prod.splits)

lemma destroy_list_log [log_dest]: "rfold packet_destroy_all xs s = Inr s' \<Longrightarrow> wqe_log s' = wqe_log s"
  by (induction xs arbitrary: s) (auto simp: run_simps dest!: log_dest)

lemma freefrags_log [log_dest]: "Frag_defrag_freefrags f s = Inr s' \<Longrightarrow> wqe_log s' = wqe_log s"
  by (auto simp: Frag_defrag_freefrags_def run_simps log_simps dest!: log_dest)

lemma setup_log [log_dest]: "Frag_defrag_setup buf h0 f s = Inr (r, s') \<Longrightarrow> wqe_log s' = wqe_log s"
  by (auto simp: Frag_defrag_setup_def run_simps log_simps dest!: log_dest split: option.splits prod.splits)

lemma reasm_log [log_dest]: "Frag_defrag_reasm buf f s = Inr (r, s') \<Longrightarrow> wqe_log s' = wqe_log s"
  by (auto simp: Frag_defrag_reasm_def run_simps log_simps dest!: log_dest split: list.splits if_splits option.splits prod.splits)

lemma frag_err_log [log_dest]: "frag_err mb s = Inr (r, s') \<Longrightarrow> wqe_log s' = wqe_log s"
  by (auto simp: frag_err_def run_simps log_simps dest!: log_dest)

lemma process_log [log_dest]:
  assumes "Frag_defrag_process buf mb f s = Inr (r, s')"
  shows "wqe_log s' = wqe_log s"
proof -
  have last: "(if P then Frag_defrag_reasm buf f t else Inr (None, STAT FRAG_CACHE_OK t)) = Inr (r, s') \<Longrightarrow> wqe_log s' = wqe_log t" for P t
    by (auto simp: log_simps dest: reasm_log split: if_splits)
  show ?thesis
  proof (cases "c_last_in (fcbs s f) AND DEFRAG_COMPLETE \<noteq> 0")
    case True
    with assms show ?thesis by (auto simp: Frag_defrag_process_def Let_def dest: frag_err_log)
  next
    case False
    note eq = assms [unfolded Frag_defrag_process_def Let_def if_not_P [OF False]]
    then obtain mf where mf: "IPV4_GET_MF (mbufs s mb) = Inr mf" by (cases "IPV4_GET_MF (mbufs s mb)") simp_all
    let ?fin = "frag_offset (mbufs s mb) + frag_len (mbufs s mb)"
    show ?thesis
    proof (cases "frag_bounds mf ?fin (fcbs s f)")
      case None
      with eq mf show ?thesis by (simp add: frag_err_log)
    next
      case (Some c1)
      show ?thesis
      proof (cases "frag_overlap (mbufs s) (frag_offset (mbufs s mb)) ?fin (frag_split (mbufs s) (frag_offset (mbufs s mb)) (c_fragments c1))")
        case True
        with eq mf Some have "wqe_log s' = wqe_log (upd_fcb f (\<lambda>_. c1) s)" by (simp add: frag_err_log)
        then show ?thesis by (simp add: log_simps)
      next
        case False
        from last [OF eq [unfolded mf Some rbind_simps option.case if_not_P [OF False]]] show ?thesis by (simp add: log_simps)
      qed
    qed
  qed
qed

lemma begin_log [log_dest]: "Frag_defrag_begin buf mb f s = Inr (r, s') \<Longrightarrow> wqe_log s' = wqe_log s"
  by (auto simp: Frag_defrag_begin_def run_simps log_simps dest!: log_dest split: if_splits)

lemma FragFind_log [log_dest]: "FragFind fuel now b mb s = Some (Inr (r, s')) \<Longrightarrow> wqe_log s' = wqe_log s"
  by (auto simp: FragFind_def run_simps log_simps split: option.splits)

lemma fcb_create_log [log_dest]: "fcb_create buf mb s = (r, s') \<Longrightarrow> wqe_log s' = wqe_log s"
  by (auto simp: fcb_create_def fcb_alloc_def log_simps split: option.splits)

lemma fcb_insert_log [log_dest]: "fcb_insert b f s = Inr s' \<Longrightarrow> wqe_log s' = wqe_log s"
  by (auto simp: fcb_insert_def run_simps log_simps)

lemma Defrag_log [log_dest]: "Defrag fuel fbuf mbuf now mb s = Some (Inr (r, s')) \<Longrightarrow> wqe_log s' = wqe_log s"
  by (auto simp: Defrag_def run_simps log_simps dest!: log_dest split: option.splits prod.splits)

section \<open>Decoding\<close>

lemma FlowHandlePacket_log [log_dest]: "FlowHandlePacket e mb s = Some (Inr s') \<Longrightarrow> wqe_log s' = wqe_log s"
  by (auto simp: FlowHandlePacket_def run_simps log_simps case_prod_beta dest!: packet_destroy_all_log l7_deliver_log split: option.splits)

lemma DecodeTCPPacket_log [log_dest]: "DecodeTCPPacket mb pkt len s = Inr (r, s') \<Longrightarrow> wqe_log s' = wqe_log s"
  by (auto simp: DecodeTCPPacket_def run_simps log_simps split: if_splits)

lemma DecodeUDPPacket_log [log_dest]: "DecodeUDPPacket mb pkt len s = Inr (r, s') \<Longrightarrow> wqe_log s' = wqe_log s"
  by (auto simp: DecodeUDPPacket_def run_simps log_simps split: if_splits)

lemma DecodeTCP_log [log_dest]: "DecodeTCP e mb pkt len s = Some (Inr (r, s')) \<Longrightarrow> wqe_log s' = wqe_log s"
  by (auto simp: DecodeTCP_def run_simps log_simps dest!: log_dest split: if_splits)

lemma DecodeUDP_log [log_dest]: "DecodeUDP e mb pkt len s = Some (Inr (r, s')) \<Longrightarrow> wqe_log s' = wqe_log s"
  by (auto simp: DecodeUDP_def run_simps log_simps dest!: log_dest split: if_splits)

lemma DecodeIPV4Packet_log [log_dest]: "DecodeIPV4Packet mb pkt len s = Inr (r, s') \<Longrightarrow> wqe_log s' = wqe_log s"
  by (auto simp: DecodeIPV4Packet_def run_simps log_simps split: if_splits)

lemma transport_log [log_dest]: "transport e mb s = Some (Inr (r, s')) \<Longrightarrow> wqe_log s' = wqe_log s"
  by (auto simp: transport_def run_simps log_simps dest!: log_dest split: if_splits)

lemma DecodeIPV4_log [log_dest]: "DecodeIPV4 e mb pkt len s = Some (Inr (r, s')) \<Longrightarrow> wqe_log s' = wqe_log s"
  by (auto simp: DecodeIPV4_def run_simps log_simps dest!: log_dest split: if_splits option.splits)

lemma DecodeVLAN_log [log_dest]: "DecodeVLAN e mb pkt len s = Some (Inr (r, s')) \<Longrightarrow> wqe_log s' = wqe_log s"
proof (induction e mb pkt len s rule: DecodeVLAN.induct)
  case (1 e mb pkt len s)
  from "1.prems" show ?case
    by (subst (asm) DecodeVLAN.simps) (auto simp: Let_def log_simps simp del: DecodeVLAN.simps dest!: DecodeIPV4_log "1.IH" split: if_splits sum.splits)
qed

lemma DecodeEthernet_log [log_dest]: "DecodeEthernet e mb pkt len s = Some (Inr (r, s')) \<Longrightarrow> wqe_log s' = wqe_log s"
  by (auto simp: DecodeEthernet_def run_simps log_simps simp del: DecodeVLAN.simps dest!: DecodeIPV4_log DecodeVLAN_log split: if_splits)

lemma Decode_log [log_dest]: "Decode e mb s = Some (Inr s') \<Longrightarrow> wqe_log s' = wqe_log s"
  by (auto simp: Decode_def run_simps log_simps dest!: log_dest split: if_splits)

section \<open>Ageing\<close>

lemma age_fcb_log [log_dest]: "age_fcb rate now f s = Inr s' \<Longrightarrow> wqe_log s' = wqe_log s"
  by (auto simp: age_fcb_def run_simps log_simps split: if_splits)

lemma reap_fcb_log [log_dest]: "reap_fcb f s = Inr s' \<Longrightarrow> wqe_log s' = wqe_log s"
  by (auto simp: reap_fcb_def run_simps log_simps dest!: log_dest)

lemma walk_log:
  assumes "\<And>a s s'. body a s = Inr s' \<Longrightarrow> wqe_log s' = wqe_log s"
  shows "hlist_for_each_safe n body hp l s = Some (Inr s') \<Longrightarrow> wqe_log s' = wqe_log s"
proof (induction n arbitrary: l s)
  case (Suc n)
  then show ?case by (cases l) (auto simp: run_simps dest!: assms)
qed simp

lemma frag_age_bucket_log [log_dest]:
  assumes "frag_age_bucket fuel busy rate now i s = Some (Inr s')"
  shows "wqe_log s' = wqe_log s"
proof (cases "busy i")
  case True
  with assms show ?thesis by (auto simp: frag_age_bucket_def log_simps)
next
  case False
  let ?s = "s\<lparr>fh := INIT_HLIST_HEAD frag_timeout_head (fh s)\<rparr>"
  obtain a where a: "hlist_for_each_safe fuel (age_fcb rate now) fh (first (fh ?s) i) ?s = Some (Inr a)"
    "hlist_for_each_safe fuel reap_fcb fh (first (fh a) frag_timeout_head) a = Some (Inr s')"
    using assms False by (auto simp: frag_age_bucket_def run_simps)
  have "wqe_log a = wqe_log ?s" using age_fcb_log a(1) by (rule walk_log)
  moreover have "wqe_log s' = wqe_log a" using reap_fcb_log a(2) by (rule walk_log)
  ultimately show ?thesis by (simp add: log_simps)
qed

lemma frag_age_from_log [log_dest]: "frag_age_from fuel busy rate now is s = Some (Inr s') \<Longrightarrow> wqe_log s' = wqe_log s"
  by (induction fuel busy rate now "is" s rule: frag_age_from.induct) (auto simp: run_simps dest!: log_dest)

lemma Frag_defrag_timeout_log [log_dest]: "Frag_defrag_timeout fuel busy rate now s = Some (Inr s') \<Longrightarrow> wqe_log s' = wqe_log s"
  by (auto simp: Frag_defrag_timeout_def dest!: log_dest)

end
