(* ===== verification/SosInv.thy ===== *)
theory SosInv
  imports SosMalloc
begin

text \<open>
  The invariant of the small object allocator: where its blocks lie, which slices and list heads belong
  to which size, and that links never leave a size.
\<close>

section \<open>Sizes\<close>

lemma size_cases:
  assumes "c < SOS_SIZE_NUM"
  shows "c \<in> set [0, 1, 2, 3, 4, 5, 6, 7, 8, 9, 10, 11]"
proof -
  have "c \<in> set [0..<12]" using assms by (simp add: SOS_SIZE_NUM_def)
  then show ?thesis by (simp add: upt_rec eval_nat_numeral)
qed

lemma request_size_exact:
  assumes "c < SOS_SIZE_NUM"
  shows "unat (request_size c) = unat (slice_whole c) * unat (snd (sos_mem_size ! c))" "unat (slice_whole c) = unat (fst (sos_mem_size ! c)) + 36"
    "unat (request_size c) \<le> 409600" "4 dvd unat (snd (sos_mem_size ! c))"
  using size_cases [OF assms]
  by (auto simp: request_size_def slice_whole_def sos_mem_size_def SOS_MEM_SLICE_HEAD_SIZE_def SOS_MEM_TAIL_MAGIC_SIZE_def)

section \<open>Blocks\<close>

definition slices_of :: "sos_block \<Rightarrow> nat set" where
  "slices_of b = (\<lambda>k. b_start b + k * unat (slice_whole (b_type b))) ` {..<unat (snd (sos_mem_size ! b_type b))}"

text \<open>\<open>bs\<close> are blocks one behind the other from \<open>p\<close> up to \<open>q\<close>.\<close>

fun laid :: "nat \<Rightarrow> sos_block list \<Rightarrow> nat \<Rightarrow> bool" where
  "laid p [] q \<longleftrightarrow> p = q"
| "laid p (b # bs) q \<longleftrightarrow> b_start b = p \<and> b_type b < SOS_SIZE_NUM \<and> b_len b = request_size (b_type b) \<and> laid (p + unat (b_len b)) bs q"

lemma laid_append: "laid p (bs @ [b]) q \<longleftrightarrow> (\<exists>r. laid p bs r \<and> b_start b = r \<and> b_type b < SOS_SIZE_NUM \<and> b_len b = request_size (b_type b) \<and> q = r + unat (b_len b))"
  by (induction bs arbitrary: p) auto

lemma laid_le: "laid p bs q \<Longrightarrow> p \<le> q"
  by (induction bs arbitrary: p) (auto dest: add_leD1)

lemma laid_within: "laid p bs q \<Longrightarrow> b \<in> set bs \<Longrightarrow> p \<le> b_start b \<and> b_start b + unat (b_len b) \<le> q \<and> b_type b < SOS_SIZE_NUM \<and> b_len b = request_size (b_type b)"
proof (induction bs arbitrary: p)
  case (Cons a bs)
  then show ?case using laid_le [of "p + unat (b_len a)" bs q] by (cases "b = a") (fastforce dest: add_leD1)+
qed simp

lemma slices_of_within:
  assumes "b_type b < SOS_SIZE_NUM" "b_len b = request_size (b_type b)" "a \<in> slices_of b"
  shows "b_start b \<le> a" "a + unat (slice_whole (b_type b)) \<le> b_start b + unat (b_len b)"
proof -
  let ?w = "unat (slice_whole (b_type b))" and ?n = "unat (snd (sos_mem_size ! b_type b))"
  obtain k where k: "a = b_start b + k * ?w" "k < ?n" using assms(3) by (auto simp: slices_of_def)
  have "(k + 1) * ?w \<le> ?n * ?w" using k(2) by (intro mult_right_mono) simp_all
  then show "a + ?w \<le> b_start b + unat (b_len b)" using k(1) request_size_exact(1) [OF assms(1)] assms(2) by (simp add: mult.commute)
  show "b_start b \<le> a" using k(1) by simp
qed

lemma slices_disjoint:
  assumes "laid p bs q" "b \<in> set bs" "b' \<in> set bs" "a \<in> slices_of b" "a \<in> slices_of b'"
  shows "b_type b = b_type b'"
  using assms
proof (induction bs arbitrary: p)
  case (Cons d bs)
  have pos: "0 < unat (slice_whole (b_type x))" if "x \<in> set (d # bs)" for x
    using laid_within [OF Cons.prems(1) that] request_size_exact(2) by simp
  have tail: "p + unat (b_len d) \<le> x" if "y \<in> set bs" "x \<in> slices_of y" for x y
    using laid_within [of "p + unat (b_len d)" bs q y] slices_of_within(1) [of y x] that Cons.prems(1) by force
  have first: "x < p + unat (b_len d)" if "x \<in> slices_of d" for x
    using slices_of_within(2) [of d x] pos [of d] that Cons.prems(1) by simp
  show ?case
  proof (cases "b \<in> set bs \<and> b' \<in> set bs")
    case True
    have "laid (p + unat (b_len d)) bs q" using Cons.prems(1) unfolding laid.simps by blast
    then show ?thesis by (rule Cons.IH) (use True Cons.prems in simp_all)
  next
    case False
    then show ?thesis using Cons.prems(2-5) tail [of b a] tail [of b' a] first [of a] by auto
  qed
qed simp

section \<open>Ownership of links\<close>

definition own :: "sos_block list \<Rightarrow> nat \<Rightarrow> lptr \<Rightarrow> bool" where
  "own bs c p = (case p of
     LHead k \<Rightarrow> k div SOS_MEM_CHAIN_INTERNAL_NUM = c
   | LNode a \<Rightarrow> (\<exists>b \<in> set bs. b_type b = c \<and> a \<in> slices_of b)
   | _ \<Rightarrow> False)"

definition okp :: "sos_block list \<Rightarrow> nat \<Rightarrow> lptr \<Rightarrow> bool" where
  "okp bs c p \<longleftrightarrow> p = LNull \<or> p = LPoison \<or> own bs c p"

definition sized :: "sos_block list \<Rightarrow> lstore \<Rightarrow> bool" where
  "sized bs S \<longleftrightarrow> (\<forall>c p. own bs c p \<longrightarrow> okp bs c (lnext S p) \<and> okp bs c (lprev S p)) \<and>
     (\<forall>p. (\<forall>c. \<not> own bs c p) \<longrightarrow> lnext S p = LNull \<and> lprev S p = LNull)"

lemma own_unique: "laid p bs q \<Longrightarrow> own bs c x \<Longrightarrow> own bs c' x \<Longrightarrow> c = c'"
  by (auto simp: own_def split: lptr.splits dest: slices_disjoint)

lemma own_okp [simp]: "own bs c p \<Longrightarrow> okp bs c p" "okp bs c LNull" "okp bs c LPoison"
  by (simp_all add: okp_def)

lemma own_head [simp]: "i < SOS_MEM_CHAIN_INTERNAL_NUM \<Longrightarrow> own bs c (LHead (head_no c i))"
  by (simp add: own_def head_no_def SOS_MEM_CHAIN_INTERNAL_NUM_def)

lemma deref_Inr: "deref p x = Inr y \<longleftrightarrow> y = x \<and> p \<noteq> LNull \<and> p \<noteq> LPoison"
  by (cases p) auto

lemma sized_set:
  assumes l: "laid p bs q" and s: "sized bs S" and o: "own bs c x" "okp bs c v"
  shows "set_next x v S = Inr S' \<Longrightarrow> sized bs S'" "set_prev x v S = Inr S' \<Longrightarrow> sized bs S'"
proof -
  have u: "okp bs d (f y)" if "own bs d y" "\<And>y. own bs d y \<Longrightarrow> okp bs d (g y)" "f = g(x := v)" for d y f g
    using that own_unique [OF l that(1), of c] o by (cases "y = x") auto
  have w: "f y = LNull" if "\<forall>d. \<not> own bs d y" "\<forall>y. (\<forall>d. \<not> own bs d y) \<longrightarrow> g y = LNull" "f = g(x := v)" for y f g
    using that o by auto
  show "sized bs S'" if "set_next x v S = Inr S'"
    using s that unfolding sized_def set_next_def deref_Inr by (auto simp del: fun_upd_apply intro: u [where g = "lnext S"] w [where g = "lnext S"])
  show "sized bs S'" if "set_prev x v S = Inr S'"
    using s that unfolding sized_def set_prev_def deref_Inr by (auto simp del: fun_upd_apply intro: u [where g = "lprev S"] w [where g = "lprev S"])
qed

lemma sized_get:
  assumes "sized bs S" "own bs c x"
  shows "get_next x S = Inr v \<Longrightarrow> okp bs c v" "get_prev x S = Inr v \<Longrightarrow> okp bs c v"
  using assms by (auto simp: sized_def get_next_def get_prev_def deref_Inr)

lemma okp_set: "okp bs c x \<Longrightarrow> set_next x v S = Inr S' \<Longrightarrow> own bs c x" "okp bs c x \<Longrightarrow> set_prev x v S = Inr S' \<Longrightarrow> own bs c x"
  by (auto simp: okp_def set_next_def set_prev_def)

lemma sized_list_add:
  assumes l: "laid p bs q" and s: "sized bs S" and o: "own bs c x" "own bs c h" and a: "list_add x h S = Inr S'"
  shows "sized bs S'"
proof -
  obtain n S1 S2 S3 where n: "get_next h S = Inr n" and st: "set_prev n x S = Inr S1" "set_next x n S1 = Inr S2" "set_prev x h S2 = Inr S3" "set_next h x S3 = Inr S'"
    using a by (auto simp: list_add_def list_add_raw_def rbind_Inr_iff)
  have on: "own bs c n" using sized_get(1) [OF s o(2) n] st(1) by (rule okp_set)
  have "sized bs S1" by (rule sized_set(2) [OF l s on _ st(1)]) (use o in simp)
  then have "sized bs S2" by (rule sized_set(1) [OF l _ o(1) _ st(2)]) (use on in simp)
  then have "sized bs S3" by (rule sized_set(2) [OF l _ o(1) _ st(3)]) (use o in simp)
  then show ?thesis by (rule sized_set(1) [OF l _ o(2) _ st(4)]) (use o in simp)
qed

lemma sized_list_del:
  assumes l: "laid p bs q" and s: "sized bs S" and o: "own bs c x" and d: "list_del x S = Inr S'"
  shows "sized bs S'"
proof -
  obtain pr nx S1 S2 S3 where g: "get_prev x S = Inr pr" "get_next x S = Inr nx" and st: "set_prev nx pr S = Inr S1" "set_next pr nx S1 = Inr S2"
    "set_next x LPoison S2 = Inr S3" "set_prev x LPoison S3 = Inr S'"
    using d by (auto simp: list_del_def list_unlink_def list_del_raw_def rbind_Inr_iff)
  have op: "own bs c pr" using sized_get(2) [OF s o g(1)] st(2) by (rule okp_set)
  have on: "own bs c nx" using sized_get(1) [OF s o g(2)] st(1) by (rule okp_set)
  have "sized bs S1" by (rule sized_set(2) [OF l s on _ st(1)]) (use op in simp)
  then have "sized bs S2" by (rule sized_set(1) [OF l _ op _ st(2)]) (use on in simp)
  then have "sized bs S3" by (rule sized_set(1) [OF l _ o _ st(3)]) simp
  then show ?thesis by (rule sized_set(2) [OF l _ o _ st(4)]) simp
qed

lemma sized_init:
  assumes "laid p bs q" "sized bs S" "i < SOS_MEM_CHAIN_INTERNAL_NUM" "INIT_LIST_HEAD (LHead (head_no c i)) S = Inr S'"
  shows "sized bs S'"
proof -
  obtain S1 where "set_next (LHead (head_no c i)) (LHead (head_no c i)) S = Inr S1" "set_prev (LHead (head_no c i)) (LHead (head_no c i)) S1 = Inr S'"
    using assms(4) by (auto simp: INIT_LIST_HEAD_def rbind_Inr_iff)
  then show ?thesis using assms(2,3) by (meson own_head own_okp(1) sized_set [OF assms(1)])
qed

lemma own_mono: "own bs c p \<Longrightarrow> own (bs @ [b]) c p"
  by (auto simp: own_def split: lptr.splits)

lemma sized_extend:
  assumes l: "laid p (bs @ [b]) q" and s: "sized bs S"
  shows "sized (bs @ [b]) S"
proof -
  have "okp (bs @ [b]) c (lnext S x) \<and> okp (bs @ [b]) c (lprev S x)" if o: "own (bs @ [b]) c x" for c x
  proof (cases "\<exists>c'. own bs c' x")
    case True
    then obtain c' where c': "own bs c' x" by blast
    then have "c' = c" using own_unique [OF l o own_mono] by simp
    then have "okp bs c (lnext S x)" "okp bs c (lprev S x)" using c' s by (simp_all add: sized_def)
    then show ?thesis unfolding okp_def using own_mono by blast
  qed (use s in \<open>simp add: sized_def\<close>)
  moreover have "lnext S x = LNull \<and> lprev S x = LNull" if "\<forall>c. \<not> own (bs @ [b]) c x" for x
  proof -
    have "\<not> own bs c x" for c using that own_mono by blast
    then show ?thesis using s by (simp add: sized_def)
  qed
  ultimately show ?thesis unfolding sized_def by blast
qed

section \<open>List heads\<close>

text \<open>The first \<open>n\<close> list heads point to a node or a head, so that a list operation on them can follow the link.\<close>

definition alive :: "lptr \<Rightarrow> bool" where
  "alive p \<longleftrightarrow> p \<noteq> LNull \<and> p \<noteq> LPoison"

definition lives :: "nat \<Rightarrow> lstore \<Rightarrow> bool" where
  "lives n S \<longleftrightarrow> (\<forall>k < n. alive (lnext S (LHead k)))"

lemma alive_deref: "alive p \<Longrightarrow> deref p x = Inr x"
  by (cases p) (simp_all add: alive_def)

lemma list_add_lives:
  assumes "lives n S" "k < n"
  shows "\<exists>S'. list_add (LNode a) (LHead k) S = Inr S' \<and> lives n S'"
proof -
  have "alive (lnext S (LHead k))" using assms by (simp add: lives_def)
  with assms show ?thesis by (simp add: list_ops alive_deref) (simp add: lives_def alive_def)
qed

lemma list_del_lives:
  assumes "lives n S" "list_del (LNode a) S = Inr S'"
  shows "lives n S'"
  using assms by (auto simp: list_ops rbind_Inr_iff deref_Inr lives_def alive_def split: if_splits)

lemma INIT_LIST_HEAD_lives: "lives n S \<Longrightarrow> \<exists>S'. INIT_LIST_HEAD (LHead n) S = Inr S' \<and> lives (Suc n) S'"
  by (auto simp: list_ops lives_def alive_def less_Suc_eq)

section \<open>Headers\<close>

definition headers :: "sos_block list \<Rightarrow> (nat \<Rightarrow> slice_head) \<Rightarrow> bool" where
  "headers bs H \<longleftrightarrow> (\<forall>a. (\<forall>b \<in> set bs. a \<notin> slices_of b) \<longrightarrow> H a = zero_slice) \<and>
     (\<forall>a. \<forall>b \<in> set bs. a \<in> slices_of b \<longrightarrow> headmagic (H a) = SOS_MEM_HEAD_MAGIC \<longrightarrow>
        unat (slice_type (H a)) = b_type b \<and> unat (subchain_id (H a)) < SOS_MEM_CHAIN_INTERNAL_NUM)"

definition linked :: "sos_block list \<Rightarrow> nat \<Rightarrow> sos_state \<Rightarrow> bool" where
  "linked bs n s \<longleftrightarrow> sized bs (ls s) \<and> lives n (ls s) \<and> headers bs (slice s)"

text \<open>What cutting a block leaves alone.\<close>

definition same :: "sos_state \<Rightarrow> sos_state \<Rightarrow> bool" where
  "same s s' \<longleftrightarrow> r_start s' = r_start s \<and> total_size s' = total_size s \<and> current_size s' = current_size s \<and>
     current_start s' = current_start s \<and> block_num s' = block_num s \<and> blocks s' = blocks s \<and> gindex s' = gindex s \<and>
     (\<forall>a. sref (slice s' a) = sref (slice s a))"

lemma same_refl [simp]: "same s s"
  by (simp add: same_def)

lemma same_trans: "same s s' \<Longrightarrow> same s' s'' \<Longrightarrow> same s s''"
  by (simp add: same_def)

lemma same_schain [simp]: "same s (s'\<lparr>schain := x\<rparr>) = same s s'" "same s (s'\<lparr>ls := y\<rparr>) = same s s'"
  by (simp_all add: same_def)

lemma headers_upd:
  assumes l: "laid p bs q" and h: "headers bs H" and b: "b \<in> set bs" "a \<in> slices_of b"
    and v: "headmagic v = SOS_MEM_HEAD_MAGIC \<longrightarrow> unat (slice_type v) = b_type b \<and> unat (subchain_id v) < SOS_MEM_CHAIN_INTERNAL_NUM"
  shows "headers bs (H(a := v))"
proof -
  have t: "b_type b' = b_type b" if "b' \<in> set bs" "a \<in> slices_of b'" for b'
    using slices_disjoint [OF l that(1) b(1) that(2) b(2)] .
  show ?thesis unfolding headers_def
  proof (intro conjI allI ballI impI)
    show "(H(a := v)) x = zero_slice" if "\<forall>b \<in> set bs. x \<notin> slices_of b" for x using that h b by (auto simp: headers_def)
  next
    fix x b' assume x: "b' \<in> set bs" "x \<in> slices_of b'" "headmagic ((H(a := v)) x) = SOS_MEM_HEAD_MAGIC"
    show "unat (slice_type ((H(a := v)) x)) = b_type b'" using x v t [of b'] h by (cases "x = a") (auto simp: headers_def)
    show "unat (subchain_id ((H(a := v)) x)) < SOS_MEM_CHAIN_INTERNAL_NUM" using x v h by (cases "x = a") (auto simp: headers_def)
  qed
qed

lemma slice_addr_in:
  assumes "b_type b < SOS_SIZE_NUM" "i < SOS_MEM_CHAIN_INTERNAL_NUM" "j < unat (snd (sos_mem_size ! b_type b)) div SOS_MEM_CHAIN_INTERNAL_NUM"
  shows "slice_addr (b_start b) (slice_whole (b_type b)) i j \<in> slices_of b"
proof -
  let ?n = "unat (snd (sos_mem_size ! b_type b))" and ?w = "unat (slice_whole (b_type b))"
  have "i * j \<le> 3 * j" using assms(2) by (intro mult_right_mono) (simp_all add: SOS_MEM_CHAIN_INTERNAL_NUM_def)
  moreover have "4 * j < ?n" using assms(3) by (simp add: SOS_MEM_CHAIN_INTERNAL_NUM_def)
  ultimately have ij: "i * j < ?n" by linarith
  have "i * j * ?w \<le> ?n * ?w" using ij by (intro mult_right_mono) simp_all
  also have "\<dots> \<le> 409600" using request_size_exact(1,3) [OF assms(1)] by (simp add: mult.commute)
  finally have "i * j * ?w \<le> 409600" .
  moreover have "unat (of_nat (i * j) * slice_whole (b_type b)) = i * j * ?w mod 2 ^ 32"
    by (simp add: unat_word_ariths unat_of_nat mod_mult_left_eq del: of_nat_mult)
  ultimately have "slice_addr (b_start b) (slice_whole (b_type b)) i j = b_start b + i * j * ?w" by (simp add: slice_addr_def)
  with ij show ?thesis by (auto simp: slices_of_def)
qed

lemma link_slice_linked:
  assumes l: "laid p bs q" and b: "b \<in> set bs" "b_type b < SOS_SIZE_NUM" and s: "linked bs n s"
    and i: "i < SOS_MEM_CHAIN_INTERNAL_NUM" "head_no (b_type b) i < n" and j: "j < unat (snd (sos_mem_size ! b_type b)) div SOS_MEM_CHAIN_INTERNAL_NUM"
  shows "\<exists>s'. link_slice (b_type b) (b_start b) (slice_whole (b_type b)) i j s = Inr s' \<and> linked bs n s' \<and> same s s'"
proof -
  define a where "a = slice_addr (b_start b) (slice_whole (b_type b)) i j"
  have a: "a \<in> slices_of b" unfolding a_def by (rule slice_addr_in [OF b(2) i(1) j])
  obtain L where L: "list_add (LNode a) (LHead (head_no (b_type b) i)) (ls s) = Inr L" "lives n L"
    using list_add_lives [of n "ls s"] i(2) s unfolding linked_def by blast
  have "sized bs L" by (rule sized_list_add [OF l _ _ own_head [OF i(1)] L(1)]) (use s a b in \<open>auto simp: linked_def own_def\<close>)
  moreover have "headers bs ((slice s)(a := (slice s a)\<lparr>headmagic := SOS_MEM_HEAD_MAGIC, subchain_id := of_nat i, slice_type := of_nat (b_type b), tailmagic := SOS_MEM_TAIL_MAGIC\<rparr>))"
    by (rule headers_upd [OF l _ b(1) a]) (use s i(1) b(2) in \<open>simp_all add: linked_def unat_of_nat SOS_MEM_CHAIN_INTERNAL_NUM_def SOS_SIZE_NUM_def\<close>)
  ultimately show ?thesis using L by (simp add: link_slice_def Let_def linked_def same_def flip: a_def)
qed

lemma link_chain_linked:
  assumes "laid p bs q" "b \<in> set bs" "b_type b < SOS_SIZE_NUM" "linked bs n s" "i < SOS_MEM_CHAIN_INTERNAL_NUM" "head_no (b_type b) i < n"
  shows "\<exists>s'. link_chain (b_type b) (b_start b) (slice_whole (b_type b)) (unat (snd (sos_mem_size ! b_type b)) div SOS_MEM_CHAIN_INTERNAL_NUM) i s = Inr s' \<and> linked bs n s' \<and> same s s'"
  unfolding link_chain_def
proof (rule rfold_upt [where P = "\<lambda>_ s'. linked bs n s' \<and> same s s'"])
  fix j t assume j: "j < unat (snd (sos_mem_size ! b_type b)) div SOS_MEM_CHAIN_INTERNAL_NUM" and t: "linked bs n t \<and> same s t"
  show "\<exists>s'. link_slice (b_type b) (b_start b) (slice_whole (b_type b)) i j t = Inr s' \<and> linked bs n s' \<and> same s s'"
    using link_slice_linked [OF assms(1-3) _ assms(5,6) j, of t] t same_trans by blast
qed (use assms(4) in simp)

section \<open>Blocks cut at start and later\<close>

lemma linked_extend: "laid p (bs @ [b]) q \<Longrightarrow> linked bs n s \<Longrightarrow> linked (bs @ [b]) n s"
proof -
  assume l: "laid p (bs @ [b]) q" and s: "linked bs n s"
  have "headers (bs @ [b]) (slice s)" unfolding headers_def
  proof (intro conjI allI ballI impI)
    show "slice s a = zero_slice" if "\<forall>d \<in> set (bs @ [b]). a \<notin> slices_of d" for a using that s by (simp add: linked_def headers_def)
  next
    fix a d assume d: "d \<in> set (bs @ [b])" "a \<in> slices_of d" "headmagic (slice s a) = SOS_MEM_HEAD_MAGIC"
    have "slice s a \<noteq> zero_slice" using d(3) by (auto simp: zero_slice_def SOS_MEM_HEAD_MAGIC_def)
    then obtain e where e: "e \<in> set bs" "a \<in> slices_of e" using s unfolding linked_def headers_def by blast
    then have "b_type d = b_type e" using slices_disjoint [OF l d(1) _ d(2) e(2)] by simp
    then show "unat (slice_type (slice s a)) = b_type d" "unat (subchain_id (slice s a)) < SOS_MEM_CHAIN_INTERNAL_NUM"
      using e d(3) s by (simp_all add: linked_def headers_def)
  qed
  with sized_extend [OF l] s show ?thesis by (simp add: linked_def)
qed

lemma linked_schain [simp]: "linked bs n (s\<lparr>schain := x\<rparr>) = linked bs n s" "linked bs n (s\<lparr>gindex := y\<rparr>) = linked bs n s"
  by (simp_all add: linked_def)

lemma block_replenish_linked:
  assumes "laid p bs q" "b \<in> set bs" "b_type b < SOS_SIZE_NUM" "linked bs n s" "head_no (b_type b) SOS_MEM_CHAIN_INTERNAL_NUM \<le> n"
  shows "\<exists>s'. sos_mem_block_replenish (b_type b) (b_start b) (slice_whole (b_type b)) (unat (snd (sos_mem_size ! b_type b))) s = Inr s' \<and> linked bs n s' \<and> same s s'"
  unfolding sos_mem_block_replenish_def Let_def
proof (rule rfold_upt [where P = "\<lambda>_ s'. linked bs n s' \<and> same s s'"], goal_cases)
  case (1 i t)
  then have t: "linked bs n (t\<lparr>schain := x\<rparr>)" "same s (t\<lparr>schain := x\<rparr>)" for x by simp_all
  have k: "head_no (b_type b) i < n" using assms(5) 1(1) by (simp add: head_no_def)
  show ?case using link_chain_linked [OF assms(1-3) t(1) 1(1) k] same_trans [OF t(2)] by blast
qed (use assms(4) in simp)

lemma block_ctrl_init_linked:
  assumes "laid p bs q" "b \<in> set bs" "b_type b < SOS_SIZE_NUM" "linked bs (head_no (b_type b) 0) s"
  shows "\<exists>s'. sos_mem_block_ctrl_init (b_type b) (b_start b) (slice_whole (b_type b)) (unat (snd (sos_mem_size ! b_type b))) s = Inr s' \<and>
    linked bs (head_no (b_type b) SOS_MEM_CHAIN_INTERNAL_NUM) s' \<and> same s s'"
  unfolding sos_mem_block_ctrl_init_def Let_def
proof (rule rfold_upt [where P = "\<lambda>i s'. linked bs (head_no (b_type b) i) s' \<and> same s s'"], goal_cases)
  case (1 i t)
  let ?k = "head_no (b_type b) i"
  obtain L where L: "INIT_LIST_HEAD (LHead ?k) (ls t) = Inr L" "lives (Suc ?k) L" using 1 INIT_LIST_HEAD_lives [of ?k "ls t"] by (auto simp: linked_def)
  have "sized bs L" by (rule sized_init [OF assms(1) _ 1(1) L(1)]) (use 1 in \<open>simp add: linked_def\<close>)
  then have t': "linked bs (Suc ?k) (t\<lparr>schain := x, ls := L\<rparr>)" for x using 1 L by (simp add: linked_def)
  have Suc: "head_no (b_type b) (Suc i) = Suc ?k" by (simp add: head_no_def)
  have st: "same s (t\<lparr>schain := x, ls := L\<rparr>)" for x using 1 by simp
  show ?case using link_chain_linked [OF assms(1-3) t' 1(1) lessI] same_trans [OF st] L(1) unfolding Suc by simp blast
qed (use assms(4) in simp)

definition used :: "sos_state \<Rightarrow> sos_block list" where
  "used s = take (unat (block_num s)) (blocks s)"

definition region :: "u32 \<Rightarrow> sos_state \<Rightarrow> bool" where
  "region rs s \<longleftrightarrow> length (blocks s) = SOS_MEM_BLOCK_MAX \<and> unat (block_num s) \<le> SOS_MEM_BLOCK_MAX \<and>
     laid (r_start s + unat rs) (used s) (current_start s) \<and>
     current_start s + unat (current_size s) = r_start s + unat SOS_MEM_POOL_SIZE"

definition sos_inv :: "u32 \<Rightarrow> sos_state \<Rightarrow> bool" where
  "sos_inv rs s \<longleftrightarrow> region rs s \<and> linked (used s) (head_no SOS_SIZE_NUM 0) s"

lemma used_same: "same s s' \<Longrightarrow> used s' = used s" "same s s' \<Longrightarrow> region rs s' = region rs s"
  by (simp_all add: same_def used_def region_def)

lemma enter_block_ok:
  assumes "length (blocks s) = SOS_MEM_BLOCK_MAX" "unat (block_num s) < SOS_MEM_BLOCK_MAX"
  shows "\<exists>s'. enter_block c p s = Inr s' \<and> used s' = used s @ [\<lparr>b_type = c, b_start = p, b_len = request_size c\<rparr>] \<and>
    unat (block_num s') = Suc (unat (block_num s)) \<and> length (blocks s') = SOS_MEM_BLOCK_MAX \<and> r_start s' = r_start s \<and> current_start s' = current_start s \<and>
    current_size s' = current_size s \<and> ls s' = ls s \<and> slice s' = slice s \<and> gindex s' = gindex s"
proof -
  have "unat (block_num s + 1) = Suc (unat (block_num s))" using assms(2) by (simp add: unat_word_ariths SOS_MEM_BLOCK_MAX_def)
  with assms show ?thesis by (simp add: enter_block_def used_def take_Suc_conv_app_nth)
qed

end
