(* ===== verification/SosTheorems.thy ===== *)
theory SosTheorems
  imports SosInv
begin

text \<open>
  The theorems about the small object allocator: it starts up, every operation keeps the invariant, and a
  buffer it hands out is a free slice of a fitting size that overlaps no other slice.
\<close>

section \<open>Operations keep the invariant\<close>

lemma head_no_mono: "c < SOS_SIZE_NUM \<Longrightarrow> head_no c SOS_MEM_CHAIN_INTERNAL_NUM \<le> head_no SOS_SIZE_NUM 0"
  by (simp add: head_no_def SOS_MEM_CHAIN_INTERNAL_NUM_def)

lemma sos_mem_replenish_inv:
  assumes i: "sos_inv rs s" and c: "c < SOS_SIZE_NUM"
  shows "\<exists>r s'. sos_mem_replenish c s = Inr (r, s') \<and> sos_inv rs s' \<and> set (used s) \<subseteq> set (used s') \<and> r_start s' = r_start s \<and>
    (\<forall>a. sref (slice s' a) = sref (slice s a))"
proof (cases "unat (block_num s) = SOS_MEM_BLOCK_MAX \<or> request_size c > current_size s")
  case True
  with i show ?thesis by (auto simp: sos_mem_replenish_def)
next
  case False
  have g: "length (blocks s) = SOS_MEM_BLOCK_MAX" "unat (block_num s) < SOS_MEM_BLOCK_MAX" using i False by (simp_all add: sos_inv_def region_def)
  define b where "b = \<lparr>b_type = c, b_start = current_start s, b_len = request_size c\<rparr>"
  have b: "b_type b = c" "b_start b = current_start s" by (simp_all add: b_def)
  obtain s1 where s1: "enter_block c (current_start s) s = Inr s1" "used s1 = used s @ [b]" "unat (block_num s1) = Suc (unat (block_num s))"
    "length (blocks s1) = SOS_MEM_BLOCK_MAX" "r_start s1 = r_start s" "current_start s1 = current_start s" "current_size s1 = current_size s" "ls s1 = ls s" "slice s1 = slice s"
    using enter_block_ok [OF g, of c "current_start s"] unfolding b_def by blast
  let ?q = "current_start s + unat (request_size c)"
  have l: "laid (r_start s + unat rs) (used s @ [b]) ?q"
    using i c unfolding laid_append by (auto simp: sos_inv_def region_def b_def)
  have "linked (used s) (head_no SOS_SIZE_NUM 0) s1" using i s1(8,9) by (simp add: sos_inv_def linked_def)
  from linked_extend [OF l this]
  obtain s2 where s2: "sos_mem_block_replenish c (current_start s) (slice_whole c) (unat (snd (sos_mem_size ! c))) s1 = Inr s2"
    "linked (used s @ [b]) (head_no SOS_SIZE_NUM 0) s2" "same s1 s2"
    using block_replenish_linked [OF l, of b] head_no_mono [OF c] c unfolding b by auto
  have u: "used (cut c (current_start s) s2) = used s @ [b]" using used_same(1) [OF s2(3)] s1(2) by (simp add: cut_def used_def)
  have sz: "unat (current_size s - request_size c) = unat (current_size s) - unat (request_size c)" "unat (request_size c) \<le> unat (current_size s)"
    using False by (simp_all add: unat_sub not_less word_le_nat_alt)
  have "region rs (cut c (current_start s) s2)"
    using l i g s1 s2(3) sz unfolding region_def u by (auto simp: cut_def same_def sos_inv_def region_def)
  moreover have "linked (used s @ [b]) (head_no SOS_SIZE_NUM 0) (cut c (current_start s) s2)" using s2(2) by (simp add: linked_def cut_def)
  ultimately have inv: "sos_inv rs (cut c (current_start s) s2)" by (simp add: sos_inv_def u)
  have "sos_mem_replenish c s = Inr (SEC_OK, cut c (current_start s) s2)"
    using False s1(1) s2(1) by (simp add: sos_mem_replenish_def Let_def)
  moreover have "r_start (cut c (current_start s) s2) = r_start s" "sref (slice (cut c (current_start s) s2) a) = sref (slice s a)" for a
    using s1 s2(3) by (simp_all add: cut_def same_def)
  ultimately show ?thesis using inv u by auto
qed

text \<open>What an allocation did: nothing to the reference flags, or one free slice of the size \<open>c\<close> was taken.\<close>

definition taken :: "nat \<Rightarrow> sos_state \<Rightarrow> nat option \<Rightarrow> sos_state \<Rightarrow> bool" where
  "taken c s p s' = (case p of
     None \<Rightarrow> \<forall>a. sref (slice s' a) = sref (slice s a)
   | Some x \<Rightarrow> \<exists>b \<in> set (used s'). \<exists>a \<in> slices_of b. b_type b = c \<and> x = a + unat SOS_MEM_SLICE_HEAD_SIZE \<and> sref (slice s a) = 0 \<and>
       (\<forall>y. sref (slice s' y) = (if y = a then 1 else sref (slice s y))))"

lemma headers_sref:
  assumes "laid p bs q" "headers bs H" "b \<in> set bs" "a \<in> slices_of b"
  shows "headers bs (H(a := (H a)\<lparr>sref := v\<rparr>))"
  by (rule headers_upd [OF assms]) (use assms(2-4) in \<open>simp add: headers_def\<close>)

lemma sos_mem_alloc_type_inv:
  assumes i: "sos_inv rs s" and c: "c < SOS_SIZE_NUM" and r: "sos_mem_alloc_type c s = Inr (p, s')"
  shows "sos_inv rs s' \<and> used s' = used s \<and> r_start s' = r_start s \<and> taken c s p s'"
proof -
  define k where "k = unat (gindex s c AND of_nat (SOS_MEM_CHAIN_INTERNAL_NUM - 1))"
  have k: "k < SOS_MEM_CHAIN_INTERNAL_NUM"
  proof -
    have "gindex s c AND 3 \<le> 3" by (rule word_and_le1)
    then show ?thesis unfolding k_def SOS_MEM_CHAIN_INTERNAL_NUM_def by (simp add: word_le_nat_alt)
  qed
  let ?h = "LHead (head_no c k)" and ?t = "s\<lparr>gindex := (gindex s)(c := gindex s c + 1)\<rparr>"
  have l: "laid (r_start s + unat rs) (used s) (current_start s)" and sz: "sized (used s) (ls s)" and lv: "lives (head_no SOS_SIZE_NUM 0) (ls s)"
    and hd: "headers (used s) (slice s)" using i by (simp_all add: sos_inv_def region_def linked_def)
  have ok: "okp (used s) c (lnext (ls s) ?h)" using sz own_head [OF k] unfolding sized_def by blast
  note r' = r [unfolded sos_mem_alloc_type_def k_def [symmetric] Let_def list_empty_def get_next_def]
  consider (empty) "p = None" "s' = ?t"
    | (ref) a L where "lnext (ls s) ?h = LNode a" "list_del (LNode a) (ls s) = Inr L" "p = None" "\<exists>x. s' = ?t\<lparr>ls := L, schain := x\<rparr>"
    | (got) a L where "lnext (ls s) ?h = LNode a" "list_del (LNode a) (ls s) = Inr L" "p = Some (a + unat SOS_MEM_SLICE_HEAD_SIZE)" "sref (slice s a) = 0"
        "\<exists>x. s' = ?t\<lparr>ls := L, schain := x, slice := (slice s)(a := (slice s a)\<lparr>sref := 1\<rparr>)\<rparr>"
  proof (cases "lnext (ls s) ?h = ?h")
    case True
    then show ?thesis using r' empty by simp
  next
    case False
    then obtain L where L: "list_del (lnext (ls s) ?h) (ls s) = Inr L"
      using r' by (auto simp: rbind_Inr_iff)
    then obtain a where a: "lnext (ls s) ?h = LNode a"
      using r' False by (cases "lnext (ls s) ?h") auto
    show ?thesis
      using r' L [unfolded a] ref [OF a] got [OF a] by (cases "sref (slice s a) = 0") (auto simp: a)
  qed
  then show ?thesis
  proof cases
    case empty
    then show ?thesis using i by (simp add: sos_inv_def region_def used_def linked_def taken_def)
  next
    case ref
    have "own (used s) c (LNode a)" using ok ref(1) by (simp add: okp_def)
    then have "sized (used s) L" by (rule sized_list_del [OF l sz _ ref(2)])
    with list_del_lives [OF lv ref(2)] hd ref(3,4) i show ?thesis
      by (auto simp: sos_inv_def region_def used_def linked_def taken_def)
  next
    case got
    have o: "own (used s) c (LNode a)" using ok got(1) by (simp add: okp_def)
    then have "sized (used s) L" by (rule sized_list_del [OF l sz _ got(2)])
    moreover obtain b where b: "b \<in> set (used s)" "b_type b = c" "a \<in> slices_of b" using o by (auto simp: own_def)
    moreover have "headers (used s) ((slice s)(a := (slice s a)\<lparr>sref := 1\<rparr>))" by (rule headers_sref [OF l hd b(1,3)])
    ultimately show ?thesis using list_del_lives [OF lv got(2)] got(3-5) i
      by (auto simp: sos_inv_def region_def used_def linked_def taken_def)
  qed
qed

lemma get_best_size_class:
  assumes "get_best_size sz = t" "0 \<le> t"
  shows "nat t < SOS_SIZE_NUM" "sz \<le> fst (sos_mem_size ! nat t)" "\<forall>c < nat t. fst (sos_mem_size ! c) < sz"
proof -
  have "0 \<le> best_from i sz es \<Longrightarrow> \<exists>k < length es. best_from i sz es = int (i + k) \<and> sz \<le> fst (es ! k) \<and> (\<forall>c < k. fst (es ! c) < sz)" for i es
  proof (induction i sz es rule: best_from.induct)
    case (2 i sz e es)
    show ?case
    proof (cases "sz \<le> fst e")
      case False
      then obtain k where k: "k < length es" "best_from (i + 1) sz es = int (i + 1 + k)" "sz \<le> fst (es ! k)" "\<forall>c < k. fst (es ! c) < sz" using 2 by auto
      then have "\<forall>c < Suc k. fst ((e # es) ! c) < sz" using False by (auto simp: less_Suc_eq_0_disj not_le)
      with k False show ?thesis by (intro exI [of _ "Suc k"]) simp
    qed auto
  qed simp
  from this [of 0 sos_mem_size] assms obtain k where k: "k < length sos_mem_size" "t = int k" "sz \<le> fst (sos_mem_size ! k)" "\<forall>c < k. fst (sos_mem_size ! c) < sz"
    by (auto simp: get_best_size_def)
  have "length sos_mem_size = SOS_SIZE_NUM" by (simp add: sos_mem_size_def SOS_SIZE_NUM_def)
  with k show "nat t < SOS_SIZE_NUM" "sz \<le> fst (sos_mem_size ! nat t)" "\<forall>c < nat t. fst (sos_mem_size ! c) < sz" by simp_all
qed

lemma sos_mem_alloc_inv:
  assumes i: "sos_inv rs s" and r: "sos_mem_alloc sz s = Inr (p, s')"
  shows "sos_inv rs s' \<and> set (used s) \<subseteq> set (used s') \<and> r_start s' = r_start s \<and> taken (nat (get_best_size sz)) s p s'"
proof (cases "get_best_size sz < 0")
  case True
  with i r show ?thesis by (simp add: sos_mem_alloc_def taken_def)
next
  case False
  let ?c = "nat (get_best_size sz)"
  have c: "?c < SOS_SIZE_NUM" using get_best_size_class(1) [of sz] False by simp
  obtain p1 s1 where a1: "sos_mem_alloc_type ?c s = Inr (p1, s1)" using r False by (auto simp: sos_mem_alloc_def Let_def rbind_Inr_iff)
  note k1 = sos_mem_alloc_type_inv [OF i c a1]
  show ?thesis
  proof (cases p1)
    case (Some x)
    with r a1 False k1 show ?thesis by (simp add: sos_mem_alloc_def Let_def)
  next
    case None
    obtain r2 s2 where r2: "sos_mem_replenish ?c s1 = Inr (r2, s2)" "sos_inv rs s2" "set (used s1) \<subseteq> set (used s2)" "r_start s2 = r_start s1" "\<And>a. sref (slice s2 a) = sref (slice s1 a)"
      using sos_mem_replenish_inv [of rs s1 ?c] k1 c by blast
    have keep: "sref (slice s2 a) = sref (slice s a)" for a using k1 None r2(5) by (simp add: taken_def)
    show ?thesis
    proof (cases "r2 = SEC_OK")
      case True
      then have "sos_mem_alloc_type ?c s2 = Inr (p, s')" using r a1 None r2(1) False by (simp add: sos_mem_alloc_def Let_def)
      from sos_mem_alloc_type_inv [OF r2(2) c this]
      have k2: "sos_inv rs s'" "used s' = used s2" "r_start s' = r_start s2" "taken ?c s2 p s'" by simp_all
      have "taken ?c s p s'" using k2(4) unfolding taken_def keep .
      with k1 k2 r2(3,4) show ?thesis by simp
    next
      case F: False
      then show ?thesis using r a1 None r2 False k1 keep by (simp add: sos_mem_alloc_def Let_def taken_def)
    qed
  qed
qed

lemma sos_mem_free_inv:
  assumes i: "sos_inv rs s" and b: "b \<in> set (used s)" "a \<in> slices_of b"
  shows "\<exists>s'. sos_mem_free (a + unat SOS_MEM_SLICE_HEAD_SIZE) s = Inr s' \<and> sos_inv rs s' \<and> used s' = used s \<and> r_start s' = r_start s \<and>
    (\<forall>y. y \<noteq> a \<longrightarrow> slice s' y = slice s y)"
proof -
  have l: "laid (r_start s + unat rs) (used s) (current_start s)" and sz: "sized (used s) (ls s)" and lv: "lives (head_no SOS_SIZE_NUM 0) (ls s)"
    and hd: "headers (used s) (slice s)" using i by (simp_all add: sos_inv_def region_def linked_def)
  let ?h = "slice s a" and ?c = "unat (slice_type (slice s a))" and ?i = "unat (subchain_id (slice s a))"
  show ?thesis
  proof (cases "headmagic ?h = SOS_MEM_HEAD_MAGIC \<and> sref ?h = 1")
    case True
    have c: "?c = b_type b" "?i < SOS_MEM_CHAIN_INTERNAL_NUM" using hd b True unfolding headers_def by blast+
    have cn: "b_type b < SOS_SIZE_NUM" using laid_within [OF l b(1)] by simp
    then have "head_no ?c ?i < head_no SOS_SIZE_NUM 0" using c by (simp add: head_no_def SOS_MEM_CHAIN_INTERNAL_NUM_def)
    then obtain L where L: "list_add (LNode a) (LHead (head_no ?c ?i)) (ls s) = Inr L" "lives (head_no SOS_SIZE_NUM 0) L"
      using list_add_lives [OF lv] by blast
    have "sized (used s) L"
      by (rule sized_list_add [OF l sz _ own_head [OF c(2)] L(1)]) (use b c in \<open>auto simp: own_def\<close>)
    moreover have "headers (used s) ((slice s)(a := ?h\<lparr>sref := 0\<rparr>))" by (rule headers_sref [OF l hd b])
    ultimately show ?thesis using True c cn L i
      by (auto simp: sos_mem_free_def Let_def sos_inv_def region_def used_def linked_def)
  next
    case False
    then show ?thesis using i by (auto simp: sos_mem_free_def Let_def)
  qed
qed

section \<open>Start\<close>

text \<open>The sizes below \<open>c\<close> have their blocks.\<close>

definition begun :: "u32 \<Rightarrow> nat \<Rightarrow> sos_state \<Rightarrow> bool" where
  "begun rs c s \<longleftrightarrow> region rs s \<and> linked (used s) (head_no c 0) s \<and> unat (block_num s) = c \<and>
     gindex s = (\<lambda>_. 0) \<and> (\<forall>a. sref (slice s a) = 0)"

lemma begun_step:
  assumes s: "begun rs c s" and c: "c < SOS_SIZE_NUM" and fits: "\<not> current_size s < request_size c"
  shows "\<exists>s1 s2. sos_mem_block_ctrl_init c (current_start s) (slice_whole c) (unat (snd (sos_mem_size ! c))) s = Inr s1 \<and>
    enter_block c (current_start s) s1 = Inr s2 \<and> begun rs (Suc c) (cut c (current_start s) s2) \<and> ls s2 = ls s1 \<and>
    unat (current_size (cut c (current_start s) s2)) = unat (current_size s) - unat (request_size c)"
proof -
  define b where "b = \<lparr>b_type = c, b_start = current_start s, b_len = request_size c\<rparr>"
  have b: "b_type b = c" "b_start b = current_start s" by (simp_all add: b_def)
  let ?q = "current_start s + unat (request_size c)"
  have l: "laid (r_start s + unat rs) (used s @ [b]) ?q"
    using s c unfolding laid_append by (auto simp: begun_def region_def b_def)
  have "linked (used s @ [b]) (head_no c 0) s" by (rule linked_extend [OF l]) (use s in \<open>simp add: begun_def\<close>)
  then obtain s1 where s1: "sos_mem_block_ctrl_init c (current_start s) (slice_whole c) (unat (snd (sos_mem_size ! c))) s = Inr s1"
    "linked (used s @ [b]) (head_no (Suc c) 0) s1" "same s s1"
    using block_ctrl_init_linked [OF l, of b] c unfolding b by (auto simp: head_no_def algebra_simps)
  have g: "length (blocks s1) = SOS_MEM_BLOCK_MAX" "unat (block_num s1) < SOS_MEM_BLOCK_MAX"
    using s s1(3) c by (simp_all add: begun_def region_def same_def SOS_SIZE_NUM_def SOS_MEM_BLOCK_MAX_def)
  obtain s2 where s2: "enter_block c (current_start s) s1 = Inr s2" "used s2 = used s1 @ [b]" "unat (block_num s2) = Suc (unat (block_num s1))"
    "length (blocks s2) = SOS_MEM_BLOCK_MAX" "r_start s2 = r_start s1" "current_start s2 = current_start s1" "current_size s2 = current_size s1" "ls s2 = ls s1" "slice s2 = slice s1" "gindex s2 = gindex s1"
    using enter_block_ok [OF g, of c "current_start s"] unfolding b_def by blast
  have u: "used (cut c (current_start s) s2) = used s @ [b]" using used_same(1) [OF s1(3)] s2(2) by (simp add: cut_def used_def)
  have sz: "unat (current_size s - request_size c) = unat (current_size s) - unat (request_size c)" "unat (request_size c) \<le> unat (current_size s)"
    using fits by (simp_all add: unat_sub not_less word_le_nat_alt)
  have "region rs (cut c (current_start s) s2)"
    using l s g s2 s1(3) sz unfolding region_def u by (auto simp: cut_def same_def begun_def region_def)
  moreover have "linked (used s @ [b]) (head_no (Suc c) 0) (cut c (current_start s) s2)" using s1(2) s2 by (simp add: linked_def cut_def)
  moreover have "unat (block_num (cut c (current_start s) s2)) = Suc c" using s s2(3) s1(3) by (simp add: cut_def begun_def same_def)
  moreover have "gindex (cut c (current_start s) s2) = (\<lambda>_. 0)" "\<forall>a. sref (slice (cut c (current_start s) s2) a) = 0"
    using s s2(9,10) s1(3) by (simp_all add: cut_def begun_def same_def)
  moreover have "unat (current_size (cut c (current_start s) s2)) = unat (current_size s) - unat (request_size c)"
    using s2(7) s1(3) sz(1) by (simp add: cut_def same_def)
  ultimately have "begun rs (Suc c) (cut c (current_start s) s2)" "unat (current_size (cut c (current_start s) s2)) = unat (current_size s) - unat (request_size c)"
    by (simp_all add: begun_def u)
  with s1(1) s2(1,8) show ?thesis by blast
qed

lemma block_init_begun:
  assumes "begun rs c s" "c \<le> d" "d \<le> SOS_SIZE_NUM"
  shows "\<exists>r s'. sos_mem_block_init_from [c..<d] s = Inr (r, s') \<and> (r = SEC_OK \<longrightarrow> begun rs d s') \<and>
    ((d - c) * 409600 \<le> unat (current_size s) \<longrightarrow> r = SEC_OK)"
  using assms
proof (induction "d - c" arbitrary: c s)
  case (Suc n)
  have c: "c < SOS_SIZE_NUM" "n = d - Suc c" "Suc c \<le> d" "[c..<d] = c # [Suc c..<d]" using Suc.hyps(2) Suc.prems(3) by (simp_all add: upt_conv_Cons)
  have rq: "unat (request_size c) \<le> 409600" by (rule request_size_exact(3) [OF c(1)])
  show ?case
  proof (cases "current_size s < request_size c")
    case True
    then have "unat (current_size s) < 409600" using rq by (simp add: word_less_nat_alt)
    moreover have "409600 \<le> (d - c) * 409600" using c(3) by simp
    ultimately show ?thesis using True by (simp add: c(4) SEC_OK_def SEC_NO_def)
  next
    case False
    obtain s1 s2 where st: "sos_mem_block_ctrl_init c (current_start s) (slice_whole c) (unat (snd (sos_mem_size ! c))) s = Inr s1"
      "enter_block c (current_start s) s1 = Inr s2" "begun rs (Suc c) (cut c (current_start s) s2)"
      "unat (current_size (cut c (current_start s) s2)) = unat (current_size s) - unat (request_size c)"
      using begun_step [OF Suc.prems(1) c(1) False] by blast
    obtain r s' where r: "sos_mem_block_init_from [Suc c..<d] (cut c (current_start s) s2) = Inr (r, s')" "r = SEC_OK \<longrightarrow> begun rs d s'"
      "(d - Suc c) * 409600 \<le> unat (current_size (cut c (current_start s) s2)) \<longrightarrow> r = SEC_OK"
      using Suc.hyps(1) [OF c(2) st(3) c(3) Suc.prems(3)] by blast
    have "(d - c) * 409600 = (d - Suc c) * 409600 + 409600" using c(3) by (simp add: Suc_diff_Suc [symmetric])
    then have "(d - c) * 409600 \<le> unat (current_size s) \<longrightarrow> r = SEC_OK" using r(3) st(4) rq by linarith
    then show ?thesis using r(1,2) st(1,2) False by (simp add: c(4) Let_def)
  qed
qed simp

lemma begun_zero: "unat rs \<le> unat SOS_MEM_POOL_SIZE \<Longrightarrow> begun rs 0 (zero_region p rs)"
  by (auto simp: begun_def region_def zero_region_def used_def linked_def sized_def lives_def headers_def head_no_def okp_def
      zero_slice_def unat_sub word_le_nat_alt)

lemma sos_mem_init_ok:
  assumes "unat rs \<le> unat SOS_MEM_POOL_SIZE"
  shows "\<exists>r s. sos_mem_init (Some p) rs = Inr (r, Some s) \<and> (r = SEC_OK \<longrightarrow> sos_inv rs s) \<and> (unat rs \<le> 40000000 \<longrightarrow> r = SEC_OK)"
proof -
  obtain r s where r: "sos_mem_block_init (zero_region p rs) = Inr (r, s)" "r = SEC_OK \<longrightarrow> sos_inv rs s"
    "SOS_SIZE_NUM * 409600 \<le> unat (current_size (zero_region p rs)) \<longrightarrow> r = SEC_OK"
    using block_init_begun [OF begun_zero [OF assms, of p], of SOS_SIZE_NUM] by (auto simp: sos_mem_block_init_def sos_inv_def begun_def)
  have "unat (current_size (zero_region p rs)) = unat SOS_MEM_POOL_SIZE - unat rs"
    using assms by (simp add: zero_region_def unat_sub word_le_nat_alt)
  then have "unat rs \<le> 40000000 \<longrightarrow> r = SEC_OK" using r(3) by (simp add: SOS_SIZE_NUM_def SOS_MEM_POOL_SIZE_def)
  with r(1,2) show ?thesis by (auto simp: sos_mem_init_def SEC_OK_def SEC_NO_def)
qed

section \<open>Runs\<close>

text \<open>
  The states of the allocator: after a successful start, an allocation that returned, or a release of any
  slice, also of one that is free already.
\<close>

inductive sos_reach :: "u32 \<Rightarrow> sos_state \<Rightarrow> bool" for rs where
  sos_start: "unat rs \<le> unat SOS_MEM_POOL_SIZE \<Longrightarrow> sos_mem_init (Some p) rs = Inr (SEC_OK, Some s) \<Longrightarrow> sos_reach rs s"
| sos_alloc: "sos_reach rs s \<Longrightarrow> sos_mem_alloc sz s = Inr (p, s') \<Longrightarrow> sos_reach rs s'"
| sos_free: "sos_reach rs s \<Longrightarrow> b \<in> set (used s) \<Longrightarrow> a \<in> slices_of b \<Longrightarrow> sos_mem_free (a + unat SOS_MEM_SLICE_HEAD_SIZE) s = Inr s' \<Longrightarrow> sos_reach rs s'"

lemma sos_reach_inv: "sos_reach rs s \<Longrightarrow> sos_inv rs s"
proof (induction rule: sos_reach.induct)
  case (sos_start p s)
  then show ?case using sos_mem_init_ok [of rs p] by auto
next
  case (sos_alloc s sz p s')
  then show ?case using sos_mem_alloc_inv by blast
next
  case (sos_free s b a s')
  then show ?case using sos_mem_free_inv [of rs s b a] by auto
qed

lemma slices_separate:
  assumes "laid p bs q" "b \<in> set bs" "b' \<in> set bs" "a \<in> slices_of b" "a' \<in> slices_of b'" "a \<noteq> a'"
  shows "a' + unat (slice_whole (b_type b')) \<le> a \<or> a + unat (slice_whole (b_type b)) \<le> a'"
  using assms
proof (induction bs arbitrary: p)
  case (Cons d bs)
  have l: "laid (p + unat (b_len d)) bs q" using Cons.prems(1) unfolding laid.simps by blast
  have tail: "p + unat (b_len d) \<le> x" if "y \<in> set bs" "x \<in> slices_of y" for x y
    using laid_within [OF l that(1)] slices_of_within(1) [OF _ _ that(2)] by force
  have first: "x + unat (slice_whole (b_type d)) \<le> p + unat (b_len d)" if "x \<in> slices_of d" for x
    using slices_of_within(2) [OF _ _ that] laid_within [OF Cons.prems(1), of d] Cons.prems(1) by simp
  have both: ?case if d: "b = d" "b' = d"
  proof -
    let ?w = "unat (slice_whole (b_type d))"
    obtain k k' where k: "a = b_start d + k * ?w" "a' = b_start d + k' * ?w" using Cons.prems(4,5) d by (auto simp: slices_of_def)
    have "k < k' \<or> k' < k" using Cons.prems(6) k by (cases "k = k'") auto
    then have "(k + 1) * ?w \<le> k' * ?w \<or> (k' + 1) * ?w \<le> k * ?w" by (metis Suc_eq_plus1 Suc_leI mult_le_mono1)
    then show ?thesis unfolding k d by auto
  qed
  show ?case
  proof (cases "b \<in> set bs \<and> b' \<in> set bs")
    case True
    then show ?thesis using Cons.IH [OF l] Cons.prems by blast
  next
    case False
    then consider "b = d" "b' = d" | "b = d" "b' \<in> set bs" | "b \<in> set bs" "b' = d" using Cons.prems(2,3) by auto
    then show ?thesis using both tail [of b' a'] tail [of b a] first [of a] first [of a'] Cons.prems(4,5) by cases force+
  qed
qed simp

section \<open>Chain 0\<close>

lemmas sos_consts = SOS_MEM_CHAIN_INTERNAL_NUM_def sos_mem_size_def slice_whole_def SOS_MEM_SLICE_HEAD_SIZE_def SOS_MEM_TAIL_MAGIC_SIZE_def head_no_def

lemma block_init_append:
  "sos_mem_block_init_from (cs @ ds) s = rbind (sos_mem_block_init_from cs s) (\<lambda>(r, s'). if r = SEC_OK then sos_mem_block_init_from ds s' else Inr (r, s'))"
proof (induction cs arbitrary: s)
  case (Cons c cs)
  then show ?case by (simp add: Let_def SEC_OK_def SEC_NO_def rbind_assoc)
qed simp

text \<open>The lists of the largest size after its block was cut, as far as the next allocations read them.\<close>

definition ring0 :: "nat \<Rightarrow> lstore \<Rightarrow> bool" where
  "ring0 p S \<longleftrightarrow> lnext S (LHead 40) = LNode p \<and> lnext S (LNode p) = LHead 43 \<and> lprev S (LNode p) = LNode (p + 3 * 8228) \<and>
     lnext S (LHead 41) = LNode (p + 7 * 8228) \<and> lnext S (LNode (p + 7 * 8228)) = LNode (p + 6 * 8228) \<and> lprev S (LNode (p + 7 * 8228)) = LHead 41 \<and>
     lnext S (LHead 42) = LNode (p + 14 * 8228) \<and> lnext S (LNode (p + 14 * 8228)) = LNode (p + 12 * 8228) \<and> lprev S (LNode (p + 14 * 8228)) = LHead 42 \<and>
     lnext S (LHead 43) = LNode (p + 21 * 8228) \<and> lnext S (LNode (p + 21 * 8228)) = LNode (p + 18 * 8228) \<and> lprev S (LNode (p + 21 * 8228)) = LHead 43"

lemma ctrl_init_ring0:
  "\<exists>s'. sos_mem_block_ctrl_init 10 p (slice_whole 10) (unat (snd (sos_mem_size ! 10))) s = Inr s' \<and> ring0 p (ls s')"
  unfolding sos_mem_block_ctrl_init_def link_chain_def
  by (simp add: sos_consts upt_rec link_slice_def slice_addr_def Let_def list_ops) (simp add: ring0_def)

lemma ctrl_init_last:
  "ring0 p (ls s) \<Longrightarrow> \<exists>s'. sos_mem_block_ctrl_init 11 q (slice_whole 11) (unat (snd (sos_mem_size ! 11))) s = Inr s' \<and> ring0 p (ls s')"
  unfolding sos_mem_block_ctrl_init_def link_chain_def
  by (simp add: sos_consts upt_rec Let_def list_ops ring0_def)

lemma init_ring0:
  assumes "unat rs \<le> unat SOS_MEM_POOL_SIZE" "sos_mem_init (Some ptr) rs = Inr (SEC_OK, Some s)"
  shows "\<exists>p. ring0 p (ls s) \<and> gindex s = (\<lambda>_. 0) \<and> (\<forall>a. sref (slice s a) = 0)"
proof -
  let ?z = "zero_region ptr rs"
  have st: "sos_mem_block_init_from [0..<SOS_SIZE_NUM] ?z = Inr (SEC_OK, s)"
    using assms(2) by (auto simp: sos_mem_init_def sos_mem_block_init_def rbind_Inr_iff SEC_OK_def SEC_NO_def split: if_splits)
  have up: "[0..<SOS_SIZE_NUM] = [0..<10] @ [10, 11]" by (simp add: SOS_SIZE_NUM_def upt_rec)
  obtain r t where t: "sos_mem_block_init_from [0..<10] ?z = Inr (r, t)" "r = SEC_OK \<longrightarrow> begun rs 10 t"
    using block_init_begun [OF begun_zero [OF assms(1), of ptr], of 10] by (auto simp: SOS_SIZE_NUM_def)
  have r: "r = SEC_OK" "sos_mem_block_init_from [10, 11] t = Inr (SEC_OK, s)"
    using st unfolding up block_init_append t(1) by (auto split: if_splits)
  let ?p = "current_start t"
  have f: "\<not> current_size t < request_size 10" using r(2) by (auto simp: SEC_OK_def SEC_NO_def)
  obtain s1 s2 where s1: "sos_mem_block_ctrl_init 10 ?p (slice_whole 10) (unat (snd (sos_mem_size ! 10))) t = Inr s1" "enter_block 10 ?p s1 = Inr s2"
    "begun rs 11 (cut 10 ?p s2)" "ls s2 = ls s1"
    using begun_step [of rs 10 t] t(2) r(1) f by (auto simp: SOS_SIZE_NUM_def)
  have q1: "ring0 ?p (ls (cut 10 ?p s2))" using ctrl_init_ring0 [of ?p t] s1(1,4) by (simp add: cut_def)
  define u where "u = cut 10 ?p s2"
  have r11: "sos_mem_block_init_from [11] u = Inr (SEC_OK, s)" using r(2) s1(1,2) f by (simp add: Let_def u_def)
  have f1: "\<not> current_size u < request_size 11" using r11 by (auto simp: SEC_OK_def SEC_NO_def)
  obtain s3 s4 where s3: "sos_mem_block_ctrl_init 11 (current_start u) (slice_whole 11) (unat (snd (sos_mem_size ! 11))) u = Inr s3"
    "enter_block 11 (current_start u) s3 = Inr s4" "begun rs 12 (cut 11 (current_start u) s4)" "ls s4 = ls s3"
    using begun_step [of rs 11 u] s1(3) f1 by (auto simp: SOS_SIZE_NUM_def u_def)
  have "s = cut 11 (current_start u) s4" using r11 s3(1,2) f1 by (simp add: Let_def)
  moreover have "ring0 ?p (ls s4)" using ctrl_init_last [of ?p u "current_start u"] q1 s3(1,4) by (simp add: u_def)
  ultimately show ?thesis using s3(3) by (auto simp: cut_def begun_def)
qed

lemma five_allocs:
  assumes "unat rs \<le> unat SOS_MEM_POOL_SIZE" "sos_mem_init (Some ptr) rs = Inr (SEC_OK, Some s)"
  shows "\<exists>p1 s1 p2 s2 p3 s3 p4 s4. sos_mem_alloc 8192 s = Inr (Some p1, s1) \<and> sos_mem_alloc 8192 s1 = Inr (Some p2, s2) \<and>
    sos_mem_alloc 8192 s2 = Inr (Some p3, s3) \<and> sos_mem_alloc 8192 s3 = Inr (Some p4, s4) \<and> sos_mem_alloc 8192 s4 = Inl OutOfBounds"
proof -
  obtain p where p: "ring0 p (ls s)" "gindex s 10 = 0" "\<forall>a. sref (slice s a) = 0" using init_ring0 [OF assms] by auto
  have "nat (get_best_size 8192) = 10" "\<not> get_best_size 8192 < 0" by (simp_all add: get_best_size_def sos_mem_size_def)
  with p show ?thesis
    by (simp add: sos_mem_alloc_def sos_mem_alloc_type_def Let_def sos_consts list_ops ring0_def)
qed

lemma sos_booted:
  "\<exists>s p s'. sos_mem_init (Some 0) 65536 = Inr (SEC_OK, Some s) \<and> sos_reach 65536 s \<and> sos_mem_alloc 8192 s = Inr (Some p, s')"
proof -
  have z: "unat (65536 :: u32) \<le> unat SOS_MEM_POOL_SIZE" by (simp add: SOS_MEM_POOL_SIZE_def)
  obtain s where s: "sos_mem_init (Some 0) 65536 = Inr (SEC_OK, Some s)" using sos_mem_init_ok [OF z, of 0] by auto
  with five_allocs [OF z s] sos_start [OF z s] show ?thesis by blast
qed

section \<open>Theorems\<close>



text \<open>
  Small object allocator: on a freshly started allocator four requests of 8192 bytes succeed and the fifth
  follows the poisoned link of the slice that is still at the front of chain 0, because every slice of chain
  0 was linked at the address of the first.
\<close>

theorem sos_fifth_alloc_faults:
  assumes "unat rs \<le> unat SOS_MEM_POOL_SIZE" "sos_mem_init (Some ptr) rs = Inr (SEC_OK, Some s)"
  shows "\<exists>p1 s1 p2 s2 p3 s3 p4 s4. sos_mem_alloc 8192 s = Inr (Some p1, s1) \<and> sos_mem_alloc 8192 s1 = Inr (Some p2, s2) \<and>
    sos_mem_alloc 8192 s2 = Inr (Some p3, s3) \<and> sos_mem_alloc 8192 s3 = Inr (Some p4, s4) \<and> sos_mem_alloc 8192 s4 = Inl OutOfBounds"
  by (rule five_allocs [OF assms])

theorem sos_fifth_alloc_faults_witness:
  "\<exists>s s4. sos_mem_init (Some 0) 65536 = Inr (SEC_OK, Some s) \<and> sos_mem_alloc 8192 s4 = Inl OutOfBounds"
proof -
  obtain s where s: "sos_mem_init (Some 0) 65536 = Inr (SEC_OK, Some s)" using sos_booted by blast
  have z: "unat (65536 :: u32) \<le> unat SOS_MEM_POOL_SIZE" by (simp add: SOS_MEM_POOL_SIZE_def)
  from sos_fifth_alloc_faults [OF z s] s show ?thesis by blast
qed

end
