(* ===== verification/FlowAge.thy ===== *)
theory FlowAge
  imports Flow Sweep
begin

text \<open>
  What the ageing timer \<open>FlowAgeTimeoutCB\<close> of \<open>flow.c\<close> does to the flow table, the table under every
  interleaving of packets and timer runs, and the properties of the flow component.
\<close>

section \<open>Ageing one bucket\<close>

definition expired :: "u64 \<Rightarrow> u64 \<Rightarrow> flow_state \<Rightarrow> nat \<Rightarrow> bool" where
  "expired rate now t a \<longleftrightarrow> \<not> item_locked t a \<and> FlowTimeOut rate (item t a) now"

definition same_items :: "flow_state \<Rightarrow> flow_state \<Rightarrow> bool" where
  "same_items t0 t \<longleftrightarrow> item t = item t0 \<and> ictrl t = ictrl t0 \<and> item_locked t = item_locked t0 \<and> new_flow t = new_flow t0"

interpretation flow_age: ageing hh "\<lambda>H t. t\<lparr>hh := H\<rparr>" "\<lambda>t. t\<lparr>del_flow := del_flow t + 1\<rparr>" "expired rate now" item_ok "\<lambda>_ a. [a]" fpa_freed
  "age_item rate now" reap_item same_items FLOW_BUCKET_NUM timeout_head for rate now
proof
  show "age_item rate now a t = (if expired rate now t a then rbind (hlist_del a (hh t)) (\<lambda>H. rbind (hlist_add_head a timeout_head H) (\<lambda>H'.
      Inr (t\<lparr>hh := H', del_flow := del_flow (t\<lparr>hh := H'\<rparr>) + 1\<rparr>))) else Inr t)" for a t
    by (simp add: age_item_def expired_def)
  show "\<exists>t'. reap_item a t = Inr t' \<and> hh t' = H \<and> fpa_freed t' = fpa_freed t @ [a] \<and> same_items t t' \<and>
      (\<forall>b. b \<noteq> a \<longrightarrow> (item_ok t b \<longrightarrow> item_ok t' b) \<and> [b] = [b] \<and> expired rate now t' b = expired rate now t b)"
    if "item_ok t a" "hlist_del a (hh t) = Inr H" for t a H
    using that by (simp add: reap_item_def flow_item_free_def item_ok_def same_items_def expired_def)
qed (auto simp: expired_def item_ok_def same_items_def timeout_head_def fun_eq_iff)

lemma flow_inv_shrink:
  assumes inv: "flow_inv ch t" and same: "same_items t t'" and hl: "\<And>j. j < FLOW_BUCKET_NUM \<Longrightarrow> hl (hh t') j (ch' j)"
    and sub: "\<And>j. set (ch' j) \<subseteq> set (ch j)"
  shows "flow_inv ch' t'"
proof (rule flow_invI)
  have eq: "item t' = item t" "\<And>a. item_ok t' a = item_ok t a" using same by (auto simp: same_items_def item_ok_def)
  fix i assume i: "i < FLOW_BUCKET_NUM"
  show "hl (hh t') i (ch' i)" by (rule hl [OF i])
  show "set (ch' i) \<inter> set (ch' j) = {}" if "j < FLOW_BUCKET_NUM" "i \<noteq> j" for j
    using flow_invD(2) [OF inv i that] sub [of i] sub [of j] by blast
  show "item_ok t' a" if "a \<in> set (ch' i)" for a using flow_invD(3) [OF inv i] that sub [of i] eq(2) by blast
  show "bucket_of m = i" if "a \<in> set (ch' i)" "FlowMatch (item t' a) m" for a m
    using flow_invD(4) [OF inv i _ that(2) [unfolded eq(1)]] that(1) sub [of i] by blast
  show "a = b" if "a \<in> set (ch' i)" "b \<in> set (ch' i)" "FlowMatch (item t' a) m" "FlowMatch (item t' b) m" for a b m
    using flow_invD(5) [OF inv i _ _ that(3,4) [unfolded eq(1)]] that(1,2) sub [of i] by blast
qed

lemma flow_table: "flow_inv ch t \<Longrightarrow> flow_age.table ch t"
  unfolding flow_age.table_def flow_inv_def by blast

text \<open>One bucket that is not busy: the expired items leave the chain and go back to the allocator, the rest stays in order.\<close>

lemma age_bucket_ok:
  fixes rate now :: u64
  assumes inv: "flow_inv ch t" and i: "i < FLOW_BUCKET_NUM" "\<not> busy i" and fuel: "length (ch i) < fuel"
  defines "E \<equiv> expired rate now t"
  shows "\<exists>t'. age_bucket fuel busy rate now i t = Some (Inr t') \<and> flow_inv (ch(i := filter (\<lambda>a. \<not> E a) (ch i))) t' \<and>
    same_items t t' \<and> fpa_freed t' = fpa_freed t @ rev (filter E (ch i))"
proof -
  let ?ch = "ch(i := filter (\<lambda>a. \<not> E a) (ch i))"
  have "age_bucket fuel busy rate now i t = flow_age.bucket rate now fuel i t" using i(2) by (simp add: age_bucket_def flow_age.bucket_def)
  moreover obtain t' where t': "flow_age.bucket rate now fuel i t = Some (Inr t')" "flow_age.table ?ch t'" "same_items t t'"
    "fpa_freed t' = fpa_freed t @ concat (map (\<lambda>a. [a]) (rev (filter E (ch i))))"
    using flow_age.bucket_ok [OF flow_table [OF inv] i(1) fuel, of rate now] flow_invD(3) [OF inv i(1)] unfolding E_def by blast
  moreover have "flow_inv ?ch t'" by (rule flow_inv_shrink [OF inv t'(3)]) (use t'(2) in \<open>auto simp: flow_age.table_def\<close>)
  ultimately show ?thesis by (auto simp: concat_map_singleton)
qed

section \<open>A run of the timer\<close>

lemma flow_inv_chains: "flow_inv ch t \<Longrightarrow> (\<And>i. i < FLOW_BUCKET_NUM \<Longrightarrow> ch' i = ch i) \<Longrightarrow> flow_inv ch' t"
  unfolding flow_inv_def by simp

lemma age_bucket_busy:
  assumes inv: "flow_inv ch t" and "busy i"
  shows "\<exists>t'. age_bucket fuel busy rate now i t = Some (Inr t') \<and> flow_inv ch t' \<and> same_items t t' \<and>
    fpa_freed t' = fpa_freed t"
proof -
  let ?t = "t\<lparr>hh := INIT_HLIST_HEAD timeout_head (hh t)\<rparr>"
  have "hl (hh ?t) j (ch j)" if "j < FLOW_BUCKET_NUM" for j
    using flow_invD(1) [OF inv that] hl_init_other [of timeout_head j] that by (simp add: timeout_head_def)
  then have "flow_inv ch ?t" by (rule flow_inv_cong [OF inv]) (simp_all add: item_ok_def)
  with assms(2) show ?thesis by (simp add: age_bucket_def same_items_def)
qed

lemma age_from_run: "age_from fuel busy rate now is t = flow_age.run rate now fuel busy is t"
  by (induction "is" arbitrary: t) (simp_all add: age_bucket_def flow_age.bucket_def fbind_def Let_def split: option.splits sum.splits)

lemma age_from_ok:
  fixes rate now :: u64
  assumes inv: "flow_inv ch t" and fuel: "\<And>i. i < FLOW_BUCKET_NUM \<Longrightarrow> length (ch i) < fuel" and "is": "distinct is" "set is \<subseteq> {..<FLOW_BUCKET_NUM}"
  shows "\<exists>t'. age_from fuel busy rate now is t = Some (Inr t') \<and> flow_inv (swept busy (expired rate now t) is ch) t' \<and> same_items t t' \<and>
    fpa_freed t' = fpa_freed t @ collected busy (expired rate now t) is ch"
proof -
  obtain t' where t': "flow_age.run rate now fuel busy is t = Some (Inr t')" "flow_age.table (swept busy (expired rate now t) is ch) t'" "same_items t t'"
    "fpa_freed t' = fpa_freed t @ concat (map (\<lambda>a. [a]) (collected busy (expired rate now t) is ch))"
    using flow_age.run_ok [OF flow_table [OF inv] fuel "is", of rate now busy] flow_invD(3) [OF inv] by blast
  have "flow_inv (swept busy (expired rate now t) is ch) t'"
    by (rule flow_inv_shrink [OF inv t'(3)]) (use t'(2) in \<open>auto simp: flow_age.table_def swept_def\<close>)
  with t' show ?thesis by (simp add: age_from_run concat_map_singleton)
qed

lemma all_buckets: "set [0..<FLOW_BUCKET_NUM] \<subseteq> {..<FLOW_BUCKET_NUM}"
  by auto

section \<open>More fuel\<close>

lemma fbind_mono:
  "fbind m f = Some r \<Longrightarrow> (\<And>x. m = Some x \<Longrightarrow> m' = Some x) \<Longrightarrow> (\<And>a y. m = Some (Inr a) \<Longrightarrow> f a = Some y \<Longrightarrow> f' a = Some y) \<Longrightarrow>
    fbind m' f' = Some r"
  by (cases m) (auto simp: fbind_def split: sum.splits)

lemma FlowFind_mono: "FlowFind n now b m t = Some r \<Longrightarrow> n \<le> k \<Longrightarrow> FlowFind k now b m t = Some r"
  unfolding FlowFind_def by (erule fbind_mono) (auto intro: hlist_find_mono)

lemma flow_lookup_mono: "flow_lookup n now m t = Some r \<Longrightarrow> n \<le> k \<Longrightarrow> flow_lookup k now m t = Some r"
  unfolding flow_lookup_def by (erule fbind_mono) (auto intro: FlowFind_mono)

lemma FlowAdd_mono: "FlowAdd n buf now b m t = Some r \<Longrightarrow> n \<le> k \<Longrightarrow> FlowAdd k buf now b m t = Some r"
  unfolding FlowAdd_def Let_def
  by (auto split: prod.splits option.splits elim!: fbind_mono intro: FlowFind_mono)

lemma age_bucket_mono: "age_bucket n busy rate now i t = Some r \<Longrightarrow> n \<le> k \<Longrightarrow> age_bucket k busy rate now i t = Some r"
  unfolding age_bucket_def Let_def by (auto split: if_splits elim!: fbind_mono intro: hlist_for_each_safe_mono)

section \<open>Reachable tables\<close>

text \<open>
  A run of the data plane: the table is initialised, then the critical sections of the cores follow
  each other in any order. \<open>L\<close> are the nodes the allocator has handed out and not got back: it never
  hands out a node of \<open>L\<close>, and a call returns to it what it logs in \<open>fpa_freed\<close>.
\<close>

definition newly_freed :: "flow_state \<Rightarrow> flow_state \<Rightarrow> nat set" where
  "newly_freed t t' = set (drop (length (fpa_freed t)) (fpa_freed t'))"

inductive flow_reach :: "nat set \<Rightarrow> flow_state \<Rightarrow> bool" where
  init: "FlowInit True timer t = (r, t') \<Longrightarrow> flow_reach {} t'"
| lookup: "flow_reach L t \<Longrightarrow> flow_lookup n now m t = Some (Inr (r, t')) \<Longrightarrow> flow_reach L t'"
| nomem: "flow_reach L t \<Longrightarrow> FlowAdd n None now (bucket_of m) m t = Some (Inr (r, t')) \<Longrightarrow> flow_reach L t'"
| add: "flow_reach L t \<Longrightarrow> f \<notin> L \<Longrightarrow> FlowAdd n (Some f) now (bucket_of m) m t = Some (Inr (r, t')) \<Longrightarrow>
    flow_reach (insert f L - newly_freed t t') t'"
| unlock: "flow_reach L t \<Longrightarrow> flow_reach L (FLOW_ITEM_UNLOCK f t)"
| refer: "flow_reach L t \<Longrightarrow> FlowReference d f t = (d', t') \<Longrightarrow> flow_reach L t'"
| derefer: "flow_reach L t \<Longrightarrow> FlowDeReference d t = (d', t') \<Longrightarrow> flow_reach L t'"
| age: "flow_reach L t \<Longrightarrow> i < FLOW_BUCKET_NUM \<Longrightarrow> age_bucket n busy rate now i t = Some (Inr t') \<Longrightarrow>
    flow_reach (L - newly_freed t t') t'"

definition table_nodes :: "(nat \<Rightarrow> nat list) \<Rightarrow> nat set" where
  "table_nodes ch = {a. in_table ch a}"

lemma flow_inv_usecnt: "flow_inv ch t \<Longrightarrow> flow_inv ch (t\<lparr>item := (item t)(f := (item t f)\<lparr>use_cnt := n\<rparr>)\<rparr>)"
  by (rule flow_inv_cong) (auto simp: item_ok_def dest: flow_invD(1))

lemma flow_lookup_cases:
  assumes inv: "flow_inv ch t" and fuel: "length (ch (bucket_of m)) < fuel"
  obtains "\<And>a. a \<in> set (ch (bucket_of m)) \<Longrightarrow> \<not> FlowMatch (item t a) m" "flow_lookup fuel now m t = Some (Inr (None, t))"
  | g where "g \<in> set (ch (bucket_of m))" "FlowMatch (item t g) m" "item_locked t g" "flow_lookup fuel now m t = Some (Inl Blocked)"
  | g where "g \<in> set (ch (bucket_of m))" "FlowMatch (item t g) m" "\<not> item_locked t g" "flow_lookup fuel now m t = Some (Inr (Some g,
      t\<lparr>item := (item t)(g := (item t g)\<lparr>cycle := now\<rparr>), item_locked := (item_locked t)(g := True)\<rparr>))"
proof (rule FlowFind_cases [OF inv bucket_of_less fuel, of m now])
  fix g assume g: "g \<in> set (ch (bucket_of m))" "FlowMatch (item t g) m"
    and ff: "FlowFind fuel now (bucket_of m) m t = Some (Inr (Some g, t\<lparr>item := (item t)(g := (item t g)\<lparr>cycle := now\<rparr>)\<rparr>))"
  show thesis
  proof (cases "item_locked t g")
    case True
    then show thesis by (rule that(2) [OF g]) (simp add: flow_lookup_def ff FLOW_ITEM_LOCK_def True)
  next
    case False
    then show thesis by (rule that(3) [OF g]) (simp add: flow_lookup_def ff FLOW_ITEM_LOCK_def False)
  qed
qed (use that(1) in \<open>simp add: flow_lookup_def\<close>)

lemma INIT_all: "first (fold INIT_HLIST_HEAD is H) i = (if i \<in> set is then Null else first H i)"
  by (induction "is" arbitrary: H) (auto simp: INIT_HLIST_HEAD_def)

lemma flow_inv_init: "FlowInit True timer t = (r, t') \<Longrightarrow> flow_inv (\<lambda>_. []) t'"
  by (rule flow_invI) (auto simp: FlowInit_def Let_def INIT_all hl_def split: if_splits)

lemma newly_freed_append [simp]: "fpa_freed t' = fpa_freed t @ xs \<Longrightarrow> newly_freed t t' = set xs"
  by (simp add: newly_freed_def)

lemma table_nodes_insert:
  "b < FLOW_BUCKET_NUM \<Longrightarrow> table_nodes (ch(b := f # ch b)) = insert f (table_nodes ch)"
  by (auto simp: table_nodes_def in_table_def)

lemma table_nodes_age:
  assumes inv: "flow_inv ch t" and i: "i < FLOW_BUCKET_NUM"
  shows "table_nodes (ch(i := filter (\<lambda>a. \<not> E a) (ch i))) = table_nodes ch - set (rev (filter E (ch i)))"
proof -
  have "a \<in> set ((ch(i := filter (\<lambda>a. \<not> E a) (ch i))) j) \<longleftrightarrow> a \<in> set (ch j) \<and> a \<notin> set (rev (filter E (ch i)))"
    if "j < FLOW_BUCKET_NUM" for a j
    using flow_invD(2) [OF inv i that] by (cases "j = i") auto
  then show ?thesis unfolding table_nodes_def in_table_def by blast
qed

lemma flow_reach_inv: "flow_reach L t \<Longrightarrow> \<exists>ch. flow_inv ch t \<and> L = table_nodes ch"
proof (induction rule: flow_reach.induct)
  case (init timer t r t')
  with flow_inv_init [OF init] show ?case by (auto simp: table_nodes_def in_table_def)
next
  case (lookup L t n now m r t')
  then obtain ch where ch: "flow_inv ch t" "L = table_nodes ch" by blast
  define k where "k = max n (Suc (length (ch (bucket_of m))))"
  have k: "length (ch (bucket_of m)) < k" "n \<le> k" by (auto simp: k_def)
  note eq = flow_lookup_mono [OF lookup.hyps(2) k(2)]
  from ch(1) k(1) have "flow_inv ch t'"
    by (rule flow_lookup_cases [where now = now]) (use eq ch(1) flow_inv_touch [OF ch(1)] in auto)
  with ch(2) show ?case by blast
next
  case (nomem L t n now m r t')
  then show ?case by (auto simp: FlowAdd_def flow_item_alloc_def)
next
  case (add L t f n now m r t')
  then obtain ch where ch: "flow_inv ch t" "L = table_nodes ch" by blast
  define k where "k = max n (Suc (length (ch (bucket_of m))))"
  have k: "length (ch (bucket_of m)) < k" "n \<le> k" by (auto simp: k_def)
  note eq = FlowAdd_mono [OF add.hyps(3) k(2)]
  have f: "\<not> in_table ch f" using add.hyps(2) ch(2) by (simp add: table_nodes_def)
  show ?case
  proof (rule FlowAdd_cases [OF ch(1) f refl k(1), of now])
    fix t1 assume "FlowAdd k (Some f) now (bucket_of m) m t = Some (Inr (Some f, t1))"
      "flow_inv (ch(bucket_of m := f # ch (bucket_of m))) t1" "fpa_freed t1 = fpa_freed t"
    with eq have t': "flow_inv (ch(bucket_of m := f # ch (bucket_of m))) t'" "newly_freed t t' = {}" by (auto simp: newly_freed_def)
    with ch(2) have "insert f L - newly_freed t t' = table_nodes (ch(bucket_of m := f # ch (bucket_of m)))"
      by (simp only: table_nodes_insert [OF bucket_of_less]) simp
    with t'(1) show ?thesis by blast
  next
    fix g t1 assume "FlowAdd k (Some f) now (bucket_of m) m t = Some (Inr (Some g, t1))" "flow_inv ch t1" "fpa_freed t1 = fpa_freed t @ [f]"
    with eq ch(2) add.hyps(2) show ?thesis by (intro exI [of _ ch]) simp
  qed (use eq in simp)
next
  case (unlock L t f)
  then show ?case by (auto simp: FLOW_ITEM_UNLOCK_def)
next
  case (refer L t d f d' t')
  then show ?case by (auto simp: FlowReference_def FlowIncrUsecnt_def split: if_splits dest: flow_inv_usecnt)
next
  case (derefer L t d d' t')
  then show ?case by (auto simp: FlowDeReference_def FlowDecrUsecnt_def split: option.splits dest: flow_inv_usecnt)
next
  case (age L t i n busy rate now t')
  then obtain ch where ch: "flow_inv ch t" "L = table_nodes ch" by blast
  define k where "k = max n (Suc (length (ch i)))"
  have k: "length (ch i) < k" "n \<le> k" by (auto simp: k_def)
  note eq = age_bucket_mono [OF age.hyps(3) k(2)]
  show ?case
  proof (cases "busy i")
    case True
    from age_bucket_busy [of ch t busy i k rate now] ch(1) True eq ch(2) show ?thesis
      by (auto simp: newly_freed_def)
  next
    case False
    let ?E = "expired rate now t"
    from age_bucket_ok [where busy = busy and i = i and rate = rate and now = now, OF ch(1) age.hyps(2) False k(1)] eq
    have "flow_inv (ch(i := filter (\<lambda>a. \<not> ?E a) (ch i))) t'" "fpa_freed t' = fpa_freed t @ rev (filter ?E (ch i))" by auto
    moreover from this(2) have "L - newly_freed t t' = table_nodes (ch(i := filter (\<lambda>a. \<not> ?E a) (ch i)))"
      unfolding table_nodes_age [OF ch(1) age.hyps(2), of ?E] ch(2) by simp
    ultimately show ?thesis by blast
  qed
qed

section \<open>Properties\<close>

definition reply :: "mbuf_t \<Rightarrow> mbuf_t" where
  "reply m = m\<lparr>sip := dip m, dip := sip m, sport := dport m, dport := sport m\<rparr>"

lemma FlowMatch_reply: "FlowMatch f (reply m) = FlowMatch f m"
  by (auto simp: FlowMatch_def reply_def)

lemma bucket_of_reply: "bucket_of (reply m) = bucket_of m"
  by (rule FlowMatch_bucket [of "new_item 0 m"]) (simp_all add: FlowMatch_reply)

definition test_mbuf :: mbuf_t where
  "test_mbuf = zero_mbuf\<lparr>sip := 0x0A000001, dip := 0x0A000002, sport := 1000, dport := 80, proto := 6\<rparr>"

definition boot_state :: flow_state where
  "boot_state = snd (FlowInit True True \<lparr>hh = \<lparr>first = \<lambda>_. Poison, nxt = \<lambda>_. Poison, pprev = \<lambda>_. PPoison\<rparr>,
     item = \<lambda>_. new_item 0 zero_mbuf, ictrl = \<lambda>_. \<lparr>magic = 0, pool_id = 0, subpool_id = 0, ref = 0\<rparr>, item_locked = \<lambda>_. False,
     new_flow = 0, del_flow = 0, fpa_freed = []\<rparr>)"

lemma boot_inv: "flow_inv (\<lambda>_. []) boot_state"
  unfolding boot_state_def by (rule flow_inv_init) (rule surjective_pairing)

lemma boot_unlocked: "\<not> item_locked boot_state a"
  by (simp add: boot_state_def FlowInit_def Let_def)

text \<open>
  C17. Whatever the order in which the cores run the lookups, insertions, unlocks, references and
  ageing of a bucket, the flow table stays well formed: every bucket is a proper chain, the chains are
  disjoint, an item is in the bucket of the packets it matches, no packet matches two items, and the
  nodes in the table are exactly the ones taken from the allocator and not given back: none is lost
  and none is freed twice.
\<close>

theorem flow_table_wellformed:
  assumes "flow_reach L t"
  shows "\<exists>ch. flow_inv ch t \<and> L = table_nodes ch"
  using flow_reach_inv [OF assms] .

theorem flow_table_wellformed_witness:
  "flow_reach {} boot_state \<and> (\<exists>ch. flow_inv ch boot_state \<and> {} = table_nodes ch)"
proof
  show "flow_reach {} boot_state"
    unfolding boot_state_def by (rule flow_reach.init) (rule surjective_pairing)
  then show "\<exists>ch. flow_inv ch boot_state \<and> {} = table_nodes ch" by (rule flow_table_wellformed)
qed

text \<open>What \<open>FlowGetFlowFromHash\<close> leaves behind when it returns a flow.\<close>

lemma get_flow_found:
  assumes inv: "flow_inv ch t" and f: "\<not> in_table ch f" and fuel: "length (ch (bucket_of m)) < fuel"
    and get: "FlowGetFlowFromHash fuel (Some f) now now' m t = Some (Inr (Some g, t'))"
  shows "\<exists>ch'. flow_inv ch' t' \<and> g \<in> set (ch' (bucket_of m)) \<and> FlowMatch (item t' g) m \<and> length (ch' (bucket_of m)) \<le> Suc (length (ch (bucket_of m)))"
proof (rule flow_lookup_cases [OF inv fuel, of now])
  assume n: "\<And>a. a \<in> set (ch (bucket_of m)) \<Longrightarrow> \<not> FlowMatch (item t a) m" and "flow_lookup fuel now m t = Some (Inr (None, t))"
  then have add: "FlowAdd fuel (Some f) now' (bucket_of m) m t = Some (Inr (Some g, t'))" using get by (simp add: FlowGetFlowFromHash_def)
  show ?thesis
  proof (rule FlowAdd_cases [OF inv f refl fuel, of now'])
    fix t1 assume "FlowAdd fuel (Some f) now' (bucket_of m) m t = Some (Inr (Some f, t1))"
      "flow_inv (ch(bucket_of m := f # ch (bucket_of m))) t1" "item t1 f = new_item now' m"
    with add have "flow_inv (ch(bucket_of m := f # ch (bucket_of m))) t'" "g = f" "FlowMatch (item t' g) m" by auto
    then show ?thesis by (intro exI [of _ "ch(bucket_of m := f # ch (bucket_of m))"]) simp
  qed (use n add in auto)
next
  fix h assume h: "h \<in> set (ch (bucket_of m))" "FlowMatch (item t h) m" "flow_lookup fuel now m t = Some (Inr (Some h,
      t\<lparr>item := (item t)(h := (item t h)\<lparr>cycle := now\<rparr>), item_locked := (item_locked t)(h := True)\<rparr>))"
  with get have "g = h" "t' = t\<lparr>item := (item t)(h := (item t h)\<lparr>cycle := now\<rparr>), item_locked := (item_locked t)(h := True)\<rparr>"
    by (auto simp: FlowGetFlowFromHash_def)
  with h(1,2) flow_inv_touch [OF inv] show ?thesis by (intro exI [of _ ch]) simp
qed (use get in \<open>simp add: FlowGetFlowFromHash_def\<close>)

text \<open>
  C18. The flow a packet gets from the table: the unique item of its bucket that matches it in either
  direction, locked and with a fresh time stamp and no node taken; if that item is locked by another
  core the call waits; if there is none, the node from the allocator, filled from the packet, locked
  and put in front of the chain of the bucket; without a node nothing changes and the result is NULL.
\<close>

theorem FlowGetFlowFromHash_correct:
  assumes inv: "flow_inv ch t" and f: "\<not> in_table ch f" and fuel: "length (ch (bucket_of m)) < fuel"
  shows "case find (\<lambda>a. FlowMatch (item t a) m) (ch (bucket_of m)) of
      Some g \<Rightarrow> FlowGetFlowFromHash fuel (Some f) now now' m t = Some (if item_locked t g then Inl Blocked
        else Inr (Some g, t\<lparr>item := (item t)(g := (item t g)\<lparr>cycle := now\<rparr>), item_locked := (item_locked t)(g := True)\<rparr>))
    | None \<Rightarrow> FlowGetFlowFromHash fuel None now now' m t = Some (Inr (None, t)) \<and>
        (\<exists>t'. FlowGetFlowFromHash fuel (Some f) now now' m t = Some (Inr (Some f, t')) \<and>
          flow_inv (ch(bucket_of m := f # ch (bucket_of m))) t' \<and> item t' f = new_item now' m \<and>
          item_locked t' = (item_locked t)(f := True) \<and> fpa_freed t' = fpa_freed t)"
proof (cases "find (\<lambda>a. FlowMatch (item t a) m) (ch (bucket_of m))")
  case None
  then have n: "\<not> FlowMatch (item t a) m" if "a \<in> set (ch (bucket_of m))" for a using that by (simp add: find_None_iff)
  have look: "flow_lookup fuel now m t = Some (Inr (None, t))"
    by (rule flow_lookup_cases [OF inv fuel, of now]) (use n in auto)
  show ?thesis
    by (rule FlowAdd_cases [OF inv f refl fuel, of now'])
      (use n in \<open>auto simp: None FlowGetFlowFromHash_def look FlowAdd_def [of _ None] flow_item_alloc_def\<close>)
next
  case (Some g)
  then have g: "g \<in> set (ch (bucket_of m))" "FlowMatch (item t g) m" by (auto simp: find_Some_iff)
  have u: "h = g" if "h \<in> set (ch (bucket_of m))" "FlowMatch (item t h) m" for h
    using flow_invD(5) [OF inv bucket_of_less that(1) g(1) that(2) g(2)] .
  show ?thesis
    by (rule flow_lookup_cases [OF inv fuel, of now]) (use u g in \<open>auto simp: Some FlowGetFlowFromHash_def\<close>)
qed

theorem FlowGetFlowFromHash_correct_witness:
  "FlowGetFlowFromHash 1 None 7 8 test_mbuf boot_state = Some (Inr (None, boot_state)) \<and>
   (\<exists>t'. FlowGetFlowFromHash 1 (Some 5) 7 8 test_mbuf boot_state = Some (Inr (Some 5, t')) \<and> item t' 5 = new_item 8 test_mbuf)"
  using FlowGetFlowFromHash_correct [where f = 5 and m = test_mbuf and fuel = 1 and now = 7 and now' = 8, OF boot_inv] by (auto simp: in_table_def)

text \<open>
  C19. A packet and its reply belong to one flow: after a packet got flow \<open>g\<close> and \<open>g\<close> is unlocked, the
  same packet and the packet with source and destination exchanged both get \<open>g\<close> again, and no node is
  taken or freed for them.
\<close>

theorem flow_bidirectional:
  assumes inv: "flow_inv ch t" and f: "\<not> in_table ch f" and fuel: "Suc (length (ch (bucket_of m))) < fuel"
    and get: "FlowGetFlowFromHash fuel (Some f) now now' m t = Some (Inr (Some g, t'))" and m': "m' = m \<or> m' = reply m"
  shows "\<exists>t2. FlowGetFlowFromHash fuel buf later later' m' (FLOW_ITEM_UNLOCK g t') = Some (Inr (Some g, t2)) \<and>
    fpa_freed t2 = fpa_freed t' \<and> hh t2 = hh t' \<and> item_locked t2 g"
proof -
  obtain ch' where ch': "flow_inv ch' t'" "g \<in> set (ch' (bucket_of m))" "FlowMatch (item t' g) m" "length (ch' (bucket_of m)) < fuel"
    using get_flow_found [OF inv f _ get] fuel by force
  let ?t = "FLOW_ITEM_UNLOCK g t'"
  have inv': "flow_inv ch' ?t" using ch'(1) by (simp add: FLOW_ITEM_UNLOCK_def)
  have t: "item ?t = item t'" "\<not> item_locked ?t g" "fpa_freed ?t = fpa_freed t'" "hh ?t = hh t'" by (simp_all add: FLOW_ITEM_UNLOCK_def)
  have b: "bucket_of m' = bucket_of m" and mt: "FlowMatch x m' = FlowMatch x m" for x
    using m' bucket_of_reply FlowMatch_reply by auto
  have u: "h = g" if "h \<in> set (ch' (bucket_of m))" "FlowMatch (item t' h) m" for h
    using flow_invD(5) [OF ch'(1) bucket_of_less that(1) ch'(2) that(2) ch'(3)] .
  have "length (ch' (bucket_of m')) < fuel" using ch'(4) b by simp
  with inv' show ?thesis
  proof (rule flow_lookup_cases [where now = later])
    fix h assume h: "h \<in> set (ch' (bucket_of m'))" "FlowMatch (item ?t h) m'" and look: "flow_lookup fuel later m' ?t = Some (Inr (Some h,
      ?t\<lparr>item := (item ?t)(h := (item ?t h)\<lparr>cycle := later\<rparr>), item_locked := (item_locked ?t)(h := True)\<rparr>))"
    have "h = g" by (rule u) (use h b mt t(1) in simp_all)
    with look t(3,4) show ?thesis by (simp add: FlowGetFlowFromHash_def)
  next
    fix h assume "h \<in> set (ch' (bucket_of m'))" "FlowMatch (item ?t h) m'" "item_locked ?t h"
    with u [of h] b mt t(1,2) show ?thesis by simp
  next
    assume "\<And>a. a \<in> set (ch' (bucket_of m')) \<Longrightarrow> \<not> FlowMatch (item ?t a) m'"
    from this [of g] ch'(2,3) b mt t(1) show ?thesis by simp
  qed
qed

theorem flow_bidirectional_witness:
  "\<exists>t' t2. FlowGetFlowFromHash 2 (Some 5) 7 8 test_mbuf boot_state = Some (Inr (Some 5, t')) \<and>
    FlowGetFlowFromHash 2 (Some 6) 9 9 (reply test_mbuf) (FLOW_ITEM_UNLOCK 5 t') = Some (Inr (Some 5, t2))"
proof -
  have f: "\<not> in_table (\<lambda>_. []) 5" by (simp add: in_table_def)
  have look: "flow_lookup 2 7 test_mbuf boot_state = Some (Inr (None, boot_state))"
    by (rule flow_lookup_cases [where now = 7 and m = test_mbuf and fuel = 2, OF boot_inv]) auto
  obtain t1 where t1: "FlowAdd 2 (Some 5) 8 (bucket_of test_mbuf) test_mbuf boot_state = Some (Inr (Some 5, t1))"
    by (rule FlowAdd_cases [where now = 8 and m = test_mbuf and fuel = 2, OF boot_inv f refl]) auto
  with look have get: "FlowGetFlowFromHash 2 (Some 5) 7 8 test_mbuf boot_state = Some (Inr (Some 5, t1))" by (simp add: FlowGetFlowFromHash_def)
  from flow_bidirectional [where m' = "reply test_mbuf" and buf = "Some 6" and later = 9 and later' = 9, OF boot_inv f _ get] get show ?thesis by auto
qed

text \<open>
  C20. A run of the ageing timer over a table with chains shorter than the fuel ends without a fault.
  In every bucket whose lock was free it takes out exactly the items that nobody has locked, that no
  packet refers to and that were idle for more than twenty seconds, keeps the rest in order, and hands
  the removed nodes to the allocator bucket by bucket; items and busy buckets are left as they were.
\<close>

theorem FlowAgeTimeoutCB_correct:
  assumes inv: "flow_inv ch t" and fuel: "\<And>i. i < FLOW_BUCKET_NUM \<Longrightarrow> length (ch i) < fuel"
  shows "\<exists>t'. FlowAgeTimeoutCB fuel busy rate now t = Some (Inr t') \<and>
    flow_inv (\<lambda>i. if busy i then ch i else filter (\<lambda>a. item_locked t a \<or> \<not> FlowTimeOut rate (item t a) now) (ch i)) t' \<and>
    item t' = item t \<and> item_locked t' = item_locked t \<and>
    fpa_freed t' = fpa_freed t @ concat (map (\<lambda>i. if busy i then [] else
      rev (filter (\<lambda>a. \<not> item_locked t a \<and> FlowTimeOut rate (item t a) now) (ch i))) [0..<FLOW_BUCKET_NUM])"
proof -
  let ?is = "[0..<FLOW_BUCKET_NUM]" and ?E = "expired rate now t"
  obtain t' where t': "age_from fuel busy rate now ?is t = Some (Inr t')" "flow_inv (swept busy ?E ?is ch) t'" "same_items t t'"
    "fpa_freed t' = fpa_freed t @ collected busy ?E ?is ch"
    using age_from_ok [where busy = busy and rate = rate and now = now, OF inv fuel distinct_upt all_buckets] by auto
  have "flow_inv (\<lambda>i. if busy i then ch i else filter (\<lambda>a. item_locked t a \<or> \<not> FlowTimeOut rate (item t a) now) (ch i)) t'"
    by (rule flow_inv_chains [OF t'(2)]) (auto simp: swept_def expired_def cong: filter_cong)
  moreover have "concat (map (\<lambda>i. if busy i then [] else rev (filter E (ch i))) js) = collected busy E js ch" for E js
    by (induction js) (simp_all add: collected_def)
  ultimately show ?thesis using t'(1,3,4) by (simp add: FlowAgeTimeoutCB_def same_items_def expired_def [abs_def])
qed

text \<open>A table with one flow: node 5 with the time stamp 8.\<close>

lemma one_flow:
  obtains t where "FlowAdd 1 (Some 5) 8 (bucket_of test_mbuf) test_mbuf boot_state = Some (Inr (Some 5, t))"
    "flow_inv ((\<lambda>_. [])(bucket_of test_mbuf := [5])) t" "item t 5 = new_item 8 test_mbuf" "item_locked t = (\<lambda>a. a = 5)" "fpa_freed t = []"
proof -
  have f: "\<not> in_table (\<lambda>_. []) 5" by (simp add: in_table_def)
  have b: "fpa_freed boot_state = []" "item_locked boot_state = (\<lambda>_. False)" by (simp_all add: boot_state_def FlowInit_def Let_def)
  show thesis
    by (rule FlowAdd_cases [where now = 8 and m = test_mbuf and fuel = 1, OF boot_inv f refl])
      (use that b in \<open>auto simp: fun_upd_def\<close>)
qed

theorem FlowAgeTimeoutCB_correct_witness:
  "\<exists>t t'. FlowAgeTimeoutCB 2 (\<lambda>_. False) 100 4000 t = Some (Inr t') \<and> item t 5 = new_item 8 test_mbuf \<and> fpa_freed t = [] \<and> 5 \<in> set (fpa_freed t')"
proof -
  obtain t where t: "flow_inv ((\<lambda>_. [])(bucket_of test_mbuf := [5])) t" "item t 5 = new_item 8 test_mbuf" "fpa_freed t = []"
    by (rule one_flow) blast
  let ?t = "FLOW_ITEM_UNLOCK 5 t"
  have inv: "flow_inv ((\<lambda>_. [])(bucket_of test_mbuf := [5])) ?t" using t(1) by (simp add: FLOW_ITEM_UNLOCK_def)
  have eq: "item ?t 5 = new_item 8 test_mbuf" "fpa_freed ?t = []" "\<not> item_locked ?t 5" using t(2,3) by (simp_all add: FLOW_ITEM_UNLOCK_def)
  have to: "FlowTimeOut 100 (new_item 8 test_mbuf) 4000" by (simp add: FlowTimeOut_def FLOW_MAX_TIMEOUT_def new_item_def)
  have "length (((\<lambda>_. [])(bucket_of test_mbuf := [5::nat])) i) < 2" for i by simp
  from FlowAgeTimeoutCB_correct [OF inv this, of "\<lambda>_. False" 100 4000] obtain t' where
    t': "FlowAgeTimeoutCB 2 (\<lambda>_. False) 100 4000 ?t = Some (Inr t')"
    "set (fpa_freed t') = (\<Union>i < FLOW_BUCKET_NUM. {a \<in> set (((\<lambda>_. [])(bucket_of test_mbuf := [5])) i).
      \<not> item_locked ?t a \<and> FlowTimeOut 100 (item ?t a) 4000})"
    using eq(2) by (auto simp: atLeast0LessThan)
  have "5 \<in> set (fpa_freed t')"
    unfolding t'(2) by (rule UN_I [of "bucket_of test_mbuf"]) (use bucket_of_less eq(1,3) to in simp_all)
  with t'(1) eq show ?thesis by blast
qed

text \<open>
  C21. Garbage collection of flows in every reachable table: there is enough fuel for a run of the
  timer that finds no bucket locked, and the nodes it gives back are exactly the idle ones. A flow that
  a core holds or a packet refers to is never given back, and an idle one is not kept.
\<close>

theorem flow_collection_live:
  assumes "flow_reach L t"
  shows "\<exists>fuel t'. FlowAgeTimeoutCB fuel (\<lambda>_. False) rate now t = Some (Inr t') \<and>
    newly_freed t t' = {a \<in> L. \<not> item_locked t a \<and> sint (use_cnt (item t a)) \<le> 0 \<and> cycle (item t a) < now \<and>
      20 * rate < now - cycle (item t a)}"
proof -
  obtain ch where ch: "flow_inv ch t" "L = table_nodes ch" using flow_reach_inv [OF assms] by blast
  define fuel where "fuel = Suc (Max ((\<lambda>i. length (ch i)) ` {..<FLOW_BUCKET_NUM}))"
  have "length (ch i) < fuel" if "i < FLOW_BUCKET_NUM" for i
    unfolding fuel_def less_Suc_eq_le by (rule Max_ge) (use that in auto)
  from age_from_ok [where busy = "\<lambda>_. False" and rate = rate and now = now, OF ch(1) this distinct_upt all_buckets] obtain t' where
    t': "FlowAgeTimeoutCB fuel (\<lambda>_. False) rate now t = Some (Inr t')"
    "fpa_freed t' = fpa_freed t @ collected (\<lambda>_. False) (expired rate now t) [0..<FLOW_BUCKET_NUM] ch"
    by (auto simp: FlowAgeTimeoutCB_def)
  have "FlowTimeOut rate f now \<longleftrightarrow> sint (use_cnt f) \<le> 0 \<and> cycle f < now \<and> 20 * rate < now - cycle f" for f
    by (auto simp: FlowTimeOut_def FLOW_MAX_TIMEOUT_def)
  then have "newly_freed t t' = {a \<in> L. \<not> item_locked t a \<and> sint (use_cnt (item t a)) \<le> 0 \<and> cycle (item t a) < now \<and>
      20 * rate < now - cycle (item t a)}"
    unfolding newly_freed_append [OF t'(2)] collected_def ch(2) table_nodes_def in_table_def expired_def by auto
  with t'(1) show ?thesis by blast
qed

theorem flow_collection_live_witness:
  "\<exists>t. flow_reach {5} t \<and> item_locked t 5 \<and> (\<exists>fuel t'. FlowAgeTimeoutCB fuel (\<lambda>_. False) 100 4000 t = Some (Inr t') \<and>
     newly_freed t t' = {a \<in> {5}. \<not> item_locked t a \<and> sint (use_cnt (item t a)) \<le> 0 \<and> cycle (item t a) < 4000 \<and>
      20 * 100 < 4000 - cycle (item t a)})"
proof -
  obtain t where t: "FlowAdd 1 (Some 5) 8 (bucket_of test_mbuf) test_mbuf boot_state = Some (Inr (Some 5, t))"
    "item_locked t = (\<lambda>a. a = 5)" "fpa_freed t = []"
    by (rule one_flow) blast
  have "flow_reach {} boot_state"
    unfolding boot_state_def by (rule flow_reach.init) (rule surjective_pairing)
  from flow_reach.add [OF this _ t(1)] t(3) have r: "flow_reach {5} t" by (simp add: newly_freed_def)
  have "item_locked t 5" using t(2) by simp
  with r flow_collection_live [OF r, of 100 4000] show ?thesis by blast
qed

end
