(* ===== verification/DecodeTheorems.thy ===== *)
theory DecodeTheorems
  imports Decode FlowAge
begin

text \<open>
  What the decoders do with a received frame that is not an IP fragment, against a reference parser on
  the bytes of the frame: which frames are forwarded, with which flow, and what happens to the
  descriptor and the buffer of every frame.
\<close>

section \<open>A reference parser\<close>

type_synonym flow_key = "u32 \<times> u32 \<times> u16 \<times> u16 \<times> u8"

definition parse_tcp :: "u8 list \<Rightarrow> (u16 \<times> u16) option" where
  "parse_tcp bs =
     (let h = 4 * (unat (bs ! 12) div 16) in
      if length bs < 20 \<or> h < 20 \<or> length bs < h then None else Some (get16 bs 0, get16 bs 2))"

definition parse_udp :: "u8 list \<Rightarrow> (u16 \<times> u16) option" where
  "parse_udp bs = (if length bs < 8 \<or> unat (get16 bs 4) \<noteq> length bs then None else Some (get16 bs 0, get16 bs 2))"

definition ip_hlen :: "u8 list \<Rightarrow> nat" where
  "ip_hlen bs = 4 * (unat (bs ! 0) mod 16)"

definition ip_total :: "u8 list \<Rightarrow> nat" where
  "ip_total bs = unat (get16 bs 2)"

definition ip_valid :: "u8 list \<Rightarrow> bool" where
  "ip_valid bs \<longleftrightarrow> 20 \<le> length bs \<and> unat (bs ! 0) div 16 = 4 \<and> 20 \<le> ip_hlen bs \<and> ip_hlen bs \<le> ip_total bs \<and> ip_total bs \<le> length bs"

definition ip_payload :: "u8 list \<Rightarrow> u8 list" where
  "ip_payload bs = take (ip_total bs - ip_hlen bs) (drop (ip_hlen bs) bs)"

definition parse_ipv4 :: "u8 list \<Rightarrow> flow_key option" where
  "parse_ipv4 bs =
     (if \<not> ip_valid bs then None
      else map_option (\<lambda>(sp, dp). (get32 bs 12, get32 bs 16, sp, dp, bs ! 9))
        (if bs ! 9 = 6 then parse_tcp (ip_payload bs) else if bs ! 9 = 17 then parse_udp (ip_payload bs) else None))"

definition l3_offset :: "u8 list \<Rightarrow> nat" where
  "l3_offset bs = (if get16 bs 12 = 0x0800 then 14 else 18)"

definition parse_frame :: "u8 list \<Rightarrow> flow_key option" where
  "parse_frame bs =
     (if length bs < 14 \<or> bs ! 0 \<noteq> 0x88 then None
      else if get16 bs 12 = 0x0800 then parse_ipv4 (drop 14 bs)
      else if (get16 bs 12 = 0x8100 \<or> get16 bs 12 = 0x9100) \<and> 18 \<le> length bs \<and> get16 bs 16 = 0x0800 then parse_ipv4 (drop 18 bs)
      else None)"

text \<open>No fragment: offset and more-fragments flag of the IP header are zero.\<close>

definition unfragmented :: "u8 list \<Rightarrow> bool" where
  "unfragmented bs \<longleftrightarrow> length bs < l3_offset bs + 20 \<or> get16 bs (l3_offset bs + 6) AND 0x3fff = 0"

section \<open>Words and reads\<close>

lemma nibbles:
  fixes b :: u8
  shows "unat (b AND 0x0f) = unat b mod 16" "unat (drop_bit 4 (b AND 0xf0)) = unat b div 16"
proof -
  have "b AND 0x0f = take_bit 4 b" unfolding take_bit_eq_mask by (simp add: mask_eq_exp_minus_1)
  then show "unat (b AND 0x0f) = unat b mod 16" by (simp only: unsigned_take_bit_eq) (simp add: take_bit_eq_mod)
  have "drop_bit 4 (b AND 0xf0) = drop_bit 4 b"
    by (rule bit_word_eqI) (auto simp: bit_simps numeral_eq_Suc less_Suc_eq dest: bit_imp_le_length)
  then have "drop_bit 4 (b AND 0xf0) = b div 16" by (simp only:) (simp add: drop_bit_eq_div)
  then show "unat (drop_bit 4 (b AND 0xf0)) = unat b div 16" by (simp only: unat_div) simp
qed

lemma tcp_hlen: "unat (push_bit 2 (drop_bit 4 (b AND 0xf0)) :: u8) = 4 * (unat b div 16)"
proof -
  have "unat b div 16 < 16" using unsigned_less [of b, where 'a = nat] by simp
  then show ?thesis unfolding push_bit_eq_mult unat_word_ariths nibbles(2) by simp
qed

lemma no_fragment:
  fixes w :: u16
  assumes "w AND 0x3fff = 0"
  shows "w AND 0x1fff = 0" "drop_bit 13 w AND 1 = 0"
proof -
  have "w AND 0x1fff = (w AND 0x3fff) AND 0x1fff" "w AND 0x2000 = (w AND 0x3fff) AND 0x2000"
    by (simp_all add: and.assoc)
  with assms have w: "w AND 0x1fff = 0" "w AND 0x2000 = 0" by simp_all
  then show "w AND 0x1fff = 0" by simp
  from arg_cong [OF w(2), of "drop_bit 13"] show "drop_bit 13 w AND 1 = 0" by simp
qed

text \<open>Reads at an offset behind a pointer with \<open>n\<close> bytes of the packet behind it.\<close>

definition bytes_at :: "mbuf_t \<Rightarrow> u64 \<Rightarrow> u8 list" where
  "bytes_at m p = drop (unat (p - pkt_ptr m)) (pkt_data m)"

definition ahead :: "mbuf_t \<Rightarrow> u64 \<Rightarrow> nat \<Rightarrow> bool" where
  "ahead m p n \<longleftrightarrow> unat (p - pkt_ptr m) + n \<le> length (pkt_data m) \<and> length (pkt_data m) < 65536"

lemma ahead_off: "ahead m p n \<Longrightarrow> k \<le> n \<Longrightarrow> unat (p + of_nat k - pkt_ptr m) = unat (p - pkt_ptr m) + k"
  by (rule ptr_off) (simp add: ahead_def)

lemma ahead_move: "ahead m p n \<Longrightarrow> k \<le> n \<Longrightarrow> ahead m (p + of_nat k) (n - k)"
  using ahead_off [of m p n k] by (simp add: ahead_def)

lemma bytes_at_move: "ahead m p n \<Longrightarrow> k \<le> n \<Longrightarrow> bytes_at m (p + of_nat k) = drop k (bytes_at m p)"
  using ahead_off [of m p n k] by (simp add: bytes_at_def add.commute)

lemma reads_ahead:
  assumes a: "ahead m p n"
  shows "k + 1 \<le> n \<Longrightarrow> pkt8 m (p + of_nat k) = Inr (get8 (bytes_at m p) k)"
    "k + 2 \<le> n \<Longrightarrow> pkt16 m (p + of_nat k) = Inr (get16 (bytes_at m p) k)"
    "k + 4 \<le> n \<Longrightarrow> pkt32 m (p + of_nat k) = Inr (get32 (bytes_at m p) k)"
    "k + j \<le> n \<Longrightarrow> read_pkt m (p + of_nat k) j = Inr (take j (drop k (bytes_at m p)))"
  using a by (simp_all add: pkt_reads_ok read_pkt_ok ahead_off [OF a] ahead_def bytes_at_def get8_def get16_def get32_def add.assoc add.commute [of k])

lemmas reads_ahead0 = reads_ahead [where k = 0, simplified]

section \<open>What decoding leaves of a descriptor\<close>

definition key :: "mbuf_t \<Rightarrow> flow_key" where
  "key m = (sip m, dip m, sport m, dport m, proto m)"

definition kept :: "mbuf_t \<Rightarrow> mbuf_t \<Rightarrow> bool" where
  "kept m m' \<longleftrightarrow> pkt_space m' = pkt_space m \<and> pkt_totallen m' = pkt_totallen m \<and> packet_ptr m' = packet_ptr m \<and> pkt_ptr m' = pkt_ptr m \<and>
     input_port m' = input_port m \<and> flow m' = flow m \<and> pkt_data m' = pkt_data m"

text \<open>Only the descriptor of the packet and the counters have changed.\<close>

definition touched :: "nat \<Rightarrow> dp_state \<Rightarrow> dp_state \<Rightarrow> bool" where
  "touched mb s s' \<longleftrightarrow> (\<exists>m st. s' = s\<lparr>mbufs := (mbufs s)(mb := m), stats := st\<rparr> \<and> kept (mbufs s mb) m)"

lemma touched_refl [simp]: "touched mb s s"
  unfolding touched_def by (intro exI [of _ "mbufs s mb"] exI [of _ "stats s"]) (simp add: kept_def)

lemma touched_trans: "touched mb s s1 \<Longrightarrow> touched mb s1 s2 \<Longrightarrow> touched mb s s2"
  by (fastforce simp: touched_def kept_def)

lemma touched_STAT [simp]: "touched mb s (STAT c s') = touched mb s s'"
proof -
  have "touched mb s' (STAT c s')" for s'
    unfolding touched_def STAT_def by (intro exI [of _ "mbufs s' mb"] exI) (simp add: kept_def)
  moreover have "touched mb (STAT c s') s'" unfolding touched_def STAT_def
    by (intro exI [of _ "mbufs s' mb"] exI [of _ "stats s'"]) (simp add: kept_def)
  ultimately show ?thesis using touched_trans by blast
qed

lemma touched_upd: "touched mb s s' \<Longrightarrow> kept (mbufs s' mb) (g (mbufs s' mb)) \<Longrightarrow> touched mb s (upd_mbuf mb g s')"
proof (erule touched_trans)
  assume "kept (mbufs s' mb) (g (mbufs s' mb))"
  then show "touched mb s' (upd_mbuf mb g s')"
    unfolding touched_def upd_mbuf_def by (intro exI [of _ "g (mbufs s' mb)"] exI [of _ "stats s'"]) simp
qed

lemma touched_kept: "touched mb s s' \<Longrightarrow> kept (mbufs s mb) (mbufs s' mb)"
  by (auto simp: touched_def)

lemma mbufs_STAT [simp]: "mbufs (STAT c s) = mbufs s"
  by (simp add: STAT_def)

lemma mbufs_upd [simp]: "mbufs (upd_mbuf mb g s) mb = g (mbufs s mb)"
  by (simp add: upd_mbuf_def)

lemma kept_view: "kept m m' \<Longrightarrow> bytes_at m' p = bytes_at m p" "kept m m' \<Longrightarrow> ahead m' p n = ahead m p n"
  by (simp_all add: kept_def bytes_at_def ahead_def)

section \<open>The fate of a packet\<close>

definition released :: "nat \<Rightarrow> dp_state \<Rightarrow> dp_state \<Rightarrow> bool" where
  "released mb s s' \<longleftrightarrow> host_freed s' = host_freed s @ [mb] \<and> flow (mbufs s' mb) = None \<and> (\<forall>x. x \<noteq> mb \<longrightarrow> mbufs s' x = mbufs s x) \<and>
     mem s' = mem s \<and> mctrl s' = mctrl s \<and> tx_done s' = tx_done s \<and> wqe_freed s' = wqe_freed s \<and> fh s' = fh s \<and> fcbs s' = fcbs s"

definition dropped :: "nat \<Rightarrow> dp_state \<Rightarrow> dp_state \<Rightarrow> bool" where
  "dropped mb s s' \<longleftrightarrow> released mb s s' \<and> pko_sent s' = pko_sent s \<and>
     hw_freed s' = hw_freed s @ [(start_of_buffer (packet_ptr (mbufs s mb)), bp_pool (packet_ptr (mbufs s mb)))]"

definition transmitted :: "nat \<Rightarrow> dp_state \<Rightarrow> dp_state \<Rightarrow> bool" where
  "transmitted mb s s' \<longleftrightarrow> released mb s s' \<and> hw_freed s' = hw_freed s \<and>
     pko_sent s' = pko_sent s @ [(ucast (input_port (mbufs s mb)), SendHw (packet_ptr (mbufs s mb)) (pkt_totallen (mbufs s mb)))]"

definition with_key :: "flow_key \<Rightarrow> mbuf_t \<Rightarrow> mbuf_t" where
  "with_key k m = (case k of (s, d, sp, dp, p) \<Rightarrow> m\<lparr>sip := s, dip := d, sport := sp, dport := dp, proto := p\<rparr>)"

text \<open>What becomes of a packet whose frame parses to \<open>k\<close>, by what the flow table answers.\<close>

definition fate :: "dp_env \<Rightarrow> nat \<Rightarrow> flow_key option \<Rightarrow> dp_state \<Rightarrow> dp_state res option \<Rightarrow> bool" where
  "fate e mb k s r \<longleftrightarrow> (case k of
     None \<Rightarrow> \<exists>s'. r = Some (Inr s') \<and> dropped mb s s' \<and> flows s' = flows s
   | Some k \<Rightarrow>
       (case FlowGetFlowFromHash (e_fuel e) (e_flow_node e) (e_now e) (e_now' e) (with_key k (mbufs s mb)) (flows s) of
          None \<Rightarrow> r = None
        | Some (Inl x) \<Rightarrow> r = Some (Inl x)
        | Some (Inr (None, t)) \<Rightarrow> \<exists>s'. r = Some (Inr s') \<and> dropped mb s s' \<and> flows s' = t
        | Some (Inr (Some f, t)) \<Rightarrow> \<exists>s'. r = Some (Inr s') \<and> flows s' = FLOW_ITEM_UNLOCK f t \<and>
            (if unat (ucast (input_port (mbufs s mb)) :: u8) \<le> OCT_PHY_PORT_MAX \<and> e_pko_ok e then transmitted mb s s' else dropped mb s s')))"

text \<open>A decoder reports a frame it refuses and leaves it to its caller, or it has settled the fate of the packet.\<close>

definition handled :: "dp_env \<Rightarrow> nat \<Rightarrow> flow_key option \<Rightarrow> dp_state \<Rightarrow> (nat \<times> dp_state) res option \<Rightarrow> bool" where
  "handled e mb k s r \<longleftrightarrow> (k = None \<and> (\<exists>s'. r = Some (Inr (DECODE_DROP, s')) \<and> touched mb s s')) \<or>
     (\<exists>q. fate e mb k s q \<and> r = fbind q (\<lambda>s'. Some (Inr (DECODE_OK, s'))))"

definition fresh :: "nat \<Rightarrow> dp_state \<Rightarrow> bool" where
  "fresh mb s \<longleftrightarrow> pkt_space (mbufs s mb) = PKTBUF_HW \<and> flow (mbufs s mb) = None \<and> mbuf_ok mb s"

lemma touched_fields:
  assumes "touched mb s s1"
  shows "flows s1 = flows s" "mctrl s1 = mctrl s" "host_freed s1 = host_freed s" "hw_freed s1 = hw_freed s" "mem s1 = mem s"
    "tx_done s1 = tx_done s" "pko_sent s1 = pko_sent s" "wqe_freed s1 = wqe_freed s" "fh s1 = fh s" "fcbs s1 = fcbs s"
    "x \<noteq> mb \<Longrightarrow> mbufs s1 x = mbufs s x" "mbuf_ok mb s1 = mbuf_ok mb s"
  using assms by (auto simp: touched_def mbuf_ok_def)

lemma touched_fresh: "touched mb s s1 \<Longrightarrow> fresh mb s \<Longrightarrow> fresh mb s1"
  using touched_kept [of mb s s1] by (simp add: fresh_def kept_def touched_fields)

lemma fresh_destroyed:
  assumes t: "touched mb s s1" and f: "fresh mb s"
  shows "\<exists>s'. packet_destroy_all mb (s1\<lparr>flows := t'\<rparr>) = Inr s' \<and> dropped mb s s' \<and> flows s' = t'"
proof -
  have "fresh mb s1" by (rule touched_fresh [OF t f])
  then show ?thesis
    using touched_kept [OF t] touched_fields [OF t]
    by (simp add: packet_destroy_all_def Let_def fresh_def mbuf_free_eq dropped_def released_def kept_def FlowDeReference_def mbuf_ok_def)
qed

lemma handled_finish:
  assumes "handled e mb k s r" and f: "fresh mb s"
  shows "fate e mb k s (fbind r (\<lambda>(c, s1). if c \<noteq> DECODE_OK then Some (packet_destroy_all mb s1) else Some (Inr s1)))"
  using assms(1) unfolding handled_def
proof (elim disjE conjE exE)
  fix s' assume k: "k = None" and r: "r = Some (Inr (DECODE_DROP, s'))" and t: "touched mb s s'"
  obtain s2 where "packet_destroy_all mb s' = Inr s2" "dropped mb s s2" "flows s2 = flows s'"
    using fresh_destroyed [OF t f, of "flows s'"] by auto
  with touched_fields(1) [OF t] show ?thesis by (simp add: k r fate_def DECODE_OK_def DECODE_DROP_def)
next
  fix q assume q: "fate e mb k s q" and r: "r = fbind q (\<lambda>s'. Some (Inr (DECODE_OK, s')))"
  have "fbind r (\<lambda>(c, s1). if c \<noteq> DECODE_OK then Some (packet_destroy_all mb s1) else Some (Inr s1)) = q"
    unfolding r by (auto simp: fbind_def split: option.splits sum.splits)
  with q show ?thesis by simp
qed

section \<open>Flows\<close>

text \<open>The flow table reads of a packet only its key.\<close>

lemma FlowGet_key:
  assumes "key m = key m'"
  shows "FlowGetFlowFromHash fuel buf now now' m t = FlowGetFlowFromHash fuel buf now now' m' t"
proof -
  have k: "sip m = sip m'" "dip m = dip m'" "sport m = sport m'" "dport m = dport m'" "proto m = proto m'"
    using assms by (simp_all add: key_def)
  have mt: "FlowMatch x m = FlowMatch x m'" for x using k by (simp add: FlowMatch_def)
  have it: "new_item n m = new_item n m'" and b: "bucket_of m = bucket_of m'" for n using k by (simp_all add: new_item_def bucket_of_def)
  have ff: "FlowFind fuel n b m t = FlowFind fuel n b m' t" for n b t unfolding FlowFind_def mt ..
  have ad: "FlowAdd fuel buf n b m t = FlowAdd fuel buf n b m' t" for n b t unfolding FlowAdd_def it ff ..
  show ?thesis unfolding FlowGetFlowFromHash_def flow_lookup_def ff ad b ..
qed

lemma key_with_key [simp]: "key (with_key k m) = k"
  by (cases k) (simp add: key_def with_key_def)

text \<open>A packet that got a flow holds a reference to it until its descriptor is released.\<close>

lemma reference_released: "FlowDecrUsecnt f (FLOW_ITEM_UNLOCK f (FlowIncrUsecnt f t)) = FLOW_ITEM_UNLOCK f t"
  by (simp add: FLOW_ITEM_UNLOCK_def FlowDecrUsecnt_def FlowIncrUsecnt_def)

lemma delivered:
  assumes t: "touched mb s s1" and f: "fresh mb s"
    and s2: "s2 = upd_mbuf mb (\<lambda>m. m\<lparr>flow := Some g, mflags := mflags m OR PKT_HAS_FLOW\<rparr>) (s1\<lparr>flows := FLOW_ITEM_UNLOCK g (FlowIncrUsecnt g t')\<rparr>)"
  shows "\<exists>s'. l7_deliver ok mb (STAT FLOW_PROC_OK s2) = Inr s' \<and> flows s' = FLOW_ITEM_UNLOCK g t' \<and>
    (if unat (ucast (input_port (mbufs s mb)) :: u8) \<le> OCT_PHY_PORT_MAX \<and> ok then transmitted mb s s' else dropped mb s s')"
proof -
  have f1: "fresh mb s1" by (rule touched_fresh [OF t f])
  note defs = l7_deliver_def oct_tx_process_mbuf_def Let_def s2 upd_mbuf_def STAT_def mbuf_free_eq mbuf_ok_def FlowDeReference_def
    reference_released released_def
  note eqs = f1 [unfolded fresh_def mbuf_ok_def] touched_kept [OF t, unfolded kept_def] touched_fields(2-11) [OF t]
  consider "OCT_PHY_PORT_MAX < unat (ucast (input_port (mbufs s mb)) :: u8)"
    | "unat (ucast (input_port (mbufs s mb)) :: u8) \<le> OCT_PHY_PORT_MAX" "ok" | "unat (ucast (input_port (mbufs s mb)) :: u8) \<le> OCT_PHY_PORT_MAX" "\<not> ok"
    by linarith
  then show ?thesis
  proof cases
    case 1
    with eqs show ?thesis by (simp add: defs packet_destroy_all_def dropped_def)
  next
    case 2
    with eqs show ?thesis by (simp add: defs transmitted_def)
  next
    case 3
    with eqs show ?thesis by (simp add: defs packet_destroy_data_def dropped_def)
  qed
qed

lemma FlowHandlePacket_fate:
  assumes t: "touched mb s s1" and f: "fresh mb s"
  shows "fate e mb (Some (key (mbufs s1 mb))) s (FlowHandlePacket e mb s1)"
proof -
  let ?get = "FlowGetFlowFromHash (e_fuel e) (e_flow_node e) (e_now e) (e_now' e)"
  define G where "G = ?get (mbufs s1 mb) (flows s1)"
  have get: "?get (with_key (key (mbufs s1 mb)) (mbufs s mb)) (flows s) = G"
    unfolding G_def using FlowGet_key [of "mbufs s1 mb" "with_key (key (mbufs s1 mb)) (mbufs s mb)"] touched_fields(1) [OF t] by simp
  have nf: "flow (mbufs s1 mb) = None" using touched_fresh [OF t f] by (simp add: fresh_def)
  consider "G = None" | x where "G = Some (Inl x)" | t' where "G = Some (Inr (None, t'))" | g t' where "G = Some (Inr (Some g, t'))"
    by (metis not_Some_eq sum.exhaust surj_pair)
  then show ?thesis
  proof cases
    case (3 t')
    obtain s' where "packet_destroy_all mb (s1\<lparr>flows := t'\<rparr>) = Inr s'" "dropped mb s s'" "flows s' = t'"
      using fresh_destroyed [OF t f, of t'] by blast
    then show ?thesis
      by (simp add: fate_def get 3 FlowHandlePacket_def G_def [symmetric] dropped_def released_def STAT_def)
  next
    case (4 g t')
    then show ?thesis
      using delivered [OF t f refl, of "e_pko_ok e" g t']
      by (simp add: fate_def get FlowHandlePacket_def G_def [symmetric] FlowReference_def nf Let_def)
  qed (simp_all add: fate_def get FlowHandlePacket_def G_def [symmetric])
qed

section \<open>Transport protocols\<close>

text \<open>
  The contract of a decoder of a transport protocol: its header check accepts what \<open>parse\<close> accepts and
  puts the ports into the descriptor, and what it accepts goes to the flow table.
\<close>

locale l4_decoder =
  fixes check :: "nat \<Rightarrow> u64 \<Rightarrow> u16 \<Rightarrow> dp_state \<Rightarrow> (nat \<times> dp_state) res"
    and decode :: "dp_env \<Rightarrow> nat \<Rightarrow> u64 \<Rightarrow> u16 \<Rightarrow> dp_state \<Rightarrow> (nat \<times> dp_state) res option"
    and parse :: "u8 list \<Rightarrow> (u16 \<times> u16) option"
    and recv_ok :: stat
  assumes check: "ahead (mbufs s mb) pkt (unat len) \<Longrightarrow> \<exists>r s'. check mb pkt len s = Inr (r, s') \<and> touched mb s s' \<and>
      (case parse (take (unat len) (bytes_at (mbufs s mb) pkt)) of
         None \<Rightarrow> r = DECODE_DROP
       | Some (sp, dp) \<Rightarrow> r = DECODE_OK \<and> key (mbufs s' mb) = (sip (mbufs s mb), dip (mbufs s mb), sp, dp, proto (mbufs s mb)))"
    and decode: "decode e mb pkt len s = fbind (Some (check mb pkt len s)) (\<lambda>(r, s1).
      if r \<noteq> DECODE_OK then Some (Inr (DECODE_DROP, s1))
      else fbind (FlowHandlePacket e mb (STAT recv_ok s1)) (\<lambda>s2. Some (Inr (DECODE_OK, s2))))"
begin

lemma decode_handled:
  assumes t: "touched mb s s1" and f: "fresh mb s" and a: "ahead (mbufs s1 mb) pkt (unat len)"
  shows "handled e mb (map_option (\<lambda>(sp, dp). (sip (mbufs s1 mb), dip (mbufs s1 mb), sp, dp, proto (mbufs s1 mb)))
    (parse (take (unat len) (bytes_at (mbufs s1 mb) pkt)))) s (decode e mb pkt len s1)"
proof -
  obtain r s2 where c: "check mb pkt len s1 = Inr (r, s2)" "touched mb s1 s2" and
    p: "case parse (take (unat len) (bytes_at (mbufs s1 mb) pkt)) of None \<Rightarrow> r = DECODE_DROP
       | Some (sp, dp) \<Rightarrow> r = DECODE_OK \<and> key (mbufs s2 mb) = (sip (mbufs s1 mb), dip (mbufs s1 mb), sp, dp, proto (mbufs s1 mb))"
    using check [OF a] by blast
  have t2: "touched mb s s2" by (rule touched_trans [OF t c(2)])
  show ?thesis
  proof (cases "parse (take (unat len) (bytes_at (mbufs s1 mb) pkt))")
    case None
    with p c(1) t2 show ?thesis by (simp add: handled_def decode DECODE_OK_def DECODE_DROP_def)
  next
    case (Some ports)
    obtain sp dp where sp: "ports = (sp, dp)" by (cases ports)
    have "touched mb s (STAT recv_ok s2)" using t2 by simp
    from FlowHandlePacket_fate [OF this f, of e] p show ?thesis by (auto simp: handled_def decode c(1) Some sp)
  qed
qed

end

lemma get_take:
  "k + 1 \<le> n \<Longrightarrow> get8 (take n bs) k = get8 bs k" "k + 2 \<le> n \<Longrightarrow> get16 (take n bs) k = get16 bs k" "k + 4 \<le> n \<Longrightarrow> get32 (take n bs) k = get32 bs k"
  by (simp_all add: get8_def get16_def get32_def)

lemma length_bytes_at: "ahead m p n \<Longrightarrow> n \<le> length (bytes_at m p)"
  by (auto simp: ahead_def bytes_at_def)

lemma unat_ucast16: "unat (ucast (x :: u8) :: u16) = unat x"
  using unsigned_less [of x, where 'a = nat] by (simp add: unsigned_ucast_eq take_bit_nat_eq_self)

lemma set_header:
  assumes "ahead (mbufs s mb) pkt n" "\<And>m. kept m (g m)"
  shows "touched mb s (upd_mbuf mb g s)" "ahead (mbufs (upd_mbuf mb g s) mb) pkt n"
    "bytes_at (mbufs (upd_mbuf mb g s) mb) p = bytes_at (mbufs s mb) p"
  using assms kept_view(2) [OF assms(2)] by (simp_all add: touched_upd kept_view(1))

lemma DecodeTCPPacket_parse:
  assumes a: "ahead (mbufs s mb) pkt (unat len)"
  shows "\<exists>r s'. DecodeTCPPacket mb pkt len s = Inr (r, s') \<and> touched mb s s' \<and>
      (case parse_tcp (take (unat len) (bytes_at (mbufs s mb) pkt)) of
         None \<Rightarrow> r = DECODE_DROP
       | Some (sp, dp) \<Rightarrow> r = DECODE_OK \<and> key (mbufs s' mb) = (sip (mbufs s mb), dip (mbufs s mb), sp, dp, proto (mbufs s mb)))"
proof (cases "unat len < 20")
  case True
  then show ?thesis by (simp add: DecodeTCPPacket_def TCP_HEADER_LEN_def word_less_nat_alt parse_tcp_def Let_def min_less_iff_disj)
next
  case False
  let ?s = "upd_mbuf mb (\<lambda>m. m\<lparr>transport_header := pkt\<rparr>) s" and ?bs = "bytes_at (mbufs s mb) pkt"
  note s1 = set_header [OF a, where g = "\<lambda>m. m\<lparr>transport_header := pkt\<rparr>", simplified kept_def, simplified]
  define hl where "hl = (push_bit 2 (drop_bit 4 (get8 ?bs 12 AND 0xf0)) :: u8)"
  have hl: "unat hl = 4 * (unat (?bs ! 12) div 16)" unfolding hl_def tcp_hlen get8_def ..
  have "unat (?bs ! 12) div 16 < 16" using unsigned_less [of "?bs ! 12", where 'a = nat] by simp
  then have "unat hl \<le> 60" unfolding hl by simp
  then have opt: "unat TCP_OPTLENMAX < unat (hl - 20) \<longleftrightarrow> unat hl < 20"
    by (auto simp: unat_sub_if' TCP_OPTLENMAX_def)
  have h: "TCP_GET_HLEN (mbufs ?s mb) = Inr hl"
    using reads_ahead(1) [OF s1(2), of 12] False by (simp add: TCP_GET_HLEN_def hl_def s1(3))
  have ports: "pkt16 (mbufs ?s mb) pkt = Inr (get16 ?bs 0)" "pkt16 (mbufs ?s mb) (pkt + 2) = Inr (get16 ?bs 2)"
    using reads_ahead(2) [OF s1(2), of 0] reads_ahead(2) [OF s1(2), of 2] False by (simp_all add: s1(3))
  have parse: "parse_tcp (take (unat len) ?bs) = (if unat hl < 20 \<or> unat len < unat hl then None else Some (get16 ?bs 0, get16 ?bs 2))"
    using False length_bytes_at [OF a] by (simp add: parse_tcp_def Let_def hl get_take min_def)
  have t: "touched mb s (upd_mbuf mb (\<lambda>m. m\<lparr>sport := x, dport := y, payload := p, payload_len := l\<rparr>) ?s)" for x y p l
    using s1(1) by (rule touched_upd) (simp add: kept_def)
  show ?thesis
    using False s1(1) t ports h
    by (auto simp: DecodeTCPPacket_def TCP_HEADER_LEN_def word_less_nat_alt Let_def parse unat_ucast16 opt key_def)
qed

lemma DecodeUDPPacket_parse:
  assumes a: "ahead (mbufs s mb) pkt (unat len)"
  shows "\<exists>r s'. DecodeUDPPacket mb pkt len s = Inr (r, s') \<and> touched mb s s' \<and>
      (case parse_udp (take (unat len) (bytes_at (mbufs s mb) pkt)) of
         None \<Rightarrow> r = DECODE_DROP
       | Some (sp, dp) \<Rightarrow> r = DECODE_OK \<and> key (mbufs s' mb) = (sip (mbufs s mb), dip (mbufs s mb), sp, dp, proto (mbufs s mb)))"
proof (cases "unat len < 8")
  case True
  then show ?thesis by (simp add: DecodeUDPPacket_def UDP_HEADER_LEN_def word_less_nat_alt parse_udp_def Let_def min_less_iff_disj)
next
  case False
  let ?s = "upd_mbuf mb (\<lambda>m. m\<lparr>transport_header := pkt\<rparr>) s" and ?bs = "bytes_at (mbufs s mb) pkt"
  note s1 = set_header [OF a, where g = "\<lambda>m. m\<lparr>transport_header := pkt\<rparr>", simplified kept_def, simplified]
  have rd: "pkt16 (mbufs ?s mb) pkt = Inr (get16 ?bs 0)" "pkt16 (mbufs ?s mb) (pkt + 2) = Inr (get16 ?bs 2)" "UDP_GET_LEN (mbufs ?s mb) = Inr (get16 ?bs 4)"
    using reads_ahead(2) [OF s1(2), of 0] reads_ahead(2) [OF s1(2), of 2] reads_ahead(2) [OF s1(2), of 4] False
    by (simp_all add: s1(3) UDP_GET_LEN_def)
  have parse: "parse_udp (take (unat len) ?bs) = (if len = get16 ?bs 4 then Some (get16 ?bs 0, get16 ?bs 2) else None)"
    using False length_bytes_at [OF a] by (simp add: parse_udp_def get_take min_def word_unat_eq_iff eq_commute)
  have t: "touched mb s (upd_mbuf mb (\<lambda>m. m\<lparr>sport := x, dport := y, payload := p, payload_len := l\<rparr>) ?s)" for x y p l
    using s1(1) by (rule touched_upd) (simp add: kept_def)
  show ?thesis
    unfolding parse using False s1(1) t rd
    by (cases "len = get16 ?bs 4") (simp_all add: DecodeUDPPacket_def UDP_HEADER_LEN_def word_less_nat_alt Let_def key_def)
qed

interpretation tcp: l4_decoder DecodeTCPPacket DecodeTCP parse_tcp TCP_RECV_OK
  by unfold_locales (use DecodeTCPPacket_parse in blast, simp add: DecodeTCP_def)

interpretation udp: l4_decoder DecodeUDPPacket DecodeUDP parse_udp UDP_RECV_OK
  by unfold_locales (use DecodeUDPPacket_parse in blast, simp add: DecodeUDP_def)

section \<open>IPv4\<close>

lemma DecodeIPV4Packet_parse:
  assumes a: "ahead (mbufs s mb) pkt (unat len)" and l: "length (bytes_at (mbufs s mb) pkt) = unat len"
  defines "bs \<equiv> bytes_at (mbufs s mb) pkt"
  shows "\<exists>r s'. DecodeIPV4Packet mb pkt len s = Inr (r, s') \<and> touched mb s s' \<and>
      (if ip_valid bs then r = DECODE_OK \<and> network_header (mbufs s' mb) = pkt \<and> sip (mbufs s' mb) = get32 bs 12 \<and> dip (mbufs s' mb) = get32 bs 16
       else r = DECODE_DROP)"
proof (cases "unat len < 20 \<or> unat (bs ! 0) div 16 \<noteq> 4")
  case True
  have v: "IP_GET_RAW_VER b = 4 \<longleftrightarrow> unat b div 16 = 4" for b
    using nibbles(2) [of b] by (simp add: IP_GET_RAW_VER_def word_unat_eq_iff)
  have "pkt8 (mbufs s mb) pkt = Inr (bs ! 0)" if "\<not> unat len < 20"
    using reads_ahead(1) [OF a, of 0] that by (simp add: bs_def get8_def)
  with True l show ?thesis
    by (auto simp: DecodeIPV4Packet_def IPV4_HEADER_LEN_def word_less_nat_alt ip_valid_def bs_def v)
next
  case False
  let ?s = "upd_mbuf mb (\<lambda>m. m\<lparr>network_header := pkt\<rparr>) s"
  note s1 = set_header [OF a, where g = "\<lambda>m. m\<lparr>network_header := pkt\<rparr>", simplified kept_def, simplified]
  have v: "IP_GET_RAW_VER (bs ! 0) = 4" using nibbles(2) [of "bs ! 0"] False by (simp add: IP_GET_RAW_VER_def word_unat_eq_iff)
  have rd0: "pkt8 (mbufs s mb) pkt = Inr (bs ! 0)"
    using reads_ahead(1) [OF a, of 0] False by (simp add: bs_def get8_def)
  have rd: "IPV4_GET_HLEN (mbufs ?s mb) = Inr (ip_hlen bs)" "IPV4_GET_IPLEN (mbufs ?s mb) = Inr (get16 bs 2)"
     "IPV4_GET_IPSRC (mbufs ?s mb) = Inr (get32 bs 12)" "IPV4_GET_IPDST (mbufs ?s mb) = Inr (get32 bs 16)"
    using reads_ahead(1) [OF s1(2), of 0] reads_ahead(2) [OF s1(2), of 2] reads_ahead(3) [OF s1(2), of 12] reads_ahead(3) [OF s1(2), of 16] False
    by (simp_all add: s1(3) IPV4_GET_HLEN_def IPV4_GET_IPLEN_def IPV4_GET_IPSRC_def IPV4_GET_IPDST_def ip_hlen_def nibbles get8_def bs_def)
  have t: "touched mb s (upd_mbuf mb (\<lambda>m. m\<lparr>sip := x, dip := y\<rparr>) ?s)" for x y
    using s1(1) by (rule touched_upd) (simp add: kept_def)
  show ?thesis
    using False s1(1) t rd rd0 v l
    by (auto simp: DecodeIPV4Packet_def IPV4_HEADER_LEN_def word_less_nat_alt Let_def ip_valid_def ip_total_def bs_def [symmetric])
qed

text \<open>A caller that destroys what its decoder refused has settled the fate of the packet.\<close>

lemma handled_done:
  assumes "handled e mb k s r" "fresh mb s"
  shows "handled e mb k s (fbind r (\<lambda>(c, s1).
    if c \<noteq> DECODE_OK then Some (rbind (packet_destroy_all mb s1) (\<lambda>s2. Inr (DECODE_OK, s2))) else Some (Inr (DECODE_OK, s1))))"
  unfolding handled_def
  by (intro disjI2 exI conjI) (rule handled_finish [OF assms], auto simp: fbind_def rbind_def split: option.splits sum.splits)

lemma ahead_mono: "ahead m p n \<Longrightarrow> k \<le> n \<Longrightarrow> ahead m p k"
  by (simp add: ahead_def)

lemma transport_handled:
  assumes t: "touched mb s s1" and f: "fresh mb s" and a: "ahead (mbufs s1 mb) pkt (unat len)" and l: "length bs = unat len"
    and bs: "bs = bytes_at (mbufs s1 mb) pkt" and nh: "network_header (mbufs s1 mb) = pkt" and v: "ip_valid bs"
    and k: "sip (mbufs s1 mb) = get32 bs 12" "dip (mbufs s1 mb) = get32 bs 16" "proto (mbufs s1 mb) = bs ! 9"
  shows "handled e mb (parse_ipv4 bs) s (transport e mb s1)"
proof -
  have len: "20 \<le> unat len" "20 \<le> ip_hlen bs" "ip_hlen bs \<le> ip_total bs" "ip_total bs \<le> unat len" using v l by (simp_all add: ip_valid_def)
  have rd: "IPV4_GET_HLEN (mbufs s1 mb) = Inr (ip_hlen bs)" "IPV4_GET_IPLEN (mbufs s1 mb) = Inr (get16 bs 2)"
    using reads_ahead(1) [OF a, of 0] reads_ahead(2) [OF a, of 2] len(1)
    by (simp_all add: IPV4_GET_HLEN_def IPV4_GET_IPLEN_def ip_hlen_def nibbles get8_def nh bs)
  let ?p = "pkt + of_nat (ip_hlen bs)" and ?n = "get16 bs 2 - of_nat (ip_hlen bs)"
  have "ip_hlen bs < 65536" using len(3) unsigned_less [of "get16 bs 2", where 'a = nat] by (simp add: ip_total_def)
  then have "unat (of_nat (ip_hlen bs) :: u16) = ip_hlen bs" by (simp add: unat_of_nat)
  then have n: "unat ?n = ip_total bs - ip_hlen bs" using len(3) by (simp add: unat_sub_if' ip_total_def)
  have a1: "ahead (mbufs s1 mb) ?p (unat ?n)"
    using ahead_mono [OF ahead_move [OF a, of "ip_hlen bs"], of "unat ?n"] n len(3,4) by simp
  have pl: "take (unat ?n) (bytes_at (mbufs s1 mb) ?p) = ip_payload bs"
    using bytes_at_move [OF a, of "ip_hlen bs"] n len(3,4) by (simp add: ip_payload_def bs)
  have t1: "touched mb s (STAT c s1)" for c using t by simp
  have dec: "handled e mb (map_option (\<lambda>(sp, dp). (get32 bs 12, get32 bs 16, sp, dp, bs ! 9)) (parse (ip_payload bs))) s
      (decoder e mb ?p ?n (STAT IPV4_RECV_OK s1))"
    if "l4_decoder check decoder parse c" for check decoder parse c
    using l4_decoder.decode_handled [OF that t1 [of IPV4_RECV_OK] f, where pkt = ?p and len = ?n and e = e] a1 by (simp add: pl k)
  consider "bs ! 9 = 6" | "bs ! 9 = 17" | "bs ! 9 \<noteq> 6" "bs ! 9 \<noteq> 17" by blast
  then show ?thesis
  proof cases
    case 1
    with handled_done [OF dec [OF tcp.l4_decoder_axioms] f] v show ?thesis
      by (simp add: transport_def Let_def rd k nh PROTO_TCP_def parse_ipv4_def)
  next
    case 2
    with handled_done [OF dec [OF udp.l4_decoder_axioms] f] v show ?thesis
      by (simp add: transport_def Let_def rd k nh PROTO_TCP_def PROTO_UDP_def parse_ipv4_def)
  next
    case 3
    have "handled e mb None s (Some (Inr (DECODE_DROP, STAT IPV4_UNSUPPORT s1)))" using t1 by (simp add: handled_def)
    from handled_done [OF this f] 3 show ?thesis
      by (simp add: transport_def Let_def k PROTO_TCP_def PROTO_UDP_def parse_ipv4_def DECODE_DROP_def DECODE_OK_def)
  qed
qed

lemma DecodeIPV4_handled:
  assumes t: "touched mb s s1" and f: "fresh mb s" and a: "ahead (mbufs s1 mb) pkt (unat len)" and l: "length bs = unat len"
    and bs: "bs = bytes_at (mbufs s1 mb) pkt" and nofrag: "20 \<le> length bs \<Longrightarrow> get16 bs 6 AND 0x3fff = 0"
  shows "handled e mb (parse_ipv4 bs) s (DecodeIPV4 e mb pkt len s1)"
proof -
  obtain r s2 where c: "DecodeIPV4Packet mb pkt len s1 = Inr (r, s2)" "touched mb s1 s2" and
    v: "if ip_valid bs then r = DECODE_OK \<and> network_header (mbufs s2 mb) = pkt \<and> sip (mbufs s2 mb) = get32 bs 12 \<and> dip (mbufs s2 mb) = get32 bs 16
       else r = DECODE_DROP"
    using DecodeIPV4Packet_parse [OF a] l bs by blast
  have t2: "touched mb s s2" by (rule touched_trans [OF t c(2)])
  show ?thesis
  proof (cases "ip_valid bs")
    case False
    with v c(1) t2 show ?thesis by (simp add: handled_def DecodeIPV4_def parse_ipv4_def DECODE_OK_def DECODE_DROP_def)
  next
    case True
    then have r: "r = DECODE_OK" and nh: "network_header (mbufs s2 mb) = pkt" "sip (mbufs s2 mb) = get32 bs 12" "dip (mbufs s2 mb) = get32 bs 16"
      using v by simp_all
    let ?s = "upd_mbuf mb (\<lambda>m. m\<lparr>proto := bs ! 9\<rparr>) s2"
    have len: "20 \<le> unat len" using True l by (simp add: ip_valid_def)
    note kp = kept_view [OF touched_kept [OF c(2)]]
    have a2: "ahead (mbufs s2 mb) pkt (unat len)" and b2: "bytes_at (mbufs s2 mb) pkt = bs" using a bs kp by simp_all
    note s3 = set_header [OF a2, where g = "\<lambda>m. m\<lparr>proto := bs ! 9\<rparr>", simplified kept_def, simplified]
    have pr: "IPV4_GET_IPPROTO (mbufs s2 mb) = Inr (bs ! 9)"
      using reads_ahead(1) [OF a2, of 9] len by (simp add: IPV4_GET_IPPROTO_def nh get8_def b2)
    have "pkt16 (mbufs ?s mb) (pkt + 6) = Inr (get16 bs 6)"
      using reads_ahead(2) [OF s3(2), of 6] len by (simp add: s3(3) b2)
    then have fr: "IPV4_IS_FRAGMENT (mbufs ?s mb) = Inr False"
      using no_fragment [OF nofrag] l len by (simp add: IPV4_IS_FRAGMENT_def IPV4_GET_IPOFFSET_def IPV4_GET_MF_def IPV4_GET_RAW_IPOFFSET_def nh)
    have "touched mb s ?s" by (rule touched_trans [OF t2 s3(1)])
    then have "handled e mb (parse_ipv4 bs) s (transport e mb ?s)"
      by (rule transport_handled [where pkt = pkt and len = len]) (simp_all add: f s3 l b2 nh True)
    with fr show ?thesis by (simp add: DecodeIPV4_def c(1) r pr Let_def)
  qed
qed

section \<open>Ethernet\<close>

lemmas ether_consts = ETHERNET_HEADER_LEN_def VLAN_HEADER_LEN_def ETHERNET_TYPE_IP_def ETHERNET_TYPE_VLAN_def ETHERNET_TYPE_8021QINQ_def

declare DecodeVLAN.simps [simp del]

text \<open>A second tag is refused.\<close>

lemma DecodeVLAN_again:
  assumes "1 \<le> vlan_idx (mbufs s mb)"
  shows "\<exists>c. DecodeVLAN e mb pkt len s = Some (Inr (DECODE_DROP, STAT c s))"
  by (subst DecodeVLAN.simps) (use assms in auto)

lemma DecodeVLAN_handled:
  assumes t: "touched mb s s1" and f: "fresh mb s" and a: "ahead (mbufs s1 mb) pkt (unat len)" and l: "length bs = unat len"
    and bs: "bs = bytes_at (mbufs s1 mb) pkt" and vl: "vlan_idx (mbufs s1 mb) = 0" and nofrag: "24 \<le> length bs \<Longrightarrow> get16 bs 10 AND 0x3fff = 0"
  shows "handled e mb (if 4 \<le> length bs \<and> get16 bs 2 = 0x0800 then parse_ipv4 (drop 4 bs) else None) s (DecodeVLAN e mb pkt len s1)"
proof (cases "4 \<le> unat len")
  case False
  with t l show ?thesis by (subst DecodeVLAN.simps) (simp add: handled_def ether_consts word_less_nat_alt)
next
  case True
  let ?s = "upd_mbuf mb (\<lambda>m. m\<lparr>vlanh := pkt, vlan_idx := 1\<rparr>) s1"
  note s2 = set_header [OF a, where g = "\<lambda>m. m\<lparr>vlanh := pkt, vlan_idx := 1\<rparr>", simplified kept_def, simplified]
  have t2: "touched mb s ?s" by (rule touched_trans [OF t s2(1)])
  have ty: "pkt16 (mbufs s1 mb) (pkt + 2) = Inr (get16 bs 2)" using reads_ahead(2) [OF a, of 2] True by (simp add: bs)
  have n: "unat (len - 4) = unat len - 4" using True by (simp add: unat_sub_if')
  have eq: "DecodeVLAN e mb pkt len s1 = (if get16 bs 2 = 0x0800 then DecodeIPV4 e mb (pkt + 4) (len - 4) ?s
      else if get16 bs 2 = 0x8100 \<or> get16 bs 2 = 0x9100 then DecodeVLAN e mb (pkt + 4) (len - 4) ?s
      else Some (Inr (DECODE_DROP, STAT VLAN_UNSUPPORT ?s)))"
    by (subst DecodeVLAN.simps) (use True in \<open>simp add: ty vl ether_consts word_less_nat_alt Let_def\<close>)
  consider "get16 bs 2 = 0x0800" | "get16 bs 2 = 0x8100 \<or> get16 bs 2 = 0x9100" "get16 bs 2 \<noteq> 0x0800"
    | "get16 bs 2 \<noteq> 0x0800" "get16 bs 2 \<noteq> 0x8100" "get16 bs 2 \<noteq> 0x9100" by auto
  then show ?thesis
  proof cases
    case 1
    have b4: "bytes_at (mbufs ?s mb) (pkt + 4) = drop 4 bs" and a4: "ahead (mbufs ?s mb) (pkt + 4) (unat len - 4)"
      using bytes_at_move [OF s2(2), of 4] ahead_move [OF s2(2), of 4] True by (simp_all add: s2(3) bs)
    have "handled e mb (parse_ipv4 (drop 4 bs)) s (DecodeIPV4 e mb (pkt + 4) (len - 4) ?s)"
      by (rule DecodeIPV4_handled [OF t2 f]) (use a4 b4 n l nofrag in \<open>simp_all add: get16_def\<close>)
    with 1 True l show ?thesis by (simp add: eq)
  next
    case 2
    then have "DecodeVLAN e mb pkt len s1 = DecodeVLAN e mb (pkt + 4) (len - 4) ?s" unfolding eq by simp
    moreover obtain c where "DecodeVLAN e mb (pkt + 4) (len - 4) ?s = Some (Inr (DECODE_DROP, STAT c ?s))"
      using DecodeVLAN_again [of ?s mb e "pkt + 4" "len - 4"] by auto
    ultimately show ?thesis using 2 t2 by (simp add: handled_def)
  next
    case 3
    with t2 show ?thesis by (simp add: eq handled_def)
  qed
qed

text \<open>A packet as it comes from \<open>oct_rx_process_work\<close>.\<close>

definition received :: "nat \<Rightarrow> dp_state \<Rightarrow> bool" where
  "received mb s \<longleftrightarrow> fresh mb s \<and> vlan_idx (mbufs s mb) = 0 \<and> length (pkt_data (mbufs s mb)) = unat (pkt_totallen (mbufs s mb))"

lemma DecodeEthernet_handled:
  assumes r: "received mb s" and uf: "unfragmented (pkt_data (mbufs s mb))"
  shows "handled e mb (parse_frame (pkt_data (mbufs s mb))) s (DecodeEthernet e mb (pkt_ptr (mbufs s mb)) (pkt_totallen (mbufs s mb)) s)"
proof -
  let ?pkt = "pkt_ptr (mbufs s mb)" and ?len = "pkt_totallen (mbufs s mb)" and ?bs = "pkt_data (mbufs s mb)"
  have f: "fresh mb s" and l: "length ?bs = unat ?len" and vl: "vlan_idx (mbufs s mb) = 0" using r by (simp_all add: received_def)
  have a: "ahead (mbufs s mb) ?pkt (unat ?len)" and b: "bytes_at (mbufs s mb) ?pkt = ?bs"
    using l unsigned_less [of ?len, where 'a = nat] by (simp_all add: ahead_def bytes_at_def)
  show ?thesis
  proof (cases "14 \<le> unat ?len")
    case False
    with l show ?thesis by (simp add: DecodeEthernet_def handled_def parse_frame_def ether_consts word_less_nat_alt)
  next
    case True
    let ?g = "\<lambda>m. m\<lparr>ethh := ?pkt\<rparr>"
    let ?s1 = "upd_mbuf mb ?g s"
    note s1 = set_header [OF a, where g = ?g, simplified kept_def, simplified]
    define s2 where "s2 = upd_mbuf mb (\<lambda>m. m\<lparr>eth_dst := take 6 ?bs, eth_src := take 6 (drop 6 ?bs)\<rparr>) ?s1"
    have t2: "touched mb s s2" unfolding s2_def using s1(1) by (rule touched_upd) (simp add: kept_def)
    then have t3: "touched mb s (STAT L2_RECV_OK s2)" by simp
    have rd: "pkt8 (mbufs ?s1 mb) ?pkt = Inr (?bs ! 0)" "read_pkt (mbufs ?s1 mb) ?pkt 6 = Inr (take 6 ?bs)"
      "read_pkt (mbufs ?s1 mb) (?pkt + 6) 6 = Inr (take 6 (drop 6 ?bs))" "pkt16 (mbufs ?s1 mb) (?pkt + 12) = Inr (get16 ?bs 12)"
      using reads_ahead(1) [OF s1(2), of 0] reads_ahead(4) [OF s1(2), of 0 6] reads_ahead(4) [OF s1(2), of 6 6] reads_ahead(2) [OF s1(2), of 12] True
      by (simp_all add: s1(3) b get8_def)
    have n: "unat (?len - 14) = unat ?len - 14" using True by (simp add: unat_sub_if')
    note kp = kept_view [OF touched_kept [OF t3]]
    have a14: "ahead (mbufs (STAT L2_RECV_OK s2) mb) (?pkt + 14) (unat (?len - 14))"
      and b14: "drop 14 ?bs = bytes_at (mbufs (STAT L2_RECV_OK s2) mb) (?pkt + 14)"
      using bytes_at_move [OF a, of 14] ahead_move [OF a, of 14] True b unfolding kp n by simp_all
    have l14: "length (drop 14 ?bs) = unat (?len - 14)" using l n by simp
    have vl2: "vlan_idx (mbufs (STAT L2_RECV_OK s2) mb) = 0" using vl by (simp add: s2_def)
    have eq: "DecodeEthernet e mb ?pkt ?len s = (if ?bs ! 0 \<noteq> 0x88 then Some (Inr (DECODE_DROP, ?s1))
        else if get16 ?bs 12 = 0x0800 then DecodeIPV4 e mb (?pkt + 14) (?len - 14) (STAT L2_RECV_OK s2)
        else if get16 ?bs 12 = 0x8100 \<or> get16 ?bs 12 = 0x9100 then DecodeVLAN e mb (?pkt + 14) (?len - 14) (STAT L2_RECV_OK s2)
        else Some (Inr (DECODE_DROP, STAT L2_UNSUPPORT s2)))"
      using True rd by (simp add: DecodeEthernet_def ether_consts word_less_nat_alt Let_def s2_def)
    consider "?bs ! 0 \<noteq> 0x88" | "?bs ! 0 = 0x88" "get16 ?bs 12 = 0x0800"
      | "?bs ! 0 = 0x88" "get16 ?bs 12 = 0x8100 \<or> get16 ?bs 12 = 0x9100" "get16 ?bs 12 \<noteq> 0x0800"
      | "?bs ! 0 = 0x88" "get16 ?bs 12 \<noteq> 0x0800" "get16 ?bs 12 \<noteq> 0x8100" "get16 ?bs 12 \<noteq> 0x9100" by auto
    then show ?thesis
    proof cases
      case 1
      with s1(1) show ?thesis by (simp add: eq handled_def parse_frame_def)
    next
      case 2
      have "20 \<le> length (drop 14 ?bs) \<Longrightarrow> get16 (drop 14 ?bs) 6 AND 0x3fff = 0"
        using uf 2 True l by (auto simp: unfragmented_def l3_offset_def get16_def)
      from DecodeIPV4_handled [OF t3 f a14 l14 b14 this, of e] 2 True l show ?thesis by (simp add: eq parse_frame_def)
    next
      case 3
      have "24 \<le> length (drop 14 ?bs) \<Longrightarrow> get16 (drop 14 ?bs) 10 AND 0x3fff = 0"
        using uf 3 True l by (auto simp: unfragmented_def l3_offset_def get16_def)
      from DecodeVLAN_handled [OF t3 f a14 l14 b14 vl2 this, of e] 3 True l show ?thesis
        unfolding eq by (auto simp: parse_frame_def get16_def split: if_splits)
    next
      case 4
      with t2 show ?thesis by (simp add: eq handled_def parse_frame_def)
    qed
  qed
qed

text \<open>What the flow table can answer when its chains are well formed and the allocator's node is not in it.\<close>

lemma FlowGet_safe:
  assumes inv: "flow_inv ch t" and fuel: "length (ch (bucket_of m)) < fuel" and f: "\<And>f. buf = Some f \<Longrightarrow> \<not> in_table ch f"
  obtains g where "item_locked t g" "FlowGetFlowFromHash fuel buf now now' m t = Some (Inl Blocked)"
  | r t' ch' where "FlowGetFlowFromHash fuel buf now now' m t = Some (Inr (r, t'))" "flow_inv ch' t'"
proof (rule flow_lookup_cases [OF inv fuel, of now])
  fix g assume "g \<in> set (ch (bucket_of m))" "item_locked t g" "flow_lookup fuel now m t = Some (Inl Blocked)"
  with that(1) show thesis by (simp add: FlowGetFlowFromHash_def)
next
  fix g assume "flow_lookup fuel now m t = Some (Inr (Some g,
    t\<lparr>item := (item t)(g := (item t g)\<lparr>cycle := now\<rparr>), item_locked := (item_locked t)(g := True)\<rparr>))"
  with that(2) flow_inv_touch [OF inv, of g now] show thesis by (simp add: FlowGetFlowFromHash_def)
next
  assume look: "flow_lookup fuel now m t = Some (Inr (None, t))"
  then have eq: "FlowGetFlowFromHash fuel buf now now' m t = FlowAdd fuel buf now' (bucket_of m) m t" by (simp add: FlowGetFlowFromHash_def)
  show thesis
  proof (cases buf)
    case None
    with that(2) inv eq show thesis by (simp add: FlowAdd_def flow_item_alloc_def)
  next
    case (Some a)
    note eq = eq [unfolded Some]
    show thesis
      by (rule FlowAdd_cases [OF inv f [OF Some] refl fuel, of now']) (use that eq Some in auto)
  qed
qed

section \<open>Properties\<close>

text \<open>
  C26. The decoders against the reference parser: a frame in a hardware buffer that is no IP fragment is
  accepted exactly when \<open>parse_frame\<close> accepts its bytes, at most one VLAN tag, header lengths and total
  lengths inside the frame, TCP or UDP. A refused frame is dropped. An accepted one asks the flow table
  with the parsed addresses, ports and protocol; without a flow it is dropped, with one it is sent on
  its input port if that is at most 4 and the output unit takes it and dropped otherwise, and the flow
  is left unlocked with its reference count as before. Dropped and sent packets give back their
  descriptor once, only dropped ones their buffer; other descriptors, pools, rings and the fragment table
  are left alone.
\<close>

theorem Decode_unfragmented:
  assumes "received mb s" and "unfragmented (pkt_data (mbufs s mb))"
  shows "fate e mb (parse_frame (pkt_data (mbufs s mb))) s (Decode e mb s)"
  unfolding Decode_def
  by (rule handled_finish [OF DecodeEthernet_handled [OF assms]]) (use assms(1) in \<open>simp add: received_def\<close>)

text \<open>A UDP datagram from port 1000 of 10.0.0.1 to port 53 of 10.0.0.2 without data, in a state with an empty flow table.\<close>

definition udp_frame :: "u8 list" where
  "udp_frame = [0x88, 0, 0, 0, 0, 1, 2, 0, 0, 0, 0, 2, 8, 0] @ [0x45, 0, 0, 28, 0, 1, 0, 0, 64, 17, 0, 0, 10, 0, 0, 1, 10, 0, 0, 2] @
     [3, 0xe8, 0, 53, 0, 8, 0, 0]"

definition rx_state :: dp_state where
  "rx_state = \<lparr>flows = boot_state, mem = mem busy_tx, mbufs = (\<lambda>_. zero_mbuf\<lparr>pkt_space := PKTBUF_HW, pkt_totallen := 42, pkt_data := udp_frame\<rparr>),
     mctrl = mctrl busy_tx, host_freed = [], hw_freed = [], stats = (\<lambda>_. 0), tx_done = [], oct_tx_entries = 0, pko_sent = [],
     wqe_freed = [], wqe_data_freed = [], fh = \<lparr>first = \<lambda>_. Null, nxt = \<lambda>_. Poison, pprev = \<lambda>_. PPoison\<rparr>,
     fcbs = (\<lambda>_. new_fcb zero_mbuf), del_fcb = 0\<rparr>"

definition test_env :: dp_env where
  "test_env = \<lparr>e_fuel = 1, e_flow_node = Some 5, e_fcb = None, e_mbuf = None, e_frag_now = 0, e_now = 7, e_now' = 8, e_pko_ok = True\<rparr>"

lemma udp_frame_parses: "length udp_frame = 42" "unfragmented udp_frame" "parse_frame udp_frame = Some (0x0A000001, 0x0A000002, 1000, 53, 17)"
  by code_simp+

lemma rx_state_received: "received 1 rx_state"
  by (simp add: received_def fresh_def rx_state_def busy_tx_def zero_mbuf_def mbuf_ok_def udp_frame_parses FPA_POOL_ID_HOST_MBUF_def)

theorem Decode_unfragmented_witness:
  "fate test_env 1 (Some (0x0A000001, 0x0A000002, 1000, 53, 17)) rx_state (Decode test_env 1 rx_state)"
proof -
  have d: "pkt_data (mbufs rx_state 1) = udp_frame" by (simp add: rx_state_def)
  show ?thesis using Decode_unfragmented [OF rx_state_received, of test_env] unfolding d udp_frame_parses(3) using udp_frame_parses(2) by simp
qed


definition test_wqe :: wqe where
  "test_wqe = \<lparr>rcv_error = False, wq_bufs = 1, wq_packet_ptr = \<lparr>bp_addr = 0x4000, bp_back = 1, bp_pool = 0\<rparr>, wq_port = 2, wq_len = 42, wq_data = udp_frame\<rparr>"


end
