(* ===== verification/PowLink.thy ===== *)
theory PowLink
  imports DpCmd MgmtServer
begin

text \<open>
  The link between the two planes: the raw socket of the management server (\<open>mgrplane/src/srv/srvpow/pow.c\<close>,
  \<open>srvpow.c\<close>) on one side and the commands of the data plane on the other, and what a command brings back
  to the server.
\<close>

section \<open>The socket\<close>

definition MAX_RECV_LEN :: nat where
  "MAX_RECV_LEN = 2048"

text \<open>\<open>result\<close> is the return value of \<open>sendto\<close>.\<close>

definition pow_send_fn :: "int \<Rightarrow> u32 \<Rightarrow> int" where
  "pow_send_fn result sz = (if result = -1 then -1 else if result < sint sz then -1 else 0)"

text \<open>
  \<open>pow_recv_fn\<close>: \<open>buf\<close> says whether \<open>malloc\<close> succeeded, \<open>frame\<close> are the bytes of \<open>recvfrom\<close>, \<open>None\<close> its failure. The
  copy of \<open>len - 14\<close> bytes comes before the test of \<open>len\<close>, so a failure or a frame shorter than its header
  makes the count wrap around.
\<close>

definition pow_recv_fn :: "bool \<Rightarrow> u8 list option \<Rightarrow> nat \<Rightarrow> u8 list option res" where
  "pow_recv_fn buf frame sz =
     (if \<not> buf then Inr None
      else case frame of
        None \<Rightarrow> Inl OutOfBounds
      | Some f \<Rightarrow> let d = take sz f in if length d < 14 then Inl OutOfBounds else Inr (Some (drop 14 d)))"

definition pow_rpc_syncall2dp :: "int \<Rightarrow> bool \<Rightarrow> u8 list option \<Rightarrow> u8 list \<Rightarrow> u8 list option res" where
  "pow_rpc_syncall2dp result buf frame request =
     (if pow_send_fn result (of_nat (length request)) < 0 then Inr None
      else pow_recv_fn buf frame MAX_RECV_LEN)"

text \<open>The request of \<open>octeon_rpccall\<close> and the frame that a submitted entry becomes.\<close>

definition rpc_request :: "u16 \<Rightarrow> u8 list" where
  "rpc_request opcode = be16 opcode @ be16 0"

definition frame_of :: "work \<Rightarrow> u8 list" where
  "frame_of w = take (unat (wq_len w)) (wq_data w)"

section \<open>Answers\<close>

definition command_text :: "main_env \<Rightarrow> u16 \<Rightarrow> main_state \<Rightarrow> string res option" where
  "command_text env opcode s =
     (if opcode = COMMAND_SHOW_BUILD_TIME then Some (dp_show_build_time (build_date env) (build_time env))
      else if opcode = COMMAND_SHOW_PKT_STAT then Some (dp_show_pkt_stat (pktstat env s))
      else if opcode = COMMAND_SHOW_MEM_POOL then Some (dp_show_mem_pool (fmt_ptr env) (mem (plane s)) (sos s))
      else if opcode = COMMAND_ACL_RULE_COMMIT then Some (dp_acl_rule_commit (build_date env) (build_time env))
      else None)"

text \<open>What the compiler and the C library promise about the strings: \<open>__DATE__\<close> and \<open>__TIME__\<close> have 11 and 8 characters, \<open>%p\<close> at most 18, and a string has no zero inside.\<close>

definition strings_ok :: "main_env \<Rightarrow> bool" where
  "strings_ok env \<longleftrightarrow> length (build_date env) = 11 \<and> length (build_time env) = 8 \<and> CHR 0x00 \<notin> set (build_date env @ build_time env) \<and>
     (\<forall>a. length (fmt_ptr env a) \<le> 18 \<and> CHR 0x00 \<notin> set (fmt_ptr env a))"

lemma command_text_ok:
  assumes "strings_ok env" "command_text env opcode s = Some r"
  shows "\<exists>t. r = Inr t \<and> length t \<le> 1000 \<and> CHR 0x00 \<notin> set t"
proof -
  have b: "\<exists>t. dp_show_build_time (build_date env) (build_time env) = Inr t \<and> length t \<le> 1000 \<and> CHR 0x00 \<notin> set t"
    using assms(1) by (simp add: strings_ok_def dp_show_build_time_def sprintf_def OUT_SIZE_def)
  have c: "dp_acl_rule_commit = dp_show_build_time" by (intro ext) (simp add: dp_acl_rule_commit_def dp_show_build_time_def)
  have p: "\<exists>t. dp_show_mem_pool (fmt_ptr env) (mem (plane s)) (sos s) = Inr t \<and> length t \<le> 1000 \<and> CHR 0x00 \<notin> set t"
    by (rule show_mem_pool_ok) (use assms(1) in \<open>simp add: strings_ok_def\<close>)
  have "r = dp_show_build_time (build_date env) (build_time env) \<or> r = dp_show_pkt_stat (pktstat env s) \<or>
    r = dp_show_mem_pool (fmt_ptr env) (mem (plane s)) (sos s)"
    using assms(2) unfolding command_text_def c by (simp split: if_splits)
  then show ?thesis using show_pkt_stat_ok b p by blast
qed

lemmas commands = COMMAND_INVALID_def COMMAND_SHOW_BUILD_TIME_def COMMAND_SHOW_PKT_STAT_def COMMAND_SHOW_MEM_POOL_def COMMAND_ACL_RULE_COMMIT_def

lemma process_command_eq:
  assumes "wq_bufs w \<noteq> 0" "phys_to_ptr env (bp_addr (wq_packet_ptr w)) \<noteq> 0" "2 \<le> length (wq_data w)" "get16 (wq_data w) 0 = opcode"
    "command_text env opcode s = Some r"
  shows "oct_rx_process_command env wq w s = respond wq w opcode r s"
  using assms by (auto simp: oct_rx_process_command_def oct_rx_command_get_def command_text_def commands split: if_splits)

lemma respond_ok:
  assumes t: "length t < OUT_SIZE" and b: "18 + length t \<le> length (wq_data w)"
  shows "\<exists>w'. respond wq w opcode (Inr t) s = Inr (s\<lparr>submitted := submitted s @ [(wq, w')]\<rparr>) \<and> wq_grp w' = TO_LINUX_GROUP \<and>
    length (wq_data w') = length (wq_data w) \<and> frame_of w' = take 12 (wq_data w) @ be16 ETH_P @ be16 opcode @ be16 (of_nat (length t)) @ text_bytes t"
proof -
  have n: "unat (14 + 4 + (of_nat (length t) :: u16)) = 18 + length t"
    using t by (simp add: OUT_SIZE_def unat_word_ariths unat_of_nat)
  have l: "length (text_bytes t) = length t" by (simp add: text_bytes_def)
  let ?w = "w\<lparr>wq_data := take 12 (wq_data w) @ be16 ETH_P @ be16 opcode @ be16 (of_nat (length t)) @ text_bytes t @ drop (18 + length t) (wq_data w),
    wq_size := 14 + 4 + of_nat (length t), wq_len := 14 + 4 + of_nat (length t), wq_port := 0, wq_grp := TO_LINUX_GROUP\<rparr>"
  have "respond wq w opcode (Inr t) s = Inr (s\<lparr>submitted := submitted s @ [(wq, ?w)]\<rparr>)"
    using b by (simp add: respond_def oct_send_response_def Let_def)
  moreover have "frame_of ?w = take 12 (wq_data w) @ be16 ETH_P @ be16 opcode @ be16 (of_nat (length t)) @ text_bytes t"
    using b n l by (simp add: frame_of_def)
  ultimately show ?thesis using b l by (intro exI [of _ ?w]) simp
qed

section \<open>A command and its answer\<close>

text \<open>The message of an answer, without the Ethernet header.\<close>

definition rpc_reply :: "u16 \<Rightarrow> string \<Rightarrow> u8 list" where
  "rpc_reply opcode t = be16 opcode @ be16 (of_nat (length t)) @ text_bytes t"

text \<open>A request as the entry holds it when the data plane gets it.\<close>

definition request_of :: "main_env \<Rightarrow> u16 \<Rightarrow> work \<Rightarrow> bool" where
  "request_of env opcode w \<longleftrightarrow> wq_bufs w \<noteq> 0 \<and> phys_to_ptr env (bp_addr (wq_packet_ptr w)) \<noteq> 0 \<and>
     take 4 (wq_data w) = rpc_request opcode \<and> 18 + OUT_SIZE \<le> length (wq_data w)"

lemma length_text_bytes [simp]: "length (text_bytes t) = length t"
  by (simp add: text_bytes_def)

lemma command_answered:
  assumes env: "strings_ok env" and w: "request_of env opcode w" and cmd: "command_text env opcode s = Some (Inr t)" "length t \<le> 1000"
  shows "\<exists>w'. oct_rx_process_command env wq w s = Inr (s\<lparr>submitted := submitted s @ [(wq, w')]\<rparr>) \<and> wq_grp w' = TO_LINUX_GROUP \<and>
    pow_rpc_syncall2dp 4 True (Some (frame_of w')) (rpc_request opcode) = Inr (Some (rpc_reply opcode t))"
proof -
  have buf: "take 4 (wq_data w) = rpc_request opcode" "18 + OUT_SIZE \<le> length (wq_data w)" using w by (simp_all add: request_of_def)
  have t: "length t < OUT_SIZE" using cmd(2) by (simp add: OUT_SIZE_def)
  have "get16 (wq_data w) 0 = get16 (take 4 (wq_data w)) 0" using buf(2) by (simp add: get16_def)
  also have "\<dots> = opcode" unfolding buf(1) rpc_request_def be16_def by (simp add: get16_def)
  finally have o: "get16 (wq_data w) 0 = opcode" .
  obtain w' where w': "respond wq w opcode (Inr t) s = Inr (s\<lparr>submitted := submitted s @ [(wq, w')]\<rparr>)" "wq_grp w' = TO_LINUX_GROUP"
    "frame_of w' = take 12 (wq_data w) @ be16 ETH_P @ be16 opcode @ be16 (of_nat (length t)) @ text_bytes t"
    using respond_ok [of t w wq opcode s] t buf(2) by auto
  have "oct_rx_process_command env wq w s = respond wq w opcode (Inr t) s"
    by (rule process_command_eq [OF _ _ _ o cmd(1)]) (use w buf(2) in \<open>auto simp: request_of_def\<close>)
  moreover have "length (frame_of w') \<le> MAX_RECV_LEN" using t buf(2) by (simp add: w'(3) MAX_RECV_LEN_def OUT_SIZE_def)
  then have "pow_rpc_syncall2dp 4 True (Some (frame_of w')) (rpc_request opcode) = Inr (Some (rpc_reply opcode t))"
    using buf(2) by (simp add: pow_rpc_syncall2dp_def pow_recv_fn_def pow_send_fn_def rpc_request_def rpc_reply_def Let_def w'(3))
  ultimately show ?thesis using w' by metis
qed

lemma rpccall_reply:
  assumes "environment.dp menv opcode = Some (rpc_reply opcode t)" "length t \<le> 1000"
  shows "octeon_rpccall menv req fd cmd_ack opcode srv =
    answer cmd_ack req ((put_mem 0 (text_bytes t @ [0]) zero_params)\<lparr>p_info_len := of_nat (length t)\<rparr>) fd srv"
proof -
  have g: "get16 (rpc_reply opcode t) 2 = of_nat (length t)" by (simp add: rpc_reply_def get16_def be16_def)
  have n: "unat (of_nat (length t) :: u16) = length t" using assms(2) by (simp add: unat_of_nat)
  show ?thesis unfolding octeon_rpccall_def assms(1) option.case g n Let_def by (simp add: rpc_reply_def)
qed

text \<open>A command from the server to the data plane and back to the client.\<close>

lemma command_roundtrip:
  assumes env: "strings_ok env" and w: "request_of env opcode w" and cmd: "command_text env opcode s = Some r"
  shows "\<exists>t w' reply. r = Inr t \<and> length t < OUT_SIZE \<and>
    oct_rx_process_command env wq w s = Inr (s\<lparr>submitted := submitted s @ [(wq, w')]\<rparr>) \<and> wq_grp w' = TO_LINUX_GROUP \<and>
    pow_rpc_syncall2dp 4 True (Some (frame_of w')) (rpc_request opcode) = Inr (Some reply) \<and>
    (environment.dp menv opcode = Some reply \<longrightarrow> octeon_rpccall menv req fd cmd_ack opcode srv =
       answer cmd_ack req ((put_mem 0 (text_bytes t @ [0]) zero_params)\<lparr>p_info_len := of_nat (length t)\<rparr>) fd srv)"
proof -
  obtain t where t: "r = Inr t" "length t \<le> 1000" using command_text_ok [OF env cmd] by blast
  obtain w' where "oct_rx_process_command env wq w s = Inr (s\<lparr>submitted := submitted s @ [(wq, w')]\<rparr>)" "wq_grp w' = TO_LINUX_GROUP"
    "pow_rpc_syncall2dp 4 True (Some (frame_of w')) (rpc_request opcode) = Inr (Some (rpc_reply opcode t))"
    using command_answered [OF env w] cmd t by blast
  moreover have "length t < OUT_SIZE" using t(2) by (simp add: OUT_SIZE_def)
  ultimately show ?thesis using t rpccall_reply by blast
qed

section \<open>A concrete request\<close>

definition sample_env :: main_env where
  "sample_env = \<lparr>phys_to_ptr = id, fmt_ptr = (\<lambda>_. ''0x100000''), build_date = ''Nov 18 2014'', build_time = ''10:11:12'', local_cpu_id = 0, oct_cpu_rate = 1000,
     timer_now = 30000, bucket_busy = (\<lambda>_. False), loop_fuel = 1, rx_buf = Some 1,
     packet_env = \<lparr>e_fuel = 1, e_flow_node = Some 5, e_fcb = None, e_mbuf = None, e_frag_now = 0, e_now = 7, e_now' = 8, e_pko_ok = True\<rparr>\<rparr>"

definition sample_request :: "u16 \<Rightarrow> work" where
  "sample_request opcode = \<lparr>rcv_error = False, wq_bufs = 1, wq_packet_ptr = \<lparr>bp_addr = 0x4000, bp_back = 1, bp_pool = 0\<rparr>, wq_port = 2, wq_len = 4,
     wq_data = rpc_request opcode @ replicate 2000 0, wq_grp = 13, wq_size = 4, wq_unused8 = 0, wq_timer = \<lparr>t_magic = 0, t_tick = 0, t_fn = None\<rparr>\<rparr>"

lemma sample_request_ok: "strings_ok sample_env" "request_of sample_env opcode (sample_request opcode)"
  by (simp_all add: strings_ok_def request_of_def sample_request_def sample_env_def rpc_request_def OUT_SIZE_def)

end
