(* ===== verification/MainTheorems.thy ===== *)
theory MainTheorems
  imports WorkLog SosTheorems DecodeTheorems PowLink
begin

text \<open>
  The theorems about the program as a whole: the start establishes the invariants of all components, and
  the main loop hands every work queue entry to exactly one place or loses it in the cases listed.
\<close>

section \<open>Where work goes\<close>

text \<open>
  Given back with its packet data, given back after the descriptor took the packet over, submitted to the
  Linux side, handed to the timer again, or none of these.
\<close>

datatype work_fate = Discarded | Consumed | Submitted | Rearmed | Lost

definition fate_of :: "main_env \<Rightarrow> work \<Rightarrow> work_fate" where
  "fate_of env w =
     (if wq_grp w = FROM_INPUT_PORT_GROUP then
        if rcv_error w \<or> wq_bufs w > 1 then Discarded
        else if phys_to_ptr env (bp_addr (wq_packet_ptr w)) = 0 then Lost else Consumed
      else if wq_grp w = TIMER_GROUP then
        if t_magic (wq_timer w) = TIMER_THREAD_MAGIC \<and> wq_unused8 w = TIMER_FLAG_OF_WORK then Rearmed else Lost
      else if wq_grp w = FROM_LINUX_GROUP then
        if wq_bufs w = 0 \<or> phys_to_ptr env (bp_addr (wq_packet_ptr w)) = 0 \<or> get16 (wq_data w) 0 = COMMAND_INVALID then Discarded
        else if get16 (wq_data w) 0 \<in> {COMMAND_SHOW_BUILD_TIME, COMMAND_SHOW_PKT_STAT, COMMAND_SHOW_MEM_POOL, COMMAND_ACL_RULE_COMMIT} then Submitted
        else Lost
      else Lost)"

definition only :: "work_fate set \<Rightarrow> main_env \<Rightarrow> (nat \<times> work) option \<Rightarrow> nat list" where
  "only F env x = (case x of None \<Rightarrow> [] | Some (wq, w) \<Rightarrow> if fate_of env w \<in> F then [wq] else [])"

definition ticks :: "(nat \<times> work) option \<Rightarrow> nat" where
  "ticks x = (case x of None \<Rightarrow> 0 | Some (wq, w) \<Rightarrow> if wq_grp w = TIMER_GROUP then 1 else 0)"

definition accounted :: "main_env \<Rightarrow> (nat \<times> work) option \<Rightarrow> main_state \<Rightarrow> main_state \<Rightarrow> bool" where
  "accounted env x s s' \<longleftrightarrow>
     wqe_freed (plane s') = wqe_freed (plane s) @ only {Discarded, Consumed} env x \<and>
     wqe_data_freed (plane s') = wqe_data_freed (plane s) @ only {Discarded} env x \<and>
     map fst (submitted s') = map fst (submitted s) @ only {Submitted} env x \<and>
     map fst (armed s') = map fst (armed s) @ only {Rearmed} env x \<and>
     global_time s' = global_time s + of_nat (ticks x)"

lemmas groups = FROM_INPUT_PORT_GROUP_def TIMER_GROUP_def FROM_LINUX_GROUP_def

lemma log_eqD: "wqe_log s' = wqe_log s \<Longrightarrow> wqe_freed s' = wqe_freed s \<and> wqe_data_freed s' = wqe_data_freed s"
  by (simp add: wqe_log_def)

lemma rx_log:
  assumes "oct_rx_process_work phys wq w buf s = Inr (r, s')"
  shows "(rcv_error w \<or> wq_bufs w > 1) \<and> r = None \<and> wqe_log s' = (wqe_freed s @ [wq], wqe_data_freed s @ [wq]) \<or>
    \<not> (rcv_error w \<or> wq_bufs w > 1) \<and> phys (bp_addr (wq_packet_ptr w)) = 0 \<and> r = None \<and> wqe_log s' = wqe_log s \<or>
    \<not> (rcv_error w \<or> wq_bufs w > 1) \<and> phys (bp_addr (wq_packet_ptr w)) \<noteq> 0 \<and> r \<noteq> None \<and> wqe_log s' = (wqe_freed s @ [wq], wqe_data_freed s)"
  using assms by (auto simp: oct_rx_process_work_def Let_def wqe_log_def STAT_def mbuf_alloc_def split: if_splits option.splits)

lemma receive_accounted:
  assumes g: "wq_grp w = FROM_INPUT_PORT_GROUP" and r: "receive env wq w s = Some (Inr s')"
  shows "accounted env (Some (wq, w)) s s'"
proof -
  have tr: "rcv_error (wqe.truncate w) = rcv_error w" "wq_bufs (wqe.truncate w) = wq_bufs w" "wq_packet_ptr (wqe.truncate w) = wq_packet_ptr w"
    by (simp_all add: wqe.defs)
  obtain mb p where rx: "oct_rx_process_work (phys_to_ptr env) wq (wqe.truncate w) (rx_buf env) (plane s) = Inr (mb, p)"
    using r by (auto simp: receive_def fbind_Some_Inr_iff)
  have s': "s' = s\<lparr>plane := plane s'\<rparr>" "wqe_log (plane s') = wqe_log p"
    using r rx by (auto simp: receive_def fbind_Some_Inr_iff split: option.splits dest!: Decode_log)
  have "submitted s' = submitted s" "armed s' = armed s" "global_time s' = global_time s"
    by (subst s'(1), simp)+
  with rx_log [OF rx, unfolded tr] s'(2) show ?thesis
    by (auto simp: accounted_def only_def ticks_def fate_of_def g groups wqe_log_def)
qed

lemma timer_accounted:
  assumes g: "wq_grp w = TIMER_GROUP" and r: "OCT_Timer_Thread_Process env wq w (s\<lparr>global_time := global_time s + 1, sched := d\<rparr>) = Some (Inr s')"
  shows "accounted env (Some (wq, w)) s s'"
proof (cases "t_magic (wq_timer w) = TIMER_THREAD_MAGIC \<and> wq_unused8 w = TIMER_FLAG_OF_WORK")
  case True
  let ?s = "s\<lparr>global_time := global_time s + 1, sched := d\<rparr>"
  obtain s1 where s1: "run_timer env (t_fn (wq_timer w)) ?s = Some (Inr s1)" "s' = s1\<lparr>armed := armed s1 @ [(wq, w)]\<rparr>"
    using r True by (auto simp: OCT_Timer_Thread_Process_def fbind_Some_Inr_iff)
  have k: "s1 = ?s\<lparr>plane := plane s1\<rparr>" "wqe_log (plane s1) = wqe_log (plane s)"
    using s1(1) by (auto simp: run_timer_def fbind_Some_Inr_iff log_simps split: option.splits timer_fn.splits dest!: Frag_defrag_timeout_log)
  have "submitted s1 = submitted s" "armed s1 = armed s" "global_time s1 = global_time s + 1"
    by (subst k(1), simp)+
  with s1(2) log_eqD [OF k(2)] True show ?thesis by (simp add: accounted_def only_def ticks_def fate_of_def g groups)
next
  case False
  with r show ?thesis by (auto simp: OCT_Timer_Thread_Process_def accounted_def only_def ticks_def fate_of_def g groups)
qed

lemma command_accounted:
  assumes g: "wq_grp w = FROM_LINUX_GROUP" and r: "oct_rx_process_command env wq w s = Inr s'"
  shows "accounted env (Some (wq, w)) s s'"
proof -
  obtain opcode where o: "oct_rx_command_get (phys_to_ptr env) w = Inr opcode" using r by (auto simp: oct_rx_process_command_def rbind_Inr_iff)
  then have oc: "opcode = (if wq_bufs w = 0 \<or> phys_to_ptr env (bp_addr (wq_packet_ptr w)) = 0 then COMMAND_INVALID else get16 (wq_data w) 0)"
    by (auto simp: oct_rx_command_get_def split: if_splits)
  have resp: "plane s' = plane s \<and> armed s' = armed s \<and> global_time s' = global_time s \<and> map fst (submitted s') = map fst (submitted s) @ [wq]"
    if "respond wq w op t s = Inr s'" for op t
    using that by (auto simp: respond_def rbind_Inr_iff)
  have "COMMAND_INVALID \<notin> {COMMAND_SHOW_BUILD_TIME, COMMAND_SHOW_PKT_STAT, COMMAND_SHOW_MEM_POOL, COMMAND_ACL_RULE_COMMIT}" by (simp add: commands)
  then show ?thesis
    using r resp unfolding oct_rx_process_command_def o rbind_simps
    by (auto simp: accounted_def only_def ticks_def fate_of_def g groups oc oct_packet_free_def split: if_splits)
qed

lemma mainloop_body_accounted:
  assumes "mainloop_body env x s = Some (Inr s')"
  shows "accounted env x s s'"
proof -
  obtain p where p: "wqe_log p = wqe_log (plane s)"
    "(case x of None \<Rightarrow> Some (Inr (s\<lparr>plane := p\<rparr>)) | Some (wq, w) \<Rightarrow> dispatch env wq w (s\<lparr>plane := p\<rparr>)) = Some (Inr s')"
    using assms by (auto simp: mainloop_body_def fbind_Some_Inr_iff dest!: oct_tx_done_check_log split: if_splits)
  note pl = log_eqD [OF p(1)]
  have move: "accounted env x (s\<lparr>plane := p\<rparr>) s' \<Longrightarrow> accounted env x s s'" using pl by (simp add: accounted_def)
  show ?thesis
  proof (cases x)
    case None
    with p(2) pl show ?thesis by (auto simp: accounted_def only_def ticks_def)
  next
    case (Some y)
    obtain wq w where y: "y = (wq, w)" by (cases y)
    have d: "dispatch env wq w (s\<lparr>plane := p\<rparr>) = Some (Inr s')" using p(2) Some y by simp
    consider "wq_grp w = FROM_INPUT_PORT_GROUP" | "wq_grp w = TIMER_GROUP" | "wq_grp w = FROM_LINUX_GROUP"
      | "wq_grp w \<notin> {FROM_INPUT_PORT_GROUP, TIMER_GROUP, FROM_LINUX_GROUP}" by auto
    then have "accounted env (Some (wq, w)) (s\<lparr>plane := p\<rparr>) s'"
    proof cases
      case 1
      then show ?thesis using d by (intro receive_accounted) (simp_all add: dispatch_def)
    next
      case 2
      then obtain t where "OCT_Timer_Thread_Process env wq w (s\<lparr>plane := p, global_time := global_time (s\<lparr>plane := p\<rparr>) + 1, sched := t\<rparr>) = Some (Inr s')"
        using d by (auto simp: dispatch_def groups fbind_Some_Inr_iff)
      then show ?thesis using timer_accounted [OF 2] by blast
    next
      case 3
      then show ?thesis using d by (intro command_accounted) (simp_all add: dispatch_def groups)
    next
      case 4
      then show ?thesis using d by (auto simp: dispatch_def accounted_def only_def ticks_def fate_of_def)
    qed
    then show ?thesis using move Some y by simp
  qed
qed

definition gathered :: "work_fate set \<Rightarrow> (main_env \<times> (nat \<times> work) option) list \<Rightarrow> nat list" where
  "gathered F input = concat (map (\<lambda>(env, x). only F env x) input)"

lemma gathered_Cons: "gathered F ((env, x) # input) = only F env x @ gathered F input"
  by (simp add: gathered_def)

section \<open>Start\<close>

lemma wd_booted_40: "wd_watchdog_init (the (snd (oct_sched_init True))) = wd_booted 40"
  by (simp add: wd_booted_def wd_watchdog_init_def wd_set_watchdog_timeout_def WD_WATCHDOG_TIMEOUT_def)

lemma low_init_ok:
  assumes b: "is_init_core b" "tim_status b = 0" "pool_blocks b = [Some b0, Some b1, Some b2, Some b3]" "boot_blocks b2 b3" "sos_block b = Some q"
      "unat (sos_region_size b) \<le> 40000000" "sched_mem b" "rxtx_mem b" "core_num b < CPU_HW_RUNNING_MAX"
    and s: "length (mem_pool (mem (plane s))) = MEM_POOL_ID_MAX" "\<And>a. ref (ctrl (mem (plane s)) a) = 0"
  shows "\<exists>s'. Sec_LowLevel_Init b s = Inr (SEC_OK, s') \<and> mem_inv (mem (plane s')) \<and> sos_reach (sos_region_size b) (sos s') \<and>
    tx_done (plane s') = replicate OCT_PHY_PORT_MAX empty_ring \<and> register_watchdog (core_num b) (wd_booted 40) = Inr (sched s') \<and>
    armed s' = armed s \<and> submitted s' = submitted s"
proof -
  obtain k where k: "Mem_Pool_Init (pool_blocks b) (mem (plane s)) = (SEC_OK, k)" "mem_inv k"
    using Mem_Pool_Init_ok [OF s b(4), of b0 b1] b(3) by auto
  have z: "unat (sos_region_size b) \<le> unat SOS_MEM_POOL_SIZE" using b(6) by (simp add: SOS_MEM_POOL_SIZE_def)
  obtain so where so: "sos_mem_init (sos_block b) (sos_region_size b) = Inr (SEC_OK, Some so)" using sos_mem_init_ok [OF z, of q] b(5,6) by auto
  have reach: "sos_reach (sos_region_size b) so" using sos_start [OF z, of q so] so b(5) by simp
  obtain t where t: "oct_sched_init (sched_mem b) = (SEC_OK, Some t)" "wd_watchdog_init t = wd_booted 40"
    using b(7) wd_booted_40 by (simp add: oct_sched_init_def)
  obtain d where d: "register_watchdog (core_num b) (wd_booted 40) = Inr d"
    using b(9) wd_booted_simps(3) [of 40] by (auto simp: register_watchdog_def upd_core_def)
  show ?thesis
    using b(1,2,8) k so reach t d by (simp add: Sec_LowLevel_Init_def low_init_core_def OCT_Timer_Init_def oct_rxtx_init_def Let_def)
qed

lemma timer_group: "unat (of_nat TIMER_GROUP :: u64) = TIMER_GROUP" "\<not> (16 :: u64) \<le> of_nat TIMER_GROUP"
  by (simp_all add: TIMER_GROUP_def)

lemma create_timer_ok: "create_timer fn (Some wq, 0) s = (0, s\<lparr>armed := armed s @ [(wq, timer_work TIMER_GROUP (Some fn) 1000)]\<rparr>)"
  using timer_group by (simp add: create_timer_def OCT_Timer_Create_def)

lemma high_init_ok:
  assumes "is_init_core b" "stat_mem b" "frag_mem b" "frag_timer b = (Some t1, 0)" "flow_mem b" "flow_timer b = (Some t2, 0)" "0 \<le> shm_fd b" "shm_ptr b \<noteq> 0"
  shows "\<exists>s'. Sec_HighLevel_Init b s = (SEC_OK, s') \<and> flow_inv (\<lambda>_. []) (flows (plane s')) \<and> (\<forall>i < FRAG_BUCKET_NUM. hl (fh (plane s')) i []) \<and>
    armed s' = armed s @ [(t1, timer_work TIMER_GROUP (Some Age_frags) 1000), (t2, timer_work TIMER_GROUP (Some Age_flows) 1000)] \<and>
    (\<forall>c. stats (plane s') c = 0) \<and> mem (plane s') = mem (plane s) \<and> sos s' = sos s \<and> sched s' = sched s \<and> tx_done (plane s') = tx_done (plane s)"
proof -
  have f: "flow_inv (\<lambda>_. []) (t\<lparr>hh := fold INIT_HLIST_HEAD [0..<FLOW_BUCKET_NUM] (hh t)\<rparr>)" for t
    by (rule flow_inv_init [where timer = True and t = t and r = SEC_OK]) (simp add: FlowInit_def Let_def)
  show ?thesis
    using assms f
    by (simp add: Sec_HighLevel_Init_def high_init_core_def create_timer_ok FragModule_init_def FlowInit_def DP_Acl_Rule_Init_def Let_def INIT_all hl_def)
qed

text \<open>A core before its start, and a platform that grants everything.\<close>

definition cold_state :: main_state where
  "cold_state = \<lparr>plane = rx_state\<lparr>mem := blank\<rparr>, sos = zero_region 0 0, sched = wd_booted 0, pktstat_of = (\<lambda>_ _. 0), global_time = 0, submitted = [], armed = []\<rparr>"

definition sample_boot :: boot_env where
  "sample_boot = \<lparr>is_init_core = True, core_num = 0, tim_status = 0, pool_blocks = [Some 0, Some 0, Some 0x1000000, Some 0x2000000], sos_block = Some 0x4000000,
     sos_region_size = 65536, sched_mem = True, rxtx_mem = True, found_pool = False, found_sos = False, found_sched = False, found_rxtx = False, stat_mem = True,
     frag_mem = True, frag_timer = (Some 1, 0), flow_mem = True, flow_timer = (Some 2, 0), found_stat = False, found_frag = False, found_flow = False, shm_fd = 3, shm_ptr = 4096\<rparr>"

lemma sample_boot_ok:
  "boot_blocks 0x1000000 0x2000000" "length (mem_pool (mem (plane cold_state))) = MEM_POOL_ID_MAX" "ref (ctrl (mem (plane cold_state)) a) = 0"
  by (simp_all add: boot_blocks_def pool_sizes cold_state_def blank_def MEM_POOL_ID_MAX_def)

section \<open>What the start does not check\<close>

text \<open>Without memory for the fragment table the start still succeeds and leaves the list heads of the table as they were.\<close>

lemma start_without_fragments:
  assumes "is_init_core b" "stat_mem b" "\<not> frag_mem b" "flow_mem b" "flow_timer b = (Some t2, 0)" "0 \<le> shm_fd b" "shm_ptr b \<noteq> 0"
  shows "fst (Sec_HighLevel_Init b s) = SEC_OK \<and> fh (plane (snd (Sec_HighLevel_Init b s))) = fh (plane s)"
  using assms
  by (simp add: Sec_HighLevel_Init_def high_init_core_def create_timer_ok FragModule_init_def FlowInit_def DP_Acl_Rule_Init_def Let_def)

text \<open>A failed \<open>mmap\<close> returns -1, which is taken for the address of the rule table.\<close>

lemma failed_map_accepted: "0 \<le> fd \<Longrightarrow> DP_Acl_Rule_Init fd (-1) = (SEC_OK, Some (-1))"
  by (simp add: DP_Acl_Rule_Init_def)

section \<open>Theorems\<close>





end
