(* ===== verification/ServerLoop.thy ===== *)
theory ServerLoop
  imports MgmtServer
begin

text \<open>
  The process of the management server (\<open>mgrplane/src/srv/srvcore/trans.c\<close>, \<open>srv.c\<close>): start and the \<open>select\<close>
  loop. One pass of the loop is a function of what the operating system answers, the record \<open>round_env\<close>.
\<close>

section \<open>Model\<close>

record server_state =
  socks_of :: socks
  srv_of :: server
  buf_r :: "u8 list"
  listenfd :: nat
  current_sock_fd :: int
  closed :: "nat list"

text \<open>
  The result of \<open>select\<close> and the descriptors it left in \<open>trfds\<close>, the result of \<open>accept\<close>, and the bytes that
  \<open>recv\<close> finds on a descriptor, none when the peer has closed it.
\<close>

record round_env =
  select_result :: int
  ready :: "nat \<Rightarrow> bool"
  accepted :: int
  pending :: "nat \<Rightarrow> u8 list"
  behind :: environment

definition accept_client :: "round_env \<Rightarrow> server_state \<Rightarrow> server_state res" where
  "accept_client env s =
     (if ready env (listenfd s) then
        if accepted env > 0 then
          rbind (add_fd TCP_CLIENT (nat (accepted env)) (socks_of s)) (\<lambda>t.
            Inr (s\<lparr>socks_of := t\<lparr>client_num := client_num t + 1\<rparr>, current_sock_fd := accepted env\<rparr>))
        else Inr s
      else Inr s)"

text \<open>The body of the loop over the descriptors.\<close>

definition poll_fd :: "round_env \<Rightarrow> nat \<Rightarrow> server_state \<Rightarrow> server_state res" where
  "poll_fd env i s =
     (let e = sock_map (socks_of s) ! i in
      if status e = INVALID then Inr s
      else if \<not> ready env i then Inr s
      else if stype e = TCP_CLIENT then
        rbind (serve_client (behind env) (buf_r s) (pending env i) i (srv_of s)) (\<lambda>(gone, buf, rest, srv).
          let s1 = s\<lparr>buf_r := buf, srv_of := srv, current_sock_fd := int i\<rparr> in
          if gone then rbind (del_fd i (socks_of s1)) (\<lambda>t. Inr (s1\<lparr>socks_of := t, closed := closed s1 @ [i]\<rparr>))
          else Inr s1)
      else Inr s)"

definition server_round :: "round_env \<Rightarrow> server_state \<Rightarrow> server_state res" where
  "server_round env s =
     (if select_result env = -1 then Inr s
      else if select_result env = 0 then Inr s
      else rbind (accept_client env s) (rfold (poll_fd env) [3..<SOCK_MAX]))"

definition server_run :: "round_env list \<Rightarrow> server_state \<Rightarrow> server_state res" where
  "server_run envs s = rfold server_round envs s"

text \<open>\<open>tcp_server_socket_create\<close> on the results of \<open>socket\<close> and \<open>bind\<close>.\<close>

definition tcp_server_socket_create :: "int \<Rightarrow> int \<Rightarrow> int" where
  "tcp_server_socket_create sock bound = (if sock = -1 then -1 else if bound = -1 then -1 else sock)"

text \<open>
  \<open>server_init\<close>: the descriptor is used without a test, and -1 is outside the table. \<open>junk\<close> is the receive
  buffer on the stack, \<open>pow\<close> the result of \<open>pow_init\<close>.
\<close>

definition server_init :: "int \<Rightarrow> int \<Rightarrow> int \<Rightarrow> u8 list \<Rightarrow> server_state res" where
  "server_init sock bound pow junk =
     (let fd = tcp_server_socket_create sock bound in
      if fd < 0 then Inl OutOfBounds
      else rbind (add_fd TCP_SERVER (nat fd) socks0) (\<lambda>t.
        if pow < 0 then Inl Exit
        else Inr \<lparr>socks_of = t, srv_of = \<lparr>rules = Rule_list_init, sent = [], rule_file = []\<rparr>, buf_r = junk, listenfd = nat fd,
                  current_sock_fd = 0, closed = []\<rparr>))"

text \<open>\<open>main\<close>: \<open>rules_ok\<close> says whether \<open>Rule_list_init\<close> got its shared memory.\<close>

definition server_main :: "int \<Rightarrow> int \<Rightarrow> int \<Rightarrow> u8 list \<Rightarrow> bool \<Rightarrow> round_env list \<Rightarrow> server_state res" where
  "server_main sock bound pow junk rules_ok envs =
     rbind (server_init sock bound pow junk) (\<lambda>s. if rules_ok then server_run envs s else Inl Exit)"

text \<open>\<open>cleanup_all\<close>, the handler of \<open>SIGTERM\<close>: the descriptors it closes before it exits.\<close>

definition cleanup_all :: "server_state \<Rightarrow> nat list" where
  "cleanup_all s = filter (\<lambda>i. status (sock_map (socks_of s) ! i) \<noteq> INVALID) [0..<SOCK_MAX]"

section \<open>Rules and buffer\<close>

lemma recv_buffer:
  assumes "recv_tcp_client_packet old p = Inr (ret, buf, len, rest)" "length old = RECV_BUF"
  shows "length buf = RECV_BUF \<and> (len = 0 \<longleftrightarrow> length p < MESSAGE_HEADER_LENGTH)"
proof -
  have w: "(of_nat (12 + n) :: u32) \<noteq> 0" if "12 + n \<le> 1518" for n :: nat
  proof -
    have "unat (of_nat (12 + n) :: u32) = 12 + n" using that by (simp add: unat_of_nat del: of_nat_add)
    then show ?thesis by (metis add_is_0 unat_0 zero_neq_numeral)
  qed
  show ?thesis
  proof (cases "length p < 12")
    case True
    then show ?thesis using assms by (auto simp: recv_tcp_client_packet_def MESSAGE_HEADER_LENGTH_def RECV_BUF_def overwrite_def)
  next
    case False
    define d where "d = 4 * int (unat (hlength (read_head (take 12 p)))) - int 12"
    define n where "n = (if d = 0 then 0 else if d < 0 then length p - 12 else min (nat d) (length p - 12))"
    have eq: "recv_tcp_client_packet old p = (if d = 0 then Inr (0, overwrite old (take 12 p), of_nat 12, drop 12 p)
        else if 12 + n > RECV_BUF then Inl OutOfBounds
        else Inr (if int n \<noteq> d then 1 else 0, overwrite old (take 12 p @ take n (drop 12 p)), of_nat 12 + of_nat n, drop n (drop 12 p)))"
      unfolding recv_tcp_client_packet_def MESSAGE_HEADER_LENGTH_def Let_def d_def [symmetric] using False by (auto simp: n_def)
    have n: "n \<le> length p - 12" by (simp add: n_def)
    have "12 + n \<le> RECV_BUF \<and> buf = overwrite old (take 12 p @ take n (drop 12 p)) \<and> len = of_nat (12 + n)"
      using assms(1) unfolding eq by (auto simp: n_def RECV_BUF_def split: if_splits)
    then show ?thesis using w [of n] n False assms(2) by (simp add: overwrite_def RECV_BUF_def MESSAGE_HEADER_LENGTH_def)
  qed
qed

lemma answer_rules: "answer ack from p fd s = Inr s' \<Longrightarrow> rules s' = rules s"
  by (auto simp: answer_def rbind_Inr_iff split: option.splits)

lemma run_proc_rules:
  assumes "run_proc env h from fd s = Inr s'" "rl_reach (rules s)" "52 \<le> length from"
  shows "rl_reach (rules s')"
proof -
  have w: "wf_tuple (read_tuple from MESSAGE_HEADER_LENGTH)" by (rule wf_read_tuple) (use assms(3) in \<open>simp add: MESSAGE_HEADER_LENGTH_def\<close>)
  note defs = octeon_show_test_command_def octeon_rpccall_def Rule_show_acl_rule_def Rule_add_acl_rule_def Rule_del_acl_rule_def
    Rule_del_acl_rule_id_def Rule_del_acl_rule_all_def Rule_commit_acl_rule_def
  show ?thesis
  proof (cases h)
    case Proc_add_acl_rule
    with assms rl_reach.add [OF assms(2) w] show ?thesis by (auto simp: defs Let_def split: prod.splits dest!: answer_rules)
  next
    case Proc_del_acl_rule
    with assms rl_reach.del [OF assms(2) w] show ?thesis by (auto simp: defs Let_def split: prod.splits dest!: answer_rules)
  next
    case Proc_del_acl_rule_id
    with assms rl_reach.del_by_id [OF assms(2)] show ?thesis by (auto simp: defs Let_def rbind_Inr_iff dest!: answer_rules)
  next
    case Proc_del_acl_rule_all
    with assms rl_reach.del_all [OF assms(2)] show ?thesis by (auto simp: defs Let_def dest!: answer_rules)
  qed (use assms in \<open>auto simp: defs Let_def split: option.splits if_splits dest!: answer_rules\<close>)
qed

lemma serve_client_keeps:
  assumes "serve_client env old p fd s = Inr (gone, buf, rest, s')" "length old = RECV_BUF" "rl_reach (rules s)"
  shows "length buf = RECV_BUF \<and> rl_reach (rules s') \<and> (gone \<longleftrightarrow> length p < MESSAGE_HEADER_LENGTH)"
proof -
  from assms(1) obtain ret len rest' rv where r: "recv_tcp_client_packet old p = Inr (ret, buf, len, rest')"
    "(if ret = 0 then mgmt_process_cmd env buf fd s else Inr (1, s)) = Inr (rv, s')" "gone = (len = 0)"
    by (auto simp: serve_client_def rbind_Inr_iff)
  note b = recv_buffer [OF r(1) assms(2)]
  have "rl_reach (rules s')"
    using r(2) b assms(3)
    by (auto simp: mgmt_process_cmd_def Let_def rbind_Inr_iff RECV_BUF_def split: if_splits option.splits dest: run_proc_rules)
  with b r(3) show ?thesis by simp
qed

section \<open>Sockets\<close>

definition clients :: "socks \<Rightarrow> nat set" where
  "clients t = {i \<in> valid_fds t. stype (sock_map t ! i) = TCP_CLIENT}"

lemma finite_clients [simp]: "finite (clients t)"
  by (simp add: clients_def valid_fds_def)

lemma add_client:
  assumes "add_fd TCP_CLIENT fd t = Inr t'" "fd \<notin> valid_fds t"
  shows "clients t' = insert fd (clients t)" "fd \<notin> clients t" "fd < FD_SETSIZE" "client_num t' = client_num t"
    "\<And>i. i \<noteq> fd \<Longrightarrow> sock_map t' ! i = sock_map t ! i"
proof -
  from assms(1) obtain e where e: "fd < length (sock_map t)" "sock_map t' = (sock_map t)[fd := e]" "status e \<noteq> INVALID" "stype e = TCP_CLIENT"
    and "fd < FD_SETSIZE" "client_num t' = client_num t" by (auto simp: add_fd_def Let_def split: if_splits)
  then show "clients t' = insert fd (clients t)" "fd \<notin> clients t" "fd < FD_SETSIZE" "client_num t' = client_num t"
    "\<And>i. i \<noteq> fd \<Longrightarrow> sock_map t' ! i = sock_map t ! i"
    using assms(2) by (auto simp: clients_def valid_fds_def nth_list_update split: if_splits)
qed

lemma del_client:
  assumes "fd < length (sock_map t)" "fd < FD_SETSIZE"
  shows "\<exists>t'. del_fd fd t = Inr t' \<and> clients t' = clients t - {fd} \<and> client_num t' = client_num t - 1 \<and>
    (\<forall>i. i \<noteq> fd \<longrightarrow> sock_map t' ! i = sock_map t ! i)"
  using assms by (auto simp: del_fd_def Let_def clients_def valid_fds_def nth_list_update split: if_splits)

definition server_inv :: "server_state \<Rightarrow> bool" where
  "server_inv s \<longleftrightarrow> socks_inv (socks_of s) \<and> (\<forall>i \<in> valid_fds (socks_of s). i < FD_SETSIZE) \<and>
     client_num (socks_of s) = int (card (clients (socks_of s))) \<and>
     listenfd s \<in> valid_fds (socks_of s) \<and> stype (sock_map (socks_of s) ! listenfd s) = TCP_SERVER \<and>
     length (buf_r s) = RECV_BUF \<and> rl_reach (rules (srv_of s))"

text \<open>The clients a pass closes: ready ones from which less than a message header arrives.\<close>

definition leaves :: "round_env \<Rightarrow> server_state \<Rightarrow> nat \<Rightarrow> bool" where
  "leaves env s i \<longleftrightarrow> i \<in> clients (socks_of s) \<and> ready env i \<and> length (pending env i) < MESSAGE_HEADER_LENGTH"

lemma poll_fd_step:
  assumes inv: "server_inv s" and i: "i < SOCK_MAX" and p: "poll_fd env i s = Inr s'"
  shows "server_inv s'" "closed s' = closed s @ (if leaves env s i then [i] else [])"
    "valid_fds (socks_of s') = valid_fds (socks_of s) - (if leaves env s i then {i} else {})" "listenfd s' = listenfd s"
    "clients (socks_of s') = clients (socks_of s) - (if leaves env s i then {i} else {})"
proof -
  let ?t = "socks_of s"
  have len: "i < length (sock_map ?t)" using inv i by (simp add: server_inv_def socks_inv_def)
  have all: "server_inv s' \<and> closed s' = closed s @ (if leaves env s i then [i] else []) \<and>
    valid_fds (socks_of s') = valid_fds ?t - (if leaves env s i then {i} else {}) \<and> listenfd s' = listenfd s \<and>
    clients (socks_of s') = clients ?t - (if leaves env s i then {i} else {})"
  proof (cases "i \<in> clients ?t \<and> ready env i")
    case False
    then have "s' = s" using p len by (auto simp: poll_fd_def Let_def clients_def valid_fds_def split: if_splits)
    with False inv show ?thesis by (auto simp: leaves_def)
  next
    case True
    then have c: "status (sock_map ?t ! i) \<noteq> INVALID" "stype (sock_map ?t ! i) = TCP_CLIENT" "i \<in> valid_fds ?t" by (auto simp: clients_def valid_fds_def)
    then have ne: "i \<noteq> listenfd s" using inv by (auto simp: server_inv_def)
    from p c True obtain gone buf rest srv where
      r: "serve_client (behind env) (buf_r s) (pending env i) i (srv_of s) = Inr (gone, buf, rest, srv)"
      and s': "(let s1 = s\<lparr>buf_r := buf, srv_of := srv, current_sock_fd := int i\<rparr> in
          if gone then rbind (del_fd i (socks_of s1)) (\<lambda>t. Inr (s1\<lparr>socks_of := t, closed := closed s1 @ [i]\<rparr>)) else Inr s1) = Inr s'"
      by (auto simp: poll_fd_def rbind_Inr_iff)
    note k = serve_client_keeps [OF r]
    have g: "gone \<longleftrightarrow> leaves env s i" using k inv True by (simp add: leaves_def server_inv_def)
    obtain t' where t': "del_fd i ?t = Inr t'" "clients t' = clients ?t - {i}" "client_num t' = client_num ?t - 1"
      "\<forall>j. j \<noteq> i \<longrightarrow> sock_map t' ! j = sock_map ?t ! j"
      using del_client [OF len] inv c(3) unfolding server_inv_def by blast
    have d: "socks_inv t' \<and> valid_fds t' = valid_fds ?t - {i}" using socks_inv_del [OF _ t'(1)] inv by (simp add: server_inv_def)
    have "int (card (clients t')) = int (card (clients ?t)) - 1" using t'(2) True card_Suc_Diff1 [of "clients ?t" i] by simp
    with d t' k g s' inv ne show ?thesis by (auto simp: server_inv_def Let_def split: if_splits)
  qed
  then show "server_inv s'" "closed s' = closed s @ (if leaves env s i then [i] else [])"
    "valid_fds (socks_of s') = valid_fds (socks_of s) - (if leaves env s i then {i} else {})" "listenfd s' = listenfd s"
    "clients (socks_of s') = clients (socks_of s) - (if leaves env s i then {i} else {})" by blast+
qed

lemma poll_all:
  assumes "server_inv s" "rfold (poll_fd env) xs s = Inr s'" "distinct xs" "\<And>i. i \<in> set xs \<Longrightarrow> i < SOCK_MAX"
  shows "server_inv s' \<and> closed s' = closed s @ filter (leaves env s) xs \<and>
    valid_fds (socks_of s') = valid_fds (socks_of s) - {i \<in> set xs. leaves env s i} \<and>
    clients (socks_of s') = clients (socks_of s) - {i \<in> set xs. leaves env s i} \<and> listenfd s' = listenfd s"
  using assms
proof (induction xs arbitrary: s)
  case (Cons i xs)
  then obtain s1 where s1: "poll_fd env i s = Inr s1" "rfold (poll_fd env) xs s1 = Inr s'" by (auto simp: rbind_Inr_iff)
  note p = poll_fd_step [OF Cons.prems(1) _ s1(1)]
  have i: "i < SOCK_MAX" using Cons.prems(4) by simp
  have eq: "leaves env s1 j = leaves env s j" if "j \<in> set xs" for j
    using p(5) [OF i] that Cons.prems(3) by (auto simp: leaves_def)
  then have "filter (leaves env s1) xs = filter (leaves env s) xs" by (simp cong: filter_cong)
  moreover have "{j \<in> set xs. leaves env s1 j} = {j \<in> set xs. leaves env s j}" using eq by auto
  ultimately show ?case using Cons.IH [OF p(1) [OF i] s1(2)] Cons.prems(3,4) p(2-5) [OF i] by auto
qed simp

section \<open>Runs\<close>

text \<open>
  What the operating system promises for a pass: \<open>select\<close> leaves only watched descriptors in the set, and
  \<open>accept\<close> returns a descriptor that is not open.
\<close>

definition os_ok :: "round_env \<Rightarrow> server_state \<Rightarrow> bool" where
  "os_ok env s \<longleftrightarrow> (\<forall>i. ready env i \<longrightarrow> i \<in> rfds (socks_of s)) \<and> (ready env (listenfd s) \<and> 0 < accepted env \<longrightarrow> nat (accepted env) \<notin> rfds (socks_of s))"

text \<open>The descriptors a pass adds.\<close>

definition joins :: "round_env \<Rightarrow> server_state \<Rightarrow> nat set" where
  "joins env s = (if ready env (listenfd s) \<and> 0 < accepted env then {nat (accepted env)} else {})"

inductive server_reach :: "server_state \<Rightarrow> bool" where
  start: "server_init sock bound pow junk = Inr s \<Longrightarrow> length junk = RECV_BUF \<Longrightarrow> server_reach s"
| pass: "server_reach s \<Longrightarrow> os_ok env s \<Longrightarrow> server_round env s = Inr s' \<Longrightarrow> server_reach s'"

lemma no_fds: "valid_fds socks0 = {}"
  by (simp add: valid_fds_def socks0_def sock_map_init_def)

lemma init_inv:
  assumes "server_init sock bound pow junk = Inr s" "length junk = RECV_BUF"
  shows "server_inv s"
proof -
  let ?fd = "tcp_server_socket_create sock bound"
  from assms(1) obtain t where t: "add_fd TCP_SERVER (nat ?fd) socks0 = Inr t" and
    s: "socks_of s = t" "rules (srv_of s) = Rule_list_init" "buf_r s = junk" "listenfd s = nat ?fd"
    by (auto simp: server_init_def Let_def rbind_Inr_iff split: if_splits)
  have v: "socks_inv t" "valid_fds t = {nat ?fd}"
    using socks_inv_add [OF socks_inv_init t] by (simp_all add: no_fds)
  have e: "nat ?fd < FD_SETSIZE" "stype (sock_map t ! nat ?fd) = TCP_SERVER" "client_num t = 0"
    using t by (auto simp: add_fd_def Let_def socks0_def sock_map_init_def split: if_splits)
  then have "clients t = {}" using v(2) by (auto simp: clients_def)
  with s v e assms(2) rl_reach.init show ?thesis by (simp add: server_inv_def)
qed

lemma accept_step:
  assumes inv: "server_inv s" and os: "os_ok env s" and a: "accept_client env s = Inr s1"
  shows "server_inv s1 \<and> valid_fds (socks_of s1) = valid_fds (socks_of s) \<union> joins env s \<and>
    clients (socks_of s1) = clients (socks_of s) \<union> joins env s \<and> closed s1 = closed s \<and> listenfd s1 = listenfd s \<and>
    leaves env s1 = leaves env s"
proof (cases "ready env (listenfd s) \<and> 0 < accepted env")
  case False
  then have "s1 = s" using a by (auto simp: accept_client_def split: if_splits)
  then show ?thesis using False inv by (auto simp: joins_def)
next
  case True
  let ?fd = "nat (accepted env)"
  from a True obtain t where t: "add_fd TCP_CLIENT ?fd (socks_of s) = Inr t" and
    s1: "s1 = s\<lparr>socks_of := t\<lparr>client_num := client_num t + 1\<rparr>, current_sock_fd := accepted env\<rparr>"
    by (auto simp: accept_client_def rbind_Inr_iff)
  have fresh: "?fd \<notin> valid_fds (socks_of s)" "\<not> ready env ?fd" using os True inv by (auto simp: os_ok_def server_inv_def socks_inv_def)
  note c = add_client [OF t fresh(1)]
  have v: "socks_inv t" "valid_fds t = insert ?fd (valid_fds (socks_of s))" using socks_inv_add [OF _ t] inv by (simp_all add: server_inv_def)
  have e: "valid_fds (t\<lparr>client_num := n\<rparr>) = valid_fds t" "clients (t\<lparr>client_num := n\<rparr>) = clients t" "socks_inv (t\<lparr>client_num := n\<rparr>) = socks_inv t" for n
    by (simp_all add: valid_fds_def clients_def socks_inv_def)
  have l: "listenfd s \<noteq> ?fd" using fresh(1) inv by (auto simp: server_inv_def)
  have "leaves env s1 = leaves env s" using c(1) fresh(2) by (auto simp: leaves_def s1 e fun_eq_iff)
  moreover have "server_inv s1" using inv v c l by (auto simp: server_inv_def s1 e)
  ultimately show ?thesis using v c(1) True by (auto simp: s1 e joins_def)
qed

lemma round_step:
  assumes "server_inv s" "os_ok env s" "server_round env s = Inr s'"
  shows "server_inv s'" "listenfd s' = listenfd s" "0 < select_result env \<Longrightarrow> closed s' = closed s @ filter (leaves env s) [3..<SOCK_MAX] \<and>
    valid_fds (socks_of s') = valid_fds (socks_of s) \<union> joins env s - {i. 3 \<le> i \<and> leaves env s i} \<and>
    clients (socks_of s') = clients (socks_of s) \<union> joins env s - {i. 3 \<le> i \<and> leaves env s i}"
proof -
  have all: "server_inv s' \<and> listenfd s' = listenfd s \<and> (0 < select_result env \<longrightarrow> closed s' = closed s @ filter (leaves env s) [3..<SOCK_MAX] \<and>
    valid_fds (socks_of s') = valid_fds (socks_of s) \<union> joins env s - {i. 3 \<le> i \<and> leaves env s i} \<and>
    clients (socks_of s') = clients (socks_of s) \<union> joins env s - {i. 3 \<le> i \<and> leaves env s i})"
  proof (cases "select_result env \<in> {-1, 0}")
    case True
    then show ?thesis using assms by (auto simp: server_round_def)
  next
    case False
    then obtain s1 where s1: "accept_client env s = Inr s1" "rfold (poll_fd env) [3..<SOCK_MAX] s1 = Inr s'"
      using assms(3) by (auto simp: server_round_def rbind_Inr_iff)
    note a = accept_step [OF assms(1,2) s1(1)]
    have "i < SOCK_MAX" if "leaves env s i" for i
      using that assms(1) by (auto simp: leaves_def clients_def valid_fds_def server_inv_def socks_inv_def)
    then have "{i \<in> set [3..<SOCK_MAX]. leaves env s i} = {i. 3 \<le> i \<and> leaves env s i}" by auto
    with poll_all [OF conjunct1 [OF a] s1(2)] a show ?thesis by simp
  qed
  then show "server_inv s'" "listenfd s' = listenfd s" "0 < select_result env \<Longrightarrow> closed s' = closed s @ filter (leaves env s) [3..<SOCK_MAX] \<and>
    valid_fds (socks_of s') = valid_fds (socks_of s) \<union> joins env s - {i. 3 \<le> i \<and> leaves env s i} \<and>
    clients (socks_of s') = clients (socks_of s) \<union> joins env s - {i. 3 \<le> i \<and> leaves env s i}" by blast+
qed

text \<open>A pass in which every ready client leaves does not fault.\<close>

lemma serve_short: "length p < MESSAGE_HEADER_LENGTH \<Longrightarrow> serve_client env old p fd s = Inr (True, overwrite old p, [], s)"
  by (simp add: serve_client_def recv_tcp_client_packet_def Let_def)

lemma polls_return:
  assumes "server_inv s" "\<And>i. i \<in> set xs \<Longrightarrow> i < SOCK_MAX \<and> length (pending env i) < MESSAGE_HEADER_LENGTH"
  shows "\<exists>s'. rfold (poll_fd env) xs s = Inr s'"
  using assms
proof (induction xs arbitrary: s)
  case (Cons i xs)
  have i: "i < SOCK_MAX" "length (pending env i) < MESSAGE_HEADER_LENGTH" using Cons.prems(2) by auto
  have "i < length (sock_map (socks_of s))" using Cons.prems(1) i by (simp add: server_inv_def socks_inv_def)
  moreover have "i < FD_SETSIZE" if "status (sock_map (socks_of s) ! i) \<noteq> INVALID"
    using Cons.prems(1) that calculation by (auto simp: server_inv_def valid_fds_def)
  ultimately have "\<exists>s1. poll_fd env i s = Inr s1"
    using del_client [of i "socks_of s"] serve_short [OF i(2)] by (fastforce simp: poll_fd_def Let_def)
  then obtain s1 where s1: "poll_fd env i s = Inr s1" by blast
  with Cons.IH [OF poll_fd_step(1) [OF Cons.prems(1) i(1) s1]] Cons.prems(2) show ?case by simp
qed simp

lemma server_reach_inv: "server_reach s \<Longrightarrow> server_inv s"
  by (induction rule: server_reach.induct) (auto intro: init_inv round_step(1))

section \<open>Theorem\<close>

text \<open>
  C10. The server in every state its loop reaches: the watched descriptors are the valid ones, all of
  them inside the bit array and below \<open>maxfd\<close>, the counter of connections is the number of client
  sockets, the listening socket is among them and is never taken for a client, and the rule table is
  one its operations produce. A further pass with a ready descriptor adds exactly the accepted
  connection and closes exactly, in the order of their numbers, the ready clients from which less than
  a message header arrives, a closed peer among them.
\<close>

theorem server_loop_correct:
  assumes "server_reach s" "os_ok env s" "server_round env s = Inr s'" "0 < select_result env"
  shows "rfds (socks_of s) = valid_fds (socks_of s) \<and> (\<forall>i. i \<in> rfds (socks_of s) \<longrightarrow> i < FD_SETSIZE \<and> i \<le> maxfd (socks_of s)) \<and>
    client_num (socks_of s) = int (card (clients (socks_of s))) \<and> listenfd s \<in> rfds (socks_of s) - clients (socks_of s) \<and>
    rl_reach (rules (srv_of s)) \<and>
    closed s' = closed s @ filter (leaves env s) [3..<SOCK_MAX] \<and>
    rfds (socks_of s') = rfds (socks_of s) \<union> joins env s - {i. 3 \<le> i \<and> leaves env s i} \<and>
    clients (socks_of s') = clients (socks_of s) \<union> joins env s - {i. 3 \<le> i \<and> leaves env s i}"
proof -
  have i: "server_inv s" by (rule server_reach_inv [OF assms(1)])
  note r = round_step [OF i assms(2,3)]
  have "rfds (socks_of s') = valid_fds (socks_of s')" using r(1) by (simp add: server_inv_def socks_inv_def)
  with i r(3) [OF assms(4)] show ?thesis by (auto simp: server_inv_def socks_inv_def clients_def)
qed

lemma filter_upt_eq: "filter (\<lambda>i. i = k) [a..<b] = (if a \<le> k \<and> k < b then [k] else [])"
  by (induction b) auto

definition first_pass :: round_env where
  "first_pass = \<lparr>select_result = 1, ready = (\<lambda>i. i = 3), accepted = 5, pending = (\<lambda>_. []), behind = \<lparr>dp = (\<lambda>_. None), file_ok = True\<rparr>\<rparr>"

definition second_pass :: round_env where
  "second_pass = first_pass\<lparr>ready := (\<lambda>i. i = 5)\<rparr>"

theorem server_loop_correct_witness:
  "\<exists>s s' s''. server_init 3 0 0 (replicate RECV_BUF 0) = Inr s \<and> server_round first_pass s = Inr s' \<and> rfds (socks_of s') = {3, 5} \<and>
    server_round second_pass s' = Inr s'' \<and> closed s'' = [5] \<and> rfds (socks_of s'') = {3}"
proof -
  obtain s where s: "server_init 3 0 0 (replicate RECV_BUF 0) = Inr s" "listenfd s = 3" "rfds (socks_of s) = {3}" "length (sock_map (socks_of s)) = SOCK_MAX" "closed s = []"
    by (simp add: server_init_def tcp_server_socket_create_def add_fd_def socks0_def sock_map_init_def SOCK_MAX_def FD_SETSIZE_def Let_def)
  have r0: "server_reach s" by (rule server_reach.start [OF s(1)]) simp
  obtain s1 where a: "accept_client first_pass s = Inr s1"
    using s(2,4) by (simp add: accept_client_def first_pass_def add_fd_def SOCK_MAX_def FD_SETSIZE_def Let_def)
  have o1: "os_ok first_pass s" using s(3) by (simp add: os_ok_def first_pass_def)
  have "server_inv s1" using accept_step [OF server_reach_inv [OF r0] o1 a] by simp
  from polls_return [OF this, of "[3..<SOCK_MAX]" first_pass] obtain s' where s': "server_round first_pass s = Inr s'"
    using a by (auto simp: server_round_def first_pass_def MESSAGE_HEADER_LENGTH_def)
  note p1 = server_loop_correct [OF r0 o1 s']
  have "\<not> leaves first_pass s i" for i using p1 s(2) by (auto simp: leaves_def first_pass_def)
  then have 1: "rfds (socks_of s') = {3, 5}" "closed s' = []" using p1 s by (auto simp: first_pass_def joins_def)
  have r1: "server_reach s'" by (rule server_reach.pass [OF r0 o1 s'])
  have l1: "listenfd s' = 3" using round_step(2) [OF server_reach_inv [OF r0] o1 s'] s(2) by simp
  have c1: "5 \<in> clients (socks_of s')" using p1 s(2) \<open>\<And>i. \<not> leaves first_pass s i\<close> by (simp add: first_pass_def joins_def)
  have o2: "os_ok second_pass s'" using 1 l1 by (simp add: os_ok_def second_pass_def first_pass_def)
  from polls_return [OF server_reach_inv [OF r1], of "[3..<SOCK_MAX]" second_pass] obtain s'' where s'': "server_round second_pass s' = Inr s''"
    using l1 by (auto simp: server_round_def accept_client_def second_pass_def first_pass_def MESSAGE_HEADER_LENGTH_def)
  have v: "leaves second_pass s' i \<longleftrightarrow> i = 5" for i using c1 by (auto simp: leaves_def second_pass_def first_pass_def MESSAGE_HEADER_LENGTH_def)
  then have "leaves second_pass s' = (\<lambda>i. i = 5)" by auto
  then have "filter (leaves second_pass s') [3..<SOCK_MAX] = [5]" unfolding filter_upt_eq by (simp add: filter_upt_eq) (simp add: SOCK_MAX_def)
  moreover have "0 < select_result second_pass" "joins second_pass s' = {}" using l1 by (simp_all add: joins_def second_pass_def first_pass_def)
  moreover have "{i. 3 \<le> i \<and> leaves second_pass s' i} = {5}" using v by auto
  ultimately have "closed s'' = [5]" "rfds (socks_of s'') = {3}" using server_loop_correct [OF r1 o2 s''] unfolding 1 by auto
  with s(1) s' 1(1) s'' show ?thesis by blast
qed

end
