(* ===== verification/CliSession.thy ===== *)
theory CliSession
  imports CliRule PowLink
begin

text \<open>
  A session of the CLI (\<open>mgrplane/src/common/cli_trans.c\<close>, \<open>mgrplane/src/client/cli_octeon.c\<close>, \<open>cli_sys.c\<close>, and the
  ends of the commands of \<open>cli_rule.c\<close>): the connection to the server, sending a request, and what is printed
  for the answer. The operating system is the record \<open>net\<close>.
\<close>

section \<open>Connection\<close>

record client =
  g_rcp_fd :: int
  g_msg_id :: u32

text \<open>
  The results of the calls of \<open>socket\<close> in turn, of \<open>connect\<close> and \<open>send\<close>, and the bytes of \<open>recv\<close>: \<open>None\<close> for an error,
  the empty list when the server closed the connection.
\<close>

record net =
  socket_results :: "int list"
  connects :: bool
  sends :: bool
  received :: "u8 list option"

text \<open>\<open>socket\<close> is called until it succeeds; \<open>None\<close> when it does not.\<close>

fun new_socket :: "int list \<Rightarrow> int option" where
  "new_socket [] = None"
| "new_socket (r # rs) = (if r = -1 then new_socket rs else Some r)"

definition open_cli2server_socket :: "net \<Rightarrow> client \<Rightarrow> client option" where
  "open_cli2server_socket net c =
     map_option (\<lambda>fd. c\<lparr>g_rcp_fd := (if connects net then fd else -1)\<rparr>) (new_socket (socket_results net))"

definition connection :: "net \<Rightarrow> client \<Rightarrow> client option" where
  "connection net c = (if g_rcp_fd c \<le> 0 then open_cli2server_socket net c else Some c)"

text \<open>\<open>process_message\<close>: whether the request was sent, and the receive buffer, which the caller has zeroed.\<close>

definition exchange :: "net \<Rightarrow> client \<Rightarrow> (client \<times> bool \<times> u8 list) res option" where
  "exchange net c = (case connection net c of
     None \<Rightarrow> None
   | Some c1 \<Rightarrow> Some (
       if g_rcp_fd c1 \<le> 0 then Inr (c1, False, replicate BUFSIZE 0)
       else if \<not> sends net then Inl Exit
       else case received net of None \<Rightarrow> Inl Exit | Some bs \<Rightarrow> Inr (c1, True, process_message bs)))"

definition process_cli_show_cmd :: "net \<Rightarrow> client \<Rightarrow> (client \<times> int \<times> u8 list) res option" where
  "process_cli_show_cmd net c = (case connection net c of
     None \<Rightarrow> None
   | Some c1 \<Rightarrow> Some (
       if g_rcp_fd c1 \<le> 0 then Inr (c1, 1, [])
       else if \<not> sends net then Inl Exit
       else rbind (show_loop (case received net of None \<Rightarrow> [] | Some bs \<Rightarrow> bs)) (\<lambda>text. Inr (c1, 0, text))))"

section \<open>Commands\<close>

definition sec_error_print :: "int \<Rightarrow> string" where
  "sec_error_print errcode = line (sec_error errcode)"

text \<open>
  The commands of \<open>cli_rule.c\<close> but \<open>show rule\<close>: \<open>build\<close> checks the arguments and packs the request. The result is the
  request that was sent and the text that is printed, \<open>None\<close> for a message about the arguments. \<open>rn\<close> is only logged.
\<close>

definition rule_command ::
  "(u32 \<Rightarrow> u32 \<times> (int \<times> u8 list) res option) \<Rightarrow> net \<Rightarrow> client \<Rightarrow> (client \<times> u8 list option \<times> string option) res option" where
  "rule_command build net c =
     (let (g, req) = build (g_msg_id c); c1 = c\<lparr>g_msg_id := g\<rparr> in
      case req of
        None \<Rightarrow> Some (Inr (c1, None, None))
      | Some packed \<Rightarrow> fbind (Some packed) (\<lambda>(rv, bs). fbind (exchange net c1) (\<lambda>(c2, ok, buf).
          Some (Inr (c2, if ok then Some bs else None, Some (sec_error_print (sint (get32 buf MESSAGE_HEADER_LENGTH))))))))"

text \<open>The end of \<open>show rule\<close>: \<open>file\<close> is the text of the file the server wrote, \<open>None\<close> when it cannot be read.\<close>

definition show_rule_done :: "u8 list \<Rightarrow> string option \<Rightarrow> bool \<Rightarrow> string res" where
  "show_rule_done buf file malloc_ok =
     (let rv = sint (get32 buf MESSAGE_HEADER_LENGTH) in
      if rv \<noteq> 0 then Inr (sec_error_print rv)
      else case file of
        None \<Rightarrow> Inr (sec_error_print 6)
      | Some text \<Rightarrow> if malloc_ok then Inr (takeWhile (\<lambda>ch. ch \<noteq> CHR 0x00) text) else Inl NullDeref)"

text \<open>The requests of \<open>cli_octeon.c\<close>; those of \<open>cli_sys.c\<close> use parameters \<open>p\<close> that are not cleared.\<close>

definition cmd_show_dp_build_time :: "u32 \<Rightarrow> u32 \<times> (int \<times> u8 list) res" where
  "cmd_show_dp_build_time g = (g + 1, call_pack 2 (zero_params\<lparr>p_nparam := 0, p_more_flag := 0, p_msg_id := g\<rparr>))"

definition cmd_show_pkt_stat :: "u32 \<Rightarrow> u32 \<times> (int \<times> u8 list) res" where
  "cmd_show_pkt_stat g = (g + 1, call_pack 4 (zero_params\<lparr>p_nparam := 0, p_more_flag := 0, p_msg_id := g\<rparr>))"

definition cmd_show_mem_pool :: "u32 \<Rightarrow> u32 \<times> (int \<times> u8 list) res" where
  "cmd_show_mem_pool g = (g + 1, call_pack 6 (zero_params\<lparr>p_nparam := 0, p_more_flag := 0, p_msg_id := g\<rparr>))"

definition cmd_show_test_info :: "rcp_params \<Rightarrow> u32 \<Rightarrow> u32 \<times> (int \<times> u8 list) res" where
  "cmd_show_test_info p g = (g + 1, call_pack 0 (p\<lparr>p_nparam := 0, p_more_flag := 0, p_msg_id := g\<rparr>))"

text \<open>
  The commands that read registers of the chip: a command line is printed into an array of 20 bytes
  and given to \<open>system\<close>. The result is the list of the command lines.
\<close>

definition COMMAND_SIZE :: nat where
  "COMMAND_SIZE = 20"

definition put_command :: "string \<Rightarrow> string list \<Rightarrow> string list res" where
  "put_command t run = (if length t < COMMAND_SIZE then Inr (run @ [t]) else Inl OutOfBounds)"

definition cmd_show_interface_id :: "u32 \<Rightarrow> string list res option" where
  "cmd_show_interface_id n =
     (if n > 3 then None
      else Some (rfold put_command
        [line (''oct-linux-csr GMX0_RX'' @ show_u32 n @ ''_STATS_PKTS''), line (''oct-linux-csr GMX0_RX'' @ show_u32 n @ ''_STATS_OCTS''),
         line (''oct-linux-csr GMX0_TX'' @ show_u32 n @ ''_STAT3''), line (''oct-linux-csr GMX0_TX'' @ show_u32 n @ ''_STAT2'')] []))"

definition cmd_show_fpa :: "string list res" where
  "cmd_show_fpa = rfold put_command (map (\<lambda>i. line (''oct-linux-csr FPA_QUE'' @ dec i @ ''_AVAILABLE'')) [0..<8]) []"

section \<open>Texts in messages\<close>

text \<open>The bytes of an answer: the text and zeros up to a multiple of four.\<close>

definition pad4 :: "nat \<Rightarrow> nat" where
  "pad4 n = (if n mod 4 = 0 then 0 else 4 - n mod 4)"

lemma pad4_less: "pad4 n \<le> 3" "(n + pad4 n) mod 4 = 0"
  unfolding pad4_def by (auto, presburger)

lemma whole_words: "(a + b) mod 4 = 0 \<Longrightarrow> 4 * ((12 + a + b) div 4) = 12 + a + (b :: nat)"
  by presburger

lemma text_bytes_nonzero: "CHR 0x00 \<notin> set t \<Longrightarrow> 0 \<notin> set (text_bytes t)"
proof -
  have "(of_nat (of_char c) :: u8) = 0 \<Longrightarrow> c = CHR 0x00" for c
  proof -
    assume "(of_nat (of_char c) :: u8) = 0"
    then have "unat (of_nat (of_char c) :: u8) = 0" by simp
    then have "of_char c = (0 :: nat)" by (simp add: unat_of_nat)
    then show "c = CHR 0x00" by (subst of_char_eq_iff [symmetric, where ?'a = nat]) simp
  qed
  then show "CHR 0x00 \<notin> set t \<Longrightarrow> 0 \<notin> set (text_bytes t)" unfolding text_bytes_def by fastforce
qed

lemma c_string_padded: "0 \<notin> set bs \<Longrightarrow> c_string (bs @ replicate k 0) = bs"
  unfolding c_string_def by (induction bs) (auto simp: takeWhile_replicate)

lemma show_tables_code:
  "map ((!) init_msg_pack_handle) [2, 4, 6] = replicate 3 (Some Pack_null)"
  "map ((!) init_msg_pack_handle) [3, 5, 7] = replicate 3 (Some Pack_show_info)"
  "map ((!) init_cmd_process_handle) [2, 4, 6] = [Some Proc_show_dp_build_time, Some Proc_show_dp_pkt_stat, Some Proc_show_mem_pool]"
  by code_simp+

lemma show_request:
  assumes "cmd \<in> {2, 4, 6}" "p_nparam p = 0"
  shows "call_pack cmd p = Inr (0, head_bytes (encap_msg_header cmd p))"
    "recv_tcp_client_packet old (head_bytes (encap_msg_header cmd p) @ rest) = Inr (0, overwrite old (head_bytes (encap_msg_header cmd p)), 12, rest)"
    "mgmt_process_cmd menv (overwrite old (head_bytes (encap_msg_header cmd p))) fd srv =
       rbind (run_proc menv (the (init_cmd_process_handle ! cmd)) (overwrite old (head_bytes (encap_msg_header cmd p))) fd srv) (\<lambda>s'. Inr (0, s'))"
proof -
  let ?h = "encap_msg_header cmd p"
  have c: "cmd < MAX_COMMAND_TYPE" "cmd < 21" using assms(1) by (auto simp: MAX_COMMAND_TYPE_def)
  show "call_pack cmd p = Inr (0, head_bytes ?h)"
    using assms(1) c show_tables_code(1) pack_handles_code(2) by (auto simp: call_pack_def pack_null_def cmd_is_valid_def numeral_3_eq_3)
  have l: "hlength ?h = 3" using assms(2) by (simp add: encap_msg_header_def Let_def MESSAGE_HEADER_LENGTH_def)
  show "recv_tcp_client_packet old (head_bytes ?h @ rest) = Inr (0, overwrite old (head_bytes ?h), 12, rest)"
    using recv_exact [of ?h "[]" old rest] l by (simp add: MESSAGE_HEADER_LENGTH_def)
  have "read_head (overwrite old (head_bytes ?h)) = ?h" using read_head_overwrite [of old ?h "[]"] by simp
  moreover have "init_cmd_process_handle ! cmd \<noteq> None" using assms(1) show_tables_code(3) by auto
  ultimately show "mgmt_process_cmd menv (overwrite old (head_bytes ?h)) fd srv =
       rbind (run_proc menv (the (init_cmd_process_handle ! cmd)) (overwrite old (head_bytes ?h)) fd srv) (\<lambda>s'. Inr (0, s'))"
    using c get_cmd_type_encap [OF c(1), of p] by (auto simp: mgmt_process_cmd_def cmd_is_valid_def Let_def)
qed

lemma text_in_mem:
  assumes "length bs + k \<le> 255 * sizeof_data_block" "k \<le> 3"
  shows "take (length bs + k) (p_mem (put_mem 0 (bs @ [0]) zero_params)) = bs @ replicate k 0"
  using assms by (cases k) (simp_all add: put_mem_def zero_params_def drop_replicate take_replicate)

lemma answer_show:
  assumes "ack \<in> {3, 5, 7}" "length t \<le> 1000"
  shows "\<exists>h. answer ack req ((put_mem 0 (text_bytes t @ [0]) zero_params)\<lparr>p_info_len := of_nat (length t)\<rparr>) fd srv =
      Inr (srv\<lparr>server.sent := server.sent srv @ [(fd, head_bytes h @ text_bytes t @ replicate (pad4 (length t)) 0)]\<rparr>) \<and>
    unat (hlength h) = (12 + length t + pad4 (length t)) div 4 \<and> more_flag h = 0"
proof -
  let ?n = "length t" and ?k = "pad4 (length t)"
  let ?q = "(put_mem 0 (text_bytes t @ [0]) zero_params)\<lparr>p_info_len := of_nat (?n + ?k), p_more_flag := 0, p_msg_id := msg_id (read_head req)\<rparr>"
  let ?h = "(encap_msg_header ack ?q)\<lparr>hlength := of_nat ((12 + (?n + ?k)) div 4)\<rparr>"
  have k: "?k \<le> 3" by (rule pad4_less)
  have n: "unat (of_nat (?n + ?k) :: u16) = ?n + ?k" "unat (of_nat ?n :: u16) = ?n" using assms(2) k by (simp_all add: unat_of_nat del: of_nat_add)
  have "init_msg_pack_handle ! ack = Some Pack_show_info" "cmd_is_valid ack = 0" "ack < 21"
    using assms(1) show_tables_code(2) by (auto simp: cmd_is_valid_def MAX_COMMAND_TYPE_def numeral_3_eq_3)
  moreover have "take (?n + ?k) (p_mem ?q) = text_bytes t @ replicate ?k 0"
    using text_in_mem [of "text_bytes t" ?k] assms(2) k by (simp add: sizeof_data_block_def)
  ultimately have p: "call_pack ack ?q = Inr (0, head_bytes ?h @ text_bytes t @ replicate ?k 0)"
    using n(1) pack_handles_code(2) by (simp add: call_pack_def pack_show_info_def MESSAGE_HEADER_LENGTH_def)
  show ?thesis
  proof (intro exI [of _ ?h] conjI)
    let ?p1 = "(put_mem 0 (text_bytes t @ [0]) zero_params)\<lparr>p_info_len := of_nat ?n, p_more_flag := 0\<rparr>"
    have "(if unat (p_info_len ?p1) mod 4 \<noteq> 0 then ?p1\<lparr>p_info_len := p_info_len ?p1 + of_nat (4 - unat (p_info_len ?p1) mod 4)\<rparr> else ?p1)
        \<lparr>p_msg_id := msg_id (read_head req)\<rparr> = ?q"
      using n(2) by (intro rcp_params.equality) (auto simp: pad4_def)
    with p have "param_to_pkt ack req (if unat (p_info_len ?p1) mod 4 \<noteq> 0
        then ?p1\<lparr>p_info_len := p_info_len ?p1 + of_nat (4 - unat (p_info_len ?p1) mod 4)\<rparr> else ?p1) =
        Inr (0, head_bytes ?h @ text_bytes t @ replicate ?k 0)"
      using assms(1) unfolding param_to_pkt_def by (auto simp: cmd_is_valid_def MAX_COMMAND_TYPE_def)
    then show "answer ack req ((put_mem 0 (text_bytes t @ [0]) zero_params)\<lparr>p_info_len := of_nat ?n\<rparr>) fd srv =
      Inr (srv\<lparr>server.sent := server.sent srv @ [(fd, head_bytes ?h @ text_bytes t @ replicate ?k 0)]\<rparr>)"
      using assms(2) k unfolding answer_def send_rcp_res_def Let_def by (simp add: MAX_BUF_def MESSAGE_HEADER_LENGTH_def)
    have "(12 + (?n + ?k)) div 4 < 256" using assms(2) k by simp
    then show "unat (hlength ?h) = (12 + ?n + ?k) div 4" by (simp add: unat_of_nat add.assoc)
    show "more_flag ?h = 0" by (simp add: encap_msg_header_def Let_def)
  qed
qed

lemma show_loop_text:
  assumes "unat (hlength h) = (12 + length t + pad4 (length t)) div 4" "more_flag h = 0" "length t \<le> 1000" "CHR 0x00 \<notin> set t"
  shows "show_loop (head_bytes h @ text_bytes t @ replicate (pad4 (length t)) 0 @ tail) = Inr (text_bytes t)"
proof -
  let ?k = "pad4 (length t)"
  have l: "4 * unat (hlength h) = 12 + length t + ?k"
    unfolding assms(1) by (rule whole_words [OF pad4_less(2)])
  have "show_loop (head_bytes h @ text_bytes t @ replicate ?k 0 @ tail) = Inr (c_string (text_bytes t @ replicate ?k 0))"
    using l assms(2,3) pad4_less(1) [of "length t"]
    by (subst show_loop.simps) (simp add: read_head_bytes Let_def MESSAGE_HEADER_LENGTH_def BUFSIZE_def)
  then show ?thesis using c_string_padded [OF text_bytes_nonzero [OF assms(4)]] by simp
qed

section \<open>Theorems\<close>

lemma show_command:
  assumes "(build, opcode) \<in> {(cmd_show_dp_build_time, COMMAND_SHOW_BUILD_TIME), (cmd_show_pkt_stat, COMMAND_SHOW_PKT_STAT),
    (cmd_show_mem_pool, COMMAND_SHOW_MEM_POOL)}"
  shows "\<exists>k. k \<in> {2, 4, 6} \<and> build m = (m + 1, call_pack k (zero_params\<lparr>p_nparam := 0, p_more_flag := 0, p_msg_id := m\<rparr>)) \<and>
    command_text env opcode s \<noteq> None \<and>
    (\<forall>req fd srv. run_proc menv (the (init_cmd_process_handle ! k)) req fd srv = octeon_rpccall menv req fd (Suc k) opcode srv)"
proof -
  note defs = command_text_def commands cmd_show_dp_build_time_def cmd_show_pkt_stat_def cmd_show_mem_pool_def
  have h: "init_cmd_process_handle ! 2 = Some Proc_show_dp_build_time" "init_cmd_process_handle ! 4 = Some Proc_show_dp_pkt_stat"
    "init_cmd_process_handle ! 6 = Some Proc_show_mem_pool" using show_tables_code(3) by simp_all
  consider "build = cmd_show_dp_build_time" "opcode = COMMAND_SHOW_BUILD_TIME" | "build = cmd_show_pkt_stat" "opcode = COMMAND_SHOW_PKT_STAT"
    | "build = cmd_show_mem_pool" "opcode = COMMAND_SHOW_MEM_POOL" using assms by auto
  then show ?thesis
  proof cases
    case 1
    then show ?thesis by (intro exI [of _ 2]) (simp add: h defs)
  next
    case 2
    then show ?thesis by (intro exI [of _ 4]) (simp add: h defs)
  next
    case 3
    then show ?thesis by (intro exI [of _ 6]) (simp add: h defs)
  qed
qed

lemma register_commands_overflow: "n \<le> 3 \<Longrightarrow> cmd_show_interface_id n = Some (Inl OutOfBounds)" "cmd_show_fpa = Inl OutOfBounds"
  by (simp_all add: cmd_show_interface_id_def cmd_show_fpa_def put_command_def COMMAND_SIZE_def upt_conv_Cons)

text \<open>
  C29. The show commands from the CLI to the data plane and back. For each of the three commands, whatever
  the counters and pools are: the data plane submits the entry of the request with its answer to the Linux group and
  changes nothing else; the server's link returns the message with that text; with this reply the server
  reads the request the CLI packed from the stream, leaves what follows, and sends one answer; and the
  CLI prints exactly the text the data plane produced.
\<close>

theorem show_end_to_end:
  assumes env: "strings_ok env" and w: "request_of env opcode w" and c: "0 < g_rcp_fd c" "sends net"
    and cmd: "(build, opcode) \<in> {(cmd_show_dp_build_time, COMMAND_SHOW_BUILD_TIME), (cmd_show_pkt_stat, COMMAND_SHOW_PKT_STAT),
      (cmd_show_mem_pool, COMMAND_SHOW_MEM_POOL)}"
  shows "\<exists>t w' req buf ans. command_text env opcode s = Some (Inr t) \<and> build m = (m + 1, Inr (0, req)) \<and>
    oct_rx_process_command env wq w s = Inr (s\<lparr>submitted := submitted s @ [(wq, w')]\<rparr>) \<and> wq_grp w' = TO_LINUX_GROUP \<and>
    pow_rpc_syncall2dp 4 True (Some (frame_of w')) (rpc_request opcode) = Inr (Some (rpc_reply opcode t)) \<and>
    (environment.dp menv opcode = Some (rpc_reply opcode t) \<longrightarrow>
      serve_client menv old (req @ rest) fd srv = Inr (False, buf, rest, srv\<lparr>server.sent := server.sent srv @ [(fd, ans)]\<rparr>) \<and>
      process_cli_show_cmd (net\<lparr>received := Some (ans @ tail)\<rparr>) c = Some (Inr (c, 0, text_bytes t)))"
proof -
  let ?p = "zero_params\<lparr>p_nparam := 0, p_more_flag := 0, p_msg_id := m\<rparr>"
  obtain k where k: "k \<in> {2, 4, 6}" "build m = (m + 1, call_pack k ?p)" "command_text env opcode s \<noteq> None"
      "\<And>req fd srv. run_proc menv (the (init_cmd_process_handle ! k)) req fd srv = octeon_rpccall menv req fd (Suc k) opcode srv"
    using show_command [OF cmd] by metis
  let ?req = "head_bytes (encap_msg_header k ?p)"
  obtain t where t: "command_text env opcode s = Some (Inr t)" "length t \<le> 1000" "CHR 0x00 \<notin> set t"
    using k(3) command_text_ok [OF env, of opcode s] by blast
  obtain w' where w': "oct_rx_process_command env wq w s = Inr (s\<lparr>submitted := submitted s @ [(wq, w')]\<rparr>)" "wq_grp w' = TO_LINUX_GROUP"
    "pow_rpc_syncall2dp 4 True (Some (frame_of w')) (rpc_request opcode) = Inr (Some (rpc_reply opcode t))"
    using command_answered [OF env w t(1,2)] by blast
  have "Suc k \<in> {3, 5, 7}" using k(1) by auto
  from answer_show [OF this t(2), of "overwrite old ?req" fd srv] obtain h where
    h: "answer (Suc k) (overwrite old ?req) ((put_mem 0 (text_bytes t @ [0]) zero_params)\<lparr>p_info_len := of_nat (length t)\<rparr>) fd srv =
        Inr (srv\<lparr>server.sent := server.sent srv @ [(fd, head_bytes h @ text_bytes t @ replicate (pad4 (length t)) 0)]\<rparr>)"
      "unat (hlength h) = (12 + length t + pad4 (length t)) div 4" "more_flag h = 0" by blast
  let ?ans = "head_bytes h @ text_bytes t @ replicate (pad4 (length t)) 0"
  note r = show_request [OF k(1), of ?p]
  have "serve_client menv old (?req @ rest) fd srv = Inr (False, overwrite old ?req, rest, srv\<lparr>server.sent := server.sent srv @ [(fd, ?ans)]\<rparr>)"
    if "environment.dp menv opcode = Some (rpc_reply opcode t)"
    using r(2,3) by (simp add: serve_client_def k(4) rpccall_reply [OF that t(2)] h(1))
  moreover have "process_cli_show_cmd (net\<lparr>received := Some (?ans @ tail)\<rparr>) c = Some (Inr (c, 0, text_bytes t))"
    using c show_loop_text [OF h(2,3) t(2,3), of tail] by (simp add: process_cli_show_cmd_def connection_def)
  moreover have "build m = (m + 1, Inr (0, ?req))" using k(2) r(1) by simp
  ultimately show ?thesis using t(1) w' by blast
qed

definition sample_menv :: environment where
  "sample_menv = \<lparr>dp = (\<lambda>op. Some (rpc_reply op (line ''Nov 18 2014, 10:11:12''))), file_ok = True\<rparr>"

theorem show_end_to_end_witness:
  "\<forall>s srv. \<exists>w' req buf ans. oct_rx_process_command sample_env 3 (sample_request COMMAND_SHOW_BUILD_TIME) s = Inr (s\<lparr>submitted := submitted s @ [(3, w')]\<rparr>) \<and> cmd_show_dp_build_time 7 = (8, Inr (0, req)) \<and>
    serve_client sample_menv (replicate 1518 0) (req @ []) 4 srv = Inr (False, buf, [], srv\<lparr>server.sent := server.sent srv @ [(4, ans)]\<rparr>) \<and>
    process_cli_show_cmd \<lparr>socket_results = [], connects = True, sends = True, received = Some (ans @ [])\<rparr> \<lparr>g_rcp_fd = 3, g_msg_id = 8\<rparr> =
      Some (Inr (\<lparr>g_rcp_fd = 3, g_msg_id = 8\<rparr>, 0, text_bytes (line ''Nov 18 2014, 10:11:12'')))"
proof (intro allI)
  fix s srv
  let ?c = "\<lparr>g_rcp_fd = 3, g_msg_id = 8\<rparr>" and ?net = "\<lparr>socket_results = [], connects = True, sends = True, received = None\<rparr>"
  have c: "0 < g_rcp_fd ?c" "sends ?net" by simp_all
  have t: "command_text sample_env COMMAND_SHOW_BUILD_TIME s = Some (Inr (line ''Nov 18 2014, 10:11:12''))" for s
    by (simp add: command_text_def dp_show_build_time_def sprintf_def OUT_SIZE_def sample_env_def)
  show "\<exists>w' req buf ans. oct_rx_process_command sample_env 3 (sample_request COMMAND_SHOW_BUILD_TIME) s = Inr (s\<lparr>submitted := submitted s @ [(3, w')]\<rparr>) \<and> cmd_show_dp_build_time 7 = (8, Inr (0, req)) \<and>
    serve_client sample_menv (replicate 1518 0) (req @ []) 4 srv = Inr (False, buf, [], srv\<lparr>server.sent := server.sent srv @ [(4, ans)]\<rparr>) \<and>
    process_cli_show_cmd \<lparr>socket_results = [], connects = True, sends = True, received = Some (ans @ [])\<rparr> ?c =
      Some (Inr (?c, 0, text_bytes (line ''Nov 18 2014, 10:11:12'')))"
    using show_end_to_end [OF sample_request_ok c, where build = cmd_show_dp_build_time and opcode = COMMAND_SHOW_BUILD_TIME and m = 7 and s = s and wq = 3 and menv = sample_menv
      and old = "replicate 1518 0" and rest = "[]" and fd = 4 and srv = srv and tail = "[]"]
    by (auto simp: t sample_menv_def)
qed



end
