(* ===== verification/CpToken.thy ===== *)
theory CpToken
  imports Prelude
begin

text \<open>
  The tokens of the command parser of the CLI (\<open>mgrplane/src/client/cparser_token.c\<close>, \<open>cparser_token.h\<close>,
  \<open>cparser_priv.h\<close>): nodes of the parse tree, the functions that match a token against a node and those
  that read its value. A matcher gets the characters of the token and returns its code and \<open>is_complete\<close>.
  A failed \<open>assert\<close> is \<open>Exit\<close>.
\<close>

section \<open>Data\<close>

datatype cp_result = CPARSER_OK | CPARSER_NOT_OK | CPARSER_ERR_INVALID_PARAMS | CPARSER_ERR_NOT_EXIST
  | CPARSER_ERR_OUT_OF_RES | CPARSER_ERR_PARSE_ERR | CPARSER_ERR_INCOMP_CMD

datatype node_type = NODE_ROOT | NODE_END | NODE_KEYWORD | NODE_STRING | NODE_UINT | NODE_UINT64 | NODE_INT | NODE_INT64
  | NODE_HEX | NODE_HEX64 | NODE_FLOAT | NODE_MACADDR | NODE_IPV4ADDR | NODE_FILE | NODE_LIST

text \<open>\<open>param\<close> is a text, the keywords of a list node, or the glue function of an end node; \<open>children\<close> is the chain of siblings.\<close>

datatype node_param = Text string | Keywords "string list" | Glue nat

datatype node = Node (ntype: node_type) (nflags: u32) (nparam: node_param) (ndesc: "string option") (children: "node list")

text \<open>A text of C ends at its first zero.\<close>

definition c_text :: "string \<Rightarrow> string" where
  "c_text = takeWhile (\<lambda>c. c \<noteq> CHR 0x00)"

fun param_text :: "node_param \<Rightarrow> string" where
  "param_text (Text s) = c_text s"
| "param_text _ = []"

fun param_keywords :: "node_param \<Rightarrow> string list" where
  "param_keywords (Keywords ks) = ks"
| "param_keywords _ = []"

definition CPARSER_MAX_TOKEN_SIZE :: nat where
  "CPARSER_MAX_TOKEN_SIZE = 256"

record token =
  begin_ptr :: int
  token_len :: nat
  tbuf :: string
  tparent :: "node option"
  tnode :: "node option"

section \<open>Characters and the C library\<close>

definition code :: "char \<Rightarrow> nat" where
  "code c = of_char c"

definition isdigit :: "char \<Rightarrow> bool" where
  "isdigit c \<longleftrightarrow> 48 \<le> code c \<and> code c \<le> 57"

definition isxdigit :: "char \<Rightarrow> bool" where
  "isxdigit c \<longleftrightarrow> isdigit c \<or> 97 \<le> code c \<and> code c \<le> 102 \<or> 65 \<le> code c \<and> code c \<le> 70"

definition xdigit :: "char \<Rightarrow> nat" where
  "xdigit c = (if isdigit c then code c - 48 else if 97 \<le> code c then code c - 97 + 10 else code c - 65 + 10)"

definition char_at :: "string \<Rightarrow> char" where
  "char_at s = (case s of [] \<Rightarrow> CHR 0x00 | c # _ \<Rightarrow> c)"

fun strncmp :: "string \<Rightarrow> string \<Rightarrow> nat \<Rightarrow> int" where
  "strncmp s t 0 = 0"
| "strncmp s t (Suc n) =
     (if char_at s \<noteq> char_at t then int (code (char_at s)) - int (code (char_at t))
      else if char_at s = CHR 0x00 then 0 else strncmp (tl s) (tl t) n)"

section \<open>Matching\<close>

type_synonym matched = "(cp_result \<times> bool) res"

definition cparser_match_root :: "string \<Rightarrow> matched" where
  "cparser_match_root t = Inl Exit"

definition cparser_match_end :: "string \<Rightarrow> matched" where
  "cparser_match_end t = Inr (CPARSER_NOT_OK, False)"

definition cparser_match_keyword :: "string \<Rightarrow> string \<Rightarrow> matched" where
  "cparser_match_keyword kw t =
     (let kw_len = length kw; token_len = length t in
      if token_len > kw_len then Inr (CPARSER_NOT_OK, False)
      else let match_len = (if kw_len < token_len then kw_len else token_len) in
        if strncmp t kw match_len = 0 then Inr (CPARSER_OK, match_len = kw_len)
        else Inr (CPARSER_NOT_OK, False))"

definition cparser_match_string :: "string \<Rightarrow> matched" where
  "cparser_match_string t = Inr (CPARSER_OK, True)"

definition cparser_match_uint :: "string \<Rightarrow> matched" where
  "cparser_match_uint t = (case t of
     [] \<Rightarrow> Inl Exit
   | [a] \<Rightarrow> Inr (if isdigit a then (CPARSER_OK, True) else (CPARSER_NOT_OK, False))
   | a # b # rest \<Rightarrow> Inr (
       if \<not> isdigit a then (CPARSER_NOT_OK, False)
       else if b = CHR ''x'' \<and> a \<noteq> CHR ''0'' then (CPARSER_NOT_OK, False)
       else if b \<noteq> CHR ''x'' \<and> \<not> isdigit b then (CPARSER_NOT_OK, False)
       else let is_dec = (b \<noteq> CHR ''x'') in
         if rest = [] then (CPARSER_OK, is_dec)
         else if list_all (if is_dec then isdigit else isxdigit) rest then (CPARSER_OK, True)
         else (CPARSER_NOT_OK, False)))"

definition cparser_match_int :: "string \<Rightarrow> matched" where
  "cparser_match_int t = (case t of
     [] \<Rightarrow> Inl Exit
   | a # rest \<Rightarrow> Inr (
       if \<not> isdigit a \<and> a \<noteq> CHR ''-'' \<and> a \<noteq> CHR ''+'' then (CPARSER_NOT_OK, False)
       else if rest = [] then (CPARSER_OK, isdigit a)
       else if list_all isdigit rest then (CPARSER_OK, True)
       else (CPARSER_NOT_OK, False)))"

definition cparser_match_hex :: "string \<Rightarrow> matched" where
  "cparser_match_hex t = (case t of
     [] \<Rightarrow> Inl Exit
   | [a] \<Rightarrow> Inr (if a \<noteq> CHR ''0'' then CPARSER_NOT_OK else CPARSER_OK, False)
   | a # b # rest \<Rightarrow> Inr (
       if a \<noteq> CHR ''0'' then (CPARSER_NOT_OK, False)
       else if b \<noteq> CHR ''x'' then (CPARSER_NOT_OK, False)
       else if rest = [] then (CPARSER_OK, False)
       else if list_all isxdigit rest then (CPARSER_OK, True)
       else (CPARSER_NOT_OK, False)))"

text \<open>The loop of \<open>cparser_match_float\<close> with \<open>has_dec_pt\<close>; it starts at the first character after the sign.\<close>

fun float_loop :: "bool \<Rightarrow> string \<Rightarrow> cp_result \<times> bool" where
  "float_loop pt [] = (CPARSER_OK, True)"
| "float_loop pt (c # cs) =
     (if c = CHR ''.'' then if pt then (CPARSER_NOT_OK, False) else float_loop True cs
      else if \<not> isdigit c then (CPARSER_NOT_OK, True) else float_loop pt cs)"

definition cparser_match_float :: "string \<Rightarrow> matched" where
  "cparser_match_float t =
     (if t = [] then Inl Exit
      else let signed = (char_at t = CHR ''+'' \<or> char_at t = CHR ''-'') in
        if signed \<and> length t = 1 then Inr (CPARSER_OK, False)
        else let rest = (if signed then tl t else t) in
          if char_at rest = CHR ''.'' then
            if length t = 2 then Inr (CPARSER_OK, False) else Inr (float_loop True rest)
          else if \<not> isdigit (char_at rest) then Inr (CPARSER_NOT_OK, False)
          else Inr (float_loop False rest))"

text \<open>The loop of \<open>cparser_match_macaddr\<close> with \<open>num_digit\<close> and \<open>num_colon\<close>; \<open>None\<close> when a character does not fit.\<close>

fun mac_loop :: "nat \<Rightarrow> nat \<Rightarrow> string \<Rightarrow> (nat \<times> nat) option" where
  "mac_loop nd nc [] = Some (nd, nc)"
| "mac_loop nd nc (c # cs) =
     (if nd = 0 then if \<not> isxdigit c then None else mac_loop 1 nc cs
      else if nd = 1 then
        if \<not> isxdigit c \<and> c \<noteq> CHR '':'' then None
        else if c = CHR '':'' then if nc + 1 > 5 then None else mac_loop 0 (nc + 1) cs
        else mac_loop 2 nc cs
      else if c \<noteq> CHR '':'' then None
      else if nc + 1 > 5 then None else mac_loop 0 (nc + 1) cs)"

definition cparser_match_macaddr :: "string \<Rightarrow> matched" where
  "cparser_match_macaddr t = Inr (case mac_loop 0 0 t of
     None \<Rightarrow> (CPARSER_NOT_OK, False)
   | Some (nd, nc) \<Rightarrow> (CPARSER_OK, nc = 5 \<and> 0 < nd))"

text \<open>The loop of \<open>cparser_match_ipv4addr\<close>; \<open>p\<close> and \<open>q\<close> are the characters before the current one.\<close>

fun ip_loop :: "nat \<Rightarrow> nat \<Rightarrow> char \<Rightarrow> char \<Rightarrow> string \<Rightarrow> (nat \<times> nat) option" where
  "ip_loop nd dots p q [] = Some (nd, dots)"
| "ip_loop nd dots p q (c # cs) =
     (if nd = 0 then if \<not> isdigit c then None else ip_loop (nd + 1) dots q c cs
      else if nd = 3 then
        if c \<noteq> CHR ''.'' then None else if dots + 1 > 3 then None else ip_loop 0 (dots + 1) q c cs
      else if \<not> isdigit c \<and> c \<noteq> CHR ''.'' then None
      else if c = CHR ''.'' then if dots + 1 > 3 then None else ip_loop 0 (dots + 1) q c cs
      else if nd + 1 = 3 \<and> 0 < strncmp [p, q, c] ''255'' 3 then None
      else ip_loop (nd + 1) dots q c cs)"

definition cparser_match_ipv4addr :: "string \<Rightarrow> matched" where
  "cparser_match_ipv4addr t = Inr (case ip_loop 0 0 (CHR 0x00) (CHR 0x00) t of
     None \<Rightarrow> (CPARSER_NOT_OK, False)
   | Some (nd, dots) \<Rightarrow> (CPARSER_OK, dots = 3 \<and> 0 < nd))"

definition cparser_match_file :: "string \<Rightarrow> matched" where
  "cparser_match_file t = Inr (CPARSER_OK, True)"

definition cparser_match_list :: "string list \<Rightarrow> string \<Rightarrow> matched" where
  "cparser_match_list ks t =
     (if ks = [] then Inl Exit
      else let num_matches = length (filter (\<lambda>k. strncmp t k (length t) = 0) ks) in
        Inr (if num_matches \<noteq> 0 then CPARSER_OK else CPARSER_NOT_OK, num_matches = 1))"

text \<open>\<open>cparser_match_fn_tbl\<close>, indexed by the type of the node.\<close>

definition match_fn :: "node \<Rightarrow> string \<Rightarrow> matched" where
  "match_fn n = (case ntype n of
     NODE_ROOT \<Rightarrow> cparser_match_root
   | NODE_END \<Rightarrow> cparser_match_end
   | NODE_KEYWORD \<Rightarrow> cparser_match_keyword (param_text (nparam n))
   | NODE_STRING \<Rightarrow> cparser_match_string
   | NODE_UINT \<Rightarrow> cparser_match_uint
   | NODE_UINT64 \<Rightarrow> cparser_match_uint
   | NODE_INT \<Rightarrow> cparser_match_int
   | NODE_INT64 \<Rightarrow> cparser_match_int
   | NODE_HEX \<Rightarrow> cparser_match_hex
   | NODE_HEX64 \<Rightarrow> cparser_match_hex
   | NODE_FLOAT \<Rightarrow> cparser_match_float
   | NODE_MACADDR \<Rightarrow> cparser_match_macaddr
   | NODE_IPV4ADDR \<Rightarrow> cparser_match_ipv4addr
   | NODE_FILE \<Rightarrow> cparser_match_file
   | NODE_LIST \<Rightarrow> cparser_match_list (param_keywords (nparam n)))"

section \<open>Reading the value\<close>

definition cparser_get_string :: "token \<Rightarrow> cp_result \<times> string option" where
  "cparser_get_string t = (if token_len t = 0 then (CPARSER_NOT_OK, None) else (CPARSER_OK, Some (tbuf t)))"

text \<open>The loops over the digits, for both widths.\<close>

fun dec_loop :: "'a::len word \<Rightarrow> string \<Rightarrow> (cp_result \<times> 'a word) res" where
  "dec_loop old [] = Inr (CPARSER_OK, old)"
| "dec_loop old (c # cs) =
     (if \<not> isdigit c then Inl Exit
      else let d = of_nat (code c - 48); new = old * 10 + d in
        if (new - d) div 10 \<noteq> old then Inr (CPARSER_NOT_OK, 0) else dec_loop new cs)"

fun hex_loop :: "'a::len word \<Rightarrow> string \<Rightarrow> (cp_result \<times> 'a word) res" where
  "hex_loop old [] = Inr (CPARSER_OK, old)"
| "hex_loop old (c # cs) =
     (if \<not> isxdigit c then Inl Exit
      else let d = of_nat (xdigit c); new = push_bit 4 old + d in
        if drop_bit 4 (new - d) \<noteq> old then Inr (CPARSER_NOT_OK, 0) else hex_loop new cs)"

definition tok_chars :: "token \<Rightarrow> string" where
  "tok_chars t = take (token_len t) (tbuf t)"

definition get_hex :: "token \<Rightarrow> (cp_result \<times> 'a::len word) res" where
  "get_hex t =
     (if token_len t = 0 then Inr (CPARSER_NOT_OK, 0)
      else if \<not> (token_len t > 2 \<and> take 2 (tbuf t) = ''0x'') then Inl Exit
      else hex_loop 0 (drop 2 (tok_chars t)))"

definition get_uint :: "token \<Rightarrow> (cp_result \<times> 'a::len word) res" where
  "get_uint t =
     (if token_len t = 0 then Inr (CPARSER_NOT_OK, 0)
      else if 1 < token_len t \<and> tbuf t ! 1 = CHR ''x'' then get_hex t
      else dec_loop 0 (tok_chars t))"

text \<open>The signed value is the number, \<open>-((int32_t)tmp)\<close> included: at \<open>2 ^ (w - 1)\<close> it wraps to itself.\<close>

definition get_int :: "token \<Rightarrow> (cp_result \<times> 'a::len word) res" where
  "get_int t =
     (if token_len t = 0 then Inr (CPARSER_NOT_OK, 0)
      else let minus = (tbuf t ! 0 = CHR ''-''); init_pos = (if minus \<or> tbuf t ! 0 = CHR ''+'' then 1 else 0) in
        rbind (dec_loop (0 :: 'a word) (drop init_pos (tok_chars t))) (\<lambda>(rc, tmp).
          Inr (if rc \<noteq> CPARSER_OK then (CPARSER_NOT_OK, 0)
               else if \<not> minus then if tmp > mask (LENGTH('a) - 1) then (CPARSER_NOT_OK, 0) else (CPARSER_OK, tmp)
               else if tmp > 2 ^ (LENGTH('a) - 1) then (CPARSER_NOT_OK, 0) else (CPARSER_OK, - tmp))))"

definition cparser_get_uint :: "token \<Rightarrow> (cp_result \<times> u32) res" where
  "cparser_get_uint = get_uint"

definition cparser_get_uint64 :: "token \<Rightarrow> (cp_result \<times> u64) res" where
  "cparser_get_uint64 = get_uint"

definition cparser_get_int :: "token \<Rightarrow> (cp_result \<times> u32) res" where
  "cparser_get_int = get_int"

definition cparser_get_int64 :: "token \<Rightarrow> (cp_result \<times> u64) res" where
  "cparser_get_int64 = get_int"

definition cparser_get_hex :: "token \<Rightarrow> (cp_result \<times> u32) res" where
  "cparser_get_hex = get_hex"

definition cparser_get_hex64 :: "token \<Rightarrow> (cp_result \<times> u64) res" where
  "cparser_get_hex64 = get_hex"

text \<open>
  \<open>sscanf\<close> with \<open>%lu\<close> or \<open>%lx\<close>: white space, a sign and, in base 16, \<open>0x\<close> are skipped; a number that is too large
  gives the largest one, a negative one its residue.
\<close>

definition isspace :: "char \<Rightarrow> bool" where
  "isspace c \<longleftrightarrow> code c = 32 \<or> 9 \<le> code c \<and> code c \<le> 13"

definition ULONG :: nat where
  "ULONG = 2 ^ 64"

definition number :: "nat \<Rightarrow> string \<Rightarrow> nat" where
  "number base s = foldl (\<lambda>v c. v * base + xdigit c) 0 s"

definition scan_ulong :: "nat \<Rightarrow> string \<Rightarrow> (nat \<times> string) option" where
  "scan_ulong base s =
     (let s1 = dropWhile isspace s; minus = (char_at s1 = CHR ''-'');
          s2 = (if minus \<or> char_at s1 = CHR ''+'' then tl s1 else s1);
          s3 = (if base = 16 \<and> take 2 s2 \<in> {''0x'', ''0X''} then drop 2 s2 else s2);
          is_d = (if base = 16 then isxdigit else isdigit);
          ds = takeWhile is_d s3; v = number base ds in
      if ds = [] then None
      else Some (if v \<ge> ULONG then ULONG - 1 else if minus then (ULONG - v) mod ULONG else v, dropWhile is_d s3))"

text \<open>The numbers \<open>sscanf\<close> converts with a format of \<open>n\<close> numbers separated by \<open>sep\<close>.\<close>

fun scan_numbers :: "nat \<Rightarrow> char \<Rightarrow> nat \<Rightarrow> string \<Rightarrow> nat list" where
  "scan_numbers base sep 0 s = []"
| "scan_numbers base sep (Suc n) s = (case scan_ulong base s of
     None \<Rightarrow> []
   | Some (v, rest) \<Rightarrow> v # (if char_at rest = sep then scan_numbers base sep n (tl rest) else []))"

definition cparser_get_macaddr :: "token \<Rightarrow> cp_result \<times> u8 list" where
  "cparser_get_macaddr t =
     (if token_len t = 0 then (CPARSER_NOT_OK, replicate 6 0)
      else let ns = scan_numbers 16 (CHR '':'') 6 (c_text (tbuf t)) in
        if length ns \<noteq> 6 \<or> list_ex (\<lambda>n. n > 255) ns then (CPARSER_NOT_OK, replicate 6 0)
        else (CPARSER_OK, map of_nat ns))"

definition cparser_get_ipv4addr :: "token \<Rightarrow> cp_result \<times> u32" where
  "cparser_get_ipv4addr t =
     (if token_len t = 0 then (CPARSER_NOT_OK, 0)
      else let ns = scan_numbers 10 (CHR ''.'') 4 (c_text (tbuf t)) in
        if length ns \<noteq> 4 \<or> list_ex (\<lambda>n. n > 255) ns then (CPARSER_NOT_OK, 0)
        else (CPARSER_OK, push_bit 24 (of_nat (ns ! 0)) OR push_bit 16 (of_nat (ns ! 1)) OR push_bit 8 (of_nat (ns ! 2)) OR of_nat (ns ! 3)))"

text \<open>\<open>regular\<close> tells whether \<open>stat\<close> finds a regular file of that name.\<close>

definition cparser_get_file :: "(string \<Rightarrow> bool) \<Rightarrow> token \<Rightarrow> cp_result \<times> string option" where
  "cparser_get_file regular t =
     (if token_len t = 0 then (CPARSER_NOT_OK, None)
      else if \<not> regular (c_text (tbuf t)) then (CPARSER_NOT_OK, None)
      else (CPARSER_OK, Some (tbuf t)))"

definition cparser_get_list :: "token \<Rightarrow> (cp_result \<times> string option) res" where
  "cparser_get_list t = (case tnode t of
     None \<Rightarrow> Inr (CPARSER_NOT_OK, None)
   | Some n \<Rightarrow>
       if ntype n \<noteq> NODE_LIST then Inl Exit
       else case find (\<lambda>k. strncmp (tbuf t) k (min (length k) (token_len t)) = 0) (param_keywords (nparam n)) of
         Some k \<Rightarrow> Inr (CPARSER_OK, Some k)
       | None \<Rightarrow> Inr (CPARSER_NOT_OK, None))"

end
