(* ===== verification/CpMatch.thy ===== *)
theory CpMatch
  imports CpToken
begin

text \<open>
  What the matchers accept and what the value functions return. A matcher works while the token is typed: it
  accepts what can still become a token of its kind, and \<open>is_complete\<close> says that it is one. This
  is the contract \<open>token_matcher\<close>.
\<close>

section \<open>Contract\<close>

locale token_matcher =
  fixes matcher :: "string \<Rightarrow> matched" and lang :: "string \<Rightarrow> bool"
  assumes verdict: "t \<noteq> [] \<Longrightarrow> \<exists>r b. matcher t = Inr (r, b) \<and> (r = CPARSER_OK \<longleftrightarrow> (\<exists>u. lang (t @ u))) \<and> (r = CPARSER_OK \<longrightarrow> b = lang t)"
begin

lemma complete: "t \<noteq> [] \<Longrightarrow> matcher t = Inr (CPARSER_OK, True) \<longleftrightarrow> lang t"
  using verdict [of t] by (metis append_Nil2 old.prod.inject sum.inject(2))

text \<open>No prefix of a token is refused, so that every token can be typed.\<close>

lemma typed: "t \<noteq> [] \<Longrightarrow> lang (t @ u) \<Longrightarrow> matcher t = Inr (CPARSER_OK, lang t)"
  using verdict [of t] by auto

lemma refused: "t \<noteq> [] \<Longrightarrow> (\<exists>b. matcher t = Inr (CPARSER_OK, b)) \<longleftrightarrow> (\<exists>u. lang (t @ u))"
  using verdict [of t] by (metis old.prod.inject sum.inject(2))

end

section \<open>Characters\<close>

lemma code_eq: "code a = code b \<longleftrightarrow> a = b"
  by (simp add: code_def)

lemma isdigit_xdigit: "isdigit c \<Longrightarrow> isxdigit c" "isdigit c \<Longrightarrow> xdigit c = code c - 48" "isdigit c \<Longrightarrow> xdigit c < 10" "isxdigit c \<Longrightarrow> xdigit c < 16"
  by (auto simp: isxdigit_def xdigit_def isdigit_def)

lemma not_digit [simp]: "\<not> isdigit (CHR ''x'')" "\<not> isdigit (CHR ''.'')" "\<not> isdigit (CHR ''-'')" "\<not> isdigit (CHR ''+'')" "\<not> isxdigit (CHR '':'')"
  "\<not> isdigit (CHR 0x00)" "\<not> isxdigit (CHR ''.'')" "\<not> isxdigit (CHR 0x00)"
  by (simp_all add: isdigit_def isxdigit_def code_def)

lemma is_digit [simp]: "isdigit (CHR ''0'')" "isxdigit (CHR ''0'')" "xdigit (CHR ''0'') = 0"
  by (simp_all add: isdigit_def isxdigit_def xdigit_def code_def)

lemma digit_ne: "isdigit c \<Longrightarrow> c \<noteq> CHR ''x'' \<and> c \<noteq> CHR ''.'' \<and> c \<noteq> CHR ''-'' \<and> c \<noteq> CHR ''+''" "isxdigit c \<Longrightarrow> c \<noteq> CHR '':''"
  by auto

lemma strncmp_prefix:
  assumes "length t \<le> length k" "CHR 0x00 \<notin> set k"
  shows "strncmp t k (length t) = 0 \<longleftrightarrow> take (length t) k = t"
  using assms
proof (induction t arbitrary: k)
  case (Cons c t)
  then obtain d k' where k: "k = d # k'" by (cases k) auto
  show ?case using Cons by (auto simp: k char_at_def code_eq)
qed simp

section \<open>Numbers and keywords\<close>

definition dec_lang :: "string \<Rightarrow> bool" where
  "dec_lang t \<longleftrightarrow> t \<noteq> [] \<and> list_all isdigit t"

definition hex_lang :: "string \<Rightarrow> bool" where
  "hex_lang t \<longleftrightarrow> take 2 t = ''0x'' \<and> 2 < length t \<and> list_all isxdigit (drop 2 t)"

definition int_lang :: "string \<Rightarrow> bool" where
  "int_lang t \<longleftrightarrow> dec_lang t \<or> char_at t \<in> {CHR ''-'', CHR ''+''} \<and> dec_lang (tl t)"

lemma hex_lang_app: "hex_lang (CHR ''0'' # CHR ''x'' # h) \<longleftrightarrow> h \<noteq> [] \<and> list_all isxdigit h"
  by (auto simp: hex_lang_def)

interpretation keyword: token_matcher "cparser_match_keyword (c_text s)" "\<lambda>t. t = c_text s" for s
proof
  fix t :: string assume "t \<noteq> []"
  let ?kw = "c_text s"
  have n: "CHR 0x00 \<notin> set ?kw" by (auto simp: c_text_def dest: set_takeWhileD)
  have "(\<exists>u. t @ u = ?kw) \<longleftrightarrow> length t \<le> length ?kw \<and> take (length t) ?kw = t"
    by (metis append_eq_conv_conj append_take_drop_id length_append le_add1)
  then show "\<exists>r b. cparser_match_keyword ?kw t = Inr (r, b) \<and> (r = CPARSER_OK \<longleftrightarrow> (\<exists>u. t @ u = ?kw)) \<and> (r = CPARSER_OK \<longrightarrow> b = (t = ?kw))"
    using strncmp_prefix [OF _ n, of t]
    by (cases "length t \<le> length ?kw"; cases "take (length t) ?kw = t") (simp_all add: cparser_match_keyword_def Let_def not_less, (metis take_all_iff)?, (auto intro: exI [of _ False])?)
qed

interpretation hex: token_matcher cparser_match_hex hex_lang
proof
  fix t :: string assume t: "t \<noteq> []"
  have 1: "(\<exists>u. hex_lang (t @ u)) \<longleftrightarrow> t = ''0'' \<or> t = ''0x'' \<or> hex_lang t"
  proof
    assume "\<exists>u. hex_lang (t @ u)"
    then obtain u where u: "hex_lang (t @ u)" by blast
    show "t = ''0'' \<or> t = ''0x'' \<or> hex_lang t"
    proof (cases t)
      case (Cons a t')
      then show ?thesis using u by (cases t') (auto simp: hex_lang_def)
    qed (use t in simp)
  next
    have "hex_lang (''0'' @ ''x0'')" "hex_lang (''0x'' @ ''0'')" by (simp_all add: hex_lang_def)
    then show "t = ''0'' \<or> t = ''0x'' \<or> hex_lang t \<Longrightarrow> \<exists>u. hex_lang (t @ u)" by (metis append_Nil2)
  qed
  show "\<exists>r b. cparser_match_hex t = Inr (r, b) \<and> (r = CPARSER_OK \<longleftrightarrow> (\<exists>u. hex_lang (t @ u))) \<and> (r = CPARSER_OK \<longrightarrow> b = hex_lang t)"
    unfolding 1 using t by (auto simp: cparser_match_hex_def hex_lang_def split: list.splits)
qed

interpretation uint: token_matcher cparser_match_uint "\<lambda>t. dec_lang t \<or> hex_lang t"
proof
  fix t :: string assume t: "t \<noteq> []"
  have 1: "(\<exists>u. dec_lang (t @ u) \<or> hex_lang (t @ u)) \<longleftrightarrow> dec_lang t \<or> t = ''0x'' \<or> hex_lang t"
  proof
    assume "\<exists>u. dec_lang (t @ u) \<or> hex_lang (t @ u)"
    then obtain u where "dec_lang (t @ u) \<or> hex_lang (t @ u)" by blast
    then show "dec_lang t \<or> t = ''0x'' \<or> hex_lang t" using t
      by (cases t; cases "tl t") (auto simp: hex_lang_def dec_lang_def)
  next
    have "hex_lang (''0x'' @ ''0'')" by (simp add: hex_lang_def)
    then show "dec_lang t \<or> t = ''0x'' \<or> hex_lang t \<Longrightarrow> \<exists>u. dec_lang (t @ u) \<or> hex_lang (t @ u)" by (metis append_Nil2)
  qed
  show "\<exists>r b. cparser_match_uint t = Inr (r, b) \<and> (r = CPARSER_OK \<longleftrightarrow> (\<exists>u. dec_lang (t @ u) \<or> hex_lang (t @ u))) \<and>
      (r = CPARSER_OK \<longrightarrow> b = (dec_lang t \<or> hex_lang t))"
    unfolding 1 using t by (auto simp: cparser_match_uint_def Let_def hex_lang_def dec_lang_def split: list.splits)
qed

interpretation int: token_matcher cparser_match_int int_lang
proof
  fix t :: string assume t: "t \<noteq> []"
  have 1: "(\<exists>u. int_lang (t @ u)) \<longleftrightarrow> t = ''-'' \<or> t = ''+'' \<or> int_lang t"
  proof
    assume "\<exists>u. int_lang (t @ u)"
    then obtain u where "int_lang (t @ u)" by blast
    then show "t = ''-'' \<or> t = ''+'' \<or> int_lang t" using t
      by (cases t; cases "tl t") (auto simp: int_lang_def dec_lang_def char_at_def)
  next
    have "int_lang (''-'' @ ''0'')" "int_lang (''+'' @ ''0'')" by (simp_all add: int_lang_def dec_lang_def char_at_def)
    then show "t = ''-'' \<or> t = ''+'' \<or> int_lang t \<Longrightarrow> \<exists>u. int_lang (t @ u)" by (metis append_Nil2)
  qed
  show "\<exists>r b. cparser_match_int t = Inr (r, b) \<and> (r = CPARSER_OK \<longleftrightarrow> (\<exists>u. int_lang (t @ u))) \<and> (r = CPARSER_OK \<longrightarrow> b = int_lang t)"
    unfolding 1 using t by (auto simp: cparser_match_int_def int_lang_def dec_lang_def char_at_def split: list.splits)
qed

section \<open>Addresses\<close>

fun split_at :: "char \<Rightarrow> string \<Rightarrow> string list" where
  "split_at s [] = [[]]"
| "split_at s (c # cs) = (if c = s then [] # split_at s cs else (c # hd (split_at s cs)) # tl (split_at s cs))"

lemma split_ne [simp]: "split_at s t \<noteq> []"
  by (cases t) auto

fun join_with :: "char \<Rightarrow> string list \<Rightarrow> string" where
  "join_with s [] = []"
| "join_with s [g] = g"
| "join_with s (g # gs) = g @ s # join_with s gs"

lemma join_split: "join_with s (split_at s t) = t"
proof (induction t)
  case (Cons c t)
  show ?case
  proof (cases "split_at s t")
    case (Cons g gs)
    then show ?thesis using Cons.IH by (cases gs) auto
  qed simp
qed simp

definition mac_lang :: "string \<Rightarrow> bool" where
  "mac_lang t \<longleftrightarrow> length (split_at (CHR '':'') t) = 6 \<and>
     list_all (\<lambda>g. 1 \<le> length g \<and> length g \<le> 2 \<and> list_all isxdigit g) (split_at (CHR '':'') t)"

definition octet :: "string \<Rightarrow> bool" where
  "octet g \<longleftrightarrow> 1 \<le> length g \<and> length g \<le> 3 \<and> list_all isdigit g \<and> number 10 g \<le> 255"

definition ip_lang :: "string \<Rightarrow> bool" where
  "ip_lang t \<longleftrightarrow> length (split_at (CHR ''.'') t) = 4 \<and> list_all octet (split_at (CHR ''.'') t)"

text \<open>Both loops are automata: a state that is reached can be completed.\<close>

lemma mac_loop_append: "mac_loop nd nc (t @ u) = (case mac_loop nd nc t of None \<Rightarrow> None | Some (nd', nc') \<Rightarrow> mac_loop nd' nc' u)"
  by (induction nd nc t rule: mac_loop.induct) auto

lemma mac_loop_bounds: "mac_loop nd nc t = Some (nd', nc') \<Longrightarrow> nd \<le> 2 \<Longrightarrow> nc \<le> 5 \<Longrightarrow> nd' \<le> 2 \<and> nc' \<le> 5"
  by (induction nd nc t rule: mac_loop.induct) (auto split: if_splits)

lemma mac_extend: "nd \<le> 2 \<Longrightarrow> nc \<le> 5 \<Longrightarrow> \<exists>u nd'. mac_loop nd nc u = Some (nd', 5) \<and> 0 < nd'"
proof (induction "5 - nc" arbitrary: nd nc)
  case 0
  then have "mac_loop nd nc (if nd = 0 then ''0'' else []) = Some (if nd = 0 then 1 else nd, 5)" by simp
  then show ?case by (metis gr0I zero_less_one)
next
  case (Suc k)
  have "k = 5 - Suc nc" "Suc nc \<le> 5" using Suc(2) by linarith+
  from Suc(1) [OF this(1) _ this(2), of 0] obtain u nd' where u: "mac_loop 0 (Suc nc) u = Some (nd', 5)" "0 < nd'" by auto
  have "mac_loop nd nc ((if nd = 0 then ''0:'' else '':'') @ u) = Some (nd', 5)" using u Suc(2-) by auto
  with u(2) show ?case by blast
qed

lemma mac_loop_split:
  assumes "nd \<le> 2" "nc \<le> 5"
  shows "(\<exists>nd'. mac_loop nd nc t = Some (nd', 5) \<and> 0 < nd') \<longleftrightarrow>
    nc + length (split_at (CHR '':'') t) = 6 \<and> 1 \<le> nd + length (hd (split_at (CHR '':'') t)) \<and> nd + length (hd (split_at (CHR '':'') t)) \<le> 2 \<and>
    list_all isxdigit (hd (split_at (CHR '':'') t)) \<and> list_all (\<lambda>g. 1 \<le> length g \<and> length g \<le> 2 \<and> list_all isxdigit g) (tl (split_at (CHR '':'') t))"
  using assms
proof (induction t arbitrary: nd nc)
  case (Cons c t)
  obtain g gs where g: "split_at (CHR '':'') t = g # gs" by (meson neq_Nil_conv split_ne)
  consider "nd = 0" | "nd = 1" | "nd = 2" using Cons.prems by linarith
  then show ?case using Cons.IH [of "Suc nd" nc] Cons.IH [of 0 "Suc nc"] Cons.prems
    by cases (auto simp: g numeral_2_eq_2)
qed auto

lemma cons_split: "P (hd (split_at s t)) \<and> list_all P (tl (split_at s t)) \<longleftrightarrow> list_all P (split_at s t)"
  by (cases "split_at s t") (use split_ne in auto)

lemma mac_lang_loop: "mac_lang t \<longleftrightarrow> (\<exists>nd. mac_loop 0 0 t = Some (nd, 5) \<and> 0 < nd)"
  unfolding mac_lang_def cons_split [symmetric] using mac_loop_split [of 0 0 t] by auto

interpretation macaddr: token_matcher cparser_match_macaddr mac_lang
proof
  fix t :: string
  show "\<exists>r b. cparser_match_macaddr t = Inr (r, b) \<and> (r = CPARSER_OK \<longleftrightarrow> (\<exists>u. mac_lang (t @ u))) \<and> (r = CPARSER_OK \<longrightarrow> b = mac_lang t)"
  proof (cases "mac_loop 0 0 t")
    case (Some s)
    obtain nd nc where s: "s = (nd, nc)" by (cases s)
    with Some mac_loop_bounds have "nd \<le> 2" "nc \<le> 5" by blast+
    from mac_extend [OF this] have "\<exists>u. mac_lang (t @ u)" using Some by (auto simp: mac_lang_loop mac_loop_append s)
    then show ?thesis using Some by (auto simp: cparser_match_macaddr_def mac_lang_loop s)
  qed (auto simp: cparser_match_macaddr_def mac_lang_loop mac_loop_append)
qed

lemma ip_loop_append: "\<exists>p' q'. ip_loop nd dots p q (t @ u) = (case ip_loop nd dots p q t of None \<Rightarrow> None | Some (nd', dots') \<Rightarrow> ip_loop nd' dots' p' q' u)"
  by (induction nd dots p q t rule: ip_loop.induct) auto

lemma ip_loop_bounds: "ip_loop nd dots p q t = Some (nd', dots') \<Longrightarrow> nd \<le> 3 \<Longrightarrow> dots \<le> 3 \<Longrightarrow> nd' \<le> 3 \<and> dots' \<le> 3"
  by (induction nd dots p q t rule: ip_loop.induct) (auto split: if_splits)

lemma ip_extend: "nd \<le> 3 \<Longrightarrow> dots \<le> 3 \<Longrightarrow> \<exists>u. \<forall>p q. \<exists>nd'. ip_loop nd dots p q u = Some (nd', 3) \<and> 0 < nd'"
proof (induction "3 - dots" arbitrary: nd dots)
  case 0
  then have "\<forall>p q. ip_loop nd dots p q (if nd = 0 then ''0'' else []) = Some (if nd = 0 then 1 else nd, 3)" by simp
  then show ?case by (metis gr0I zero_less_one)
next
  case (Suc k)
  have d: "k = 3 - Suc dots" "Suc dots \<le> 3" using Suc(2) by linarith+
  obtain u where u: "\<forall>p q. \<exists>nd'. ip_loop 0 (Suc dots) p q u = Some (nd', 3) \<and> 0 < nd'" using Suc(1) [OF d(1) _ d(2), of 0] by auto
  have "\<forall>p q. \<exists>nd'. ip_loop nd dots p q ((if nd = 0 then ''0.'' else ''.'') @ u) = Some (nd', 3) \<and> 0 < nd'" using u Suc(2-) by auto
  then show ?case by blast
qed

lemma number_snoc: "number b (s @ [c]) = number b s * b + xdigit c" "number b [] = 0"
  by (simp_all add: number_def)

lemma number3: "number 10 [a, b, c] = xdigit a * 100 + xdigit b * 10 + xdigit c" "number 10 [a, b] = xdigit a * 10 + xdigit b" "number 10 [a] = xdigit a"
  by (simp_all add: number_def)

lemma strncmp_255:
  assumes "isdigit a" "isdigit b" "isdigit c"
  shows "0 < strncmp [a, b, c] ''255'' 3 \<longleftrightarrow> 255 < number 10 [a, b, c]"
proof -
  have d: "code a \<le> 57" "code b \<le> 57" "code c \<le> 57" "48 \<le> code a" "48 \<le> code b" "48 \<le> code c" using assms by (auto simp: isdigit_def)
  have l: "code (CHR ''2'') = 50" "code (CHR ''5'') = 53" by (simp_all add: code_def)
  have z: "a \<noteq> CHR 0x00" "b \<noteq> CHR 0x00" "c \<noteq> CHR 0x00" using assms by auto
  have e: "a = CHR ''2'' \<longleftrightarrow> code a = 50" "b = CHR ''5'' \<longleftrightarrow> code b = 53" "c = CHR ''5'' \<longleftrightarrow> code c = 53"
    using l code_eq by metis+
  show ?thesis using d z unfolding numeral_3_eq_3
    by (simp add: char_at_def number3 isdigit_xdigit(2) assms l e) linarith
qed

lemma ip_loop_split:
  assumes "dots \<le> 3" "length o1 \<le> 3" "list_all isdigit o1" "number 10 o1 \<le> 255" "length o1 = 1 \<Longrightarrow> o1 = [q]" "length o1 = 2 \<Longrightarrow> o1 = [p, q]"
  shows "(\<exists>nd'. ip_loop (length o1) dots p q t = Some (nd', 3) \<and> 0 < nd') \<longleftrightarrow>
    dots + length (split_at (CHR ''.'') t) = 4 \<and> octet (o1 @ hd (split_at (CHR ''.'') t)) \<and> list_all octet (tl (split_at (CHR ''.'') t))"
  using assms
proof (induction t arbitrary: dots o1 p q)
  case (Cons c t)
  obtain g gs where g: "split_at (CHR ''.'') t = g # gs" by (meson neq_Nil_conv split_ne)
  have n: "number 10 [] \<le> 255" by (simp add: number_def)
  consider "c = CHR ''.''" | "c \<noteq> CHR ''.''" "\<not> isdigit c" | "isdigit c" by blast
  then show ?case
  proof cases
    case 1
    have "ip_loop (length o1) dots p q (c # t) = (if o1 = [] \<or> dots = 3 then None else ip_loop 0 (Suc dots) q c t)"
      using Cons.prems(1,2) by (auto simp: 1)
    moreover have "split_at (CHR ''.'') (c # t) = [] # g # gs" by (simp add: 1 g)
    moreover have "octet (o1 @ []) \<longleftrightarrow> o1 \<noteq> []" using Cons.prems by (cases o1) (auto simp: octet_def)
    moreover have "(\<exists>nd'. ip_loop 0 (Suc dots) q c t = Some (nd', 3) \<and> 0 < nd') \<longleftrightarrow> dots + length gs = 2 \<and> octet g \<and> list_all octet gs" if "dots \<noteq> 3"
      using Cons.IH [of "Suc dots" "[]" c q] n Cons.prems(1) that by (simp add: g)
    ultimately show ?thesis by (cases "o1 = []"; cases "dots = 3"; simp only: list.sel list.size list.pred_inject option.simps simp_thms) simp_all
  next
    case 2
    have "ip_loop (length o1) dots p q (c # t) = None" using 2 by simp
    moreover have "\<not> octet (o1 @ c # g)" using 2 by (simp add: octet_def)
    ultimately show ?thesis using 2 by (simp add: g)
  next
    case 3
    then have c: "c \<noteq> CHR ''.''" by auto
    consider "o1 = []" | "o1 = [q]" | "o1 = [p, q]" | "length o1 = 3" using Cons.prems(2,5,6) by (metis length_0_conv le_Suc_eq le_zero_eq numeral_2_eq_2 numeral_3_eq_3 One_nat_def)
    then show ?thesis
    proof cases
      case o1: 1
      have "number 10 [c] \<le> 255" using isdigit_xdigit(3) [OF 3] by (simp add: number3)
      then show ?thesis using Cons.IH [of dots "[c]" c q] Cons.prems(1) 3 c by (simp add: o1 g)
    next
      case o1: 2
      have "number 10 [q, c] \<le> 255" using isdigit_xdigit(3) [OF 3] isdigit_xdigit(3) [of q] Cons.prems(3) by (simp add: number3 o1)
      then show ?thesis using Cons.IH [of dots "[q, c]" c q] Cons.prems(1,3) 3 c by (simp add: o1 g numeral_2_eq_2)
    next
      case o1: 3
      have s: "0 < strncmp [p, q, c] ''255'' 3 \<longleftrightarrow> 255 < number 10 [p, q, c]" using Cons.prems(3) 3 by (intro strncmp_255) (simp_all add: o1)
      have "\<not> octet (p # q # c # g)" if "255 < number 10 [p, q, c]" using that by (cases g) (auto simp: octet_def)
      then show ?thesis using Cons.IH [of dots "[p, q, c]" c q] Cons.prems(1,3) 3 c s by (simp add: o1 g numeral_2_eq_2 numeral_3_eq_3)
    next
      case 4
      then show ?thesis using c by (simp add: octet_def g)
    qed
  qed
qed (auto simp: octet_def Suc_le_eq)

lemma ip_lang_loop: "ip_lang t \<longleftrightarrow> (\<exists>nd. ip_loop 0 0 p q t = Some (nd, 3) \<and> 0 < nd)"
  unfolding ip_lang_def cons_split [symmetric] using ip_loop_split [of 0 "[]" q p t] by (auto simp: number_def)

interpretation ipv4addr: token_matcher cparser_match_ipv4addr ip_lang
proof
  fix t :: string
  let ?z = "CHR 0x00"
  note l = ip_lang_loop [of _ ?z ?z]
  show "\<exists>r b. cparser_match_ipv4addr t = Inr (r, b) \<and> (r = CPARSER_OK \<longleftrightarrow> (\<exists>u. ip_lang (t @ u))) \<and> (r = CPARSER_OK \<longrightarrow> b = ip_lang t)"
  proof (cases "ip_loop 0 0 ?z ?z t")
    case None
    then have "\<not> ip_lang (t @ u)" for u using ip_loop_append [of 0 0 ?z ?z t u] by (auto simp: l)
    then show ?thesis using None by (auto simp: cparser_match_ipv4addr_def)
  next
    case (Some s)
    obtain nd dots where s: "s = (nd, dots)" by (cases s)
    with Some ip_loop_bounds have "nd \<le> 3" "dots \<le> 3" by blast+
    from ip_extend [OF this] obtain u where "\<forall>p q. \<exists>nd'. ip_loop nd dots p q u = Some (nd', 3) \<and> 0 < nd'" by blast
    then have "ip_lang (t @ u)" using ip_loop_append [of 0 0 ?z ?z t u] Some by (fastforce simp: l s)
    then show ?thesis using Some by (auto simp: cparser_match_ipv4addr_def l s)
  qed
qed

end
