(* ===== verification/CpValue.thy ===== *)
theory CpValue
  imports CpMatch Hash
begin

text \<open>What the value functions of \<open>cparser_token.c\<close> return for the tokens the matchers call complete.\<close>

section \<open>Numbers\<close>

lemma number_cons_digits: "number b (s @ [c]) div b = number b s" if "xdigit c < b"
  using that by (simp add: number_snoc)

lemma dec_loop_snoc: "dec_loop old (s @ [c]) = rbind (dec_loop old s) (\<lambda>(rc, v). if rc = CPARSER_OK then dec_loop v [c] else Inr (rc, v))"
  by (induction old s rule: dec_loop.induct) (auto simp: Let_def)

lemma hex_loop_snoc: "hex_loop old (s @ [c]) = rbind (hex_loop old s) (\<lambda>(rc, v). if rc = CPARSER_OK then hex_loop v [c] else Inr (rc, v))"
  by (induction old s rule: hex_loop.induct) (auto simp: Let_def)

text \<open>The test of the decimal loop finds an overflow of the multiplication, not of the addition.\<close>

lemma mul10_test:
  assumes "v < 2 ^ LENGTH('a)" "4 \<le> LENGTH('a)"
  shows "((of_nat v * 10 :: 'a::len word) div 10 = of_nat v) \<longleftrightarrow> v * 10 < 2 ^ LENGTH('a)"
proof -
  have p: "(2 :: nat) ^ 4 \<le> 2 ^ LENGTH('a)" using assms(2) by (intro power_increasing) simp_all
  then have t: "unat (10 :: 'a word) = 10" by (simp add: unat_numeral take_bit_nat_eq_self_iff)
  have m: "unat (of_nat v * 10 :: 'a word) = v * 10 mod 2 ^ LENGTH('a)"
    unfolding unat_word_ariths t unat_of_nat using assms(1) by simp
  have "((of_nat v * 10 :: 'a word) div 10 = of_nat v) \<longleftrightarrow> (v * 10 mod 2 ^ LENGTH('a)) div 10 = v"
    unfolding word_unat_eq_iff unat_div m t using assms(1) by (simp add: unat_of_nat)
  also have "\<dots> \<longleftrightarrow> v * 10 < 2 ^ LENGTH('a)"
  proof (cases "v * 10 < 2 ^ LENGTH('a)")
    case False
    moreover have "v * 10 mod 2 ^ LENGTH('a) < 2 ^ LENGTH('a)" by simp
    ultimately have "v * 10 mod 2 ^ LENGTH('a) < v * 10" by linarith
    then have "(v * 10 mod 2 ^ LENGTH('a)) div 10 < v" by linarith
    with False show ?thesis by simp
  qed simp
  finally show ?thesis .
qed

lemma dec_loop_exact:
  assumes "list_all isdigit s" "number 10 s div 10 < 2 ^ LENGTH('a)" "4 \<le> LENGTH('a)"
  shows "dec_loop (0 :: 'a::len word) s =
    Inr (if number 10 s div 10 * 10 < 2 ^ LENGTH('a) then (CPARSER_OK, of_nat (number 10 s)) else (CPARSER_NOT_OK, 0))"
  using assms
proof (induction s rule: rev_induct)
  case (snoc c s)
  have c: "isdigit c" "xdigit c < 10" "xdigit c = code c - 48" using snoc.prems(1) isdigit_xdigit by auto
  have d: "number 10 (s @ [c]) div 10 = number 10 s" by (rule number_cons_digits) (rule c(2))
  then have v: "number 10 s < 2 ^ LENGTH('a)" using snoc.prems(2) by simp
  moreover have "number 10 s div 10 * 10 \<le> number 10 s" by (rule div_times_less_eq_dividend)
  moreover have "number 10 s div 10 \<le> number 10 s" by (rule div_le_dividend)
  ultimately have i: "dec_loop (0 :: 'a word) s = Inr (CPARSER_OK, of_nat (number 10 s))" using snoc by simp
  show ?case unfolding d dec_loop_snoc i
    using mul10_test [OF v snoc.prems(3)] c by (simp add: Let_def number_snoc)
qed (simp add: number_def)

lemma shift4_test:
  assumes "v < 2 ^ LENGTH('a)" "4 \<le> LENGTH('a)"
  shows "drop_bit 4 (push_bit 4 (of_nat v :: 'a::len word)) = of_nat v \<longleftrightarrow> v * 16 < 2 ^ LENGTH('a)"
proof -
  have p: "(2 :: nat) ^ LENGTH('a) = 16 * 2 ^ (LENGTH('a) - 4)" using power_add [of "2 :: nat" 4 "LENGTH('a) - 4"] assms(2) by simp
  have "unat (drop_bit 4 (push_bit 4 (of_nat v :: 'a word))) = (v * 16 mod 2 ^ LENGTH('a)) div 16"
    unfolding push_bit_of_nat unat_drop_bit_eq unat_of_nat by (simp add: push_bit_eq_mult drop_bit_eq_div)
  then have "drop_bit 4 (push_bit 4 (of_nat v :: 'a word)) = of_nat v \<longleftrightarrow> (v * 16 mod 2 ^ LENGTH('a)) div 16 = v"
    using assms(1) by (simp add: word_unat_eq_iff unat_of_nat)
  also have "\<dots> \<longleftrightarrow> v * 16 < 2 ^ LENGTH('a)"
  proof (cases "v * 16 < 2 ^ LENGTH('a)")
    case False
    have "v * 16 mod 2 ^ LENGTH('a) div 16 = v mod 2 ^ (LENGTH('a) - 4)" unfolding p by simp
    moreover have "v mod 2 ^ (LENGTH('a) - 4) < 2 ^ (LENGTH('a) - 4)" by simp
    ultimately have "v * 16 mod 2 ^ LENGTH('a) div 16 \<noteq> v" using False p by linarith
    with False show ?thesis by simp
  qed simp
  finally show ?thesis .
qed


lemma hex_loop_exact:
  assumes "list_all isxdigit s" "4 \<le> LENGTH('a)"
  shows "hex_loop (0 :: 'a::len word) s = Inr (if number 16 s < 2 ^ LENGTH('a) then (CPARSER_OK, of_nat (number 16 s)) else (CPARSER_NOT_OK, 0))"
  using assms
proof (induction s rule: rev_induct)
  case (snoc c s)
  have c: "isxdigit c" "xdigit c < 16" using snoc.prems(1) isdigit_xdigit by auto
  have p: "(2 :: nat) ^ LENGTH('a) = 16 * 2 ^ (LENGTH('a) - 4)" using power_add [of "2 :: nat" 4 "LENGTH('a) - 4"] assms(2) by simp
  have n: "number 16 (s @ [c]) < 2 ^ LENGTH('a) \<longleftrightarrow> number 16 s * 16 < 2 ^ LENGTH('a)"
    using c(2) unfolding number_snoc p by auto
  show ?case
  proof (cases "number 16 s < 2 ^ LENGTH('a)")
    case True
    then have i: "hex_loop (0 :: 'a word) s = Inr (CPARSER_OK, of_nat (number 16 s))" using snoc by simp
    have w: "push_bit 4 (of_nat (number 16 s)) + of_nat (xdigit c) = (of_nat (number 16 (s @ [c])) :: 'a word)"
      by (simp add: number_snoc push_bit_of_nat push_bit_eq_mult)
    show ?thesis unfolding n hex_loop_snoc i using shift4_test [OF True assms(2)] c(1) w by (simp add: Let_def)
  next
    case False
    then have "\<not> number 16 s * 16 < 2 ^ LENGTH('a)" by simp
    then show ?thesis unfolding n hex_loop_snoc using snoc False by simp
  qed
qed (simp add: number_def)

section \<open>Theorems\<close>

text \<open>A token as it is on the stack: its characters, then zeros.\<close>

definition holds :: "token \<Rightarrow> string \<Rightarrow> bool" where
  "holds k t \<longleftrightarrow> token_len k = length t \<and> 0 < length t \<and> length t < CPARSER_MAX_TOKEN_SIZE \<and> CHR 0x00 \<notin> set t \<and>
     tbuf k = t @ replicate (CPARSER_MAX_TOKEN_SIZE - length t) (CHR 0x00)"

lemma holds_chars:
  assumes "holds k t"
  shows "tok_chars k = t" "c_text (tbuf k) = t" "token_len k = length t" "i < length t \<Longrightarrow> tbuf k ! i = t ! i" "2 \<le> length t \<Longrightarrow> take 2 (tbuf k) = take 2 t"
  using assms by (auto simp: holds_def tok_chars_def c_text_def nth_append takeWhile_append takeWhile_replicate)

lemma dec_second: "dec_lang t \<Longrightarrow> i < length t \<Longrightarrow> t ! i \<noteq> CHR ''x''"
  by (metis digit_ne(1) dec_lang_def list_all_length)

lemma get_uint_dec:
  assumes "holds k t" "dec_lang t" "number 10 t div 10 < 2 ^ LENGTH('a)" "4 \<le> LENGTH('a)"
  shows "(get_uint k :: (cp_result \<times> 'a::len word) res) =
    Inr (if number 10 t div 10 * 10 < 2 ^ LENGTH('a) then (CPARSER_OK, of_nat (number 10 t)) else (CPARSER_NOT_OK, 0))"
  using assms dec_second [OF assms(2), of 1] holds_chars [OF assms(1)] dec_loop_exact [of t, where 'a = 'a]
  by (auto simp: get_uint_def dec_lang_def)

lemma get_hex_exact:
  assumes "holds k t" "hex_lang t" "4 \<le> LENGTH('a)"
  shows "(get_hex k :: (cp_result \<times> 'a::len word) res) =
    Inr (if number 16 (drop 2 t) < 2 ^ LENGTH('a) then (CPARSER_OK, of_nat (number 16 (drop 2 t))) else (CPARSER_NOT_OK, 0))"
  using assms holds_chars [OF assms(1)] hex_loop_exact [of "drop 2 t", where 'a = 'a]
  by (auto simp: get_hex_def hex_lang_def)

text \<open>Scanning a text of groups of digits.\<close>

lemma dropWhile_first: "t \<noteq> [] \<Longrightarrow> \<not> P (hd t) \<Longrightarrow> dropWhile P t = t"
  by (cases t) auto

lemma digit_not_space: "isxdigit c \<Longrightarrow> \<not> isspace c \<and> c \<noteq> CHR ''-'' \<and> c \<noteq> CHR ''+'' \<and> c \<noteq> CHR ''x'' \<and> c \<noteq> CHR ''X''"
  by (auto simp: isspace_def isxdigit_def isdigit_def code_def)

lemma number_less: "list_all (\<lambda>c. xdigit c < b) g \<Longrightarrow> 0 < b \<Longrightarrow> number b g < b ^ length g"
proof (induction g rule: rev_induct)
  case (snoc c g)
  then have "number b g < b ^ length g" "xdigit c < b" by auto
  then have "number b g * b + xdigit c < (number b g + 1) * b" by simp
  also have "\<dots> \<le> b ^ length g * b" using \<open>number b g < b ^ length g\<close> by (intro mult_right_mono) simp_all
  finally show ?case by (simp add: number_snoc mult.commute)
qed (simp add: number_def)

lemma scan_group:
  assumes "g \<noteq> []" "length g \<le> 16" "base = 10 \<and> list_all isdigit g \<or> base = 16 \<and> list_all isxdigit g" "rest = [] \<or> \<not> isxdigit (hd rest) \<and> hd rest \<notin> {CHR ''x'', CHR ''X''}"
  shows "scan_ulong base (g @ rest) = Some (number base g, rest)"
proof -
  have x: "list_all isxdigit g" using assms(3) by (auto simp: list_all_iff isdigit_xdigit)
  obtain c cs where g: "g = c # cs" using assms(1) by (cases g) auto
  have c: "isxdigit c" using x g by simp
  have two: "take 2 (g @ rest) \<notin> {''0x'', ''0X''}"
    using x assms(4) digit_not_space by (cases cs; cases rest) (auto simp: g)
  have "list_all (\<lambda>c. xdigit c < base) g" using assms(3) isdigit_xdigit by (auto simp: list_all_iff)
  then have "number base g < base ^ length g" using assms(3) by (intro number_less) auto
  also have "\<dots> \<le> 16 ^ length g" using assms(3) by (auto intro: power_mono)
  also have "\<dots> \<le> 16 ^ 16" using assms(2) by (intro power_increasing) simp_all
  finally have n: "number base g < ULONG" by (simp add: ULONG_def)
  let ?d = "if base = 16 then isxdigit else isdigit"
  have d: "list_all ?d g" "rest = [] \<or> \<not> ?d (hd rest)" using assms(3,4) isdigit_xdigit(1) by auto
  then have t: "takeWhile ?d (g @ rest) = g" "dropWhile ?d (g @ rest) = rest"
    by (cases rest; auto simp: list_all_iff takeWhile_append dropWhile_append)+
  have s: "dropWhile isspace (g @ rest) = g @ rest" "char_at (g @ rest) = c" using digit_not_space [OF c] by (auto simp: g char_at_def)
  show ?thesis
    unfolding scan_ulong_def Let_def s using t two n digit_not_space [OF c] assms(1,3) by auto
qed

lemma scan_groups:
  assumes "gs \<noteq> []" "base = 10 \<or> base = 16" "sep \<in> {CHR ''.'', CHR '':''}"
    "\<forall>g \<in> set gs. g \<noteq> [] \<and> length g \<le> 16 \<and> (base = 10 \<and> list_all isdigit g \<or> base = 16 \<and> list_all isxdigit g)"
  shows "scan_numbers base sep (length gs) (join_with sep gs) = map (number base) gs"
  using assms(1,4)
proof (induction gs)
  case (Cons g gs)
  have "\<not> isxdigit sep \<and> sep \<notin> {CHR ''x'', CHR ''X''}" using assms(3) by auto
  then have s: "scan_ulong base (g @ rest) = Some (number base g, rest)" if "rest = [] \<or> hd rest = sep" for rest
    using Cons.prems that by (intro scan_group) auto
  show ?case using s [of "[]"] s [of "sep # join_with sep gs"] Cons by (cases gs) (auto simp: char_at_def)
qed simp

lemma join_four: "length gs = 4 \<Longrightarrow> \<exists>a b c d. gs = [a, b, c, d]"
  by (auto simp: numeral_eq_Suc length_Suc_conv)

lemma ip_word:
  assumes "a \<le> 255" "b \<le> 255" "c \<le> 255" "d \<le> 255"
  shows "push_bit 24 (of_nat a) OR push_bit 16 (of_nat b) OR push_bit 8 (of_nat c) OR of_nat d = (of_nat (a * 2 ^ 24 + b * 2 ^ 16 + c * 2 ^ 8 + d) :: u32)"
proof -
  have u: "of_nat n = (ucast (of_nat n :: u8) :: u32)" if "n \<le> 255" for n
    using that by (simp add: word_unat_eq_iff unsigned_ucast_eq unat_of_nat take_bit_eq_mod)
  show ?thesis using byte_sum [of "of_nat d" "of_nat c" "of_nat b" "of_nat a"]
    by (simp add: u [symmetric] assms un32_def push_bit_eq_mult algebra_simps)
qed

text \<open>The tokens of a node.\<close>

definition node_lang :: "node \<Rightarrow> string \<Rightarrow> bool" where
  "node_lang n t = (case ntype n of
     NODE_KEYWORD \<Rightarrow> t = param_text (nparam n)
   | NODE_UINT \<Rightarrow> dec_lang t \<or> hex_lang t | NODE_UINT64 \<Rightarrow> dec_lang t \<or> hex_lang t
   | NODE_INT \<Rightarrow> int_lang t | NODE_INT64 \<Rightarrow> int_lang t
   | NODE_HEX \<Rightarrow> hex_lang t | NODE_HEX64 \<Rightarrow> hex_lang t
   | NODE_MACADDR \<Rightarrow> mac_lang t | NODE_IPV4ADDR \<Rightarrow> ip_lang t
   | _ \<Rightarrow> True)"




definition token_of :: "string \<Rightarrow> token" where
  "token_of t = \<lparr>begin_ptr = 0, token_len = length t, tbuf = t @ replicate (CPARSER_MAX_TOKEN_SIZE - length t) (CHR 0x00), tparent = None, tnode = None\<rparr>"


text \<open>
  Values of addresses: for a token the matcher calls an IPv4 address the value is the number with its
  four groups as bytes, the first one highest, and for a MAC address the octets are its six groups.
\<close>

theorem get_address_exact:
  assumes "holds k t"
  shows "(ip_lang t \<longrightarrow> (\<exists>a b c d. map (number 10) (split_at (CHR ''.'') t) = [a, b, c, d] \<and> a \<le> 255 \<and> b \<le> 255 \<and> c \<le> 255 \<and> d \<le> 255 \<and>
      cparser_get_ipv4addr k = (CPARSER_OK, of_nat (a * 2 ^ 24 + b * 2 ^ 16 + c * 2 ^ 8 + d)))) \<and>
    (mac_lang t \<longrightarrow> list_all (\<lambda>n. n \<le> 255) (map (number 16) (split_at (CHR '':'') t)) \<and>
      cparser_get_macaddr k = (CPARSER_OK, map of_nat (map (number 16) (split_at (CHR '':'') t))))"
proof (intro conjI impI)
  note k = holds_chars(2,3) [OF assms]
  have l: "0 < length t" using assms by (simp add: holds_def)
  show "\<exists>a b c d. map (number 10) (split_at (CHR ''.'') t) = [a, b, c, d] \<and> a \<le> 255 \<and> b \<le> 255 \<and> c \<le> 255 \<and> d \<le> 255 \<and>
      cparser_get_ipv4addr k = (CPARSER_OK, of_nat (a * 2 ^ 24 + b * 2 ^ 16 + c * 2 ^ 8 + d))" if ip: "ip_lang t"
  proof -
    obtain p q r s where g: "split_at (CHR ''.'') t = [p, q, r, s]" using ip join_four [of "split_at (CHR ''.'') t"] by (auto simp: ip_lang_def)
    then have o: "octet p" "octet q" "octet r" "octet s" using ip by (simp_all add: ip_lang_def)
    then have "scan_numbers 10 (CHR ''.'') (length [p, q, r, s]) (join_with (CHR ''.'') [p, q, r, s]) = map (number 10) [p, q, r, s]"
      by (intro scan_groups) (auto simp: octet_def)
    then have "scan_numbers 10 (CHR ''.'') 4 t = [number 10 p, number 10 q, number 10 r, number 10 s]"
      using join_split [of "CHR ''.''" t] by (simp del: scan_numbers.simps add: g numeral_eq_Suc)
    then show ?thesis using o l ip_word by (simp add: cparser_get_ipv4addr_def k g octet_def)
  qed
  assume mac: "mac_lang t"
  let ?gs = "split_at (CHR '':'') t"
  have g: "length ?gs = 6" "\<forall>g \<in> set ?gs. 1 \<le> length g \<and> length g \<le> 2 \<and> list_all isxdigit g" using mac by (simp_all add: mac_lang_def list_all_iff)
  show b: "list_all (\<lambda>n. n \<le> 255) (map (number 16) ?gs)"
  proof -
    have "number 16 x \<le> 255" if "x \<in> set ?gs" for x
    proof -
      have "number 16 x < 16 ^ length x" using g(2) that isdigit_xdigit(4) by (intro number_less) (auto simp: list_all_iff)
      also have "\<dots> \<le> 16 ^ 2" using g(2) that by (intro power_increasing) auto
      finally show ?thesis by simp
    qed
    then show ?thesis by (simp add: list_all_iff)
  qed
  have "scan_numbers 16 (CHR '':'') (length ?gs) (join_with (CHR '':'') ?gs) = map (number 16) ?gs"
    using g by (intro scan_groups) auto
  then have "scan_numbers 16 (CHR '':'') 6 t = map (number 16) ?gs" using g(1) by (simp add: join_split)
  then show "cparser_get_macaddr k = (CPARSER_OK, map of_nat (map (number 16) ?gs))"
    using l b g(1) by (auto simp: cparser_get_macaddr_def k list_ex_iff list_all_iff)
qed

theorem get_address_exact_witness:
  "cparser_get_ipv4addr (token_of ''192.168.1.20'') = (CPARSER_OK, 0xC0A80114) \<and> cparser_get_macaddr (token_of ''0:1b:2C:3:4:ff'') = (CPARSER_OK, [0, 0x1b, 0x2c, 3, 4, 0xff])"
proof -
  have h: "holds (token_of t) t" if "t \<in> {''192.168.1.20'', ''0:1b:2C:3:4:ff''}" for t
    using that by (auto simp: holds_def token_of_def CPARSER_MAX_TOKEN_SIZE_def)
  have l: "ip_lang ''192.168.1.20''" "mac_lang ''0:1b:2C:3:4:ff''" by code_simp+
  have n: "map (number 10) (split_at (CHR ''.'') ''192.168.1.20'') = [192, 168, 1, 20]" "map (number 16) (split_at (CHR '':'') ''0:1b:2C:3:4:ff'') = [0, 27, 44, 3, 4, 255]"
    by code_simp+
  have "cparser_get_ipv4addr (token_of ''192.168.1.20'') = (CPARSER_OK, of_nat (192 * 2 ^ 24 + 168 * 2 ^ 16 + 1 * 2 ^ 8 + 20))"
    using conjunct1 [OF get_address_exact [OF h, of "''192.168.1.20''"]] l(1) unfolding n(1) by fastforce
  moreover have "cparser_get_macaddr (token_of ''0:1b:2C:3:4:ff'') = (CPARSER_OK, map of_nat [0, 27, 44, 3, 4, 255])"
    using conjunct2 [OF get_address_exact [OF h, of "''0:1b:2C:3:4:ff''"]] l(2) unfolding n(2) by blast
  ultimately show ?thesis by simp
qed

text \<open>Numbers that start with a point cannot be typed, and the first keyword of a list that is a prefix of the token wins.\<close>

lemma float_no_leading_point: "cparser_match_float (CHR ''.'' # c # d # t) = Inr (CPARSER_NOT_OK, False)" "cparser_match_float ''.'' = Inr (CPARSER_NOT_OK, False)"
  by (simp_all add: cparser_match_float_def char_at_def)

lemma list_prefix_keyword:
  "cparser_match_list [''on'', ''once''] ''on'' = Inr (CPARSER_OK, False)"
  "cparser_get_list ((token_of ''once'')\<lparr>tnode := Some (Node NODE_LIST 0 (Keywords [''on'', ''once'']) None [])\<rparr>) = Inr (CPARSER_OK, Some ''on'')"
  by code_simp+

end
