(* ===== verification/CpLine.thy ===== *)
theory CpLine
  imports CpToken
begin

text \<open>
  The state of the command parser (\<open>mgrplane/src/client/cparser.h\<close>) and its line buffers
  (\<open>cparser_line.c\<close>, \<open>cparser_line.h\<close>). What \<open>printc\<close> and \<open>prints\<close> (\<open>cparser_io_unix.c\<close>) write is the field
  \<open>out\<close>; writing to a descriptor other than -1 succeeds.
\<close>

section \<open>State\<close>

definition CPARSER_MAX_LINE_SIZE :: nat where
  "CPARSER_MAX_LINE_SIZE = 383"

definition CPARSER_MAX_LINES :: nat where
  "CPARSER_MAX_LINES = 10"

definition CPARSER_MAX_NUM_TOKENS :: nat where
  "CPARSER_MAX_NUM_TOKENS = 32"

definition CPARSER_MAX_NESTED_LEVELS :: nat where
  "CPARSER_MAX_NESTED_LEVELS = 4"

definition CPARSER_MAX_PROMPT :: nat where
  "CPARSER_MAX_PROMPT = 16"

record cp_line =
  llast :: nat
  lcurrent :: nat
  lbuf :: string

record cp_cfg =
  croot :: "node option"
  ch_complete :: char
  ch_erase :: char
  ch_del :: char
  ch_help :: char
  cprompt :: string
  fd :: int
  cdebug :: bool

datatype cp_state = STATE_WHITESPACE | STATE_TOKEN | STATE_ERROR

text \<open>The input a command asks the user for: the buffer, its size and the function that gets the input.\<close>

record user_input =
  user_buf :: string
  user_buf_size :: nat
  user_buf_count :: nat
  user_do_echo :: bool
  user_input_cb :: "nat option"

record parser =
  cfg :: cp_cfg
  root_level :: nat
  roots :: "node option list"
  prompts :: "string list"
  cur_node :: "node option"
  state :: cp_state
  token_tos :: nat
  current_pos :: nat
  last_good :: int
  tokens :: "token list"
  is_privileged_mode :: bool
  max_line :: nat
  cur_line :: nat
  lines :: "cp_line list"
  quitting :: bool
  cookies :: "nat list"
  user :: "user_input option"
  last_line_idx :: int
  last_rc :: cp_result
  last_end_node :: "node option"
  out :: string

definition emit :: "string \<Rightarrow> parser \<Rightarrow> parser" where
  "emit s p = (if fd (cfg p) = -1 then p else p\<lparr>out := out p @ s\<rparr>)"

definition printc :: "char \<Rightarrow> parser \<Rightarrow> parser" where
  "printc c p = emit [c] p"

definition prints :: "string \<Rightarrow> parser \<Rightarrow> parser" where
  "prints s p = emit (c_text s) p"

definition backspaces :: "nat \<Rightarrow> parser \<Rightarrow> parser" where
  "backspaces n p = emit (replicate n (CHR 0x08)) p"

definition cparser_is_in_privileged_mode :: "parser \<Rightarrow> bool" where
  "cparser_is_in_privileged_mode p = is_privileged_mode p"

definition cparser_print_prompt :: "parser \<Rightarrow> parser" where
  "cparser_print_prompt p =
     (let p1 = (if cparser_is_in_privileged_mode p then printc (CHR ''+'') p else p) in
      prints (prompts p1 ! root_level p1) p1)"

section \<open>Line buffers\<close>

definition line_of :: "parser \<Rightarrow> cp_line" where
  "line_of p = lines p ! cur_line p"

definition set_line :: "cp_line \<Rightarrow> parser \<Rightarrow> parser" where
  "set_line l p = p\<lparr>lines := (lines p)[cur_line p := l]\<rparr>"

definition cparser_line_reset :: "cp_line \<Rightarrow> cp_line" where
  "cparser_line_reset l = \<lparr>llast = 0, lcurrent = 0, lbuf = replicate (CPARSER_MAX_LINE_SIZE + 1) (CHR 0x00)\<rparr>"

text \<open>The loops that move the characters behind the cursor by one place.\<close>

fun shift_up :: "string \<Rightarrow> nat \<Rightarrow> nat \<Rightarrow> string" where
  "shift_up buf 0 cur = buf"
| "shift_up buf (Suc n) cur = (if Suc n > cur then shift_up (buf[Suc n := buf ! n]) n cur else buf)"

function shift_down :: "string \<Rightarrow> nat \<Rightarrow> nat \<Rightarrow> string" where
  "shift_down buf n m = (if n < m then shift_down (buf[n - 1 := buf ! n]) (n + 1) m else buf)"
  by pat_completeness auto
termination by (relation "measure (\<lambda>(buf, n, m). m - n)") auto

declare shift_down.simps [simp del]

definition cparser_line_insert :: "char \<Rightarrow> parser \<Rightarrow> cp_result \<times> parser" where
  "cparser_line_insert ch p =
     (let l = line_of p in
      if ch = CHR 0x00 then (CPARSER_ERR_INVALID_PARAMS, p)
      else if CPARSER_MAX_LINE_SIZE \<le> llast l then (CPARSER_ERR_OUT_OF_RES, p)
      else
        let b1 = shift_up (lbuf l) (llast l) (lcurrent l);
            b2 = b1[llast l + 1 := CHR 0x00];
            b3 = b2[lcurrent l := ch];
            l1 = \<lparr>llast = llast l + 1, lcurrent = lcurrent l + 1, lbuf = b3\<rparr>;
            p1 = prints (drop (lcurrent l1) b3) (printc ch (set_line l1 p))
        in (CPARSER_OK, backspaces (llast l1 - lcurrent l1) p1))"

definition cparser_line_delete :: "parser \<Rightarrow> (cp_result \<times> parser) res" where
  "cparser_line_delete p =
     (let l = line_of p in
      if \<not> lcurrent l \<le> llast l then Inl Exit
      else if llast l = 0 \<or> lcurrent l = 0 then Inr (CPARSER_ERR_NOT_EXIST, p)
      else
        let b1 = shift_down (lbuf l) (lcurrent l) (llast l);
            l1 = \<lparr>llast = llast l - 1, lcurrent = lcurrent l - 1, lbuf = b1[llast l - 1 := CHR 0x00]\<rparr>;
            p1 = prints (CHR '' '' # [CHR 0x08]) (prints (drop (lcurrent l1) (lbuf l1)) (printc (CHR 0x08) (set_line l1 p)))
        in Inr (CPARSER_OK, backspaces (llast l1 - lcurrent l1) p1))"

definition cparser_line_print :: "bool \<Rightarrow> bool \<Rightarrow> parser \<Rightarrow> parser" where
  "cparser_line_print print_prompt new_line p =
     (let p1 = (if new_line then printc (CHR 0x0A) p else p);
          p2 = (if print_prompt then cparser_print_prompt p1 else p1);
          l = line_of p2
      in backspaces (llast l - lcurrent l) (prints (lbuf l) p2))"

definition cparser_line_current :: "parser \<Rightarrow> nat" where
  "cparser_line_current p = lcurrent (line_of p)"

definition cparser_line_last :: "parser \<Rightarrow> nat" where
  "cparser_line_last p = llast (line_of p)"

definition cparser_line_current_char :: "parser \<Rightarrow> char" where
  "cparser_line_current_char p = lbuf (line_of p) ! lcurrent (line_of p)"

definition cparser_line_char :: "parser \<Rightarrow> nat \<Rightarrow> char res" where
  "cparser_line_char p pos = (if pos < llast (line_of p) then Inr (lbuf (line_of p) ! pos) else Inl Exit)"

text \<open>The character that is returned, 0 when the cursor cannot be moved.\<close>

definition cparser_line_next_char :: "parser \<Rightarrow> char \<times> parser" where
  "cparser_line_next_char p =
     (let l = line_of p in
      if llast l = lcurrent l then (CHR 0x00, p)
      else let c = lbuf l ! lcurrent l in
        (c, set_line (l\<lparr>lcurrent := lcurrent l + 1\<rparr>) (printc c p)))"

definition cparser_line_prev_char :: "parser \<Rightarrow> char \<times> parser" where
  "cparser_line_prev_char p =
     (let l = line_of p in
      if lcurrent l = 0 then (CHR 0x00, p)
      else (CHR 0x08, set_line (l\<lparr>lcurrent := lcurrent l - 1\<rparr>) (printc (CHR 0x08) p)))"

definition erase_line :: "parser \<Rightarrow> parser" where
  "erase_line p = emit (concat (replicate (cparser_line_last p) [CHR 0x08, CHR '' '', CHR 0x08])) p"

definition cparser_line_next_line :: "parser \<Rightarrow> parser" where
  "cparser_line_next_line p =
     (let p1 = erase_line p;
          n = cur_line p1 + 1;
          p2 = p1\<lparr>cur_line := (if max_line p1 < n then 0 else n)\<rparr>
      in cparser_line_print False False p2)"

definition cparser_line_prev_line :: "parser \<Rightarrow> parser" where
  "cparser_line_prev_line p =
     (let p1 = erase_line p;
          p2 = p1\<lparr>cur_line := (if cur_line p1 = 0 then max_line p1 else cur_line p1 - 1)\<rparr>
      in cparser_line_print False False p2)"

definition cparser_line_advance :: "parser \<Rightarrow> parser" where
  "cparser_line_advance p =
     (let n = cur_line p + 1;
          p1 = p\<lparr>cur_line := (if CPARSER_MAX_LINES \<le> n then 0 else n)\<rparr>;
          p2 = (if max_line p1 < cur_line p1 then p1\<lparr>max_line := cur_line p1\<rparr> else p1)
      in set_line (cparser_line_reset (line_of p2)) p2)"

section \<open>A line as text before and behind the cursor\<close>

definition line_is :: "cp_line \<Rightarrow> string \<Rightarrow> string \<Rightarrow> bool" where
  "line_is l x y \<longleftrightarrow> lcurrent l = length x \<and> llast l = length x + length y \<and> length x + length y \<le> CPARSER_MAX_LINE_SIZE \<and>
     CHR 0x00 \<notin> set x \<union> set y \<and> lbuf l = x @ y @ replicate (CPARSER_MAX_LINE_SIZE + 1 - (length x + length y)) (CHR 0x00)"

lemma line_is_reset: "line_is (cparser_line_reset l) [] []"
  by (simp add: line_is_def cparser_line_reset_def)

lemma shift_up_text: "shift_up (x @ y @ d # w) (length x + length y) (length x) = x @ hd (y @ [d]) # y @ w"
proof (induction y arbitrary: d w rule: rev_induct)
  case Nil
  show ?case by (cases "length x") auto
next
  case (snoc b y)
  have u: "(x @ (y @ [b]) @ d # w)[Suc (length x + length y) := (x @ (y @ [b]) @ d # w) ! (length x + length y)] = x @ y @ b # b # w"
    by (simp add: list_update_append nth_append)
  have "shift_up (x @ (y @ [b]) @ d # w) (length x + length (y @ [b])) (length x) = shift_up (x @ y @ b # b # w) (length x + length y) (length x)"
    using u by simp
  then show ?case unfolding snoc.IH by (cases y) simp_all
qed

lemma shift_down_text: "shift_down (x @ c # y @ w) (Suc (length x)) (Suc (length x + length y)) = x @ y @ last (c # y) # w"
proof (induction y arbitrary: x c)
  case Nil
  show ?case by (subst shift_down.simps) simp
next
  case (Cons b y)
  have "shift_down (x @ c # (b # y) @ w) (Suc (length x)) (Suc (length x + length (b # y))) =
    shift_down ((x @ [b]) @ b # y @ w) (Suc (length (x @ [b]))) (Suc (length (x @ [b]) + length y))"
    by (subst shift_down.simps) (simp add: list_update_append nth_append)
  then show ?case unfolding Cons.IH by simp
qed

lemma c_text_padded [simp]: "CHR 0x00 \<notin> set y \<Longrightarrow> c_text (y @ replicate n (CHR 0x00)) = y"
  by (induction y) (auto simp: c_text_def takeWhile_replicate)

lemma line_of_set [simp]: "cur_line p < length (lines p) \<Longrightarrow> line_of (set_line l p) = l"
  by (simp add: line_of_def set_line_def)

lemma emit_emit [simp]: "emit t (emit s p) = emit (s @ t) p" "emit [] p = p"
  by (simp_all add: emit_def)

lemma emit_fields [simp]:
  "line_of (emit s p) = line_of p" "lines (emit s p) = lines p" "cur_line (emit s p) = cur_line p" "max_line (emit s p) = max_line p"
  "cfg (emit s p) = cfg p" "set_line l (emit s p) = emit s (set_line l p)"
  "line_of (set_line l p) = (if cur_line p < length (lines p) then l else line_of p)"
  "cur_line (set_line l p) = cur_line p" "length (lines (set_line l p)) = length (lines p)"
  by (auto simp: emit_def line_of_def set_line_def list_update_beyond)

lemmas print_defs = printc_def prints_def backspaces_def

lemma insert_text:
  assumes "line_is l x y" "length x + length y < CPARSER_MAX_LINE_SIZE"
  shows "((shift_up (lbuf l) (llast l) (lcurrent l))[llast l + 1 := CHR 0x00])[lcurrent l := c] =
    x @ c # y @ replicate (CPARSER_MAX_LINE_SIZE - (length x + length y)) (CHR 0x00)"
proof -
  let ?n = "CPARSER_MAX_LINE_SIZE - (length x + length y)"
  obtain k where k: "?n = Suc k" using assms(2) by (metis Suc_diff_Suc)
  have b: "lbuf l = x @ y @ CHR 0x00 # replicate ?n (CHR 0x00)"
    using assms by (simp add: line_is_def Suc_diff_le)
  have s: "shift_up (lbuf l) (llast l) (lcurrent l) = x @ hd (y @ [CHR 0x00]) # y @ replicate ?n (CHR 0x00)"
    using assms(1) shift_up_text [of x y "CHR 0x00" "replicate ?n (CHR 0x00)"] unfolding b by (simp add: line_is_def)
  show ?thesis using assms(1) unfolding s by (simp add: line_is_def list_update_append k)
qed

lemma delete_text:
  assumes "line_is l (x @ [c]) y"
  shows "(shift_down (lbuf l) (lcurrent l) (llast l))[llast l - 1 := CHR 0x00] =
    x @ y @ replicate (CPARSER_MAX_LINE_SIZE + 1 - (length x + length y)) (CHR 0x00)"
proof -
  let ?n = "CPARSER_MAX_LINE_SIZE - (length x + length y)"
  have b: "lbuf l = x @ c # y @ replicate ?n (CHR 0x00)" "length x + length y < CPARSER_MAX_LINE_SIZE" using assms by (simp_all add: line_is_def)
  have s: "shift_down (lbuf l) (lcurrent l) (llast l) = x @ y @ last (c # y) # replicate ?n (CHR 0x00)"
    using assms shift_down_text [of x c y "replicate ?n (CHR 0x00)"] unfolding b(1) by (simp add: line_is_def)
  show ?thesis using assms b(2) unfolding s by (simp add: line_is_def list_update_append Suc_diff_le)
qed

lemma drop_line: "line_is l x y \<Longrightarrow> c_text (drop (lcurrent l) (lbuf l)) = y" "line_is l x y \<Longrightarrow> c_text (lbuf l) = x @ y"
  using c_text_padded [of "x @ y"] by (auto simp: line_is_def)

text \<open>Each operation on the line in terms of the two texts, with what it prints.\<close>

lemma line_insert_is:
  assumes "line_is (line_of p) x y" "length x + length y < CPARSER_MAX_LINE_SIZE" "c \<noteq> CHR 0x00" "cur_line p < length (lines p)"
  shows "\<exists>l. cparser_line_insert c p = (CPARSER_OK, emit (c # y @ replicate (length y) (CHR 0x08)) (set_line l p)) \<and> line_is l (x @ [c]) y"
proof -
  let ?b = "x @ c # y @ replicate (CPARSER_MAX_LINE_SIZE - (length x + length y)) (CHR 0x00)"
  let ?l = "\<lparr>llast = length x + length y + 1, lcurrent = length x + 1, lbuf = ?b\<rparr>"
  have l: "line_is ?l (x @ [c]) y" using assms by (simp add: line_is_def)
  have n: "lcurrent (line_of p) = length x" "llast (line_of p) = length x + length y" using assms(1) by (simp_all add: line_is_def)
  have "c_text (drop (length x + 1) ?b) = y" using drop_line(1) [OF l] by simp
  moreover have "drop (Suc (length x)) ((shift_up (lbuf (line_of p)) (length x + length y) (length x))[Suc (length x + length y) := CHR 0x00]) = drop (length x + 1) ?b"
    using arg_cong [OF insert_text [OF assms(1,2), of c], of "drop (Suc (length x))"] by (simp add: n)
  ultimately show ?thesis using insert_text [OF assms(1,2), of c] assms(2,3) l
    by (intro exI [of _ ?l]) (simp add: cparser_line_insert_def Let_def n not_le print_defs)
qed

lemma line_delete_is:
  assumes "line_is (line_of p) (x @ [c]) y" "cur_line p < length (lines p)"
  shows "\<exists>l. cparser_line_delete p = Inr (CPARSER_OK, emit (CHR 0x08 # y @ CHR '' '' # CHR 0x08 # replicate (length y) (CHR 0x08)) (set_line l p)) \<and>
    line_is l x y"
proof -
  let ?b = "x @ y @ replicate (CPARSER_MAX_LINE_SIZE + 1 - (length x + length y)) (CHR 0x00)"
  let ?l = "\<lparr>llast = length x + length y, lcurrent = length x, lbuf = ?b\<rparr>"
  have l: "line_is ?l x y" using assms by (simp add: line_is_def)
  have n: "lcurrent (line_of p) = length x + 1" "llast (line_of p) = length x + length y + 1" using assms(1) by (simp_all add: line_is_def)
  have "c_text (drop (length x) ?b) = y" using drop_line(1) [OF l] by simp
  moreover have "c_text (CHR '' '' # [CHR 0x08]) = CHR '' '' # [CHR 0x08]" by (simp add: c_text_def)
  ultimately show ?thesis using delete_text [OF assms(1)] l
    by (intro exI [of _ ?l]) (simp add: cparser_line_delete_def Let_def n print_defs)
qed

lemma line_next_is:
  assumes "line_is (line_of p) x (c # y)" "cur_line p < length (lines p)"
  shows "\<exists>l. cparser_line_next_char p = (c, emit [c] (set_line l p)) \<and> line_is l (x @ [c]) y"
  using assms by (intro exI [of _ "(line_of p)\<lparr>lcurrent := Suc (length x)\<rparr>"])
    (auto simp: cparser_line_next_char_def Let_def line_is_def printc_def nth_append)

lemma line_prev_is:
  assumes "line_is (line_of p) (x @ [c]) y" "cur_line p < length (lines p)"
  shows "\<exists>l. cparser_line_prev_char p = (CHR 0x08, emit [CHR 0x08] (set_line l p)) \<and> line_is l x (c # y)"
  using assms by (intro exI [of _ "(line_of p)\<lparr>lcurrent := length x\<rparr>"])
    (auto simp: cparser_line_prev_char_def Let_def line_is_def printc_def)

lemma line_at_ends:
  "line_is (line_of p) x [] \<Longrightarrow> cparser_line_next_char p = (CHR 0x00, p)"
  "line_is (line_of p) [] y \<Longrightarrow> cparser_line_prev_char p = (CHR 0x00, p)"
  "line_is (line_of p) [] y \<Longrightarrow> cparser_line_delete p = Inr (CPARSER_ERR_NOT_EXIST, p)"
  by (auto simp: cparser_line_next_char_def cparser_line_prev_char_def cparser_line_delete_def line_is_def)

end
