(* ===== verification/CpFsm.thy ===== *)
theory CpFsm
  imports CpLine
begin

text \<open>
  The state machine of the command parser (\<open>mgrplane/src/client/cparser_fsm.c\<close>): matching a token against the
  children of a node, and the nine functions for white space, characters and erasing in the three states.
\<close>

section \<open>Matching\<close>

definition NODE_USABLE :: "parser \<Rightarrow> node \<Rightarrow> bool" where
  "NODE_USABLE p n \<longleftrightarrow> is_privileged_mode p \<or> \<not> bit (nflags n) 3"

fun match_children :: "parser \<Rightarrow> string \<Rightarrow> node list \<Rightarrow> nat \<times> node option \<times> bool \<Rightarrow> (nat \<times> node option \<times> bool) res" where
  "match_children p t [] acc = Inr acc"
| "match_children p t (c # cs) (num_matches, match, is_complete) =
     (if \<not> NODE_USABLE p c then match_children p t cs (num_matches, match, is_complete)
      else rbind (match_fn c t) (\<lambda>(rc, local_is_complete).
        match_children p t cs
          (if rc \<noteq> CPARSER_OK then (num_matches, match, is_complete)
           else case match of
             None \<Rightarrow> (num_matches + 1, Some c, local_is_complete)
           | Some m \<Rightarrow> if \<not> is_complete \<and> local_is_complete then (num_matches + 1, Some c, local_is_complete)
                      else (num_matches + 1, Some m, is_complete))))"

text \<open>\<open>SHORTEST_UNIQUE_KEYWORD\<close> is defined: the only match is complete when it is a keyword.\<close>

definition cparser_match :: "parser \<Rightarrow> string \<Rightarrow> node option \<Rightarrow> (nat \<times> node option \<times> bool) res" where
  "cparser_match p t parent = (case parent of
     None \<Rightarrow> Inl Exit
   | Some n \<Rightarrow> rbind (match_children p t (children n) (0, None, False)) (\<lambda>(num_matches, match, is_complete).
       Inr (num_matches, match, is_complete \<or> num_matches = 1 \<and> (case match of None \<Rightarrow> False | Some m \<Rightarrow> ntype m = NODE_KEYWORD))))"

section \<open>Token stack\<close>

definition blank_token :: token where
  "blank_token = \<lparr>begin_ptr = -1, token_len = 0, tbuf = replicate CPARSER_MAX_TOKEN_SIZE (CHR 0x00), tparent = None, tnode = None\<rparr>"

definition cparser_token_stack_reset :: "parser \<Rightarrow> parser" where
  "cparser_token_stack_reset p = p\<lparr>last_good := -1, current_pos := 0, token_tos := 0, tokens := replicate CPARSER_MAX_NUM_TOKENS blank_token\<rparr>"

definition CUR_TOKEN :: "parser \<Rightarrow> token" where
  "CUR_TOKEN p = tokens p ! token_tos p"

definition set_cur :: "token \<Rightarrow> parser \<Rightarrow> parser" where
  "set_cur k p = p\<lparr>tokens := (tokens p)[token_tos p := k]\<rparr>"

definition INSERT_TOK_STK :: "token \<Rightarrow> char \<Rightarrow> token res" where
  "INSERT_TOK_STK k ch =
     (if token_len k \<ge> CPARSER_MAX_TOKEN_SIZE then Inl OutOfBounds
      else Inr (k\<lparr>tbuf := (tbuf k)[token_len k := ch], token_len := token_len k + 1\<rparr>))"

definition DELETE_TOK_STK :: "token \<Rightarrow> token" where
  "DELETE_TOK_STK k = (let n = (if token_len k \<noteq> 0 then token_len k - 1 else 0) in k\<lparr>token_len := n, tbuf := (tbuf k)[n := CHR 0x00]\<rparr>)"

section \<open>The functions of the states\<close>

text \<open>The new state, \<open>ch_processed\<close> and the parser.\<close>

type_synonym stepped = "(cp_state \<times> bool \<times> parser) res"

definition cparser_ws_erase :: "parser \<Rightarrow> stepped" where
  "cparser_ws_erase p =
     (if current_pos p > 0 then
        let p1 = p\<lparr>current_pos := current_pos p - 1\<rparr> in
        if 0 < token_tos p1 then
          let k = tokens p1 ! (token_tos p1 - 1) in
          if begin_ptr k + int (token_len k) \<ge> int (current_pos p1) then
            let p2 = p1\<lparr>cur_node := tparent k, tokens := (tokens p1)[token_tos p1 - 1 := k\<lparr>tparent := None\<rparr>]\<rparr>;
                c = CUR_TOKEN p2;
                p3 = set_cur (c\<lparr>begin_ptr := -1, token_len := 0, tparent := None, tnode := None, tbuf := (tbuf c)[0 := CHR 0x00]\<rparr>) p2
            in Inr (STATE_TOKEN, True, p3\<lparr>token_tos := token_tos p3 - 1\<rparr>)
          else Inr (STATE_WHITESPACE, True, p1)
        else Inr (STATE_WHITESPACE, True, p1)
      else Inr (STATE_WHITESPACE, False, p))"

definition cparser_ws_space :: "parser \<Rightarrow> stepped" where
  "cparser_ws_space p = Inr (STATE_WHITESPACE, True, p)"

definition cparser_ws_char :: "char \<Rightarrow> parser \<Rightarrow> stepped" where
  "cparser_ws_char ch p =
     rbind (cparser_match p [ch] (cur_node p)) (\<lambda>(num, match, is_complete).
       if num = 0 then Inr (STATE_ERROR, True, p)
       else rbind (INSERT_TOK_STK ((CUR_TOKEN p)\<lparr>begin_ptr := int (current_pos p)\<rparr>) ch) (\<lambda>k.
         Inr (STATE_TOKEN, True, set_cur k p)))"

definition cparser_tok_erase :: "parser \<Rightarrow> stepped" where
  "cparser_tok_erase p =
     (let k = DELETE_TOK_STK (CUR_TOKEN p); p1 = (set_cur k p)\<lparr>current_pos := current_pos p - 1\<rparr> in
      if token_len k = 0 then Inr (STATE_WHITESPACE, True, set_cur (k\<lparr>begin_ptr := -1\<rparr>) p1)
      else Inr (STATE_TOKEN, True, p1))"

definition cparser_tok_space :: "parser \<Rightarrow> stepped" where
  "cparser_tok_space p =
     (let k = CUR_TOKEN p in
      rbind (cparser_match p (tok_chars k) (cur_node p)) (\<lambda>(num, match, is_complete).
        if 1 \<le> num \<and> is_complete then
          if token_len k \<ge> CPARSER_MAX_TOKEN_SIZE then Inl OutOfBounds
          else
            let p1 = set_cur (k\<lparr>tparent := cur_node p, tnode := match, tbuf := (tbuf k)[token_len k := CHR 0x00]\<rparr>) p;
                p2 = p1\<lparr>token_tos := token_tos p1 + 1\<rparr> in
            if \<not> CPARSER_MAX_NUM_TOKENS > token_tos p2 then Inl Exit
            else if \<not> (begin_ptr (CUR_TOKEN p2) = -1 \<and> token_len (CUR_TOKEN p2) = 0 \<and> tparent (CUR_TOKEN p2) = None) then Inl Exit
            else Inr (STATE_WHITESPACE, True, p2\<lparr>cur_node := match\<rparr>)
        else Inr (STATE_ERROR, True, p)))"

definition cparser_tok_char :: "char \<Rightarrow> parser \<Rightarrow> stepped" where
  "cparser_tok_char ch p =
     (let k = CUR_TOKEN p in
      if token_len k < CPARSER_MAX_TOKEN_SIZE then
        rbind (INSERT_TOK_STK k ch) (\<lambda>k1.
          rbind (cparser_match p (tok_chars k1) (cur_node p)) (\<lambda>(num, match, is_complete).
            if num = 0 then Inr (STATE_ERROR, True, set_cur (DELETE_TOK_STK k1) p)
            else Inr (STATE_TOKEN, True, set_cur k1 p)))
      else Inr (STATE_ERROR, True, p))"

definition cparser_err_erase :: "parser \<Rightarrow> stepped" where
  "cparser_err_erase p =
     (if \<not> 0 < current_pos p then Inl Exit
      else let p1 = p\<lparr>current_pos := current_pos p - 1\<rparr> in
        if last_good p1 + 1 = int (current_pos p1) then
          if begin_ptr (CUR_TOKEN p1) + int (token_len (CUR_TOKEN p1)) \<ge> int (current_pos p1) then Inr (STATE_TOKEN, True, p1)
          else Inr (STATE_WHITESPACE, True, p1)
        else Inr (STATE_ERROR, True, p1))"

definition cparser_err_space :: "parser \<Rightarrow> stepped" where
  "cparser_err_space p = Inr (STATE_ERROR, True, p)"

definition cparser_err_char :: "parser \<Rightarrow> stepped" where
  "cparser_err_char p = Inr (STATE_ERROR, True, p)"

datatype input_type = Erase | Space | Character

definition cparser_state_func :: "cp_state \<Rightarrow> input_type \<Rightarrow> char \<Rightarrow> parser \<Rightarrow> stepped" where
  "cparser_state_func s i ch p = (case (s, i) of
     (STATE_WHITESPACE, Erase) \<Rightarrow> cparser_ws_erase p
   | (STATE_WHITESPACE, Space) \<Rightarrow> cparser_ws_space p
   | (STATE_WHITESPACE, Character) \<Rightarrow> cparser_ws_char ch p
   | (STATE_TOKEN, Erase) \<Rightarrow> cparser_tok_erase p
   | (STATE_TOKEN, Space) \<Rightarrow> cparser_tok_space p
   | (STATE_TOKEN, Character) \<Rightarrow> cparser_tok_char ch p
   | (STATE_ERROR, Erase) \<Rightarrow> cparser_err_erase p
   | (STATE_ERROR, Space) \<Rightarrow> cparser_err_space p
   | (STATE_ERROR, Character) \<Rightarrow> cparser_err_char p)"

section \<open>One character\<close>

definition erases :: "parser \<Rightarrow> char \<Rightarrow> bool" where
  "erases p ch \<longleftrightarrow> ch_erase (cfg p) = ch \<or> ch_del (cfg p) = ch"

definition fsm_step :: "input_type \<Rightarrow> char \<Rightarrow> parser \<Rightarrow> parser res" where
  "fsm_step i ch p =
     rbind (cparser_state_func (state p) i ch p) (\<lambda>(s, ch_processed, p1).
       let p2 = p1\<lparr>state := s\<rparr> in
       if ch_processed then
         let p3 = (if i \<noteq> Erase then p2\<lparr>current_pos := current_pos p2 + 1\<rparr> else p2) in
         Inr (if s \<noteq> STATE_ERROR then p3\<lparr>last_good := int (current_pos p3) - 1\<rparr> else p3)
       else Inr p2)"

text \<open>The output with \<open>CPARSER_FLAGS_DEBUG\<close>: the state, the characters before the cursor, the tokens and the line.\<close>

definition debug_state :: "parser \<Rightarrow> parser" where
  "debug_state p = (case state p of
     STATE_WHITESPACE \<Rightarrow> prints (''State: WHITESPACE'' @ [CHR 0x0A]) p
   | STATE_TOKEN \<Rightarrow> prints (''State: TOKEN'' @ [CHR 0x0A]) p
   | STATE_ERROR \<Rightarrow> prints (''State: ERROR'' @ [CHR 0x0A]) p)"

definition debug_token :: "nat \<Rightarrow> parser \<Rightarrow> parser res" where
  "debug_token n p =
     (let k = tokens p ! n in
      if token_len k \<ge> CPARSER_MAX_TOKEN_SIZE then Inl OutOfBounds
      else Inr (emit (CHR ''['' # take (token_len k + 1) (tbuf k) @ [CHR '']'', CHR 0x0A]) p))"

definition fsm_debug :: "parser \<Rightarrow> parser res" where
  "fsm_debug p =
     rbind (rfold (\<lambda>n q. rbind (cparser_line_char q n) (\<lambda>c. Inr (printc c q))) [0..<current_pos p] (debug_state (printc (CHR 0x0A) p))) (\<lambda>p1.
     rbind (rfold debug_token [0..<token_tos p + 1] (printc (CHR 0x0A) p1)) (\<lambda>p2.
       Inr (cparser_line_print True True p2)))"

definition cparser_fsm_input :: "char \<Rightarrow> parser \<Rightarrow> parser res" where
  "cparser_fsm_input ch p =
     (if erases p ch then
        if \<not> 0 < current_pos p then Inl Exit
        else rbind (fsm_step Erase ch p) (\<lambda>p1. if cdebug (cfg p1) then fsm_debug p1 else Inr p1)
      else if current_pos p \<ge> CPARSER_MAX_LINE_SIZE - 1 then Inr (printc (CHR 0x07) p)
      else rbind (fsm_step (if ch = CHR '' '' then Space else Character) ch p) (\<lambda>p1. if cdebug (cfg p1) then fsm_debug p1 else Inr p1))"

definition cparser_fsm_reset :: "parser \<Rightarrow> parser" where
  "cparser_fsm_reset p = (let p1 = cparser_token_stack_reset p in p1\<lparr>cur_node := roots p1 ! root_level p1, state := STATE_WHITESPACE\<rparr>)"

end
