(* ===== verification/CpErase.thy ===== *)
theory CpErase
  imports CpFsm
begin

text \<open>
  The state machine of the command parser under editing: the well-formedness of its state, and erasing as the inverse
  of typing.
\<close>

section \<open>The token stack\<close>

text \<open>\<open>st\<close> are the closed tokens, the last one first, \<open>k\<close> is the token being typed.\<close>

definition stack_is :: "parser \<Rightarrow> token list \<Rightarrow> token \<Rightarrow> bool" where
  "stack_is p st k \<longleftrightarrow> tokens p = rev st @ k # replicate (CPARSER_MAX_NUM_TOKENS - 1 - length st) blank_token \<and>
     token_tos p = length st \<and> length st < CPARSER_MAX_NUM_TOKENS"

lemma stack_cur: "stack_is p st k \<Longrightarrow> CUR_TOKEN p = k"
  by (simp add: stack_is_def CUR_TOKEN_def nth_append)

lemma stack_set_cur: "stack_is p st k \<Longrightarrow> stack_is (set_cur k' p) st k'"
  by (simp add: stack_is_def set_cur_def list_update_append)

lemma stack_push:
  assumes "stack_is p st k" "length st + 1 < CPARSER_MAX_NUM_TOKENS"
  shows "stack_is (p\<lparr>token_tos := token_tos p + 1\<rparr>) (k # st) blank_token"
proof -
  obtain n where "CPARSER_MAX_NUM_TOKENS - 1 - length st = Suc n" "CPARSER_MAX_NUM_TOKENS - 1 - length (k # st) = n"
    using assms(2) by (metis Suc_diff_Suc add.commute diff_diff_left length_Cons less_diff_conv plus_1_eq_Suc)
  then show ?thesis using assms by (simp add: stack_is_def)
qed

lemma stack_pop:
  assumes "stack_is p (c # st) k" "k = blank_token"
  shows "stack_is (p\<lparr>token_tos := token_tos p - 1\<rparr>) st c"
proof -
  have "CPARSER_MAX_NUM_TOKENS - 1 - length st = Suc (CPARSER_MAX_NUM_TOKENS - 1 - length (c # st))"
    using assms(1) by (simp add: stack_is_def) linarith
  then show ?thesis using assms by (simp add: stack_is_def)
qed

text \<open>The characters of a token, and what holds for a closed one.\<close>

definition token_is :: "token \<Rightarrow> string \<Rightarrow> bool" where
  "token_is k t \<longleftrightarrow> token_len k = length t \<and> length t \<le> CPARSER_MAX_TOKEN_SIZE \<and>
     tbuf k = t @ replicate (CPARSER_MAX_TOKEN_SIZE - length t) (CHR 0x00) \<and> (if t = [] then begin_ptr k = -1 else 0 \<le> begin_ptr k)"

lemma token_is_chars: "token_is k t \<Longrightarrow> tok_chars k = t"
  by (simp add: token_is_def tok_chars_def)

lemma blank_is [simp]: "token_is blank_token []" "tparent blank_token = None"
  by (simp_all add: token_is_def blank_token_def)

lemma insert_tok:
  assumes "token_is k t" "length t < CPARSER_MAX_TOKEN_SIZE" "t = [] \<Longrightarrow> 0 \<le> b" "t \<noteq> [] \<Longrightarrow> b = begin_ptr k"
  shows "\<exists>k'. INSERT_TOK_STK (k\<lparr>begin_ptr := b\<rparr>) c = Inr k' \<and> token_is k' (t @ [c]) \<and> begin_ptr k' = b \<and> tparent k' = tparent k \<and> tnode k' = tnode k"
proof -
  obtain n where "CPARSER_MAX_TOKEN_SIZE - length t = Suc n" "CPARSER_MAX_TOKEN_SIZE - length (t @ [c]) = n"
    using assms(2) by (metis Suc_diff_Suc length_append_singleton)
  then show ?thesis using assms by (auto simp: INSERT_TOK_STK_def token_is_def list_update_append split: if_splits)
qed

lemma insert_delete:
  assumes "token_is (k\<lparr>begin_ptr := b\<rparr>) t" "INSERT_TOK_STK k c = Inr k'"
  shows "DELETE_TOK_STK k' = k"
proof -
  have n: "length t < CPARSER_MAX_TOKEN_SIZE" and k': "k' = k\<lparr>tbuf := (tbuf k)[length t := c], token_len := length t + 1\<rparr>"
    using assms by (auto simp: INSERT_TOK_STK_def token_is_def split: if_splits)
  obtain m where m: "CPARSER_MAX_TOKEN_SIZE - length t = Suc m" using n by (metis Suc_diff_Suc)
  then have "tbuf k = t @ CHR 0x00 # replicate m (CHR 0x00)" "token_len k = length t" using assms(1) by (simp_all add: token_is_def)
  then show ?thesis by (intro token.equality) (simp_all add: k' DELETE_TOK_STK_def Let_def list_update_append)
qed

lemma delete_tok:
  assumes "token_is k (t @ [c])"
  shows "token_is ((DELETE_TOK_STK k)\<lparr>begin_ptr := (if t = [] then -1 else begin_ptr k)\<rparr>) t"
    "token_len (DELETE_TOK_STK k) = length t" "begin_ptr (DELETE_TOK_STK k) = begin_ptr k"
    "tparent (DELETE_TOK_STK k) = tparent k" "tnode (DELETE_TOK_STK k) = tnode k"
proof -
  obtain m where "CPARSER_MAX_TOKEN_SIZE - length t = Suc m" "CPARSER_MAX_TOKEN_SIZE - length (t @ [c]) = m"
    using assms by (metis Suc_diff_Suc Suc_le_lessD length_append_singleton token_is_def)
  then show "token_is ((DELETE_TOK_STK k)\<lparr>begin_ptr := (if t = [] then -1 else begin_ptr k)\<rparr>) t"
    "token_len (DELETE_TOK_STK k) = length t" "begin_ptr (DELETE_TOK_STK k) = begin_ptr k"
    "tparent (DELETE_TOK_STK k) = tparent k" "tnode (DELETE_TOK_STK k) = tnode k"
    using assms by (auto simp: token_is_def DELETE_TOK_STK_def Let_def list_update_append)
qed

section \<open>Well-formed states\<close>

fun height :: "node \<Rightarrow> nat" where
  "height (Node _ _ _ _ cs) = Suc (fold max (map height cs) 0)"

text \<open>Nodes below the root: no root node among the children, and a list node has keywords.\<close>

fun wf_node :: "node \<Rightarrow> bool" where
  "wf_node (Node t f p d cs) \<longleftrightarrow> (t \<noteq> NODE_END \<longrightarrow> list_all (\<lambda>c. ntype c \<noteq> NODE_ROOT \<and> (ntype c = NODE_LIST \<longrightarrow> param_keywords (nparam c) \<noteq> []) \<and> wf_node c) cs)"

lemma fold_max_ge: "x \<in> set xs \<Longrightarrow> x \<le> fold max xs (a :: nat)" "a \<le> fold max xs a"
proof (induction xs arbitrary: a)
  case (Cons y ys)
  { case 1 then show ?case using Cons.IH(1) [of "max y a"] Cons.IH(2) [of "max y a"] by auto }
  { case 2 then show ?case using Cons.IH(2) [of "max y a"] by auto }
qed simp_all

lemma height_child: "c \<in> set (children n) \<Longrightarrow> height c < height n"
  using fold_max_ge(1) [of "height c" "map height (children n)" 0] by (cases n) auto

lemma height_pos: "0 < height n"
  by (cases n) simp

text \<open>The closed tokens lie before position \<open>b\<close>; each has its text, its parent node and room for the levels below.\<close>

fun closed_tokens :: "token list \<Rightarrow> int \<Rightarrow> bool" where
  "closed_tokens [] b \<longleftrightarrow> True"
| "closed_tokens (c # cs) b \<longleftrightarrow> begin_ptr c + int (token_len c) < b \<and> (\<exists>t. t \<noteq> [] \<and> length t < CPARSER_MAX_TOKEN_SIZE \<and> token_is c t) \<and>
     (\<exists>n. tparent c = Some n \<and> wf_node n \<and> ntype n \<noteq> NODE_END \<and> length cs + height n \<le> CPARSER_MAX_NUM_TOKENS) \<and> closed_tokens cs (begin_ptr c)"

lemma closed_mono: "closed_tokens st b \<Longrightarrow> b \<le> b' \<Longrightarrow> closed_tokens st b'"
  by (cases st) auto

definition fsm_is :: "parser \<Rightarrow> token list \<Rightarrow> token \<Rightarrow> string \<Rightarrow> node \<Rightarrow> bool" where
  "fsm_is p st k t n \<longleftrightarrow> stack_is p st k \<and> token_is k t \<and> tparent k = None \<and> -1 \<le> last_good p \<and>
     cur_node p = Some n \<and> wf_node n \<and> ntype n \<noteq> NODE_END \<and> length st + height n \<le> CPARSER_MAX_NUM_TOKENS \<and>
     (t = [] \<longrightarrow> closed_tokens st (last_good p + 1)) \<and> (t \<noteq> [] \<longrightarrow> closed_tokens st (begin_ptr k) \<and> begin_ptr k + int (length t) = last_good p + 1) \<and>
     (case state p of STATE_WHITESPACE \<Rightarrow> t = [] \<and> last_good p + 1 = int (current_pos p)
      | STATE_TOKEN \<Rightarrow> t \<noteq> [] \<and> last_good p + 1 = int (current_pos p)
      | STATE_ERROR \<Rightarrow> last_good p + 1 < int (current_pos p))"

definition fsm_inv :: "parser \<Rightarrow> bool" where
  "fsm_inv p \<longleftrightarrow> (\<exists>st k t n. fsm_is p st k t n)"

section \<open>Matching does not fail\<close>

lemma match_fn_returns:
  assumes "t \<noteq> []" "ntype c \<noteq> NODE_ROOT" "ntype c = NODE_LIST \<Longrightarrow> param_keywords (nparam c) \<noteq> []"
  shows "\<exists>rc b. match_fn c t = Inr (rc, b) \<and> (rc = CPARSER_OK \<longrightarrow> ntype c \<noteq> NODE_END)"
proof -
  obtain a r where t: "t = a # r" using assms(1) by (cases t) auto
  show ?thesis using assms(2,3)
    by (cases "ntype c")
      (auto simp: match_fn_def t cparser_match_end_def cparser_match_keyword_def Let_def cparser_match_string_def cparser_match_uint_def
        cparser_match_int_def cparser_match_hex_def cparser_match_float_def cparser_match_macaddr_def cparser_match_ipv4addr_def
        cparser_match_file_def cparser_match_list_def split: list.splits option.splits prod.splits)
qed

lemma match_children_returns:
  assumes "t \<noteq> []" "list_all (\<lambda>c. ntype c \<noteq> NODE_ROOT \<and> (ntype c = NODE_LIST \<longrightarrow> param_keywords (nparam c) \<noteq> [])) cs"
    "\<And>m. match = Some m \<Longrightarrow> ntype m \<noteq> NODE_END \<and> m \<in> N" "set cs \<subseteq> N" "0 < num \<longleftrightarrow> match \<noteq> None"
  shows "\<exists>num' match' b'. match_children p t cs (num, match, b) = Inr (num', match', b') \<and> (0 < num' \<longleftrightarrow> match' \<noteq> None) \<and>
    (\<forall>m. match' = Some m \<longrightarrow> ntype m \<noteq> NODE_END \<and> m \<in> N)"
  using assms(2-)
proof (induction cs arbitrary: num match b)
  case (Cons c cs)
  obtain rc lc where m: "match_fn c t = Inr (rc, lc)" "rc = CPARSER_OK \<longrightarrow> ntype c \<noteq> NODE_END"
    using match_fn_returns [OF assms(1), of c] Cons.prems(1) by auto
  show ?case
  proof (cases "NODE_USABLE p c \<and> rc = CPARSER_OK")
    case False
    then show ?thesis using Cons.IH [of match num b] Cons.prems m by auto
  next
    case True
    then show ?thesis using Cons.IH [of "Some c" "num + 1" lc] Cons.IH [of match "num + 1" b] Cons.prems m
      by (cases match) auto
  qed
qed auto

lemma match_returns:
  assumes "t \<noteq> []" "wf_node n" "ntype n \<noteq> NODE_END"
  shows "\<exists>num match b. cparser_match p t (Some n) = Inr (num, match, b) \<and> (0 < num \<longleftrightarrow> match \<noteq> None) \<and>
    (\<forall>m. match = Some m \<longrightarrow> ntype m \<noteq> NODE_END \<and> wf_node m \<and> height m < height n)"
proof -
  obtain ty f pa d cs where n: "n = Node ty f pa d cs" by (cases n)
  have w: "list_all (\<lambda>c. ntype c \<noteq> NODE_ROOT \<and> (ntype c = NODE_LIST \<longrightarrow> param_keywords (nparam c) \<noteq> []) \<and> wf_node c) cs"
    using assms(2,3) by (simp add: n)
  then have "list_all (\<lambda>c. ntype c \<noteq> NODE_ROOT \<and> (ntype c = NODE_LIST \<longrightarrow> param_keywords (nparam c) \<noteq> [])) cs" by (auto simp: list_all_iff)
  from match_children_returns [OF assms(1) this, of None "set cs" 0 p False] obtain num match b where
    m: "match_children p t cs (0, None, False) = Inr (num, match, b)" "0 < num \<longleftrightarrow> match \<noteq> None"
      "\<forall>m. match = Some m \<longrightarrow> ntype m \<noteq> NODE_END \<and> m \<in> set cs" by auto
  have "wf_node m \<and> height m < height n" if "m \<in> set cs" for m
    using w that height_child [of m n] by (auto simp: n list_all_iff)
  then show ?thesis using m by (auto simp: cparser_match_def n)
qed

section \<open>Typing a character and erasing it\<close>

text \<open>The node of the token being typed is not read, and the output is not part of the state.\<close>

definition alt :: "node option \<Rightarrow> string \<Rightarrow> parser \<Rightarrow> parser" where
  "alt n txt p = (set_cur ((CUR_TOKEN p)\<lparr>tnode := n\<rparr>) p)\<lparr>out := txt\<rparr>"

lemma alt_fields [simp]:
  "cfg (alt n s p) = cfg p" "root_level (alt n s p) = root_level p" "roots (alt n s p) = roots p" "prompts (alt n s p) = prompts p"
  "cur_node (alt n s p) = cur_node p" "state (alt n s p) = state p" "token_tos (alt n s p) = token_tos p"
  "current_pos (alt n s p) = current_pos p" "last_good (alt n s p) = last_good p" "is_privileged_mode (alt n s p) = is_privileged_mode p"
  "max_line (alt n s p) = max_line p" "cur_line (alt n s p) = cur_line p" "lines (alt n s p) = lines p" "quitting (alt n s p) = quitting p"
  "cookies (alt n s p) = cookies p" "user (alt n s p) = user p" "last_line_idx (alt n s p) = last_line_idx p" "last_rc (alt n s p) = last_rc p"
  "last_end_node (alt n s p) = last_end_node p" "out (alt n s p) = s" "parser.more (alt n s p) = parser.more p"
  "tokens (alt n s p) = (tokens p)[token_tos p := (CUR_TOKEN p)\<lparr>tnode := n\<rparr>]"
  by (simp_all add: alt_def set_cur_def)

lemma set_cur_fields [simp]:
  "cfg (set_cur k p) = cfg p" "root_level (set_cur k p) = root_level p" "roots (set_cur k p) = roots p" "prompts (set_cur k p) = prompts p"
  "cur_node (set_cur k p) = cur_node p" "state (set_cur k p) = state p" "token_tos (set_cur k p) = token_tos p"
  "current_pos (set_cur k p) = current_pos p" "last_good (set_cur k p) = last_good p" "is_privileged_mode (set_cur k p) = is_privileged_mode p"
  "max_line (set_cur k p) = max_line p" "cur_line (set_cur k p) = cur_line p" "lines (set_cur k p) = lines p" "quitting (set_cur k p) = quitting p"
  "cookies (set_cur k p) = cookies p" "user (set_cur k p) = user p" "last_line_idx (set_cur k p) = last_line_idx p" "last_rc (set_cur k p) = last_rc p"
  "last_end_node (set_cur k p) = last_end_node p" "out (set_cur k p) = out p" "parser.more (set_cur k p) = parser.more p"
  "tokens (set_cur k p) = (tokens p)[token_tos p := k]"
  by (simp_all add: set_cur_def)

lemma set_cur_twice [simp]: "set_cur k (set_cur k' p) = set_cur k p"
  by (simp add: set_cur_def)

lemma alt_same: "stack_is p st k \<Longrightarrow> tnode k = n \<Longrightarrow> alt n (out p) p = p"
  by (rule parser.equality) (auto simp: stack_cur, simp add: stack_is_def list_update_append)

text \<open>What the functions read besides the stack.\<close>

lemma match_cong: "is_privileged_mode p = is_privileged_mode q \<Longrightarrow> cparser_match p = cparser_match q"
proof (intro ext)
  fix t parent assume m: "is_privileged_mode p = is_privileged_mode q"
  have "match_children p t cs acc = match_children q t cs acc" for cs acc
  proof (induction cs arbitrary: acc)
    case (Cons c cs)
    then show ?case using m by (cases acc) (auto simp: NODE_USABLE_def rbind_def split: sum.splits)
  qed simp
  then show "cparser_match p t parent = cparser_match q t parent" by (cases parent) (simp_all add: cparser_match_def)
qed

text \<open>The result of typing a character: the state is well formed, and erasing leads back.\<close>

definition undone :: "parser \<Rightarrow> parser res \<Rightarrow> bool" where
  "undone p r \<longleftrightarrow> (\<exists>p'. r = Inr p' \<and> fsm_inv p' \<and> current_pos p' = current_pos p + 1 \<and> (\<exists>n. \<forall>b. fsm_step Erase b p' = Inr (alt n (out p) p)))"

lemmas step_defs = fsm_step_def cparser_state_func_def Let_def

text \<open>Into the state ERROR: nothing changes but the position.\<close>

lemma undone_error:
  assumes "fsm_inv p" "i \<noteq> Erase" "cparser_state_func (state p) i c p = Inr (STATE_ERROR, True, p)"
  shows "undone p (fsm_step i c p)"
proof -
  let ?p = "p\<lparr>state := STATE_ERROR, current_pos := current_pos p + 1\<rparr>"
  obtain st k t n where i: "fsm_is p st k t n" using assms(1) by (auto simp: fsm_inv_def)
  note p = i [unfolded fsm_is_def]
  have s: "stack_is ?p st k" using p by (simp add: stack_is_def)
  have "last_good p + 1 < int (current_pos p) + 1" using p by (auto split: cp_state.splits)
  then have "fsm_is ?p st k t n" using s p by (simp add: fsm_is_def)
  then have "fsm_inv ?p" by (auto simp: fsm_inv_def)
  moreover have "fsm_step i c p = Inr ?p" using assms(2,3) by (simp add: step_defs)
  moreover have "fsm_step Erase b ?p = Inr (alt (tnode k) (out p) p)" for b
  proof -
    have k: "CUR_TOKEN (?p\<lparr>current_pos := current_pos p\<rparr>) = k" using p by (simp add: stack_is_def CUR_TOKEN_def nth_append)
    have "fsm_step Erase b ?p = Inr p"
      using p k by (cases "state p") (auto simp: step_defs cparser_err_erase_def token_is_def intro!: parser.equality split: if_splits)
    then show ?thesis using alt_same [of p st k] p by simp
  qed
  ultimately show ?thesis unfolding undone_def by (intro exI [of _ ?p]) auto
qed

lemma undone_ws_space:
  assumes "fsm_inv p" "state p = STATE_WHITESPACE"
  shows "undone p (fsm_step Space c p)"
proof -
  let ?p = "p\<lparr>state := STATE_WHITESPACE, current_pos := current_pos p + 1, last_good := int (current_pos p)\<rparr>"
  obtain st k t n where i: "fsm_is p st k t n" using assms(1) by (auto simp: fsm_inv_def)
  note p = i [unfolded fsm_is_def]
  have t: "t = []" "last_good p + 1 = int (current_pos p)" using p assms(2) by auto
  have "closed_tokens st (int (current_pos p) + 1)" using closed_mono [of st "int (current_pos p)"] p t by simp
  then have "fsm_is ?p st k t n" using p t by (simp add: fsm_is_def stack_is_def)
  then have "fsm_inv ?p" by (auto simp: fsm_inv_def)
  moreover have "fsm_step Space c p = Inr ?p" using assms(2) by (simp add: step_defs cparser_ws_space_def)
  moreover have "fsm_step Erase b ?p = Inr p" for b
  proof (cases st)
    case Nil
    then show ?thesis using p t assms(2) by (auto simp: step_defs cparser_ws_erase_def stack_is_def intro!: parser.equality)
  next
    case (Cons d st')
    have "tokens ?p ! (token_tos ?p - 1) = d" "0 < token_tos ?p" using p by (simp_all add: stack_is_def Cons nth_append)
    moreover have "begin_ptr d + int (token_len d) < int (current_pos p)" using p t by (simp add: Cons)
    ultimately show ?thesis using t assms(2) by (auto simp: step_defs cparser_ws_erase_def intro!: parser.equality)
  qed
  moreover have "alt (tnode k) (out p) p = p" using p by (intro alt_same) auto
  ultimately show ?thesis unfolding undone_def by (intro exI [of _ ?p]) (auto intro!: exI [of _ "tnode k"])
qed

lemma undone_typed:
  assumes "fsm_is p st k t n" "state p \<noteq> STATE_ERROR" "length t < CPARSER_MAX_TOKEN_SIZE"
    "INSERT_TOK_STK (k\<lparr>begin_ptr := (if t = [] then int (current_pos p) else begin_ptr k)\<rparr>) c = Inr k'"
    "fsm_step i c p = Inr ((set_cur k' p)\<lparr>state := STATE_TOKEN, current_pos := current_pos p + 1, last_good := int (current_pos p)\<rparr>)"
  shows "undone p (fsm_step i c p)"
proof -
  let ?b = "if t = [] then int (current_pos p) else begin_ptr k"
  let ?p = "(set_cur k' p)\<lparr>state := STATE_TOKEN, current_pos := current_pos p + 1, last_good := int (current_pos p)\<rparr>"
  note p = assms(1) [unfolded fsm_is_def]
  have pos: "last_good p + 1 = int (current_pos p)" "if t = [] then state p = STATE_WHITESPACE else state p = STATE_TOKEN"
    using p assms(2) by (auto split: cp_state.splits)
  have k': "token_is k' (t @ [c])" "begin_ptr k' = ?b" "tparent k' = None"
    using insert_tok [of k t ?b c] p assms(3,4) by auto
  have s: "stack_is ?p st k'" using stack_set_cur [of p st k k'] p by (simp add: stack_is_def)
  have "fsm_is ?p st k' (t @ [c]) n" using p k' pos s by (auto simp: fsm_is_def)
  then have i: "fsm_inv ?p" by (auto simp: fsm_inv_def)
  have d: "DELETE_TOK_STK k' = k\<lparr>begin_ptr := ?b\<rparr>" by (rule insert_delete [OF _ assms(4), where b = "begin_ptr k" and t = t]) (use p in simp)
  have "token_len k = length t" "t = [] \<Longrightarrow> begin_ptr k = -1" using p by (auto simp: token_is_def)
  moreover have "(tokens p)[token_tos p := k] = tokens p" using p by (auto simp: stack_is_def list_update_append)
  moreover have "(tokens p)[token_tos p := k\<lparr>begin_ptr := -1\<rparr>] = tokens p" if "t = []"
  proof -
    have "k\<lparr>begin_ptr := -1\<rparr> = k" using p that by (intro token.equality) (auto simp: token_is_def)
    then show ?thesis using p by (simp add: stack_is_def list_update_append)
  qed
  ultimately have "fsm_step Erase b ?p = Inr p" for b
    using pos stack_cur [OF s]
    by (auto simp: step_defs cparser_tok_erase_def d set_cur_def intro!: parser.equality)
  moreover have "alt (tnode k) (out p) p = p" using p by (intro alt_same) auto
  ultimately show ?thesis unfolding undone_def assms(5) using i by (intro exI [of _ ?p]) (auto intro!: exI [of _ "tnode k"])
qed

lemma undone_ws_char:
  assumes "fsm_inv p" "state p = STATE_WHITESPACE"
  shows "undone p (fsm_step Character c p)"
proof -
  obtain st k t n where i: "fsm_is p st k t n" using assms(1) by (auto simp: fsm_inv_def)
  note p = i [unfolded fsm_is_def]
  have t: "t = []" "CUR_TOKEN p = k" "cur_node p = Some n" using p assms(2) stack_cur by auto
  obtain num match b where m: "cparser_match p [c] (Some n) = Inr (num, match, b)" using match_returns [of "[c]" n p] p by auto
  show ?thesis
  proof (cases "num = 0")
    case True
    then show ?thesis using assms m t by (intro undone_error) (simp_all add: cparser_state_func_def cparser_ws_char_def)
  next
    case False
    have l: "length t < CPARSER_MAX_TOKEN_SIZE" by (simp add: t CPARSER_MAX_TOKEN_SIZE_def)
    obtain k' where k': "INSERT_TOK_STK (k\<lparr>begin_ptr := int (current_pos p)\<rparr>) c = Inr k'"
      using insert_tok [of k t "int (current_pos p)" c] p l t by auto
    show ?thesis using False k' t m assms(2) by (intro undone_typed [OF i _ l, of c k']) (auto simp: step_defs cparser_ws_char_def)
  qed
qed

lemma undone_tok_char:
  assumes "fsm_inv p" "state p = STATE_TOKEN"
  shows "undone p (fsm_step Character c p)"
proof -
  obtain st k t n where i: "fsm_is p st k t n" using assms(1) by (auto simp: fsm_inv_def)
  note p = i [unfolded fsm_is_def]
  have t: "t \<noteq> []" "CUR_TOKEN p = k" "cur_node p = Some n" "token_len k = length t" using p assms(2) stack_cur by (auto simp: token_is_def)
  show ?thesis
  proof (cases "length t < CPARSER_MAX_TOKEN_SIZE")
    case False
    then show ?thesis using assms t by (intro undone_error) (simp_all add: cparser_state_func_def cparser_tok_char_def Let_def)
  next
    case True
    have b: "k\<lparr>begin_ptr := begin_ptr k\<rparr> = k" by simp
    obtain k' where k': "INSERT_TOK_STK k c = Inr k'" "token_is k' (t @ [c])"
      using insert_tok [of k t "begin_ptr k" c] p True t(1) by auto
    obtain num match b where m: "cparser_match p (t @ [c]) (Some n) = Inr (num, match, b)" using match_returns [of "t @ [c]" n p] p by auto
    have d: "set_cur (DELETE_TOK_STK k') p = p" using insert_delete [where k = k and b = "begin_ptr k" and t = t and c = c and k' = k'] p k'(1)
      by (intro parser.equality) (auto simp: stack_is_def list_update_append)
    show ?thesis
    proof (cases "num = 0")
      case True
      then show ?thesis using assms m t d k' \<open>length t < CPARSER_MAX_TOKEN_SIZE\<close> token_is_chars [OF k'(2)]
        by (intro undone_error) (simp_all add: cparser_state_func_def cparser_tok_char_def Let_def)
    next
      case False
      then show ?thesis using assms m t k' True token_is_chars [OF k'(2)]
        by (intro undone_typed [OF i _ True, of c k']) (auto simp: step_defs cparser_tok_char_def)
    qed
  qed
qed

text \<open>A token that fills its buffer and is complete: closing it writes a zero behind the buffer.\<close>

definition overflow :: "parser \<Rightarrow> bool" where
  "overflow p \<longleftrightarrow> state p = STATE_TOKEN \<and> token_len (CUR_TOKEN p) = CPARSER_MAX_TOKEN_SIZE \<and>
     (case cparser_match p (tok_chars (CUR_TOKEN p)) (cur_node p) of Inr (num, match, is_complete) \<Rightarrow> 1 \<le> num \<and> is_complete | _ \<Rightarrow> False)"

lemma overflow_fault: "overflow p \<Longrightarrow> fsm_step Space c p = Inl OutOfBounds"
  by (auto simp: overflow_def step_defs cparser_tok_space_def split: sum.splits)

lemma undone_tok_space:
  assumes "fsm_inv p" "state p = STATE_TOKEN" "\<not> overflow p"
  shows "undone p (fsm_step Space c p)"
proof -
  obtain st k t n where i: "fsm_is p st k t n" using assms(1) by (auto simp: fsm_inv_def)
  note p = i [unfolded fsm_is_def]
  have cur: "CUR_TOKEN p = k" "tok_chars k = t" using p stack_cur token_is_chars by auto
  have t: "t \<noteq> []" "cur_node p = Some n" "token_len k = length t" "last_good p + 1 = int (current_pos p)"
    using p assms(2) cur by (auto simp: token_is_def)
  obtain num match b where m: "cparser_match p t (Some n) = Inr (num, match, b)" "0 < num \<longleftrightarrow> match \<noteq> None"
    "\<forall>m. match = Some m \<longrightarrow> ntype m \<noteq> NODE_END \<and> wf_node m \<and> height m < height n" using match_returns [OF t(1), of n p] p by auto
  show ?thesis
  proof (cases "1 \<le> num \<and> b")
    case False
    then show ?thesis using assms(1,2) m t cur by (intro undone_error) (auto simp: cparser_state_func_def cparser_tok_space_def Let_def)
  next
    case True
    then obtain x where x: "match = Some x" "ntype x \<noteq> NODE_END" "wf_node x" "height x < height n" using m by auto
    have deep: "length st + 1 + height x \<le> CPARSER_MAX_NUM_TOKENS" using p x(4) by linarith
    then have room: "length st + 1 < CPARSER_MAX_NUM_TOKENS" using height_pos [of x] by linarith
    let ?k = "k\<lparr>tparent := Some n, tnode := Some x\<rparr>"
    have small: "length t < CPARSER_MAX_TOKEN_SIZE"
      using True assms(2,3) m(1) t(2,3) cur p by (auto simp: overflow_def token_is_def)
    then obtain m where "CPARSER_MAX_TOKEN_SIZE - length t = Suc m" by (metis Suc_diff_Suc)
    then have buf: "(tbuf k)[length t := CHR 0x00] = tbuf k" using p by (simp add: token_is_def list_update_append)
    then have k: "k\<lparr>tparent := Some n, tnode := Some x, tbuf := (tbuf k)[length t := CHR 0x00]\<rparr> = ?k" by (intro token.equality) simp_all
    let ?q = "(set_cur ?k p)\<lparr>token_tos := token_tos p + 1\<rparr>"
    let ?p = "?q\<lparr>cur_node := Some x, state := STATE_WHITESPACE, current_pos := current_pos p + 1, last_good := int (current_pos p)\<rparr>"
    have s: "stack_is ?q (?k # st) blank_token" using stack_push [OF stack_set_cur [of p st k ?k]] p room by auto
    then have tos: "token_tos p + 1 < CPARSER_MAX_NUM_TOKENS" by (simp add: stack_is_def)
    have step: "fsm_step Space c p = Inr ?p"
      using True assms(2) m(1) t(2,3) small cur k stack_cur [OF s] tos x(1)
      by (simp add: step_defs cparser_tok_space_def blank_token_def)
    have "token_is ?k t" using p by (simp add: token_is_def)
    then have cl: "closed_tokens (?k # st) (int (current_pos p) + 1)" 
    proof -
      have "\<exists>u. u \<noteq> [] \<and> length u < CPARSER_MAX_TOKEN_SIZE \<and> token_is ?k u" using t(1) small \<open>token_is ?k t\<close> by blast
      moreover have "begin_ptr k + int (token_len k) < int (current_pos p) + 1" "closed_tokens st (begin_ptr k)" using p t by auto
      ultimately show ?thesis using p by simp
    qed
    have "stack_is ?p (?k # st) blank_token" using s by (auto simp: stack_is_def)
    then have "fsm_is ?p (?k # st) blank_token [] x" using cl deep x unfolding fsm_is_def by simp
    then have "fsm_inv ?p" unfolding fsm_inv_def by blast
    moreover have "fsm_step Erase b' ?p = Inr (alt (Some x) (out p) p)" for b'
    proof -
      obtain r where r: "tokens p = rev st @ k # blank_token # r" "token_tos p = length st"
        using p room by (metis Suc_diff_Suc add.commute diff_diff_left less_diff_conv plus_1_eq_Suc replicate_Suc stack_is_def)
      have pos: "begin_ptr k + int (token_len k) = int (current_pos p)" using p t by simp
      have z: "blank_token\<lparr>begin_ptr := -1, token_len := 0, tparent := None, tnode := None, tbuf := (tbuf blank_token)[0 := CHR 0x00]\<rparr> = blank_token"
        by (rule token.equality) (auto simp: blank_token_def nth_list_update intro!: nth_equalityI)
      have none: "?k\<lparr>tparent := None\<rparr> = k\<lparr>tnode := Some x\<rparr>" using p by (intro token.equality) simp_all
      have e: "tokens ?p ! length st = ?k" "(tokens ?p)[length st := k\<lparr>tnode := Some x\<rparr>] ! Suc (length st) = blank_token"
        "((tokens ?p)[length st := k\<lparr>tnode := Some x\<rparr>])[Suc (length st) := blank_token] = (tokens p)[length st := k\<lparr>tnode := Some x\<rparr>]"
        by (simp_all add: r nth_append list_update_append)
      have "cparser_ws_erase ?p = Inr (STATE_TOKEN, True, ?p\<lparr>current_pos := current_pos p, cur_node := Some n,
          tokens := (tokens p)[length st := k\<lparr>tnode := Some x\<rparr>], token_tos := length st\<rparr>)"
        using e pos by (simp add: cparser_ws_erase_def CUR_TOKEN_def Let_def r(2) none z set_cur_def)
      then show ?thesis using assms(2) t(2,4) r(2) cur(1) by (simp add: step_defs)
    qed
    ultimately show ?thesis unfolding undone_def step by (intro exI [of _ ?p]) auto
  qed
qed

lemma typing_undone:
  assumes "fsm_inv p" "i \<noteq> Erase" "\<not> (i = Space \<and> overflow p)"
  shows "undone p (fsm_step i c p)"
proof -
  consider "state p = STATE_ERROR" | "state p = STATE_WHITESPACE" "i = Space" | "state p = STATE_WHITESPACE" "i = Character"
    | "state p = STATE_TOKEN" "i = Space" | "state p = STATE_TOKEN" "i = Character"
    using assms(2) by (cases "state p"; cases i) auto
  then show ?thesis
  proof cases
    case 1
    then show ?thesis using assms(1,2)
      by (intro undone_error) (cases i; simp add: cparser_state_func_def cparser_err_space_def cparser_err_char_def)+
  next
    case 2
    show ?thesis unfolding 2(2) by (rule undone_ws_space [OF assms(1) 2(1)])
  next
    case 3
    show ?thesis unfolding 3(2) by (rule undone_ws_char [OF assms(1) 3(1)])
  next
    case 4
    show ?thesis using undone_tok_space [OF assms(1) 4(1)] assms(3) unfolding 4(2) by simp
  next
    case 5
    show ?thesis unfolding 5(2) by (rule undone_tok_char [OF assms(1) 5(1)])
  qed
qed

section \<open>States that differ in what is not read\<close>

lemma alt_cur: "stack_is p st k \<Longrightarrow> CUR_TOKEN (alt n s p) = k\<lparr>tnode := n\<rparr>"
  by (simp add: CUR_TOKEN_def stack_is_def nth_append list_update_append)

lemma alt_match [simp]: "cparser_match (alt n s p) = cparser_match p"
  by (rule match_cong) simp

lemma tok_chars_node [simp]: "tok_chars (k\<lparr>tnode := n\<rparr>) = tok_chars k"
  by (simp add: tok_chars_def)

lemma insert_node: "INSERT_TOK_STK (k\<lparr>tnode := n\<rparr>) c = rbind (INSERT_TOK_STK k c) (\<lambda>k'. Inr (k'\<lparr>tnode := n\<rparr>))"
  by (simp add: INSERT_TOK_STK_def)

lemma delete_node: "DELETE_TOK_STK (k\<lparr>tnode := n\<rparr>) = (DELETE_TOK_STK k)\<lparr>tnode := n\<rparr>"
  by (simp add: DELETE_TOK_STK_def Let_def)

lemma alt_set_cur:
  assumes "stack_is p st k"
  shows "set_cur (k'\<lparr>tnode := n\<rparr>) (alt n s p) = alt n s (set_cur k' p)"
  using assms by (intro parser.equality) (simp_all add: alt_def set_cur_def CUR_TOKEN_def stack_is_def)

lemma alt_update:
  "alt n s (p\<lparr>current_pos := x\<rparr>) = (alt n s p)\<lparr>current_pos := x\<rparr>" "alt n s (p\<lparr>state := y\<rparr>) = (alt n s p)\<lparr>state := y\<rparr>"
  "alt n s (p\<lparr>last_good := z\<rparr>) = (alt n s p)\<lparr>last_good := z\<rparr>"
  by (intro parser.equality; simp add: CUR_TOKEN_def)+

lemma alt_none: "stack_is p st k \<Longrightarrow> alt (tnode k) s p = p\<lparr>out := s\<rparr>"
  by (rule parser.equality) (auto simp: stack_cur, simp add: stack_is_def list_update_append)

lemma alt_ws_erase:
  assumes "stack_is p st k" "cparser_ws_erase p = Inr (t, pr, q)"
  shows "\<exists>m. cparser_ws_erase (alt n s p) = Inr (t, pr, alt m s q)"
proof (cases st)
  case Nil
  then have "token_tos p = 0" using assms(1) by (simp add: stack_is_def)
  then show ?thesis using assms(2) by (auto simp: cparser_ws_erase_def Let_def alt_update split: if_splits)
next
  case (Cons d st')
  obtain r where r: "tokens p = rev st' @ d # k # r" "token_tos p = Suc (length st')" using assms(1) by (auto simp: stack_is_def Cons)
  have d: "tokens (alt n s p) = rev st' @ d # k\<lparr>tnode := n\<rparr> # r" "CUR_TOKEN p = k" using r by (simp_all add: CUR_TOKEN_def nth_append list_update_append)
  have n: "tokens p ! length st' = d" "tokens (alt n s p) ! length st' = d" by (simp_all add: r d nth_append del: alt_fields)
  show ?thesis
  proof (cases "0 < current_pos p \<and> begin_ptr d + int (token_len d) \<ge> int (current_pos p - 1)")
    case False
    then have "current_pos p = 0 \<or> 0 < current_pos p \<and> \<not> int (current_pos p - 1) \<le> begin_ptr d + int (token_len d)" by auto
    then show ?thesis
    proof (elim disjE conjE)
      assume "current_pos p = 0"
      then show ?thesis using assms(2) by (auto simp: cparser_ws_erase_def)
    next
      assume a: "0 < current_pos p" "\<not> int (current_pos p - 1) \<le> begin_ptr d + int (token_len d)"
      have "cparser_ws_erase p = Inr (STATE_WHITESPACE, True, p\<lparr>current_pos := current_pos p - 1\<rparr>)"
        "cparser_ws_erase (alt n s p) = Inr (STATE_WHITESPACE, True, (alt n s p)\<lparr>current_pos := current_pos p - 1\<rparr>)"
        unfolding cparser_ws_erase_def Let_def using a n r(2) by (simp_all del: alt_fields(22))
      then show ?thesis using assms(2) by (auto simp: alt_update)
    qed
  next
    case True
    let ?q = "\<lambda>p. p\<lparr>current_pos := current_pos p - 1, cur_node := tparent d,
      tokens := rev st' @ d\<lparr>tparent := None\<rparr> # k\<lparr>begin_ptr := -1, token_len := 0, tparent := None, tnode := None, tbuf := (tbuf k)[0 := CHR 0x00]\<rparr> # r,
      token_tos := length st'\<rparr>"
    have i: "int (current_pos p) - 1 \<le> begin_ptr d + int (token_len d)" using True by linarith
    have 1: "cparser_ws_erase p = Inr (STATE_TOKEN, True, ?q p)"
      using True i r n d by (simp add: cparser_ws_erase_def Let_def CUR_TOKEN_def set_cur_def nth_append list_update_append)
    have 2: "cparser_ws_erase (alt n s p) = Inr (STATE_TOKEN, True, ?q (alt n s p))"
      using True i r(2) n d by (simp add: cparser_ws_erase_def Let_def CUR_TOKEN_def set_cur_def nth_append list_update_append del: alt_fields(22))
    have "alt (tnode d) s (?q p) = ?q (alt n s p)"
      by (intro parser.equality) (simp_all add: CUR_TOKEN_def nth_append list_update_append)
    then show ?thesis using 1 2 assms(2) by (intro exI [of _ "tnode d"]) simp
  qed
qed

lemma alt_tok_space:
  assumes "stack_is p st k" "cparser_tok_space p = Inr (t, pr, q)"
  shows "\<exists>m. cparser_tok_space (alt n s p) = Inr (t, pr, alt m s q)"
proof -
  note cur = stack_cur [OF assms(1)] alt_cur [OF assms(1)]
  obtain num match b where m: "cparser_match p (tok_chars k) (cur_node p) = Inr (num, match, b)"
    using assms(2) by (auto simp: cparser_tok_space_def cur Let_def rbind_Inr_iff)
  show ?thesis
  proof (cases "1 \<le> num \<and> b")
    case False
    then show ?thesis using assms(2) m by (auto simp: cparser_tok_space_def cur Let_def)
  next
    case True
    let ?k = "k\<lparr>tparent := cur_node p, tnode := match, tbuf := (tbuf k)[token_len k := CHR 0x00]\<rparr>"
    let ?q = "\<lambda>p. ((set_cur ?k p)\<lparr>token_tos := token_tos p + 1\<rparr>)\<lparr>cur_node := match\<rparr>"
    have len: "token_len k < CPARSER_MAX_TOKEN_SIZE" and tos: "token_tos p + 1 < CPARSER_MAX_NUM_TOKENS" and q: "q = ?q p" "t = STATE_WHITESPACE" "pr"
      using assms(2) m True by (auto simp: cparser_tok_space_def cur Let_def set_cur_def split: if_splits)
    then have s: "stack_is ((set_cur ?k p)\<lparr>token_tos := token_tos p + 1\<rparr>) (?k # st) blank_token"
      using stack_push [OF stack_set_cur [OF assms(1), of ?k]] assms(1) by (auto simp: stack_is_def)
    have e: "set_cur ?k (alt n s p) = (set_cur ?k p)\<lparr>out := s\<rparr>" by (intro parser.equality) simp_all
    have c: "CUR_TOKEN ((set_cur ?k (alt n s p))\<lparr>token_tos := token_tos p + 1\<rparr>) = blank_token"
      using stack_cur [OF s] by (simp add: CUR_TOKEN_def)
    have "cparser_tok_space (alt n s p) = Inr (STATE_WHITESPACE, True, ?q (alt n s p))"
      using True m len tos c by (simp add: cparser_tok_space_def cur Let_def blank_token_def)
    moreover have "alt None s (?q p) = ?q (alt n s p)"
    proof -
      have "stack_is (?q p) (?k # st) blank_token" using s by (auto simp: stack_is_def)
      then have "alt (tnode blank_token) s (?q p) = (?q p)\<lparr>out := s\<rparr>" by (rule alt_none)
      then show ?thesis by (simp add: blank_token_def e)
    qed
    ultimately show ?thesis using q by (intro exI [of _ None]) simp
  qed
qed

lemma set_cur_pos: "set_cur k (p\<lparr>current_pos := x\<rparr>) = (set_cur k p)\<lparr>current_pos := x\<rparr>"
  by (simp add: set_cur_def)

lemma cur_pos: "CUR_TOKEN (p\<lparr>current_pos := x\<rparr>) = CUR_TOKEN p"
  by (simp add: CUR_TOKEN_def)

lemma alt_func:
  assumes "stack_is p st k" "cparser_state_func (state p) i c p = Inr (t, pr, q)"
  shows "\<exists>m. cparser_state_func (state p) i c (alt n s p) = Inr (t, pr, alt m s q)"
proof -
  note cur = stack_cur [OF assms(1)] alt_cur [OF assms(1)]
  note set = alt_set_cur [OF assms(1)]
  have b: "k\<lparr>tnode := n, begin_ptr := x\<rparr> = k\<lparr>begin_ptr := x, tnode := n\<rparr>" for x and k :: token by simp
  consider "state p = STATE_WHITESPACE" "i = Erase" | "state p = STATE_TOKEN" "i = Space" | "state p = STATE_WHITESPACE" "i = Space"
    | "state p = STATE_WHITESPACE" "i = Character" | "state p = STATE_TOKEN" "i = Character" | "state p = STATE_TOKEN" "i = Erase"
    | "state p = STATE_ERROR" "i = Erase" | "state p = STATE_ERROR" "i \<noteq> Erase" by (cases "state p"; cases i) auto
  then show ?thesis
  proof cases
    case 1
    with alt_ws_erase [OF assms(1)] assms(2) show ?thesis by (simp add: cparser_state_func_def)
  next
    case 2
    with alt_tok_space [OF assms(1)] assms(2) show ?thesis by (simp add: cparser_state_func_def)
  next
    case 3
    with assms(2) show ?thesis by (auto simp: cparser_state_func_def cparser_ws_space_def)
  next
    case 4
    then obtain num match x where m: "cparser_match p [c] (cur_node p) = Inr (num, match, x)"
      using assms(2) by (auto simp: cparser_state_func_def cparser_ws_char_def rbind_Inr_iff)
    then show ?thesis using 4 assms(2)
      by (cases "INSERT_TOK_STK (k\<lparr>begin_ptr := int (current_pos p)\<rparr>) c")
        (auto simp: cparser_state_func_def cparser_ws_char_def cur b insert_node set split: if_splits)
  next
    case 5
    show ?thesis
    proof (cases "INSERT_TOK_STK k c")
      case (Inr k1)
      then show ?thesis using 5 assms(2)
        by (cases "cparser_match p (tok_chars k1) (cur_node p)")
          (auto simp: cparser_state_func_def cparser_tok_char_def Let_def cur insert_node delete_node set split: if_splits)
    qed (use 5 assms(2) in \<open>auto simp: cparser_state_func_def cparser_tok_char_def Let_def cur split: if_splits\<close>)
  next
    case 6
    with assms(2) show ?thesis
      by (intro exI [of _ n]) (auto simp: cparser_state_func_def cparser_tok_erase_def Let_def cur delete_node b set alt_set_cur [OF stack_set_cur [OF assms(1)]] set_cur_pos alt_update split: if_splits)
  next
    case 7
    with assms(2) show ?thesis
      by (auto simp: cparser_state_func_def cparser_err_erase_def Let_def alt_update cur_pos cur split: if_splits)
  next
    case 8
    with assms(2) show ?thesis by (cases i) (auto simp: cparser_state_func_def cparser_err_space_def cparser_err_char_def)
  qed
qed

lemma alt_step:
  assumes "stack_is p st k" "fsm_step i c p = Inr p'"
  shows "\<exists>m. fsm_step i c (alt n s p) = Inr (alt m s p')"
proof -
  obtain t pr q where q: "cparser_state_func (state p) i c p = Inr (t, pr, q)"
    using assms(2) by (auto simp: fsm_step_def rbind_Inr_iff)
  from alt_func [OF assms(1) q] obtain m where "cparser_state_func (state p) i c (alt n s p) = Inr (t, pr, alt m s q)" by blast
  then show ?thesis using assms(2) q by (intro exI [of _ m]) (auto simp: fsm_step_def Let_def alt_update split: if_splits)
qed

lemma alt_alt: "stack_is p st k \<Longrightarrow> alt n s (alt m r p) = alt n s p"
  using alt_cur [of p st k m r] stack_cur [of p st k] by (intro parser.equality) simp_all

lemma alt_stack: "stack_is p st k \<Longrightarrow> stack_is (alt n s p) st (k\<lparr>tnode := n\<rparr>)"
  by (simp add: stack_is_def CUR_TOKEN_def list_update_append nth_append)

lemma alt_inv: "fsm_inv p \<Longrightarrow> fsm_inv (alt n s p)"
proof -
  assume "fsm_inv p"
  then obtain st k t x where i: "fsm_is p st k t x" by (auto simp: fsm_inv_def)
  then have "stack_is (alt n s p) st (k\<lparr>tnode := n\<rparr>)" "token_is (k\<lparr>tnode := n\<rparr>) t"
    using alt_stack by (auto simp: fsm_is_def token_is_def)
  then have "fsm_is (alt n s p) st (k\<lparr>tnode := n\<rparr>) t x" using i by (cases "state p") (auto simp: fsm_is_def)
  then show ?thesis by (auto simp: fsm_inv_def)
qed

lemma alt_back:
  assumes "fsm_inv p"
  shows "\<exists>m. p = alt m (out p) (alt n s p)"
proof -
  obtain st k where k: "stack_is p st k" using assms by (auto simp: fsm_inv_def fsm_is_def)
  have "alt (tnode k) (out p) (alt n s p) = p" unfolding alt_alt [OF k] by (rule alt_same [OF k refl])
  then show ?thesis by metis
qed

text \<open>The rest of the parser does not change.\<close>

definition rest :: "parser \<Rightarrow> _" where
  "rest p = (cfg p, root_level p, roots p, prompts p, is_privileged_mode p, max_line p, cur_line p, lines p, quitting p, cookies p, user p,
     last_line_idx p, last_rc p, last_end_node p, out p)"

lemma step_frame:
  assumes "fsm_step i c p = Inr p'"
  shows "rest p' = rest p"
proof -
  obtain t pr q where q: "cparser_state_func (state p) i c p = Inr (t, pr, q)"
    using assms by (auto simp: fsm_step_def rbind_Inr_iff)
  have "rest q = rest p"
    using q by (cases "state p"; cases i)
      (auto simp: cparser_state_func_def cparser_ws_erase_def cparser_ws_space_def cparser_ws_char_def cparser_tok_erase_def cparser_tok_space_def
        cparser_tok_char_def cparser_err_erase_def cparser_err_space_def cparser_err_char_def Let_def rbind_Inr_iff set_cur_def rest_def split: if_splits)
  moreover have "rest p' = rest q" using assms q by (auto simp: fsm_step_def Let_def rest_def split: if_splits)
  ultimately show ?thesis by simp
qed

section \<open>Typing with corrections\<close>

definition root_ok :: "parser \<Rightarrow> bool" where
  "root_ok p \<longleftrightarrow> \<not> cdebug (cfg p) \<and> (\<exists>n. roots p ! root_level p = Some n \<and> wf_node n \<and> ntype n \<noteq> NODE_END \<and> height n \<le> CPARSER_MAX_NUM_TOKENS)"

text \<open>Characters that are typed and erased after a reset; the text is what is left.\<close>

inductive typed :: "parser \<Rightarrow> string \<Rightarrow> parser \<Rightarrow> bool" for p0 where
  start: "typed p0 [] (cparser_fsm_reset p0)"
| char: "typed p0 t p \<Longrightarrow> \<not> erases p c \<Longrightarrow> length t + 1 < CPARSER_MAX_LINE_SIZE \<Longrightarrow> cparser_fsm_input c p = Inr p' \<Longrightarrow> typed p0 (t @ [c]) p'"
| erase: "typed p0 (t @ [c]) p \<Longrightarrow> erases p b \<Longrightarrow> cparser_fsm_input b p = Inr p' \<Longrightarrow> typed p0 t p'"

definition input_kind :: "char \<Rightarrow> input_type" where
  "input_kind c = (if c = CHR '' '' then Space else Character)"

lemma fsm_input_char:
  assumes "\<not> erases p c" "current_pos p + 1 < CPARSER_MAX_LINE_SIZE" "\<not> cdebug (cfg p)"
  shows "cparser_fsm_input c p = fsm_step (input_kind c) c p"
proof (cases "fsm_step (input_kind c) c p")
  case (Inr p')
  then have "cfg p' = cfg p" using step_frame [OF Inr] by (simp add: rest_def)
  then show ?thesis using assms Inr by (auto simp: cparser_fsm_input_def input_kind_def)
qed (use assms in \<open>auto simp: cparser_fsm_input_def input_kind_def\<close>)

lemma fsm_input_erase:
  assumes "erases p b" "0 < current_pos p" "\<not> cdebug (cfg p)"
  shows "cparser_fsm_input b p = fsm_step Erase b p"
proof (cases "fsm_step Erase b p")
  case (Inr p')
  then have "cfg p' = cfg p" using step_frame [OF Inr] by (simp add: rest_def)
  then show ?thesis using assms Inr by (auto simp: cparser_fsm_input_def)
qed (use assms in \<open>auto simp: cparser_fsm_input_def\<close>)

lemma reset_inv:
  assumes "root_ok p"
  shows "fsm_inv (cparser_fsm_reset p)"
proof -
  obtain n where n: "roots p ! root_level p = Some n" "wf_node n" "ntype n \<noteq> NODE_END" "height n \<le> CPARSER_MAX_NUM_TOKENS"
    using assms by (auto simp: root_ok_def)
  obtain m where m: "CPARSER_MAX_NUM_TOKENS = Suc m" by (simp add: CPARSER_MAX_NUM_TOKENS_def)
  have "fsm_is (cparser_fsm_reset p) [] blank_token [] n"
    using n by (simp add: fsm_is_def stack_is_def cparser_fsm_reset_def cparser_token_stack_reset_def m)
  then show ?thesis by (auto simp: fsm_inv_def)
qed

lemma run_inv:
  assumes "root_ok p0" "rfold cparser_fsm_input t (cparser_fsm_reset p0) = Inr q" "\<forall>c \<in> set t. \<not> erases p0 c" "length t < CPARSER_MAX_LINE_SIZE"
  shows "fsm_inv q \<and> current_pos q = length t \<and> rest q = rest (cparser_fsm_reset p0)"
  using assms(2-)
proof (induction t arbitrary: q rule: rev_induct)
  case Nil
  then show ?case using reset_inv [OF assms(1)] by (auto simp: cparser_fsm_reset_def cparser_token_stack_reset_def)
next
  case (snoc c t)
  then obtain q1 where q1: "rfold cparser_fsm_input t (cparser_fsm_reset p0) = Inr q1" "cparser_fsm_input c q1 = Inr q"
    by (auto simp: rfold_append rbind_Inr_iff)
  then have i: "fsm_inv q1" "current_pos q1 = length t" "rest q1 = rest (cparser_fsm_reset p0)" using snoc by auto
  then have cfg: "cfg q1 = cfg p0" by (simp add: rest_def cparser_fsm_reset_def cparser_token_stack_reset_def)
  have "cparser_fsm_input c q1 = fsm_step (input_kind c) c q1"
    using snoc.prems(2,3) i(2) cfg assms(1) by (intro fsm_input_char) (auto simp: erases_def root_ok_def)
  then have s: "fsm_step (input_kind c) c q1 = Inr q" using q1(2) by simp
  have "undone q1 (fsm_step (input_kind c) c q1)" 
    by (rule typing_undone [OF i(1)]) (use s overflow_fault in \<open>auto simp: input_kind_def split: if_splits\<close>)
  then show ?case using s i step_frame [OF s] by (auto simp: undone_def)
qed

lemma typed_run:
  assumes "typed p0 t p" "root_ok p0"
  shows "\<exists>q n s. rfold cparser_fsm_input t (cparser_fsm_reset p0) = Inr q \<and> p = alt n s q \<and> (\<forall>c \<in> set t. \<not> erases p0 c) \<and> length t < CPARSER_MAX_LINE_SIZE"
  using assms(1)
proof induction
  case start
  obtain st k where k: "stack_is (cparser_fsm_reset p0) st k" using reset_inv [OF assms(2)] by (auto simp: fsm_inv_def fsm_is_def)
  show ?case using alt_same [OF k refl, symmetric] by (auto simp: CPARSER_MAX_LINE_SIZE_def)
next
  case (char t p c p')
  then obtain q n s where q: "rfold cparser_fsm_input t (cparser_fsm_reset p0) = Inr q" "p = alt n s q" "\<forall>c \<in> set t. \<not> erases p0 c" "length t < CPARSER_MAX_LINE_SIZE"
    by blast
  have i: "fsm_inv q" "current_pos q = length t" "rest q = rest (cparser_fsm_reset p0)" using run_inv [OF assms(2) q(1,3,4)] by auto
  then have cfg: "cfg q = cfg p0" by (simp add: rest_def cparser_fsm_reset_def cparser_token_stack_reset_def)
  then have e: "\<not> erases p0 c" "\<not> erases q c" using char.hyps(2) by (simp_all add: erases_def q(2))
  have d: "\<not> cdebug (cfg q)" using cfg assms(2) by (simp add: root_ok_def)
  have p': "fsm_step (input_kind c) c p = Inr p'" "cparser_fsm_input c q = fsm_step (input_kind c) c q"
    using char.hyps(2-4) fsm_input_char [of p c] fsm_input_char [of q c] i(2) e(2) d by (simp_all add: q(2))
  obtain st k where k: "stack_is q st k" using i(1) by (auto simp: fsm_inv_def fsm_is_def)
  obtain m where m: "q = alt m (out q) p" using alt_back [OF i(1)] q(2) by metis
  obtain x where x: "fsm_step (input_kind c) c q = Inr x"
    using alt_step [OF alt_stack [OF k, of n s], of "input_kind c" c p' m "out q"] p'(1) m by (auto simp: q(2))
  from alt_step [OF k x, of n s] obtain y where "p' = alt y s x" using p'(1) by (auto simp: q(2))
  then show ?case using q x p'(2) e(1) char.hyps(3) by (auto simp: rfold_append)
next
  case (erase t c p b p')
  then obtain q1 n s where q1: "rfold cparser_fsm_input (t @ [c]) (cparser_fsm_reset p0) = Inr q1" "p = alt n s q1" "\<forall>c \<in> set (t @ [c]). \<not> erases p0 c"
    "length (t @ [c]) < CPARSER_MAX_LINE_SIZE" by blast
  then obtain q where q: "rfold cparser_fsm_input t (cparser_fsm_reset p0) = Inr q" "cparser_fsm_input c q = Inr q1" by (auto simp: rfold_append rbind_Inr_iff)
  have i1: "fsm_inv q1" "current_pos q1 = length t + 1" "rest q1 = rest (cparser_fsm_reset p0)" using run_inv [OF assms(2) q1(1,3,4)] by auto
  have i: "fsm_inv q" "current_pos q = length t" "rest q = rest (cparser_fsm_reset p0)" using run_inv [OF assms(2) q(1)] q1(3,4) by auto
  then have cfg: "cfg q = cfg p0" "cfg q1 = cfg p0" using i1(3) by (simp_all add: rest_def cparser_fsm_reset_def cparser_token_stack_reset_def)
  have s: "fsm_step (input_kind c) c q = Inr q1"
    using q(2) q1(3,4) i(2) cfg assms(2) fsm_input_char [of q c] by (auto simp: erases_def root_ok_def)
  have "undone q (fsm_step (input_kind c) c q)"
    by (rule typing_undone [OF i(1)]) (use s overflow_fault in \<open>auto simp: input_kind_def split: if_splits\<close>)
  then obtain m where m: "fsm_step Erase b q1 = Inr (alt m (out q) q)" using s by (auto simp: undone_def)
  obtain st k where k: "stack_is q st k" using i(1) by (auto simp: fsm_inv_def fsm_is_def)
  obtain st1 k1 where k1: "stack_is q1 st1 k1" using i1(1) by (auto simp: fsm_inv_def fsm_is_def)
  from alt_step [OF k1 m, of n s] obtain y where "fsm_step Erase b p = Inr (alt y s q)" using alt_alt [OF k] by (auto simp: q1(2))
  moreover have "cparser_fsm_input b p = fsm_step Erase b p"
    using erase.hyps(2) i1(2) cfg assms(2) by (intro fsm_input_erase) (auto simp: q1(2) root_ok_def)
  ultimately show ?case using erase.hyps(3) q(1) q1(3,4) by auto
qed

text \<open>What holds of a state reached by typing: the shape of the stack, the frame, and progress.\<close>

lemma typed_state:
  assumes "typed p0 t p" "root_ok p0"
  shows "fsm_inv p" "current_pos p = length t" "cfg p = cfg p0" "root_level p = root_level p0" "cur_line p = cur_line p0" "max_line p = max_line p0"
    "lines p = lines p0" "user p = user p0" "roots p = roots p0" "\<forall>c \<in> set t. \<not> erases p c" "length t < CPARSER_MAX_LINE_SIZE"
proof -
  obtain q n s where q: "rfold cparser_fsm_input t (cparser_fsm_reset p0) = Inr q" "p = alt n s q" "\<forall>c \<in> set t. \<not> erases p0 c" "length t < CPARSER_MAX_LINE_SIZE"
    using typed_run [OF assms] by blast
  then have i: "fsm_inv q" "current_pos q = length t" "rest q = rest (cparser_fsm_reset p0)" using run_inv [OF assms(2) q(1,3,4)] by auto
  show "fsm_inv p" unfolding q(2) by (rule alt_inv [OF i(1)])
  show "current_pos p = length t" "cfg p = cfg p0" "root_level p = root_level p0" "cur_line p = cur_line p0" "max_line p = max_line p0"
    "lines p = lines p0" "user p = user p0" "roots p = roots p0" "\<forall>c \<in> set t. \<not> erases p c" "length t < CPARSER_MAX_LINE_SIZE"
    using i q(3,4) by (simp_all add: q(2) rest_def cparser_fsm_reset_def cparser_token_stack_reset_def erases_def)
qed

lemma typed_debug: "typed p0 t p \<Longrightarrow> root_ok p0 \<Longrightarrow> \<not> cdebug (cfg p)"
  using typed_state(3) [of p0 t p] by (simp add: root_ok_def)

lemma typed_char:
  assumes "typed p0 t p" "root_ok p0" "\<not> erases p c" "length t + 1 < CPARSER_MAX_LINE_SIZE" "\<not> (c = CHR '' '' \<and> overflow p)"
  shows "\<exists>p'. fsm_step (input_kind c) c p = Inr p' \<and> cparser_fsm_input c p = Inr p' \<and> typed p0 (t @ [c]) p'"
proof -
  note p = typed_state [OF assms(1,2)]
  have e: "cparser_fsm_input c p = fsm_step (input_kind c) c p"
    using assms(3,4) typed_debug [OF assms(1,2)] p(2) by (intro fsm_input_char) simp_all
  have "undone p (fsm_step (input_kind c) c p)" using assms(5) by (intro typing_undone [OF p(1)]) (auto simp: input_kind_def)
  then obtain p' where "fsm_step (input_kind c) c p = Inr p'" by (auto simp: undone_def)
  then show ?thesis using e typed.char [OF assms(1,3,4)] by simp
qed

lemma typed_erase:
  assumes "typed p0 (t @ [c]) p" "root_ok p0" "erases p b"
  shows "\<exists>p'. fsm_step Erase b p = Inr p' \<and> cparser_fsm_input b p = Inr p' \<and> typed p0 t p'"
proof -
  obtain q n s where q: "rfold cparser_fsm_input (t @ [c]) (cparser_fsm_reset p0) = Inr q" "p = alt n s q" "\<forall>c \<in> set (t @ [c]). \<not> erases p0 c"
    "length (t @ [c]) < CPARSER_MAX_LINE_SIZE" using typed_run [OF assms(1,2)] by blast
  then have i: "fsm_inv q" using run_inv [OF assms(2) q(1,3,4)] by auto
  obtain q0 where q0: "rfold cparser_fsm_input t (cparser_fsm_reset p0) = Inr q0" "cparser_fsm_input c q0 = Inr q" using q(1) by (auto simp: rfold_append rbind_Inr_iff)
  have i0: "fsm_inv q0" "current_pos q0 = length t" "rest q0 = rest (cparser_fsm_reset p0)" using run_inv [OF assms(2) q0(1)] q(3,4) by auto
  then have "cfg q0 = cfg p0" by (simp add: rest_def cparser_fsm_reset_def cparser_token_stack_reset_def)
  then have s: "fsm_step (input_kind c) c q0 = Inr q"
    using q0(2) q(3,4) i0(2) assms(2) fsm_input_char [of q0 c] by (auto simp: erases_def root_ok_def)
  have "undone q0 (fsm_step (input_kind c) c q0)"
    by (rule typing_undone [OF i0(1)]) (use s overflow_fault in \<open>auto simp: input_kind_def split: if_splits\<close>)
  then obtain m where m: "fsm_step Erase b q = Inr (alt m (out q0) q0)" using s by (auto simp: undone_def)
  obtain st1 k1 where k1: "stack_is q st1 k1" using i by (auto simp: fsm_inv_def fsm_is_def)
  from alt_step [OF k1 m, of n s] obtain y where y: "fsm_step Erase b p = Inr y" by (auto simp: q(2))
  moreover have "cparser_fsm_input b p = fsm_step Erase b p"
    using typed_state(2) [OF assms(1,2)] by (intro fsm_input_erase [OF assms(3) _ typed_debug [OF assms(1,2)]]) simp
  ultimately show ?thesis using typed.erase [OF assms(1,3)] by simp
qed

section \<open>Theorems\<close>

text \<open>
  C34. Corrections do not matter: after any typing and erasing the state of the machine is the state after typing the
  text that is left, apart from the node of the token being typed, which nothing reads.
\<close>

theorem typed_as_retyped:
  assumes "typed p0 t p" "root_ok p0"
  shows "\<exists>q. rfold cparser_fsm_input t (cparser_fsm_reset p0) = Inr q \<and>
    p\<lparr>tokens := (tokens p)[token_tos p := (CUR_TOKEN p)\<lparr>tnode := None\<rparr>], out := []\<rparr> =
    q\<lparr>tokens := (tokens q)[token_tos q := (CUR_TOKEN q)\<lparr>tnode := None\<rparr>], out := []\<rparr>"
proof -
  obtain q n s where q: "rfold cparser_fsm_input t (cparser_fsm_reset p0) = Inr q" "p = alt n s q" "\<forall>c \<in> set t. \<not> erases p0 c" "length t < CPARSER_MAX_LINE_SIZE"
    using typed_run [OF assms] by blast
  then obtain st k where k: "stack_is q st k" using run_inv [OF assms(2) q(1,3,4)] by (auto simp: fsm_inv_def fsm_is_def)
  have "alt None [] p = alt None [] q" unfolding q(2) by (rule alt_alt [OF k])
  then show ?thesis using q(1) by (auto simp: alt_def set_cur_def)
qed

text \<open>
  C33. The machine stays in its arrays: after any typing and erasing the stack has its 32 tokens with the current one inside, every token
  is at most its buffer long, the node and the position agree with the text, and the next
  character is processed without a failed assertion or an access out of bounds. The one exception is a space after a complete
  token that fills its buffer, which writes behind it. Erasing never fails when there is text.
\<close>

theorem fsm_type_safe:
  assumes "typed p0 t p" "root_ok p0"
  shows "length (tokens p) = CPARSER_MAX_NUM_TOKENS \<and> token_tos p < CPARSER_MAX_NUM_TOKENS \<and> token_len (CUR_TOKEN p) \<le> CPARSER_MAX_TOKEN_SIZE \<and>
    length (tbuf (CUR_TOKEN p)) = CPARSER_MAX_TOKEN_SIZE \<and> cur_node p \<noteq> None \<and> current_pos p = length t \<and>
    (state p = STATE_ERROR \<longleftrightarrow> last_good p + 1 < int (length t)) \<and>
    (\<forall>c. \<not> erases p c \<longrightarrow> (if c = CHR '' '' \<and> overflow p \<and> length t + 1 < CPARSER_MAX_LINE_SIZE then cparser_fsm_input c p = Inl OutOfBounds
       else \<exists>p'. cparser_fsm_input c p = Inr p')) \<and>
    (\<forall>b. erases p b \<and> t \<noteq> [] \<longrightarrow> (\<exists>p'. cparser_fsm_input b p = Inr p'))"
proof -
  note p = typed_state [OF assms]
  obtain st k u x where f: "fsm_is p st k u x" using p(1) by (auto simp: fsm_inv_def)
  have 1: "length (tokens p) = CPARSER_MAX_NUM_TOKENS" "token_tos p < CPARSER_MAX_NUM_TOKENS" "token_len (CUR_TOKEN p) \<le> CPARSER_MAX_TOKEN_SIZE"
    "length (tbuf (CUR_TOKEN p)) = CPARSER_MAX_TOKEN_SIZE" "cur_node p \<noteq> None" "state p = STATE_ERROR \<longleftrightarrow> last_good p + 1 < int (length t)"
    using f stack_cur [of p st k] p(2) by (auto simp: fsm_is_def token_is_def stack_is_def split: cp_state.splits)
  have 2: "if c = CHR '' '' \<and> overflow p \<and> length t + 1 < CPARSER_MAX_LINE_SIZE then cparser_fsm_input c p = Inl OutOfBounds else \<exists>p'. cparser_fsm_input c p = Inr p'"
    if c: "\<not> erases p c" for c
  proof (cases "length t + 1 < CPARSER_MAX_LINE_SIZE")
    case True
    then have "cparser_fsm_input c p = fsm_step (input_kind c) c p" using c typed_debug [OF assms] p(2) by (intro fsm_input_char) simp_all
    then show ?thesis using True typed_char [OF assms c True] overflow_fault [of p c] by (auto simp: input_kind_def)
  qed (use c p(2) in \<open>auto simp: cparser_fsm_input_def\<close>)
  have 3: "\<exists>p'. cparser_fsm_input b p = Inr p'" if b: "erases p b" "t \<noteq> []" for b
  proof -
    obtain t1 c where "t = t1 @ [c]" using b(2) by (metis rev_exhaust)
    then show ?thesis using typed_erase [of p0 t1 c p b] assms b(1) by auto
  qed
  show ?thesis using 1 2 3 p(2) by blast
qed

section \<open>Witnesses\<close>

definition sample_tree :: node where
  "sample_tree = Node NODE_ROOT 0 (Text []) None [Node NODE_KEYWORD 0 (Text ''show'') None [Node NODE_END 0 (Glue 0) None []]]"

definition sample :: parser where
  "sample = \<lparr>cfg = \<lparr>croot = Some sample_tree, ch_complete = CHR 0x09, ch_erase = CHR 0x08, ch_del = CHR 0x7F, ch_help = CHR ''?'', cprompt = ''CLI>'', fd = 1,
       cdebug = False\<rparr>,
     root_level = 0, roots = [Some sample_tree, None, None, None], prompts = [''CLI>'', [], [], []], cur_node = None, state = STATE_WHITESPACE,
     token_tos = 0, current_pos = 0, last_good = 0, tokens = [], is_privileged_mode = False, max_line = 0, cur_line = 0,
     lines = [\<lparr>llast = 0, lcurrent = 0, lbuf = replicate (CPARSER_MAX_LINE_SIZE + 1) (CHR 0x00)\<rparr>], quitting = False,
     cookies = [0, 0, 0, 0], user = None, last_line_idx = 0, last_rc = CPARSER_OK, last_end_node = None, out = []\<rparr>"

lemma sample_ok: "root_ok sample" "cfg (cparser_fsm_reset sample) = cfg sample"
  by (simp_all add: root_ok_def sample_def sample_tree_def CPARSER_MAX_NUM_TOKENS_def cparser_fsm_reset_def cparser_token_stack_reset_def)

lemma sample_erases: "cfg p = cfg sample \<Longrightarrow> erases p c \<longleftrightarrow> c = CHR 0x08 \<or> c = CHR 0x7F"
  by (auto simp: erases_def sample_def)

text \<open>An \<open>x\<close> is typed and erased, an \<open>s\<close> is typed.\<close>

lemma sample_typed: "\<exists>p. typed sample ''s'' p \<and> cfg p = cfg sample"
proof -
  let ?p = "cparser_fsm_reset sample"
  have p: "typed sample [] ?p" by (rule typed.start)
  obtain p1 where p1: "typed sample ([] @ ''x'') p1"
    using typed_char [OF p sample_ok(1), of "CHR ''x''"] sample_erases [OF sample_ok(2)] by (auto simp: CPARSER_MAX_LINE_SIZE_def)
  have "erases p1 (CHR 0x08)" using sample_erases [of p1] typed_state(3) [OF p1 sample_ok(1)] by simp
  then obtain p2 where p2: "typed sample [] p2" using typed_erase [OF p1 sample_ok(1)] by blast
  obtain p3 where "typed sample ([] @ ''s'') p3"
    using typed_char [OF p2 sample_ok(1), of "CHR ''s''"] sample_erases [OF typed_state(3) [OF p2 sample_ok(1)]] by (auto simp: CPARSER_MAX_LINE_SIZE_def)
  then show ?thesis using typed_state(3) [of sample "''s''" p3] sample_ok(1) by auto
qed

lemma typed_as_retyped_witness:
  "\<exists>p q. typed sample ''s'' p \<and> rfold cparser_fsm_input ''s'' (cparser_fsm_reset sample) = Inr q \<and>
    p\<lparr>tokens := (tokens p)[token_tos p := (CUR_TOKEN p)\<lparr>tnode := None\<rparr>], out := []\<rparr> =
    q\<lparr>tokens := (tokens q)[token_tos q := (CUR_TOKEN q)\<lparr>tnode := None\<rparr>], out := []\<rparr>"
  using sample_typed typed_as_retyped [of sample "''s''"] sample_ok(1) by blast

lemma fsm_type_safe_witness:
  "\<exists>p. typed sample ''s'' p \<and> current_pos p = 1 \<and> token_len (CUR_TOKEN p) \<le> CPARSER_MAX_TOKEN_SIZE \<and> (\<exists>p'. cparser_fsm_input (CHR ''h'') p = Inr p')"
proof -
  obtain p where p: "typed sample ''s'' p" "cfg p = cfg sample" using sample_typed by blast
  note s = fsm_type_safe [OF p(1) sample_ok(1)]
  have "\<not> erases p (CHR ''h'')" using sample_erases [OF p(2)] by simp
  then have "\<exists>p'. cparser_fsm_input (CHR ''h'') p = Inr p'" using s by (auto split: if_splits)
  then show ?thesis using s p(1) by auto
qed

end
