(* ===== verification/CpInput.thy ===== *)
theory CpInput
  imports CpFsm
begin

text \<open>
  The command parser around its state machine (\<open>mgrplane/src/client/cparser.c\<close>, the completion functions of
  \<open>cparser_token.c\<close>): help, completion, execution of a command, and \<open>cparser_input\<close>.

  The glue functions of the commands, which \<open>mk_parser.py\<close> generates, the callbacks of user input and \<open>glob\<close> are the
  arguments of the record \<open>cli_env\<close>. \<open>cparser_input\<close> calls itself through completion and execution, so it gets fuel, which
  also bounds its loops: \<open>None\<close> is a run that used it up.
\<close>

record cli_env =
  glue :: "nat \<Rightarrow> parser \<Rightarrow> (cp_result \<times> parser) res"
  callback :: "nat \<Rightarrow> parser \<Rightarrow> string \<Rightarrow> nat \<Rightarrow> (cp_result \<times> parser) res"
  glob :: "string \<Rightarrow> string list option"

type_synonym 'a cp_run = "'a res option"

type_synonym input_fn = "char \<Rightarrow> parser \<Rightarrow> (cp_result \<times> parser) cp_run"

datatype char_type = CHAR_UNKNOWN | CHAR_REGULAR | CHAR_UP_ARROW | CHAR_DOWN_ARROW | CHAR_LEFT_ARROW | CHAR_RIGHT_ARROW | CHAR_FIRST | CHAR_LAST

section \<open>User input and the record of the last command\<close>

definition cparser_input_reset :: "parser \<Rightarrow> parser" where
  "cparser_input_reset p = p\<lparr>user := None\<rparr>"

text \<open>\<open>do_echo\<close> while a command waits for input of the user.\<close>

definition cparser_is_user_input :: "parser \<Rightarrow> bool option res" where
  "cparser_is_user_input p = (case user p of
     None \<Rightarrow> Inr None
   | Some u \<Rightarrow> if user_input_cb u = None \<or> user_buf_size u = 0 then Inl Exit else Inr (Some (user_do_echo u)))"

definition cparser_record_command :: "cp_result \<Rightarrow> parser \<Rightarrow> parser" where
  "cparser_record_command rc p = p\<lparr>last_line_idx := int (cur_line p), last_rc := rc, last_end_node := cur_node p\<rparr>"

definition cparser_user_input :: "parser \<Rightarrow> string option \<Rightarrow> bool \<Rightarrow> string option \<Rightarrow> nat \<Rightarrow> nat option \<Rightarrow> (cp_result \<times> parser) res" where
  "cparser_user_input p prompt do_echo buf buf_size cb = (case buf of
     None \<Rightarrow> Inr (CPARSER_ERR_INVALID_PARAMS, p)
   | Some b \<Rightarrow>
       if buf_size = 0 then Inr (CPARSER_ERR_INVALID_PARAMS, p)
       else rbind (cparser_is_user_input p) (\<lambda>u.
         if u \<noteq> None then Inr (CPARSER_NOT_OK, p)
         else
           let p1 = (case prompt of None \<Rightarrow> p | Some s \<Rightarrow> prints s p) in
           Inr (CPARSER_OK, p1\<lparr>user := Some \<lparr>user_buf = b, user_buf_size = buf_size, user_buf_count = 0, user_do_echo = do_echo, user_input_cb = cb\<rparr>\<rparr>)))"

definition put_user :: "user_input \<Rightarrow> nat \<Rightarrow> char \<Rightarrow> user_input res" where
  "put_user u i c = (if length (user_buf u) \<le> i then Inl OutOfBounds else Inr (u\<lparr>user_buf := (user_buf u)[i := c]\<rparr>))"

definition call_back :: "cli_env \<Rightarrow> user_input \<Rightarrow> nat \<Rightarrow> parser \<Rightarrow> (cp_result \<times> parser) res" where
  "call_back E u n p = (case user_input_cb u of None \<Rightarrow> Inl Exit | Some f \<Rightarrow> callback E f p (user_buf u) n)"

definition cparser_abort_user_input :: "cli_env \<Rightarrow> parser \<Rightarrow> (cp_result \<times> parser) res" where
  "cparser_abort_user_input E p =
     rbind (cparser_is_user_input p) (\<lambda>w. case user p of
       None \<Rightarrow> Inr (CPARSER_ERR_NOT_EXIST, p)
     | Some u \<Rightarrow>
         rbind (put_user u 0 (CHR 0x00)) (\<lambda>u1.
         rbind (call_back E u1 0 (p\<lparr>user := Some u1\<rparr>)) (\<lambda>(rc, p1).
           Inr (CPARSER_OK, cparser_print_prompt (cparser_input_reset p1)))))"

text \<open>The command, its result and whether it is a privileged one.\<close>

definition cparser_last_command :: "parser \<Rightarrow> (string option \<times> cp_result \<times> bool) res" where
  "cparser_last_command p =
     (if 0 \<le> last_line_idx p then
        Inr (Some (c_text (lbuf (lines p ! nat (last_line_idx p)))), last_rc p,
          case last_end_node p of None \<Rightarrow> False | Some n \<Rightarrow> bit (nflags n) 3)
      else if last_rc p = CPARSER_ERR_NOT_EXIST \<and> last_end_node p = None then Inr (None, last_rc p, False)
      else Inl Exit)"

definition cparser_set_privileged_mode :: "bool \<Rightarrow> parser \<Rightarrow> cp_result \<times> parser" where
  "cparser_set_privileged_mode enable p = (CPARSER_OK, p\<lparr>is_privileged_mode := enable\<rparr>)"

definition cparser_set_root_context :: "nat \<Rightarrow> parser \<Rightarrow> cp_result \<times> parser" where
  "cparser_set_root_context c p = (CPARSER_OK, p\<lparr>cookies := (cookies p)[0 := c]\<rparr>)"

definition cparser_get_root_context :: "parser \<Rightarrow> cp_result \<times> nat" where
  "cparser_get_root_context p = (CPARSER_OK, cookies p ! 0)"

definition cparser_quit :: "parser \<Rightarrow> cp_result \<times> parser" where
  "cparser_quit p = (CPARSER_OK, p\<lparr>quitting := True\<rparr>)"

section \<open>Nested levels\<close>

definition cparser_submode_enter :: "nat \<Rightarrow> string \<Rightarrow> parser \<Rightarrow> (cp_result \<times> parser) res" where
  "cparser_submode_enter cookie prompt p =
     (if root_level p = CPARSER_MAX_NESTED_LEVELS - 1 then Inr (CPARSER_NOT_OK, p)
      else case cur_node p of
        None \<Rightarrow> Inl NullDeref
      | Some n \<Rightarrow> (case children n of
          [] \<Rightarrow> Inl Exit
        | new_root # _ \<Rightarrow>
            if ntype new_root \<noteq> NODE_ROOT then Inl Exit
            else let l = root_level p + 1 in
              Inr (CPARSER_OK, p\<lparr>root_level := l, roots := (roots p)[l := Some new_root],
                prompts := (prompts p)[l := take (CPARSER_MAX_PROMPT - 1) (c_text prompt)], cookies := (cookies p)[l := cookie]\<rparr>)))"

definition cparser_submode_exit :: "parser \<Rightarrow> cp_result \<times> parser" where
  "cparser_submode_exit p = (if root_level p = 0 then (CPARSER_NOT_OK, p) else (CPARSER_OK, p\<lparr>root_level := root_level p - 1\<rparr>))"

section \<open>Help\<close>

fun join_bar :: "string list \<Rightarrow> string" where
  "join_bar [] = []"
| "join_bar [k] = c_text k"
| "join_bar (k # ks) = c_text k @ '' | '' @ join_bar ks"

definition cparser_help_print_node :: "node \<Rightarrow> bool \<Rightarrow> bool \<Rightarrow> parser \<Rightarrow> parser res" where
  "cparser_help_print_node n add_lf print_desc p =
     (if \<not> NODE_USABLE p n then Inr p
      else
        let p1 = (if add_lf then printc (CHR 0x0A) p else p) in
        case ntype n of
          NODE_ROOT \<Rightarrow> Inl Exit
        | NODE_END \<Rightarrow> Inr (prints ''<LF>'' p1)
        | NODE_LIST \<Rightarrow>
            if param_keywords (nparam n) = [] then Inl Exit
            else Inr (prints '' ]'' (prints (join_bar (param_keywords (nparam n))) (prints ''[ '' p1)))
        | _ \<Rightarrow>
            let p2 = prints (param_text (nparam n)) p1 in
            Inr (case ndesc n of None \<Rightarrow> p2 | Some d \<Rightarrow> if print_desc then prints d (prints '' - '' p2) else p2))"

definition cparser_print_error :: "string \<Rightarrow> parser \<Rightarrow> parser" where
  "cparser_print_error msg p =
     (let m = int (length (c_text (prompts p ! root_level p))) + 1 in
      prints msg (printc (CHR ''^'') (emit (replicate (nat (m + last_good p)) (CHR '' '')) (printc (CHR 0x0A) p))))"

definition cur_children :: "parser \<Rightarrow> node list res" where
  "cur_children p = (case cur_node p of None \<Rightarrow> Inl NullDeref | Some n \<Rightarrow> Inr (children n))"

definition help_children :: "node list \<Rightarrow> parser \<Rightarrow> parser res" where
  "help_children cs p = rfold (\<lambda>c. cparser_help_print_node c True True) cs p"

definition help_matching :: "string \<Rightarrow> node list \<Rightarrow> parser \<Rightarrow> parser res" where
  "help_matching t cs p = rfold (\<lambda>c q.
     if \<not> NODE_USABLE q c then Inr q
     else rbind (match_fn c t) (\<lambda>(rc, b). if rc = CPARSER_OK then cparser_help_print_node c True True q else Inr q)) cs p"

definition cparser_help :: "parser \<Rightarrow> (cp_result \<times> parser) res" where
  "cparser_help p =
     rbind (case state p of
       STATE_WHITESPACE \<Rightarrow> rbind (cur_children p) (\<lambda>cs. help_children cs p)
     | STATE_ERROR \<Rightarrow> let p1 = cparser_print_error ''Last known good parse point.'' p in
         rbind (cur_children p1) (\<lambda>cs. help_children cs p1)
     | STATE_TOKEN \<Rightarrow> rbind (cur_children p) (\<lambda>cs. help_matching (tok_chars (CUR_TOKEN p)) cs p))
     (\<lambda>p1. Inr (CPARSER_OK, cparser_line_print True True p1))"

section \<open>Completion\<close>

text \<open>Characters that are entered one by one; each must be taken.\<close>

fun feed :: "input_fn \<Rightarrow> string \<Rightarrow> parser \<Rightarrow> parser cp_run" where
  "feed inp [] p = Some (Inr p)"
| "feed inp (c # cs) p = fbind (inp c p) (\<lambda>(rc, q). if rc \<noteq> CPARSER_OK then Some (Inl Exit) else feed inp cs q)"

definition cparser_complete_keyword :: "input_fn \<Rightarrow> node \<Rightarrow> nat \<Rightarrow> parser \<Rightarrow> parser cp_run" where
  "cparser_complete_keyword inp n len p =
     (if ntype n \<noteq> NODE_KEYWORD then Some (Inl Exit)
      else if length (param_text (nparam n)) < len then Some (Inl OutOfBounds)
      else feed inp (drop len (param_text (nparam n))) p)"

definition cparser_complete_file :: "cli_env \<Rightarrow> input_fn \<Rightarrow> string \<Rightarrow> nat \<Rightarrow> parser \<Rightarrow> parser cp_run" where
  "cparser_complete_file E inp token len p =
     (if len = 0 then Some (Inl Exit)
      else case glob E (c_text token) of
        Some [path] \<Rightarrow> feed inp (drop len (c_text path)) p
      | _ \<Rightarrow> Some (Inr p))"

text \<open>The first keyword with the token as a prefix, and how much of it the later ones share.\<close>

definition common_length :: "string \<Rightarrow> string \<Rightarrow> nat \<Rightarrow> nat \<Rightarrow> nat" where
  "common_length k m n match_len = n + length (takeWhile (\<lambda>i. char_at (drop i k) = char_at (drop i m)) [n..<match_len])"

fun complete_scan :: "string \<Rightarrow> nat \<Rightarrow> string list \<Rightarrow> (string \<times> nat) option \<Rightarrow> (string \<times> nat) option" where
  "complete_scan token n [] acc = acc"
| "complete_scan token n (k # ks) acc =
     complete_scan token n ks
       (if strncmp k token n = 0 then
          case acc of None \<Rightarrow> Some (c_text k, length (c_text k)) | Some (m, l) \<Rightarrow> Some (m, common_length (c_text k) m n l)
        else acc)"

definition cparser_complete_list :: "input_fn \<Rightarrow> node \<Rightarrow> string \<Rightarrow> nat \<Rightarrow> parser \<Rightarrow> parser cp_run" where
  "cparser_complete_list inp n token len p =
     (if len = 0 then Some (Inl Exit)
      else case complete_scan token len (param_keywords (nparam n)) None of
        None \<Rightarrow> Some (Inr p)
      | Some (m, match_len) \<Rightarrow> feed inp (drop len (take match_len m)) p)"

definition cparser_complete_fn :: "cli_env \<Rightarrow> input_fn \<Rightarrow> node \<Rightarrow> token \<Rightarrow> parser \<Rightarrow> parser cp_run" where
  "cparser_complete_fn E inp n k p = (case ntype n of
     NODE_KEYWORD \<Rightarrow> cparser_complete_keyword inp n (token_len k) p
   | NODE_FILE \<Rightarrow> cparser_complete_file E inp (tbuf k) (token_len k) p
   | NODE_LIST \<Rightarrow> cparser_complete_list inp n (tbuf k) (token_len k) p
   | _ \<Rightarrow> Some (Inr p))"

fun match_prefix :: "parser \<Rightarrow> string \<Rightarrow> node list \<Rightarrow> char \<Rightarrow> nat \<Rightarrow> cp_result res" where
  "match_prefix p t [] ch off = Inr CPARSER_OK"
| "match_prefix p t (c # cs) ch off =
     (if \<not> NODE_USABLE p c then match_prefix p t cs ch off
      else rbind (match_fn c t) (\<lambda>(rc, b).
        if rc = CPARSER_NOT_OK then match_prefix p t cs ch off
        else if ntype c \<noteq> NODE_KEYWORD then Inr CPARSER_NOT_OK
        else if length (param_text (nparam c)) < off then Inl OutOfBounds
        else if char_at (drop off (param_text (nparam c))) \<noteq> ch then Inr CPARSER_NOT_OK
        else match_prefix p t cs ch off))"

definition cparser_match_prefix :: "parser \<Rightarrow> string \<Rightarrow> char \<Rightarrow> nat \<Rightarrow> cp_result res" where
  "cparser_match_prefix p t ch off = rbind (cur_children p) (\<lambda>cs. match_prefix p t cs ch off)"

text \<open>The characters of the first match are entered while all matches share them; the number of them is returned.\<close>

fun enter_prefix :: "input_fn \<Rightarrow> nat \<Rightarrow> string \<Rightarrow> nat \<Rightarrow> parser \<Rightarrow> (nat \<times> parser) cp_run" where
  "enter_prefix inp i [] off p = Some (Inr (off, p))"
| "enter_prefix inp i (c # cs) off p =
     fbind (Some (cparser_match_prefix p (tok_chars (tokens p ! i)) c off)) (\<lambda>rc.
       if rc \<noteq> CPARSER_OK then Some (Inr (off, p))
       else fbind (inp c p) (\<lambda>(rc, q). if rc \<noteq> CPARSER_OK then Some (Inl Exit) else enter_prefix inp i cs (off + 1) q))"

text \<open>
  \<open>param\<close> of a list node is the pointer to its first keyword, whose bytes are read as characters; the list node itself
  then stops the loop, whatever they are.
\<close>

definition LIST_NODE_SIZE :: nat where
  "LIST_NODE_SIZE = 16"

definition complete_common :: "input_fn \<Rightarrow> node option \<Rightarrow> parser \<Rightarrow> parser cp_run" where
  "complete_common inp match p = (case match of
     None \<Rightarrow> Some (Inl NullDeref)
   | Some m \<Rightarrow>
       let off = token_len (CUR_TOKEN p) in
       fbind (case nparam m of
         Text s \<Rightarrow> if length (c_text s) < off then Some (Inl OutOfBounds) else enter_prefix inp (token_tos p) (drop off (c_text s)) off p
       | _ \<Rightarrow> if LIST_NODE_SIZE \<le> off then Some (Inl OutOfBounds) else Some (Inr (off, p)))
       (\<lambda>(off1, p1). if off1 = off then fbind (Some (cparser_help p1)) (\<lambda>(rc, p2). Some (Inr p2)) else Some (Inr p1)))"

text \<open>\<open>keep_going\<close> and the parser.\<close>

definition cparser_complete_one_level :: "cli_env \<Rightarrow> input_fn \<Rightarrow> parser \<Rightarrow> (bool \<times> parser) cp_run" where
  "cparser_complete_one_level E inp p = (case state p of
     STATE_ERROR \<Rightarrow> Some (Inr (False, printc (CHR 0x07) p))
   | STATE_WHITESPACE \<Rightarrow> (case map_option children (cur_node p) of
       Some [c] \<Rightarrow>
         if ntype c = NODE_KEYWORD then fbind (feed inp (param_text (nparam c) @ '' '') p) (\<lambda>q. Some (Inr (False, q)))
         else fbind (Some (cparser_help p)) (\<lambda>(rc, q). Some (Inr (False, q)))
     | _ \<Rightarrow> fbind (Some (cparser_help p)) (\<lambda>(rc, q). Some (Inr (False, q))))
   | STATE_TOKEN \<Rightarrow>
       let k = CUR_TOKEN p in
       fbind (Some (cparser_match p (tok_chars k) (cur_node p))) (\<lambda>(num_matches, match, is_complete).
         if num_matches = 1 \<and> is_complete then
           (case match of
              None \<Rightarrow> Some (Inl NullDeref)
            | Some m \<Rightarrow> fbind (cparser_complete_fn E inp m k p) (\<lambda>p1. fbind (feed inp '' '' p1) (\<lambda>p2. Some (Inr (True, p2)))))
         else fbind (complete_common inp match p) (\<lambda>q. Some (Inr (False, q)))))"

fun complete_loop :: "cli_env \<Rightarrow> input_fn \<Rightarrow> nat \<Rightarrow> parser \<Rightarrow> parser cp_run" where
  "complete_loop E inp 0 p = None"
| "complete_loop E inp (Suc n) p =
     fbind (cparser_complete_one_level E inp p) (\<lambda>(keep_going, q). if keep_going then complete_loop E inp n q else Some (Inr q))"

section \<open>Execution of a command\<close>

definition incomplete_cmd :: "parser \<Rightarrow> cp_result \<times> parser" where
  "incomplete_cmd p =
     (let p1 = cparser_print_error (''Incomplete command'' @ [CHR 0x0A]) p in
      (CPARSER_ERR_INCOMP_CMD, cparser_print_prompt (cparser_fsm_reset (cparser_record_command CPARSER_ERR_INCOMP_CMD p1))))"

definition finish_cmd :: "cp_result \<Rightarrow> parser \<Rightarrow> (cp_result \<times> parser) res" where
  "finish_cmd rc p =
     (let p1 = cparser_fsm_reset (cparser_record_command rc p) in
      rbind (cparser_is_user_input p1) (\<lambda>u. Inr (rc, if u = None then cparser_print_prompt p1 else p1)))"

text \<open>A node with a keyword as its only child is left through that keyword.\<close>

fun keyword_loop :: "input_fn \<Rightarrow> nat \<Rightarrow> parser \<Rightarrow> parser cp_run" where
  "keyword_loop inp 0 p = None"
| "keyword_loop inp (Suc n) p =
     fbind (Some (cur_children p)) (\<lambda>cs. case cs of
       [] \<Rightarrow> Some (Inl Exit)
     | [c] \<Rightarrow>
         if ntype c = NODE_KEYWORD \<and> NODE_USABLE p c then
           fbind (cparser_complete_keyword inp c (token_len (CUR_TOKEN p)) p) (\<lambda>p1. fbind (feed inp '' '' p1) (keyword_loop inp n))
         else Some (Inr p)
     | _ \<Rightarrow> Some (Inr p))"

definition run_glue :: "cli_env \<Rightarrow> node \<Rightarrow> parser \<Rightarrow> (cp_result \<times> parser) res" where
  "run_glue E c p =
     (case nparam c of
        Glue g \<Rightarrow> rbind (glue E g (printc (CHR 0x0A) (p\<lparr>cur_node := Some c\<rparr>))) (\<lambda>(rc, q). finish_cmd rc q)
      | _ \<Rightarrow> Inl OutOfBounds)"

definition execute_end :: "cli_env \<Rightarrow> parser \<Rightarrow> (cp_result \<times> parser) res" where
  "execute_end E p =
     rbind (cur_children p) (\<lambda>cs. case find (\<lambda>c. ntype c = NODE_END \<and> NODE_USABLE p c) cs of
       Some c \<Rightarrow> run_glue E c p
     | None \<Rightarrow>
         if token_tos p \<noteq> 0 then Inr (incomplete_cmd p)
         else Inr (CPARSER_OK, cparser_print_prompt (printc (CHR 0x0A) (cparser_fsm_reset (cparser_record_command CPARSER_OK p)))))"

definition cparser_execute_cmd :: "cli_env \<Rightarrow> input_fn \<Rightarrow> nat \<Rightarrow> parser \<Rightarrow> (cp_result \<times> parser) cp_run" where
  "cparser_execute_cmd E inp n p = (case state p of
     STATE_ERROR \<Rightarrow> Some (finish_cmd CPARSER_ERR_PARSE_ERR (cparser_print_error (''Parse error'' @ [CHR 0x0A]) p))
   | STATE_WHITESPACE \<Rightarrow> fbind (keyword_loop inp n p) (\<lambda>q. Some (execute_end E q))
   | STATE_TOKEN \<Rightarrow>
       let k = CUR_TOKEN p in
       fbind (Some (cparser_match p (tok_chars k) (cur_node p))) (\<lambda>(num, match, is_complete).
         if 1 \<le> num \<and> is_complete then
           (case match of
              None \<Rightarrow> Some (Inl NullDeref)
            | Some m \<Rightarrow> fbind (cparser_complete_fn E inp m k p) (\<lambda>p1. fbind (feed inp '' '' p1) (\<lambda>p2.
                fbind (keyword_loop inp n p2) (\<lambda>q. Some (execute_end E q)))))
         else Some (Inr (incomplete_cmd p))))"

section \<open>Input\<close>

definition user_char :: "cli_env \<Rightarrow> char \<Rightarrow> user_input \<Rightarrow> parser \<Rightarrow> (cp_result \<times> parser) res" where
  "user_char E ch u p =
     (if ch = CHR 0x0A then
        rbind (put_user u (user_buf_count u) (CHR 0x00)) (\<lambda>u1.
        rbind (call_back E u1 (user_buf_count u1) (p\<lparr>user := Some u1\<rparr>)) (\<lambda>(rc, p1).
          Inr (rc, cparser_print_prompt (cparser_input_reset p1))))
      else if erases p ch then
        let p1 = p\<lparr>user := Some (u\<lparr>user_buf_count := user_buf_count u - 1\<rparr>)\<rparr> in
        Inr (CPARSER_OK, if user_do_echo u then printc (CHR 0x08) p1 else p1)
      else if user_buf_count u + 1 < user_buf_size u then
        rbind (put_user u (user_buf_count u) ch) (\<lambda>u1.
          let p1 = p\<lparr>user := Some (u1\<lparr>user_buf_count := user_buf_count u1 + 1\<rparr>)\<rparr> in
          Inr (CPARSER_OK, if user_do_echo u then printc ch p1 else p1))
      else Inr (CPARSER_OK, p))"

text \<open>Characters \<open>[i..<j]\<close> of the line go into the state machine.\<close>

definition enter_line :: "nat \<Rightarrow> nat \<Rightarrow> parser \<Rightarrow> parser res" where
  "enter_line i j p = rfold (\<lambda>n q. rbind (cparser_line_char q n) (\<lambda>c. cparser_fsm_input c q)) [i..<j] p"

definition recall :: "parser \<Rightarrow> parser res" where
  "recall p = (let p1 = cparser_fsm_reset p in enter_line 0 (cparser_line_current p1) p1)"

fun walk_line :: "(parser \<Rightarrow> char \<times> parser) \<Rightarrow> nat \<Rightarrow> parser \<Rightarrow> parser cp_run" where
  "walk_line mv 0 p = None"
| "walk_line mv (Suc n) p =
     (case mv p of (ch, p1) \<Rightarrow> if ch = CHR 0x00 then Some (Inr p1) else fbind (Some (cparser_fsm_input ch p1)) (walk_line mv n))"

definition special :: "cli_env \<Rightarrow> input_fn \<Rightarrow> nat \<Rightarrow> char \<Rightarrow> parser \<Rightarrow> (cp_result \<times> parser) cp_run" where
  "special E inp n ch p =
     (if ch = ch_complete (cfg p) then fbind (complete_loop E inp n p) (\<lambda>q. Some (Inr (CPARSER_OK, q)))
      else if ch = ch_help (cfg p) then fbind (Some (cparser_help p)) (\<lambda>(rc, q). Some (Inr (CPARSER_OK, q)))
      else if ch = CHR 0x0A then fbind (cparser_execute_cmd E inp n p) (\<lambda>(rc, q). Some (Inr (rc, cparser_line_advance q)))
      else fbind (Some (cparser_fsm_input ch p)) (\<lambda>q. Some (Inr (CPARSER_OK, q))))"

text \<open>A regular character goes into the line first; \<open>None\<close> when there is nothing to delete.\<close>

definition regular :: "char \<Rightarrow> parser \<Rightarrow> parser option res" where
  "regular ch p =
     (if ch_complete (cfg p) = ch \<or> ch_help (cfg p) = ch then Inr (Some p)
      else if erases p ch then
        rbind (cparser_line_delete p) (\<lambda>(rc, q).
          if rc = CPARSER_ERR_INVALID_PARAMS then Inl Exit else Inr (if rc = CPARSER_ERR_NOT_EXIST then None else Some q))
      else if ch = CHR 0x0A then rbind (enter_line (cparser_line_current p) (cparser_line_last p) p) (\<lambda>q. Inr (Some q))
      else Inr (Some (snd (cparser_line_insert ch p))))"

definition input_body :: "cli_env \<Rightarrow> input_fn \<Rightarrow> nat \<Rightarrow> char \<Rightarrow> char_type \<Rightarrow> parser \<Rightarrow> (cp_result \<times> parser) cp_run" where
  "input_body E inp n ch ch_type p =
     fbind (Some (cparser_is_user_input p)) (\<lambda>w. case user p of
       Some u \<Rightarrow> if ch_type \<noteq> CHAR_REGULAR then Some (Inr (CPARSER_OK, p)) else Some (user_char E ch u p)
     | None \<Rightarrow> (case ch_type of
         CHAR_REGULAR \<Rightarrow> fbind (Some (regular ch p)) (\<lambda>r. case r of None \<Rightarrow> Some (Inr (CPARSER_OK, p)) | Some q \<Rightarrow> special E inp n ch q)
       | CHAR_UP_ARROW \<Rightarrow> fbind (Some (recall (cparser_line_prev_line p))) (\<lambda>q. Some (Inr (CPARSER_OK, q)))
       | CHAR_DOWN_ARROW \<Rightarrow> fbind (Some (recall (cparser_line_next_line p))) (\<lambda>q. Some (Inr (CPARSER_OK, q)))
       | CHAR_LEFT_ARROW \<Rightarrow> (case cparser_line_prev_char p of (c, q) \<Rightarrow>
           if c = CHR 0x00 then Some (Inr (CPARSER_OK, printc (CHR 0x07) q)) else special E inp n c q)
       | CHAR_RIGHT_ARROW \<Rightarrow> (case cparser_line_next_char p of (c, q) \<Rightarrow>
           if c = CHR 0x00 then Some (Inr (CPARSER_OK, printc (CHR 0x07) q)) else special E inp n c q)
       | CHAR_FIRST \<Rightarrow> fbind (walk_line cparser_line_prev_char n p) (\<lambda>q. Some (Inr (CPARSER_OK, q)))
       | CHAR_LAST \<Rightarrow> fbind (walk_line cparser_line_next_char n p) (\<lambda>q. Some (Inr (CPARSER_OK, q)))
       | CHAR_UNKNOWN \<Rightarrow> Some (Inr (CPARSER_NOT_OK, printc (CHR 0x07) p))))"

fun cparser_input :: "cli_env \<Rightarrow> nat \<Rightarrow> char \<Rightarrow> char_type \<Rightarrow> parser \<Rightarrow> (cp_result \<times> parser) cp_run" where
  "cparser_input E 0 ch ch_type p = None"
| "cparser_input E (Suc n) ch ch_type p = input_body E (\<lambda>c. cparser_input E n c CHAR_REGULAR) n ch ch_type p"

end
