(* ===== verification/CpParse.thy ===== *)
theory CpParse
  imports CpErase CpMatch CpInput
begin

text \<open>
  What the state machine computes: a line of words is parsed word by word against the tree, and the command runs the
  glue function of the end node it leads to.
\<close>

section \<open>Prefixes of a token match\<close>

lemma strncmp_append: "strncmp (v @ u) k (length (v @ u)) = 0 \<Longrightarrow> strncmp v k (length v) = 0"
proof (induction v arbitrary: k)
  case (Cons c v)
  then show ?case by (auto simp: char_at_def code_eq split: if_splits)
qed simp

lemma float_loop_append: "float_loop pt (a @ b) = (CPARSER_OK, x) \<Longrightarrow> float_loop pt a = (CPARSER_OK, True)"
  by (induction a arbitrary: pt) (auto split: if_splits)

lemma float_prefix:
  assumes "cparser_match_float (v @ u) = Inr (CPARSER_OK, True)" "v \<noteq> []"
  shows "\<exists>b. cparser_match_float v = Inr (CPARSER_OK, b)"
proof -
  obtain c v' where v: "v = c # v'" using assms(2) by (cases v) auto
  let ?signed = "c = CHR ''+'' \<or> c = CHR ''-''"
  show ?thesis
  proof (cases "?signed \<and> v' = []")
    case False
    let ?r = "if ?signed then v' else v"
    obtain d r where r: "?r = d # r" using False by (cases "?r") (auto simp: v split: if_splits)
    have "\<exists>x. float_loop False (d # r @ u) = (CPARSER_OK, x)" "isdigit d"
      using assms(1) r by (auto simp: v cparser_match_float_def Let_def char_at_def split: if_splits)
    then have "float_loop False (d # r) = (CPARSER_OK, True)" using float_loop_append [of False "d # r" u] by auto
    then show ?thesis using r \<open>isdigit d\<close> False by (auto simp: v cparser_match_float_def Let_def char_at_def split: if_splits)
  qed (auto simp: v cparser_match_float_def char_at_def)
qed

lemma prefix_matches:
  assumes "match_fn c (v @ u) = Inr (CPARSER_OK, b)" "v \<noteq> []" "b \<or> ntype c = NODE_KEYWORD"
  shows "\<exists>b. match_fn c v = Inr (CPARSER_OK, b)"
proof -
  have a: "v @ u \<noteq> []" using assms(2) by simp
  have list: "\<exists>b. cparser_match_list ks v = Inr (CPARSER_OK, b)" if "cparser_match_list ks (v @ u) = Inr (CPARSER_OK, b)" for ks b
    using that strncmp_append [of v u] by (auto simp: cparser_match_list_def Let_def filter_empty_conv split: if_splits)
  show ?thesis
  proof (cases "ntype c")
    case NODE_KEYWORD
    have e: "\<exists>s. c_text s = param_text (nparam c)" by (cases "nparam c") (auto simp: c_text_def intro: exI [of _ "[]"])
    then obtain s where s: "param_text (nparam c) = c_text s" by metis
    show ?thesis using assms(1) keyword.refused [OF a, of s] keyword.refused [OF assms(2), of s] by (auto simp: match_fn_def NODE_KEYWORD s)
  next
    case NODE_UINT
    then show ?thesis using assms(1) uint.refused [OF a] uint.refused [OF assms(2)] by (auto simp: match_fn_def)
  next
    case NODE_UINT64
    then show ?thesis using assms(1) uint.refused [OF a] uint.refused [OF assms(2)] by (auto simp: match_fn_def)
  next
    case NODE_INT
    then show ?thesis using assms(1) int.refused [OF a] int.refused [OF assms(2)] by (auto simp: match_fn_def)
  next
    case NODE_INT64
    then show ?thesis using assms(1) int.refused [OF a] int.refused [OF assms(2)] by (auto simp: match_fn_def)
  next
    case NODE_HEX
    then show ?thesis using assms(1) hex.refused [OF a] hex.refused [OF assms(2)] by (auto simp: match_fn_def)
  next
    case NODE_HEX64
    then show ?thesis using assms(1) hex.refused [OF a] hex.refused [OF assms(2)] by (auto simp: match_fn_def)
  next
    case NODE_FLOAT
    then show ?thesis using assms float_prefix [of v u] by (auto simp: match_fn_def)
  next
    case NODE_MACADDR
    then show ?thesis using assms(1) macaddr.refused [OF a] macaddr.refused [OF assms(2)] by (auto simp: match_fn_def)
  next
    case NODE_IPV4ADDR
    then show ?thesis using assms(1) ipv4addr.refused [OF a] ipv4addr.refused [OF assms(2)] by (auto simp: match_fn_def)
  next
    case NODE_LIST
    then show ?thesis using assms(1) list by (simp add: match_fn_def)
  qed (use assms(1) in \<open>auto simp: match_fn_def cparser_match_root_def cparser_match_end_def cparser_match_string_def cparser_match_file_def\<close>)
qed

definition hit :: "parser \<Rightarrow> string \<Rightarrow> node \<Rightarrow> bool \<Rightarrow> bool" where
  "hit p t c b \<longleftrightarrow> NODE_USABLE p c \<and> match_fn c t = Inr (CPARSER_OK, b)"

lemma match_children_hits:
  assumes "match_children p t cs (num, m, b) = Inr (num', m', b')"
  shows "num \<le> num'" "num < num' \<longleftrightarrow> (\<exists>c \<in> set cs. \<exists>b. hit p t c b)" "b' \<Longrightarrow> b \<or> (\<exists>c \<in> set cs. hit p t c True)"
    "m' = Some x \<Longrightarrow> m = Some x \<or> (x \<in> set cs \<and> (\<exists>b. hit p t x b))"
proof -
  have "num \<le> num' \<and> (num < num' \<longleftrightarrow> (\<exists>c \<in> set cs. \<exists>b. hit p t c b)) \<and> (b' \<longrightarrow> b \<or> (\<exists>c \<in> set cs. hit p t c True)) \<and>
    (m' = Some x \<longrightarrow> m = Some x \<or> (x \<in> set cs \<and> (\<exists>b. hit p t x b)))"
    using assms
  proof (induction cs arbitrary: num m b)
    case (Cons c cs)
    show ?case
    proof (cases "NODE_USABLE p c")
      case False
      then show ?thesis using Cons by (auto simp: hit_def)
    next
      case True
      then obtain rc lc where m: "match_fn c t = Inr (rc, lc)" using Cons.prems by (auto simp: rbind_Inr_iff)
      show ?thesis
      proof (cases "rc = CPARSER_OK")
        case False
        then have "match_children p t cs (num, m, b) = Inr (num', m', b')" using Cons.prems True m by simp
        from Cons.IH [OF this] show ?thesis using False m by (auto simp: hit_def)
      next
        case rc: True
        then have h: "hit p t c lc" using True m by (simp add: hit_def)
        obtain m1 b1 where s: "match_children p t cs (num + 1, m1, b1) = Inr (num', m', b')" "b1 \<longrightarrow> b \<or> lc" "m1 = Some c \<or> m1 = m"
          using Cons.prems True m rc by (cases m) (auto split: if_splits)
        from Cons.IH [OF s(1)] show ?thesis using h s(2,3) by (cases lc) auto
      qed
    qed
  qed auto
  then show "num \<le> num'" "num < num' \<longleftrightarrow> (\<exists>c \<in> set cs. \<exists>b. hit p t c b)" "b' \<Longrightarrow> b \<or> (\<exists>c \<in> set cs. hit p t c True)"
    "m' = Some x \<Longrightarrow> m = Some x \<or> (x \<in> set cs \<and> (\<exists>b. hit p t x b))" by blast+
qed

lemma matched_prefix:
  assumes "cparser_match p (v @ u) (Some n) = Inr (num, m, True)" "0 < num" "v \<noteq> []" "cparser_match p v (Some n) = Inr (num', m', b')"
  shows "0 < num'"
proof -
  obtain b where c: "match_children p (v @ u) (children n) (0, None, False) = Inr (num, m, b)"
    "b \<or> num = 1 \<and> (case m of None \<Rightarrow> False | Some m \<Rightarrow> ntype m = NODE_KEYWORD)"
    using assms(1) by (auto simp: cparser_match_def rbind_Inr_iff)
  have "\<exists>c \<in> set (children n). \<exists>b. hit p (v @ u) c b \<and> (b \<or> ntype c = NODE_KEYWORD)"
  proof (cases b)
    case True
    then show ?thesis using match_children_hits(3) [OF c(1)] by blast
  next
    case False
    then obtain x where "m = Some x" "ntype x = NODE_KEYWORD" using c(2) by (auto split: option.splits)
    then show ?thesis using match_children_hits(4) [OF c(1), of x] by blast
  qed
  then obtain x bx where x: "x \<in> set (children n)" "hit p (v @ u) x bx" "bx \<or> ntype x = NODE_KEYWORD" by blast
  then have "\<exists>b. hit p v x b" using prefix_matches [of x v u bx] assms(3) by (auto simp: hit_def)
  moreover obtain b where d: "match_children p v (children n) (0, None, False) = Inr (num', m', b)"
    using assms(4) by (auto simp: cparser_match_def rbind_Inr_iff)
  ultimately show ?thesis using match_children_hits(2) [OF d] x(1) by blast
qed

section \<open>Steps of the machine\<close>

lemma stack_unique: "stack_is p st k \<Longrightarrow> stack_is p st' k' \<Longrightarrow> st = st' \<and> k = k'"
  by (auto simp: stack_is_def)

lemma fsm_is_unique:
  assumes "fsm_inv p" "stack_is p st k" "token_is k t" "cur_node p = Some n"
  shows "fsm_is p st k t n"
proof -
  obtain st' k' t' n' where f: "fsm_is p st' k' t' n'" using assms(1) by (auto simp: fsm_inv_def)
  then have "st' = st" "k' = k" using stack_unique [OF _ assms(2), of st' k'] by (auto simp: fsm_is_def)
  moreover have "t' = t" using f assms(3) \<open>k' = k\<close> token_is_chars [of k] unfolding fsm_is_def by metis
  ultimately show ?thesis using f assms(4) by (auto simp: fsm_is_def)
qed

lemma step_ok:
  assumes "fsm_inv p" "i \<noteq> Erase" "\<not> (i = Space \<and> overflow p)"
  shows "\<exists>p'. fsm_step i c p = Inr p' \<and> fsm_inv p'"
  using typing_undone [OF assms] by (auto simp: undone_def)

lemma char_step:
  assumes "fsm_is p st k t n" "state p = (if t = [] then STATE_WHITESPACE else STATE_TOKEN)" "length t < CPARSER_MAX_TOKEN_SIZE"
    "cparser_match p (t @ [c]) (Some n) = Inr (num, m, b)"
  shows "\<exists>p'. fsm_step Character c p = Inr p' \<and> fsm_inv p' \<and>
    (if num = 0 then state p' = STATE_ERROR else state p' = STATE_TOKEN \<and> (\<exists>k'. fsm_is p' st k' (t @ [c]) n))"
proof -
  note p = assms(1) [unfolded fsm_is_def]
  have cur: "CUR_TOKEN p = k" "cur_node p = Some n" "token_len k = length t" using p stack_cur by (auto simp: token_is_def)
  have "fsm_inv p" using assms(1) unfolding fsm_inv_def by blast
  then obtain p' where p': "fsm_step Character c p = Inr p'" "fsm_inv p'" using step_ok [of p Character c] by auto
  let ?b = "if t = [] then int (current_pos p) else begin_ptr k"
  obtain k' where k': "INSERT_TOK_STK (k\<lparr>begin_ptr := ?b\<rparr>) c = Inr k'" "token_is k' (t @ [c])" using insert_tok [of k t ?b c] p assms(3) by auto
  show ?thesis
  proof (cases "num = 0")
    case True
    have "state p' = STATE_ERROR"
      using p'(1) assms(2-4) cur k' True token_is_chars [OF k'(2)]
      by (cases "t = []") (auto simp: step_defs cparser_ws_char_def cparser_tok_char_def)
    then show ?thesis using p' True by simp
  next
    case False
    have e: "p' = (set_cur k' p)\<lparr>state := STATE_TOKEN, current_pos := current_pos p + 1, last_good := int (current_pos p)\<rparr>"
      using p'(1) assms(2-4) cur k' False token_is_chars [OF k'(2)]
      by (cases "t = []") (auto simp: step_defs cparser_ws_char_def cparser_tok_char_def)
    have "stack_is p' st k'" using stack_set_cur [of p st k k'] p by (simp add: e stack_is_def)
    then have "fsm_is p' st k' (t @ [c]) n" using k'(2) cur(2) by (intro fsm_is_unique [OF p'(2)]) (simp_all add: e)
    then show ?thesis using p' False e by auto
  qed
qed

lemma space_step:
  assumes "fsm_is p st k t n" "state p = STATE_TOKEN" "length t < CPARSER_MAX_TOKEN_SIZE" "cparser_match p t (Some n) = Inr (num, m, b)"
  shows "\<exists>p'. fsm_step Space c p = Inr p' \<and> fsm_inv p' \<and>
    (if 0 < num \<and> b then state p' = STATE_WHITESPACE \<and> (\<exists>d x. m = Some x \<and> fsm_is p' (d # st) blank_token [] x \<and>
       token_is d t \<and> tparent d = Some n \<and> tnode d = Some x) else state p' = STATE_ERROR)"
proof -
  note p = assms(1) [unfolded fsm_is_def]
  have cur: "CUR_TOKEN p = k" "cur_node p = Some n" "token_len k = length t" "tok_chars k = t" "t \<noteq> []"
    using p stack_cur token_is_chars assms(2) by (auto simp: token_is_def)
  have "\<not> overflow p" "fsm_inv p" using cur assms(1,3) unfolding fsm_inv_def by (auto simp: overflow_def)
  then obtain p' where p': "fsm_step Space c p = Inr p'" "fsm_inv p'" using step_ok [of p Space c] by auto
  show ?thesis
  proof (cases "0 < num \<and> b")
    case False
    then have "state p' = STATE_ERROR" using p'(1) assms(2,4) cur by (auto simp: step_defs cparser_tok_space_def)
    then show ?thesis using p' False by auto
  next
    case True
    obtain x where x: "m = Some x" using match_returns [OF cur(5), of n p] p assms(4) True by auto
    let ?d = "k\<lparr>tparent := Some n, tnode := Some x, tbuf := (tbuf k)[length t := CHR 0x00]\<rparr>"
    obtain r where "CPARSER_MAX_TOKEN_SIZE - length t = Suc r" using assms(3) by (metis Suc_diff_Suc)
    then have d: "token_is ?d t" using p by (auto simp: token_is_def list_update_append)
    have e: "p' = ((set_cur ?d p)\<lparr>token_tos := token_tos p + 1\<rparr>)\<lparr>cur_node := Some x, state := STATE_WHITESPACE, current_pos := current_pos p + 1,
        last_good := int (current_pos p)\<rparr>" and tos: "token_tos p + 1 < CPARSER_MAX_NUM_TOKENS"
      using p'(1) assms(2-4) cur True x by (auto simp: step_defs cparser_tok_space_def split: if_splits)
    have "stack_is ((set_cur ?d p)\<lparr>token_tos := token_tos p + 1\<rparr>) (?d # st) blank_token"
      using stack_push [OF stack_set_cur [of p st k ?d]] p tos by (simp add: stack_is_def)
    then have s: "stack_is p' (?d # st) blank_token" by (auto simp: e stack_is_def)
    have "cur_node p' = Some x" by (simp add: e)
    from fsm_is_unique [OF p'(2) s blank_is(1) this] show ?thesis using p' True x d e by auto
  qed
qed

lemma error_step:
  assumes "fsm_inv p" "state p = STATE_ERROR" "i \<noteq> Erase"
  shows "\<exists>p'. fsm_step i c p = Inr p' \<and> fsm_inv p' \<and> state p' = STATE_ERROR"
proof -
  have "\<not> (i = Space \<and> overflow p)" using assms(2) by (simp add: overflow_def)
  then obtain p' where p': "fsm_step i c p = Inr p'" "fsm_inv p'" using step_ok [OF assms(1,3)] by blast
  then have "state p' = STATE_ERROR" using assms(2,3) by (cases i) (auto simp: step_defs cparser_err_space_def cparser_err_char_def)
  then show ?thesis using p' by blast
qed

section \<open>Words\<close>

definition steps :: "string \<Rightarrow> parser \<Rightarrow> parser res" where
  "steps t p = rfold (\<lambda>c. fsm_step (input_kind c) c) t p"

lemma steps_append: "steps (s @ t) p = rbind (steps s p) (steps t)"
  by (simp add: steps_def [abs_def] rfold_append)

lemma input_kind_typed [simp]: "input_kind c \<noteq> Erase"
  by (simp add: input_kind_def)

lemma steps_one: "steps [c] p = fsm_step (input_kind c) c p"
  by (cases "fsm_step (input_kind c) c p") (simp_all add: steps_def)

lemma steps_frame: "steps t p = Inr p' \<Longrightarrow> rest p' = rest p"
proof (induction t arbitrary: p' rule: rev_induct)
  case (snoc c t)
  then show ?case using step_frame by (fastforce simp: steps_append steps_one rbind_Inr_iff)
qed (simp add: steps_def)

lemma steps_match: "steps t p = Inr p' \<Longrightarrow> cparser_match p' = cparser_match p"
  using steps_frame [of t p p'] by (intro match_cong) (simp add: rest_def)

lemma steps_error:
  assumes "fsm_inv p" "state p = STATE_ERROR"
  shows "\<exists>p'. steps t p = Inr p' \<and> fsm_inv p' \<and> state p' = STATE_ERROR"
  using assms
proof (induction t arbitrary: p)
  case (Cons c t)
  obtain p1 where p1: "fsm_step (input_kind c) c p = Inr p1" "fsm_inv p1" "state p1 = STATE_ERROR"
    using error_step [OF Cons.prems input_kind_typed] by blast
  then show ?case using Cons.IH [OF p1(2,3)] by (simp add: steps_def)
qed (simp add: steps_def)

text \<open>The characters of a word: a token, or the state ERROR when a prefix matches nothing.\<close>

lemma word_chars:
  assumes "fsm_is p st k [] n" "state p = STATE_WHITESPACE" "CHR '' '' \<notin> set w" "length w < CPARSER_MAX_TOKEN_SIZE"
  shows "\<exists>p'. steps w p = Inr p' \<and> fsm_inv p' \<and>
    (state p' = (if w = [] then STATE_WHITESPACE else STATE_TOKEN) \<and> (\<exists>k'. fsm_is p' st k' w n) \<or>
     state p' = STATE_ERROR \<and> (\<exists>v u m b. w = v @ u \<and> v \<noteq> [] \<and> cparser_match p v (Some n) = Inr (0, m, b)))"
  using assms(3,4)
proof (induction w rule: rev_induct)
  case Nil
  then show ?case using assms(1,2) by (auto simp: steps_def fsm_inv_def)
next
  case (snoc c w)
  have w: "CHR '' '' \<notin> set w" "length w < CPARSER_MAX_TOKEN_SIZE" using snoc.prems by auto
  obtain p1 where p1: "steps w p = Inr p1" "fsm_inv p1"
    "state p1 = (if w = [] then STATE_WHITESPACE else STATE_TOKEN) \<and> (\<exists>k'. fsm_is p1 st k' w n) \<or>
     state p1 = STATE_ERROR \<and> (\<exists>v u m b. w = v @ u \<and> v \<noteq> [] \<and> cparser_match p v (Some n) = Inr (0, m, b))" using snoc.IH [OF w] by blast
  have i: "input_kind c = Character" using snoc.prems(1) by (auto simp: input_kind_def)
  from p1(3) show ?case
  proof (elim disjE conjE exE)
    fix k' assume s: "state p1 = (if w = [] then STATE_WHITESPACE else STATE_TOKEN)" "fsm_is p1 st k' w n"
    obtain num m b where m: "cparser_match p1 (w @ [c]) (Some n) = Inr (num, m, b)"
      using match_returns [of "w @ [c]" n p1] s(2) by (auto simp: fsm_is_def)
    obtain p2 where p2: "fsm_step Character c p1 = Inr p2" "fsm_inv p2"
      "if num = 0 then state p2 = STATE_ERROR else state p2 = STATE_TOKEN \<and> (\<exists>k'. fsm_is p2 st k' (w @ [c]) n)"
      using char_step [OF s(2,1) _ m] snoc.prems(2) by auto
    have "steps (w @ [c]) p = Inr p2" using p1(1) p2(1) i by (simp add: steps_append steps_one)
    moreover have "\<exists>v u m b. w @ [c] = v @ u \<and> v \<noteq> [] \<and> cparser_match p v (Some n) = Inr (0, m, b)" if "num = 0"
      using m that steps_match [OF p1(1)] by (intro exI [of _ "w @ [c]"] exI [of _ "[]"]) auto
    ultimately show ?thesis using p2(2,3) by (cases "num = 0") auto
  next
    fix v u m b assume e: "state p1 = STATE_ERROR" "w = v @ u" "v \<noteq> []" "cparser_match p v (Some n) = Inr (0, m, b)"
    obtain p2 where p2: "fsm_step Character c p1 = Inr p2" "fsm_inv p2" "state p2 = STATE_ERROR" using error_step [OF p1(2) e(1), of Character] by auto
    have "steps (w @ [c]) p = Inr p2" using p1(1) p2(1) i by (simp add: steps_append steps_one)
    then show ?thesis using p2(2,3) e by auto
  qed
qed

lemma word_step:
  assumes "fsm_is p st k [] n" "state p = STATE_WHITESPACE" "w \<noteq> []" "CHR '' '' \<notin> set w" "length w < CPARSER_MAX_TOKEN_SIZE"
    "cparser_match p w (Some n) = Inr (num, m, b)"
  shows "\<exists>p'. steps (w @ '' '') p = Inr p' \<and> fsm_inv p' \<and>
    (if 0 < num \<and> b then state p' = STATE_WHITESPACE \<and> (\<exists>d x. m = Some x \<and> fsm_is p' (d # st) blank_token [] x \<and>
       token_is d w \<and> tparent d = Some n \<and> tnode d = Some x) else state p' = STATE_ERROR)"
proof -
  have i: "input_kind (CHR '' '') = Space" by (simp add: input_kind_def)
  obtain p1 where p1: "steps w p = Inr p1" "fsm_inv p1"
    "state p1 = STATE_TOKEN \<and> (\<exists>k'. fsm_is p1 st k' w n) \<or>
     state p1 = STATE_ERROR \<and> (\<exists>v u m b. w = v @ u \<and> v \<noteq> [] \<and> cparser_match p v (Some n) = Inr (0, m, b))"
    using word_chars [OF assms(1,2,4,5)] unfolding if_not_P [OF assms(3)] by blast
  from p1(3) show ?thesis
  proof (elim disjE conjE exE)
    fix k' assume s: "state p1 = STATE_TOKEN" "fsm_is p1 st k' w n"
    have "cparser_match p1 w (Some n) = Inr (num, m, b)" using assms(6) steps_match [OF p1(1)] by simp
    from space_step [OF s(2,1) assms(5) this, of "CHR '' ''"] show ?thesis using p1(1) i by (simp add: steps_append steps_one)
  next
    fix v u m' b' assume e: "state p1 = STATE_ERROR" "w = v @ u" "v \<noteq> []" "cparser_match p v (Some n) = Inr (0, m', b')"
    obtain p2 where p2: "fsm_step Space (CHR '' '') p1 = Inr p2" "fsm_inv p2" "state p2 = STATE_ERROR" using error_step [OF p1(2) e(1), of Space] by auto
    have "\<not> (0 < num \<and> b)" using matched_prefix [of p v u n num m 0 m' b'] assms(6) e by (cases b) auto
    then show ?thesis using p2 p1(1) i by (auto simp: steps_append steps_one)
  qed
qed

section \<open>Lines\<close>

text \<open>The words of a command with the node each is matched under and the node it leads to.\<close>

fun parse :: "parser \<Rightarrow> node \<Rightarrow> string list \<Rightarrow> (string \<times> node \<times> node) list option" where
  "parse p n [] = Some []"
| "parse p n (w # ws) = (case cparser_match p w (Some n) of
     Inr (num, Some m, is_complete) \<Rightarrow> if 0 < num \<and> is_complete then map_option ((#) (w, n, m)) (parse p m ws) else None
   | _ \<Rightarrow> None)"

definition end_node :: "node \<Rightarrow> (string \<times> node \<times> node) list \<Rightarrow> node" where
  "end_node n ps = (if ps = [] then n else snd (snd (last ps)))"

definition is_token :: "token \<Rightarrow> string \<times> node \<times> node \<Rightarrow> bool" where
  "is_token d x \<longleftrightarrow> (case x of (w, n, m) \<Rightarrow> token_is d w \<and> tparent d = Some n \<and> tnode d = Some m)"

definition line_text :: "string list \<Rightarrow> string" where
  "line_text ws = concat (map (\<lambda>w. w @ '' '') ws)"

definition word :: "string \<Rightarrow> bool" where
  "word w \<longleftrightarrow> w \<noteq> [] \<and> CHR '' '' \<notin> set w \<and> length w < CPARSER_MAX_TOKEN_SIZE"

lemma parse_cong: "is_privileged_mode p = is_privileged_mode q \<Longrightarrow> parse p n ws = parse q n ws"
proof (induction ws arbitrary: n)
  case (Cons w ws)
  then show ?case using match_cong [of p q] by (auto split: sum.splits option.splits)
qed simp

lemma words_run:
  assumes "fsm_is p st k [] n" "state p = STATE_WHITESPACE" "list_all word ws"
  shows "\<exists>p'. steps (line_text ws) p = Inr p' \<and>
    (case parse p n ws of None \<Rightarrow> state p' = STATE_ERROR
     | Some ps \<Rightarrow> state p' = STATE_WHITESPACE \<and> map fst ps = ws \<and> (\<exists>ds k'. fsm_is p' (rev ds @ st) k' [] (end_node n ps) \<and> list_all2 is_token ds ps))"
  using assms
proof (induction ws arbitrary: p st k n)
  case Nil
  then show ?case by (auto simp: line_text_def steps_def end_node_def intro!: exI [of _ "[]"])
next
  case (Cons w ws)
  have w: "w \<noteq> []" "CHR '' '' \<notin> set w" "length w < CPARSER_MAX_TOKEN_SIZE" using Cons.prems(3) by (simp_all add: word_def)
  obtain num m b where m: "cparser_match p w (Some n) = Inr (num, m, b)" "0 < num \<longleftrightarrow> m \<noteq> None"
    using match_returns [OF w(1), of n p] Cons.prems(1) by (auto simp: fsm_is_def)
  obtain p1 where p1: "steps (w @ '' '') p = Inr p1" "fsm_inv p1"
    "if 0 < num \<and> b then state p1 = STATE_WHITESPACE \<and> (\<exists>d x. m = Some x \<and> fsm_is p1 (d # st) blank_token [] x \<and>
       token_is d w \<and> tparent d = Some n \<and> tnode d = Some x) else state p1 = STATE_ERROR"
    using word_step [OF Cons.prems(1,2) w m(1)] by blast
  have l: "steps (line_text (w # ws)) p = steps (line_text ws) p1"
    using p1(1) steps_append [of "w @ '' ''" "line_text ws" p] by (simp add: line_text_def)
  show ?case
  proof (cases "0 < num \<and> b")
    case False
    then have "parse p n (w # ws) = None" using m by (auto split: option.splits)
    then show ?thesis using steps_error [OF p1(2), of "line_text ws"] p1(3) False l by auto
  next
    case True
    then obtain d x where x: "state p1 = STATE_WHITESPACE" "m = Some x" "fsm_is p1 (d # st) blank_token [] x" "is_token d (w, n, x)"
      using p1(3) by (auto simp: is_token_def)
    have same: "parse p1 x ws = parse p x ws" using steps_frame [OF p1(1)] by (intro parse_cong) (simp add: rest_def)
    have ps: "parse p n (w # ws) = map_option ((#) (w, n, x)) (parse p x ws)" using m True x(2) by simp
    have ws: "list_all word ws" using Cons.prems(3) by simp
    from Cons.IH [OF x(3,1) ws] obtain p2 where p2: "steps (line_text ws) p1 = Inr p2"
      "case parse p x ws of None \<Rightarrow> state p2 = STATE_ERROR
       | Some ps \<Rightarrow> state p2 = STATE_WHITESPACE \<and> map fst ps = ws \<and> (\<exists>ds k'. fsm_is p2 (rev ds @ d # st) k' [] (end_node x ps) \<and> list_all2 is_token ds ps)"
      unfolding same by blast
    show ?thesis
    proof (cases "parse p x ws")
      case None
      then show ?thesis using p2 l ps by auto
    next
      case (Some qs)
      then obtain ds k' where ds: "fsm_is p2 (rev ds @ d # st) k' [] (end_node x qs)" "list_all2 is_token ds qs" using p2(2) by auto
      have "fsm_is p2 (rev (d # ds) @ st) k' [] (end_node n ((w, n, x) # qs))" using ds(1) by (auto simp: end_node_def)
      moreover have "list_all2 is_token (d # ds) ((w, n, x) # qs)" using ds(2) x(4) by simp
      moreover have "state p2 = STATE_WHITESPACE" "map fst qs = ws" using p2(2) Some by simp_all
      ultimately have "\<exists>ds k'. fsm_is p2 (rev ds @ st) k' [] (end_node n ((w, n, x) # qs)) \<and> list_all2 is_token ds ((w, n, x) # qs)" by blast
      then show ?thesis using p2 Some l ps by auto
    qed
  qed
qed

lemma steps_pos:
  assumes "fsm_inv p" "steps t p = Inr p'"
  shows "fsm_inv p' \<and> current_pos p' = current_pos p + length t"
  using assms(2)
proof (induction t arbitrary: p' rule: rev_induct)
  case (snoc c t)
  then obtain q where q: "steps t p = Inr q" "fsm_step (input_kind c) c q = Inr p'" by (auto simp: steps_append steps_one rbind_Inr_iff)
  then have i: "fsm_inv q" "current_pos q = current_pos p + length t" using snoc.IH by auto
  have "undone q (fsm_step (input_kind c) c q)"
    by (rule typing_undone [OF i(1)]) (use q(2) overflow_fault in \<open>auto simp: input_kind_def split: if_splits\<close>)
  then show ?case using q(2) i(2) by (auto simp: undone_def)
qed (use assms(1) in \<open>simp add: steps_def\<close>)

text \<open>Entering the line.\<close>

lemma emit_user [simp]: "user (emit s p) = user p"
  by (simp add: emit_def)

lemma parse_error:
  assumes "state q = STATE_ERROR" "user q = None"
  shows "\<exists>q'. cparser_execute_cmd E inp k q = Some (Inr (CPARSER_ERR_PARSE_ERR, q'))"
  using assms by (simp add: cparser_execute_cmd_def finish_cmd_def Let_def cparser_is_user_input_def cparser_fsm_reset_def
    cparser_token_stack_reset_def cparser_record_command_def cparser_print_error_def print_defs)

lemma end_found:
  assumes "find (\<lambda>c. ntype c = NODE_END \<and> NODE_USABLE q c) (children n) = Some c" "cur_node q = Some n"
  shows "keyword_loop inp (Suc k) q = Some (Inr q)" "execute_end E q = run_glue E c q"
  using assms by (auto simp: cur_children_def execute_end_def split: list.splits if_splits)

lemma end_glue:
  assumes "find (\<lambda>c. ntype c = NODE_END \<and> NODE_USABLE q c) (children n) = Some c" "cur_node q = Some n" "state q = STATE_WHITESPACE"
  shows "cparser_execute_cmd E inp (Suc k) q = Some (run_glue E c q)"
  using end_found [OF assms(1,2)] assms(3) by (simp add: cparser_execute_cmd_def del: keyword_loop.simps)

lemma input_steps:
  assumes "\<forall>c \<in> set t. \<not> erases p c" "current_pos p + length t < CPARSER_MAX_LINE_SIZE" "\<not> cdebug (cfg p)" "fsm_inv p" "steps t p = Inr q"
  shows "rfold cparser_fsm_input t p = Inr q"
  using assms(1,2,5)
proof (induction t arbitrary: q rule: rev_induct)
  case (snoc c t)
  then obtain q1 where q1: "steps t p = Inr q1" "fsm_step (input_kind c) c q1 = Inr q" by (auto simp: steps_append steps_one rbind_Inr_iff)
  have i: "rfold cparser_fsm_input t p = Inr q1" using snoc q1(1) by auto
  have "cfg q1 = cfg p" using steps_frame [OF q1(1)] by (simp add: rest_def)
  moreover have "current_pos q1 = current_pos p + length t" using steps_pos [OF assms(4) q1(1)] by simp
  ultimately have "cparser_fsm_input c q1 = fsm_step (input_kind c) c q1"
    using snoc.prems(1,2) assms(3) by (intro fsm_input_char) (auto simp: erases_def)
  then show ?case using i q1(2) by (simp add: rfold_append)
qed (simp add: steps_def)

section \<open>Theorem\<close>

text \<open>
  C31. A line of words is parsed word by word: the machine ends in the state ERROR exactly when a word matches no node, or none completely,
  and entering the line then gives a parse error. Otherwise the token stack holds the words with their nodes, and
  entering the line runs the glue function of the end node below the node the words lead to.
\<close>

theorem line_parsed:
  assumes "root_ok p0" "user p0 = None" "roots p0 ! root_level p0 = Some n" "list_all word ws" "\<forall>c \<in> set (line_text ws). \<not> erases p0 c"
    "length (line_text ws) < CPARSER_MAX_LINE_SIZE"
  shows "\<exists>q. rfold cparser_fsm_input (line_text ws) (cparser_fsm_reset p0) = Inr q \<and>
    (case parse p0 n ws of
       None \<Rightarrow> state q = STATE_ERROR \<and> (\<forall>E inp k. \<exists>q'. cparser_execute_cmd E inp k q = Some (Inr (CPARSER_ERR_PARSE_ERR, q')))
     | Some ps \<Rightarrow> state q = STATE_WHITESPACE \<and> cur_node q = Some (end_node n ps) \<and> token_tos q = length ws \<and>
         (\<forall>i < length ws. tok_chars (tokens q ! i) = ws ! i \<and> (ws ! i, tparent (tokens q ! i), tnode (tokens q ! i)) =
            (case ps ! i of (w, a, b) \<Rightarrow> (w, Some a, Some b))) \<and>
         (\<forall>E inp k c. find (\<lambda>c. ntype c = NODE_END \<and> NODE_USABLE q c) (children (end_node n ps)) = Some c \<longrightarrow>
            cparser_execute_cmd E inp (Suc k) q = Some (run_glue E c q)))"
proof -
  let ?p = "cparser_fsm_reset p0"
  have r: "cfg ?p = cfg p0" "current_pos ?p = 0" "is_privileged_mode ?p = is_privileged_mode p0" "state ?p = STATE_WHITESPACE" "cur_node ?p = Some n" "user ?p = None"
    using assms(2,3) by (simp_all add: cparser_fsm_reset_def cparser_token_stack_reset_def)
  have inv: "fsm_inv ?p" by (rule reset_inv [OF assms(1)])
  obtain m where m: "CPARSER_MAX_NUM_TOKENS = Suc m" by (simp add: CPARSER_MAX_NUM_TOKENS_def)
  have "stack_is ?p [] blank_token" by (simp add: stack_is_def cparser_fsm_reset_def cparser_token_stack_reset_def m)
  from words_run [OF fsm_is_unique [OF inv this blank_is(1) r(5)] r(4) assms(4)] obtain q where q: "steps (line_text ws) ?p = Inr q"
    "case parse p0 n ws of None \<Rightarrow> state q = STATE_ERROR
     | Some ps \<Rightarrow> state q = STATE_WHITESPACE \<and> map fst ps = ws \<and> (\<exists>ds k'. fsm_is q (rev ds @ []) k' [] (end_node n ps) \<and> list_all2 is_token ds ps)"
    unfolding parse_cong [OF r(3)] by blast
  have run: "rfold cparser_fsm_input (line_text ws) ?p = Inr q"
    using assms(1,5,6) r(1,2) inv q(1) by (intro input_steps) (auto simp: root_ok_def erases_def)
  have u: "user q = None" using steps_frame [OF q(1)] r(6) by (simp add: rest_def)
  show ?thesis
  proof (cases "parse p0 n ws")
    case None
    then have "state q = STATE_ERROR" using q(2) by simp
    moreover have "\<exists>q'. cparser_execute_cmd E inp k q = Some (Inr (CPARSER_ERR_PARSE_ERR, q'))" for E inp k
      using u calculation parse_error by blast
    ultimately show ?thesis using run None by auto
  next
    case (Some ps)
    then obtain ds k where d: "state q = STATE_WHITESPACE" "map fst ps = ws" "fsm_is q (rev ds) k [] (end_node n ps)" "list_all2 is_token ds ps"
      using q(2) by auto
    have len: "length ds = length ws" "length ps = length ws" using d(2,4) list_all2_lengthD by auto
    have s: "tokens q = ds @ k # replicate (CPARSER_MAX_NUM_TOKENS - 1 - length ds) blank_token" "token_tos q = length ws"
      "cur_node q = Some (end_node n ps)" using d(3) len by (simp_all add: fsm_is_def stack_is_def)
    have tok: "tok_chars (tokens q ! i) = ws ! i \<and> (ws ! i, tparent (tokens q ! i), tnode (tokens q ! i)) = (case ps ! i of (w, a, b) \<Rightarrow> (w, Some a, Some b))"
      if "i < length ws" for i
    proof -
      have "is_token (ds ! i) (ps ! i)" by (rule list_all2_nthD [OF d(4)]) (use that len in simp)
      moreover have "fst (ps ! i) = ws ! i" using nth_map [of i ps fst] that len by (simp add: d(2))
      moreover have "tokens q ! i = ds ! i" unfolding s(1) using that len by (simp add: nth_append)
      ultimately show ?thesis using token_is_chars [of "ds ! i" "ws ! i"] by (cases "ps ! i") (simp add: is_token_def)
    qed
    have "cparser_execute_cmd E inp (Suc j) q = Some (run_glue E c q)"
      if "find (\<lambda>c. ntype c = NODE_END \<and> NODE_USABLE q c) (children (end_node n ps)) = Some c" for E inp j c
      using that s(3) d(1) by (rule end_glue)
    then show ?thesis using run Some d(1) s(2,3) tok by auto
  qed
qed

text \<open>\<open>sh\<close> is enough for \<open>show\<close>; \<open>so\<close> is an error.\<close>

definition cli_sample_env :: cli_env where
  "cli_sample_env = \<lparr>glue = (\<lambda>g p. Inr (CPARSER_OK, p)), callback = (\<lambda>f p buf n. Inr (CPARSER_OK, p)), glob = (\<lambda>t. None)\<rparr>"

lemma line_parsed_witness:
  "(\<exists>q. rfold cparser_fsm_input ''sh '' (cparser_fsm_reset sample) = Inr q \<and> cur_node q = Some (hd (children sample_tree)) \<and> tok_chars (tokens q ! 0) = ''sh'' \<and>
     cparser_execute_cmd cli_sample_env (\<lambda>c p. None) 1 q = Some (run_glue cli_sample_env (Node NODE_END 0 (Glue 0) None []) q)) \<and>
   (\<exists>q q'. rfold cparser_fsm_input ''so '' (cparser_fsm_reset sample) = Inr q \<and> cparser_execute_cmd cli_sample_env (\<lambda>c p. None) 1 q = Some (Inr (CPARSER_ERR_PARSE_ERR, q')))"
proof -
  let ?kw = "Node NODE_KEYWORD 0 (Text ''show'') None [Node NODE_END 0 (Glue 0) None []]"
  have s: "user sample = None" "roots sample ! root_level sample = Some sample_tree" by (simp_all add: sample_def)
  have w: "list_all word [''sh'']" "list_all word [''so'']" by (simp_all add: word_def CPARSER_MAX_TOKEN_SIZE_def)
  have t: "line_text [''sh''] = ''sh ''" "line_text [''so''] = ''so ''" by (simp_all add: line_text_def)
  have e: "\<forall>c \<in> set (line_text [''sh'']). \<not> erases sample c" "\<forall>c \<in> set (line_text [''so'']). \<not> erases sample c"
    unfolding t using sample_erases [of sample] by auto
  have l: "length (line_text [''sh'']) < CPARSER_MAX_LINE_SIZE" "length (line_text [''so'']) < CPARSER_MAX_LINE_SIZE"
    unfolding t by (simp_all add: CPARSER_MAX_LINE_SIZE_def)
  have p: "parse sample sample_tree [''sh''] = Some [(''sh'', sample_tree, ?kw)]" "parse sample sample_tree [''so''] = None"
    by (simp_all add: cparser_match_def sample_tree_def NODE_USABLE_def match_fn_def cparser_match_keyword_def c_text_def char_at_def code_def)
  have u: "find (\<lambda>c. ntype c = NODE_END \<and> NODE_USABLE q c) (children (end_node sample_tree [(''sh'', sample_tree, ?kw)])) = Some (Node NODE_END 0 (Glue 0) None [])" for q
    by (simp add: end_node_def NODE_USABLE_def)
  obtain q where q: "rfold cparser_fsm_input ''sh '' (cparser_fsm_reset sample) = Inr q" "cur_node q = Some ?kw" "tok_chars (tokens q ! 0) = ''sh''"
    "cparser_execute_cmd cli_sample_env (\<lambda>c p. None) (Suc 0) q = Some (run_glue cli_sample_env (Node NODE_END 0 (Glue 0) None []) q)"
    using line_parsed [OF sample_ok(1) s w(1) e(1) l(1)] u unfolding p(1) t by (auto simp: end_node_def)
  obtain q1 q2 where "rfold cparser_fsm_input ''so '' (cparser_fsm_reset sample) = Inr q1"
    "cparser_execute_cmd cli_sample_env (\<lambda>c p. None) 1 q1 = Some (Inr (CPARSER_ERR_PARSE_ERR, q2))"
    using line_parsed [OF sample_ok(1) s w(2) e(2) l(2)] unfolding p(2) t by fastforce
  then show ?thesis using q by (auto simp: sample_tree_def)
qed

end
