(* ===== verification/CpEdit.thy ===== *)
theory CpEdit
  imports CpParse
begin

text \<open>
  Editing the command line: the line buffer, the state machine and the screen stay together under any run of keys.
\<close>

section \<open>The machine does not look at the lines\<close>

definition relined :: "cp_line list \<Rightarrow> string \<Rightarrow> parser \<Rightarrow> parser" where
  "relined l o1 p = p\<lparr>lines := l, out := o1\<rparr>"

lemma relined_fields [simp]:
  "cfg (relined l o1 p) = cfg p" "root_level (relined l o1 p) = root_level p" "roots (relined l o1 p) = roots p" "prompts (relined l o1 p) = prompts p"
  "cur_node (relined l o1 p) = cur_node p" "state (relined l o1 p) = state p" "token_tos (relined l o1 p) = token_tos p"
  "current_pos (relined l o1 p) = current_pos p" "last_good (relined l o1 p) = last_good p" "tokens (relined l o1 p) = tokens p"
  "is_privileged_mode (relined l o1 p) = is_privileged_mode p" "max_line (relined l o1 p) = max_line p" "cur_line (relined l o1 p) = cur_line p"
  "lines (relined l o1 p) = l" "user (relined l o1 p) = user p" "out (relined l o1 p) = o1"
  "CUR_TOKEN (relined l o1 p) = CUR_TOKEN p" "set_cur k (relined l o1 p) = relined l o1 (set_cur k p)"
  by (simp_all add: relined_def CUR_TOKEN_def set_cur_def)

lemma relined_match [simp]: "cparser_match (relined l o1 p) = cparser_match p"
  by (rule match_cong) simp

lemma relined_update:
  "(relined l o1 p)\<lparr>current_pos := x\<rparr> = relined l o1 (p\<lparr>current_pos := x\<rparr>)" "(relined l o1 p)\<lparr>state := s\<rparr> = relined l o1 (p\<lparr>state := s\<rparr>)"
  "(relined l o1 p)\<lparr>last_good := z\<rparr> = relined l o1 (p\<lparr>last_good := z\<rparr>)" "(relined l o1 p)\<lparr>token_tos := n\<rparr> = relined l o1 (p\<lparr>token_tos := n\<rparr>)"
  "(relined l o1 p)\<lparr>cur_node := m\<rparr> = relined l o1 (p\<lparr>cur_node := m\<rparr>)" "(relined l o1 p)\<lparr>tokens := k\<rparr> = relined l o1 (p\<lparr>tokens := k\<rparr>)"
  by (simp_all add: relined_def)

lemma relined_relined [simp]: "relined l o1 (relined l' o' p) = relined l o1 p" "relined (lines p) (out p) p = p"
  by (simp_all add: relined_def)

definition lift_res :: "('a \<Rightarrow> 'b) \<Rightarrow> 'a res \<Rightarrow> 'b res" where
  "lift_res f r = rbind r (\<lambda>a. Inr (f a))"

lemma state_func_relined:
  "cparser_state_func s i c (relined l o1 p) = lift_res (\<lambda>(t, b, q). (t, b, relined l o1 q)) (cparser_state_func s i c p)"
  by (cases s; cases i)
    (auto simp: cparser_state_func_def cparser_ws_erase_def cparser_ws_space_def cparser_ws_char_def cparser_tok_erase_def cparser_tok_space_def
      cparser_tok_char_def cparser_err_erase_def cparser_err_space_def cparser_err_char_def Let_def relined_update lift_res_def rbind_def
      split: sum.splits prod.splits if_splits)

lemma step_relined: "fsm_step i c (relined l o1 p) = lift_res (relined l o1) (fsm_step i c p)"
  by (auto simp: fsm_step_def state_func_relined lift_res_def rbind_def Let_def relined_update split: sum.splits prod.splits)

lemma erases_relined [simp]: "erases (relined l o1 p) = erases p"
  by (simp add: erases_def fun_eq_iff)

lemma char_relined:
  assumes "typed p0 x r" "root_ok p0" "\<not> erases r c" "length x + 1 < CPARSER_MAX_LINE_SIZE" "\<not> (c = CHR '' '' \<and> overflow r)"
  shows "\<exists>r'. cparser_fsm_input c (relined l o1 r) = Inr (relined l o1 r') \<and> typed p0 (x @ [c]) r'"
proof -
  obtain r' where r': "fsm_step (input_kind c) c r = Inr r'" "typed p0 (x @ [c]) r'" using typed_char [OF assms] by blast
  have "cparser_fsm_input c (relined l o1 r) = fsm_step (input_kind c) c (relined l o1 r)"
    using assms(3,4) typed_state(2) [OF assms(1,2)] typed_debug [OF assms(1,2)] by (intro fsm_input_char) simp_all
  then show ?thesis using r' by (auto simp: step_relined lift_res_def)
qed

lemma erase_relined:
  assumes "typed p0 (x @ [c]) r" "root_ok p0" "erases r b"
  shows "\<exists>r'. cparser_fsm_input b (relined l o1 r) = Inr (relined l o1 r') \<and> typed p0 x r'"
proof -
  obtain r' where r': "fsm_step Erase b r = Inr r'" "typed p0 x r'" using typed_erase [OF assms] by blast
  have "cparser_fsm_input b (relined l o1 r) = fsm_step Erase b (relined l o1 r)"
    using assms(3) typed_state(2) [OF assms(1,2)] typed_debug [OF assms(1,2)] by (intro fsm_input_erase) simp_all
  then show ?thesis using r' by (auto simp: step_relined lift_res_def)
qed

section \<open>The screen\<close>

text \<open>A terminal line: its characters and the cursor. BS moves left, BEL does nothing, another character is written at the cursor.\<close>

fun screen1 :: "char \<Rightarrow> string \<times> nat \<Rightarrow> string \<times> nat" where
  "screen1 c (s, n) =
     (if c = CHR 0x08 then (s, n - 1) else if c = CHR 0x07 then (s, n)
      else (take n s @ c # drop (n + 1) s, n + 1))"

definition screen :: "string \<Rightarrow> string \<times> nat" where
  "screen o1 = fold screen1 o1 ([], 0)"

lemma screen_append: "screen (a @ b) = fold screen1 b (screen a)"
  by (simp add: screen_def)

lemma screen_back: "fold screen1 (replicate k (CHR 0x08)) (s, n) = (s, n - k)"
  by (induction k arbitrary: n) simp_all

lemma screen_write:
  "CHR 0x08 \<notin> set w \<Longrightarrow> CHR 0x07 \<notin> set w \<Longrightarrow> fold screen1 w (x @ z, length x) = (x @ w @ drop (length w) z, length x + length w)"
proof (induction w arbitrary: x z)
  case (Cons c w)
  then have "fold screen1 w ((x @ [c]) @ drop 1 z, length (x @ [c])) = ((x @ [c]) @ w @ drop (length w) (drop 1 z), length (x @ [c]) + length w)"
    by (intro Cons.IH) auto
  moreover have "screen1 c (x @ z, length x) = ((x @ [c]) @ drop 1 z, length (x @ [c]))" using Cons.prems by auto
  ultimately show ?case by (simp add: add.commute)
qed simp

text \<open>The text is shown with the cursor behind \<open>x\<close>, then only blanks.\<close>

definition shows_text :: "string \<Rightarrow> string \<Rightarrow> string \<Rightarrow> bool" where
  "shows_text o1 x y \<longleftrightarrow> (\<exists>k. screen o1 = (x @ y @ replicate k (CHR '' ''), length x))"

lemma shows_insert:
  assumes "shows_text o1 x y" "\<forall>d \<in> set (c # y). d \<noteq> CHR 0x08 \<and> d \<noteq> CHR 0x07"
  shows "shows_text (o1 @ c # y @ replicate (length y) (CHR 0x08)) (x @ [c]) y"
proof -
  obtain k where k: "screen o1 = (x @ y @ replicate k (CHR '' ''), length x)" using assms(1) by (auto simp: shows_text_def)
  have "screen (o1 @ c # y) = (x @ (c # y) @ drop (length (c # y)) (y @ replicate k (CHR '' '')), length x + length (c # y))"
    unfolding screen_append k using assms(2) by (intro screen_write) auto
  then have "screen ((o1 @ c # y) @ replicate (length y) (CHR 0x08)) = (x @ (c # y) @ replicate (k - 1) (CHR '' ''), length x + 1)"
    unfolding screen_append [of "o1 @ c # y"] \<open>screen (o1 @ c # y) = _\<close> by (simp only: screen_back) simp
  then show ?thesis by (auto simp: shows_text_def)
qed

lemma shows_delete:
  assumes "shows_text o1 (x @ [c]) y" "\<forall>d \<in> set y. d \<noteq> CHR 0x08 \<and> d \<noteq> CHR 0x07"
  shows "shows_text (o1 @ CHR 0x08 # y @ CHR '' '' # CHR 0x08 # replicate (length y) (CHR 0x08)) x y"
proof -
  obtain k where k: "screen o1 = ((x @ [c]) @ y @ replicate k (CHR '' ''), length (x @ [c]))" using assms(1) by (auto simp: shows_text_def)
  have "screen (o1 @ [CHR 0x08]) = (x @ c # y @ replicate k (CHR '' ''), length x)" unfolding screen_append k by simp
  then have "screen ((o1 @ [CHR 0x08]) @ y @ '' '') =
    (x @ (y @ '' '') @ drop (length (y @ '' '')) (c # y @ replicate k (CHR '' '')), length x + length (y @ '' ''))"
    unfolding screen_append [of "o1 @ [CHR 0x08]"] using assms(2) by (simp only:) (intro screen_write; auto)
  then have "screen (((o1 @ [CHR 0x08]) @ y @ '' '') @ replicate (length y + 1) (CHR 0x08)) = (x @ y @ '' '' @ replicate k (CHR '' ''), length x)"
    unfolding screen_append [of "(o1 @ [CHR 0x08]) @ y @ '' ''"] by (simp only: screen_back) simp
  moreover have "'' '' @ replicate k (CHR '' '') = replicate (Suc k) (CHR '' '')" by simp
  ultimately show ?thesis unfolding shows_text_def by (metis append.assoc append_Cons append_Nil replicate_Suc Suc_eq_plus1)
qed

lemma shows_left:
  assumes "shows_text o1 (x @ [c]) y"
  shows "shows_text (o1 @ [CHR 0x08]) x (c # y)"
  using assms by (auto simp: shows_text_def screen_append)

lemma shows_right:
  assumes "shows_text o1 x (c # y)" "c \<noteq> CHR 0x08" "c \<noteq> CHR 0x07"
  shows "shows_text (o1 @ [c]) (x @ [c]) y"
  using assms by (auto simp: shows_text_def screen_append)

lemma shows_bell: "shows_text o1 x y \<Longrightarrow> shows_text (o1 @ [CHR 0x07]) x y"
  by (auto simp: shows_text_def screen_append)

section \<open>Keys\<close>

definition plain :: "parser \<Rightarrow> char \<Rightarrow> bool" where
  "plain p c \<longleftrightarrow> 32 \<le> code c \<and> code c < 127 \<and> c \<noteq> ch_complete (cfg p) \<and> c \<noteq> ch_help (cfg p) \<and> \<not> erases p c"

text \<open>The text before and behind the cursor after a key; \<open>None\<close> for a key that does not edit, or when the line is full.\<close>

fun edit :: "parser \<Rightarrow> char \<times> char_type \<Rightarrow> string \<times> string \<Rightarrow> (string \<times> string) option" where
  "edit p (c, CHAR_REGULAR) (x, y) =
     (if erases p c then Some (butlast x, y) else if plain p c \<and> length x + length y + 1 < CPARSER_MAX_LINE_SIZE then Some (x @ [c], y) else None)"
| "edit p (c, CHAR_LEFT_ARROW) (x, y) = (if x = [] then Some (x, y) else Some (butlast x, last x # y))"
| "edit p (c, CHAR_RIGHT_ARROW) (x, []) = Some (x, [])"
| "edit p (c, CHAR_RIGHT_ARROW) (x, d # y) = Some (x @ [d], y)"
| "edit p (c, CHAR_FIRST) (x, y) = Some ([], x @ y)"
| "edit p (c, CHAR_LAST) (x, y) = Some (x @ y, [])"
| "edit p (c, CHAR_UNKNOWN) s = Some s"
| "edit p (c, CHAR_UP_ARROW) s = None"
| "edit p (c, CHAR_DOWN_ARROW) s = None"

fun edits :: "parser \<Rightarrow> (char \<times> char_type) list \<Rightarrow> string \<times> string \<Rightarrow> (string \<times> string) option" where
  "edits p [] s = Some s"
| "edits p (k # ks) s = Option.bind (edit p k s) (edits p ks)"

fun input_keys :: "cli_env \<Rightarrow> nat \<Rightarrow> (char \<times> char_type) list \<Rightarrow> parser \<Rightarrow> parser cp_run" where
  "input_keys E n [] p = Some (Inr p)"
| "input_keys E n ((c, t) # ks) p = fbind (cparser_input E n c t p) (\<lambda>(rc, q). input_keys E n ks q)"

definition editor_ok :: "parser \<Rightarrow> bool" where
  "editor_ok p \<longleftrightarrow> root_ok p \<and> user p = None \<and> cur_line p < length (lines p) \<and> fd (cfg p) \<noteq> -1 \<and>
     ch_erase (cfg p) = CHR 0x08 \<and> \<not> erases p (ch_complete (cfg p)) \<and> \<not> erases p (ch_help (cfg p)) \<and> \<not> erases p (CHR 0x0A)"

definition edit_inv :: "parser \<Rightarrow> string \<Rightarrow> string \<Rightarrow> string \<Rightarrow> parser \<Rightarrow> bool" where
  "edit_inv p0 o0 x y p \<longleftrightarrow> (\<exists>l o1 r. p = relined l (o0 @ o1) r \<and> typed p0 x r \<and> length l = length (lines p0) \<and> line_is (l ! cur_line p0) x y \<and>
     shows_text o1 x y \<and> (\<forall>c \<in> set (x @ y). plain p0 c) \<and> length x + length y < CPARSER_MAX_LINE_SIZE)"

lemma plain_char: "plain p c \<Longrightarrow> c \<noteq> CHR 0x00 \<and> c \<noteq> CHR 0x08 \<and> c \<noteq> CHR 0x07 \<and> c \<noteq> CHR 0x0A"
  by (auto simp: plain_def code_def)

lemma relined_print:
  assumes "fd (cfg r) \<noteq> -1"
  shows "emit s (relined l o1 r) = relined l (o1 @ s) r"
  using assms by (simp add: emit_def) (simp add: relined_def)

lemma relined_set_line: "set_line k (relined l o1 r) = relined (l[cur_line r := k]) o1 r"
  by (simp add: set_line_def relined_def)

lemma relined_overflow [simp]: "overflow (relined l o1 r) = overflow r"
  by (simp add: overflow_def)

lemma overflow_long:
  assumes "typed p0 x r" "root_ok p0" "overflow r"
  shows "CPARSER_MAX_TOKEN_SIZE \<le> length x"
proof -
  obtain st k t n where f: "fsm_is r st k t n" using typed_state(1) [OF assms(1,2)] by (auto simp: fsm_inv_def)
  have "CUR_TOKEN r = k" "state r = STATE_TOKEN" "token_len k = CPARSER_MAX_TOKEN_SIZE" using f assms(3) stack_cur [of r st k] by (auto simp: fsm_is_def overflow_def)
  then show ?thesis using f typed_state(2) [OF assms(1,2)] by (auto simp: fsm_is_def token_is_def split: if_splits)
qed

text \<open>A step of the machine with a line that is already changed.\<close>

lemma edit_char:
  assumes "editor_ok p0" "typed p0 x r" "length l = length (lines p0)" "line_is k (x @ [c]) y" "shows_text o1 (x @ [c]) y"
    "\<forall>d \<in> set ((x @ [c]) @ y). plain p0 d" "length x + length y + 1 < CPARSER_MAX_LINE_SIZE"
  shows "cparser_fsm_input c (relined (l[cur_line p0 := k]) (o0 @ o1) r) = Inl OutOfBounds \<and> CPARSER_MAX_TOKEN_SIZE \<le> length x \<or>
    (\<exists>p'. cparser_fsm_input c (relined (l[cur_line p0 := k]) (o0 @ o1) r) = Inr p' \<and> edit_inv p0 o0 (x @ [c]) y p')"
proof -
  let ?p = "relined (l[cur_line p0 := k]) (o0 @ o1) r"
  have ok: "root_ok p0" "cur_line p0 < length (lines p0)" using assms(1) by (simp_all add: editor_ok_def)
  note s = typed_state [OF assms(2) ok(1)]
  have e: "\<not> erases r c" using assms(6) s(3) by (auto simp: plain_def erases_def)
  show ?thesis
  proof (cases "c = CHR '' '' \<and> overflow r")
    case True
    have "cparser_fsm_input c ?p = fsm_step (input_kind c) c ?p"
      using e assms(7) s(2) typed_debug [OF assms(2) ok(1)] by (intro fsm_input_char) simp_all
    then show ?thesis using True overflow_fault [of ?p c] overflow_long [OF assms(2) ok(1)] by (simp add: input_kind_def)
  next
    case False
    have "length x + 1 < CPARSER_MAX_LINE_SIZE" using assms(7) by simp
    from char_relined [OF assms(2) ok(1) e this False, of "l[cur_line p0 := k]" "o0 @ o1"] obtain r' where
      r': "cparser_fsm_input c ?p = Inr (relined (l[cur_line p0 := k]) (o0 @ o1) r')" "typed p0 (x @ [c]) r'" by blast
    have "edit_inv p0 o0 (x @ [c]) y (relined (l[cur_line p0 := k]) (o0 @ o1) r')"
      unfolding edit_inv_def using r'(2) assms(3-7) ok(2)
      by (intro exI [of _ "l[cur_line p0 := k]"] exI [of _ o1] exI [of _ r']) simp
    then show ?thesis using r'(1) by simp
  qed
qed

lemma edit_erase:
  assumes "editor_ok p0" "typed p0 (x @ [c]) r" "length l = length (lines p0)" "line_is k x y" "shows_text o1 x y"
    "\<forall>d \<in> set (x @ y). plain p0 d" "length x + length y < CPARSER_MAX_LINE_SIZE" "erases p0 b"
  shows "\<exists>p'. cparser_fsm_input b (relined (l[cur_line p0 := k]) (o0 @ o1) r) = Inr p' \<and> edit_inv p0 o0 x y p'"
proof -
  have ok: "root_ok p0" "cur_line p0 < length (lines p0)" using assms(1) by (simp_all add: editor_ok_def)
  have "erases r b" using assms(8) typed_state(3) [OF assms(2) ok(1)] by (simp add: erases_def)
  from erase_relined [OF assms(2) ok(1) this, of "l[cur_line p0 := k]" "o0 @ o1"] obtain r' where
    r': "cparser_fsm_input b (relined (l[cur_line p0 := k]) (o0 @ o1) r) = Inr (relined (l[cur_line p0 := k]) (o0 @ o1) r')" "typed p0 x r'" by blast
  have "edit_inv p0 o0 x y (relined (l[cur_line p0 := k]) (o0 @ o1) r')"
    unfolding edit_inv_def using r'(2) assms(3-7) ok(2)
    by (intro exI [of _ "l[cur_line p0 := k]"] exI [of _ o1] exI [of _ r']) simp
  then show ?thesis using r'(1) by simp
qed

section \<open>Each key\<close>

lemma inv_facts:
  assumes "edit_inv p0 o0 x y p" "editor_ok p0"
  shows "cparser_is_user_input p = Inr None" "user p = None" "cfg p = cfg p0" "line_is (line_of p) x y" "cur_line p < length (lines p)"
    "length x + length y < CPARSER_MAX_LINE_SIZE" "\<forall>c \<in> set (x @ y). plain p0 c"
proof -
  have ok: "root_ok p0" "cur_line p0 < length (lines p0)" "user p0 = None" using assms(2) by (simp_all add: editor_ok_def)
  obtain l o1 r where p: "p = relined l (o0 @ o1) r" "typed p0 x r" "length l = length (lines p0)" "line_is (l ! cur_line p0) x y"
    "length x + length y < CPARSER_MAX_LINE_SIZE" "\<forall>c \<in> set (x @ y). plain p0 c" using assms(1) unfolding edit_inv_def by blast
  note s = typed_state [OF p(2) ok(1)]
  show "cparser_is_user_input p = Inr None" "user p = None" "cfg p = cfg p0" "line_is (line_of p) x y" "cur_line p < length (lines p)"
    "length x + length y < CPARSER_MAX_LINE_SIZE" "\<forall>c \<in> set (x @ y). plain p0 c"
    using p s ok by (auto simp: cparser_is_user_input_def line_of_def)
qed

text \<open>The operations on the line print and change the line only.\<close>

lemma inv_moved:
  assumes "p = relined l (o0 @ o1) r" "typed p0 x r" "editor_ok p0"
  shows "emit s (set_line k p) = relined (l[cur_line p0 := k]) (o0 @ o1 @ s) r"
  using assms typed_state(3,5) [OF assms(2)] by (simp add: editor_ok_def relined_set_line relined_print)

lemma special_fsm:
  "c \<noteq> ch_complete (cfg p) \<Longrightarrow> c \<noteq> ch_help (cfg p) \<Longrightarrow> c \<noteq> CHR 0x0A \<Longrightarrow>
    special E inp n c p = fbind (Some (cparser_fsm_input c p)) (\<lambda>q. Some (Inr (CPARSER_OK, q)))"
  by (simp add: special_def)

lemma put_char:
  assumes "edit_inv p0 o0 x y p" "editor_ok p0" "plain p0 c" "length x + length y + 1 < CPARSER_MAX_LINE_SIZE"
  shows "\<exists>q. cparser_line_insert c p = (CPARSER_OK, q) \<and> cfg q = cfg p0 \<and>
    (cparser_fsm_input c q = Inl OutOfBounds \<and> CPARSER_MAX_TOKEN_SIZE \<le> length x \<or> (\<exists>p'. cparser_fsm_input c q = Inr p' \<and> edit_inv p0 o0 (x @ [c]) y p'))"
proof -
  obtain l o1 r where p: "p = relined l (o0 @ o1) r" "typed p0 x r" "length l = length (lines p0)" "shows_text o1 x y"
    "\<forall>c \<in> set (x @ y). plain p0 c" using assms(1) unfolding edit_inv_def by blast
  note f = inv_facts [OF assms(1,2)]
  have "c \<noteq> CHR 0x00" using plain_char [OF assms(3)] by simp
  from line_insert_is [OF f(4) f(6) this f(5)] obtain k where
    k: "cparser_line_insert c p = (CPARSER_OK, emit (c # y @ replicate (length y) (CHR 0x08)) (set_line k p))" "line_is k (x @ [c]) y" by blast
  let ?o = "o1 @ c # y @ replicate (length y) (CHR 0x08)"
  have q: "emit (c # y @ replicate (length y) (CHR 0x08)) (set_line k p) = relined (l[cur_line p0 := k]) (o0 @ ?o) r"
    by (rule inv_moved [OF p(1,2) assms(2)])
  have "shows_text ?o (x @ [c]) y" using p(4,5) assms(3) plain_char by (intro shows_insert) auto
  from edit_char [OF assms(2) p(2,3) k(2) this _ assms(4), of o0] show ?thesis
    using k(1) p(1,5) f(3) assms(3) unfolding q by auto
qed

lemma move_right:
  assumes "edit_inv p0 o0 x (c # y) p" "editor_ok p0"
  shows "\<exists>q. cparser_line_next_char p = (c, q) \<and> cfg q = cfg p0 \<and>
    (cparser_fsm_input c q = Inl OutOfBounds \<and> CPARSER_MAX_TOKEN_SIZE \<le> length x \<or> (\<exists>p'. cparser_fsm_input c q = Inr p' \<and> edit_inv p0 o0 (x @ [c]) y p'))"
proof -
  obtain l o1 r where p: "p = relined l (o0 @ o1) r" "typed p0 x r" "length l = length (lines p0)" "shows_text o1 x (c # y)"
    using assms(1) unfolding edit_inv_def by blast
  note f = inv_facts [OF assms(1,2)]
  from line_next_is [OF f(4,5)] obtain k where
    k: "cparser_line_next_char p = (c, emit [c] (set_line k p))" "line_is k (x @ [c]) y" by blast
  have q: "emit [c] (set_line k p) = relined (l[cur_line p0 := k]) (o0 @ o1 @ [c]) r" by (rule inv_moved [OF p(1,2) assms(2)])
  have "plain p0 c" using f(7) by simp
  then have "shows_text (o1 @ [c]) (x @ [c]) y" using plain_char by (intro shows_right p(4)) blast+
  from edit_char [OF assms(2) p(2,3) k(2) this, of o0] show ?thesis
    using k(1) p(1) f(3,6,7) unfolding q by auto
qed

lemma move_left:
  assumes "edit_inv p0 o0 (x @ [c]) y p" "editor_ok p0"
  shows "\<exists>q p'. cparser_line_prev_char p = (CHR 0x08, q) \<and> cfg q = cfg p0 \<and> cparser_fsm_input (CHR 0x08) q = Inr p' \<and> edit_inv p0 o0 x (c # y) p'"
proof -
  obtain l o1 r where p: "p = relined l (o0 @ o1) r" "typed p0 (x @ [c]) r" "length l = length (lines p0)" "shows_text o1 (x @ [c]) y"
    using assms(1) unfolding edit_inv_def by blast
  note f = inv_facts [OF assms(1,2)]
  from line_prev_is [OF f(4,5)] obtain k where
    k: "cparser_line_prev_char p = (CHR 0x08, emit [CHR 0x08] (set_line k p))" "line_is k x (c # y)" by blast
  have q: "emit [CHR 0x08] (set_line k p) = relined (l[cur_line p0 := k]) (o0 @ o1 @ [CHR 0x08]) r" by (rule inv_moved [OF p(1,2) assms(2)])
  have "erases p0 (CHR 0x08)" using assms(2) by (simp add: editor_ok_def erases_def)
  then have "\<exists>p'. cparser_fsm_input (CHR 0x08) (relined (l[cur_line p0 := k]) (o0 @ o1 @ [CHR 0x08]) r) = Inr p' \<and> edit_inv p0 o0 x (c # y) p'"
    using f(6,7) by (intro edit_erase [OF assms(2) p(2,3) k(2) shows_left [OF p(4)]]) auto
  then show ?thesis using k(1) p(1) f(3) unfolding q by auto
qed

lemma rub_out:
  assumes "edit_inv p0 o0 (x @ [c]) y p" "editor_ok p0" "erases p0 b"
  shows "\<exists>q p'. cparser_line_delete p = Inr (CPARSER_OK, q) \<and> cfg q = cfg p0 \<and> cparser_fsm_input b q = Inr p' \<and> edit_inv p0 o0 x y p'"
proof -
  obtain l o1 r where p: "p = relined l (o0 @ o1) r" "typed p0 (x @ [c]) r" "length l = length (lines p0)" "shows_text o1 (x @ [c]) y"
    using assms(1) unfolding edit_inv_def by blast
  note f = inv_facts [OF assms(1,2)]
  let ?s = "CHR 0x08 # y @ CHR '' '' # CHR 0x08 # replicate (length y) (CHR 0x08)"
  from line_delete_is [OF f(4,5)] obtain k where
    k: "cparser_line_delete p = Inr (CPARSER_OK, emit ?s (set_line k p))" "line_is k x y" by blast
  have q: "emit ?s (set_line k p) = relined (l[cur_line p0 := k]) (o0 @ o1 @ ?s) r" by (rule inv_moved [OF p(1,2) assms(2)])
  have "shows_text (o1 @ ?s) x y" using f(7) plain_char by (intro shows_delete [OF p(4)]) auto
  then have "\<exists>p'. cparser_fsm_input b (relined (l[cur_line p0 := k]) (o0 @ o1 @ ?s) r) = Inr p' \<and> edit_inv p0 o0 x y p'"
    using f(6,7) by (intro edit_erase [OF assms(2) p(2,3) k(2) _ _ _ assms(3)]) auto
  then show ?thesis using k(1) p(1) f(3) unfolding q by auto
qed

lemma ring_bell:
  assumes "edit_inv p0 o0 x y p" "editor_ok p0"
  shows "edit_inv p0 o0 x y (printc (CHR 0x07) p)"
proof -
  obtain l o1 r where p: "p = relined l (o0 @ o1) r" "typed p0 x r" "length l = length (lines p0)" "line_is (l ! cur_line p0) x y" "shows_text o1 x y"
    using assms(1) unfolding edit_inv_def by blast
  have "printc (CHR 0x07) p = relined l (o0 @ o1 @ [CHR 0x07]) r"
    using assms(2) p(1) typed_state(3) [OF p(2)] by (simp add: editor_ok_def printc_def relined_print)
  then show ?thesis using inv_facts(6,7) [OF assms] p shows_bell [OF p(5)] unfolding edit_inv_def by blast
qed

lemma walk_left:
  assumes "edit_inv p0 o0 x y p" "editor_ok p0" "length x < n"
  shows "\<exists>p'. walk_line cparser_line_prev_char n p = Some (Inr p') \<and> edit_inv p0 o0 [] (x @ y) p'"
  using assms
proof (induction x arbitrary: y p n rule: rev_induct)
  case Nil
  then show ?case using line_at_ends(2) [of p y] inv_facts(4) [of p0 o0 "[]" y p] by (cases n) auto
next
  case (snoc c x)
  obtain m where m: "n = Suc m" "length x < m" using snoc.prems(3) by (cases n) auto
  obtain q p' where q: "cparser_line_prev_char p = (CHR 0x08, q)" "cparser_fsm_input (CHR 0x08) q = Inr p'" "edit_inv p0 o0 x (c # y) p'"
    using move_left [OF snoc.prems(1,2)] by blast
  show ?case using snoc.IH [OF q(3) snoc.prems(2) m(2)] q(1,2) by (simp add: m(1))
qed

lemma walk_right:
  assumes "edit_inv p0 o0 x y p" "editor_ok p0" "length y < n"
  shows "walk_line cparser_line_next_char n p = Some (Inl OutOfBounds) \<and> CPARSER_MAX_TOKEN_SIZE \<le> length (x @ y) \<or>
    (\<exists>p'. walk_line cparser_line_next_char n p = Some (Inr p') \<and> edit_inv p0 o0 (x @ y) [] p')"
  using assms
proof (induction y arbitrary: x p n)
  case Nil
  then show ?case using line_at_ends(1) [of p x] inv_facts(4) [of p0 o0 x "[]" p] by (cases n) auto
next
  case (Cons c y)
  obtain m where m: "n = Suc m" "length y < m" using Cons.prems(3) by (cases n) auto
  have c: "c \<noteq> CHR 0x00" using inv_facts(7) [OF Cons.prems(1,2)] plain_char by auto
  obtain q where q: "cparser_line_next_char p = (c, q)"
    "cparser_fsm_input c q = Inl OutOfBounds \<and> CPARSER_MAX_TOKEN_SIZE \<le> length x \<or> (\<exists>p'. cparser_fsm_input c q = Inr p' \<and> edit_inv p0 o0 (x @ [c]) y p')"
    using move_right [OF Cons.prems(1,2)] by blast
  from q(2) show ?case
  proof
    assume "cparser_fsm_input c q = Inl OutOfBounds \<and> CPARSER_MAX_TOKEN_SIZE \<le> length x"
    then show ?thesis using q(1) c by (simp add: m(1))
  next
    assume "\<exists>p'. cparser_fsm_input c q = Inr p' \<and> edit_inv p0 o0 (x @ [c]) y p'"
    then obtain p' where p': "cparser_fsm_input c q = Inr p'" "edit_inv p0 o0 (x @ [c]) y p'" by blast
    show ?thesis using Cons.IH [OF p'(2) Cons.prems(2) m(2)] q(1) c p'(1) by (simp add: m(1))
  qed
qed

lemma edit_length: "edit p k (x, y) = Some (x', y') \<Longrightarrow> length x' + length y' \<le> length x + length y + 1"
  by (cases "(p, k, (x, y))" rule: edit.cases) (auto split: if_splits)

lemma key_correct:
  assumes "edit_inv p0 o0 x y p" "editor_ok p0" "edit p0 (c, t) (x, y) = Some (x', y')" "CPARSER_MAX_LINE_SIZE \<le> n"
  shows "input_body E inp n c t p = Some (Inl OutOfBounds) \<and> CPARSER_MAX_TOKEN_SIZE \<le> length x + length y \<or>
    (\<exists>rc p'. input_body E inp n c t p = Some (Inr (rc, p')) \<and> edit_inv p0 o0 x' y' p')"
proof -
  note f = inv_facts [OF assms(1,2)]
  have ok: "CHR 0x08 \<noteq> ch_complete (cfg p0)" "CHR 0x08 \<noteq> ch_help (cfg p0)" using assms(2) by (auto simp: editor_ok_def erases_def)
  have plain_special: "special E inp n d q = fbind (Some (cparser_fsm_input d q)) (\<lambda>q. Some (Inr (CPARSER_OK, q)))"
    if "plain p0 d" "cfg q = cfg p0" for d q
    using that plain_char [OF that(1)] by (intro special_fsm) (auto simp: plain_def)
  show ?thesis
  proof (cases t)
    case CHAR_UNKNOWN
    then show ?thesis using assms(1-3) f(1,2) ring_bell by (auto simp: input_body_def)
  next
    case CHAR_REGULAR
    show ?thesis
    proof (cases "erases p0 c")
      case True
      have reg: "regular c p = rbind (cparser_line_delete p) (\<lambda>(rc, q).
        if rc = CPARSER_ERR_INVALID_PARAMS then Inl Exit else Inr (if rc = CPARSER_ERR_NOT_EXIST then None else Some q))"
        "c \<noteq> ch_complete (cfg p0)" "c \<noteq> ch_help (cfg p0)" "c \<noteq> CHR 0x0A"
        using True assms(2) f(3) by (auto simp: regular_def erases_def editor_ok_def)
      show ?thesis
      proof (cases x rule: rev_exhaust)
        case Nil
        have "cparser_line_delete p = Inr (CPARSER_ERR_NOT_EXIST, p)" using line_at_ends(3) [of p y] f(4) by (simp add: Nil)
        then show ?thesis using reg True assms(1,3) f(1,2) by (simp add: input_body_def CHAR_REGULAR Nil)
      next
        case (snoc x1 d)
        obtain q p' where q: "cparser_line_delete p = Inr (CPARSER_OK, q)" "cfg q = cfg p0" "cparser_fsm_input c q = Inr p'" "edit_inv p0 o0 x1 y p'"
          using rub_out [of p0 o0 x1 d y p c] assms(1,2) True snoc by blast
        then show ?thesis using reg True assms(3) f(1,2) ok special_fsm [of c q E inp n] by (simp add: input_body_def CHAR_REGULAR snoc)
      qed
    next
      case False
      then have c: "plain p0 c" "length x + length y + 1 < CPARSER_MAX_LINE_SIZE" "x' = x @ [c]" "y' = y"
        using assms(3) by (auto simp: CHAR_REGULAR split: if_splits)
      obtain q where q: "cparser_line_insert c p = (CPARSER_OK, q)" "cfg q = cfg p0"
        "cparser_fsm_input c q = Inl OutOfBounds \<and> CPARSER_MAX_TOKEN_SIZE \<le> length x \<or> (\<exists>p'. cparser_fsm_input c q = Inr p' \<and> edit_inv p0 o0 (x @ [c]) y p')"
        using put_char [OF assms(1,2) c(1,2)] by blast
      have "regular c p = Inr (Some q)" using c(1) f(3) q(1) plain_char [OF c(1)] by (auto simp: regular_def plain_def erases_def)
      then have "input_body E inp n c t p = fbind (Some (cparser_fsm_input c q)) (\<lambda>q. Some (Inr (CPARSER_OK, q)))"
        using f(1,2) plain_special [OF c(1) q(2)] by (simp add: input_body_def CHAR_REGULAR)
      then show ?thesis using q(3) c(3,4) by auto
    qed
  next
    case CHAR_LEFT_ARROW
    show ?thesis
    proof (cases x rule: rev_exhaust)
      case Nil
      have "cparser_line_prev_char p = (CHR 0x00, p)" using line_at_ends(2) [of p y] f(4) by (simp add: Nil)
      then show ?thesis using assms(1-3) f(1,2) ring_bell [OF assms(1,2)] by (auto simp: input_body_def CHAR_LEFT_ARROW Nil)
    next
      case (snoc x1 d)
      obtain q p' where q: "cparser_line_prev_char p = (CHR 0x08, q)" "cfg q = cfg p0" "cparser_fsm_input (CHR 0x08) q = Inr p'"
        "edit_inv p0 o0 x1 (d # y) p'" using move_left [of p0 o0 x1 d y p] assms(1,2) snoc by blast
      have "special E inp n (CHR 0x08) q = Some (Inr (CPARSER_OK, p'))" using q(2,3) ok by (subst special_fsm) auto
      then show ?thesis using q(1,4) f(1,2) assms(3) by (auto simp: input_body_def CHAR_LEFT_ARROW snoc)
    qed
  next
    case CHAR_RIGHT_ARROW
    show ?thesis
    proof (cases y)
      case Nil
      have "cparser_line_next_char p = (CHR 0x00, p)" using line_at_ends(1) [of p x] f(4) by (simp add: Nil)
      then show ?thesis using assms(1-3) f(1,2) ring_bell [OF assms(1,2)] by (auto simp: input_body_def CHAR_RIGHT_ARROW Nil)
    next
      case (Cons d y1)
      have d: "plain p0 d" using f(7) by (simp add: Cons)
      obtain q where q: "cparser_line_next_char p = (d, q)" "cfg q = cfg p0"
        "cparser_fsm_input d q = Inl OutOfBounds \<and> CPARSER_MAX_TOKEN_SIZE \<le> length x \<or> (\<exists>p'. cparser_fsm_input d q = Inr p' \<and> edit_inv p0 o0 (x @ [d]) y1 p')"
        using move_right [of p0 o0 x d y1 p] assms(1,2) Cons by blast
      have "input_body E inp n c t p = fbind (Some (cparser_fsm_input d q)) (\<lambda>q. Some (Inr (CPARSER_OK, q)))"
        using f(1,2) plain_special [OF d q(2)] plain_char [OF d] q(1) by (simp add: input_body_def CHAR_RIGHT_ARROW)
      then show ?thesis using q(3) assms(3) by (auto simp: CHAR_RIGHT_ARROW Cons)
    qed
  next
    case CHAR_FIRST
    then show ?thesis using walk_left [OF assms(1,2), of n] f(1,2,6) assms(3,4) by (auto simp: input_body_def)
  next
    case CHAR_LAST
    then show ?thesis using walk_right [OF assms(1,2), of n] f(1,2,6) assms(3,4) by (auto simp: input_body_def)
  qed (use assms(3) in auto)
qed

section \<open>Theorem\<close>

text \<open>What the machine knows of the line, without the node of the token being typed, which nothing reads.\<close>

definition fsm_view :: "parser \<Rightarrow> _" where
  "fsm_view p = (cur_node p, state p, current_pos p, last_good p, token_tos p, (tokens p)[token_tos p := (CUR_TOKEN p)\<lparr>tnode := None\<rparr>])"

lemma typed_view:
  assumes "typed p0 x r" "root_ok p0"
  shows "\<exists>q. rfold cparser_fsm_input x (cparser_fsm_reset p0) = Inr q \<and> fsm_view (relined l o1 r) = fsm_view q"
proof -
  obtain q n s where q: "rfold cparser_fsm_input x (cparser_fsm_reset p0) = Inr q" "r = alt n s q" "\<forall>c \<in> set x. \<not> erases p0 c" "length x < CPARSER_MAX_LINE_SIZE"
    using typed_run [OF assms] by blast
  then obtain st k where k: "stack_is q st k" using run_inv [OF assms(2) q(1,3,4)] by (auto simp: fsm_inv_def fsm_is_def)
  have "fsm_view (relined l o1 r) = fsm_view q"
    by (simp add: fsm_view_def q(2) alt_cur [OF k] stack_cur [OF k])
  then show ?thesis using q(1) by blast
qed

lemma keys_correct:
  assumes "edit_inv p0 o0 x y p" "editor_ok p0" "edits p0 ks (x, y) = Some (x', y')" "CPARSER_MAX_LINE_SIZE < n"
  shows "input_keys E n ks p = Some (Inl OutOfBounds) \<and> CPARSER_MAX_TOKEN_SIZE < length x + length y + length ks \<or>
    (\<exists>p'. input_keys E n ks p = Some (Inr p') \<and> edit_inv p0 o0 x' y' p')"
  using assms(1,3)
proof (induction ks arbitrary: x y p)
  case (Cons k ks)
  obtain c t where k: "k = (c, t)" by (cases k)
  obtain m where m: "n = Suc m" "CPARSER_MAX_LINE_SIZE \<le> m" using assms(4) by (cases n) auto
  obtain x1 y1 where s: "edit p0 (c, t) (x, y) = Some (x1, y1)" "edits p0 ks (x1, y1) = Some (x', y')"
    using Cons.prems(2) k by (cases "edit p0 (c, t) (x, y)") auto
  note len = edit_length [OF s(1)]
  let ?i = "input_body E (\<lambda>c. cparser_input E m c CHAR_REGULAR) m c t p"
  from key_correct [OF Cons.prems(1) assms(2) s(1) m(2), of E "\<lambda>c. cparser_input E m c CHAR_REGULAR"] show ?case
  proof
    assume "?i = Some (Inl OutOfBounds) \<and> CPARSER_MAX_TOKEN_SIZE \<le> length x + length y"
    then show ?thesis by (simp add: k m(1))
  next
    assume "\<exists>rc p'. ?i = Some (Inr (rc, p')) \<and> edit_inv p0 o0 x1 y1 p'"
    then obtain rc p' where p': "?i = Some (Inr (rc, p'))" "edit_inv p0 o0 x1 y1 p'" by blast
    show ?thesis using Cons.IH [OF p'(2) s(2)] p'(1) len by (auto simp: k m(1))
  qed
qed simp

lemma edit_start:
  assumes "editor_ok p0" "line_is (line_of p0) [] []"
  shows "edit_inv p0 (out p0) [] [] (cparser_fsm_reset p0)"
proof -
  have "cparser_fsm_reset p0 = relined (lines p0) (out p0 @ []) (cparser_fsm_reset p0)"
    by (simp add: relined_def cparser_fsm_reset_def cparser_token_stack_reset_def)
  moreover have "shows_text [] [] []" by (simp add: shows_text_def screen_def)
  ultimately show ?thesis using assms(2) typed.start [of p0] unfolding edit_inv_def line_of_def
    by (intro exI [of _ "lines p0"] exI [of _ "[]"] exI [of _ "cparser_fsm_reset p0"]) (simp add: CPARSER_MAX_LINE_SIZE_def)
qed



end
