(* ===== verification/CpShell.thy ===== *)
theory CpShell
  imports CpInput
begin

text \<open>
  Starting and running the command parser: \<open>cparser_init\<close>, \<open>cparser_run\<close> with \<open>cparser_unix_getch\<close>
  (\<open>cparser_io_unix.c\<close>), configuration files, the help command, the configuration in \<open>cli_main.c\<close> and the privileged
  mode of \<open>test_cli_cmd.c\<close>. Standard input and a file are the lists of their characters.
\<close>

section \<open>Start\<close>

definition cparser_init :: "cp_cfg \<Rightarrow> parser \<Rightarrow> cp_result \<times> parser" where
  "cparser_init c p =
     (if croot c = None \<or> ch_erase c = CHR 0x00 then (CPARSER_ERR_INVALID_PARAMS, p)
      else
        let p1 = p\<lparr>cfg := c\<lparr>cprompt := take (CPARSER_MAX_PROMPT - 1) (cprompt c)\<rparr>, root_level := 0, roots := (roots p)[0 := croot c],
              prompts := (prompts p)[0 := c_text (take (CPARSER_MAX_PROMPT - 1) (cprompt c))],
              cookies := replicate CPARSER_MAX_NESTED_LEVELS 0, max_line := 0, cur_line := 0, lines := map cparser_line_reset (lines p)\<rparr>;
            p2 = (cparser_fsm_reset p1)\<lparr>is_privileged_mode := False\<rparr>
        in (CPARSER_OK, cparser_input_reset p2))"

definition parser_config :: "node \<Rightarrow> bool \<Rightarrow> parser \<Rightarrow> parser" where
  "parser_config cparser_root debug p = p\<lparr>cfg := \<lparr>croot = Some cparser_root, ch_complete = CHR 0x09, ch_erase = CHR 0x08, ch_del = CHR 0x7F,
     ch_help = CHR ''?'', cprompt = ''CLI>'', fd = 1, cdebug = debug\<rparr>\<rparr>"

text \<open>The parser after \<open>memset\<close>.\<close>

definition zero_parser :: parser where
  "zero_parser = \<lparr>cfg = \<lparr>croot = None, ch_complete = CHR 0x00, ch_erase = CHR 0x00, ch_del = CHR 0x00, ch_help = CHR 0x00, cprompt = [], fd = 0, cdebug = False\<rparr>,
     root_level = 0, roots = replicate CPARSER_MAX_NESTED_LEVELS None, prompts = replicate CPARSER_MAX_NESTED_LEVELS [], cur_node = None,
     state = STATE_WHITESPACE, token_tos = 0, current_pos = 0, last_good = 0, tokens = replicate CPARSER_MAX_NUM_TOKENS (blank_token\<lparr>begin_ptr := 0\<rparr>),
     is_privileged_mode = False, max_line = 0, cur_line = 0,
     lines = replicate CPARSER_MAX_LINES (\<lparr>llast = 0, lcurrent = 0, lbuf = replicate (CPARSER_MAX_LINE_SIZE + 1) (CHR 0x00)\<rparr>), quitting = False,
     cookies = replicate CPARSER_MAX_NESTED_LEVELS 0, user = None, last_line_idx = 0, last_rc = CPARSER_OK, last_end_node = None, out = []\<rparr>"

section \<open>Reading the keyboard\<close>

text \<open>\<open>getchar\<close> is the code of the next character, -1 at the end; \<open>char\<close> is signed.\<close>

definition getchar :: "string \<Rightarrow> int \<times> string" where
  "getchar s = (case s of [] \<Rightarrow> (-1, []) | c # cs \<Rightarrow> (int (code c), cs))"

definition char_int :: "char \<Rightarrow> int" where
  "char_int c = (if code c < 128 then int (code c) else int (code c) - 256)"

definition isalnum :: "int \<Rightarrow> bool" where
  "isalnum c \<longleftrightarrow> 48 \<le> c \<and> c \<le> 57 \<or> 65 \<le> c \<and> c \<le> 90 \<or> 97 \<le> c \<and> c \<le> 122"

definition ispunct :: "int \<Rightarrow> bool" where
  "ispunct c \<longleftrightarrow> 33 \<le> c \<and> c \<le> 126 \<and> \<not> isalnum c"

definition cparser_unix_getch :: "parser \<Rightarrow> string \<Rightarrow> int \<times> char_type \<times> string" where
  "cparser_unix_getch p s = (case getchar s of (ch, s1) \<Rightarrow>
     if ch = 27 then (case getchar s1 of (ch2, s2) \<Rightarrow>
       if ch2 = 91 then (case getchar s2 of (ch3, s3) \<Rightarrow>
         (ch3, if ch3 = 65 then CHAR_UP_ARROW else if ch3 = 66 then CHAR_DOWN_ARROW else if ch3 = 67 then CHAR_RIGHT_ARROW
           else if ch3 = 68 then CHAR_LEFT_ARROW else CHAR_UNKNOWN, s3))
       else (ch2, CHAR_UNKNOWN, s2))
     else if ch = 16 then (ch, CHAR_UP_ARROW, s1)
     else if ch = 14 then (ch, CHAR_DOWN_ARROW, s1)
     else if ch = 1 then (ch, CHAR_FIRST, s1)
     else if ch = 5 then (ch, CHAR_LAST, s1)
     else if isalnum ch \<or> ch = 10 \<or> ispunct ch \<or> ch = 32 \<or> ch = char_int (ch_erase (cfg p)) \<or> ch = char_int (ch_del (cfg p)) \<or>
       ch = char_int (ch_help (cfg p)) \<or> ch = char_int (ch_complete (cfg p)) then (ch, CHAR_REGULAR, s1)
     else (ch, CHAR_UNKNOWN, s1))"

fun run_loop :: "cli_env \<Rightarrow> nat \<Rightarrow> string \<Rightarrow> parser \<Rightarrow> (string \<times> parser) cp_run" where
  "run_loop E 0 s p = None"
| "run_loop E (Suc n) s p =
     (if quitting p then Some (Inr (s, p))
      else case cparser_unix_getch p s of (ch, ch_type, s1) \<Rightarrow>
        fbind (cparser_input E n (char_of (nat (ch mod 256))) ch_type p) (\<lambda>(rc, q). run_loop E n s1 q))"

definition cparser_run :: "cli_env \<Rightarrow> nat \<Rightarrow> string \<Rightarrow> parser \<Rightarrow> (cp_result \<times> parser) cp_run" where
  "cparser_run E n s p =
     fbind (run_loop E n s ((cparser_print_prompt p)\<lparr>quitting := False\<rparr>)) (\<lambda>(s1, q). Some (Inr (CPARSER_OK, prints [CHR 0x0A] q)))"

section \<open>Configuration files\<close>

fun dec_text :: "nat \<Rightarrow> string" where
  "dec_text n = (if n < 10 then [char_of (48 + n)] else dec_text (n div 10) @ [char_of (48 + n mod 10)])"

declare dec_text.simps [simp del]

record load_state =
  indent :: nat
  last_indent :: int
  new_line :: bool
  line_num :: nat

fun leave_modes :: "nat \<Rightarrow> parser \<Rightarrow> parser" where
  "leave_modes 0 p = p"
| "leave_modes (Suc n) p =
     (case cparser_submode_exit p of (rc, q) \<Rightarrow> if rc \<noteq> CPARSER_OK then q else leave_modes n (cparser_fsm_reset q))"

definition load_error :: "int \<Rightarrow> cp_result \<Rightarrow> nat \<Rightarrow> parser \<Rightarrow> (cp_result \<times> parser) res" where
  "load_error fd0 rc line p =
     (let p1 = p\<lparr>cfg := (cfg p)\<lparr>fd := fd0\<rparr>\<rparr> in
      case rc of
        CPARSER_ERR_PARSE_ERR \<Rightarrow> Inr (CPARSER_NOT_OK, prints (''Line '' @ dec_text line @ '': Parse error.'' @ [CHR 0x0A]) p1)
      | CPARSER_ERR_INCOMP_CMD \<Rightarrow> Inr (CPARSER_NOT_OK, prints (''Line '' @ dec_text line @ '': Incomplete command.'' @ [CHR 0x0A]) p1)
      | _ \<Rightarrow> Inl Exit)"

text \<open>The indentation before the character is entered.\<close>

definition load_indent :: "char \<Rightarrow> load_state \<Rightarrow> parser \<Rightarrow> load_state \<times> parser" where
  "load_indent c l p =
     (if c = CHR '' '' then (if new_line l then l\<lparr>indent := indent l + 1\<rparr> else l, p)
      else if new_line l then
        (l\<lparr>new_line := False, last_indent := int (indent l)\<rparr>,
         if int (indent l) < last_indent l then leave_modes (nat (last_indent l) - indent l) p else p)
      else (l, p))"

text \<open>\<open>None\<close> in the result when the end of the file is reached.\<close>

fun load_chars :: "cli_env \<Rightarrow> nat \<Rightarrow> int \<Rightarrow> string \<Rightarrow> load_state \<Rightarrow> parser \<Rightarrow> (cp_result option \<times> parser) cp_run" where
  "load_chars E n fd0 [] l p = Some (Inr (None, p))"
| "load_chars E n fd0 (c # cs) l p =
     (if c = CHR 0x0A then
        fbind (cparser_execute_cmd E (\<lambda>ch. cparser_input E n ch CHAR_REGULAR) n p) (\<lambda>(rc, q).
          let l1 = l\<lparr>line_num := line_num l + 1, indent := 0, new_line := True\<rparr> in
          if rc = CPARSER_OK then load_chars E n fd0 cs l1 q
          else fbind (Some (load_error fd0 rc (line_num l1) q)) (\<lambda>(r, q1). Some (Inr (Some r, q1))))
      else case load_indent c l p of (l1, p1) \<Rightarrow>
        fbind (Some (cparser_fsm_input c p1)) (\<lambda>q. load_chars E n fd0 cs l1 q))"

definition cparser_load_cmd :: "cli_env \<Rightarrow> nat \<Rightarrow> string option \<Rightarrow> parser \<Rightarrow> (cp_result \<times> parser) cp_run" where
  "cparser_load_cmd E n file p =
     (let fd0 = fd (cfg p); p1 = p\<lparr>cfg := (cfg p)\<lparr>fd := -1\<rparr>\<rparr> in
      case file of
        None \<Rightarrow> Some (Inr (CPARSER_NOT_OK, p1))
      | Some text \<Rightarrow>
          fbind (load_chars E n fd0 text \<lparr>indent = 0, last_indent = -1, new_line = True, line_num = 0\<rparr> (cparser_fsm_reset p1)) (\<lambda>(r, q).
            case r of
              Some rc \<Rightarrow> Some (Inr (rc, q))
            | None \<Rightarrow> let q1 = leave_modes (root_level q) q in Some (Inr (CPARSER_OK, q1\<lparr>cfg := (cfg q1)\<lparr>fd := fd0\<rparr>\<rparr>))))"

text \<open>\<open>main\<close> behind its options and the connection to the server: the result, when the run ends.\<close>

definition cli_main :: "cli_env \<Rightarrow> nat \<Rightarrow> node \<Rightarrow> bool \<Rightarrow> string option option \<Rightarrow> string \<Rightarrow> (int \<times> parser) cp_run" where
  "cli_main E n cparser_root debug config_file stdin =
     (let p = parser_config cparser_root debug zero_parser in
      case cparser_init (cfg p) p of (rc, p1) \<Rightarrow>
        if rc \<noteq> CPARSER_OK then Some (Inr (-1, p1))
        else fbind (case config_file of None \<Rightarrow> Some (Inr p1) | Some file \<Rightarrow> fbind (cparser_load_cmd E n file p1) (\<lambda>(r, q). Some (Inr q)))
          (\<lambda>p2. fbind (cparser_run E n stdin p2) (\<lambda>(r, q). Some (Inr (0, q)))))"

section \<open>Walking the tree\<close>

type_synonym 'c walker = "parser \<Rightarrow> node \<Rightarrow> 'c \<Rightarrow> (cp_result \<times> parser \<times> 'c) res"

text \<open>A walker that is missing returns \<open>CPARSER_OK\<close>.\<close>

definition walker_fn :: "'c walker option \<Rightarrow> 'c walker" where
  "walker_fn f p n c = (case f of None \<Rightarrow> Inr (CPARSER_OK, p, c) | Some g \<Rightarrow> g p n c)"

fun cparser_walk_internal :: "'c walker option \<Rightarrow> 'c walker option \<Rightarrow> node \<Rightarrow> parser \<times> 'c \<Rightarrow> (cp_result \<times> parser \<times> 'c) res"
  and walk_children :: "'c walker option \<Rightarrow> 'c walker option \<Rightarrow> node list \<Rightarrow> parser \<times> 'c \<Rightarrow> (parser \<times> 'c) res" where
  "cparser_walk_internal pre post (Node t f a d cs) (p, c) =
     rbind (walker_fn pre p (Node t f a d cs) c) (\<lambda>(rc, s).
       if rc \<noteq> CPARSER_OK then Inr (rc, s)
       else rbind (if t = NODE_END then Inr s else walk_children pre post cs s) (\<lambda>(p1, c1). walker_fn post p1 (Node t f a d cs) c1))"
| "walk_children pre post [] s = Inr s"
| "walk_children pre post (n # ns) s = rbind (cparser_walk_internal pre post n s) (\<lambda>(rc, s1). walk_children pre post ns s1)"

definition cparser_walk :: "parser \<Rightarrow> 'c walker option \<Rightarrow> 'c walker option \<Rightarrow> 'c \<Rightarrow> (cp_result \<times> parser \<times> 'c) res" where
  "cparser_walk p pre post c =
     (if pre = None \<and> post = None then Inr (CPARSER_ERR_INVALID_PARAMS, p, c)
      else case roots p ! root_level p of None \<Rightarrow> Inl NullDeref | Some n \<Rightarrow> cparser_walk_internal pre post n (p, c))"

record help_stack =
  help_filter :: "string option"
  hnodes :: "node list"

text \<open>The nodes of the stack, the top one last; the array has two places more than a line has tokens.\<close>

definition cparser_help_pre_walker :: "help_stack walker" where
  "cparser_help_pre_walker p n hs =
     (if length (hnodes hs) \<ge> CPARSER_MAX_NUM_TOKENS + 2 then Inl OutOfBounds else Inr (CPARSER_OK, p, hs\<lparr>hnodes := hnodes hs @ [n]\<rparr>))"

fun strstr :: "string \<Rightarrow> string \<Rightarrow> bool" where
  "strstr [] t \<longleftrightarrow> t = []"
| "strstr (c # s) t \<longleftrightarrow> take (length t) (c # s) = t \<or> strstr s t"

definition filter_node :: "string \<Rightarrow> node \<Rightarrow> bool res" where
  "filter_node flt n =
     (if ntype n = NODE_LIST then
        if param_keywords (nparam n) = [] then Inl Exit else Inr (list_ex (\<lambda>k. strstr (c_text k) (c_text flt)) (param_keywords (nparam n)))
      else Inr (ntype n = NODE_KEYWORD \<and> strstr (param_text (nparam n)) (c_text flt)))"

fun filter_nodes :: "string \<Rightarrow> node list \<Rightarrow> bool res" where
  "filter_nodes flt [] = Inr False"
| "filter_nodes flt (n # ns) = rbind (filter_node flt n) (\<lambda>b. if b then Inr True else filter_nodes flt ns)"

text \<open>The nodes of a command; the counter is the number of open braces.\<close>

definition help_print_path :: "node \<Rightarrow> nat \<times> parser \<Rightarrow> (nat \<times> parser) res" where
  "help_print_path n s = (case s of (num_braces, p) \<Rightarrow>
     if ntype n = NODE_ROOT \<or> ntype n = NODE_END then Inr (num_braces, p)
     else
       let (b, p1) = (if bit (nflags n) 0 then (num_braces + 1, prints ''{ '' p) else (num_braces, p)) in
       rbind (cparser_help_print_node n False False p1) (\<lambda>p2.
         let p3 = printc (CHR '' '') p2 in
         Inr (b, if bit (nflags n) 1 then emit (concat (replicate b ''} '')) p3 else p3)))"

definition cparser_help_post_walker :: "help_stack walker" where
  "cparser_help_post_walker p n hs =
     rbind (if ntype n = NODE_END \<and> \<not> bit (nflags n) 2 then
              rbind (case help_filter hs of None \<Rightarrow> Inr True | Some flt \<Rightarrow> filter_nodes flt (hnodes hs)) (\<lambda>shown.
                if shown \<and> NODE_USABLE p n then
                  let p1 = (case ndesc n of None \<Rightarrow> prints (CHR 0x0D # ''  '') p | Some d \<Rightarrow> prints ([CHR 0x0D, CHR 0x0A] @ ''  '') (prints d p)) in
                  rbind (rfold help_print_path (hnodes hs) (0, p1)) (\<lambda>(b, p2). Inr (prints [CHR 0x0D, CHR 0x0A, CHR 0x0A] p2))
                else Inr p)
            else Inr p)
     (\<lambda>q. Inr (CPARSER_OK, q, hs\<lparr>hnodes := butlast (hnodes hs)\<rparr>))"

definition cparser_help_cmd :: "parser \<Rightarrow> string option \<Rightarrow> (cp_result \<times> parser) res" where
  "cparser_help_cmd p str =
     rbind (cparser_walk p (Some cparser_help_pre_walker) (Some cparser_help_post_walker) \<lparr>help_filter = str, hnodes = []\<rparr>) (\<lambda>(rc, q, hs). Inr (rc, q))"

section \<open>Privileged mode\<close>

text \<open>\<open>PRINTF\<close> writes to standard output when \<open>interactive\<close> is set, and else to \<open>output_ptr\<close>.\<close>

record test_state =
  interactive :: bool
  output_ptr :: "string option"
  printed :: string

definition PRINTF :: "string \<Rightarrow> test_state \<Rightarrow> test_state res" where
  "PRINTF s t =
     (if interactive t then Inr (t\<lparr>printed := printed t @ s\<rparr>)
      else case output_ptr t of None \<Rightarrow> Inl NullDeref | Some o1 \<Rightarrow> Inr (t\<lparr>output_ptr := Some (o1 @ s)\<rparr>))"

definition enter_privileged_mode :: "string \<Rightarrow> nat \<Rightarrow> test_state \<Rightarrow> parser \<Rightarrow> (cp_result \<times> test_state \<times> parser) res" where
  "enter_privileged_mode buf buf_size t p =
     (if strncmp buf ''HELLO'' buf_size \<noteq> 0 then
        rbind (PRINTF ([CHR 0x0A] @ ''Password incorrect. Should enter '' @ [CHR 0x27] @ ''HELLO'' @ [CHR 0x27] @ ''.'' @ [CHR 0x0A]) t) (\<lambda>t1. Inr (CPARSER_OK, t1, p))
      else rbind (PRINTF ([CHR 0x0A] @ ''Enter privileged mode.'' @ [CHR 0x0A]) t) (\<lambda>t1.
        Inr (CPARSER_OK, t1, snd (cparser_set_privileged_mode True p))))"

text \<open>\<open>passwd\<close> is an array of this call, \<open>cb\<close> stands for \<open>enter_privileged_mode\<close>.\<close>

definition enable_privileged_mode :: "string \<Rightarrow> nat \<Rightarrow> test_state \<Rightarrow> parser \<Rightarrow> (cp_result \<times> test_state \<times> parser) res" where
  "enable_privileged_mode passwd cb t p =
     (if cparser_is_in_privileged_mode p then rbind (PRINTF (''Already in privileged mode.'' @ [CHR 0x0A]) t) (\<lambda>t1. Inr (CPARSER_NOT_OK, t1, p))
      else rbind (cparser_user_input p (Some (''Enter password (Enter: '' @ [CHR 0x27] @ ''HELLO'' @ [CHR 0x27] @ ''): '')) False (Some passwd) 100 (Some cb)) (\<lambda>(rc, q).
        if rc \<noteq> CPARSER_OK then Inl Exit else Inr (CPARSER_OK, t, q)))"

definition disable_privileged_mode :: "test_state \<Rightarrow> parser \<Rightarrow> (cp_result \<times> test_state \<times> parser) res" where
  "disable_privileged_mode t p =
     (if \<not> cparser_is_in_privileged_mode p then rbind (PRINTF (''Not in privileged mode.'' @ [CHR 0x0A]) t) (\<lambda>t1. Inr (CPARSER_NOT_OK, t1, p))
      else Inr (CPARSER_OK, t, snd (cparser_set_privileged_mode False p)))"

definition cmd_help_filter :: "string option \<Rightarrow> parser \<Rightarrow> (cp_result \<times> parser) res" where
  "cmd_help_filter flt p = cparser_help_cmd p flt"

definition cmd_quit :: "parser \<Rightarrow> cp_result \<times> parser" where
  "cmd_quit p = cparser_quit p"

end
