(* ===== verification/CpLimits.thy ===== *)
theory CpLimits
  imports CpEdit CpShell
begin

text \<open>Where the command parser fails: at the end of a line buffer, and around configuration files.\<close>

section \<open>At the last position of the line\<close>

lemma insert_relined: "\<exists>l o1. snd (cparser_line_insert c p) = relined l o1 p"
proof (cases "c = CHR 0x00 \<or> CPARSER_MAX_LINE_SIZE \<le> llast (line_of p)")
  case True
  then show ?thesis by (intro exI [of _ "lines p"] exI [of _ "out p"]) (auto simp: cparser_line_insert_def Let_def)
next
  case False
  have "\<exists>l o1. emit s (set_line k p) = relined l o1 p" for s k
    by (intro exI [of _ "(lines p)[cur_line p := k]"] exI [of _ "out (emit s (set_line k p))"]) (simp add: emit_def set_line_def relined_def)
  then show ?thesis using False by (simp add: cparser_line_insert_def Let_def print_defs)
qed

lemma full_char:
  assumes "CPARSER_MAX_LINE_SIZE - 1 \<le> current_pos p" "\<not> erases p c"
  shows "\<exists>o1. cparser_fsm_input c p = Inr (relined (lines p) o1 p)"
proof -
  have "printc (CHR 0x07) p = relined (lines p) (out (printc (CHR 0x07) p)) p" by (simp add: printc_def emit_def relined_def)
  then show ?thesis using assms by (auto simp: cparser_fsm_input_def)
qed

lemma full_input:
  assumes "CPARSER_MAX_LINE_SIZE - 1 \<le> current_pos p" "user p = None" "\<not> erases p c" "c \<noteq> ch_complete (cfg p)" "c \<noteq> ch_help (cfg p)" "c \<noteq> CHR 0x0A"
  shows "cparser_input E n c CHAR_REGULAR p = None \<or> (\<exists>l o1. cparser_input E n c CHAR_REGULAR p = Some (Inr (CPARSER_OK, relined l o1 p)))"
proof (cases n)
  case (Suc m)
  obtain l o1 where r: "snd (cparser_line_insert c p) = relined l o1 p" using insert_relined by blast
  then have "regular c p = Inr (Some (relined l o1 p))" using assms(3-6) by (auto simp: regular_def)
  moreover obtain o2 where "cparser_fsm_input c (relined l o1 p) = Inr (relined l o2 p)"
    using full_char [of "relined l o1 p" c] assms(1,3) by auto
  ultimately show ?thesis using assms(2,4-6)
    by (auto simp: Suc input_body_def cparser_is_user_input_def special_fsm)
qed simp

lemma full_feed:
  assumes "CPARSER_MAX_LINE_SIZE - 1 \<le> current_pos p" "user p = None"
    "\<forall>c \<in> set t. \<not> erases p c \<and> c \<noteq> ch_complete (cfg p) \<and> c \<noteq> ch_help (cfg p) \<and> c \<noteq> CHR 0x0A"
  shows "feed (\<lambda>c. cparser_input E n c CHAR_REGULAR) t p = None \<or> (\<exists>l o1. feed (\<lambda>c. cparser_input E n c CHAR_REGULAR) t p = Some (Inr (relined l o1 p)))"
  using assms
proof (induction t arbitrary: p)
  case Nil
  show ?case using relined_relined(2) [of p] by (metis feed.simps(1))
next
  case (Cons c t)
  from full_input [OF Cons.prems(1,2), of c E n] Cons.prems(3) consider "cparser_input E n c CHAR_REGULAR p = None"
    | l o1 where "cparser_input E n c CHAR_REGULAR p = Some (Inr (CPARSER_OK, relined l o1 p))" by auto
  then show ?case
  proof cases
    case 2
    then show ?thesis using Cons.IH [of "relined l o1 p"] Cons.prems by auto
  qed simp
qed

lemma full_loop:
  assumes "CPARSER_MAX_LINE_SIZE - 1 \<le> current_pos p" "user p = None" "cur_node p = Some n" "children n = [c]" "ntype c = NODE_KEYWORD" "NODE_USABLE p c"
    "token_len (CUR_TOKEN p) \<le> length (param_text (nparam c))"
    "\<forall>d \<in> set (param_text (nparam c) @ '' ''). \<not> erases p d \<and> d \<noteq> ch_complete (cfg p) \<and> d \<noteq> ch_help (cfg p) \<and> d \<noteq> CHR 0x0A"
  shows "keyword_loop (\<lambda>c. cparser_input E m c CHAR_REGULAR) j p = None"
  using assms
proof (induction j arbitrary: p)
  case (Suc j)
  let ?i = "\<lambda>c. cparser_input E m c CHAR_REGULAR"
  have "\<forall>d \<in> set (drop (token_len (CUR_TOKEN p)) (param_text (nparam c))). \<not> erases p d \<and> d \<noteq> ch_complete (cfg p) \<and> d \<noteq> ch_help (cfg p) \<and> d \<noteq> CHR 0x0A"
    using Suc.prems(8) by (auto dest: in_set_dropD)
  from full_feed [OF Suc.prems(1,2) this, of E m] consider
      "cparser_complete_keyword ?i c (token_len (CUR_TOKEN p)) p = None"
    | l o1 where "cparser_complete_keyword ?i c (token_len (CUR_TOKEN p)) p = Some (Inr (relined l o1 p))"
    using Suc.prems(5,7) by (auto simp: cparser_complete_keyword_def not_less)
  then show ?case
  proof cases
    case 1
    then show ?thesis using Suc.prems by (simp add: cur_children_def)
  next
    case 2
    from full_feed [of "relined l o1 p" "'' ''" E m] Suc.prems consider "feed ?i '' '' (relined l o1 p) = None"
      | l' o2 where "feed ?i '' '' (relined l o1 p) = Some (Inr (relined l' o2 p))" by auto
    then show ?thesis
    proof cases
      case 1
      then show ?thesis using 2 Suc.prems by (simp add: cur_children_def del: feed.simps)
    next
      case b: 2
      have "keyword_loop ?i j (relined l' o2 p) = None" using Suc.prems by (intro Suc.IH) (simp_all add: NODE_USABLE_def)
      then show ?thesis using b 2 Suc.prems by (simp add: cur_children_def del: feed.simps)
    qed
  qed
qed simp

text \<open>
  C37. Entering a command does not end when the line is full: at position 382 the state machine takes no more characters,
  so the loop that follows a keyword without alternatives completes that keyword again and again. No fuel is enough.
\<close>

theorem enter_hangs:
  assumes "CPARSER_MAX_LINE_SIZE - 1 \<le> current_pos p" "user p = None" "state p = STATE_WHITESPACE" "cparser_line_current p = cparser_line_last p"
    "cur_node p = Some n" "children n = [c]" "ntype c = NODE_KEYWORD" "NODE_USABLE p c" "token_len (CUR_TOKEN p) = 0"
    "\<forall>d \<in> set (param_text (nparam c) @ '' ''). \<not> erases p d \<and> d \<noteq> ch_complete (cfg p) \<and> d \<noteq> ch_help (cfg p) \<and> d \<noteq> CHR 0x0A"
    "\<not> erases p (CHR 0x0A)" "CHR 0x0A \<notin> {ch_complete (cfg p), ch_help (cfg p)}"
  shows "cparser_input E m (CHR 0x0A) CHAR_REGULAR p = None"
proof (cases m)
  case (Suc k)
  have "keyword_loop (\<lambda>c. cparser_input E k c CHAR_REGULAR) k p = None" using assms by (intro full_loop) auto
  then have "cparser_execute_cmd E (\<lambda>c. cparser_input E k c CHAR_REGULAR) k p = None" using assms(3) by (simp add: cparser_execute_cmd_def)
  moreover have "regular (CHR 0x0A) p = Inr (Some p)" using assms(4,11,12) by (simp add: regular_def enter_line_def)
  ultimately show ?thesis using assms(2,12) by (simp add: Suc input_body_def cparser_is_user_input_def special_def)
qed simp

text \<open>382 blanks before the only keyword.\<close>

lemma spaces_run:
  assumes "n < CPARSER_MAX_LINE_SIZE"
  shows "rfold cparser_fsm_input (replicate n (CHR '' '')) (cparser_fsm_reset sample) =
    Inr ((cparser_fsm_reset sample)\<lparr>current_pos := n, last_good := int n - 1\<rparr>)"
  using assms
proof (induction n)
  case 0
  show ?case by (simp add: cparser_fsm_reset_def cparser_token_stack_reset_def)
next
  case (Suc n)
  let ?p = "(cparser_fsm_reset sample)\<lparr>current_pos := n, last_good := int n - 1\<rparr>"
  have c: "cfg ?p = cfg sample" "state ?p = STATE_WHITESPACE" using sample_ok(2) by (simp_all add: cparser_fsm_reset_def Let_def)
  have "cparser_fsm_input (CHR '' '') ?p = fsm_step (input_kind (CHR '' '')) (CHR '' '') ?p"
    using Suc.prems sample_erases [OF c(1)] c(1) by (intro fsm_input_char) (simp_all add: sample_def)
  also have "\<dots> = Inr (?p\<lparr>current_pos := Suc n, last_good := int n\<rparr>)"
    using c(2) by (auto simp: step_defs input_kind_def cparser_ws_space_def)
  finally have "cparser_fsm_input (CHR '' '') ?p = Inr (?p\<lparr>current_pos := Suc n, last_good := int n\<rparr>)" .
  moreover have "replicate (Suc n) (CHR '' '') = replicate n (CHR '' '') @ '' ''" by (simp add: replicate_append_same)
  ultimately show ?case using Suc by (simp add: rfold_append del: replicate.simps)
qed

lemma enter_hangs_witness:
  "\<exists>p. rfold cparser_fsm_input (replicate 382 (CHR '' '')) (cparser_fsm_reset sample) = Inr p \<and> (\<forall>m. cparser_input cli_sample_env m (CHR 0x0A) CHAR_REGULAR p = None)"
proof -
  let ?p = "(cparser_fsm_reset sample)\<lparr>current_pos := 382, last_good := int 382 - 1\<rparr>"
  let ?kw = "Node NODE_KEYWORD 0 (Text ''show'') None [Node NODE_END 0 (Glue 0) None []]"
  have r: "rfold cparser_fsm_input (replicate 382 (CHR '' '')) (cparser_fsm_reset sample) = Inr ?p"
    by (rule spaces_run) (simp add: CPARSER_MAX_LINE_SIZE_def)
  have c: "cfg ?p = cfg sample" "state ?p = STATE_WHITESPACE" "user ?p = None" "cur_node ?p = Some sample_tree"
    using sample_ok(2) by (simp_all add: cparser_fsm_reset_def cparser_token_stack_reset_def sample_def)
  have l: "cparser_line_current ?p = cparser_line_last ?p"
    by (simp add: cparser_line_current_def cparser_line_last_def line_of_def cparser_fsm_reset_def cparser_token_stack_reset_def sample_def)
  obtain m where m: "CPARSER_MAX_NUM_TOKENS = Suc m" by (simp add: CPARSER_MAX_NUM_TOKENS_def)
  have k: "token_len (CUR_TOKEN ?p) = 0" by (simp add: CUR_TOKEN_def cparser_fsm_reset_def cparser_token_stack_reset_def blank_token_def m)
  have u: "NODE_USABLE ?p ?kw" by (simp add: NODE_USABLE_def)
  have "cparser_input cli_sample_env m (CHR 0x0A) CHAR_REGULAR ?p = None" for m
    by (rule enter_hangs [OF _ c(3,2) l c(4) _ _ u k])
      (use sample_erases [OF c(1)] c(1) in \<open>auto simp: CPARSER_MAX_LINE_SIZE_def sample_tree_def sample_def c_text_def\<close>)
  then show ?thesis using r by blast
qed

section \<open>The last character of the line\<close>

lemma erase_at_start:
  assumes "line_is (line_of p) (x @ [c]) y" "cur_line p < length (lines p)" "user p = None" "current_pos p = 0" "erases p b"
    "b \<noteq> ch_complete (cfg p)" "b \<noteq> ch_help (cfg p)" "b \<noteq> CHR 0x0A"
  shows "cparser_input E (Suc j) b CHAR_REGULAR p = Some (Inl Exit)"
proof -
  obtain l where l: "cparser_line_delete p = Inr (CPARSER_OK, emit (CHR 0x08 # y @ CHR '' '' # CHR 0x08 # replicate (length y) (CHR 0x08)) (set_line l p))"
    using line_delete_is [OF assms(1,2)] by blast
  let ?q = "emit (CHR 0x08 # y @ CHR '' '' # CHR 0x08 # replicate (length y) (CHR 0x08)) (set_line l p)"
  have q: "cfg ?q = cfg p" "current_pos ?q = 0" using assms(4) by (simp_all add: emit_def set_line_def)
  have "cparser_fsm_input b ?q = Inl Exit" using q assms(5) by (simp add: cparser_fsm_input_def erases_def)
  then show ?thesis using l assms(3,5-8) q(1)
    by (auto simp: input_body_def cparser_is_user_input_def regular_def special_fsm)
qed

text \<open>The line buffer has one character more than the machine has seen.\<close>

definition lags :: "parser \<Rightarrow> string \<Rightarrow> char \<Rightarrow> parser \<Rightarrow> bool" where
  "lags p0 x c p \<longleftrightarrow> (\<exists>l o1 r. p = relined l o1 r \<and> typed p0 x r \<and> length l = length (lines p0) \<and> line_is (l ! cur_line p0) (x @ [c]) [])"

lemma lags_erase:
  assumes "lags p0 (x @ [d]) c p" "editor_ok p0"
  shows "\<exists>p'. cparser_input E (Suc j) (CHR 0x08) CHAR_REGULAR p = Some (Inr (CPARSER_OK, p')) \<and> lags p0 x d p'"
proof -
  have ok: "root_ok p0" "cur_line p0 < length (lines p0)" "fd (cfg p0) \<noteq> -1" "erases p0 (CHR 0x08)" using assms(2) by (auto simp: editor_ok_def erases_def)
  obtain l o1 r where p: "p = relined l o1 r" "typed p0 (x @ [d]) r" "length l = length (lines p0)" "line_is (l ! cur_line p0) ((x @ [d]) @ [c]) []"
    using assms(1) unfolding lags_def by blast
  note s = typed_state [OF p(2) ok(1)]
  have q: "line_is (line_of p) ((x @ [d]) @ [c]) []" "cur_line p < length (lines p)" "user p = None" "cfg p = cfg p0"
    using p s ok(2) assms(2) by (simp_all add: line_of_def editor_ok_def)
  let ?s = "[CHR 0x08, CHR '' '', CHR 0x08]"
  obtain k where k: "cparser_line_delete p = Inr (CPARSER_OK, emit ?s (set_line k p))" "line_is k (x @ [d]) []"
    using line_delete_is [OF q(1,2)] by auto
  have e: "emit ?s (set_line k p) = relined (l[cur_line p0 := k]) (o1 @ ?s) r"
    using s(3,5) ok(3) by (simp add: p(1) relined_set_line relined_print)
  have "erases r (CHR 0x08)" using ok(4) s(3) by (simp add: erases_def)
  from erase_relined [OF p(2) ok(1) this, of "l[cur_line p0 := k]" "o1 @ ?s"] obtain r' where
    r': "cparser_fsm_input (CHR 0x08) (relined (l[cur_line p0 := k]) (o1 @ ?s) r) = Inr (relined (l[cur_line p0 := k]) (o1 @ ?s) r')" "typed p0 x r'" by blast
  have "lags p0 x d (relined (l[cur_line p0 := k]) (o1 @ ?s) r')"
    unfolding lags_def using r'(2) p(3) k(2) ok(2)
    by (intro exI [of _ "l[cur_line p0 := k]"] exI [of _ "o1 @ ?s"] exI [of _ r']) simp
  moreover have "regular (CHR 0x08) p = Inr (Some (relined (l[cur_line p0 := k]) (o1 @ ?s) r))"
    using k(1) q(4) assms(2) unfolding e by (auto simp: regular_def editor_ok_def erases_def)
  ultimately show ?thesis using r'(1) q(3) assms(2) s(3)
    by (auto simp: input_body_def cparser_is_user_input_def special_fsm editor_ok_def erases_def)
qed

lemma lags_aborts:
  assumes "lags p0 x c p" "editor_ok p0"
  shows "input_keys E (Suc j) (replicate (length x + 1) (CHR 0x08, CHAR_REGULAR)) p = Some (Inl Exit)"
  using assms
proof (induction x arbitrary: c p rule: rev_induct)
  case Nil
  obtain l o1 r where p: "p = relined l o1 r" "typed p0 [] r" "length l = length (lines p0)" "line_is (l ! cur_line p0) ([] @ [c]) []"
    using Nil.prems(1) unfolding lags_def by auto
  have ok: "root_ok p0" using Nil.prems(2) by (simp add: editor_ok_def)
  note s = typed_state [OF p(2) ok]
  have "cparser_input E (Suc j) (CHR 0x08) CHAR_REGULAR p = Some (Inl Exit)"
    using p s Nil.prems(2) by (intro erase_at_start [of p "[]" c "[]"]) (auto simp: line_of_def editor_ok_def erases_def)
  then show ?case by (simp del: cparser_input.simps)
next
  case (snoc d x)
  obtain p' where p': "cparser_input E (Suc j) (CHR 0x08) CHAR_REGULAR p = Some (Inr (CPARSER_OK, p'))" "lags p0 x d p'"
    using lags_erase [OF snoc.prems] by blast
  then show ?case using snoc.IH [OF p'(2) snoc.prems(2)] by (simp del: cparser_input.simps)
qed

lemma start_lagging:
  assumes "edit_inv p0 o0 x [] p" "editor_ok p0" "length x = CPARSER_MAX_LINE_SIZE - 1" "plain p0 c"
  shows "\<exists>p'. cparser_input E (Suc j) c CHAR_REGULAR p = Some (Inr (CPARSER_OK, p')) \<and> lags p0 x c p'"
proof -
  have ok: "root_ok p0" "cur_line p0 < length (lines p0)" using assms(2) by (simp_all add: editor_ok_def)
  obtain l o1 r where p: "p = relined l (o0 @ o1) r" "typed p0 x r" "length l = length (lines p0)" using assms(1) unfolding edit_inv_def by blast
  note f = inv_facts [OF assms(1,2)] and s = typed_state [OF p(2) ok(1)]
  have "length x + length [] < CPARSER_MAX_LINE_SIZE" "c \<noteq> CHR 0x00" using assms(3) plain_char [OF assms(4)] by (auto simp: CPARSER_MAX_LINE_SIZE_def)
  from line_insert_is [OF f(4) this f(5)] obtain k where
    k: "cparser_line_insert c p = (CPARSER_OK, emit [c] (set_line k p))" "line_is k (x @ [c]) []" by auto
  let ?L = "l[cur_line p0 := k]"
  have e: "emit [c] (set_line k p) = relined ?L (o0 @ o1 @ [c]) r"
    by (rule inv_moved [OF p(1,2) assms(2)])
  have c: "\<not> erases r c" "c \<noteq> ch_complete (cfg r)" "c \<noteq> ch_help (cfg r)" "c \<noteq> CHR 0x0A"
    using assms(4) plain_char [OF assms(4)] s(3) by (auto simp: plain_def erases_def)
  have "CPARSER_MAX_LINE_SIZE - 1 \<le> current_pos r" using assms(3) s(2) by simp
  then obtain o2 where b: "cparser_fsm_input c (relined ?L (o0 @ o1 @ [c]) r) = Inr (relined ?L o2 r)"
    using full_char [of "relined ?L (o0 @ o1 @ [c]) r" c] c(1) by auto
  have "regular c p = Inr (Some (relined ?L (o0 @ o1 @ [c]) r))" using c k(1) e by (auto simp: regular_def p(1))
  then have "cparser_input E (Suc j) c CHAR_REGULAR p = Some (Inr (CPARSER_OK, relined ?L o2 r))"
    using b c f(1,2) by (simp add: input_body_def special_fsm)
  moreover have "lags p0 x c (relined ?L o2 r)"
    unfolding lags_def using p(2,3) k(2) ok(2) by (intro exI [of _ ?L] exI [of _ o2] exI [of _ r]) simp
  ultimately show ?thesis by blast
qed

lemma input_keys_append: "input_keys E n (ks @ ks') p = fbind (input_keys E n ks p) (input_keys E n ks')"
proof (induction ks arbitrary: p)
  case (Cons k ks)
  obtain c t where "k = (c, t)" by (cases k)
  then show ?case using Cons by (auto simp: fbind_def split: option.splits sum.splits)
qed simp

lemma edits_typed:
  "\<forall>c \<in> set t. plain p c \<Longrightarrow> length x + length t < CPARSER_MAX_LINE_SIZE \<Longrightarrow> edits p (map (\<lambda>c. (c, CHAR_REGULAR)) t) (x, []) = Some (x @ t, [])"
  by (induction t arbitrary: x) (auto simp: plain_def)

text \<open>The line takes 383 characters, the machine 382: a full line that is erased ends in a failed assertion.\<close>

lemma full_line_aborts:
  assumes "editor_ok p0" "line_is (line_of p0) [] []" "length t = CPARSER_MAX_LINE_SIZE" "\<forall>c \<in> set t. plain p0 c" "CPARSER_MAX_LINE_SIZE < n"
  shows "\<exists>e. input_keys E n (map (\<lambda>c. (c, CHAR_REGULAR)) t @ replicate CPARSER_MAX_LINE_SIZE (CHR 0x08, CHAR_REGULAR)) (cparser_fsm_reset p0) = Some (Inl e)"
proof -
  obtain x c where t: "t = x @ [c]" using assms(3) by (cases t rule: rev_exhaust) (auto simp: CPARSER_MAX_LINE_SIZE_def)
  obtain j where j: "n = Suc j" using assms(5) by (cases n) auto
  let ?k = "map (\<lambda>c. (c, CHAR_REGULAR))" and ?p = "cparser_fsm_reset p0"
  have "edits p0 (?k x) ([], []) = Some (x, [])" using edits_typed [of x p0 "[]"] assms(3,4) by (simp add: t)
  from keys_correct [OF edit_start [OF assms(1,2)] assms(1) this assms(5), of E] show ?thesis
  proof
    assume "input_keys E n (?k x) ?p = Some (Inl OutOfBounds) \<and> CPARSER_MAX_TOKEN_SIZE < length [] + length [] + length (?k x)"
    then show ?thesis by (simp add: t input_keys_append del: replicate.simps)
  next
    assume "\<exists>p'. input_keys E n (?k x) ?p = Some (Inr p') \<and> edit_inv p0 (out p0) x [] p'"
    then obtain p1 where p1: "input_keys E n (?k x) ?p = Some (Inr p1)" "edit_inv p0 (out p0) x [] p1" by blast
    have "length x = CPARSER_MAX_LINE_SIZE - 1" "plain p0 c" using assms(3,4) by (simp_all add: t)
    then obtain p2 where p2: "cparser_input E (Suc j) c CHAR_REGULAR p1 = Some (Inr (CPARSER_OK, p2))" "lags p0 x c p2"
      using start_lagging [OF p1(2) assms(1)] by blast
    have "CPARSER_MAX_LINE_SIZE = length x + 1" using assms(3) by (simp add: t)
    then show ?thesis using p1(1) p2(1) lags_aborts [OF p2(2) assms(1), of E j]
      by (simp add: t input_keys_append j del: cparser_input.simps replicate.simps)
  qed
qed

section \<open>Configuration files\<close>

text \<open>With no file the descriptor stays -1: nothing is printed from then on.\<close>

lemma missing_file_mutes:
  "\<exists>q. cparser_load_cmd E n None p = Some (Inr (CPARSER_NOT_OK, q)) \<and> (\<forall>s q'. cfg q' = cfg q \<longrightarrow> emit s q' = q')"
  by (simp add: cparser_load_cmd_def Let_def emit_def)

lemma load_typing:
  assumes "CHR 0x0A \<notin> set w" "\<not> new_line l"
  shows "load_chars E n f (w @ r) l p = fbind (Some (rfold cparser_fsm_input w p)) (load_chars E n f r l)"
  using assms(1)
proof (induction w arbitrary: p)
  case (Cons c w)
  have "load_indent c l p = (l, p)" using assms(2) by (simp add: load_indent_def)
  then show ?case using Cons by (cases "cparser_fsm_input c p") auto
qed simp

lemma load_word:
  assumes "CHR 0x0A \<notin> set w" "w \<noteq> []" "hd w \<noteq> CHR '' ''"
  shows "load_chars E n f (w @ r) \<lparr>indent = 0, last_indent = -1, new_line = True, line_num = 0\<rparr> p =
    fbind (Some (rfold cparser_fsm_input w p)) (load_chars E n f r \<lparr>indent = 0, last_indent = 0, new_line = False, line_num = 0\<rparr>)"
proof -
  obtain c v where w: "w = c # v" using assms(2) by (cases w) auto
  let ?l = "\<lparr>indent = 0, last_indent = 0, new_line = False, line_num = 0\<rparr>"
  have i: "load_indent c \<lparr>indent = 0, last_indent = -1, new_line = True, line_num = 0\<rparr> p = (?l, p)" using assms(3) by (simp add: load_indent_def w)
  show ?thesis
  proof (cases "cparser_fsm_input c p")
    case (Inr q)
    then show ?thesis using load_typing [of v ?l E n f r q] assms(1) i by (auto simp: w)
  qed (use assms(1) i in \<open>auto simp: w\<close>)
qed

text \<open>A word that is typed completely, then its blank.\<close>

lemma word_token:
  assumes "fsm_is p [] k [] n" "state p = STATE_WHITESPACE" "word w" "cparser_match p w (Some n) = Inr (num, m, True)" "0 < num"
  shows "\<exists>q k'. steps w p = Inr q \<and> fsm_inv q \<and> state q = STATE_TOKEN \<and> fsm_is q [] k' w n"
proof -
  have w: "w \<noteq> []" "CHR '' '' \<notin> set w" "length w < CPARSER_MAX_TOKEN_SIZE" using assms(3) by (simp_all add: word_def)
  obtain q where q: "steps w p = Inr q" "fsm_inv q" "state q = STATE_TOKEN \<and> (\<exists>k'. fsm_is q [] k' w n) \<or>
     state q = STATE_ERROR \<and> (\<exists>v u m b. w = v @ u \<and> v \<noteq> [] \<and> cparser_match p v (Some n) = Inr (0, m, b))"
    using word_chars [OF assms(1,2) w(2,3)] unfolding if_not_P [OF w(1)] by blast
  have "\<not> (\<exists>v u m b. w = v @ u \<and> v \<noteq> [] \<and> cparser_match p v (Some n) = Inr (0, m, b))"
    using matched_prefix [OF _ assms(5)] assms(4) by (metis less_irrefl)
  then show ?thesis using q by blast
qed

text \<open>Entering a command while the descriptor is -1: its keyword leaves a blank in the line.\<close>

lemma enter_word:
  assumes "fsm_inv q" "fsm_is q [] k' w n" "state q = STATE_TOKEN" "user q = None" "fd (cfg q) = -1" "\<not> cdebug (cfg q)" "plain q (CHR '' '')"
    "length w < CPARSER_MAX_TOKEN_SIZE" "current_pos q + 1 < CPARSER_MAX_LINE_SIZE"
    "cparser_match q w (Some n) = Inr (num, Some m, True)" "0 < num" "ntype m = NODE_KEYWORD" "param_text (nparam m) = w"
    "find (\<lambda>c. ntype c = NODE_END \<and> NODE_USABLE q c) (children m) = Some c" "nparam c = Glue g" "\<forall>p. glue E g p = Inr (CPARSER_OK, p)"
    "line_is (line_of q) [] []" "cur_line q < length (lines q)"
  shows "\<exists>q'. cparser_execute_cmd E (\<lambda>ch. cparser_input E (Suc j) ch CHAR_REGULAR) (Suc j) q = Some (Inr (CPARSER_OK, q')) \<and>
    line_is (line_of q') '' '' [] \<and> cur_line q' < length (lines q') \<and> user q' = None \<and> current_pos q' = 0 \<and> cfg q' = cfg q \<and> root_level q' = root_level q"
proof -
  let ?inp = "\<lambda>ch. cparser_input E (Suc j) ch CHAR_REGULAR"
  have mute: "emit s p = p" if "cfg p = cfg q" for s p using that assms(5) by (simp add: emit_def)
  have cur: "tok_chars (CUR_TOKEN q) = w" "token_len (CUR_TOKEN q) = length w" "cur_node q = Some n"
    using assms(2) stack_cur [of q "[]" k'] token_is_chars by (auto simp: fsm_is_def token_is_def)
  obtain l where l: "cparser_line_insert (CHR '' '') q = (CPARSER_OK, emit (CHR '' '' # [] @ replicate (length []) (CHR 0x08)) (set_line l q))"
    "line_is l ([] @ '' '') []"
    using line_insert_is [OF assms(17) _ _ assms(18), of "CHR '' ''"] by (auto simp: CPARSER_MAX_LINE_SIZE_def)
  let ?L = "(lines q)[cur_line q := l]"
  have ins: "snd (cparser_line_insert (CHR '' '') q) = relined ?L (out q) q" unfolding l(1) snd_conv
    by (subst mute) (simp_all add: set_line_def relined_def)
  obtain r d where r: "fsm_step Space (CHR '' '') q = Inr r" "state r = STATE_WHITESPACE" "cur_node r = Some m"
    using space_step [OF assms(2,3,8,10), of "CHR '' ''"] assms(11) by (auto simp: fsm_is_def)
  have fr: "cfg r = cfg q" "user r = None" "cur_line r = cur_line q" "root_level r = root_level q" "is_privileged_mode r = is_privileged_mode q"
    using step_frame [OF r(1)] assms(4) by (simp_all add: rest_def)
  let ?r = "relined ?L (out q) r"
  have "cparser_fsm_input (CHR '' '') (relined ?L (out q) q) = fsm_step (input_kind (CHR '' '')) (CHR '' '') (relined ?L (out q) q)"
    using assms(6,7,9) by (intro fsm_input_char) (simp_all add: plain_def)
  then have fi: "cparser_fsm_input (CHR '' '') (relined ?L (out q) q) = Inr ?r" by (simp add: step_relined lift_res_def input_kind_def r(1))
  have "?inp (CHR '' '') q = Some (Inr (CPARSER_OK, ?r))"
    using assms(4,7) ins fi by (auto simp: input_body_def cparser_is_user_input_def regular_def special_fsm plain_def)
  then have blank: "feed ?inp '' '' q = Some (Inr ?r)" by simp
  have "cparser_complete_fn E ?inp m (CUR_TOKEN q) q = Some (Inr q)"
    using assms(12,13) cur(2) by (simp add: cparser_complete_fn_def cparser_complete_keyword_def)
  then have "cparser_execute_cmd E ?inp (Suc j) q = fbind (keyword_loop ?inp (Suc j) ?r) (\<lambda>q. Some (execute_end E q))"
    using assms(3,10,11) cur blank by (simp add: cparser_execute_cmd_def Let_def del: keyword_loop.simps feed.simps cparser_input.simps)
  moreover have f: "find (\<lambda>c. ntype c = NODE_END \<and> NODE_USABLE ?r c) (children m) = Some c" using assms(14) fr(5) by (simp add: NODE_USABLE_def)
  ultimately have x: "cparser_execute_cmd E ?inp (Suc j) q = Some (run_glue E c ?r)"
    using end_found(1) [OF f, where inp = ?inp and k = j] end_found(2) [OF f, where E = E] r(3) by (simp del: keyword_loop.simps cparser_input.simps)
  define q' where "q' = cparser_fsm_reset (cparser_record_command CPARSER_OK (?r\<lparr>cur_node := Some c\<rparr>))"
  have q': "cfg q' = cfg q" "user q' = None" "lines q' = ?L" "cur_line q' = cur_line q" "current_pos q' = 0" "root_level q' = root_level q"
    using fr by (simp_all add: q'_def cparser_fsm_reset_def cparser_token_stack_reset_def cparser_record_command_def Let_def)
  have "printc (CHR 0x0A) (?r\<lparr>cur_node := Some c\<rparr>) = ?r\<lparr>cur_node := Some c\<rparr>" unfolding printc_def by (rule mute) (simp add: fr)
  moreover have "cparser_print_prompt q' = q'" using mute q'(1) by (simp add: cparser_print_prompt_def print_defs Let_def)
  ultimately have "run_glue E c ?r = Inr (CPARSER_OK, q')"
    using assms(15,16) q'(2) unfolding q'_def by (simp add: run_glue_def finish_cmd_def Let_def cparser_is_user_input_def)
  then show ?thesis using x q' assms(18) l(2) by (simp add: line_of_def)
qed

text \<open>
  C38. A configuration file leaves the completions of its commands in the line buffer, which nobody resets: when a file
  with one keyword has been loaded, pressing backspace at the empty prompt runs into a failed assertion.
\<close>

theorem load_then_erase_aborts:
  assumes "editor_ok p0" "line_is (line_of p0) [] []" "root_level p0 = 0" "roots p0 ! 0 = Some n" "word w" "\<forall>c \<in> set (w @ '' ''). plain p0 c"
    "cparser_match p0 w (Some n) = Inr (num, Some m, True)" "0 < num" "ntype m = NODE_KEYWORD" "param_text (nparam m) = w"
    "find (\<lambda>c. ntype c = NODE_END \<and> NODE_USABLE p0 c) (children m) = Some c" "nparam c = Glue g" "\<forall>p. glue E g p = Inr (CPARSER_OK, p)"
  shows "\<exists>q. cparser_load_cmd E (Suc j) (Some (w @ [CHR 0x0A])) p0 = Some (Inr (CPARSER_OK, q)) \<and> current_pos q = 0 \<and>
    cparser_input E (Suc i) (CHR 0x08) CHAR_REGULAR q = Some (Inl Exit)"
proof -
  let ?p = "p0\<lparr>cfg := (cfg p0)\<lparr>fd := -1\<rparr>\<rparr>"
  let ?s = "cparser_fsm_reset ?p"
  have e0: "root_ok p0" "user p0 = None" "cur_line p0 < length (lines p0)" using assms(1) by (simp_all add: editor_ok_def)
  have ok: "root_ok ?p" using e0(1) by (simp add: root_ok_def)
  have s: "cfg ?s = (cfg p0)\<lparr>fd := -1\<rparr>" "state ?s = STATE_WHITESPACE" "cur_node ?s = Some n" "user ?s = None" "current_pos ?s = 0" "lines ?s = lines p0"
    "cur_line ?s = cur_line p0" "root_level ?s = 0" "is_privileged_mode ?s = is_privileged_mode p0"
    using e0(2) assms(3,4) by (simp_all add: cparser_fsm_reset_def cparser_token_stack_reset_def Let_def)
  obtain k where k: "CPARSER_MAX_NUM_TOKENS = Suc k" by (simp add: CPARSER_MAX_NUM_TOKENS_def)
  have st: "stack_is ?s [] blank_token" by (simp add: stack_is_def cparser_fsm_reset_def cparser_token_stack_reset_def k)
  have inv: "fsm_inv ?s" by (rule reset_inv [OF ok])
  have ms: "cparser_match ?s = cparser_match p0" by (rule match_cong) (rule s(9))
  have w: "w \<noteq> []" "CHR '' '' \<notin> set w" "length w < CPARSER_MAX_TOKEN_SIZE" using assms(5) by (simp_all add: word_def)
  obtain q k' where q: "steps w ?s = Inr q" "fsm_inv q" "state q = STATE_TOKEN" "fsm_is q [] k' w n"
    using word_token [OF fsm_is_unique [OF inv st blank_is(1) s(3)] s(2) assms(5), of num "Some m"] assms(7,8) ms by auto
  have fq: "cfg q = (cfg p0)\<lparr>fd := -1\<rparr>" "user q = None" "lines q = lines p0" "cur_line q = cur_line p0" "root_level q = 0"
    "is_privileged_mode q = is_privileged_mode p0" using steps_frame [OF q(1)] s by (simp_all add: rest_def)
  have pos: "current_pos q = length w" using steps_pos [OF inv q(1)] s(5) by simp
  have pl: "\<forall>c \<in> set w. \<not> erases p0 c \<and> c \<noteq> CHR 0x0A" "plain p0 (CHR '' '')" using assms(6) plain_char by (auto simp: plain_def)
  have run: "rfold cparser_fsm_input w ?s = Inr q"
    using pl(1) s(1,5) w(3) e0(1) inv q(1)
    by (intro input_steps) (auto simp: erases_def root_ok_def CPARSER_MAX_TOKEN_SIZE_def CPARSER_MAX_LINE_SIZE_def)
  have mq: "cparser_match q w (Some n) = Inr (num, Some m, True)" using assms(7) steps_match [OF q(1)] ms by simp
  obtain q' where q': "cparser_execute_cmd E (\<lambda>ch. cparser_input E (Suc j) ch CHAR_REGULAR) (Suc j) q = Some (Inr (CPARSER_OK, q'))"
    "line_is (line_of q') '' '' []" "cur_line q' < length (lines q')" "user q' = None" "current_pos q' = 0" "cfg q' = cfg q" "root_level q' = root_level q"
  proof -
    have "\<exists>q'. cparser_execute_cmd E (\<lambda>ch. cparser_input E (Suc j) ch CHAR_REGULAR) (Suc j) q = Some (Inr (CPARSER_OK, q')) \<and>
      line_is (line_of q') '' '' [] \<and> cur_line q' < length (lines q') \<and> user q' = None \<and> current_pos q' = 0 \<and> cfg q' = cfg q \<and> root_level q' = root_level q"
    proof (rule enter_word [OF q(2,4,3) fq(2) _ _ _ w(3) _ mq assms(8-10) _ assms(12,13)])
      show "\<not> cdebug (cfg q)" using e0(1) by (simp add: fq root_ok_def)
      show "plain q (CHR '' '')" using pl(2) by (simp add: plain_def fq erases_def)
      show "current_pos q + 1 < CPARSER_MAX_LINE_SIZE" using w(3) by (simp add: pos CPARSER_MAX_TOKEN_SIZE_def CPARSER_MAX_LINE_SIZE_def)
      show "find (\<lambda>c. ntype c = NODE_END \<and> NODE_USABLE q c) (children m) = Some c" using assms(11) by (simp add: NODE_USABLE_def fq(6))
      show "line_is (line_of q) [] []" using assms(2) by (simp add: line_of_def fq)
    qed (use e0(3) in \<open>simp_all add: fq\<close>)
    then show ?thesis using that by blast
  qed
  let ?q = "q'\<lparr>cfg := (cfg q')\<lparr>fd := fd (cfg p0)\<rparr>\<rparr>"
  have "CHR 0x0A \<notin> set w" "hd w \<noteq> CHR '' ''" using pl(1) w(2) hd_in_set [OF w(1)] by (blast, metis)
  from load_word [OF this(1) w(1) this(2), of E "Suc j" "fd (cfg p0)" "[CHR 0x0A]" ?s]
  have "cparser_load_cmd E (Suc j) (Some (w @ [CHR 0x0A])) p0 = Some (Inr (CPARSER_OK, ?q))"
    using q'(1,7) fq(5) by (simp add: cparser_load_cmd_def Let_def run del: cparser_input.simps)
  moreover have "cparser_input E (Suc i) (CHR 0x08) CHAR_REGULAR ?q = Some (Inl Exit)"
  proof (rule erase_at_start [of ?q "[]" "CHR '' ''" "[]"])
    show "line_is (line_of ?q) ([] @ [CHR '' '']) []" using q'(2) by (simp add: line_of_def)
  qed (use q' fq assms(1) in \<open>auto simp: editor_ok_def erases_def\<close>)
  ultimately show ?thesis using q'(5) by (intro exI [of _ ?q]) simp
qed

lemma load_then_erase_aborts_witness:
  "\<exists>q. cparser_load_cmd cli_sample_env 400 (Some (''show'' @ [CHR 0x0A])) sample = Some (Inr (CPARSER_OK, q)) \<and>
    cparser_input cli_sample_env 400 (CHR 0x08) CHAR_REGULAR q = Some (Inl Exit)"
proof -
  have ok: "editor_ok sample" using sample_ok(1) by (simp add: editor_ok_def sample_def erases_def)
  have l: "line_is (line_of sample) [] []" by (simp add: line_is_def line_of_def sample_def)
  have r: "root_level sample = 0" "roots sample ! 0 = Some sample_tree" by (simp_all add: sample_def)
  have w: "word ''show''" by (simp add: word_def CPARSER_MAX_TOKEN_SIZE_def)
  have p: "\<forall>c \<in> set (''show'' @ '' ''). plain sample c" by (simp add: plain_def erases_def sample_def code_def)
  let ?kw = "Node NODE_KEYWORD 0 (Text ''show'') None [Node NODE_END 0 (Glue 0) None []]"
  have m: "cparser_match sample ''show'' (Some sample_tree) = Inr (1, Some ?kw, True)"
    by (simp add: cparser_match_def sample_tree_def NODE_USABLE_def match_fn_def cparser_match_keyword_def c_text_def char_at_def)
  have f: "find (\<lambda>c. ntype c = NODE_END \<and> NODE_USABLE sample c) (children ?kw) = Some (Node NODE_END 0 (Glue 0) None [])"
    by (simp add: NODE_USABLE_def)
  have g: "\<forall>p. glue cli_sample_env 0 p = Inr (CPARSER_OK, p)" by (simp add: cli_sample_env_def)
  have s: "Suc 399 = 400" by simp
  show ?thesis using load_then_erase_aborts [OF ok l r w p m _ _ _ f _ g, of 399 399] unfolding s by (auto simp: c_text_def)
qed

text \<open>A command that fails with another code than the two of the parser, in a file, ends in the \<open>default\<close> of the switch.\<close>

lemma load_error_aborts: "load_error f CPARSER_NOT_OK line p = Inl Exit"
  by (simp add: load_error_def)

section \<open>End of input and privileged mode\<close>

text \<open>At the end of standard input the loop of \<open>cparser_run\<close> does not end.\<close>

lemma eof_loops:
  assumes "\<not> quitting p" "user p = None" "CHR 0xFF \<notin> {ch_erase (cfg p), ch_del (cfg p), ch_help (cfg p), ch_complete (cfg p)}"
  shows "run_loop E n [] p = None"
  using assms
proof (induction n arbitrary: p)
  case (Suc n)
  have c: "char_int c = -1 \<Longrightarrow> c = CHR 0xFF" for c
  proof -
    assume "char_int c = -1"
    then have "code c = 255" by (auto simp: char_int_def split: if_splits)
    also have "\<dots> = code (CHR 0xFF)" by (simp add: code_def)
    finally have "code c = code (CHR 0xFF)" .
    then show "c = CHR 0xFF" by (simp add: code_eq)
  qed
  have g: "cparser_unix_getch p [] = (-1, CHAR_UNKNOWN, [])"
    using Suc.prems(3) c by (auto simp: cparser_unix_getch_def getchar_def isalnum_def ispunct_def)
  note prems = Suc.prems and IH = Suc.IH
  show ?case
  proof (cases n)
    case (Suc m)
    have "cparser_input E n ch CHAR_UNKNOWN p = Some (Inr (CPARSER_NOT_OK, printc (CHR 0x07) p))" for ch
      using prems(2) by (simp add: Suc input_body_def cparser_is_user_input_def)
    moreover have "run_loop E n [] (printc (CHR 0x07) p) = None"
      using prems by (intro IH) (auto simp: printc_def emit_def)
    ultimately show ?thesis using g prems(1) by simp
  qed (use g prems(1) in simp)
qed simp

text \<open>Every prefix of the password is accepted, the empty one too, where the message can be printed; in this client it cannot.\<close>

lemma password_prefix:
  "interactive t \<Longrightarrow> n \<le> 5 \<Longrightarrow> \<exists>t1. enter_privileged_mode (take n ''HELLO'' @ z) n t p = Inr (CPARSER_OK, t1, p\<lparr>is_privileged_mode := True\<rparr>)"
proof -
  assume i: "interactive t" and "n \<le> 5"
  then have "n = 0 \<or> n = 1 \<or> n = 2 \<or> n = 3 \<or> n = 4 \<or> n = 5" by linarith
  then have "strncmp (take n ''HELLO'' @ z) ''HELLO'' n = 0" by (auto simp: numeral_eq_Suc char_at_def)
  then show ?thesis using i by (simp add: enter_privileged_mode_def PRINTF_def cparser_set_privileged_mode_def)
qed

lemma password_faults: "\<not> interactive t \<Longrightarrow> output_ptr t = None \<Longrightarrow> enter_privileged_mode buf n t p = Inl NullDeref"
  by (simp add: enter_privileged_mode_def PRINTF_def)

end
