(* ===== verification/Spec2Isabelle.thy ===== *)
theory Spec2Isabelle
  imports HsTheorems MgmtTheorems FragFrame FragAge MainTheorems ServerLoop CliSession CpValue CpEdit CpLimits
begin

text \<open>
  Verification of the sec-fw firewall: a data plane on the cores of an Octeon processor that classifies,
  tracks and forwards packets, and a management plane that keeps the rules. Paths are relative to \<open>src\<close>.

  \<^bold>\<open>How the program is put together.\<close> The hardware queues received frames as work entries.
  \<open>oct_rx_process_work\<close> turns an entry into a packet descriptor (\<open>mbuf_t\<close>); \<open>Decode\<close> checks the Ethernet,
  VLAN, IPv4 and TCP or UDP headers; IP fragments wait in the fragment table until their datagram is
  complete; \<open>FlowHandlePacket\<close> finds or makes the flow of the packet in a hash table and \<open>l7_deliver\<close> sends
  it on its input port. Timers age flows and fragments; buffers come from hardware pools and from the
  software pools of \<open>mem_pool.c\<close>. The CLI sends rules over TCP to the management server, which keeps them
  in a table in shared memory; \<open>load_rule\<close> copies the table into the rule set of the packet classifier, a
  HyperSplit decision tree over eleven dimensions. \<open>main.c\<close> starts a core and runs its loop: frames, timer
  entries and the commands of the management plane arrive as work entries of three groups.

  \<^bold>\<open>Conventions\<close> (\<open>Prelude\<close>, \<open>Bytes\<close>). A C function is a function on records of its state. Machine
  integers are words of their width. A result is \<open>fault + 'a\<close>: the faults are \<open>exit\<close>, a read or write
  through \<open>NULL\<close>, an access out of bounds, and a wait for a lock that is held. A loop or recursion over
  data that another part of the program may have linked in a circle has fuel and returns \<open>None\<close> without
  it; the theorems give the fuel that is enough. Pointers to nodes are numbers in an explicit store;
  packet pointers are 64-bit addresses into the bytes of their buffer. The hardware (buffers from its
  allocator, cycle counter, answers of the output unit) is in arguments.

  \<^bold>\<open>Packet classifier\<close> (\<open>dataplane/src/acl/acl.c\<close>, \<open>hs.h\<close>).
  \<^item> \<open>SegPoint\<close>: comparison, copying, increment and decrement of 32-, 64- and 128-bit points.
  \<^item> \<open>Segments\<close>: the table of end points of a node and the choice of the dimension.
  \<^item> \<open>HyperSplit\<close>: \<open>BuildHSTree\<close> with its statistics, the trees that implement a rule list (\<open>hs_tree\<close>), and
    the lemma that a build gives such a tree. Every split removes an end point of at least one dimension
    from each child, so \<open>22\<close> levels for each rule are enough fuel.
  \<^item> \<open>HsLookup\<close>: \<open>LookupPacket\<close>, \<open>LookupHSTree\<close>, \<open>LinearSearch\<close>, \<open>FreeRootNode\<close>.
  \<^item> \<open>HsTheorems\<close>: C1 to C5. The build returns and lookups find the rules a linear search finds; the
    counters describe the tree; the release frees every object once; the other lookup is wrong on the
    border of a range. A second build can read out of bounds.
  \<^item> \<open>LoadRule\<close>: \<open>load_rule\<close>, \<open>ReadIPRange\<close>, with the range cells the filters share.

  \<^bold>\<open>Management plane\<close> (\<open>mgrplane\<close>).
  \<^item> \<open>RuleTable\<close> (\<open>srv_rule.c\<close>): the rule table and every operation on it; C6 and C7, with an abstract
    bounded set of rules as specification.
  \<^item> \<open>Message\<close> (\<open>message.c\<close>): headers, data blocks, pack routines, registration.
  \<^item> \<open>MgmtServer\<close>, \<open>ServerLoop\<close> (\<open>trans.c\<close>, \<open>cmdproc.c\<close>, \<open>srv_octeon.c\<close>): socket table, receive, dispatch,
    handlers, the start of the server and its \<open>select\<close> loop. The answers of the operating system are
    arguments. C10: every reachable socket table is well formed, and the rules change as the messages say.
  \<^item> \<open>CliRule\<close>, \<open>CliSession\<close> (\<open>cli_rule.c\<close>, \<open>cli_trans.c\<close>, \<open>cli_octeon.c\<close>, \<open>cli_sys.c\<close>): the commands, the
    connection to the server, and what is printed. C29 follows a show command from the client through the
    server and the data plane to the text on the screen; C30: without a server a command reports success.
  \<^item> \<open>MgmtTheorems\<close>: C8, C9 and C11, from a rule command to the table, from the table to the classifier,
    and the round trip of the message formats.

  \<^bold>\<open>Command line\<close> (\<open>mgrplane/src/client/cparser*\<close>, \<open>cli_main.c\<close>). The tree of commands, the glue functions
  that \<open>mk_parser.py\<close> generates, the callbacks of user input and \<open>glob\<close> are parameters (\<open>cli_env\<close>).
  \<^item> \<open>CpToken\<close> (\<open>cparser_token.c\<close>, \<open>cparser_token.h\<close>): nodes, the matcher and the value function of each kind of
    token. \<open>CpMatch\<close> states what a matcher owes the editor, the locale \<open>token_matcher\<close>: it accepts exactly the
    prefixes of its language. \<open>CpValue\<close>: C35, the language of every matcher; C36, the value of a number.
  \<^item> \<open>CpLine\<close> (\<open>cparser_line.c\<close>): the parser record, the line buffers, output.
  \<^item> \<open>CpFsm\<close> (\<open>cparser_fsm.c\<close>): the state machine that reads a line character by character. \<open>CpErase\<close>: C33, its
    states stay well typed; C34, erasing characters undoes typing them.
  \<^item> \<open>CpInput\<close> (\<open>cparser.c\<close>): help, completion, execution, \<open>cparser_input\<close>, which calls itself; its fuel also
    bounds the loops and \<open>None\<close> says that it is used up.
  \<^item> \<open>CpShell\<close> (\<open>cparser.c\<close>, \<open>cparser_io_unix.c\<close>, \<open>cli_main.c\<close>, \<open>test_cli_cmd.c\<close>): start, the keyboard, the loop,
    configuration files, the privileged mode.
  \<^item> \<open>CpParse\<close>: C31, a line of words is parsed word by word as a specification on the tree says.
  \<^item> \<open>CpEdit\<close>: C32, under any run of editing keys the line, the machine and the screen of a terminal agree;
    384 units of fuel, one more than the line has places, are enough for a key.
  \<^item> \<open>CpLimits\<close>: C37, at the last place of the line the return key does not come back with any fuel; C38, after a
    configuration file was loaded an erase key aborts.

  \<^bold>\<open>Data plane\<close> (\<open>dataplane/src\<close>).
  \<^item> \<open>Hash\<close> (\<open>include/jhash.h\<close>, \<open>flow/tluhash.h\<close>): the Jenkins hash on bytes and on words, C12, and the
    hash of a flow, the same in both directions.
  \<^item> \<open>Hlist\<close> (\<open>include/hlist.h\<close>): the doubly linked chains on a store of links, the predicate \<open>hl\<close> for a
    proper chain, and the locale of a store of chains that the flow table rests on.
  \<^item> \<open>Sweep\<close>: the sweep of a hash table by a timer, in two passes per bucket, as a locale: the table with its
    links, the test of an entry and its release are parameters. The flow table and the fragment table
    interpret it; the fuel of a pass is the length of the longest chain plus one.
  \<^item> \<open>Clist\<close> (\<open>include/list.h\<close>): the circular lists, with null and poisoned pointers, as another store of chains.
  \<^item> \<open>MemPool\<close> (\<open>platform/mem_pool.c\<close>): C13 to C15. Allocation hands out only free slices, release is
    checked, and no slice is lost or duplicated.
  \<^item> \<open>SosMalloc\<close>, \<open>SosInv\<close>, \<open>SosTheorems\<close> (\<open>common/sos_malloc.c\<close>): the allocator of small objects. C16: no
    buffer in use is handed out again and every buffer is large enough and inside the region, although
    the slices of a block are laid on top of each other. That layout makes the fifth request fault.
  \<^item> \<open>Mbuf\<close>, \<open>Packet\<close> (\<open>include/mbuf.h\<close>, \<open>common/mbuf.c\<close>, \<open>decode/decode-statistic.h\<close>): descriptors, reads
    through packet pointers, release of packets, moving a packet to a software buffer, counters.
  \<^item> \<open>Flow\<close>, \<open>FlowAge\<close> (\<open>flow/flow.c\<close>, \<open>flow/flow.h\<close>): lookup, insertion, references, locks and ageing. The cores
    interleave at the critical sections (the relation \<open>flow_reach\<close>). C17 to C21: the table is well formed
    under every interleaving, a packet and its reply get the same flow, and ageing removes exactly the
    idle flows. The fuel of a walk is the length of the chain plus one.
  \<^item> \<open>TxRing\<close> (\<open>platform/oct-rxtx.c\<close>, \<open>L7/l7.c\<close>): receiving, sending, and the rings of packets the output
    unit has not acknowledged, as bounded queues (a locale). C22. The rings have 64 places, which
    is enough fuel for a pass.
  \<^item> \<open>Ipv4\<close> (\<open>decode/decode-ipv4.h\<close>): header fields and the checksum, C23.
  \<^item> \<open>Defrag\<close>, \<open>DefragChain\<close>, \<open>Reasm\<close>, \<open>DefragTheorems\<close>, \<open>FragFrame\<close>, \<open>FragAge\<close> (\<open>decode/decode-defrag.c\<close>): the
    fragment table, one fragment, reassembly, ageing. C24: fragments are kept without overlap and a complete
    datagram has the payloads in order under a valid header. C25: the timer releases exactly the control
    blocks that are too old, with their fragments. \<open>FragFrame\<close>: what the operations on one control block
    leave alone.
  \<^item> \<open>Decode\<close>, \<open>DecodeTheorems\<close> (\<open>decode/decode.c\<close>, \<open>decode-ethernet.c\<close>, \<open>decode-vlan.c\<close>, \<open>decode-ipv4.c\<close>,
    \<open>decode-tcp.c\<close>, \<open>decode-udp.c\<close>, and \<open>FlowHandlePacket\<close>): C26 compares the decoders with a parser on the
    bytes of the frame, C27 follows a frame from the work entry to the output unit. The transport
    decoders share a contract (the locale \<open>l4_decoder\<close>).

  \<^bold>\<open>The program around the packet path\<close>.
  \<^item> \<open>Watchdog\<close> (\<open>common/watchdog.c\<close>, \<open>platform/oct-sched.c\<close>): the counters of the cores and the check of the
    thread. C28: the program aborts exactly in the runs in which a registered core is silent too long.
  \<^item> \<open>DpCmd\<close> (\<open>common/dp_cmd.c\<close>): requests of the management plane, the texts with the bounds of their arrays,
    the answer in the work entry.
  \<^item> \<open>PowLink\<close> (\<open>mgrplane/src/srv/srvpow\<close>): the raw socket of the management server, a part of C29.
  \<^item> \<open>MainLoop\<close>, \<open>WorkLog\<close>, \<open>MainTheorems\<close> (\<open>main.c\<close>, \<open>platform/oct-init.c\<close>, \<open>acl/dp_acl.c\<close>): timers, the start
    of a core, the loop. An iteration is a function of the work entry and of the answers of the platform
    (\<open>main_env\<close>), a run is a list of them; without enough \<open>loop_fuel\<close> an iteration is \<open>None\<close>. C39: a start
    establishes the invariants of all components. C40: where every work entry of a run ends, the cases in
    which it is lost included.

  \<^bold>\<open>Not modelled.\<close> \<open>Prediction\<close> and \<open>PreBuildHSTree\<close> of \<open>acl.c\<close> and \<open>old_main\<close> of \<open>main.c\<close>, which nothing calls;
  \<open>oldmain\<close> of \<open>cli_main.c\<close>, which is not compiled. Of the command line: the options (\<open>getopt\<close>), the attributes of
  the terminal, \<open>cparser_get_float\<close>, the generated tables and the sample commands on a list of employees. The
  functions that look up memory blocks another process made (\<open>Mem_Pool_Get\<close>, \<open>sos_mem_get\<close>, \<open>oct_sched_Get\<close>,
  \<open>FlowInfoGet\<close>, \<open>FragModuleInfo_Get\<close>, \<open>oct_rxtx_get\<close>), which copy addresses; for the start of the other cores
  their results are parameters. The set-up of cores, ports and receive groups (\<open>oct-init.c\<close>) and the opening of the
  raw socket (\<open>pow.c\<close>), which are calls into the Octeon SDK and the operating system.

  C24 is about one call on one control block; that the whole fragment table stays well formed under \<open>Defrag\<close> is
  proved only as far as the frame lemmas of \<open>FragFrame\<close> go.
\<close>

end
